(* ===== verification/Prelude.thy ===== *)
theory Prelude
  imports Main "HOL-Library.Word" "HOL-Library.Signed_Division" "HOL-Library.Finite_Map"
    "HOL-Library.FSet" "HOL-Library.Sublist" "HOL-Library.List_Lexorder" "HOL-Library.Char_ord"
begin

text \<open>
  Shared vocabulary of the development.  A Rust \<^verbatim>\<open>String\<close> or \<^verbatim>\<open>&str\<close> is
  its sequence of UTF-8 bytes, an Isabelle \<^typ>\<open>string\<close>; its order (\<^verbatim>\<open>Ord for str\<close>)
  is the bytewise lexicographic one that \<open>List_Lexorder\<close> and \<open>Char_ord\<close> install.
  \<^verbatim>\<open>BTreeMap\<close>/\<^verbatim>\<open>HashMap\<close> are finite maps, \<^verbatim>\<open>BTreeSet\<close>/\<^verbatim>\<open>HashSet\<close>
  finite sets, ordered iteration goes through \<open>sorted_list_of_fset\<close>.  Fixed-width integers
  are words; \<^verbatim>\<open>checked_add\<close> and \<^verbatim>\<open>checked_mul\<close> return \<open>None\<close> when the
  exact result does not fit.  An \<^verbatim>\<open>f64\<close> is its 64 bits, compared the IEEE way.
\<close>

named_theorems dispatch_simps \<open>case equations of the small dispatchers\<close>
named_theorems guard_simps \<open>facts about guard steps and open guards\<close>
named_theorems fold_simps \<open>what each handler of the journal fold leaves untouched\<close>
named_theorems route_simps \<open>unfoldings of the routing predicates\<close>

section \<open>Machine types\<close>

type_synonym u8 = "8 word"
type_synonym u32 = "32 word"
type_synonym u64 = "64 word"
type_synonym f64 = "64 word"

definition checked_add :: "u64 \<Rightarrow> u64 \<Rightarrow> u64 option" where
  "checked_add a b = (if unat a + unat b < 2 ^ 64 then Some (a + b) else None)"

definition checked_mul :: "u64 \<Rightarrow> u64 \<Rightarrow> u64 option" where
  "checked_mul a b = (if unat a * unat b < 2 ^ 64 then Some (a * b) else None)"

definition saturating_add :: "u64 \<Rightarrow> u64 \<Rightarrow> u64" where
  "saturating_add a b = (if unat a + unat b < 2 ^ 64 then a + b else - 1)"

definition saturating_sub :: "u64 \<Rightarrow> u64 \<Rightarrow> u64" where
  "saturating_sub a b = (if b \<le> a then a - b else 0)"

definition saturating_mul :: "u64 \<Rightarrow> u64 \<Rightarrow> u64" where
  "saturating_mul a b = (if unat a * unat b < 2 ^ 64 then a * b else - 1)"

lemma checked_add_unat: "checked_add a b = Some c \<Longrightarrow> unat c = unat a + unat b"
  unfolding checked_add_def
  by (auto split: if_splits simp: unat_word_ariths)

lemma checked_mul_unat: "checked_mul a b = Some c \<Longrightarrow> unat c = unat a * unat b"
  unfolding checked_mul_def
  by (auto split: if_splits simp: unat_word_ariths)

lemma saturating_add_unat: "unat (saturating_add a b) = min (unat a + unat b) (2 ^ 64 - 1)"
proof (cases "unat a + unat b < 2 ^ 64")
  case True
  then show ?thesis unfolding saturating_add_def by (simp add: unat_word_ariths)
next
  case False
  then show ?thesis unfolding saturating_add_def by (simp add: unsigned_minus_1_eq_mask mask_eq_exp_minus_1)
qed

lemma saturating_mul_unat: "unat (saturating_mul a b) = min (unat a * unat b) (2 ^ 64 - 1)"
proof (cases "unat a * unat b < 2 ^ 64")
  case True
  then show ?thesis unfolding saturating_mul_def by (simp add: unat_word_ariths)
next
  case False
  then show ?thesis unfolding saturating_mul_def by (simp add: unsigned_minus_1_eq_mask mask_eq_exp_minus_1)
qed

lemma saturating_sub_unat: "unat (saturating_sub a b) = unat a - unat b"
  unfolding saturating_sub_def by (simp add: unat_sub word_le_nat_alt)

section \<open>Doubles\<close>

text \<open>
  The order of two doubles read off their bits: the magnitude is the low 63 bits, a NaN is a
  magnitude above the one of infinity, and the sign bit negates, so both zeros have key 0.
\<close>

definition f64_magnitude :: "f64 \<Rightarrow> int" where
  "f64_magnitude w = uint w mod 2 ^ 63"

definition f64_is_nan :: "f64 \<Rightarrow> bool" where
  "f64_is_nan w = (f64_magnitude w > 0x7FF0000000000000)"

definition f64_key :: "f64 \<Rightarrow> int" where
  "f64_key w = (if uint w \<ge> 2 ^ 63 then - f64_magnitude w else f64_magnitude w)"

definition f64_lt :: "f64 \<Rightarrow> f64 \<Rightarrow> bool" where
  "f64_lt a b = (\<not> f64_is_nan a \<and> \<not> f64_is_nan b \<and> f64_key a < f64_key b)"

definition f64_le :: "f64 \<Rightarrow> f64 \<Rightarrow> bool" where
  "f64_le a b = (\<not> f64_is_nan a \<and> \<not> f64_is_nan b \<and> f64_key a \<le> f64_key b)"

abbreviation f64_zero :: f64 where "f64_zero \<equiv> 0"
abbreviation f64_one :: f64 where "f64_one \<equiv> 0x3FF0000000000000"

lemma f64_le_trans: "f64_le a b \<Longrightarrow> f64_le b c \<Longrightarrow> f64_le a c"
  unfolding f64_le_def by auto

lemma f64_lt_le: "f64_lt a b \<Longrightarrow> f64_le a b"
  unfolding f64_lt_def f64_le_def by auto

lemma f64_not_le: "\<not> f64_is_nan a \<Longrightarrow> \<not> f64_is_nan b \<Longrightarrow> (\<not> f64_le a b) = f64_lt b a"
  unfolding f64_lt_def f64_le_def by auto

section \<open>Bytes and text\<close>

definition byte :: "char \<Rightarrow> nat" where
  "byte c = of_char c"

definition in_range :: "nat \<Rightarrow> nat \<Rightarrow> char \<Rightarrow> bool" where
  "in_range lo hi c = (lo \<le> byte c \<and> byte c \<le> hi)"

definition is_digit :: "char \<Rightarrow> bool" where
  "is_digit c = in_range 48 57 c"

definition is_lower :: "char \<Rightarrow> bool" where
  "is_lower c = in_range 97 122 c"

definition is_upper :: "char \<Rightarrow> bool" where
  "is_upper c = in_range 65 90 c"

definition is_ascii :: "string \<Rightarrow> bool" where
  "is_ascii s = (\<forall>c\<in>set s. byte c < 128)"

definition digit_val :: "char \<Rightarrow> nat" where
  "digit_val c = byte c - 48"

definition digit_char :: "nat \<Rightarrow> char" where
  "digit_char n = char_of (48 + n)"

lemma byte_lt [simp]: "byte c < 256"
proof -
  have "of_char c < (2 ^ 8 :: nat)"
    unfolding of_char_def
    by (rule order_less_le_trans [OF horner_sum_of_bool_2_less]) simp
  then show ?thesis unfolding byte_def by simp
qed

lemma byte_char_of [simp]: "n < 256 \<Longrightarrow> byte (char_of n) = n"
  unfolding byte_def by simp

lemma byte_inject: "(byte a = byte b) = (a = b)"
  unfolding byte_def by (metis char_of_char)

lemma char_of_byte [simp]: "char_of (byte c) = c"
  unfolding byte_def by simp

lemma digit_char_digit [simp]: "n < 10 \<Longrightarrow> is_digit (digit_char n)"
  unfolding is_digit_def in_range_def digit_char_def by simp

lemma digit_val_char [simp]: "n < 10 \<Longrightarrow> digit_val (digit_char n) = n"
  unfolding digit_val_def digit_char_def by simp

lemma digit_char_val [simp]: "is_digit c \<Longrightarrow> digit_char (digit_val c) = c"
  unfolding digit_char_def digit_val_def is_digit_def in_range_def by simp

lemma digit_val_lt [simp]: "is_digit c \<Longrightarrow> digit_val c < 10"
  unfolding digit_val_def is_digit_def in_range_def by linarith

subsection \<open>Decimal numerals\<close>

definition dec_val :: "string \<Rightarrow> nat" where
  "dec_val s = foldl (\<lambda>n c. 10 * n + digit_val c) 0 s"

fun show_nat :: "nat \<Rightarrow> string" where
  "show_nat n = (if n < 10 then [digit_char n] else show_nat (n div 10) @ [digit_char (n mod 10)])"

declare show_nat.simps [simp del]

definition pad0 :: "nat \<Rightarrow> string \<Rightarrow> string" where
  "pad0 w s = replicate (w - length s) CHR ''0'' @ s"

text \<open>
  \<^verbatim>\<open>str::parse\<close> for an unsigned type of the given bound: an optional leading
  \<^verbatim>\<open>+\<close>, then at least one digit and nothing else; out of range is an error.  The signed
  parser also takes a leading \<^verbatim>\<open>-\<close>.
\<close>

definition parse_digits :: "string \<Rightarrow> nat option" where
  "parse_digits s = (if s \<noteq> [] \<and> list_all is_digit s then Some (dec_val s) else None)"

definition parse_unsigned :: "nat \<Rightarrow> string \<Rightarrow> nat option" where
  "parse_unsigned bound s =
     (case parse_digits (case s of [] \<Rightarrow> [] | c # r \<Rightarrow> if c = CHR ''+'' then r else s) of
        Some n \<Rightarrow> if n < bound then Some n else None
      | None \<Rightarrow> None)"

definition parse_u64 :: "string \<Rightarrow> u64 option" where
  "parse_u64 s = map_option of_nat (parse_unsigned (2 ^ 64) s)"

definition parse_u32 :: "string \<Rightarrow> u32 option" where
  "parse_u32 s = map_option of_nat (parse_unsigned (2 ^ 32) s)"

definition parse_i64 :: "string \<Rightarrow> int option" where
  "parse_i64 s =
     (case s of
        [] \<Rightarrow> None
      | c # r \<Rightarrow>
          if c = CHR ''-''
          then (case parse_digits r of
                  Some n \<Rightarrow> if n \<le> 2 ^ 63 then Some (- int n) else None
                | None \<Rightarrow> None)
          else map_option int (parse_unsigned (2 ^ 63) s))"

lemma dec_val_Nil [simp]: "dec_val [] = 0"
  by (simp add: dec_val_def)

lemma dec_val_snoc [simp]: "dec_val (s @ [c]) = 10 * dec_val s + digit_val c"
  by (simp add: dec_val_def)

lemma dec_val_append: "dec_val (s @ t) = 10 ^ length t * dec_val s + dec_val t"
proof (induction t rule: rev_induct)
  case Nil
  then show ?case by simp
next
  case (snoc c t)
  have "dec_val (s @ t @ [c]) = 10 * dec_val (s @ t) + digit_val c"
    using dec_val_snoc [of "s @ t" c] by simp
  then show ?case using snoc by (simp add: algebra_simps)
qed

lemma dec_val_Cons: "dec_val (c # t) = 10 ^ length t * digit_val c + dec_val t"
  using dec_val_append [of "[c]" t] dec_val_snoc [of "[]" c] by simp

lemma dec_val_zeros [simp]: "dec_val (replicate k CHR ''0'' @ s) = dec_val s"
proof -
  have "digit_val CHR ''0'' = 0" by (simp add: digit_val_def byte_def)
  then have "dec_val (replicate k CHR ''0'') = 0"
    by (induction k) (simp_all add: dec_val_Cons)
  then show ?thesis by (simp add: dec_val_append)
qed

lemma show_nat_digits: "list_all is_digit (show_nat n)"
  by (induction n rule: show_nat.induct)
    (subst show_nat.simps, auto simp: list_all_iff)

lemma show_nat_nonempty [simp]: "show_nat n \<noteq> []"
  by (subst show_nat.simps) simp

lemma dec_val_show [simp]: "dec_val (show_nat n) = n"
proof (induction n rule: show_nat.induct)
  case (1 n)
  show ?case
  proof (cases "n < 10")
    case True
    then show ?thesis using dec_val_snoc [of "[]"] by (simp add: show_nat.simps)
  next
    case False
    then show ?thesis using 1 by (simp add: show_nat.simps [of n])
  qed
qed

lemma show_nat_inject [simp]: "(show_nat a = show_nat b) = (a = b)"
  by (metis dec_val_show)

lemma parse_digits_show [simp]: "parse_digits (show_nat n) = Some n"
  unfolding parse_digits_def using show_nat_digits by simp

lemma digit_not_sign: "is_digit c \<Longrightarrow> c \<noteq> CHR ''+'' \<and> c \<noteq> CHR ''-''"
  by (auto simp: is_digit_def in_range_def byte_def)

lemma parse_unsigned_digits:
  assumes "s \<noteq> []" "list_all is_digit s" "dec_val s < bound"
  shows "parse_unsigned bound s = Some (dec_val s)"
proof -
  obtain c r where s: "s = c # r" using assms(1) by (cases s) auto
  then have "c \<noteq> CHR ''+''" using assms(2) digit_not_sign by simp
  then show ?thesis
    unfolding parse_unsigned_def parse_digits_def using s assms by simp
qed

lemma parse_unsigned_show: "n < bound \<Longrightarrow> parse_unsigned bound (show_nat n) = Some n"
  using parse_unsigned_digits [of "show_nat n" bound] show_nat_digits by simp

lemma parse_i64_digits:
  assumes "s \<noteq> []" "list_all is_digit s" "dec_val s < 2 ^ 63"
  shows "parse_i64 s = Some (int (dec_val s))"
proof -
  obtain c r where s: "s = c # r" using assms(1) by (cases s) auto
  then have "c \<noteq> CHR ''-''" using assms(2) digit_not_sign by simp
  then show ?thesis
    unfolding parse_i64_def using s assms parse_unsigned_digits [of s "2 ^ 63"] by simp
qed

lemma show_nat_hd_nonzero: "0 < n \<Longrightarrow> hd (show_nat n) \<noteq> CHR ''0''"
proof (induction n rule: show_nat.induct)
  case (1 n)
  show ?case
  proof (cases "n < 10")
    case True
    then have "hd (show_nat n) = digit_char n" by (simp add: show_nat.simps)
    moreover have "byte (digit_char n) \<noteq> byte CHR ''0''"
      using True 1(2) unfolding digit_char_def by (simp add: byte_def)
    ultimately show ?thesis by (metis byte_inject)
  next
    case False
    then have "hd (show_nat n) = hd (show_nat (n div 10))"
      by (simp add: show_nat.simps [of n])
    then show ?thesis using 1 False by simp
  qed
qed

lemma dec_val_bound: "list_all is_digit s \<Longrightarrow> dec_val s < 10 ^ length s"
proof (induction s rule: rev_induct)
  case Nil
  then show ?case by simp
next
  case (snoc c s)
  then have "dec_val s + 1 \<le> 10 ^ length s" "digit_val c < 10" by auto
  then have "10 * dec_val s + digit_val c < 10 * 10 ^ length s" by linarith
  then show ?case by simp
qed

lemma show_nat_dec_val:
  "s \<noteq> [] \<Longrightarrow> list_all is_digit s \<Longrightarrow> hd s \<noteq> CHR ''0'' \<Longrightarrow> show_nat (dec_val s) = s"
proof (induction s rule: rev_induct)
  case Nil
  then show ?case by simp
next
  case (snoc c s)
  show ?case
  proof (cases "s = []")
    case True
    then show ?thesis using snoc(3) dec_val_snoc [of "[]" c] by (simp add: show_nat.simps)
  next
    case False
    then have IH: "show_nat (dec_val s) = s" using snoc by (cases s) auto
    have "dec_val s \<noteq> 0"
    proof
      assume "dec_val s = 0"
      then have "s = [digit_char 0]" using IH by (simp add: show_nat.simps)
      moreover have "byte (digit_char 0) = byte CHR ''0''"
        by (simp add: digit_char_def byte_def)
      then have "digit_char 0 = CHR ''0''" by (simp only: byte_inject)
      ultimately show False using snoc(4) by simp
    qed
    then have "\<not> 10 * dec_val s + digit_val c < 10" by simp
    moreover have "(10 * dec_val s + digit_val c) div 10 = dec_val s"
      "(10 * dec_val s + digit_val c) mod 10 = digit_val c"
      using snoc(3) by auto
    ultimately have "show_nat (10 * dec_val s + digit_val c) = s @ [digit_char (digit_val c)]"
      using IH by (simp add: show_nat.simps [of "10 * dec_val s + digit_val c"])
    then show ?thesis using snoc(3) by simp
  qed
qed

subsection \<open>UTF-8\<close>

text \<open>
  \<^verbatim>\<open>String::from_utf8\<close> and \<^verbatim>\<open>str::chars\<close>: the scalar values of a byte
  sequence, \<open>None\<close> when it is not well-formed UTF-8 (overlong forms, surrogates and values
  above U+10FFFF are refused).
\<close>

definition cont_byte :: "char \<Rightarrow> bool" where
  "cont_byte c = in_range 128 191 c"

definition second_ok :: "char \<Rightarrow> char \<Rightarrow> bool" where
  "second_ok a b =
     (if byte a = 0xE0 then in_range 0xA0 0xBF b
      else if byte a = 0xED then in_range 0x80 0x9F b
      else if byte a = 0xF0 then in_range 0x90 0xBF b
      else if byte a = 0xF4 then in_range 0x80 0x8F b
      else cont_byte b)"

fun utf8_decode :: "string \<Rightarrow> nat list option" where
  "utf8_decode [] = Some []"
| "utf8_decode (a # r) =
     (if byte a < 0x80 then map_option ((#) (byte a)) (utf8_decode r)
      else if in_range 0xC2 0xDF a then
        (case r of
           b # r' \<Rightarrow>
             if cont_byte b
             then map_option ((#) ((byte a - 0xC0) * 64 + (byte b - 0x80))) (utf8_decode r')
             else None
         | _ \<Rightarrow> None)
      else if in_range 0xE0 0xEF a then
        (case r of
           b # c # r' \<Rightarrow>
             if second_ok a b \<and> cont_byte c
             then map_option ((#) ((byte a - 0xE0) * 4096 + (byte b - 0x80) * 64 + (byte c - 0x80)))
                    (utf8_decode r')
             else None
         | _ \<Rightarrow> None)
      else if in_range 0xF0 0xF4 a then
        (case r of
           b # c # d # r' \<Rightarrow>
             if second_ok a b \<and> cont_byte c \<and> cont_byte d
             then map_option ((#) ((byte a - 0xF0) * 262144 + (byte b - 0x80) * 4096
                                   + (byte c - 0x80) * 64 + (byte d - 0x80)))
                    (utf8_decode r')
             else None
         | _ \<Rightarrow> None)
      else None)"

definition utf8_valid :: "string \<Rightarrow> bool" where
  "utf8_valid s = (utf8_decode s \<noteq> None)"

definition str_chars :: "string \<Rightarrow> nat list" where
  "str_chars s = (case utf8_decode s of Some cs \<Rightarrow> cs | None \<Rightarrow> [])"

lemma utf8_ascii: "is_ascii s \<Longrightarrow> utf8_decode s = Some (map byte s)"
  by (induction s) (auto simp: is_ascii_def)

lemma ascii_utf8_valid: "is_ascii s \<Longrightarrow> utf8_valid s"
  by (simp add: utf8_valid_def utf8_ascii)

subsection \<open>Trimming\<close>

text \<open>
  \<^verbatim>\<open>str::trim\<close> removes the characters with the Unicode property White_Space at both ends.
  On well-formed UTF-8 a character starts the text exactly when its bytes are a prefix of it, and
  ends it exactly when they are a suffix, since the first byte of a character is never a
  continuation byte.
\<close>

definition white_spaces :: "string list" where
  "white_spaces = map (map char_of)
     ([[9], [10], [11], [12], [13], [32], [194, 133], [194, 160], [225, 154, 128],
       [226, 128, 128], [226, 128, 129], [226, 128, 130], [226, 128, 131], [226, 128, 132],
       [226, 128, 133], [226, 128, 134], [226, 128, 135], [226, 128, 136], [226, 128, 137],
       [226, 128, 138], [226, 128, 168], [226, 128, 169], [226, 128, 175], [226, 129, 159],
       [227, 128, 128]] :: nat list list)"

function strip_front :: "string list \<Rightarrow> string \<Rightarrow> string" where
  "strip_front ws s =
     (case find (\<lambda>w. w \<noteq> [] \<and> prefix w s) ws of
        None \<Rightarrow> s
      | Some w \<Rightarrow> strip_front ws (drop (length w) s))"
  by pat_completeness auto
termination
proof (relation "measure (\<lambda>(ws, s). length s)")
  show "wf (measure (\<lambda>(ws :: string list, s :: string). length s))" by simp
next
  fix ws :: "string list" and s w
  assume "find (\<lambda>w. w \<noteq> [] \<and> prefix w s) ws = Some w"
  then have "w \<noteq> []" "prefix w s" by (auto simp: find_Some_iff)
  then have "0 < length w" "length w \<le> length s" by (auto dest: prefix_length_le)
  then have "length (drop (length w) s) < length s" by (simp only: length_drop)
  then show "((ws, drop (length w) s), (ws, s)) \<in> measure (\<lambda>(ws, s). length s)" by simp
qed

declare strip_front.simps [simp del]

definition trim_start :: "string \<Rightarrow> string" where
  "trim_start s = strip_front white_spaces s"

definition trim_end :: "string \<Rightarrow> string" where
  "trim_end s = rev (strip_front (map rev white_spaces) (rev s))"

definition trim :: "string \<Rightarrow> string" where
  "trim s = trim_end (trim_start s)"

lemma strip_front_id:
  assumes "\<And>w. w \<in> set ws \<Longrightarrow> w \<noteq> [] \<Longrightarrow> \<not> prefix w s"
  shows "strip_front ws s = s"
proof -
  have "find (\<lambda>w. w \<noteq> [] \<and> prefix w s) ws = None"
    using assms by (auto simp: find_None_iff)
  then show ?thesis by (simp add: strip_front.simps)
qed

lemma strip_front_suffix: "\<exists>p. s = p @ strip_front ws s"
proof (induction ws s rule: strip_front.induct)
  case (1 ws s)
  show ?case
  proof (cases "find (\<lambda>w. w \<noteq> [] \<and> prefix w s) ws")
    case None
    then show ?thesis by (simp add: strip_front.simps)
  next
    case (Some w)
    then have "prefix w s" by (auto simp: find_Some_iff)
    then have "s = w @ drop (length w) s" by (auto simp: prefix_def)
    moreover obtain p where "drop (length w) s = p @ strip_front ws (drop (length w) s)"
      using 1 [OF Some] by blast
    ultimately have "s = (w @ p) @ strip_front ws (drop (length w) s)" by simp
    moreover have "strip_front ws s = strip_front ws (drop (length w) s)"
      using Some by (subst strip_front.simps) simp
    ultimately show ?thesis by metis
  qed
qed

definition graphic :: "char \<Rightarrow> bool" where
  "graphic c = in_range 33 126 c"

lemma white_space_hd:
  assumes "w \<in> set white_spaces"
  shows "w \<noteq> [] \<and> \<not> graphic (hd w) \<and> \<not> graphic (last w)"
proof -
  have "list_all (\<lambda>w. w \<noteq> [] \<and> \<not> graphic (hd w) \<and> \<not> graphic (last w)) white_spaces"
    unfolding white_spaces_def graphic_def in_range_def byte_def by simp
  then show ?thesis using assms by (auto simp: list_all_iff)
qed

lemma trim_graphic:
  assumes "s \<noteq> []" "graphic (hd s)" "graphic (last s)"
  shows "trim s = s"
proof -
  have "strip_front white_spaces s = s"
  proof (rule strip_front_id)
    fix w assume w: "w \<in> set white_spaces" "w \<noteq> []"
    show "\<not> prefix w s"
      using white_space_hd [OF w(1)] w(2) assms by (cases w; cases s) auto
  qed
  moreover have "strip_front (map rev white_spaces) (rev s) = rev s"
  proof (rule strip_front_id)
    fix w assume w: "w \<in> set (map rev white_spaces)" "w \<noteq> []"
    then obtain v where v: "v \<in> set white_spaces" "w = rev v" by auto
    then have "hd w = last v" "v \<noteq> []" using w(2) by (auto simp: hd_rev)
    then have "\<not> graphic (hd w)" using white_space_hd [OF v(1)] by simp
    moreover have "graphic (hd (rev s))" using assms by (simp add: hd_rev)
    ultimately show "\<not> prefix w (rev s)"
      using w(2) assms(1) by (cases w; cases "rev s") auto
  qed
  ultimately show ?thesis by (simp add: trim_def trim_start_def trim_end_def)
qed

section \<open>Lists and finite maps\<close>

lemma foldl_inv:
  assumes "P a" "\<And>a x. x \<in> set xs \<Longrightarrow> P a \<Longrightarrow> P (f a x)"
  shows "P (foldl f a xs)"
  using assms by (induction xs arbitrary: a) auto

text \<open>
  A flag a list sets and clears is set at the end when some element sets it and no later one
  clears it.
\<close>

lemma split_snoc:
  "(\<exists>us c vs. xs @ [x] = us @ c # vs \<and> P c \<and> (\<forall>y\<in>set vs. \<not> Q y)) =
    (P x \<or> (\<exists>us c vs. xs = us @ c # vs \<and> P c \<and> (\<forall>y\<in>set vs. \<not> Q y)) \<and> \<not> Q x)" (is "?L = (P x \<or> ?R \<and> \<not> Q x)")
proof
  assume ?L
  then obtain us c vs where c: "xs @ [x] = us @ c # vs" "P c" "\<forall>y\<in>set vs. \<not> Q y" by blast
  then show "P x \<or> ?R \<and> \<not> Q x" by (cases vs rule: rev_cases) auto
next
  assume "P x \<or> ?R \<and> \<not> Q x"
  then show ?L
  proof
    assume "P x"
    then show ?L by (intro exI [of _ xs] exI [of _ x] exI [of _ "[]"]) simp
  next
    assume "?R \<and> \<not> Q x"
    then obtain us c vs where "xs = us @ c # vs" "P c" "\<forall>y\<in>set vs. \<not> Q y" "\<not> Q x" by blast
    then show ?L by (intro exI [of _ us] exI [of _ c] exI [of _ "vs @ [x]"]) auto
  qed
qed

lemma last_wins:
  "foldl (\<lambda>b x. P x \<or> b \<and> \<not> Q x) False xs =
    (\<exists>us c vs. xs = us @ c # vs \<and> P c \<and> (\<forall>y\<in>set vs. \<not> Q y))"
proof (induction xs rule: rev_induct)
  case (snoc x xs)
  then show ?case unfolding split_snoc by simp
qed simp

definition fget :: "('k, 'v) fmap \<Rightarrow> 'v \<Rightarrow> 'k \<Rightarrow> 'v" where
  "fget m d k = (case fmlookup m k of Some v \<Rightarrow> v | None \<Rightarrow> d)"

lemma fget_upd [simp]: "fget (fmupd k v m) d k' = (if k' = k then v else fget m d k')"
  by (simp add: fget_def)

lemma fget_empty [simp]: "fget fmempty d k = d"
  by (simp add: fget_def)

fun position :: "('a \<Rightarrow> bool) \<Rightarrow> 'a list \<Rightarrow> nat option" where
  "position p [] = None"
| "position p (x # xs) = (if p x then Some 0 else map_option Suc (position p xs))"

lemma position_Some:
  "position p xs = Some i \<Longrightarrow> i < length xs \<and> p (xs ! i) \<and> (\<forall>j<i. \<not> p (xs ! j))"
proof (induction xs arbitrary: i)
  case Nil
  then show ?case by simp
next
  case (Cons x xs)
  then show ?case by (auto split: if_splits simp: less_Suc_eq_0_disj)
qed

lemma position_None: "(position p xs = None) = (\<forall>x\<in>set xs. \<not> p x)"
  by (induction xs) auto

fun split_once :: "char \<Rightarrow> string \<Rightarrow> (string \<times> string) option" where
  "split_once c [] = None"
| "split_once c (x # xs) =
     (if x = c then Some ([], xs)
      else map_option (\<lambda>(a, b). (x # a, b)) (split_once c xs))"

definition rsplit_once :: "char \<Rightarrow> string \<Rightarrow> (string \<times> string) option" where
  "rsplit_once c s = map_option (\<lambda>(a, b). (rev b, rev a)) (split_once c (rev s))"

definition strip_prefix :: "string \<Rightarrow> string \<Rightarrow> string option" where
  "strip_prefix p s = (if prefix p s then Some (drop (length p) s) else None)"

text \<open>\<^verbatim>\<open>str::split_once\<close> at a text, and \<^verbatim>\<open>str::strip_suffix\<close>.\<close>

fun split_once_str :: "string \<Rightarrow> string \<Rightarrow> (string \<times> string) option" where
  "split_once_str sep [] = (if sep = [] then Some ([], []) else None)"
| "split_once_str sep (x # xs) =
     (if prefix sep (x # xs) then Some ([], drop (length sep) (x # xs))
      else map_option (\<lambda>(a, b). (x # a, b)) (split_once_str sep xs))"

definition strip_suffix :: "string \<Rightarrow> string \<Rightarrow> string option" where
  "strip_suffix p s = (if suffix p s then Some (take (length s - length p) s) else None)"

lemma strip_suffix_append [simp]: "strip_suffix p (s @ p) = Some s"
  by (simp add: strip_suffix_def suffix_def)

lemma split_once_Some: "split_once c s = Some (a, b) \<Longrightarrow> s = a @ c # b \<and> c \<notin> set a"
  by (induction s arbitrary: a) (auto split: if_splits)

lemma split_once_append [simp]: "c \<notin> set a \<Longrightarrow> split_once c (a @ c # b) = Some (a, b)"
  by (induction a) auto

lemma rsplit_once_Some: "rsplit_once c s = Some (a, b) \<Longrightarrow> s = a @ c # b \<and> c \<notin> set b"
proof -
  assume "rsplit_once c s = Some (a, b)"
  then have "split_once c (rev s) = Some (rev b, rev a)"
    by (auto simp: rsplit_once_def)
  then have "rev s = rev b @ c # rev a" "c \<notin> set (rev b)" by (auto dest: split_once_Some)
  then show ?thesis by (metis append.assoc append_Cons append_Nil rev_append rev_rev_ident
        rev_singleton_conv set_rev rev.simps(2))
qed

lemma rsplit_once_append [simp]: "c \<notin> set b \<Longrightarrow> rsplit_once c (a @ c # b) = Some (a, b)"
  by (simp add: rsplit_once_def)

lemma strip_prefix_append [simp]: "strip_prefix p (p @ s) = Some s"
  by (simp add: strip_prefix_def)

lemma strip_prefix_Some: "strip_prefix p s = Some r \<Longrightarrow> s = p @ r"
  by (auto simp: strip_prefix_def prefix_def split: if_splits)

end
