(* ===== verification/Civil_Clock.thy ===== *)
theory Civil_Clock
  imports Prelude
begin

text \<open>
  The civil calendar of \<^verbatim>\<open>apb-core/src/clock.rs\<close>: Hinnant's conversions between a
  proleptic Gregorian date and the days since 1970-01-01, and the RFC 3339 rendering of an epoch
  timestamp.  \<^verbatim>\<open>i64\<close> values are integers divided towards zero (\<open>sdiv\<close>): every
  year the program passes is at most 9999, far from the range of the type.
\<close>

section \<open>Definitions\<close>

definition days_from_civil :: "int \<Rightarrow> nat \<Rightarrow> nat \<Rightarrow> int" where
  "days_from_civil y0 m0 d =
     (let y = (if m0 \<le> 2 then y0 - 1 else y0);
          era = (if y \<ge> 0 then y else y - 399) sdiv 400;
          yoe = y - era * 400;
          m = int m0;
          doy = (153 * (if m > 2 then m - 3 else m + 9) + 2) sdiv 5 + int d - 1;
          doe = yoe * 365 + yoe sdiv 4 - yoe sdiv 100 + doy
      in era * 146097 + doe - 719468)"

definition days_in_month :: "int \<Rightarrow> nat \<Rightarrow> nat" where
  "days_in_month y m =
     (if m \<in> {1, 3, 5, 7, 8, 10, 12} then 31
      else if m \<in> {4, 6, 9, 11} then 30
      else if m = 2 \<and> y smod 4 = 0 \<and> (y smod 100 \<noteq> 0 \<or> y smod 400 = 0) then 29
      else if m = 2 then 28
      else 0)"

definition civil_from_days :: "int \<Rightarrow> int \<times> nat \<times> nat" where
  "civil_from_days z0 =
     (let z = z0 + 719468;
          era = (if z \<ge> 0 then z else z - 146096) sdiv 146097;
          doe = z - era * 146097;
          yoe = (doe - doe div 1460 + doe div 36524 - doe div 146096) div 365;
          y = yoe + era * 400;
          doy = doe - (365 * yoe + yoe div 4 - yoe div 100);
          mp = (5 * doy + 2) div 153;
          d = nat (doy - (153 * mp + 2) div 5 + 1);
          m = nat (if mp < 10 then mp + 3 else mp - 9)
      in (if m \<le> 2 then y + 1 else y, m, d))"

definition iso_utc :: "u64 \<Rightarrow> string" where
  "iso_utc ms =
     (let secs = uint ms div 1000;
          days = secs div 86400;
          rem = secs mod 86400;
          (y, m, d) = civil_from_days days;
          (hh, mm, ss) = (nat (rem div 3600), nat ((rem mod 3600) div 60), nat (rem mod 60))
      in pad0 4 (show_nat (nat y)) @ ''-'' @ pad0 2 (show_nat m) @ ''-'' @ pad0 2 (show_nat d)
         @ ''T'' @ pad0 2 (show_nat hh) @ '':'' @ pad0 2 (show_nat mm) @ '':''
         @ pad0 2 (show_nat ss) @ ''Z'')"

section \<open>The calendar round trip\<close>

text \<open>The day number inside a 400-year era, and the year read back from it.\<close>

definition era_year :: "int \<Rightarrow> int" where
  "era_year doe = (doe - doe div 1460 + doe div 36524 - doe div 146096) div 365"

definition year_start :: "int \<Rightarrow> int" where
  "year_start yoe = 365 * yoe + yoe div 4 - yoe div 100"

lemma int_div_eq_iff: "0 < n \<Longrightarrow> (a div n = k) = (n * k \<le> a \<and> a < n * k + (n :: int))"
proof
  assume n: "0 < n" and k: "a div n = k"
  have "n * k + a mod n = a" using k by (metis mult_div_mod_eq)
  then show "n * k \<le> a \<and> a < n * k + n"
    using pos_mod_bound [OF n, of a] pos_mod_sign [OF n, of a] by linarith
next
  assume "0 < n" "n * k \<le> a \<and> a < n * k + n"
  then show "a div n = k" using int_div_pos_eq [of a n k "a - n * k"] by simp
qed

lemma div_succ:
  fixes x n :: int
  assumes "0 < n"
  shows "(x + 1) div n = x div n + (if n dvd x + 1 then 1 else 0)"
proof -
  have "(x + 1) div n * n + (x + 1) mod n = x div n * n + x mod n + 1" by simp
  show ?thesis
  proof (cases "n dvd x + 1")
    case True
    then obtain k where k: "x + 1 = n * k" by auto
    then have "x = n * (k - 1) + (n - 1)" by (simp add: algebra_simps)
    then have "x div n = k - 1" using assms by (simp add: div_pos_pos_trivial)
    then show ?thesis using True k assms by simp
  next
    case False
    then have "(x + 1) mod n \<noteq> 0" by (simp add: dvd_eq_mod_eq_0)
    then have "0 < (x + 1) mod n" using assms by (simp add: order_le_neq_trans)
    moreover have "(x + 1) mod n < n" using assms by simp
    ultimately have "x = n * ((x + 1) div n) + ((x + 1) mod n - 1)" "0 \<le> (x + 1) mod n - 1"
      "(x + 1) mod n - 1 < n" by (simp_all add: algebra_simps minus_mod_eq_mult_div)
    then have "x div n = (x + 1) div n" by (metis int_div_pos_eq)
    then show ?thesis using False by simp
  qed
qed

definition era_days :: "int \<Rightarrow> int" where
  "era_days doe = doe - doe div 1460 + doe div 36524 - doe div 146096"

lemma era_days_Suc: "era_days x \<le> era_days (x + 1)"
proof -
  have "(146096::int) dvd x + 1 \<Longrightarrow> 36524 dvd x + 1"
    by (rule dvd_trans [of _ 146096]) simp_all
  then show ?thesis
    unfolding era_days_def by (simp add: div_succ) 
qed

lemma era_days_step:
  "\<not> 1460 dvd x + 1 \<Longrightarrow> \<not> 146096 dvd x + 1 \<Longrightarrow> era_days x + 1 \<le> era_days (x + 1)"
  unfolding era_days_def by (simp add: div_succ)

lemma era_days_mono: "x \<le> y \<Longrightarrow> era_days x \<le> era_days y"
proof (induction y rule: int_ge_induct)
  case base
  then show ?case by simp
next
  case (step y)
  then show ?case using era_days_Suc [of y] by linarith
qed

lemma era_days_year_start:
  assumes "0 \<le> y" "y < 400"
  shows "era_days (year_start y) = 365 * y"
    and "0 < y \<Longrightarrow> era_days (year_start y - 1) < 365 * y"
proof -
  define a b c d where "a = y div 4" "b = y mod 4" "c = y div 100" "d = y mod 100"
  have y4: "y = 4 * a + b" "0 \<le> b" "b < 4" and y100: "y = 100 * c + d" "0 \<le> d" "d < 100"
    unfolding a_b_c_d_def by auto
  have a4: "a = 25 * c + d div 4"
    unfolding a_b_c_d_def(1) y100(1) by simp
  have dd: "0 \<le> d div 4" "4 * (d div 4) \<le> d" using y100 by simp_all
  have S: "year_start y = 365 * y + a - c"
    unfolding year_start_def a_b_c_d_def by simp
  have S1: "year_start y = 1460 * a + (365 * b + a - c)" "0 \<le> 365 * b + a - c"
    "365 * b + a - c < 1460"
    using S y4 y100 a4 dd assms by linarith+
  have S2: "year_start y = 36524 * c + (365 * d + d div 4)" "0 \<le> 365 * d + d div 4"
    "365 * d + d div 4 < 36524"
    using S a4 y100 dd by linarith+
  have d1: "year_start y div 1460 = a" using S1 int_div_eq_iff [of 1460 "year_start y" a] by linarith
  have d2: "year_start y div 36524 = c" using S2 int_div_eq_iff [of 36524 "year_start y" c] by linarith
  have range: "0 \<le> year_start y" "year_start y < 146096"
    using S y4 y100 a4 dd assms by linarith+
  have d3: "year_start y div 146096 = 0" using range by simp
  show eq: "era_days (year_start y) = 365 * y"
    unfolding era_days_def d1 d2 d3 using S by simp
  show "era_days (year_start y - 1) < 365 * y" if "0 < y"
  proof -
    have pos: "0 < 365 * b + a - c" using that y4 y100 assms by linarith
    have "0 \<le> d div 4" using y100 by simp
    then have year_pos: "0 < year_start y" using S that y4 y100 a4 assms by linarith
    have "year_start y mod 1460 = 365 * b + a - c"
      using int_mod_pos_eq [OF S1] by simp
    then have "\<not> 1460 dvd year_start y - 1 + 1"
      using pos by (simp add: dvd_eq_mod_eq_0)
    moreover have "\<not> 146096 dvd year_start y - 1 + 1"
      using range(2) year_pos by (auto dest!: zdvd_imp_le)
    ultimately have "era_days (year_start y - 1) + 1 \<le> era_days (year_start y - 1 + 1)"
      by (rule era_days_step)
    then show ?thesis using eq by simp
  qed
qed

lemma era_year_start:
  assumes "0 \<le> y" "y < 400" "year_start y \<le> doe"
    and "doe < year_start (y + 1) \<or> y = 399 \<and> doe = 146096"
  shows "era_year doe = y"
proof -
  have lo: "365 * y \<le> era_days doe"
    using era_days_mono [OF assms(3)] era_days_year_start(1) [OF assms(1,2)] by simp
  have hi: "era_days doe < 365 * (y + 1)"
  proof (cases "y = 399")
    case True
    then have "doe \<le> 146096" using assms(4) by (auto simp: year_start_def)
    then have "era_days doe \<le> era_days 146096" by (rule era_days_mono)
    then show ?thesis using True by (simp add: era_days_def)
  next
    case False
    then have "doe \<le> year_start (y + 1) - 1" using assms(4) by auto
    then have "era_days doe \<le> era_days (year_start (y + 1) - 1)" by (rule era_days_mono)
    also have "\<dots> < 365 * (y + 1)" using era_days_year_start(2) [of "y + 1"] assms False by simp
    finally show ?thesis .
  qed
  show ?thesis
    unfolding era_year_def era_days_def [symmetric]
    using int_div_pos_eq [of "era_days doe" 365 y "era_days doe - 365 * y"] lo hi by simp
qed

lemma sdiv_nonneg: "0 \<le> a \<Longrightarrow> 0 < b \<Longrightarrow> a sdiv b = a div (b :: int)"
  by (cases "a = 0") (simp_all add: signed_divide_int_def)

lemma smod_zero_iff: "0 < b \<Longrightarrow> (a smod b = 0) = ((b :: int) dvd a)"
  by (cases "a = 0") (auto simp: smod_int_alt_def mod_eq_0_iff_dvd sgn_if)

lemma era_floor:
  assumes "0 < b" and c: "c = b - 1"
  shows "(if a \<ge> 0 then a else a - c) sdiv b = a div (b :: int)"
proof (cases "a \<ge> 0")
  case True
  then show ?thesis using sdiv_nonneg assms(1) by simp
next
  case False
  define k r where "k = a div b" "r = a mod b"
  have a: "a = b * k + r" "0 \<le> r" "r < b" unfolding k_r_def using assms(1) by auto
  have neg: "a - (b - 1) < 0" using False assms(1) by simp
  have "(b - 1 - a) div b = - k"
    unfolding int_div_eq_iff [OF assms(1)] using a by simp
  then have "(a - (b - 1)) sdiv b = k"
    using neg assms(1) by (simp add: signed_divide_int_def abs_if)
  then show ?thesis using False c unfolding k_r_def by simp
qed

text \<open>Month lengths counted from March, the way the conversions count them.\<close>

definition month_index :: "nat \<Rightarrow> int" where
  "month_index m = (if m > 2 then int m - 3 else int m + 9)"

definition month_start :: "int \<Rightarrow> int" where
  "month_start mp = (153 * mp + 2) div 5"

definition leap :: "int \<Rightarrow> bool" where
  "leap y = (4 dvd y \<and> (\<not> 100 dvd y \<or> 400 dvd y))"

lemma days_in_month_leap: "days_in_month y 2 = (if leap y then 29 else 28)"
  unfolding days_in_month_def leap_def using smod_zero_iff [of 4 y] smod_zero_iff [of 100 y]
    smod_zero_iff [of 400 y] by auto

lemma month_cases:
  assumes "1 \<le> m" "m \<le> (12 :: nat)"
  shows "m = 1 \<or> m = 2 \<or> m = 3 \<or> m = 4 \<or> m = 5 \<or> m = 6 \<or> m = 7 \<or> m = 8 \<or> m = 9 \<or> m = 10
    \<or> m = 11 \<or> m = 12"
  using assms by presburger

lemma month_bounds:
  assumes "1 \<le> m" "m \<le> 12" "1 \<le> d" "d \<le> days_in_month y m"
  shows "month_start (month_index m) + int d - 1 < 365 + (if m \<le> 2 \<and> leap y then 1 else 0)"
    and "0 \<le> month_start (month_index m) + int d - 1"
    and "(5 * (month_start (month_index m) + int d - 1) + 2) div 153 = month_index m"
proof -
  have d: "1 \<le> int d" "int d \<le> int (days_in_month y m)" using assms by auto
  show "month_start (month_index m) + int d - 1 < 365 + (if m \<le> 2 \<and> leap y then 1 else 0)"
    using month_cases [OF assms(1,2)] d days_in_month_leap [of y]
    unfolding month_start_def month_index_def
    by (elim disjE) (simp_all add: days_in_month_def split: if_splits)
  show "0 \<le> month_start (month_index m) + int d - 1"
    using month_cases [OF assms(1,2)] d unfolding month_start_def month_index_def
    by (elim disjE) simp_all
  show "(5 * (month_start (month_index m) + int d - 1) + 2) div 153 = month_index m"
    using month_cases [OF assms(1,2)] d days_in_month_leap [of y]
    unfolding month_start_def month_index_def
    unfolding int_div_eq_iff [of 153, simplified]
    by (elim disjE) (simp_all add: days_in_month_def split: if_splits)
qed

lemma year_start_Suc:
  assumes "0 \<le> y" "y < 399"
  shows "year_start (y + 1) = year_start y + 365 + (if leap (y + 1) then 1 else 0)"
proof -
  have "\<not> 400 dvd y + 1" using assms by (auto dest: zdvd_imp_le)
  moreover have "100 dvd y + 1 \<Longrightarrow> 4 dvd y + 1" by (rule dvd_trans [of _ 100]) simp_all
  ultimately show ?thesis
    unfolding year_start_def leap_def by (simp add: div_succ)
qed

lemma leap_mod: "leap (400 * k + y) = leap y"
proof -
  have "4 dvd 400 * k" "100 dvd 400 * k" "400 dvd 400 * k"
    by (auto intro: dvd_mult2 [of _ 400])
  then show ?thesis unfolding leap_def by (simp add: dvd_add_right_iff)
qed

lemma day_of_era_bound:
  assumes yoe: "0 \<le> yoe" "yoe < 400"
    and doy: "0 \<le> doy" "doy < 365 + (if b \<and> leap (yoe + 1) then 1 else 0)"
  shows "year_start yoe + doy < year_start (yoe + 1) \<or> yoe = 399 \<and> year_start yoe + doy = 146096"
    and "0 \<le> year_start yoe + doy" and "year_start yoe + doy < 146097"
proof -
  have "0 \<le> yoe div 100" "yoe div 100 \<le> yoe div 4" using yoe by (simp_all add: zdiv_mono2)
  then have low: "0 \<le> year_start yoe" using yoe unfolding year_start_def by linarith
  show A: "year_start yoe + doy < year_start (yoe + 1)
      \<or> yoe = 399 \<and> year_start yoe + doy = 146096"
  proof (cases "yoe = 399")
    case True
    then show ?thesis using doy by (auto simp: year_start_def split: if_splits)
  next
    case False
    then show ?thesis using doy yoe year_start_Suc [of yoe] by (auto split: if_splits)
  qed
  show "0 \<le> year_start yoe + doy" using low doy by simp
  have "year_start (yoe + 1) \<le> 146096"
  proof -
    define p q where "p = (yoe + 1) div 4" "q = (yoe + 1) div 100"
    have "0 \<le> q" "p \<le> 100" using yoe unfolding p_q_def by auto
    then have le: "365 * (yoe + 1) + p - q \<le> 365 * (yoe + 1) + 100" by simp
    show ?thesis
    proof (cases "yoe = 399")
      case True
      then show ?thesis by (simp add: year_start_def)
    next
      case False
      then have "365 * (yoe + 1) + 100 \<le> 146096" using yoe by simp
      then show ?thesis unfolding year_start_def p_q_def [symmetric]
        by (rule order_trans [OF le])
    qed
  qed
  then show "year_start yoe + doy < 146097" using A by auto
qed

lemma days_from_civil_split:
  assumes y: "y' = (if m \<le> 2 then y - 1 else y)" and m: "1 \<le> m" "m \<le> 12"
  shows "days_from_civil y m d =
    146097 * (y' div 400) + (year_start (y' mod 400) + (month_start (month_index m) + int d - 1))
    - 719468"
proof -
  have e: "(if y' \<ge> 0 then y' else y' - 399) sdiv 400 = y' div 400"
    by (rule era_floor) simp_all
  have m': "y' - y' div 400 * 400 = y' mod 400" by (simp add: minus_div_mult_eq_mod)
  have i: "(if int m > 2 then int m - 3 else int m + 9) = month_index m"
    by (simp add: month_index_def)
  have "0 \<le> month_index m" using m by (simp add: month_index_def)
  then have q: "(153 * month_index m + 2) sdiv 5 = month_start (month_index m)"
    "(y' mod 400) sdiv 4 = (y' mod 400) div 4" "(y' mod 400) sdiv 100 = (y' mod 400) div 100"
    by (simp_all add: sdiv_nonneg month_start_def)
  show ?thesis
    unfolding days_from_civil_def Let_def y [symmetric] e m' i q
    by (simp add: year_start_def)
qed

lemma civil_from_days_split:
  assumes z: "z = 146097 * era + (year_start yoe + doy) - 719468"
    and yoe: "0 \<le> yoe" "yoe < 400" and doy: "0 \<le> doy" "doy < 365 + (if b \<and> leap (yoe + 1) then 1 else 0)"
  shows "civil_from_days z =
    (let mp = (5 * doy + 2) div 153; m = nat (if mp < 10 then mp + 3 else mp - 9)
     in (if m \<le> 2 then yoe + era * 400 + 1 else yoe + era * 400, m,
         nat (doy - month_start mp + 1)))"
proof -
  let ?doe = "year_start yoe + doy"
  note B = day_of_era_bound [OF yoe doy]
  have e: "(if z + 719468 \<ge> 0 then z + 719468 else z + 719468 - 146096) sdiv 146097 = era"
    (is "?l = _")
  proof -
    have "?l = (z + 719468) div 146097" by (rule era_floor) simp_all
    then show ?thesis using int_div_eq_iff [of 146097 "z + 719468" era] B(2,3) z by simp
  qed
  have d: "z + 719468 - era * 146097 = ?doe" using z by simp
  have y: "era_year ?doe = yoe" by (rule era_year_start) (use yoe doy B in auto)
  show ?thesis
    unfolding civil_from_days_def Let_def e d era_year_def [symmetric] y
    by (simp add: year_start_def month_start_def)
qed

lemma month_index_range: "1 \<le> m \<Longrightarrow> m \<le> 12 \<Longrightarrow> 0 \<le> month_index m \<and> month_index m < 12"
  by (simp add: month_index_def)

lemma month_index_inverse:
  "1 \<le> m \<Longrightarrow> m \<le> 12 \<Longrightarrow>
    nat (if month_index m < 10 then month_index m + 3 else month_index m - 9) = m"
  by (simp add: month_index_def)

lemma civil_round_trip_aux:
  assumes m: "1 \<le> m" "m \<le> 12" and d: "1 \<le> d" "d \<le> days_in_month y m"
  shows "civil_from_days (days_from_civil y m d) = (y, m, d)"
proof -
  define y' where "y' = (if m \<le> 2 then y - 1 else y)"
  define doy where "doy = month_start (month_index m) + int d - 1"
  note B = month_bounds [OF m d, folded doy_def]
  have yoe: "0 \<le> y' mod 400" "y' mod 400 < 400" by simp_all
  have "m \<le> 2 \<Longrightarrow> y = 400 * (y' div 400) + (y' mod 400 + 1)" unfolding y'_def by simp
  then have "m \<le> 2 \<Longrightarrow> leap y = leap (y' mod 400 + 1)" by (metis leap_mod)
  then have doy': "doy < 365 + (if m \<le> 2 \<and> leap (y' mod 400 + 1) then 1 else 0)"
    using B(1) by (simp split: if_splits)
  have z: "days_from_civil y m d =
      146097 * (y' div 400) + (year_start (y' mod 400) + doy) - 719468"
    using days_from_civil_split [OF y'_def m] by (simp add: doy_def algebra_simps)
  have day: "nat (doy - month_start (month_index m) + 1) = d" by (simp add: doy_def)
  show ?thesis
    unfolding civil_from_days_split [OF z yoe B(2) doy'] Let_def B(3) day
      month_index_inverse [OF m]
    by (simp add: y'_def)
qed

text \<open>
  Reading back the day number of any valid proleptic Gregorian date (of any year, leap days
  included) gives exactly that date.
\<close>

theorem civil_round_trip:
  assumes "1 \<le> m" "m \<le> 12" "1 \<le> d" "d \<le> days_in_month y m"
  shows "civil_from_days (days_from_civil y m d) = (y, m, d)"
  using assms by (rule civil_round_trip_aux)

theorem civil_round_trip_witness:
  "civil_from_days (days_from_civil 2024 2 29) = (2024, 2, 29)"
  by (rule civil_round_trip) (simp_all add: days_in_month_def signed_modulo_int_def)

end
