(* ===== verification/Durations.thy ===== *)
theory Durations
  imports Civil_Clock
begin

text \<open>
  \<^verbatim>\<open>apb-core/src/duration.rs\<close>: the duration grammar of playbook fields
  (\<^verbatim>\<open>parse_duration_str\<close>), RFC 3339 timestamps (\<^verbatim>\<open>parse_rfc3339_ms\<close>) and
  the operator's pause deadline (\<^verbatim>\<open>parse_until\<close>).  Seconds and milliseconds are
  \<^verbatim>\<open>u64\<close> words with the code's checked operations; byte indexing is only used after
  the length test the code makes.
\<close>

section \<open>Definitions\<close>

definition DEFAULT_TASK_SECONDS :: u64 where
  "DEFAULT_TASK_SECONDS = 120"

definition unit_of :: "char \<Rightarrow> (int \<times> u64) option" where
  "unit_of c =
     (if c = CHR ''d'' then Some (0, 86400)
      else if c = CHR ''h'' then Some (1, 3600)
      else if c = CHR ''m'' then Some (2, 60)
      else if c = CHR ''s'' then Some (3, 1)
      else None)"

text \<open>The group loop: the unread bytes, the running total, the last rank and the flag.\<close>

function duration_loop :: "string \<Rightarrow> u64 \<Rightarrow> int \<Rightarrow> bool \<Rightarrow> u64 option" where
  "duration_loop s acc last_rank any_group =
     (if s = [] then (if any_group then Some acc else None)
      else
        let digits = takeWhile is_digit s; rest = dropWhile is_digit s in
        if digits = [] then None
        else case rest of
          [] \<Rightarrow> None
        | u # rest' \<Rightarrow>
            (case unit_of u of
               None \<Rightarrow> None
             | Some (rank, mult) \<Rightarrow>
                 if rank \<le> last_rank then None
                 else (case parse_u64 digits of
                         None \<Rightarrow> None
                       | Some n \<Rightarrow>
                           (case checked_mul n mult of
                              None \<Rightarrow> None
                            | Some scaled \<Rightarrow>
                                (case checked_add acc scaled of
                                   None \<Rightarrow> None
                                 | Some acc' \<Rightarrow> duration_loop rest' acc' rank True)))))"
  by pat_completeness auto
termination
proof (relation "measure (\<lambda>(s, _). length s)", simp, goal_cases)
  case (1 s acc last_rank any_group digits rest u rest')
  have "length (dropWhile is_digit s) \<le> length s" by (rule length_dropWhile_le)
  moreover have "dropWhile is_digit s = u # rest'" using 1 by simp
  ultimately have "length (u # rest') \<le> length s" by simp
  then show ?case by simp
qed

declare duration_loop.simps [simp del]

definition parse_duration_str :: "string \<Rightarrow> u64 option" where
  "parse_duration_str s0 =
     (let s = trim s0 in
      if s = [] then None
      else case parse_u64 s of
        Some n \<Rightarrow> Some n
      | None \<Rightarrow> if \<not> is_ascii s then None else duration_loop s 0 (- 1) False)"

definition field_num :: "string \<Rightarrow> nat \<Rightarrow> nat \<Rightarrow> int option" where
  "field_num s from to =
     (let part = take (to - from) (drop from s) in
      if list_all is_digit part then parse_i64 part else None)"

definition frac_digits :: "string \<Rightarrow> string" where
  "frac_digits digits = (let d = take 3 digits in d @ replicate (3 - length d) CHR ''0'')"

text \<open>
  The \<^verbatim>\<open>tz\<close> arm of the offset match: six bytes, a sign, two numbers around a colon.
  Both numbers go through \<^verbatim>\<open>str::parse::<i64>\<close>, which takes a sign of its own.
\<close>

definition offset_secs :: "string \<Rightarrow> int option" where
  "offset_secs tz =
     (if tz = ''Z'' \<or> tz = ''z'' then Some 0
      else if length tz = 6 \<and> (tz ! 0 = CHR ''+'' \<or> tz ! 0 = CHR ''-'') \<and> tz ! 3 = CHR '':''
      then (let sign = (if tz ! 0 = CHR ''-'' then - 1 else 1) in
            case parse_i64 (take 2 (drop 1 tz)) of
              None \<Rightarrow> None
            | Some oh \<Rightarrow>
                (case parse_i64 (take 2 (drop 4 tz)) of
                   None \<Rightarrow> None
                 | Some om \<Rightarrow>
                     if oh > 23 \<or> om > 59 then None
                     else Some (sign * (oh * 3600 + om * 60))))
      else None)"

definition rfc_shape :: "string \<Rightarrow> bool" where
  "rfc_shape b =
     (b ! 4 = CHR ''-'' \<and> b ! 7 = CHR ''-''
      \<and> (b ! 10 = CHR ''T'' \<or> b ! 10 = CHR ''t'' \<or> b ! 10 = CHR '' '')
      \<and> b ! 13 = CHR '':'' \<and> b ! 16 = CHR '':'')"

definition rfc_fields :: "string \<Rightarrow> (int \<times> int \<times> int \<times> int \<times> int \<times> int) option" where
  "rfc_fields s =
     (case (field_num s 0 4, field_num s 5 7, field_num s 8 10,
            field_num s 11 13, field_num s 14 16, field_num s 17 19) of
        (Some y, Some mo, Some d, Some hh, Some mi, Some ss) \<Rightarrow>
          if \<not> (1 \<le> mo \<and> mo \<le> 12) \<or> d < 1 \<or> d > int (days_in_month y (nat mo))
             \<or> hh > 23 \<or> mi > 59 \<or> ss > 59
          then None else Some (y, mo, d, hh, mi, ss)
      | _ \<Rightarrow> None)"

text \<open>The optional fraction at byte 19: its milliseconds and what follows it.\<close>

definition rfc_fraction :: "string \<Rightarrow> (nat \<times> string) option" where
  "rfc_fraction s =
     (if s ! 19 = CHR ''.''
      then (let digits = takeWhile is_digit (drop 20 s); rest = dropWhile is_digit (drop 20 s) in
            if digits = [] then None
            else map_option (\<lambda>n. (n, rest)) (parse_digits (frac_digits digits)))
      else Some (0, drop 19 s))"

definition epoch_ms :: "int \<Rightarrow> nat \<Rightarrow> u64 option" where
  "epoch_ms secs frac_ms =
     (if secs < 0 \<or> secs \<ge> 2 ^ 64 then None
      else case checked_mul (word_of_int secs) 1000 of
        None \<Rightarrow> None
      | Some ms \<Rightarrow> checked_add ms (of_nat frac_ms))"

definition parse_rfc3339_ms :: "string \<Rightarrow> u64 option" where
  "parse_rfc3339_ms s =
     (if \<not> is_ascii s \<or> length s < 20 then None
      else if \<not> rfc_shape s then None
      else case rfc_fields s of
        None \<Rightarrow> None
      | Some (y, mo, d, hh, mi, ss) \<Rightarrow>
          (case rfc_fraction s of
             None \<Rightarrow> None
           | Some (frac_ms, tz) \<Rightarrow>
               (case offset_secs tz of
                  None \<Rightarrow> None
                | Some off \<Rightarrow>
                    epoch_ms (days_from_civil y (nat mo) (nat d) * 86400 + hh * 3600 + mi * 60 + ss
                              - off) frac_ms)))"

datatype until_error = Too_Large string | Not_A_Time string

definition parse_until :: "string \<Rightarrow> u64 \<Rightarrow> until_error + u64" where
  "parse_until s0 now_ms =
     (let s = trim s0 in
      case parse_duration_str s of
        Some secs \<Rightarrow>
          (case checked_mul secs 1000 of
             None \<Rightarrow> Inl (Too_Large s)
           | Some ms \<Rightarrow>
               (case checked_add now_ms ms of
                  None \<Rightarrow> Inl (Too_Large s)
                | Some t \<Rightarrow> Inr t))
      | None \<Rightarrow>
          (case parse_rfc3339_ms s of
             Some t \<Rightarrow> Inr t
           | None \<Rightarrow> Inl (Not_A_Time s)))"

section \<open>Compound durations\<close>

text \<open>
  The grammar the parser promises: non-empty groups of decimal digits and a unit, the units in
  strictly descending size.  \<open>show_groups\<close> writes such a list, \<open>groups_secs\<close> is its exact
  number of seconds.
\<close>

definition unit_char :: "nat \<Rightarrow> char" where
  "unit_char r = (if r = 0 then CHR ''d'' else if r = 1 then CHR ''h''
                  else if r = 2 then CHR ''m'' else CHR ''s'')"

definition unit_mult :: "nat \<Rightarrow> nat" where
  "unit_mult r = (if r = 0 then 86400 else if r = 1 then 3600 else if r = 2 then 60 else 1)"

definition show_groups :: "(string \<times> nat) list \<Rightarrow> string" where
  "show_groups gs = concat (map (\<lambda>(ds, r). ds @ [unit_char r]) gs)"

definition groups_secs :: "(string \<times> nat) list \<Rightarrow> nat" where
  "groups_secs gs = sum_list (map (\<lambda>(ds, r). dec_val ds * unit_mult r) gs)"

fun descending :: "int \<Rightarrow> (string \<times> nat) list \<Rightarrow> bool" where
  "descending lo [] = True"
| "descending lo ((ds, r) # gs) =
     (ds \<noteq> [] \<and> list_all is_digit ds \<and> lo < int r \<and> r < 4 \<and> descending (int r) gs)"

lemma rank_cases: "r < (4 :: nat) \<Longrightarrow> r = 0 \<or> r = 1 \<or> r = 2 \<or> r = 3"
  by linarith

lemma unit_of_char: "r < 4 \<Longrightarrow> unit_of (unit_char r) = Some (int r, of_nat (unit_mult r))"
  by (drule rank_cases, elim disjE) (simp_all add: unit_of_def unit_char_def unit_mult_def)

lemma unit_of_Some:
  assumes "unit_of c = Some (rank, mult)"
  obtains r where "r < 4" "c = unit_char r"
proof -
  have "c = unit_char 0 \<or> c = unit_char 1 \<or> c = unit_char 2 \<or> c = unit_char 3"
    using assms by (simp add: unit_of_def unit_char_def split: if_splits)
  then show ?thesis
    using that [of 0] that [of 1] that [of 2] that [of 3] by fastforce
qed

lemma unit_char_not_digit: "\<not> is_digit (unit_char r)"
  by (simp add: unit_char_def is_digit_def in_range_def byte_def)

lemma unit_mult_pos: "0 < unit_mult r \<and> unit_mult r < 2 ^ 64"
  by (simp add: unit_mult_def)

lemma takeWhile_digits:
  assumes "list_all is_digit ds"
  shows "takeWhile is_digit (ds @ unit_char r # t) = ds"
    and "dropWhile is_digit (ds @ unit_char r # t) = unit_char r # t"
  using assms unit_char_not_digit [of r]
  by (simp_all add: list_all_iff takeWhile_append dropWhile_append)

lemma parse_u64_digits:
  assumes "ds \<noteq> []" "list_all is_digit ds"
  shows "parse_u64 ds = (if dec_val ds < 2 ^ 64 then Some (of_nat (dec_val ds)) else None)"
proof (cases "dec_val ds < 2 ^ 64")
  case True
  then show ?thesis using assms by (simp add: parse_u64_def parse_unsigned_digits)
next
  case False
  obtain c r where s: "ds = c # r" using assms by (cases ds) auto
  then have "c \<noteq> CHR ''+''" using assms digit_not_sign by simp
  then have "parse_unsigned (2 ^ 64) ds = None"
    using s False assms by (simp add: parse_unsigned_def parse_digits_def)
  then show ?thesis using False by (simp add: parse_u64_def)
qed

lemma unat_of_nat_u64: "n < 2 ^ 64 \<Longrightarrow> unat (of_nat n :: u64) = n"
  by (simp add: unsigned_of_nat take_bit_nat_eq_self)

lemma checked_mul_of_nat:
  assumes "a < 2 ^ 64" "b < 2 ^ 64"
  shows "checked_mul (of_nat a) (of_nat b) =
    (if a * b < 2 ^ 64 then Some (of_nat (a * b)) else None)"
  unfolding checked_mul_def unat_of_nat_u64 [OF assms(1)] unat_of_nat_u64 [OF assms(2)] by simp

lemma checked_add_of_nat:
  assumes "a < 2 ^ 64" "b < 2 ^ 64"
  shows "checked_add (of_nat a) (of_nat b) =
    (if a + b < 2 ^ 64 then Some (of_nat (a + b)) else None)"
  unfolding checked_add_def unat_of_nat_u64 [OF assms(1)] unat_of_nat_u64 [OF assms(2)] by simp

lemma show_groups_simps [simp]:
  "show_groups [] = []"
  "show_groups ((ds, r) # gs) = ds @ unit_char r # show_groups gs"
  by (simp_all add: show_groups_def)

lemma groups_secs_simps [simp]:
  "groups_secs [] = 0"
  "groups_secs ((ds, r) # gs) = dec_val ds * unit_mult r + groups_secs gs"
  by (simp_all add: groups_secs_def)

lemma duration_loop_group:
  assumes ds: "ds \<noteq> []" "list_all is_digit ds" and r: "r < 4" and acc: "acc < 2 ^ 64"
  shows "duration_loop (ds @ unit_char r # t) (of_nat acc) lo any =
    (if int r \<le> lo \<or> acc + dec_val ds * unit_mult r \<ge> 2 ^ 64 then None
     else duration_loop t (of_nat (acc + dec_val ds * unit_mult r)) (int r) True)"
proof -
  have um: "unit_mult r < 2 ^ 64" "0 < unit_mult r" using unit_mult_pos by auto
  have big: "dec_val ds \<ge> 2 ^ 64 \<Longrightarrow> acc + dec_val ds * unit_mult r \<ge> 2 ^ 64"
  proof -
    assume "dec_val ds \<ge> 2 ^ 64"
    also have "dec_val ds \<le> dec_val ds * unit_mult r" using um(2) by simp
    finally show ?thesis by simp
  qed
  define P where "P = dec_val ds * unit_mult r"
  have mul: "dec_val ds < 2 ^ 64 \<Longrightarrow> checked_mul (of_nat (dec_val ds)) (of_nat (unit_mult r)) =
      (if P < 2 ^ 64 then Some (of_nat P) else None)"
    unfolding P_def by (rule checked_mul_of_nat [OF _ um(1)])
  have add: "P < 2 ^ 64 \<Longrightarrow> checked_add (of_nat acc) (of_nat P) =
      (if acc + P < 2 ^ 64 then Some (of_nat (acc + P)) else None)"
    by (rule checked_add_of_nat [OF acc])
  show ?thesis
    using ds big mul add unfolding P_def [symmetric]
    by (subst duration_loop.simps)
      (simp add: takeWhile_digits unit_of_char [OF r] parse_u64_digits Let_def
        del: of_nat_add)
qed

lemma duration_loop_complete:
  "descending lo gs \<Longrightarrow> acc < 2 ^ 64 \<Longrightarrow> gs \<noteq> [] \<or> any \<Longrightarrow>
    duration_loop (show_groups gs) (of_nat acc) lo any =
      (if acc + groups_secs gs < 2 ^ 64 then Some (of_nat (acc + groups_secs gs)) else None)"
proof (induction gs arbitrary: lo acc any)
  case Nil
  then show ?case by (simp add: duration_loop.simps)
next
  case (Cons g gs)
  obtain ds r where g: "g = (ds, r)" by (cases g)
  then have h: "ds \<noteq> []" "list_all is_digit ds" "r < 4" "\<not> int r \<le> lo" "descending (int r) gs"
    using Cons.prems by auto
  show ?case
    unfolding g show_groups_simps duration_loop_group [OF h(1,2,3) Cons.prems(2)]
    using Cons.IH [OF h(5), of "acc + dec_val ds * unit_mult r" True] h(4)
    by (auto simp: add.assoc)
qed

lemma duration_loop_sound:
  "duration_loop s (of_nat acc) lo any = Some w \<Longrightarrow> acc < 2 ^ 64 \<Longrightarrow>
    \<exists>gs. s = show_groups gs \<and> descending lo gs \<and> acc + groups_secs gs < 2 ^ 64
         \<and> w = of_nat (acc + groups_secs gs)"
proof (induction "length s" arbitrary: s acc lo any rule: less_induct)
  case less
  show ?case
  proof (cases "s = []")
    case True
    then show ?thesis
      using less.prems by (intro exI [of _ "[]"]) (auto simp: duration_loop.simps split: if_splits)
  next
    case False
    let ?ds = "takeWhile is_digit s"
    have "?ds \<noteq> [] \<and> (\<exists>u t. dropWhile is_digit s = u # t \<and> unit_of u \<noteq> None)"
      using less.prems(1) False
      by (subst (asm) duration_loop.simps) (auto simp: Let_def split: list.splits option.splits if_splits)
    then obtain u t rank mult where ds: "?ds \<noteq> []" and ut: "dropWhile is_digit s = u # t"
      and "unit_of u = Some (rank, mult)" by fastforce
    then obtain r where r: "r < 4" "u = unit_char r" using unit_of_Some by metis
    have s: "s = ?ds @ unit_char r # t" using ut r(2) takeWhile_dropWhile_id [of is_digit s] by simp
    have dig: "list_all is_digit ?ds" by (auto simp: list_all_iff dest: set_takeWhileD)
    note loop = duration_loop_group [OF ds dig r(1) less.prems(2), of t lo any, folded s]
    let ?acc = "acc + dec_val ?ds * unit_mult r"
    have ok: "\<not> int r \<le> lo" "?acc < 2 ^ 64" "duration_loop t (of_nat ?acc) (int r) True = Some w"
      using less.prems(1) unfolding loop by (auto split: if_splits)
    have "length t < length s" by (subst s) simp
    from less.hyps [OF this ok(3,2)] obtain gs where
      "t = show_groups gs" "descending (int r) gs" "?acc + groups_secs gs < 2 ^ 64"
      "w = of_nat (?acc + groups_secs gs)" by blast
    then show ?thesis
      using ds dig r ok s by (intro exI [of _ "(?ds, r) # gs"]) (simp add: add.assoc)
  qed
qed

lemma is_digit_graphic: "is_digit c \<Longrightarrow> graphic c"
  by (auto simp: is_digit_def graphic_def in_range_def)

lemma unit_char_graphic: "graphic (unit_char r)"
  by (simp add: unit_char_def graphic_def in_range_def byte_def)

lemma unit_char_ascii: "byte (unit_char r) < 128"
  by (simp add: unit_char_def byte_def)

lemma show_groups_last: "gs \<noteq> [] \<Longrightarrow> \<exists>r t. show_groups gs = t @ [unit_char r]"
proof (induction gs rule: rev_induct)
  case Nil
  then show ?case by simp
next
  case (snoc g gs)
  obtain ds r where "g = (ds, r)" by (cases g)
  then have "show_groups (gs @ [g]) = (show_groups gs @ ds) @ [unit_char r]"
    by (simp add: show_groups_def)
  then show ?case by blast
qed

lemma show_groups_ascii: "descending lo gs \<Longrightarrow> is_ascii (show_groups gs)"
  by (induction lo gs rule: descending.induct)
    (auto simp: is_ascii_def list_all_iff is_digit_def in_range_def unit_char_ascii)

lemma show_groups_trim:
  assumes "descending lo gs" "gs \<noteq> []"
  shows "trim (show_groups gs) = show_groups gs"
proof -
  obtain ds r gs' where g: "gs = (ds, r) # gs'" using assms(2) by (cases gs) auto
  then obtain c ds' where "ds = c # ds'" "is_digit c" using assms(1) by (cases ds) auto
  then have "show_groups gs \<noteq> []" "graphic (hd (show_groups gs))"
    using g is_digit_graphic by auto
  moreover have "graphic (last (show_groups gs))"
    using show_groups_last [OF assms(2)] unit_char_graphic by fastforce
  ultimately show ?thesis by (rule trim_graphic)
qed

lemma parse_unsigned_not_digit:
  assumes "s = t @ [c]" "\<not> is_digit c"
  shows "parse_unsigned bound s = None"
  using assms by (cases t) (auto simp: parse_unsigned_def parse_digits_def)

text \<open>
  A compound duration (\<open>2h30m15s\<close>: non-empty groups with units in strictly descending
  order, leading zeros allowed) parses to exactly the sum of its groups in seconds when that sum
  fits 64 bits, and is refused when it does not; no checked step overflows earlier or later than
  the exact sum does.
\<close>

theorem parse_compound_duration:
  assumes "gs \<noteq> []" "descending (- 1) gs"
  shows "parse_duration_str (show_groups gs) =
    (if groups_secs gs < 2 ^ 64 then Some (of_nat (groups_secs gs)) else None)"
proof -
  obtain t r where last: "show_groups gs = t @ [unit_char r]"
    using show_groups_last [OF assms(1)] by blast
  then have ne: "show_groups gs \<noteq> []" by simp
  have "parse_u64 (show_groups gs) = None"
    unfolding parse_u64_def parse_unsigned_not_digit [OF last unit_char_not_digit] by simp
  then show ?thesis
    unfolding parse_duration_str_def show_groups_trim [OF assms(2,1)] Let_def
    using ne show_groups_ascii [OF assms(2)] duration_loop_complete [OF assms(2), of 0 False]
      assms(1) by simp
qed

theorem parse_compound_duration_witness:
  "parse_duration_str ''1d02h'' = Some 93600
    \<and> parse_duration_str ''300000000000000d'' = None"
proof
  have "parse_duration_str (show_groups [(''1'', 0), (''02'', 1)]) = Some 93600"
    by (subst parse_compound_duration)
      (simp_all add: is_digit_def in_range_def byte_def dec_val_def digit_val_def unit_mult_def)
  then show "parse_duration_str ''1d02h'' = Some 93600" by (simp add: unit_char_def)
  have "parse_duration_str (show_groups [(''300000000000000'', 0)]) = None"
    by (subst parse_compound_duration)
      (simp_all add: is_digit_def in_range_def byte_def dec_val_def digit_val_def unit_mult_def)
  then show "parse_duration_str ''300000000000000d'' = None" by (simp add: unit_char_def)
qed

text \<open>
  Whatever the duration parser accepts is either one plain unsigned integer or a compound
  duration with strictly descending units, and the value returned is exactly the seconds it
  denotes: nothing else (floats, ascending or repeated units, inner blanks) parses.
\<close>

theorem parse_duration_sound:
  assumes "parse_duration_str s = Some w"
  shows "parse_u64 (trim s) = Some w
    \<or> (\<exists>gs. trim s = show_groups gs \<and> gs \<noteq> [] \<and> descending (- 1) gs \<and> unat w = groups_secs gs)"
proof (cases "parse_u64 (trim s)")
  case (Some n)
  then show ?thesis using assms
    by (auto simp: parse_duration_str_def Let_def split: if_splits)
next
  case None
  then have ne: "trim s \<noteq> []" and loop: "duration_loop (trim s) (of_nat 0) (- 1) False = Some w"
    using assms by (auto simp: parse_duration_str_def Let_def split: if_splits)
  from duration_loop_sound [OF loop] obtain gs where gs: "trim s = show_groups gs"
    "descending (- 1) gs" "groups_secs gs < 2 ^ 64" "w = of_nat (groups_secs gs)" by auto
  then have "gs \<noteq> []" using ne by auto
  then show ?thesis using gs unat_of_nat_u64 by auto
qed

theorem parse_duration_sound_witness:
  "parse_u64 (trim ''90'') = Some 90
    \<or> (\<exists>gs. trim ''90'' = show_groups gs \<and> gs \<noteq> [] \<and> descending (- 1) gs
            \<and> unat (90 :: u64) = groups_secs gs)"
proof (rule parse_duration_sound)
  have "trim ''90'' = ''90''"
    by (rule trim_graphic) (simp_all add: graphic_def in_range_def byte_def)
  moreover have "parse_u64 ''90'' = Some 90"
    by (subst parse_u64_digits)
      (simp_all add: is_digit_def in_range_def byte_def dec_val_def digit_val_def)
  ultimately show "parse_duration_str ''90'' = Some 90" by (simp add: parse_duration_str_def)
qed

lemmas rfc_eval = rfc_shape_def rfc_fields_def field_num_def rfc_fraction_def
  offset_secs_def epoch_ms_def parse_i64_def parse_unsigned_def parse_digits_def dec_val_def
  digit_val_def is_digit_def in_range_def byte_def is_ascii_def days_in_month_def smod_int_alt_def
  checked_mul_def checked_add_def days_from_civil_def signed_divide_int_def

lemma rfc_parts:
  assumes "is_ascii s" "\<not> length s < 20" "rfc_shape s" "rfc_fields s = Some (y, mo, d, hh, mi, ss)"
    "rfc_fraction s = Some (f, tz)"
  shows "parse_rfc3339_ms s =
    (case offset_secs tz of
       None \<Rightarrow> None
     | Some off \<Rightarrow>
         epoch_ms (days_from_civil y (nat mo) (nat d) * 86400 + hh * 3600 + mi * 60 + ss - off) f)"
  using assms by (simp add: parse_rfc3339_ms_def)

lemma october_day: "days_from_civil 2026 10 16 = 20742"
  by (simp add: rfc_eval)

lemma october_parse:
  assumes "s = ''2026-10-16T08:00:00'' @ tz" "tz = [a, b, c, CHR '':'', e, f]"
    "is_ascii tz" "a \<noteq> CHR ''.''" "offset_secs tz = Some off"
  shows "parse_rfc3339_ms s = epoch_ms (20742 * 86400 + 8 * 3600 - off) 0"
proof -
  have "is_ascii s" using assms(1,3) by (simp add: is_ascii_def byte_def)
  moreover have "\<not> length s < 20" "rfc_shape s" "rfc_fields s = Some (2026, 10, 16, 8, 0, 0)"
    "rfc_fraction s = Some (0, tz)"
    using assms(1,2,4) by (simp_all add: rfc_eval)
  ultimately show ?thesis by (simp add: rfc_parts october_day assms(5))
qed

text \<open>
  The timestamp parser takes an offset whose hours carry a second sign: a doubled plus reads
  as the plain offset, and plus-minus flips it, although the function promises to refuse anything
  malformed.
\<close>

theorem rfc3339_double_sign:
  "parse_rfc3339_ms ''2026-10-16T08:00:00++5:00'' = Some 1792119600000
   \<and> parse_rfc3339_ms ''2026-10-16T08:00:00+-5:00'' = Some 1792155600000"
proof
  have o: "offset_secs ''++5:00'' = Some 18000" "offset_secs ''+-5:00'' = Some (- 18000)"
    by (simp_all add: rfc_eval)
  have e: "epoch_ms 1792119600 0 = Some 1792119600000" "epoch_ms 1792155600 0 = Some 1792155600000"
    by (simp_all add: epoch_ms_def checked_mul_def checked_add_def)
  have a: "is_ascii ''++5:00''" "is_ascii ''+-5:00''" by (simp_all add: is_ascii_def byte_def)
  have "parse_rfc3339_ms (''2026-10-16T08:00:00'' @ ''++5:00'') = epoch_ms 1792119600 0"
    using october_parse [OF refl refl a(1) _ o(1)] by simp
  then show "parse_rfc3339_ms ''2026-10-16T08:00:00++5:00'' = Some 1792119600000"
    by (simp add: e)
  have "parse_rfc3339_ms (''2026-10-16T08:00:00'' @ ''+-5:00'') = epoch_ms 1792155600 0"
    using october_parse [OF refl refl a(2) _ o(2)] by simp
  then show "parse_rfc3339_ms ''2026-10-16T08:00:00+-5:00'' = Some 1792155600000"
    by (simp add: e)
qed

end
