(* ===== verification/Schema.thy ===== *)
theory Schema
  imports Durations
begin

text \<open>
  The playbook definition, \<^verbatim>\<open>apb-core/src/schema.rs\<close>: a playbook is a list of nodes
  and a list of edges with run-wide defaults.  Every struct is a record with the source's fields
  and every enum a datatype with its variants; a struct variant of \<^verbatim>\<open>NodeKind\<close> carries
  a record of its fields.  A field whose type belongs to a feature outside the model (a list
  block, a budget block, an evidence block, ...) holds its text as an \<open>opaque\<close> value: the
  operations modelled here only ask whether it is present.  A JSON value is the datatype
  \<open>json\<close>; the JSON parser itself (\<^verbatim>\<open>serde_json::from_str\<close>) is the parameter
  \<open>J\<close> of the operations that use it.
\<close>

datatype opaque = Opaque string

section \<open>JSON values\<close>

text \<open>A number carries its text, its value as a double and whether it is integral (i64 or u64).\<close>

datatype json =
    JNull
  | JBool bool
  | JNumber string f64 bool
  | JString string
  | JArray "json list"
  | JObject "(string \<times> json) list"

type_synonym json_reader = "string \<Rightarrow> json option"

definition as_object :: "json \<Rightarrow> (string \<times> json) list option" where
  "as_object v = (case v of JObject kvs \<Rightarrow> Some kvs | _ \<Rightarrow> None)"

section \<open>Small enums\<close>

datatype join_mode = Join_All | Join_Any

definition join_mode_parse :: "string \<Rightarrow> join_mode option" where
  "join_mode_parse s =
     (if s = ''all'' then Some Join_All else if s = ''any'' then Some Join_Any else None)"

datatype branch_failure_policy = Policy_Wait | Fail_Fast | Cancel_Siblings

definition branch_failure_str :: "branch_failure_policy \<Rightarrow> string" where
  "branch_failure_str p =
     (case p of Policy_Wait \<Rightarrow> ''wait'' | Fail_Fast \<Rightarrow> ''fail_fast''
      | Cancel_Siblings \<Rightarrow> ''cancel_siblings'')"

record fork_spec =
  fs_on_branch_failure :: branch_failure_policy
  fs_on_failure :: "string option"

datatype join_require = All_Succeeded

datatype effect = Fs_Read | Fs_Write | Network | External | Secrets | Irreversible

datatype outcome = Outcome_Success | Outcome_Failure

datatype audience = People | Agents

datatype answer_by = By_Human | By_Supervisor

datatype wait_for = Timer u64 | Webhook string

datatype host_decisions = Allow_Decisions | Decisions_Off

datatype isolation_level = Level_None | Level_Best_Effort | Level_Full

record isolation_spec =
  iso_level :: isolation_level
  iso_network :: "opaque option"
  iso_read_only :: "string list"
  iso_writable :: "string list"

datatype judge_fallback =
    Fallback_Route string
  | Fallback_Default "(string, json) fmap"
  | Fallback_Fail
  | Fallback_Emulate
  | Fallback_Unknown string

datatype cache_mode = Cache_Auto | Cache_Off

record cache_config =
  cc_mode :: cache_mode
  cc_ttl :: "string option"
  cc_key :: "string option"

datatype cache_spec = Cache_Mode cache_mode | Cache_Config cache_config

datatype expected_duration = Ed_Seconds u64 | Ed_Text string | Ed_Invalid opaque

definition ed_parsed :: "expected_duration \<Rightarrow> u64 option" where
  "ed_parsed ed =
     (case ed of Ed_Seconds n \<Rightarrow> Some n | Ed_Text s \<Rightarrow> parse_duration_str s | Ed_Invalid _ \<Rightarrow> None)"

section \<open>Defaults\<close>

record retry_delay =
  rd_initial :: string
  rd_factor :: f64
  rd_max :: "string option"

definition DEFAULT_FACTOR :: f64 where "DEFAULT_FACTOR = 0x4000000000000000"
definition CEILING_SECS :: u64 where "CEILING_SECS = 7 * 24 * 60 * 60"

definition initial_secs :: "retry_delay \<Rightarrow> u64 option" where
  "initial_secs d = parse_duration_str (rd_initial d)"

definition max_secs :: "retry_delay \<Rightarrow> u64 option" where
  "max_secs d = (case rd_max d of None \<Rightarrow> Some CEILING_SECS | Some m \<Rightarrow> parse_duration_str m)"

datatype failure_policy = Policy_Route | Policy_Stop | Policy_Node string

definition policy_is_default :: "failure_policy \<Rightarrow> bool" where
  "policy_is_default p = (p = Policy_Route)"

definition policy_str :: "failure_policy \<Rightarrow> string" where
  "policy_str p =
     (case p of Policy_Route \<Rightarrow> ''route'' | Policy_Stop \<Rightarrow> ''stop'' | Policy_Node i \<Rightarrow> i)"

definition policy_of_str :: "string \<Rightarrow> failure_policy" where
  "policy_of_str raw =
     (if raw = ''route'' then Policy_Route else if raw = ''stop'' then Policy_Stop
      else Policy_Node raw)"

definition target_for :: "failure_policy \<Rightarrow> string \<Rightarrow> string option" where
  "target_for p from =
     (case p of Policy_Node i \<Rightarrow> if i \<noteq> from then Some i else None | _ \<Rightarrow> None)"

record context_limits =
  cl_max_bytes :: "u64 option"
  cl_section_max_bytes :: "u64 option"
  cl_output_max_bytes :: "u64 option"

record context_budget =
  cb_max_bytes :: u64
  cb_section_max_bytes :: u64
  cb_output_max_bytes :: u64

definition CONTEXT_DEFAULT :: context_budget where
  "CONTEXT_DEFAULT = \<lparr> cb_max_bytes = 64 * 1024, cb_section_max_bytes = 8 * 1024,
     cb_output_max_bytes = 32 * 1024 \<rparr>"

record defaults =
  d_profile :: "opaque option"
  d_max_retries :: "u32 option"
  d_timeout_seconds :: "u64 option"
  d_on_failure :: failure_policy
  d_require_verdict :: "bool option"
  d_max_parallel :: "nat option"
  d_context :: "context_limits option"
  d_retry_advice :: "opaque option"
  d_host_decisions :: "host_decisions option"
  d_retry_delay :: "retry_delay option"
  d_stall_after :: "u32 option"

section \<open>Edges\<close>

datatype status_eq = Eq_Success | Eq_Failure | Eq_Stalled

datatype edge_condition =
    Node_Status string status_eq
  | Review_Status string
  | Output_Match string string
  | Output_Field string string "string option" "f64 option" "f64 option" "f64 option" "f64 option"
  | No_New_Items string string "string option" u32
  | Judge_Edge string f64 "bool option"

record edge =
  e_id :: "string option"
  e_from :: string
  e_to :: string
  e_condition :: "edge_condition option"
  e_fallback :: bool
  e_join :: "string option"
  e_max_traversals :: "u32 option"
  e_require :: "join_require option"

section \<open>Nodes\<close>

record agent_task =
  at_prompt :: string
  at_profile :: "opaque option"
  at_max_retries :: "u32 option"
  at_retry_delay :: "retry_delay option"
  at_timeout_seconds :: "u64 option"
  at_workdir :: "string option"
  at_isolation :: "isolation_spec option"
  at_connectors :: "opaque list"
  at_interactive :: bool
  at_answer_by :: answer_by
  at_question_timeout_seconds :: "u64 option"
  at_default_answer :: "string option"
  at_require_verdict :: bool
  at_continue_session :: "string option"
  at_protect :: "string list"
  at_audience :: "audience option"

record script_task =
  sc_script :: string
  sc_runner :: string
  sc_timeout_seconds :: "u64 option"
  sc_workdir :: "string option"

record finish_node =
  fi_outcome :: outcome
  fi_prompt :: "string option"
  fi_profile :: "opaque option"
  fi_audience :: "audience option"

record judge_node =
  ju_state :: "(string \<times> string) list"
  ju_questions :: "(string \<times> opaque) list"
  ju_thresholds :: "(string \<times> opaque) list"
  ju_on_unavailable :: "judge_fallback option"
  ju_profile :: "opaque option"

record publish_node =
  pu_from :: string
  pu_remote :: string
  pu_branch :: "string option"
  pu_timeout_seconds :: "u64 option"
  pu_prompt :: "string option"

datatype node_kind =
    Start
  | Agent_Task agent_task
  | Script script_task
  | Prompt string
  | Condition "u32 option"
  | Human_Review "string list" "string option"
  | Wait wait_for u64 "string option"
  | Finish finish_node
  | Sub_Playbook opaque "string option" opaque
  | Judge judge_node
  | Publish publish_node

text \<open>What an unattended run does at a review gate: fail, or decide it with an option and a note.\<close>

datatype unattended_review = Unattended_Fail | Unattended_Decide string "string option"

definition unattended_decide :: "unattended_review \<Rightarrow> string option" where
  "unattended_decide u = (case u of Unattended_Fail \<Rightarrow> None | Unattended_Decide d _ \<Rightarrow> Some d)"

definition DEFAULT_REVIEW_OPTIONS :: "string list" where
  "DEFAULT_REVIEW_OPTIONS = [''approve'', ''reject'']"

definition effective_review_options :: "string list \<Rightarrow> string list" where
  "effective_review_options options = (if options = [] then DEFAULT_REVIEW_OPTIONS else options)"

record node =
  n_id :: string
  n_title :: "string option"
  n_effects :: "effect list"
  n_expected_duration :: "expected_duration option"
  n_inputs :: "opaque option"
  n_outputs :: "opaque option"
  n_cache :: "cache_spec option"
  n_success_check :: "opaque option"
  n_context :: "context_limits option"
  n_completion_check :: "opaque option"
  n_route :: "opaque option"
  n_option_descriptions :: "(string, string) fmap"
  n_auto_decide :: "opaque option"
  n_auto_decide_ok :: bool
  n_read_only :: bool
  n_stall_after :: "u32 option"
  n_writes :: "opaque option"
  n_max_changed_files :: "u32 option"
  n_untrusted :: bool
  n_accept_untrusted :: "string option"
  n_unattended :: "unattended_review option"
  n_fork :: "fork_spec option"
  n_list :: "opaque option"
  n_results :: "opaque list option"
  n_person_only :: bool
  n_approves :: "opaque option"
  n_requires_approval :: "opaque option"
  n_evidence :: "opaque option"
  n_kind :: node_kind

record param =
  pa_name :: string
  pa_kind :: string
  pa_label :: "string option"
  pa_options :: "string list option"
  pa_default :: "opaque option"
  pa_secret :: bool
  pa_search :: bool
  pa_pattern :: "string option"
  pa_untrusted :: bool

record playbook =
  pb_schema :: u32
  pb_id :: string
  pb_name :: string
  pb_description :: string
  pb_version :: string
  pb_params :: "param list"
  pb_defaults :: defaults
  pb_supervisor :: "opaque option"
  pb_trigger :: "opaque option"
  pb_requires :: "opaque option"
  pb_goal :: "opaque option"
  pb_effects :: "effect list"
  pb_worktree :: "string option"
  pb_baseline_check :: "opaque option"
  pb_budget :: "opaque option"
  pb_quality :: "opaque option"
  pb_known_problems :: "opaque option"
  pb_previous_success :: "opaque option"
  pb_publish_only :: bool
  pb_agent_launch :: "opaque option"
  pb_run_outputs :: "opaque option"
  pb_nodes :: "node list"
  pb_edges :: "edge list"

section \<open>Operations on nodes\<close>

definition NODE_TYPES :: "string list" where
  "NODE_TYPES = [''start'', ''agent_task'', ''script'', ''prompt'', ''condition'', ''human_review'',
     ''wait'', ''finish'', ''playbook'', ''judge'', ''publish'']"

definition type_index :: "node_kind \<Rightarrow> nat" where
  "type_index k =
     (case k of Start \<Rightarrow> 0 | Agent_Task _ \<Rightarrow> 1 | Script _ \<Rightarrow> 2 | Prompt _ \<Rightarrow> 3 | Condition _ \<Rightarrow> 4
      | Human_Review _ _ \<Rightarrow> 5 | Wait _ _ _ \<Rightarrow> 6 | Finish _ \<Rightarrow> 7 | Sub_Playbook _ _ _ \<Rightarrow> 8
      | Judge _ \<Rightarrow> 9 | Publish _ \<Rightarrow> 10)"

definition type_str :: "node_kind \<Rightarrow> string" where
  "type_str k = NODE_TYPES ! type_index k"

definition is_isolated :: "node_kind \<Rightarrow> bool" where
  "is_isolated k =
     (case k of
        Agent_Task t \<Rightarrow> (case at_isolation t of Some i \<Rightarrow> iso_level i \<noteq> Level_None | None \<Rightarrow> False)
      | _ \<Rightarrow> False)"

definition not_blank :: "string option \<Rightarrow> string option" where
  "not_blank w = (case w of Some t \<Rightarrow> if trim t \<noteq> [] then Some t else None | None \<Rightarrow> None)"

definition workdir_template :: "node_kind \<Rightarrow> string option" where
  "workdir_template k =
     (case k of
        Agent_Task t \<Rightarrow> not_blank (at_workdir t)
      | Script t \<Rightarrow> not_blank (sc_workdir t)
      | _ \<Rightarrow> None)"

definition runs_agent :: "node_kind \<Rightarrow> bool" where
  "runs_agent k =
     (case k of
        Agent_Task _ \<Rightarrow> True
      | Finish f \<Rightarrow> fi_prompt f \<noteq> None
      | Judge j \<Rightarrow> ju_on_unavailable j = Some Fallback_Emulate
      | Start \<Rightarrow> False | Script _ \<Rightarrow> False | Prompt _ \<Rightarrow> False | Condition _ \<Rightarrow> False
      | Human_Review _ _ \<Rightarrow> False | Wait _ _ _ \<Rightarrow> False | Sub_Playbook _ _ _ \<Rightarrow> False
      | Publish _ \<Rightarrow> False)"

definition budget_gated :: "node_kind \<Rightarrow> bool" where
  "budget_gated k = (runs_agent k \<or> (case k of Sub_Playbook _ _ _ \<Rightarrow> True | _ \<Rightarrow> False))"

definition takes_workdir_lock :: "node_kind \<Rightarrow> bool" where
  "takes_workdir_lock k =
     (runs_agent k \<or> (case k of Script _ \<Rightarrow> True | Sub_Playbook _ _ _ \<Rightarrow> True | _ \<Rightarrow> False))"

definition needs_duration_estimate :: "node_kind \<Rightarrow> bool" where
  "needs_duration_estimate k = takes_workdir_lock k"

definition renders_context :: "node_kind \<Rightarrow> bool" where
  "renders_context k =
     (case k of Agent_Task _ \<Rightarrow> True | Prompt _ \<Rightarrow> True | Finish f \<Rightarrow> fi_prompt f \<noteq> None
      | Sub_Playbook _ instruction _ \<Rightarrow> instruction \<noteq> None | _ \<Rightarrow> False)"

definition emulation_profile ::
  "judge_fallback option \<Rightarrow> opaque option \<Rightarrow> opaque option \<Rightarrow> opaque option" where
  "emulation_profile on_unavailable profile default_profile =
     (if on_unavailable = Some Fallback_Emulate
      then (case profile of Some p \<Rightarrow> Some p | None \<Rightarrow> default_profile) else None)"

definition effective_profile_ref :: "node_kind \<Rightarrow> defaults \<Rightarrow> opaque option" where
  "effective_profile_ref k ds =
     (let own = (\<lambda>p. case p of Some q \<Rightarrow> Some q | None \<Rightarrow> d_profile ds) in
      case k of
        Agent_Task t \<Rightarrow> own (at_profile t)
      | Finish f \<Rightarrow> if fi_prompt f \<noteq> None then own (fi_profile f) else None
      | Judge j \<Rightarrow> emulation_profile (ju_on_unavailable j) (ju_profile j) (d_profile ds)
      | _ \<Rightarrow> None)"

definition writes_for_people :: "node_kind \<Rightarrow> bool" where
  "writes_for_people k =
     (case k of
        Agent_Task t \<Rightarrow> at_audience t = Some People
      | Finish f \<Rightarrow> fi_prompt f \<noteq> None \<and> fi_audience f \<noteq> Some Agents
      | _ \<Rightarrow> False)"

definition connector_bindings :: "node_kind \<Rightarrow> opaque list" where
  "connector_bindings k = (case k of Agent_Task t \<Rightarrow> at_connectors t | _ \<Rightarrow> [])"

definition protect_globs :: "node_kind \<Rightarrow> string list" where
  "protect_globs k = (case k of Agent_Task t \<Rightarrow> at_protect t | _ \<Rightarrow> [])"

definition implied_effects :: "node_kind \<Rightarrow> effect list" where
  "implied_effects k = (case k of Publish _ \<Rightarrow> [Network, External, Irreversible] | _ \<Rightarrow> [])"

definition drive_handled :: "node_kind \<Rightarrow> bool" where
  "drive_handled k =
     (case k of Human_Review _ _ \<Rightarrow> True | Wait _ _ _ \<Rightarrow> True | Sub_Playbook _ _ _ \<Rightarrow> True
      | Publish _ \<Rightarrow> True | _ \<Rightarrow> False)"

definition own_effects :: "node \<Rightarrow> effect list" where
  "own_effects n =
     foldl (\<lambda>out e. if e \<in> set out then out else out @ [e]) (n_effects n) (implied_effects (n_kind n))"

definition expected_seconds :: "node \<Rightarrow> u64" where
  "expected_seconds n =
     (case (case n_expected_duration n of Some ed \<Rightarrow> ed_parsed ed | None \<Rightarrow> None) of
        Some s \<Rightarrow> s
      | None \<Rightarrow> if needs_duration_estimate (n_kind n) then DEFAULT_TASK_SECONDS else 0)"

definition node_cache_mode :: "node \<Rightarrow> cache_mode" where
  "node_cache_mode n =
     (case n_cache n of None \<Rightarrow> Cache_Off | Some (Cache_Mode m) \<Rightarrow> m
      | Some (Cache_Config c) \<Rightarrow> cc_mode c)"

definition cache_key_template :: "node \<Rightarrow> string option" where
  "cache_key_template n =
     (case n_cache n of Some (Cache_Config c) \<Rightarrow> not_blank (cc_key c) | _ \<Rightarrow> None)"

definition cache_ttl_seconds :: "node \<Rightarrow> u64 option" where
  "cache_ttl_seconds n =
     (case n_cache n of
        Some (Cache_Config c) \<Rightarrow>
          (case cc_ttl c of Some t \<Rightarrow> parse_duration_str t | None \<Rightarrow> None)
      | _ \<Rightarrow> None)"

section \<open>Operations on playbooks\<close>

definition pb_node :: "playbook \<Rightarrow> string \<Rightarrow> node option" where
  "pb_node pb i = find (\<lambda>n. n_id n = i) (pb_nodes pb)"

definition option_or :: "'a option \<Rightarrow> 'a option \<Rightarrow> 'a option" where
  "option_or a b = (case a of Some x \<Rightarrow> Some x | None \<Rightarrow> b)"

definition effective_max_retries :: "playbook \<Rightarrow> node \<Rightarrow> u32" where
  "effective_max_retries pb n =
     (case n_kind n of
        Agent_Task t \<Rightarrow>
          (case option_or (at_max_retries t) (d_max_retries (pb_defaults pb)) of
             Some m \<Rightarrow> m | None \<Rightarrow> 0)
      | _ \<Rightarrow> 0)"

definition effective_retry_delay :: "playbook \<Rightarrow> node \<Rightarrow> retry_delay option" where
  "effective_retry_delay pb n =
     (case n_kind n of
        Agent_Task t \<Rightarrow>
          if n_list n \<noteq> None then None
          else option_or (at_retry_delay t) (d_retry_delay (pb_defaults pb))
      | _ \<Rightarrow> None)"

definition effective_stall_after :: "playbook \<Rightarrow> node \<Rightarrow> u32 option" where
  "effective_stall_after pb n =
     (if type_index (n_kind n) \<noteq> 1 \<or> n_list n \<noteq> None then None
      else option_or (n_stall_after n) (d_stall_after (pb_defaults pb)))"

definition worktree_template :: "playbook \<Rightarrow> string option" where
  "worktree_template pb = not_blank (pb_worktree pb)"

definition pick_limit ::
  "context_limits option \<Rightarrow> context_limits option \<Rightarrow> (context_limits \<Rightarrow> u64 option) \<Rightarrow> u64 \<Rightarrow> u64" where
  "pick_limit own ds f fallback =
     (case option_or (Option.bind own f) (Option.bind ds f) of Some v \<Rightarrow> v | None \<Rightarrow> fallback)"

definition context_budget_of :: "playbook \<Rightarrow> string \<Rightarrow> context_budget" where
  "context_budget_of pb node_id =
     (let own = Option.bind (pb_node pb node_id) n_context; ds = d_context (pb_defaults pb) in
      \<lparr> cb_max_bytes = pick_limit own ds cl_max_bytes (cb_max_bytes CONTEXT_DEFAULT),
        cb_section_max_bytes =
          pick_limit own ds cl_section_max_bytes (cb_section_max_bytes CONTEXT_DEFAULT),
        cb_output_max_bytes =
          pick_limit own ds cl_output_max_bytes (cb_output_max_bytes CONTEXT_DEFAULT) \<rparr>)"

section \<open>Reading an output field\<close>

datatype field_compare =
    Cmp_Equals string | Cmp_Lt f64 | Cmp_Lte f64 | Cmp_Gt f64 | Cmp_Gte f64

definition cmp_key :: "field_compare \<Rightarrow> string" where
  "cmp_key c =
     (case c of Cmp_Equals _ \<Rightarrow> ''equals'' | Cmp_Lt _ \<Rightarrow> ''lt'' | Cmp_Lte _ \<Rightarrow> ''lte''
      | Cmp_Gt _ \<Rightarrow> ''gt'' | Cmp_Gte _ \<Rightarrow> ''gte'')"

definition cmp_threshold :: "field_compare \<Rightarrow> f64 option" where
  "cmp_threshold c =
     (case c of Cmp_Equals _ \<Rightarrow> None | Cmp_Lt t \<Rightarrow> Some t | Cmp_Lte t \<Rightarrow> Some t
      | Cmp_Gt t \<Rightarrow> Some t | Cmp_Gte t \<Rightarrow> Some t)"

definition some_count :: "'a option \<Rightarrow> nat" where
  "some_count x = (if x \<noteq> None then 1 else 0)"

definition comparator_count :: "edge_condition \<Rightarrow> nat" where
  "comparator_count c =
     (case c of
        Output_Field _ _ equals lt lte gt gte \<Rightarrow>
          some_count equals + (some_count lt + some_count lte + some_count gt + some_count gte)
      | _ \<Rightarrow> 0)"

definition field_compare_of :: "edge_condition \<Rightarrow> field_compare option" where
  "field_compare_of c =
     (case c of
        Output_Field _ _ equals lt lte gt gte \<Rightarrow>
          if comparator_count c \<noteq> 1 then None
          else (case equals of
                  Some e \<Rightarrow> Some (Cmp_Equals e)
                | None \<Rightarrow>
                    option_or (map_option Cmp_Lt lt)
                      (option_or (map_option Cmp_Lte lte)
                        (option_or (map_option Cmp_Gt gt) (map_option Cmp_Gte gte))))
      | _ \<Rightarrow> None)"

definition object_field :: "json_reader \<Rightarrow> string \<Rightarrow> string \<Rightarrow> json option" where
  "object_field J output field =
     (case J output of
        None \<Rightarrow> None
      | Some v \<Rightarrow> (case as_object v of None \<Rightarrow> None | Some kvs \<Rightarrow> map_of kvs field))"

definition output_field_value :: "json_reader \<Rightarrow> string \<Rightarrow> string \<Rightarrow> string option" where
  "output_field_value J output field =
     (case object_field J output field of
        Some (JString s) \<Rightarrow> Some s
      | Some (JBool b) \<Rightarrow> Some (if b then ''true'' else ''false'')
      | Some (JNumber t _ _) \<Rightarrow> Some t
      | _ \<Rightarrow> None)"

definition json_numeric :: "json_reader \<Rightarrow> json \<Rightarrow> f64 option" where
  "json_numeric J v =
     (case v of
        JNumber _ n _ \<Rightarrow> Some n
      | JString s \<Rightarrow>
          if trim s \<noteq> s then None
          else (case J s of Some (JNumber _ n _) \<Rightarrow> Some n | _ \<Rightarrow> None)
      | _ \<Rightarrow> None)"

definition output_field_number :: "json_reader \<Rightarrow> string \<Rightarrow> string \<Rightarrow> f64 option" where
  "output_field_number J output field =
     (case object_field J output field of None \<Rightarrow> None | Some v \<Rightarrow> json_numeric J v)"

definition threshold_matches ::
  "json_reader \<Rightarrow> string \<Rightarrow> string \<Rightarrow> (f64 \<Rightarrow> bool) \<Rightarrow> bool" where
  "threshold_matches J output field f =
     (case output_field_number J output field of Some v \<Rightarrow> f v | None \<Rightarrow> False)"

definition output_field_matches ::
  "json_reader \<Rightarrow> string \<Rightarrow> string \<Rightarrow> field_compare \<Rightarrow> bool" where
  "output_field_matches J output field cmp =
     (case cmp of
        Cmp_Equals e \<Rightarrow> output_field_value J output field = Some e
      | Cmp_Lt t \<Rightarrow> threshold_matches J output field (\<lambda>v. f64_lt v t)
      | Cmp_Lte t \<Rightarrow> threshold_matches J output field (\<lambda>v. f64_le v t)
      | Cmp_Gt t \<Rightarrow> threshold_matches J output field (\<lambda>v. f64_lt t v)
      | Cmp_Gte t \<Rightarrow> threshold_matches J output field (\<lambda>v. f64_le t v))"

section \<open>Facts\<close>

lemma type_index_less: "type_index k < length NODE_TYPES"
  by (cases k) (simp_all add: type_index_def NODE_TYPES_def)

lemma pb_node_Some: "pb_node pb i = Some n \<Longrightarrow> n \<in> set (pb_nodes pb) \<and> n_id n = i"
  unfolding pb_node_def by (auto simp: find_Some_iff)

lemma pb_node_None: "(pb_node pb i = None) = (\<forall>n\<in>set (pb_nodes pb). n_id n \<noteq> i)"
  unfolding pb_node_def by (auto simp: find_None_iff)

lemma pb_node_is_Some: "(pb_node pb i \<noteq> None) = (i \<in> n_id ` set (pb_nodes pb))"
  by (auto simp: pb_node_None)

lemma field_compare_unique:
  "field_compare_of (Output_Field n f equals lt lte gt gte) = Some c \<Longrightarrow>
    (case c of Cmp_Equals e \<Rightarrow> equals = Some e \<and> lt = None \<and> lte = None \<and> gt = None \<and> gte = None
     | Cmp_Lt t \<Rightarrow> lt = Some t \<and> equals = None \<and> lte = None \<and> gt = None \<and> gte = None
     | Cmp_Lte t \<Rightarrow> lte = Some t \<and> equals = None \<and> lt = None \<and> gt = None \<and> gte = None
     | Cmp_Gt t \<Rightarrow> gt = Some t \<and> equals = None \<and> lt = None \<and> lte = None \<and> gte = None
     | Cmp_Gte t \<Rightarrow> gte = Some t \<and> equals = None \<and> lt = None \<and> lte = None \<and> gt = None)"
  by (cases equals; cases lt; cases lte; cases gt; cases gte)
    (auto simp: field_compare_of_def comparator_count_def some_count_def option_or_def)

text \<open>
  Playbooks, nodes and edges with every optional field absent, to build concrete inputs from.
\<close>

definition no_defaults :: defaults where
  "no_defaults = \<lparr> d_profile = None, d_max_retries = None, d_timeout_seconds = None,
     d_on_failure = Policy_Route, d_require_verdict = None, d_max_parallel = None,
     d_context = None, d_retry_advice = None, d_host_decisions = None, d_retry_delay = None,
     d_stall_after = None \<rparr>"

definition plain_node :: "string \<Rightarrow> node_kind \<Rightarrow> node" where
  "plain_node i k = \<lparr> n_id = i, n_title = None, n_effects = [], n_expected_duration = None,
     n_inputs = None, n_outputs = None, n_cache = None, n_success_check = None, n_context = None,
     n_completion_check = None, n_route = None, n_option_descriptions = fmempty,
     n_auto_decide = None, n_auto_decide_ok = False, n_read_only = False, n_stall_after = None,
     n_writes = None, n_max_changed_files = None, n_untrusted = False, n_accept_untrusted = None,
     n_unattended = None, n_fork = None, n_list = None, n_results = None, n_person_only = False,
     n_approves = None, n_requires_approval = None, n_evidence = None, n_kind = k \<rparr>"

definition plain_edge :: "string \<Rightarrow> string \<Rightarrow> edge" where
  "plain_edge from to = \<lparr> e_id = None, e_from = from, e_to = to, e_condition = None,
     e_fallback = False, e_join = None, e_max_traversals = None, e_require = None \<rparr>"

definition plain_playbook :: "node list \<Rightarrow> edge list \<Rightarrow> playbook" where
  "plain_playbook ns es = \<lparr> pb_schema = 2, pb_id = ''p'', pb_name = ''p'', pb_description = [],
     pb_version = ''1'', pb_params = [], pb_defaults = no_defaults, pb_supervisor = None,
     pb_trigger = None, pb_requires = None, pb_goal = None, pb_effects = [], pb_worktree = None,
     pb_baseline_check = None, pb_budget = None, pb_quality = None, pb_known_problems = None,
     pb_previous_success = None, pb_publish_only = False, pb_agent_launch = None,
     pb_run_outputs = None, pb_nodes = ns, pb_edges = es \<rparr>"

lemma plain_edge_simps [simp]:
  "e_from (plain_edge a b) = a" "e_to (plain_edge a b) = b" "e_condition (plain_edge a b) = None"
  "e_fallback (plain_edge a b) = False" "e_join (plain_edge a b) = None"
  "e_max_traversals (plain_edge a b) = None" "e_require (plain_edge a b) = None"
  "e_id (plain_edge a b) = None"
  by (simp_all add: plain_edge_def)

lemma plain_node_simps [simp]:
  "n_id (plain_node i k) = i" "n_kind (plain_node i k) = k" "n_fork (plain_node i k) = None"
  by (simp_all add: plain_node_def)

lemma plain_playbook_simps [simp]:
  "pb_nodes (plain_playbook ns es) = ns" "pb_edges (plain_playbook ns es) = es"
  "pb_defaults (plain_playbook ns es) = no_defaults"
  by (simp_all add: plain_playbook_def)

end
