(* ===== verification/Codec.thy ===== *)
theory Codec
  imports Prelude
begin

text \<open>
  The contract of a pair of textual conversions: the reader inverts the writer on valid values
  and accepts nothing else than what the writer produces.  Every canonical text form of the
  program (a percent-encoded component, a decimal ordinal, an edge address) is an
  interpretation of it.
\<close>

locale codec =
  fixes enc :: "'a \<Rightarrow> string"
    and dec :: "string \<Rightarrow> 'a option"
    and valid :: "'a \<Rightarrow> bool"
  assumes dec_enc: "valid x \<Longrightarrow> dec (enc x) = Some x"
    and enc_dec: "dec t = Some x \<Longrightarrow> enc x = t \<and> valid x"
begin

lemma enc_inject: "valid x \<Longrightarrow> valid y \<Longrightarrow> (enc x = enc y) = (x = y)"
  using dec_enc by (metis option.inject)

lemma dec_canonical: "dec s = Some x \<Longrightarrow> dec t = Some x \<Longrightarrow> s = t"
  using enc_dec by metis

lemma dec_accepts: "(dec t \<noteq> None) = (\<exists>x. valid x \<and> t = enc x)"
  using dec_enc enc_dec by fastforce

lemma dec_iff: "(dec t = Some x) = (valid x \<and> t = enc x)"
  using dec_enc enc_dec by auto

end

text \<open>Unsigned decimals without a sign or a leading zero, below a bound: \<open>parse\<close> of positive ordinals.\<close>

definition decimal_read :: "nat \<Rightarrow> string \<Rightarrow> nat option" where
  "decimal_read bound s =
     (if s = [] \<or> hd s = CHR ''0'' \<or> \<not> list_all is_digit s then None
      else parse_unsigned bound s)"

interpretation decimal: codec show_nat "decimal_read bound" "\<lambda>n. 0 < n \<and> n < bound" for bound
proof unfold_locales
  fix n assume n: "0 < n \<and> n < bound"
  then show "decimal_read bound (show_nat n) = Some n"
    using show_nat_digits [of n] show_nat_hd_nonzero [of n] parse_unsigned_show [of n bound]
    by (simp add: decimal_read_def)
next
  fix t n assume d: "decimal_read bound t = Some n"
  then have t: "t \<noteq> []" "hd t \<noteq> CHR ''0''" "list_all is_digit t"
    and p: "parse_unsigned bound t = Some n"
    by (auto simp: decimal_read_def split: if_splits)
  obtain c r where cr: "t = c # r" using t(1) by (cases t) auto
  then have "c \<noteq> CHR ''+''" using t(3) digit_not_sign by simp
  then have n: "n = dec_val t" "n < bound"
    using p cr t by (auto simp: parse_unsigned_def parse_digits_def split: if_splits)
  then have s: "show_nat n = t" using show_nat_dec_val [OF t(1,3,2)] by simp
  moreover have "0 < n"
  proof (rule ccontr)
    assume "\<not> 0 < n"
    then have "t = show_nat 0" using s by simp
    then have "hd t = digit_char 0" by (simp add: show_nat.simps)
    moreover have "byte (digit_char 0) = byte CHR ''0''" by (simp add: digit_char_def byte_def)
    ultimately show False using t(2) by (simp add: byte_inject)
  qed
  ultimately show "show_nat n = t \<and> 0 < n \<and> n < bound" using n by simp
qed

end
