(* ===== verification/Graph_Util.thy ===== *)
theory Graph_Util
  imports Schema
begin

text \<open>
  \<^verbatim>\<open>apb-core/src/graphutil.rs\<close>: successor adjacency of the node graph, forward
  reachability by a queue of pending nodes, the acyclic fan-in test and the failure handlers that
  have no edge of their own.  The result of every search is shown to be exactly the reflexive
  transitive closure of the edge relation.
\<close>

section \<open>Definitions\<close>

type_synonym adjacency_map = "(string, string list) fmap"

definition adjacency :: "playbook \<Rightarrow> adjacency_map" where
  "adjacency pb =
     foldl (\<lambda>adj e. fmupd (e_from e) (fget adj [] (e_from e) @ [e_to e]) adj)
       (foldl (\<lambda>adj n. fmupd (n_id n) (fget adj [] (n_id n)) adj) fmempty (pb_nodes pb))
       (pb_edges pb)"

text \<open>The nodes an adjacency map can ever put on the queue.\<close>

definition adj_targets :: "adjacency_map \<Rightarrow> string set" where
  "adj_targets adj = (\<Union>ts\<in>fset (fmran adj). set ts)"

lemma adj_targets_finite [simp]: "finite (adj_targets adj)"
  by (simp add: adj_targets_def)

lemma fget_targets: "set (fget adj [] x) \<subseteq> adj_targets adj"
proof (cases "fmlookup adj x")
  case None
  then show ?thesis by (simp add: fget_def)
next
  case (Some ts)
  then have "ts \<in> fset (fmran adj)" by (rule fmranI)
  then show ?thesis using Some by (auto simp: fget_def adj_targets_def)
qed

function reach_loop :: "adjacency_map \<Rightarrow> string fset \<Rightarrow> string list \<Rightarrow> string fset" where
  "reach_loop adj seen [] = seen"
| "reach_loop adj seen (i # q) =
     (if i |\<in>| seen then reach_loop adj seen q
      else reach_loop adj (finsert i seen) (q @ fget adj [] i))"
  by pat_completeness auto
termination
proof (relation "measures [\<lambda>(adj, seen, q). card ((adj_targets adj \<union> set q) - fset seen),
                           \<lambda>(adj, seen, q). length q]", simp, goal_cases)
  case (1 adj seen i q)
  then have "(adj_targets adj \<union> set (i # q)) - fset seen = (adj_targets adj \<union> set q) - fset seen"
    by auto
  then show ?case by simp
next
  case (2 adj seen i q)
  let ?new = "(adj_targets adj \<union> set (q @ fget adj [] i)) - fset (finsert i seen)"
  let ?old = "(adj_targets adj \<union> set (i # q)) - fset seen"
  have "?new \<subset> ?old" using 2 fget_targets [of adj i] by auto
  then have "card ?new < card ?old" by (simp add: psubset_card_mono)
  then show ?case by simp
qed

definition reachable_from :: "adjacency_map \<Rightarrow> string \<Rightarrow> string fset" where
  "reachable_from adj from = reach_loop adj fempty [from]"

definition is_acyclic_fan_in :: "adjacency_map \<Rightarrow> string \<Rightarrow> string list \<Rightarrow> bool" where
  "is_acyclic_fan_in adj nd sources =
     (if length sources < 2 then False
      else let downstream = reachable_from adj nd in
           list_all (\<lambda>s. s |\<notin>| downstream) sources)"

definition reachable :: "playbook \<Rightarrow> string list \<Rightarrow> string fset" where
  "reachable pb from =
     (let adj = adjacency pb;
          seeds = filter (\<lambda>k. k \<in> set from) (sorted_list_of_fset (fmdom adj))
      in foldl (\<lambda>seen seed. seen |\<union>| reachable_from adj seed) (fset_of_list from) seeds)"

definition policy_handlers :: "playbook \<Rightarrow> string list" where
  "policy_handlers pb =
     (case d_on_failure (pb_defaults pb) of
        Policy_Node target \<Rightarrow> if pb_node pb target \<noteq> None then [target] else []
      | _ \<Rightarrow> [])
     @ concat (map (\<lambda>n. case Option.bind (n_fork n) fs_on_failure of
                           Some target \<Rightarrow> if pb_node pb target \<noteq> None then [target] else []
                         | None \<Rightarrow> []) (pb_nodes pb))"

definition is_start :: "node \<Rightarrow> bool" where
  "is_start n = (n_kind n = Start)"

definition reachable_with_policies :: "playbook \<Rightarrow> string fset" where
  "reachable_with_policies pb =
     (case find is_start (pb_nodes pb) of
        None \<Rightarrow> fempty
      | Some start \<Rightarrow> reach_loop (adjacency pb) fempty (n_id start # policy_handlers pb))"

section \<open>Reachability is the transitive closure\<close>

definition adj_rel :: "adjacency_map \<Rightarrow> (string \<times> string) set" where
  "adj_rel adj = {(a, b). b \<in> set (fget adj [] a)}"

definition edge_rel :: "playbook \<Rightarrow> (string \<times> string) set" where
  "edge_rel pb = {(e_from e, e_to e) | e. e \<in> set (pb_edges pb)}"

lemma adj_push_edges:
  "set (fget (foldl (\<lambda>adj e. fmupd (e_from e) (fget adj [] (e_from e) @ [e_to e]) adj) adj es) [] a)
    = set (fget adj [] a) \<union> {e_to e | e. e \<in> set es \<and> e_from e = a}"
  by (induction es arbitrary: adj) auto

lemma adj_nodes_empty:
  "(\<And>a. fget adj [] a = []) \<Longrightarrow>
    fget (foldl (\<lambda>adj n. fmupd (n_id n) (fget adj [] (n_id n)) adj) adj ns) [] a = ([] :: string list)"
  by (induction ns arbitrary: adj) auto

lemma adj_rel_adjacency: "adj_rel (adjacency pb) = edge_rel pb"
proof -
  have nodes: "fget (foldl (\<lambda>adj n. fmupd (n_id n) (fget adj [] (n_id n)) adj) fmempty (pb_nodes pb))
      [] a = ([] :: string list)" for a
    by (rule adj_nodes_empty) simp
  show ?thesis
    unfolding adj_rel_def edge_rel_def adjacency_def adj_push_edges by (auto simp: nodes)
qed

lemma reach_step_subset:
  "B \<subseteq> C \<Longrightarrow> i \<in> C \<Longrightarrow> X \<subseteq> insert i S \<union> (A \<union> B) \<Longrightarrow> X \<subseteq> S \<union> (C \<union> A)"
  by blast

lemma reach_loop_sound: "fset (reach_loop adj seen q) \<subseteq> fset seen \<union> (adj_rel adj)\<^sup>* `` set q"
proof (induction adj seen q rule: reach_loop.induct)
  case (1 adj seen)
  then show ?case by simp
next
  case (2 adj seen i q)
  show ?case
  proof (cases "i |\<in>| seen")
    case True
    then show ?thesis using 2(1) by auto
  next
    case False
    have "(adj_rel adj)\<^sup>* `` set (fget adj [] i) \<subseteq> (adj_rel adj)\<^sup>* `` {i}"
      by (auto simp: adj_rel_def intro: converse_rtrancl_into_rtrancl)
    moreover have "i \<in> (adj_rel adj)\<^sup>* `` {i}" by auto
    moreover have "fset (reach_loop adj (finsert i seen) (q @ fget adj [] i))
      \<subseteq> insert i (fset seen) \<union> ((adj_rel adj)\<^sup>* `` set q \<union> (adj_rel adj)\<^sup>* `` set (fget adj [] i))"
      using 2(2) [OF False] by (simp only: set_append Image_Un finsert.rep_eq)
    ultimately have "fset (reach_loop adj (finsert i seen) (q @ fget adj [] i))
      \<subseteq> fset seen \<union> ((adj_rel adj)\<^sup>* `` {i} \<union> (adj_rel adj)\<^sup>* `` set q)"
      by (rule reach_step_subset)
    moreover have "(adj_rel adj)\<^sup>* `` set (i # q)
        = (adj_rel adj)\<^sup>* `` {i} \<union> (adj_rel adj)\<^sup>* `` set q"
      by (simp only: list.set Image_Un [symmetric]) simp
    ultimately show ?thesis using False by (simp only: reach_loop.simps if_False)
  qed
qed

lemma reach_loop_complete:
  assumes "\<And>x y. x |\<in>| seen \<Longrightarrow> (x, y) \<in> adj_rel adj \<Longrightarrow> y |\<in>| seen \<or> y \<in> set q"
  shows "fset seen \<union> set q \<subseteq> fset (reach_loop adj seen q)
    \<and> adj_rel adj `` fset (reach_loop adj seen q) \<subseteq> fset (reach_loop adj seen q)"
  using assms
proof (induction adj seen q rule: reach_loop.induct)
  case (1 adj seen)
  then show ?case by auto
next
  case (2 adj seen i q)
  show ?case
  proof (cases "i |\<in>| seen")
    case True
    then have "fset seen \<union> set q \<subseteq> fset (reach_loop adj seen q)
        \<and> adj_rel adj `` fset (reach_loop adj seen q) \<subseteq> fset (reach_loop adj seen q)"
      using 2(1) 2(3) by fastforce
    then show ?thesis using True by auto
  next
    case False
    have "y |\<in>| finsert i seen \<or> y \<in> set (q @ fget adj [] i)"
      if "x |\<in>| finsert i seen" "(x, y) \<in> adj_rel adj" for x y
      using that 2(3) [of x y] by (auto simp: adj_rel_def)
    from 2(2) [OF False this] show ?thesis using False by auto
  qed
qed

lemma closed_rtrancl: "r `` X \<subseteq> X \<Longrightarrow> r\<^sup>* `` X = X"
proof
  assume closed: "r `` X \<subseteq> X"
  show "r\<^sup>* `` X \<subseteq> X"
  proof
    fix y assume "y \<in> r\<^sup>* `` X"
    then obtain x where "(x, y) \<in> r\<^sup>*" "x \<in> X" by auto
    then show "y \<in> X" using closed by (induction rule: rtrancl_induct) auto
  qed
qed auto

lemma reach_loop_rtrancl: "fset (reach_loop adj fempty q) = (adj_rel adj)\<^sup>* `` set q"
proof
  show "fset (reach_loop adj fempty q) \<subseteq> (adj_rel adj)\<^sup>* `` set q"
    using reach_loop_sound [of adj fempty q] by simp
  have c: "set q \<subseteq> fset (reach_loop adj fempty q)"
    "adj_rel adj `` fset (reach_loop adj fempty q) \<subseteq> fset (reach_loop adj fempty q)"
    using reach_loop_complete [of fempty adj q] by auto
  show "(adj_rel adj)\<^sup>* `` set q \<subseteq> fset (reach_loop adj fempty q)"
    using closed_rtrancl [OF c(2)] c(1) by auto
qed

lemma reachable_from_rtrancl: "fset (reachable_from adj i) = (adj_rel adj)\<^sup>* `` {i}"
  unfolding reachable_from_def reach_loop_rtrancl by simp

lemma reachable_from_self [simp]: "i |\<in>| reachable_from adj i"
  using reachable_from_rtrancl [of adj i] by auto

lemma foldl_union_fset:
  "fset (foldl (\<lambda>seen s. seen |\<union>| f s) S xs) = fset S \<union> (\<Union>s\<in>set xs. fset (f s))"
  by (induction xs arbitrary: S) auto

text \<open>
  The validator's and the engine's shared forward search returns exactly the nodes reachable
  over the playbook's edges (it terminates on every graph, cycles included).
\<close>

theorem reachable_from_correct:
  "fset (reachable_from (adjacency pb) i) = {j. (i, j) \<in> (edge_rel pb)\<^sup>*}"
  by (auto simp: reachable_from_rtrancl adj_rel_adjacency)

lemma acyclic_fan_in_iff:
  "is_acyclic_fan_in (adjacency pb) nd sources =
    (2 \<le> length sources \<and> (\<forall>s\<in>set sources. (nd, s) \<notin> (edge_rel pb)\<^sup>*))"
  by (auto simp: is_acyclic_fan_in_def Let_def list_all_iff reachable_from_rtrancl adj_rel_adjacency)

lemma adj_dom_nodes:
  "fset (fmdom (foldl (\<lambda>adj n. fmupd (n_id n) (fget adj [] (n_id n)) adj) adj ns))
    = fset (fmdom adj) \<union> n_id ` set ns"
  by (induction ns arbitrary: adj) auto

lemma adj_dom_edges:
  "fset (fmdom (foldl (\<lambda>adj e. fmupd (e_from e) (fget adj [] (e_from e) @ [e_to e]) adj) adj es))
    = fset (fmdom adj) \<union> e_from ` set es"
  by (induction es arbitrary: adj) auto

lemma adjacency_dom: "fset (fmdom (adjacency pb)) = n_id ` set (pb_nodes pb) \<union> e_from ` set (pb_edges pb)"
  unfolding adjacency_def adj_dom_edges adj_dom_nodes by auto

lemma no_successor: "i \<notin> e_from ` set (pb_edges pb) \<Longrightarrow> (edge_rel pb)\<^sup>* `` {i} = {i}"
  by (auto simp: edge_rel_def elim: converse_rtranclE)

lemma reachable_correct: "fset (reachable pb from) = (edge_rel pb)\<^sup>* `` set from"
proof -
  have "fset (reachable pb from) = set from \<union>
      (\<Union>s\<in>{k \<in> fset (fmdom (adjacency pb)). k \<in> set from}. (edge_rel pb)\<^sup>* `` {s})"
    by (simp add: reachable_def Let_def foldl_union_fset reachable_from_rtrancl adj_rel_adjacency
        fset_of_list.rep_eq)
  also have "\<dots> = (\<Union>s\<in>set from. (edge_rel pb)\<^sup>* `` {s})"
  proof
    show "(\<Union>s\<in>set from. (edge_rel pb)\<^sup>* `` {s}) \<subseteq> set from \<union>
      (\<Union>s\<in>{k \<in> fset (fmdom (adjacency pb)). k \<in> set from}. (edge_rel pb)\<^sup>* `` {s})"
    proof
      fix y assume "y \<in> (\<Union>s\<in>set from. (edge_rel pb)\<^sup>* `` {s})"
      then obtain s where s: "s \<in> set from" "y \<in> (edge_rel pb)\<^sup>* `` {s}" by auto
      show "y \<in> set from \<union>
        (\<Union>s\<in>{k \<in> fset (fmdom (adjacency pb)). k \<in> set from}. (edge_rel pb)\<^sup>* `` {s})"
      proof (cases "s \<in> fset (fmdom (adjacency pb))")
        case True
        then show ?thesis using s by auto
      next
        case False
        then have "s \<notin> e_from ` set (pb_edges pb)" by (simp add: adjacency_dom)
        then show ?thesis using s no_successor by auto
      qed
    qed
  qed auto
  also have "\<dots> = (edge_rel pb)\<^sup>* `` set from" by auto
  finally show ?thesis .
qed

lemma policy_handlers_declared: "set (policy_handlers pb) \<subseteq> n_id ` set (pb_nodes pb)"
  using pb_node_is_Some [of pb]
  by (auto simp: policy_handlers_def split: failure_policy.splits option.splits if_splits)

end
