(* ===== verification/Edge_Address.thy ===== *)
theory Edge_Address
  imports Schema Codec
begin

text \<open>
  \<^verbatim>\<open>apb-core/src/edge_address.rs\<close>: the address of one edge of a definition, its exact
  string form (percent-encoded ends, a 1-based ordinal without leading zeros) and the addressing
  of a whole edge list.  Ordinals and check positions are \<^verbatim>\<open>u32\<close> words.
\<close>

section \<open>Definitions\<close>

definition MAX_EDGE_ID_LEN :: nat where
  "MAX_EDGE_ID_LEN = 64"

definition is_valid_edge_id :: "string \<Rightarrow> bool" where
  "is_valid_edge_id bytes =
     (bytes \<noteq> [] \<and> length bytes \<le> MAX_EDGE_ID_LEN
      \<and> (is_lower (bytes ! 0) \<or> is_digit (bytes ! 0))
      \<and> list_all (\<lambda>b. is_lower b \<or> is_digit b \<or> b = CHR ''_'' \<or> b = CHR ''-'') bytes)"

datatype edge_address = Authored string | Derived string string u32

datatype address_error = Address_Error string

definition is_plain :: "char \<Rightarrow> bool" where
  "is_plain b =
     (is_lower b \<or> is_upper b \<or> is_digit b \<or> b = CHR ''_'' \<or> b = CHR ''.'' \<or> b = CHR ''-'')"

definition hex_digit :: "nat \<Rightarrow> char" where
  "hex_digit n = (if n < 10 then char_of (48 + n) else char_of (55 + n))"

definition hex_ok :: "char \<Rightarrow> bool" where
  "hex_ok h = (is_digit h \<or> in_range 65 70 h)"

definition hex_val :: "char \<Rightarrow> nat" where
  "hex_val h = (if is_digit h then byte h - 48 else byte h - 55)"

definition encode_byte :: "char \<Rightarrow> string" where
  "encode_byte b =
     (if is_plain b then [b] else [CHR ''%'', hex_digit (byte b div 16), hex_digit (byte b mod 16)])"

definition encode_component :: "string \<Rightarrow> string" where
  "encode_component s = concat (map encode_byte s)"

fun decode_bytes :: "string \<Rightarrow> string option" where
  "decode_bytes [] = Some []"
| "decode_bytes (b # r) =
     (if b = CHR ''%'' then
        (case r of
           h1 # h2 # r' \<Rightarrow>
             if \<not> (hex_ok h1 \<and> hex_ok h2) then None
             else (let v = char_of (16 * hex_val h1 + hex_val h2) in
                   if is_plain v then None else map_option ((#) v) (decode_bytes r'))
         | _ \<Rightarrow> None)
      else if is_plain b then map_option ((#) b) (decode_bytes r)
      else None)"

definition decode_component :: "string \<Rightarrow> string option" where
  "decode_component s =
     (case decode_bytes s of None \<Rightarrow> None | Some out \<Rightarrow> if utf8_valid out then Some out else None)"

definition decode_nonempty :: "string \<Rightarrow> string option" where
  "decode_nonempty s =
     (case decode_component s of None \<Rightarrow> None | Some x \<Rightarrow> if x \<noteq> [] then Some x else None)"

definition render :: "edge_address \<Rightarrow> string" where
  "render a =
     (case a of
        Authored i \<Rightarrow> ''id:'' @ encode_component i
      | Derived from to ordinal \<Rightarrow>
          ''e:'' @ encode_component from @ ''>'' @ encode_component to @ ''#''
          @ show_nat (unat ordinal))"

definition parse_derived :: "string \<Rightarrow> edge_address option" where
  "parse_derived s =
     (case strip_prefix ''e:'' s of
        None \<Rightarrow> None
      | Some rest \<Rightarrow>
          (case rsplit_once (CHR ''#'') rest of
             None \<Rightarrow> None
           | Some (ends, ordinal) \<Rightarrow>
               (case split_once (CHR ''>'') ends of
                  None \<Rightarrow> None
                | Some (from, to) \<Rightarrow>
                    if ordinal = [] \<or> hd ordinal = CHR ''0'' \<or> \<not> list_all is_digit ordinal
                    then None
                    else (case parse_u32 ordinal of
                            None \<Rightarrow> None
                          | Some n \<Rightarrow>
                              (case decode_nonempty from of
                                 None \<Rightarrow> None
                               | Some f \<Rightarrow>
                                   (case decode_nonempty to of
                                      None \<Rightarrow> None
                                    | Some t \<Rightarrow> Some (Derived f t n)))))))"

definition parse_address :: "string \<Rightarrow> address_error + edge_address" where
  "parse_address s =
     (case strip_prefix ''id:'' s of
        Some i \<Rightarrow>
          (case decode_nonempty i of
             Some x \<Rightarrow> Inr (Authored x)
           | None \<Rightarrow> Inl (Address_Error s))
      | None \<Rightarrow>
          (case parse_derived s of Some a \<Rightarrow> Inr a | None \<Rightarrow> Inl (Address_Error s)))"

datatype check_order = Parallel | Ordered u32 | Fallback

definition check_order_of :: "edge \<Rightarrow> u32 \<Rightarrow> check_order" where
  "check_order_of e conditional_before =
     (if e_fallback e then Fallback
      else if e_condition e \<noteq> None then Ordered (conditional_before + 1)
      else Parallel)"

record addressed_edge =
  ae_address :: edge_address
  ae_rendered :: string
  ae_index :: nat
  ae_rank :: nat
  ae_check :: check_order

record address_state =
  as_ordinals :: "(string \<times> string, u32) fmap"
  as_ranks :: "(string, nat) fmap"
  as_conditional :: "(string, u32) fmap"

definition address_init :: address_state where
  "address_init = \<lparr> as_ordinals = fmempty, as_ranks = fmempty, as_conditional = fmempty \<rparr>"

definition address_edge :: "address_state \<Rightarrow> nat \<Rightarrow> edge \<Rightarrow> address_state \<times> addressed_edge" where
  "address_edge st index e =
     (let (ordinals, address) =
            (case e_id e of
               Some i \<Rightarrow> (as_ordinals st, Authored i)
             | None \<Rightarrow>
                 (let n = fget (as_ordinals st) 0 (e_from e, e_to e) + 1 in
                  (fmupd (e_from e, e_to e) n (as_ordinals st), Derived (e_from e) (e_to e) n)));
          this_rank = fget (as_ranks st) 0 (e_from e);
          before = fget (as_conditional st) 0 (e_from e);
          check = check_order_of e before
      in (\<lparr> as_ordinals = ordinals,
            as_ranks = fmupd (e_from e) (this_rank + 1) (as_ranks st),
            as_conditional =
              fmupd (e_from e) (case check of Ordered _ \<Rightarrow> before + 1 | _ \<Rightarrow> before)
                (as_conditional st) \<rparr>,
          \<lparr> ae_address = address, ae_rendered = render address, ae_index = index,
            ae_rank = this_rank, ae_check = check \<rparr>))"

fun address_from :: "address_state \<Rightarrow> nat \<Rightarrow> edge list \<Rightarrow> addressed_edge list" where
  "address_from st i [] = []"
| "address_from st i (e # es) =
     (let (st', a) = address_edge st i e in a # address_from st' (Suc i) es)"

definition edges_addressed :: "edge list \<Rightarrow> addressed_edge list" where
  "edges_addressed es = address_from address_init 0 es"

definition edge_addresses :: "playbook \<Rightarrow> addressed_edge list" where
  "edge_addresses pb = edges_addressed (pb_edges pb)"

definition rendered_at :: "playbook \<Rightarrow> nat \<Rightarrow> string option" where
  "rendered_at pb index =
     (let as = edge_addresses pb in
      if index < length as then Some (ae_rendered (as ! index)) else None)"

definition resolve :: "playbook \<Rightarrow> edge_address \<Rightarrow> nat option" where
  "resolve pb address =
     map_option ae_index (find (\<lambda>a. ae_address a = address) (edge_addresses pb))"

section \<open>The component codec\<close>

lemma hex_digit_ok: "n < 16 \<Longrightarrow> hex_ok (hex_digit n) \<and> hex_val (hex_digit n) = n"
  by (auto simp: hex_ok_def hex_digit_def hex_val_def is_digit_def in_range_def)

lemma hex_val_less: "hex_ok h \<Longrightarrow> hex_val h < 16"
  by (auto simp: hex_ok_def hex_val_def is_digit_def in_range_def)

lemma hex_digit_val: "hex_ok h \<Longrightarrow> hex_digit (hex_val h) = h"
  by (auto simp: hex_ok_def hex_digit_def hex_val_def is_digit_def in_range_def)

lemma percent_not_plain: "\<not> is_plain CHR ''%''"
  by (simp add: is_plain_def is_lower_def is_upper_def is_digit_def in_range_def byte_def)

lemma decode_encode_bytes: "decode_bytes (encode_component s @ t) =
    map_option ((@) s) (decode_bytes t)"
proof (induction s)
  case Nil
  then show ?case by (cases "decode_bytes t") (simp_all add: encode_component_def)
next
  case (Cons b s)
  have e: "encode_component (b # s) @ t = encode_byte b @ (encode_component s @ t)"
    by (simp add: encode_component_def)
  show ?case
  proof (cases "is_plain b")
    case True
    then show ?thesis
      unfolding e using Cons percent_not_plain
      by (auto simp: encode_byte_def option.map_comp comp_def)
  next
    case False
    have h: "byte b div 16 < 16" using byte_lt [of b] by linarith
    have "char_of (16 * (byte b div 16) + byte b mod 16) = b" by simp
    then show ?thesis
      unfolding e using Cons False hex_digit_ok [OF h] hex_digit_ok [of "byte b mod 16"]
      by (auto simp: encode_byte_def option.map_comp comp_def Let_def)
  qed
qed

lemma decode_bytes_encode: "decode_bytes t = Some s \<Longrightarrow> encode_component s = t"
proof (induction t arbitrary: s rule: decode_bytes.induct)
  case 1
  then show ?case by (simp add: encode_component_def)
next
  case (2 b r)
  show ?case
  proof (cases "b = CHR ''%''")
    case True
    then obtain h1 h2 r' s' where d: "r = h1 # h2 # r'" "hex_ok h1" "hex_ok h2"
      "\<not> is_plain (char_of (16 * hex_val h1 + hex_val h2))"
      "decode_bytes r' = Some s'" "s = char_of (16 * hex_val h1 + hex_val h2) # s'"
      using 2(3) by (auto split: list.splits if_splits simp: Let_def)
    have "encode_component s' = r'"
      using 2(1) [OF True d(1)] d by simp
    moreover have "16 * hex_val h1 + hex_val h2 < 256"
      using hex_val_less [OF d(2)] hex_val_less [OF d(3)] by simp
    moreover have "(16 * hex_val h1 + hex_val h2) div 16 = hex_val h1"
      "(16 * hex_val h1 + hex_val h2) mod 16 = hex_val h2"
      using hex_val_less [OF d(3)] by simp_all
    ultimately show ?thesis
      using d True by (simp add: encode_component_def encode_byte_def hex_digit_val)
  next
    case False
    then obtain s' where "is_plain b" "decode_bytes r = Some s'" "s = b # s'"
      using 2(3) by (auto split: if_splits)
    then show ?thesis using 2(2) False by (simp add: encode_component_def encode_byte_def)
  qed
qed

lemma decode_encode: "decode_bytes (encode_component s) = Some s"
  using decode_encode_bytes [of s "[]"] by simp

definition valid_component :: "string \<Rightarrow> bool" where
  "valid_component s = (s \<noteq> [] \<and> utf8_valid s)"

interpretation component: codec encode_component decode_nonempty valid_component
proof unfold_locales
  fix x assume "valid_component x"
  then show "decode_nonempty (encode_component x) = Some x"
    by (simp add: valid_component_def decode_nonempty_def decode_component_def decode_encode)
next
  fix t x assume "decode_nonempty t = Some x"
  then show "encode_component x = t \<and> valid_component x"
    by (auto simp: valid_component_def decode_nonempty_def decode_component_def
        split: option.splits if_splits dest: decode_bytes_encode)
qed

section \<open>The address codec\<close>

lemma hex_ok_plain: "hex_ok h \<Longrightarrow> is_plain h"
  by (auto simp: hex_ok_def is_plain_def is_upper_def is_digit_def in_range_def)

lemma encode_chars: "c \<in> set (encode_component s) \<Longrightarrow> is_plain c \<or> c = CHR ''%''"
proof -
  assume "c \<in> set (encode_component s)"
  then obtain b where b: "c \<in> set (encode_byte b)" by (auto simp: encode_component_def)
  have "byte b div 16 < 16" using byte_lt [of b] by linarith
  then have "is_plain (hex_digit (byte b div 16))" "is_plain (hex_digit (byte b mod 16))"
    using hex_digit_ok hex_ok_plain by simp_all
  then show ?thesis using b by (auto simp: encode_byte_def split: if_splits)
qed

lemma separators_not_plain: "\<not> is_plain CHR ''>''" "\<not> is_plain CHR ''#''"
  by (simp_all add: is_plain_def is_lower_def is_upper_def is_digit_def in_range_def byte_def)

lemma encode_no_separator [simp]:
  "CHR ''>'' \<notin> set (encode_component s)" "CHR ''#'' \<notin> set (encode_component s)"
  using encode_chars separators_not_plain by fastforce+

lemma digits_no_hash [simp]: "CHR ''#'' \<notin> set (show_nat n)"
  using show_nat_digits [of n] by (auto simp: list_all_iff is_digit_def in_range_def byte_def)

definition address_read :: "string \<Rightarrow> edge_address option" where
  "address_read s = (case parse_address s of Inr a \<Rightarrow> Some a | Inl _ \<Rightarrow> None)"

definition valid_address :: "edge_address \<Rightarrow> bool" where
  "valid_address a =
     (case a of Authored i \<Rightarrow> valid_component i
      | Derived f t n \<Rightarrow> valid_component f \<and> valid_component t \<and> 0 < n)"

lemma parse_derived_read:
  "parse_derived s =
     (case strip_prefix ''e:'' s of
        None \<Rightarrow> None
      | Some rest \<Rightarrow>
          (case rsplit_once (CHR ''#'') rest of
             None \<Rightarrow> None
           | Some (ends, ordinal) \<Rightarrow>
               (case split_once (CHR ''>'') ends of
                  None \<Rightarrow> None
                | Some (from, to) \<Rightarrow>
                    (case decimal_read (2 ^ 32) ordinal of
                       None \<Rightarrow> None
                     | Some n \<Rightarrow>
                         (case decode_nonempty from of
                            None \<Rightarrow> None
                          | Some f \<Rightarrow>
                              (case decode_nonempty to of
                                 None \<Rightarrow> None
                               | Some t \<Rightarrow> Some (Derived f t (of_nat n))))))))"
  unfolding parse_derived_def decimal_read_def parse_u32_def
  by (auto split: option.splits prod.splits)

lemma prefix_tags: "strip_prefix ''id:'' (''e:'' @ s) = None"
  by (simp add: strip_prefix_def)

lemma ordinal_unat: "0 < n \<Longrightarrow> 0 < unat (n :: u32) \<and> unat n < 2 ^ 32"
  using unsigned_less [of n, where ?'a = nat] by (simp add: unat_gt_0)

interpretation address: codec render address_read valid_address
proof unfold_locales
  fix a assume v: "valid_address a"
  show "address_read (render a) = Some a"
  proof (cases a)
    case (Authored i)
    then have "strip_prefix ''id:'' (render a) = Some (encode_component i)"
      by (simp add: render_def strip_prefix_def)
    then show ?thesis
      using v component.dec_enc Authored
      by (simp add: address_read_def parse_address_def valid_address_def)
  next
    case (Derived f t n)
    define ends where "ends = encode_component f @ CHR ''>'' # encode_component t"
    define rest where "rest = ends @ CHR ''#'' # show_nat (unat n)"
    have split: "render a = ''e:'' @ rest"
      using Derived by (simp add: render_def ends_def rest_def)
    have s1: "strip_prefix ''e:'' (render a) = Some rest"
      unfolding split by (rule strip_prefix_append)
    have s2: "rsplit_once (CHR ''#'') rest = Some (ends, show_nat (unat n))"
      unfolding rest_def by (rule rsplit_once_append) simp
    have s3: "split_once (CHR ''>'') ends = Some (encode_component f, encode_component t)"
      unfolding ends_def by (rule split_once_append) simp
    have d: "decimal_read (2 ^ 32) (show_nat (unat n)) = Some (unat n)"
      by (rule decimal.dec_enc) (use ordinal_unat v Derived in \<open>simp add: valid_address_def\<close>)
    have "parse_derived (render a) = Some a"
      unfolding parse_derived_read s1 option.case s2 prod.case s3 d
      using component.dec_enc v Derived by (simp add: valid_address_def)
    moreover have "strip_prefix ''id:'' (render a) = None"
      using prefix_tags by (simp add: split)
    ultimately show ?thesis by (simp add: address_read_def parse_address_def)
  qed
next
  fix s a assume r: "address_read s = Some a"
  show "render a = s \<and> valid_address a"
  proof (cases "strip_prefix ''id:'' s")
    case (Some i)
    then have "decode_nonempty i \<noteq> None" "a = Authored (the (decode_nonempty i))"
      using r by (auto simp: address_read_def parse_address_def split: option.splits)
    then obtain x where "decode_nonempty i = Some x" "a = Authored x" by auto
    then show ?thesis
      using component.enc_dec strip_prefix_Some [OF Some]
      by (simp add: render_def valid_address_def)
  next
    case None
    then have "parse_derived s = Some a"
      using r by (auto simp: address_read_def parse_address_def split: option.splits)
    then obtain rest ends ordinal fr to n f t where p:
      "strip_prefix ''e:'' s = Some rest" "rsplit_once (CHR ''#'') rest = Some (ends, ordinal)"
      "split_once (CHR ''>'') ends = Some (fr, to)" "decimal_read (2 ^ 32) ordinal = Some n"
      "decode_nonempty fr = Some f" "decode_nonempty to = Some t" "a = Derived f t (of_nat n)"
      unfolding parse_derived_read by (auto split: option.splits prod.splits)
    have n: "show_nat n = ordinal" "0 < n" "n < 2 ^ 32" using decimal.enc_dec [OF p(4)] by auto
    then have "unat (of_nat n :: u32) = n" by (simp add: unsigned_of_nat take_bit_nat_eq_self)
    moreover from this n have "0 < (of_nat n :: u32)" by (metis unat_gt_0 word_neq_0_conv)
    ultimately show ?thesis
      using p n component.enc_dec [OF p(5)] component.enc_dec [OF p(6)]
        strip_prefix_Some [OF p(1)] rsplit_once_Some [OF p(2)] split_once_Some [OF p(3)]
      by (simp add: render_def valid_address_def)
  qed
qed

text \<open>
  C40: the string form of an edge address is exact: a string parses to an address if and only if
  it is the rendering of that address (ends non-empty well-formed text, ordinal at least 1), so
  equal strings mean equal addresses and nothing but a rendering is accepted.
\<close>

theorem address_text_exact:
  "(parse_address s = Inr a) = (valid_address a \<and> s = render a)"
proof -
  have "(parse_address s = Inr a) = (address_read s = Some a)"
    by (auto simp: address_read_def split: sum.splits)
  then show ?thesis using address.dec_iff by simp
qed

section \<open>Addressing an edge list\<close>

fun count_plain :: "edge list \<Rightarrow> string \<times> string \<Rightarrow> nat" where
  "count_plain [] k = 0"
| "count_plain (e # es) k =
     (if e_id e = None \<and> (e_from e, e_to e) = k then Suc (count_plain es k) else count_plain es k)"

lemma address_from_length [simp]: "length (address_from st i es) = length es"
  by (induction st i es rule: address_from.induct) (simp_all split: prod.splits)

lemma address_from_index:
  "k < length es \<Longrightarrow> ae_index (address_from st i es ! k) = i + k"
proof (induction es arbitrary: st i k)
  case Nil
  then show ?case by simp
next
  case (Cons e es)
  then show ?case
    by (cases k) (auto split: prod.splits simp: address_edge_def Let_def split: option.splits)
qed

lemma address_edge_ordinals:
  "address_edge st i e = (st', a) \<Longrightarrow>
    fget (as_ordinals st') 0 k =
      (if e_id e = None \<and> k = (e_from e, e_to e) then fget (as_ordinals st) 0 k + 1
       else fget (as_ordinals st) 0 k)"
  by (auto simp: address_edge_def Let_def split: option.splits)

lemma address_edge_address:
  "address_edge st i e = (st', a) \<Longrightarrow>
    ae_address a = (case e_id e of Some x \<Rightarrow> Authored x
      | None \<Rightarrow> Derived (e_from e) (e_to e) (fget (as_ordinals st) 0 (e_from e, e_to e) + 1))"
  by (auto simp: address_edge_def Let_def split: option.splits)

lemma address_edge_rendered:
  "address_edge st i e = (st', a) \<Longrightarrow> ae_rendered a = render (ae_address a)"
  by (auto simp: address_edge_def Let_def split: option.splits)

text \<open>Every address is the authored id, or the ends with the count of id-less edges so far.\<close>

lemma address_from_address:
  assumes "\<And>k. fget (as_ordinals st) 0 k = of_nat (count_plain pre k)" "k < length es"
  shows "ae_address (address_from st i es ! k) =
    (case e_id (es ! k) of Some x \<Rightarrow> Authored x
     | None \<Rightarrow> Derived (e_from (es ! k)) (e_to (es ! k))
         (of_nat (count_plain (pre @ take (Suc k) es) (e_from (es ! k), e_to (es ! k)))))"
  using assms
proof (induction es arbitrary: st i k pre)
  case Nil
  then show ?case by simp
next
  case (Cons e es)
  have cp: "count_plain (xs @ ys) q = count_plain xs q + count_plain ys q" for xs ys q
    by (induction xs) auto
  obtain st' a where st': "address_edge st i e = (st', a)" by fastforce
  have inv: "fget (as_ordinals st') 0 q = of_nat (count_plain (pre @ [e]) q)" for q
    using address_edge_ordinals [OF st', of q] Cons.prems(1) by (simp add: cp)
  show ?case
  proof (cases k)
    case 0
    then show ?thesis
      using st' address_edge_address [OF st'] Cons.prems(1)
      by (auto simp: cp split: option.splits)
  next
    case (Suc j)
    then show ?thesis
      using st' Cons.IH [OF inv, of j "Suc i"] Cons.prems(2) by (simp cong: option.case_cong)
  qed
qed

lemma count_plain_append: "count_plain (xs @ ys) q = count_plain xs q + count_plain ys q"
  by (induction xs) auto

lemma count_plain_le: "count_plain es q \<le> length es"
  by (induction es) auto

definition edge_address_at :: "edge list \<Rightarrow> nat \<Rightarrow> edge_address" where
  "edge_address_at es k =
    (case e_id (es ! k) of Some x \<Rightarrow> Authored x
     | None \<Rightarrow> Derived (e_from (es ! k)) (e_to (es ! k))
         (of_nat (count_plain (take (Suc k) es) (e_from (es ! k), e_to (es ! k)))))"

lemma edges_addressed_nth:
  assumes "k < length es"
  shows "ae_address (edges_addressed es ! k) = edge_address_at es k"
proof -
  have "fget (as_ordinals address_init) 0 q = of_nat (count_plain [] q)" for q
    by (simp add: address_init_def)
  from address_from_address [OF this assms, of 0] show ?thesis
    by (simp add: edges_addressed_def edge_address_at_def cong: option.case_cong)
qed

lemma take_Suc_snoc: "k < length es \<Longrightarrow> take (Suc k) es = take k es @ [es ! k]"
  by (simp add: take_Suc_conv_app_nth)

lemma count_plain_less:
  assumes "j < k" "k < length es" "e_id (es ! k) = None" "q = (e_from (es ! k), e_to (es ! k))"
  shows "count_plain (take (Suc j) es) q < count_plain (take (Suc k) es) q"
proof -
  have "take (Suc j) (take k es) = take (Suc j) es" using assms(1) by (simp add: min_def)
  then have "take k es = take (Suc j) es @ drop (Suc j) (take k es)"
    using append_take_drop_id [of "Suc j" "take k es"] by simp
  then have "count_plain (take (Suc j) es) q \<le> count_plain (take k es) q"
    by (metis count_plain_append le_add1)
  also have "\<dots> < count_plain (take (Suc k) es) q"
    using take_Suc_snoc [OF assms(2)] assms(3,4) by (simp add: count_plain_append)
  finally show ?thesis .
qed

lemma edge_address_distinct:
  assumes len: "length es < 2 ^ 32" and jk: "j < k" "k < length es"
    and ids: "e_id (es ! j) \<noteq> None \<Longrightarrow> e_id (es ! j) \<noteq> e_id (es ! k)"
  shows "edge_address_at es j \<noteq> edge_address_at es k"
proof (cases "e_id (es ! j) = None \<and> e_id (es ! k) = None
    \<and> e_from (es ! j) = e_from (es ! k) \<and> e_to (es ! j) = e_to (es ! k)")
  case True
  let ?q = "(e_from (es ! k), e_to (es ! k))"
  let ?a = "count_plain (take (Suc j) es) ?q" and ?b = "count_plain (take (Suc k) es) ?q"
  have less: "?a < ?b" using count_plain_less [OF jk] True by simp
  have "?b \<le> length es" using count_plain_le [of "take (Suc k) es" ?q] by simp
  then have "unat (of_nat ?a :: u32) = ?a" "unat (of_nat ?b :: u32) = ?b"
    using less len by (simp_all add: unsigned_of_nat take_bit_nat_eq_self)
  then have "(of_nat ?a :: u32) \<noteq> of_nat ?b" using less by (metis less_not_refl)
  then show ?thesis using True by (simp add: edge_address_at_def)
next
  case False
  then show ?thesis using ids by (auto simp: edge_address_at_def split: option.splits)
qed

text \<open>
  In a definition whose authored ids are unique, every edge's address names that edge and no
  other: resolving the address of the edge at any position returns that position.
\<close>

theorem resolve_own_address:
  assumes "length (pb_edges pb) < 2 ^ 32" "k < length (pb_edges pb)"
    and "\<And>i j. i < j \<Longrightarrow> j < length (pb_edges pb) \<Longrightarrow> e_id (pb_edges pb ! i) \<noteq> None \<Longrightarrow>
      e_id (pb_edges pb ! i) \<noteq> e_id (pb_edges pb ! j)"
  shows "resolve pb (ae_address (edge_addresses pb ! k)) = Some k"
proof -
  let ?as = "edge_addresses pb" and ?a = "ae_address (edge_addresses pb ! k)"
  have len: "length ?as = length (pb_edges pb)"
    by (simp add: edge_addresses_def edges_addressed_def)
  have nth: "j < length ?as \<Longrightarrow> ae_address (?as ! j) = edge_address_at (pb_edges pb) j" for j
    using edges_addressed_nth len by (simp add: edge_addresses_def)
  have "find (\<lambda>x. ae_address x = ?a) ?as = Some (?as ! k)"
    using assms len nth edge_address_distinct [OF assms(1)]
    by (auto simp: find_Some_iff intro!: exI [of _ k])
  moreover have "ae_index (?as ! k) = k"
    using assms(2) address_from_index [of k "pb_edges pb" address_init 0]
    by (simp add: edge_addresses_def edges_addressed_def)
  ultimately show ?thesis by (simp add: resolve_def)
qed

theorem resolve_own_address_witness:
  "resolve (plain_playbook [] [plain_edge ''a'' ''b'', plain_edge ''a'' ''b''])
     (ae_address (edge_addresses
        (plain_playbook [] [plain_edge ''a'' ''b'', plain_edge ''a'' ''b'']) ! 1)) = Some 1"
  by (rule resolve_own_address) (auto simp: nth_Cons split: nat.splits)

text \<open>The derived order of the enum: authored addresses first, fields compared in turn.\<close>

definition address_key :: "edge_address \<Rightarrow> nat \<times> string \<times> string \<times> u32" where
  "address_key a = (case a of Authored i \<Rightarrow> (0, i, [], 0) | Derived f t n \<Rightarrow> (1, f, t, n))"

lemma address_key_inject: "address_key a = address_key b \<Longrightarrow> a = b"
  by (auto simp: address_key_def split: edge_address.splits)

definition key_less :: "nat \<times> string \<times> string \<times> u32 \<Rightarrow> nat \<times> string \<times> string \<times> u32 \<Rightarrow> bool" where
  "key_less x y =
     (case (x, y) of ((a, b, c, d), (a', b', c', d')) \<Rightarrow>
        a < a' \<or> a = a' \<and> (b < b' \<or> b = b' \<and> (c < c' \<or> c = c' \<and> d < d')))"

instantiation edge_address :: linorder
begin

definition less_edge_address :: "edge_address \<Rightarrow> edge_address \<Rightarrow> bool" where
  "less_edge_address a b = key_less (address_key a) (address_key b)"

definition less_eq_edge_address :: "edge_address \<Rightarrow> edge_address \<Rightarrow> bool" where
  "less_eq_edge_address a b = (a = b \<or> key_less (address_key a) (address_key b))"

instance
proof
  have asym: "key_less x y \<Longrightarrow> \<not> key_less y x" for x y
    by (auto simp: key_less_def split: prod.splits)
  have trans: "key_less x y \<Longrightarrow> key_less y z \<Longrightarrow> key_less x z" for x y z
    by (auto simp: key_less_def split: prod.splits)
  have linear: "x = y \<or> key_less x y \<or> key_less y x" for x y
    by (cases x; cases y) (force simp: key_less_def)
  fix x y z :: edge_address
  note asym = asym [of "address_key x" "address_key y"]
  note trans = trans [of "address_key x" "address_key y" "address_key z"]
  have irrefl: "\<not> key_less k k" for k by (auto simp: key_less_def split: prod.splits)
  show "(x < y) = (x \<le> y \<and> \<not> y \<le> x)"
    using asym irrefl by (auto simp: less_edge_address_def less_eq_edge_address_def)
  show "x \<le> x" by (simp add: less_eq_edge_address_def)
  show "x \<le> y \<Longrightarrow> y \<le> z \<Longrightarrow> x \<le> z"
    using trans by (auto simp: less_eq_edge_address_def)
  show "x \<le> y \<Longrightarrow> y \<le> x \<Longrightarrow> x = y"
    using asym by (auto simp: less_eq_edge_address_def)
  show "x \<le> y \<or> y \<le> x"
    using address_key_inject [of x y] linear [of "address_key x" "address_key y"]
    by (auto simp: less_eq_edge_address_def)
qed

end

end
