(* ===== verification/Float64.thy ===== *)
theory Float64
  imports Prelude
begin

text \<open>
  Rust's \<^verbatim>\<open>f64\<close> on its 64 bits, as far as the program computes with doubles: decoding into
  an exact dyadic value, rounding an exact value to the nearest double (ties to even, gradual
  underflow, overflow to infinity), addition, subtraction, multiplication, \<^verbatim>\<open>f64::max\<close> and
  the conversions \<^verbatim>\<open>u64 as f64\<close> and \<^verbatim>\<open>f64 as u64\<close>.  Every NaN result is the
  canonical quiet one: the code never looks at a NaN's payload.  The lemmas show where the
  conversions are exact and that multiplying by one changes nothing.
\<close>

section \<open>Encoding\<close>

datatype f64_val = Nan | Infinite bool | Finite bool nat int

definition f64_sign :: "f64 \<Rightarrow> bool" where
  "f64_sign w = (2 ^ 63 \<le> unat w)"

definition f64_decode :: "f64 \<Rightarrow> f64_val" where
  "f64_decode w =
     (let m = unat w mod 2 ^ 63; ex = m div 2 ^ 52; fr = m mod 2 ^ 52 in
      if ex = 2047 then (if fr = 0 then Infinite (f64_sign w) else Nan)
      else if ex = 0 then Finite (f64_sign w) fr (-1074)
      else Finite (f64_sign w) (fr + 2 ^ 52) (int ex - 1075))"

definition f64_pack :: "bool \<Rightarrow> nat \<Rightarrow> f64" where
  "f64_pack s magnitude = of_nat (magnitude + (if s then 2 ^ 63 else 0))"

definition f64_infinity :: nat where "f64_infinity = 2047 * 2 ^ 52"

definition f64_nan :: f64 where "f64_nan = 0x7FF8000000000000"

fun bit_len :: "nat \<Rightarrow> nat" where
  "bit_len n = (if n = 0 then 0 else Suc (bit_len (n div 2)))"

declare bit_len.simps [simp del]

definition half_even :: "nat \<Rightarrow> nat \<Rightarrow> nat" where
  "half_even m k =
     (let q = m div 2 ^ k; r = m mod 2 ^ k in
      if 2 * r > 2 ^ k \<or> (2 * r = 2 ^ k \<and> odd q) then q + 1 else q)"

text \<open>
  The double nearest to \<open>(-1)^s * m * 2^e\<close>: a 53 bit significand, at an exponent of at
  least \<open>-1074\<close>.  A significand rounded up to \<open>2^53\<close> carries into the exponent field.
\<close>

definition f64_round :: "bool \<Rightarrow> nat \<Rightarrow> int \<Rightarrow> f64" where
  "f64_round s m e =
     (if m = 0 then f64_pack s 0
      else
        (let k = max (int (bit_len m) - 53) (-1074 - e);
             m' = (if k \<le> 0 then m * 2 ^ nat (- k) else half_even m (nat k));
             magnitude = nat (e + k + 1074) * 2 ^ 52 + m'
         in f64_pack s (min f64_infinity magnitude)))"

section \<open>Operations\<close>

definition f64_of_u64 :: "u64 \<Rightarrow> f64" where
  "f64_of_u64 n = f64_round False (unat n) 0"

definition f64_to_u64 :: "f64 \<Rightarrow> u64" where
  "f64_to_u64 w =
     (case f64_decode w of
        Nan \<Rightarrow> 0
      | Infinite s \<Rightarrow> (if s then 0 else - 1)
      | Finite s m e \<Rightarrow>
          (if s then 0
           else let v = (if 0 \<le> e then m * 2 ^ nat e else m div 2 ^ nat (- e))
                in if v < 2 ^ 64 then of_nat v else - 1))"

definition f64_is_finite :: "f64 \<Rightarrow> bool" where
  "f64_is_finite w = (case f64_decode w of Finite _ _ _ \<Rightarrow> True | _ \<Rightarrow> False)"

definition f64_mul :: "f64 \<Rightarrow> f64 \<Rightarrow> f64" where
  "f64_mul a b =
     (let s = (f64_sign a \<noteq> f64_sign b) in
      case (f64_decode a, f64_decode b) of
        (Finite _ m e, Finite _ n d) \<Rightarrow> f64_round s (m * n) (e + d)
      | (Infinite _, Infinite _) \<Rightarrow> f64_pack s f64_infinity
      | (Infinite _, Finite _ n _) \<Rightarrow> (if n = 0 then f64_nan else f64_pack s f64_infinity)
      | (Finite _ m _, Infinite _) \<Rightarrow> (if m = 0 then f64_nan else f64_pack s f64_infinity)
      | _ \<Rightarrow> f64_nan)"

definition f64_neg :: "f64 \<Rightarrow> f64" where
  "f64_neg w = f64_pack (\<not> f64_sign w) (unat w mod 2 ^ 63)"

definition f64_add :: "f64 \<Rightarrow> f64 \<Rightarrow> f64" where
  "f64_add a b =
     (case (f64_decode a, f64_decode b) of
        (Finite s m e, Finite t n d) \<Rightarrow>
          (let low = min e d;
               x = (if s then - 1 else 1) * (int m * 2 ^ nat (e - low));
               y = (if t then - 1 else 1) * (int n * 2 ^ nat (d - low));
               z = x + y
           in if z = 0 then f64_pack (s \<and> t) 0 else f64_round (z < 0) (nat \<bar>z\<bar>) low)
      | (Infinite s, Infinite t) \<Rightarrow> (if s = t then a else f64_nan)
      | (Infinite s, Finite _ _ _) \<Rightarrow> a
      | (Finite _ _ _, Infinite t) \<Rightarrow> b
      | _ \<Rightarrow> f64_nan)"

definition f64_sub :: "f64 \<Rightarrow> f64 \<Rightarrow> f64" where
  "f64_sub a b = f64_add a (f64_neg b)"

text \<open>\<^verbatim>\<open>f64::max\<close> takes the other side of a NaN.\<close>

definition f64_max :: "f64 \<Rightarrow> f64 \<Rightarrow> f64" where
  "f64_max a b = (if f64_is_nan a then b else if f64_is_nan b then a else if f64_lt a b then b else a)"

section \<open>Exactness\<close>

lemma bit_len_0 [simp]: "bit_len 0 = 0"
  by (simp add: bit_len.simps)

lemma bit_len_bounds: "0 < n \<Longrightarrow> 2 ^ (bit_len n - 1) \<le> n \<and> n < 2 ^ bit_len n \<and> 0 < bit_len n"
proof (induction n rule: bit_len.induct)
  case (1 n)
  show ?case
  proof (cases "n < 2")
    case True
    then have "n = 1" using 1(2) by simp
    moreover have "bit_len 1 = 1" by (simp add: bit_len.simps)
    ultimately show ?thesis by simp
  next
    case False
    let ?b = "bit_len (n div 2)"
    have b: "bit_len n = Suc ?b" using 1(2) by (simp add: bit_len.simps [of n])
    have IH: "2 ^ (?b - 1) \<le> n div 2" "n div 2 < 2 ^ ?b" "0 < ?b" using 1 False by auto
    have p: "(2 :: nat) ^ ?b = 2 * 2 ^ (?b - 1)" using IH(3) by (cases ?b) auto
    have "2 * (n div 2) \<le> n" "n < 2 * (n div 2) + 2" by presburger+
    moreover have "2 ^ ?b \<le> 2 * (n div 2)" "2 * (n div 2) + 2 \<le> 2 * 2 ^ ?b"
      using IH unfolding p by linarith+
    ultimately have "2 ^ ?b \<le> n" "n < 2 * 2 ^ ?b" by linarith+
    then show ?thesis unfolding b by simp
  qed
qed

lemma bit_len_unique:
  assumes "2 ^ k \<le> n" "n < 2 ^ Suc k"
  shows "bit_len n = Suc k"
proof -
  have "0 < n" using assms(1) by (metis less_le_trans zero_less_numeral zero_less_power)
  then have b: "2 ^ (bit_len n - 1) \<le> n" "n < 2 ^ bit_len n" "0 < bit_len n"
    using bit_len_bounds by auto
  have "(2 :: nat) ^ (bit_len n - 1) < 2 ^ Suc k" "(2 :: nat) ^ k < 2 ^ bit_len n"
    using assms b by linarith+
  then have "bit_len n - 1 < Suc k" "k < bit_len n" by (simp_all only: power_strict_increasing_iff)
  then show ?thesis by simp
qed

lemma bit_len_le:
  assumes "n < 2 ^ k"
  shows "bit_len n \<le> k"
proof (cases "n = 0")
  case False
  then have "2 ^ (bit_len n - 1) \<le> n" "0 < bit_len n" using bit_len_bounds by auto
  then have "(2 :: nat) ^ (bit_len n - 1) < 2 ^ k" using assms by linarith
  then have "bit_len n - 1 < k" by (simp only: power_strict_increasing_iff)
  then show ?thesis by simp
qed simp

lemma bit_len_shift: "0 < n \<Longrightarrow> bit_len (n * 2 ^ k) = bit_len n + k"
proof (induction k)
  case (Suc k)
  have "bit_len (n * 2 ^ Suc k) = Suc (bit_len (n * 2 ^ Suc k div 2))"
    using Suc.prems by (subst bit_len.simps) simp
  then show ?case using Suc by (simp add: mult.commute mult.left_commute)
qed simp

lemma half_even_exact [simp]: "half_even (m * 2 ^ k) k = m"
  by (simp add: half_even_def Let_def)

lemma unat_pack: "m < 2 ^ 63 \<Longrightarrow> unat (f64_pack s m) = m + (if s then 2 ^ 63 else 0)"
  unfolding f64_pack_def unat_of_nat by (simp add: take_bit_nat_def)

lemma sign_pack [simp]: "m < 2 ^ 63 \<Longrightarrow> f64_sign (f64_pack s m) = s"
  by (simp add: f64_sign_def unat_pack)

lemma pack_unpack: "f64_pack (f64_sign w) (unat w mod 2 ^ 63) = w"
proof -
  have "unat w < 2 ^ 64" using unsigned_less [of w] by simp
  then have "unat w mod 2 ^ 63 + (if f64_sign w then 2 ^ 63 else 0) = unat w"
    unfolding f64_sign_def by (cases "2 ^ 63 \<le> unat w") (simp_all add: le_mod_geq)
  then show ?thesis unfolding f64_pack_def by simp
qed

text \<open>A significand and exponent a double holds as they are.\<close>

definition normal_pair :: "nat \<Rightarrow> int \<Rightarrow> bool" where
  "normal_pair m e = (m < 2 ^ 53 \<and> (if m < 2 ^ 52 then e = -1074 else -1074 \<le> e \<and> e \<le> 971))"

definition pair_magnitude :: "nat \<Rightarrow> int \<Rightarrow> nat" where
  "pair_magnitude m e = nat (e + 1074) * 2 ^ 52 + m"

lemma pair_magnitude_bound:
  assumes "normal_pair m e"
  shows "pair_magnitude m e < f64_infinity"
proof -
  have "nat (e + 1074) \<le> 2045" "m < 2 ^ 53" using assms by (auto simp: normal_pair_def split: if_splits)
  then show ?thesis unfolding pair_magnitude_def f64_infinity_def by (simp add: add_mono_thms_linordered_field)
qed

lemma decode_pair:
  assumes "normal_pair m e"
  shows "f64_decode (f64_pack s (pair_magnitude m e)) = Finite s m e"
proof -
  have b: "pair_magnitude m e < 2 ^ 63"
    using pair_magnitude_bound [OF assms] by (simp add: f64_infinity_def)
  have u: "unat (f64_pack s (pair_magnitude m e)) mod 2 ^ 63 = pair_magnitude m e"
    using b by (simp add: unat_pack)
  show ?thesis
  proof (cases "m < 2 ^ 52")
    case True
    then have "pair_magnitude m e = m" using assms by (simp add: normal_pair_def pair_magnitude_def)
    then show ?thesis using u b True assms by (simp add: f64_decode_def normal_pair_def Let_def)
  next
    case False
    let ?i = "nat (e + 1074)"
    define f where "f = m - 2 ^ 52"
    have m: "m = f + 2 ^ 52" "f < 2 ^ 52" and i: "?i \<le> 2045" and e: "int ?i = e + 1074"
      using False assms by (auto simp: normal_pair_def f_def)
    have p: "pair_magnitude m e = (?i + 1) * 2 ^ 52 + f" unfolding pair_magnitude_def by (simp add: m)
    have "pair_magnitude m e div 2 ^ 52 = ?i + 1" "pair_magnitude m e mod 2 ^ 52 = f"
      using m(2) unfolding p by (simp_all only: div_mult_self3 mod_mult_self3 div_less mod_less add_0_right)
    then show ?thesis using u b i e m by (simp add: f64_decode_def Let_def)
  qed
qed

lemma decode_normal:
  assumes "f64_decode w = Finite s m e"
  shows "normal_pair m e" "w = f64_pack s (pair_magnitude m e)"
proof -
  let ?m = "unat w mod 2 ^ 63"
  have d: "?m = ?m div 2 ^ 52 * 2 ^ 52 + ?m mod 2 ^ 52" by presburger
  have ub: "?m div 2 ^ 52 < 2048" using mod_less_divisor [of "2 ^ 63" "unat w"] by (simp add: less_mult_imp_div_less)
  have fr: "?m mod 2 ^ 52 < 2 ^ 52" by simp
  have s: "s = f64_sign w" using assms by (auto simp: f64_decode_def Let_def split: if_splits)
  have "normal_pair m e \<and> pair_magnitude m e = ?m"
  proof (cases "?m div 2 ^ 52 = 0")
    case True
    then show ?thesis using assms d fr
      by (auto simp: f64_decode_def Let_def normal_pair_def pair_magnitude_def split: if_splits)
  next
    case False
    then have "m = ?m mod 2 ^ 52 + 2 ^ 52" "e = int (?m div 2 ^ 52) - 1075" "?m div 2 ^ 52 \<noteq> 2047"
      using assms by (auto simp: f64_decode_def Let_def split: if_splits)
    moreover have "nat (int (?m div 2 ^ 52) - 1) = ?m div 2 ^ 52 - 1" by simp
    ultimately show ?thesis using ub fr d False
      by (simp add: normal_pair_def pair_magnitude_def diff_mult_distrib)
  qed
  then show "normal_pair m e" "w = f64_pack s (pair_magnitude m e)"
    using pack_unpack [of w] s by auto
qed

text \<open>An exact value that fits is not rounded.\<close>

lemma round_exact:
  assumes n: "normal_pair m e" and m: "0 < m"
  shows "f64_round s (m * 2 ^ j) (e - int j) = f64_pack s (pair_magnitude m e)"
proof -
  have e: "- 1074 \<le> e" using n by (auto simp: normal_pair_def split: if_splits)
  have L: "bit_len m \<le> 53" using n by (intro bit_len_le) (simp add: normal_pair_def)
  have k: "max (int (bit_len (m * 2 ^ j)) - 53) (- 1074 - (e - int j)) = int j"
  proof (cases "m < 2 ^ 52")
    case True
    then have "e = - 1074" using n by (simp add: normal_pair_def)
    then show ?thesis using L m by (simp add: bit_len_shift)
  next
    case False
    then have "bit_len m = 53" using n bit_len_unique [of 52 m] by (simp add: normal_pair_def)
    then show ?thesis using e m by (simp add: bit_len_shift)
  qed
  have "(if int j \<le> 0 then m * 2 ^ j * 2 ^ nat (- int j) else half_even (m * 2 ^ j) (nat (int j))) = m"
    by simp
  moreover have "min f64_infinity (pair_magnitude m e) = pair_magnitude m e"
    using pair_magnitude_bound [OF n] by simp
  ultimately show ?thesis using m unfolding f64_round_def Let_def k
    by (simp add: pair_magnitude_def)
qed

lemma f64_mul_one:
  assumes "f64_is_finite x"
  shows "f64_mul x f64_one = x"
proof -
  obtain s m e where d: "f64_decode x = Finite s m e"
    using assms by (auto simp: f64_is_finite_def split: f64_val.splits)
  have one: "f64_decode f64_one = Finite False (2 ^ 52) (-52)" "\<not> f64_sign f64_one"
    by (simp_all add: f64_decode_def f64_sign_def Let_def)
  have s: "f64_sign x = s" using d by (auto simp: f64_decode_def Let_def split: if_splits)
  note nd = decode_normal [OF d]
  show ?thesis
  proof (cases "m = 0")
    case True
    then have "x = f64_pack s 0" using nd by (simp add: normal_pair_def pair_magnitude_def)
    then show ?thesis using True d one s by (simp add: f64_mul_def f64_round_def)
  next
    case False
    then show ?thesis using round_exact [OF nd(1), of s 52] nd(2) d one s
      by (simp add: f64_mul_def)
  qed
qed

text \<open>An integer below \<open>2^53\<close> is shifted up to a 53 bit significand and encoded as it is.\<close>

definition int_pair :: "nat \<Rightarrow> nat \<times> int" where
  "int_pair n = (n * 2 ^ (53 - bit_len n), int (bit_len n) - 53)"

lemma of_u64_pack:
  assumes "0 < unat n" "unat n < 2 ^ 53"
  shows "normal_pair (fst (int_pair (unat n))) (snd (int_pair (unat n)))"
    "2 ^ 52 \<le> fst (int_pair (unat n))"
    "f64_of_u64 n = f64_pack False (pair_magnitude (fst (int_pair (unat n))) (snd (int_pair (unat n))))"
proof -
  let ?n = "unat n" let ?L = "bit_len ?n"
  have b: "2 ^ (?L - 1) \<le> ?n" "?n < 2 ^ ?L" "0 < ?L" using bit_len_bounds [OF assms(1)] by auto
  have L: "?L \<le> 53" using assms(2) by (rule bit_len_le)
  let ?m = "?n * 2 ^ (53 - ?L)" let ?e = "int ?L - 53"
  have "(2 :: nat) ^ (?L - 1) * 2 ^ (53 - ?L) = 2 ^ 52" "(2 :: nat) ^ ?L * 2 ^ (53 - ?L) = 2 ^ 53"
    using L b(3) by (simp_all flip: power_add)
  moreover have "2 ^ (?L - 1) * 2 ^ (53 - ?L) \<le> ?m" "?m < 2 ^ ?L * 2 ^ (53 - ?L)"
    using b by simp_all
  ultimately have m: "2 ^ 52 \<le> ?m" "?m < 2 ^ 53" by simp_all
  then have np: "normal_pair ?m ?e" using b(3) L by (simp add: normal_pair_def)
  then show "normal_pair (fst (int_pair ?n)) (snd (int_pair ?n))" by (simp add: int_pair_def)
  show "2 ^ 52 \<le> fst (int_pair ?n)" using m by (simp add: int_pair_def)
  have k: "max (int ?L - 53) (- 1074) = ?e" using b(3) by simp
  show "f64_of_u64 n = f64_pack False (pair_magnitude (fst (int_pair ?n)) (snd (int_pair ?n)))"
    using assms(1) L pair_magnitude_bound [OF np]
    unfolding f64_of_u64_def f64_round_def Let_def pair_magnitude_def
    by (simp add: nat_diff_distrib' k int_pair_def)
qed

lemma of_u64_decode:
  assumes "0 < unat n" "unat n < 2 ^ 53"
  shows "f64_decode (f64_of_u64 n) = Finite False (unat n * 2 ^ (53 - bit_len (unat n))) (int (bit_len (unat n)) - 53)"
  using decode_pair [OF of_u64_pack(1) [OF assms], of False] of_u64_pack(3) [OF assms]
  by (simp add: int_pair_def)

lemma bit_len_mono: "a \<le> b \<Longrightarrow> bit_len a \<le> bit_len b"
proof (cases "b = 0")
  case False
  assume "a \<le> b"
  then have "a < 2 ^ bit_len b" using bit_len_bounds [of b] False by simp
  then show ?thesis by (rule bit_len_le)
qed simp

lemma of_u64_magnitude:
  assumes "0 < unat n" "unat n < 2 ^ 53"
  shows "f64_key (f64_of_u64 n) = int (pair_magnitude (fst (int_pair (unat n))) (snd (int_pair (unat n))))"
    "f64_magnitude (f64_of_u64 n) < int f64_infinity"
proof -
  let ?m = "pair_magnitude (fst (int_pair (unat n))) (snd (int_pair (unat n)))"
  have b: "?m < f64_infinity" using pair_magnitude_bound of_u64_pack(1) [OF assms] by blast
  then have u: "unat (f64_of_u64 n) = ?m"
    using of_u64_pack(3) [OF assms] unat_pack [of ?m False] by (simp add: f64_infinity_def)
  then have ui: "uint (f64_of_u64 n) = int ?m" by (metis uint_nat)
  have lt: "int ?m < 2 ^ 63" using b by (simp add: f64_infinity_def)
  then have "int ?m mod 2 ^ 63 = int ?m" by simp
  then show "f64_key (f64_of_u64 n) = int ?m" "f64_magnitude (f64_of_u64 n) < int f64_infinity"
    using lt b unfolding f64_key_def f64_magnitude_def ui by (simp_all only: not_le [symmetric] if_False if_True of_nat_less_iff)
qed

lemma f64_of_u64_0: "f64_of_u64 0 = 0"
  by (simp add: f64_of_u64_def f64_round_def f64_pack_def)

lemma of_u64_positive:
  assumes "0 < unat n" "unat n < 2 ^ 53"
  shows "0 < f64_key (f64_of_u64 n)"
proof -
  have "0 < fst (int_pair (unat n))" using of_u64_pack(2) [OF assms] by (rule less_le_trans [rotated]) simp
  then show ?thesis using of_u64_magnitude(1) [OF assms] by (simp add: pair_magnitude_def)
qed

lemma int_pair_less:
  assumes "0 < a" "a < b" "b < 2 ^ 53" "2 ^ 52 \<le> fst (int_pair b)"
    "fst (int_pair a) < 2 ^ 53"
  shows "pair_magnitude (fst (int_pair a)) (snd (int_pair a)) < pair_magnitude (fst (int_pair b)) (snd (int_pair b))"
proof (cases "bit_len a = bit_len b")
  case True
  then show ?thesis using assms(2) by (simp add: int_pair_def pair_magnitude_def)
next
  case False
  let ?i = "nat (int (bit_len a) - 53 + 1074)" and ?j = "nat (int (bit_len b) - 53 + 1074)"
  have "bit_len a < bit_len b" using bit_len_mono [of a b] assms(2) False by simp
  then have "?i + 1 \<le> ?j" by simp
  then have "(?i + 1) * 2 ^ 52 \<le> ?j * 2 ^ 52" by (rule mult_le_mono1)
  moreover have "fst (int_pair a) < 2 ^ 52 + 2 ^ 52" using assms(5) by simp
  ultimately have "?i * 2 ^ 52 + fst (int_pair a) < ?j * 2 ^ 52 + fst (int_pair b)"
    using assms(4) by (simp add: add_mult_distrib)
  then show ?thesis by (simp add: int_pair_def pair_magnitude_def)
qed

text \<open>Below \<open>2^53\<close> the order of the integers is the order of their doubles.\<close>

lemma of_u64_less:
  assumes "unat a < 2 ^ 53" "unat b < 2 ^ 53"
  shows "f64_lt (f64_of_u64 a) (f64_of_u64 b) = (a < b)"
proof -
  have nan: "\<not> f64_is_nan (f64_of_u64 n)" if "unat n < 2 ^ 53" for n
  proof (cases "unat n = 0")
    case True
    then have "n = 0" by (simp add: unat_eq_0)
    then show ?thesis by (simp add: f64_of_u64_0 f64_is_nan_def f64_magnitude_def)
  next
    case False
    then show ?thesis using of_u64_magnitude(2) [of n] that by (simp add: f64_is_nan_def f64_infinity_def)
  qed
  have kless: "f64_key (f64_of_u64 x) < f64_key (f64_of_u64 y)"
    if "unat x < unat y" "unat y < 2 ^ 53" for x y
  proof (cases "unat x = 0")
    case True
    then have "x = 0" by (simp add: unat_eq_0)
    then show ?thesis using of_u64_positive [of y] that
      by (simp add: f64_of_u64_0 f64_key_def f64_magnitude_def)
  next
    case False
    then have "fst (int_pair (unat x)) < 2 ^ 53" "2 ^ 52 \<le> fst (int_pair (unat y))"
      using of_u64_pack(1) [of x] of_u64_pack(2) [of y] that by (simp_all add: normal_pair_def)
    then show ?thesis using int_pair_less [of "unat x" "unat y"] False that
        of_u64_magnitude(1) [of x] of_u64_magnitude(1) [of y] by simp
  qed
  have "f64_key (f64_of_u64 a) < f64_key (f64_of_u64 b) \<longleftrightarrow> unat a < unat b"
  proof (cases "unat a" "unat b" rule: linorder_cases)
    case less
    then show ?thesis using kless [of a b] assms by simp
  next
    case equal
    then have "a = b" using word_unat_eq_iff by blast
    then show ?thesis by simp
  next
    case greater
    then show ?thesis using kless [of b a] assms by simp
  qed
  then show ?thesis using nan assms by (simp add: f64_lt_def word_less_nat_alt)
qed

lemma f64_u64_round_trip:
  assumes "unat n < 2 ^ 53"
  shows "f64_to_u64 (f64_of_u64 n) = n" "f64_is_finite (f64_of_u64 n)"
proof -
  have "f64_to_u64 (f64_of_u64 n) = n \<and> f64_is_finite (f64_of_u64 n)"
  proof (cases "unat n = 0")
    case True
    then have "n = 0" by (simp add: unat_eq_0)
    then show ?thesis by (simp add: f64_of_u64_def f64_round_def f64_pack_def f64_to_u64_def
          f64_is_finite_def f64_decode_def Let_def f64_sign_def)
  next
    case False
    let ?L = "bit_len (unat n)"
    have d: "f64_decode (f64_of_u64 n) = Finite False (unat n * 2 ^ (53 - ?L)) (int ?L - 53)"
      using of_u64_decode assms False by simp
    have "?L \<le> 53" using assms by (rule bit_len_le)
    then have "(if 0 \<le> int ?L - 53 then unat n * 2 ^ (53 - ?L) * 2 ^ nat (int ?L - 53)
        else unat n * 2 ^ (53 - ?L) div 2 ^ nat (- (int ?L - 53))) = unat n"
      by (cases "?L = 53") (auto simp: nat_diff_distrib')
    then show ?thesis using d assms
      by (simp add: f64_to_u64_def f64_is_finite_def Let_def)
  qed
  then show "f64_to_u64 (f64_of_u64 n) = n" "f64_is_finite (f64_of_u64 n)" by auto
qed

end
