(* ===== verification/Budget_Kind.thy ===== *)
theory Budget_Kind
  imports Schema Float64
begin

text \<open>
  The vocabulary of the run budget: \<^verbatim>\<open>apb-core/src/budget.rs\<close> (the block, the run
  argument, the limits and their precedence), \<^verbatim>\<open>apb-engine/src/budget/kind.rs\<close> (amounts,
  what was spent, the gate's decisions) and the usage an attempt reports
  (\<^verbatim>\<open>apb-core/src/agents/output.rs\<close>).  The journal names these types.  Amounts are
  doubles; the text of a dollar amount, \<^verbatim>\<open>{:.2}\<close> of a double, is the parameter \<open>cents\<close>.
\<close>

section \<open>Limits\<close>

datatype on_no_estimate = Est_Ask | Est_Pause | Est_Continue

definition on_no_estimate_str :: "on_no_estimate \<Rightarrow> string" where
  "on_no_estimate_str p = (case p of Est_Ask \<Rightarrow> ''ask'' | Est_Pause \<Rightarrow> ''pause''
     | Est_Continue \<Rightarrow> ''continue'')"

definition lower_char :: "char \<Rightarrow> char" where
  "lower_char c = (if in_range 65 90 c then char_of (byte c + 32) else c)"

definition on_no_estimate_parse :: "string \<Rightarrow> on_no_estimate option" where
  "on_no_estimate_parse s =
     (let t = map lower_char (trim s) in
      if t = ''ask'' then Some Est_Ask else if t = ''pause'' then Some Est_Pause
      else if t = ''continue'' then Some Est_Continue else None)"

record budget_block =
  bb_tokens :: "u64 option"
  bb_usd :: "f64 option"
  bb_on_no_estimate :: on_no_estimate

record budget_limit =
  bl_tokens :: "u64 option"
  bl_usd :: "f64 option"

definition no_limit :: budget_limit where
  "no_limit = \<lparr> bl_tokens = None, bl_usd = None \<rparr>"

definition is_limited :: "budget_limit \<Rightarrow> bool" where
  "is_limited l = (bl_tokens l \<noteq> None \<or> bl_usd l \<noteq> None)"

record budget_request =
  bq_tokens :: "u64 option"
  bq_usd :: "f64 option"
  bq_on_no_estimate :: "on_no_estimate option"

datatype budget_source = Source_Playbook | Source_Run | Source_Resume

record effective_budget =
  eb_limit :: budget_limit
  eb_on_no_estimate :: on_no_estimate
  eb_source :: budget_source

definition effective :: "budget_block option \<Rightarrow> budget_request option \<Rightarrow> effective_budget option" where
  "effective block req =
     (let limit =
        \<lparr> bl_tokens = option_or (Option.bind req bq_tokens) (Option.bind block bb_tokens),
          bl_usd = option_or (Option.bind req bq_usd) (Option.bind block bb_usd) \<rparr> in
      if \<not> is_limited limit then None
      else
        (let policy = (case option_or (Option.bind req bq_on_no_estimate)
                (map_option bb_on_no_estimate block) of Some p \<Rightarrow> p | None \<Rightarrow> Est_Ask);
             from_run = (case req of
                Some r \<Rightarrow> bq_tokens r \<noteq> None \<or> bq_usd r \<noteq> None \<or> bq_on_no_estimate r \<noteq> None
              | None \<Rightarrow> False)
         in Some \<lparr> eb_limit = limit, eb_on_no_estimate = policy,
              eb_source = (if from_run then Source_Run else Source_Playbook) \<rparr>))"

section \<open>Amounts\<close>

record budget_amount =
  ba_tokens :: "f64 option"
  ba_usd :: "f64 option"

definition no_amount :: budget_amount where
  "no_amount = \<lparr> ba_tokens = None, ba_usd = None \<rparr>"

text \<open>\<^verbatim>\<open>f64::round\<close> of a double that is not negative, as \<^verbatim>\<open>u64\<close>: halves go up.\<close>

definition round_to_u64 :: "f64 \<Rightarrow> u64" where
  "round_to_u64 w =
     (case f64_decode w of
        Nan \<Rightarrow> 0
      | Infinite s \<Rightarrow> (if s then 0 else - 1)
      | Finite s m e \<Rightarrow>
          (if s then 0
           else let v = (if 0 \<le> e then m * 2 ^ nat e else (m + 2 ^ nat (- e - 1)) div 2 ^ nat (- e))
                in if v < 2 ^ 64 then of_nat v else - 1))"

definition tokens_text :: "f64 \<Rightarrow> string" where
  "tokens_text x = show_nat (unat (round_to_u64 (f64_max x f64_zero)))"

definition usd_text :: "(f64 \<Rightarrow> string) \<Rightarrow> f64 \<Rightarrow> string" where
  "usd_text cents x = ''$'' @ cents (f64_max x f64_zero)"

definition amount_text :: "(f64 \<Rightarrow> string) \<Rightarrow> budget_amount \<Rightarrow> string" where
  "amount_text cents a =
     (case (ba_tokens a, ba_usd a) of
        (None, None) \<Rightarrow> ''unknown''
      | (Some t, None) \<Rightarrow> tokens_text t @ '' tokens''
      | (None, Some u) \<Rightarrow> usd_text cents u
      | (Some t, Some u) \<Rightarrow> tokens_text t @ '' tokens'' @ '', '' @ usd_text cents u)"

definition amount_is_empty :: "budget_amount \<Rightarrow> bool" where
  "amount_is_empty a = (ba_tokens a = None \<and> ba_usd a = None)"

definition add_dim :: "f64 option \<Rightarrow> f64 option \<Rightarrow> f64 option" where
  "add_dim a b =
     (if a = None \<and> b = None then None
      else Some (f64_add (case a of Some x \<Rightarrow> x | None \<Rightarrow> f64_zero)
                         (case b of Some y \<Rightarrow> y | None \<Rightarrow> f64_zero)))"

definition amount_plus :: "budget_amount \<Rightarrow> budget_amount \<Rightarrow> budget_amount" where
  "amount_plus a b = \<lparr> ba_tokens = add_dim (ba_tokens a) (ba_tokens b),
     ba_usd = add_dim (ba_usd a) (ba_usd b) \<rparr>"

record spent_dim =
  sd_known :: f64
  sd_unknown_attempts :: u32
  sd_imputed :: "f64 option"

definition spent_total :: "spent_dim \<Rightarrow> f64 option" where
  "spent_total d = map_option (f64_add (sd_known d)) (sd_imputed d)"

record budget_spent =
  bs_tokens :: "spent_dim option"
  bs_usd :: "spent_dim option"

definition no_spent :: budget_spent where
  "no_spent = \<lparr> bs_tokens = None, bs_usd = None \<rparr>"

section \<open>Decisions\<close>

datatype gate_decision =
    Gate_Paused | Gate_Continued | Gate_Waived | Gate_Admitted_Waived | Gate_Failed | Gate_Unknown

datatype gate_basis =
    Basis_Median | Basis_Exhausted | Basis_No_Estimate | Basis_Unknown_Spend | Basis_Operator
  | Basis_Unknown

definition gate_basis_str :: "gate_basis \<Rightarrow> string" where
  "gate_basis_str b =
     (case b of Basis_Median \<Rightarrow> ''median'' | Basis_Exhausted \<Rightarrow> ''exhausted''
      | Basis_No_Estimate \<Rightarrow> ''no_estimate'' | Basis_Unknown_Spend \<Rightarrow> ''unknown_spend''
      | Basis_Operator \<Rightarrow> ''operator'' | Basis_Unknown \<Rightarrow> ''unknown'')"

definition gate_decision_str :: "gate_decision \<Rightarrow> string" where
  "gate_decision_str d =
     (case d of Gate_Paused \<Rightarrow> ''paused'' | Gate_Continued \<Rightarrow> ''continued'' | Gate_Waived \<Rightarrow> ''waived''
      | Gate_Admitted_Waived \<Rightarrow> ''admitted_waived'' | Gate_Failed \<Rightarrow> ''failed''
      | Gate_Unknown \<Rightarrow> ''unknown'')"

definition lenient_name :: "('a \<Rightarrow> string) \<Rightarrow> 'a list \<Rightarrow> 'a \<Rightarrow> string \<Rightarrow> 'a" where
  "lenient_name str known unknown s =
     (case find (\<lambda>v. str v = s) known of Some v \<Rightarrow> v | None \<Rightarrow> unknown)"

definition gate_decision_decode :: "string \<Rightarrow> gate_decision" where
  "gate_decision_decode = lenient_name gate_decision_str
     [Gate_Paused, Gate_Continued, Gate_Waived, Gate_Admitted_Waived, Gate_Failed] Gate_Unknown"

definition gate_basis_decode :: "string \<Rightarrow> gate_basis" where
  "gate_basis_decode = lenient_name gate_basis_str
     [Basis_Median, Basis_Exhausted, Basis_No_Estimate, Basis_Unknown_Spend, Basis_Operator]
     Basis_Unknown"

lemma gate_names_round_trip:
  "gate_decision_decode (gate_decision_str d) = d" "gate_basis_decode (gate_basis_str b) = b"
  by (cases d; simp add: gate_decision_decode_def lenient_name_def gate_decision_str_def)
    (cases b; simp add: gate_basis_decode_def lenient_name_def gate_basis_str_def)

section \<open>Usage\<close>

datatype cost_basis = Billed | Subscription_Equivalent | Basis_Not_Known

definition counts_as_money :: "cost_basis \<Rightarrow> bool" where
  "counts_as_money b = (b \<noteq> Subscription_Equivalent)"

definition cost_basis_key :: "cost_basis \<Rightarrow> string" where
  "cost_basis_key b = (case b of Billed \<Rightarrow> ''billed''
     | Subscription_Equivalent \<Rightarrow> ''subscription_equivalent'' | Basis_Not_Known \<Rightarrow> ''unknown'')"

datatype usage_source = Usage_Reported | Usage_Estimated

record agent_usage =
  au_input_tokens :: u64
  au_output_tokens :: u64
  au_cache_read_tokens :: u64
  au_cache_write_tokens :: u64
  au_cost_usd :: "f64 option"
  au_source :: usage_source
  au_cost_basis :: cost_basis

definition billable_tokens :: "agent_usage \<Rightarrow> u64" where
  "billable_tokens u = saturating_add (au_input_tokens u) (au_output_tokens u)"

end
