(* ===== verification/Event.thy ===== *)
theory Event
  imports Budget_Kind
begin

text \<open>
  The journal's vocabulary, \<^verbatim>\<open>apb-engine/src/event.rs\<close>: an event is a sequence number,
  a timestamp and a payload.  The payload variants whose content the run state, the guards, the
  routing or the retry clock read are constructors of their own, the larger ones carrying a record
  of the source's fields (a field of a type outside the model is \<open>opaque\<close>).  The variants that
  no modelled reader looks into are one constructor \<open>Audit\<close> naming the variant, with the few
  fields a reader of them needs: the node of a wake, of a list visit and of a batch with its items,
  the task and node of a host task, and the node, connector, origin and item of a call.  Sequence
  numbers and timestamps are natural numbers: the code never lets either wrap.
\<close>

section \<open>Who paused, and how\<close>

datatype pause_by = By_Operator | By_Supervisor_Pause | By_Engine

definition pause_by_str :: "pause_by \<Rightarrow> string" where
  "pause_by_str b = (case b of By_Operator \<Rightarrow> ''operator'' | By_Supervisor_Pause \<Rightarrow> ''supervisor''
     | By_Engine \<Rightarrow> ''engine'')"

definition pause_by_parse :: "string \<Rightarrow> pause_by option" where
  "pause_by_parse s =
     (if s = ''operator'' then Some By_Operator
      else if s = ''supervisor'' then Some By_Supervisor_Pause
      else if s = ''engine'' then Some By_Engine else None)"

datatype pause_mode = Drain | Now

section \<open>Payload records\<close>

record provenance =
  pv_origin :: "string option"
  pv_digest :: "string option"
  pv_execution_root :: "string option"
  pv_scripts_digest :: "string option"
  pv_profiles :: "opaque list"
  pv_remembered :: "string list"
  pv_apb :: "string option"
  pv_limits :: "opaque list"
  pv_previous_success :: "opaque option"
  pv_untrusted :: "opaque list"

record attempt_started =
  as_node :: string
  as_attempt :: u32
  as_agent :: string
  as_soul_delivery :: "string option"
  as_skills_mode :: "string option"
  as_pid :: "u32 option"
  as_spawn_ms :: "u64 option"
  as_model :: "string option"
  as_workdir :: "string option"
  as_transcript :: "string option"
  as_token :: "string option"
  as_item :: "string option"
  as_isolation :: "opaque option"
  as_exec :: "opaque option"

record attempt_finished =
  af_node :: string
  af_attempt :: u32
  af_status :: string
  af_duration_ms :: "u64 option"
  af_session :: "string option"
  af_summary :: "string option"
  af_rejected_output :: "string option"
  af_partial_output :: "string option"
  af_failure_kind :: "string option"
  af_usage :: "agent_usage option"
  af_output_truncated :: "opaque list"
  af_transcript_incomplete :: bool
  af_rejected_for :: "string option"
  af_rejection_fingerprint :: "string option"
  af_stalled :: bool
  af_item :: "string option"

record node_finished =
  nf_node :: string
  nf_status :: string
  nf_attempt :: u32
  nf_output :: string
  nf_artifacts :: "opaque list"
  nf_result :: "opaque option"

record run_paused =
  rp_reason :: string
  rp_by :: "pause_by option"
  rp_mode :: "pause_mode option"
  rp_until :: "u64 option"
  rp_keep_lock :: bool

record run_resumed =
  rr_from_node :: string
  rr_by :: "pause_by option"
  rr_explicit :: bool
  rr_launch :: "opaque option"
  rr_definition :: "string option"
  rr_apb :: "string option"

record decision_made =
  dm_use_site :: string
  dm_node :: "string option"
  dm_attempt :: "u32 option"
  dm_provider :: "string option"
  dm_model :: "string option"
  dm_calibrated :: bool
  dm_mode :: string
  dm_questions_digest :: string
  dm_state_digest :: string
  dm_state_bytes :: u64
  dm_output_chars :: "u64 option"
  dm_answers :: "(string, f64 option) fmap"
  dm_applied :: bool
  dm_would_change :: "bool option"
  dm_baseline :: "opaque option"
  dm_latency_ms :: u64
  dm_input_tokens :: "u64 option"
  dm_cost_usd :: "f64 option"
  dm_cost_estimated :: bool
  dm_cached :: bool
  dm_error :: "string option"
  dm_enforce_refused :: "string option"
  dm_join :: "(string, json) fmap"
  dm_item :: "string option"
  dm_edge_addresses :: "(string, string) fmap"

record review_decided =
  rv_node :: string
  rv_decision :: string
  rv_note :: string
  rv_plan_digest :: "string option"
  rv_decided_by :: "opaque option"
  rv_binding :: "string option"
  rv_via :: "opaque option"

record edge_traversed =
  et_from :: string
  et_to :: string
  et_via_policy :: bool
  et_uncounted :: bool
  et_edges :: "string list"

record nodes_revived =
  nr_from_node :: string
  nr_nodes :: "string list"
  nr_superseded :: "string list"

record retry_deferred =
  df_node :: string
  df_after_attempt :: u64
  df_retry :: u32
  df_step :: u32
  df_binding :: string
  df_delay_ms :: u64
  df_failure_kind :: "string option"

record budget_set =
  bg_tokens :: "u64 option"
  bg_usd :: "f64 option"
  bg_on_no_estimate :: on_no_estimate
  bg_source :: "budget_source option"
  bg_by :: "pause_by option"
  bg_counts_subscription :: "bool option"

record budget_gate =
  gt_node :: string
  gt_batch :: "u32 option"
  gt_items :: "u32 option"
  gt_decision :: gate_decision
  gt_basis :: gate_basis
  gt_need :: "budget_amount option"
  gt_remaining :: "budget_amount option"
  gt_spent :: budget_spent
  gt_by :: "pause_by option"

record send_intent_recorded =
  sr_intent :: string
  sr_nonce :: string
  sr_node :: string
  sr_attempt :: "u32 option"
  sr_attempt_seq :: "nat option"
  sr_connector :: string
  sr_function :: string
  sr_account :: string
  sr_mode :: string
  sr_label :: string
  sr_pid :: u32
  sr_deadline_ms :: u64
  sr_replay_of :: "string option"
  sr_resend_of :: "string option"
  sr_item :: "string option"

record send_intent_settled =
  ss_intent :: string
  ss_outcome :: string
  ss_source :: string
  ss_detail :: "string option"
  ss_effect_ref :: "string option"
  ss_by :: "string option"

record list_item_settled =
  ls_node :: string
  ls_item :: string
  ls_state :: string
  ls_verdict :: "string option"
  ls_note :: "string option"
  ls_reason :: "string option"
  ls_output :: "string option"
  ls_round :: u32
  ls_carried :: bool
  ls_check :: "string option"
  ls_digest :: "string option"
  ls_result :: "opaque option"

record list_started =
  lt_node :: string
  lt_total :: u32
  lt_filtered_out :: u32
  lt_items_digest :: string
  lt_batch_size :: u32
  lt_parallel :: u32
  lt_reopened :: bool

section \<open>The payload\<close>

datatype audit_kind =
    Wake_Raised string | Supervisor_Lost | Patch_Applied | Patch_Rejected
  | Profile_Rebound | Rebind_Rejected | Run_Migrated | Version_Promoted | Candidate_Promoted
  | Candidate_Rejected | Candidate_Held | Run_Graded | Review_Requested | Review_Withdrawn
  | Wait_Started | Wait_Signalled | Wait_Timeout | Context_Compacted
  | Run_Progress string u64 u64 "string option"
  | Run_Continued_From | Run_Superseded_By | Environment_Drift_Accepted
  | Connector_Call string string "string option" "string option" | Publish_Target_Pinned
  | Publish_Planned | Inbox_Gap | Node_Cache_Hit | Node_Cache_Miss | Node_Cache_Stored
  | Node_Cache_Rejected | Output_Fields_Missing | Session_Handoff | Host_Task_Requested string string
  | Host_Task_Submitted | Deliverable_Missing | Artifacts_Committed
  | Goal_Checked | Protected_Paths_Modified | Evidence_Bound | Evidence_Observed
  | Read_Only_Checked | Read_Only_Violated | Question_Asked | Question_Answered
  | Baseline_Observed | Baseline_Compared | Agent_Env_Applied | Attempt_Notes
  | Tool_Exposure_Mismatch | List_Started list_started
  | List_Batch_Started string u32 "string list"
  | Known_Problems_Shown | Notify_Set | Check_Proved

datatype event_payload =
    Run_Started string string "string option"
  | Run_Provenance provenance
  | Node_Started string u32
  | Attempt_Started attempt_started
  | Attempt_Exited string u32 "string option"
  | Attempt_Finished attempt_finished
  | Node_Finished node_finished
  | Retry_Started string u32
  | Fallback_Triggered string string string
  | Run_Paused run_paused
  | Run_Queued string
  | Worktree_Resolved string string "string option"
  | Run_Resumed run_resumed
  | Run_Finished string
  | Run_Aborted string "pause_by option"
  | Review_Decided review_decided
  | Decision_Made decision_made
  | Edge_Traversed edge_traversed
  | Join_Input_Dead string "string list"
  | Join_Input_Revived string "string list" string
  | Nodes_Revived nodes_revived
  | Branch_Failed string string string "string option"
  | Branch_Cancelled string string string
  | Join_Refused string "string list" string
  | Run_Error "string option" string
  | Retry_Deferred retry_deferred
  | Deferred_Retry_Guard "string list"
  | Run_Guard "string list"
  | Drive_Released u64 "string list"
  | Retry_Expedited string "opaque option"
  | Supervisor_Action string "string option" string
  | Child_Run_Started string string
  | Execution_Fallback string u32 string
  | Budget_Set budget_set
  | Budget_Gate budget_gate
  | Send_Intent_Recorded send_intent_recorded
  | Send_Intent_Settled send_intent_settled
  | List_Item_Settled list_item_settled
  | Audit audit_kind

record event =
  ev_seq :: nat
  ev_ts :: nat
  ev_payload :: event_payload

section \<open>Classification and constructors\<close>

definition is_checkpoint :: "event_payload \<Rightarrow> bool" where
  "is_checkpoint p =
     (case p of Node_Finished _ \<Rightarrow> True | Run_Paused _ \<Rightarrow> True | Run_Finished _ \<Rightarrow> True
      | Run_Aborted _ _ \<Rightarrow> True | _ \<Rightarrow> False)"

definition is_guarded_checkpoint :: "event_payload \<Rightarrow> bool" where
  "is_guarded_checkpoint p =
     (case p of Node_Finished _ \<Rightarrow> True | Run_Paused _ \<Rightarrow> True | _ \<Rightarrow> False)"

definition run_guard_requires :: "event_payload \<Rightarrow> string list option" where
  "run_guard_requires p = (case p of Run_Guard requires \<Rightarrow> Some requires | _ \<Rightarrow> None)"

definition resumed :: "string \<Rightarrow> pause_by option \<Rightarrow> bool \<Rightarrow> event_payload" where
  "resumed from_node by explicit =
     Run_Resumed \<lparr> rr_from_node = from_node, rr_by = by, rr_explicit = explicit,
       rr_launch = None, rr_definition = None, rr_apb = None \<rparr>"

definition hop :: "string \<Rightarrow> string \<Rightarrow> bool \<Rightarrow> bool \<Rightarrow> string list \<Rightarrow> event_payload" where
  "hop from to via_policy uncounted edges =
     Edge_Traversed \<lparr> et_from = from, et_to = to, et_via_policy = via_policy,
       et_uncounted = uncounted, et_edges = edges \<rparr>"

text \<open>The old resume wrote a pause with this reason as a marker and kept running.\<close>

definition is_legacy_resume_marker :: "event_payload \<Rightarrow> bool" where
  "is_legacy_resume_marker p =
     (case p of Run_Paused r \<Rightarrow> rp_by r = None \<and> prefix ''resume from '' (rp_reason r) | _ \<Rightarrow> False)"

lemma guarded_is_checkpoint: "is_guarded_checkpoint p \<Longrightarrow> is_checkpoint p"
  by (cases p) (simp_all add: is_guarded_checkpoint_def is_checkpoint_def)

text \<open>Plain records to build concrete journals from.\<close>

definition attempt_event :: "string \<Rightarrow> event_payload" where
  "attempt_event n =
     Attempt_Started \<lparr> as_node = n, as_attempt = 1, as_agent = ''agent'', as_soul_delivery = None,
       as_skills_mode = None, as_pid = None, as_spawn_ms = None, as_model = None, as_workdir = None,
       as_transcript = None, as_token = None, as_item = None, as_isolation = None, as_exec = None \<rparr>"

definition finished_event :: "string \<Rightarrow> string \<Rightarrow> string \<Rightarrow> event_payload" where
  "finished_event n status output =
     Node_Finished \<lparr> nf_node = n, nf_status = status, nf_attempt = 1, nf_output = output,
       nf_artifacts = [], nf_result = None \<rparr>"

definition deferred_event :: "string \<Rightarrow> u64 \<Rightarrow> event_payload" where
  "deferred_event n delay =
     Retry_Deferred \<lparr> df_node = n, df_after_attempt = 1, df_retry = 1, df_step = 0, df_binding = ''b'',
       df_delay_ms = delay, df_failure_kind = None \<rparr>"

definition paused_event :: "string \<Rightarrow> pause_by option \<Rightarrow> event_payload" where
  "paused_event reason by =
     Run_Paused \<lparr> rp_reason = reason, rp_by = by, rp_mode = None, rp_until = None, rp_keep_lock = False \<rparr>"

definition revived_event :: "string \<Rightarrow> string list \<Rightarrow> string list \<Rightarrow> event_payload" where
  "revived_event n ns replaced =
     Nodes_Revived \<lparr> nr_from_node = n, nr_nodes = ns, nr_superseded = replaced \<rparr>"

fun numbered :: "nat \<Rightarrow> event_payload list \<Rightarrow> event list" where
  "numbered s [] = []"
| "numbered s (p # ps) = \<lparr> ev_seq = s, ev_ts = 1000 * s, ev_payload = p \<rparr> # numbered (Suc s) ps"

end
