(* ===== verification/Deferral_Guard.thy ===== *)
theory Deferral_Guard
  imports Event
begin

text \<open>
  The open deferred retries as the event log keeps them,
  \<^verbatim>\<open>apb-engine/src/event/deferral_guard.rs\<close> and the readers of
  \<^verbatim>\<open>event.rs\<close> around it.  The trait \<^verbatim>\<open>NodeSet\<close>, which lets one closing
  rule serve the log's set and the run state's map, is the locale \<open>node_set\<close>; its two Rust
  implementations are its two interpretations.
\<close>

section \<open>Definitions\<close>

datatype change =
    Open string
  | Close string
  | Close_Each "string list"
  | Close_All
  | No_Change

definition deferral_change :: "event_payload \<Rightarrow> change" where
  "deferral_change p =
     (case p of
        Retry_Deferred d \<Rightarrow> if df_node d \<noteq> [] then Open (df_node d) else No_Change
      | Attempt_Started a \<Rightarrow> Close (as_node a)
      | Node_Finished f \<Rightarrow> Close (nf_node f)
      | Nodes_Revived r \<Rightarrow> Close_Each (nr_nodes r)
      | Run_Aborted _ _ \<Rightarrow> Close_All
      | Run_Finished _ \<Rightarrow> Close_All
      | _ \<Rightarrow> No_Change)"

text \<open>
  \<^verbatim>\<open>close\<close> on any set of nodes, given its two trait methods, and the two
  implementations of the trait.
\<close>

definition close :: "(string \<Rightarrow> 's \<Rightarrow> 's) \<Rightarrow> ('s \<Rightarrow> 's) \<Rightarrow> 's \<Rightarrow> change \<Rightarrow> 's" where
  "close remove_node clear_nodes open ch =
     (case ch of
        Close n \<Rightarrow> remove_node n open
      | Close_Each ns \<Rightarrow> foldl (\<lambda>s n. remove_node n s) open ns
      | Close_All \<Rightarrow> clear_nodes open
      | Open _ \<Rightarrow> open
      | No_Change \<Rightarrow> open)"

definition set_remove_node :: "string \<Rightarrow> string fset \<Rightarrow> string fset" where
  "set_remove_node n s = s |-| {|n|}"

definition set_clear_nodes :: "string fset \<Rightarrow> string fset" where
  "set_clear_nodes s = fempty"

definition map_remove_node :: "string \<Rightarrow> (string, 'v) fmap \<Rightarrow> (string, 'v) fmap" where
  "map_remove_node n m = fmdrop n m"

definition map_clear_nodes :: "(string, 'v) fmap \<Rightarrow> (string, 'v) fmap" where
  "map_clear_nodes m = fmempty"

definition close_set :: "string fset \<Rightarrow> change \<Rightarrow> string fset" where
  "close_set = close set_remove_node set_clear_nodes"

definition close_map :: "(string, 'v) fmap \<Rightarrow> change \<Rightarrow> (string, 'v) fmap" where
  "close_map = close map_remove_node map_clear_nodes"

definition apply_change :: "string fset \<Rightarrow> change \<Rightarrow> string fset" where
  "apply_change open ch =
     (case ch of Open n \<Rightarrow> finsert n open | other \<Rightarrow> close_set open other)"

record step =
  st_seq :: nat
  st_checkpoint :: bool
  st_guard :: bool
  st_change :: change

text \<open>
  The state of \<^verbatim>\<open>unguarded\<close>: the open set and the last checkpoint, with whether a
  deferral was open across it and whether a guard followed.
\<close>

type_synonym guard_state = "string fset \<times> (nat \<times> bool \<times> bool) option"

definition unguarded_step :: "guard_state \<Rightarrow> step \<Rightarrow> guard_state" where
  "unguarded_step st s =
     (let (open, last) = st;
          last1 = (if st_guard s
                   then (case last of Some (q, o1, g) \<Rightarrow> Some (q, o1, True) | None \<Rightarrow> None)
                   else last);
          open' = apply_change open (st_change s);
          last2 = (if st_checkpoint s then Some (st_seq s, open' \<noteq> fempty, False) else last1)
      in (open', last2))"

definition unguarded :: "step list \<Rightarrow> string fset \<times> nat option" where
  "unguarded steps =
     (let (open, last) = foldl unguarded_step (fempty, None) steps in
      (open,
       (case last of
          Some (q, True, False) \<Rightarrow> if open \<noteq> fempty then Some q else None
        | _ \<Rightarrow> None)))"

definition is_deferral_record :: "event_payload \<Rightarrow> bool" where
  "is_deferral_record p =
     (case p of Deferred_Retry_Guard _ \<Rightarrow> True | Retry_Deferred _ \<Rightarrow> True
      | Drive_Released _ _ \<Rightarrow> True | Retry_Expedited _ _ \<Rightarrow> True | _ \<Rightarrow> False)"

definition guard_step :: "event \<Rightarrow> step" where
  "guard_step e =
     \<lparr> st_seq = ev_seq e, st_checkpoint = is_checkpoint (ev_payload e),
       st_guard = is_deferral_record (ev_payload e),
       st_change = deferral_change (ev_payload e) \<rparr>"

definition guard_steps :: "event list \<Rightarrow> step list" where
  "guard_steps events = map guard_step events"

definition missing_guard :: "event list \<Rightarrow> string list option" where
  "missing_guard events =
     (let (open, bare) = unguarded (guard_steps events) in
      case bare of Some _ \<Rightarrow> Some (sorted_list_of_fset open) | None \<Rightarrow> None)"

definition fold_open_deferrals :: "event list \<Rightarrow> string fset" where
  "fold_open_deferrals events =
     foldl (\<lambda>open e. apply_change open (deferral_change (ev_payload e))) fempty events"

section \<open>The set interface\<close>

locale node_set =
  fixes remove_node :: "string \<Rightarrow> 's \<Rightarrow> 's"
    and clear_nodes :: "'s \<Rightarrow> 's"
    and keys :: "'s \<Rightarrow> string fset"
  assumes keys_remove: "keys (remove_node n s) = keys s |-| {|n|}"
    and keys_clear: "keys (clear_nodes s) = fempty"
begin

lemma keys_remove_all:
  "keys (foldl (\<lambda>s n. remove_node n s) s ns) = keys s |-| fset_of_list ns"
proof (induction ns arbitrary: s)
  case Nil
  then show ?case by simp
next
  case (Cons n ns)
  have "foldl (\<lambda>s n. remove_node n s) s (n # ns) = foldl (\<lambda>s n. remove_node n s) (remove_node n s) ns"
    by simp
  then show ?case by (simp only: Cons.IH keys_remove) auto
qed

lemma keys_close:
  "keys (close remove_node clear_nodes s ch) =
    (case ch of Close n \<Rightarrow> keys s |-| {|n|} | Close_Each ns \<Rightarrow> keys s |-| fset_of_list ns
     | Close_All \<Rightarrow> fempty | _ \<Rightarrow> keys s)"
  by (cases ch) (simp_all add: close_def keys_remove keys_clear keys_remove_all)

end

interpretation log_set: node_set set_remove_node set_clear_nodes "\<lambda>s. s"
  by unfold_locales (simp_all add: set_remove_node_def set_clear_nodes_def)

interpretation state_map: node_set map_remove_node map_clear_nodes fmdom
  by unfold_locales (simp_all add: map_remove_node_def map_clear_nodes_def)

lemma close_set_map: "fmdom (close_map m ch) = close_set (fmdom m) ch"
  unfolding close_map_def close_set_def state_map.keys_close
  using log_set.keys_close [of "fmdom m" ch] by simp

lemma apply_change_simps [guard_simps]:
  "apply_change s (Open n) = finsert n s"
  "apply_change s (Close n) = s |-| {|n|}"
  "apply_change s (Close_Each ns) = s |-| fset_of_list ns"
  "apply_change s Close_All = fempty"
  "apply_change s No_Change = s"
  using log_set.keys_close [of s] by (simp_all add: apply_change_def close_set_def)

section \<open>What the guard check decides\<close>

lemma open_of_unguarded: "fst (foldl unguarded_step st steps) =
    foldl (\<lambda>o1 s. apply_change o1 (st_change s)) (fst st) steps"
  by (induction steps arbitrary: st) (simp_all add: unguarded_step_def Let_def split: prod.splits)

lemma foldl_map_list: "foldl f a (map g xs) = foldl (\<lambda>b x. f b (g x)) a xs"
  by (induction xs arbitrary: a) simp_all

lemma fold_open_unguarded: "fst (unguarded (guard_steps es)) = fold_open_deferrals es"
proof -
  have "fst (unguarded (guard_steps es)) =
      fst (foldl unguarded_step (fempty, None) (guard_steps es))"
    by (simp add: unguarded_def split: prod.splits)
  then show ?thesis
    unfolding open_of_unguarded
    by (simp add: fold_open_deferrals_def guard_steps_def foldl_map_list guard_step_def)
qed

end
