(* ===== verification/Event_Log.thy ===== *)
theory Event_Log
  imports Deferral_Guard
begin

text \<open>
  The append-only journal with any number of writers, \<^verbatim>\<open>EventLog\<close> of
  \<^verbatim>\<open>apb-engine/src/event.rs\<close> and \<^verbatim>\<open>event/run_guard.rs\<close>.  The file
  is the list of its events (under the append lock every line is whole); a handle keeps its next
  sequence number, the length it last saw, the open deferrals folded so far and the guard the run
  carries.  Byte offsets are counted in events.  The interleaving of the writers is the step
  relation \<open>log_step\<close>: each append is atomic, as the lock makes it.
\<close>

section \<open>Guarded features\<close>

datatype guarded_feature =
    Approval_Binding | Person_Only | Required_Approval | Evidence_Feature | Write_Scope
  | Previous_Success | Untrusted_Input

definition ALL_FEATURES :: "guarded_feature list" where
  "ALL_FEATURES = [Approval_Binding, Person_Only, Required_Approval, Evidence_Feature, Write_Scope,
     Previous_Success, Untrusted_Input]"

definition feature_str :: "guarded_feature \<Rightarrow> string" where
  "feature_str f =
     (case f of Approval_Binding \<Rightarrow> ''approval_binding'' | Person_Only \<Rightarrow> ''person_only''
      | Required_Approval \<Rightarrow> ''required_approval'' | Evidence_Feature \<Rightarrow> ''evidence''
      | Write_Scope \<Rightarrow> ''write_scope'' | Previous_Success \<Rightarrow> ''previous_success''
      | Untrusted_Input \<Rightarrow> ''untrusted_input'')"

definition feature_parse :: "string \<Rightarrow> guarded_feature option" where
  "feature_parse name = find (\<lambda>f. feature_str f = name) ALL_FEATURES"

definition newer_feature :: "string list \<Rightarrow> string option" where
  "newer_feature requires = find (\<lambda>name. feature_parse name = None) requires"

definition feature_rank :: "guarded_feature \<Rightarrow> nat" where
  "feature_rank f =
     (case f of Approval_Binding \<Rightarrow> 0 | Person_Only \<Rightarrow> 1 | Required_Approval \<Rightarrow> 2
      | Evidence_Feature \<Rightarrow> 3 | Write_Scope \<Rightarrow> 4 | Previous_Success \<Rightarrow> 5 | Untrusted_Input \<Rightarrow> 6)"

lemma feature_rank_inject: "feature_rank a = feature_rank b \<Longrightarrow> a = b"
  by (cases a; cases b) (simp_all add: feature_rank_def)

instantiation guarded_feature :: linorder
begin

definition less_guarded_feature :: "guarded_feature \<Rightarrow> guarded_feature \<Rightarrow> bool" where
  "less_guarded_feature a b = (feature_rank a < feature_rank b)"

definition less_eq_guarded_feature :: "guarded_feature \<Rightarrow> guarded_feature \<Rightarrow> bool" where
  "less_eq_guarded_feature a b = (feature_rank a \<le> feature_rank b)"

instance
  by standard (auto simp: less_guarded_feature_def less_eq_guarded_feature_def
      dest: feature_rank_inject)

end

text \<open>
  The features a definition uses.  Two of them are decided by analyses outside the model
  (whether the definition reads \<^verbatim>\<open>run.previous_success\<close>, whether untrusted text flows
  anywhere): their answers are arguments.
\<close>

definition node_features :: "node \<Rightarrow> guarded_feature list" where
  "node_features n =
     (if n_approves n \<noteq> None then [Approval_Binding] else [])
     @ (if n_person_only n then [Person_Only] else [])
     @ (if n_requires_approval n \<noteq> None then [Required_Approval] else [])
     @ (if n_evidence n \<noteq> None then [Evidence_Feature] else [])
     @ (if n_writes n \<noteq> None \<or> n_max_changed_files n \<noteq> None then [Write_Scope] else [])"

definition guarded_features ::
  "(playbook \<Rightarrow> bool) \<Rightarrow> (playbook \<Rightarrow> bool) \<Rightarrow> playbook \<Rightarrow> guarded_feature list" where
  "guarded_features reads_previous has_followers pb =
     sorted_list_of_set (set (concat (map node_features (pb_nodes pb))
       @ (if reads_previous pb then [Previous_Success] else [])
       @ (if has_followers pb then [Untrusted_Input] else [])))"

lemma feature_parse_str: "feature_parse (feature_str f) = Some f"
  by (cases f) (simp_all add: feature_parse_def ALL_FEATURES_def feature_str_def)

section \<open>The run guard tracker\<close>

definition tracker_apply :: "string list \<Rightarrow> string list option \<Rightarrow> string list" where
  "tracker_apply requires g = (case g of Some r \<Rightarrow> r | None \<Rightarrow> requires)"

definition tracker_fold :: "string list option list \<Rightarrow> string list" where
  "tracker_fold guards = foldl tracker_apply [] guards"

definition requires_after_checkpoint :: "string list \<Rightarrow> string list option" where
  "requires_after_checkpoint requires = (if requires \<noteq> [] then Some requires else None)"

definition open_after :: "string fset \<Rightarrow> change \<Rightarrow> string list option" where
  "open_after open ch =
     (let after = apply_change open ch in
      if after \<noteq> fempty then Some (sorted_list_of_fset after) else None)"

section \<open>A writer's handle\<close>

record handle =
  h_next_seq :: nat
  h_known_len :: "nat option"
  h_open :: "string fset"
  h_folded_to :: nat
  h_requires :: "string list"

datatype build =
    Plain event_payload
  | Decided "event list \<Rightarrow> event_payload option"

definition fold_requires :: "event list \<Rightarrow> string list" where
  "fold_requires es = tracker_fold (map (\<lambda>e. run_guard_requires (ev_payload e)) es)"

definition last_seq_on_disk :: "event list \<Rightarrow> nat option" where
  "last_seq_on_disk file = (if file = [] then None else Some (ev_seq (last file)))"

definition resync_seq :: "event list \<Rightarrow> handle \<Rightarrow> handle" where
  "resync_seq file h =
     (case last_seq_on_disk file of
        None \<Rightarrow> h
      | Some l \<Rightarrow> if l + 1 > h_next_seq h then h\<lparr>h_next_seq := l + 1\<rparr> else h)"

definition track :: "handle \<Rightarrow> event list \<Rightarrow> handle" where
  "track h es =
     h\<lparr>h_open := foldl (\<lambda>o1 e. apply_change o1 (deferral_change (ev_payload e))) (h_open h) es,
       h_requires := foldl (\<lambda>r e. tracker_apply r (run_guard_requires (ev_payload e)))
                       (h_requires h) es\<rparr>"

definition catch_up_deferrals :: "event list \<Rightarrow> handle \<Rightarrow> handle" where
  "catch_up_deferrals file h =
     (let len = length file in
      if len = h_folded_to h then h
      else let h1 = (if len < h_folded_to h
                     then h\<lparr>h_open := fempty, h_folded_to := 0, h_requires := []\<rparr> else h);
               h2 = track h1 (drop (h_folded_to h1) file)
           in h2\<lparr>h_folded_to := len\<rparr>)"

definition append_lines :: "handle \<Rightarrow> nat \<Rightarrow> event_payload \<Rightarrow> event list" where
  "append_lines h ts p =
     (let e = \<lparr> ev_seq = h_next_seq h, ev_ts = ts, ev_payload = p \<rparr>;
          lines1 =
            (case (if is_guarded_checkpoint p then open_after (h_open h) (deferral_change p) else None) of
               Some open \<Rightarrow>
                 [e, \<lparr> ev_seq = h_next_seq h + 1, ev_ts = ts, ev_payload = Deferred_Retry_Guard open \<rparr>]
             | None \<Rightarrow> [e])
      in (case (if is_checkpoint p then requires_after_checkpoint (h_requires h) else None) of
            Some requires \<Rightarrow>
              lines1 @ [\<lparr> ev_seq = h_next_seq h + length lines1, ev_ts = ts,
                          ev_payload = Run_Guard requires \<rparr>]
          | None \<Rightarrow> lines1))"

definition append_inner ::
  "handle \<Rightarrow> event list \<Rightarrow> nat \<Rightarrow> build \<Rightarrow> handle \<times> event list \<times> event option" where
  "append_inner h file ts b =
     (case (case b of Plain p \<Rightarrow> Some p | Decided decide \<Rightarrow> decide file) of
        None \<Rightarrow> (h, file, None)
      | Some p \<Rightarrow>
          (let h1 = (if h_known_len h \<noteq> Some (length file) then resync_seq file h else h);
               h2 = catch_up_deferrals file h1;
               lines = append_lines h2 ts p;
               file' = file @ lines;
               h3 = track (h2\<lparr>h_next_seq := h_next_seq h2 + length lines,
                             h_known_len := Some (length file')\<rparr>) lines
           in (h3\<lparr>h_folded_to := length file'\<rparr>, file', Some (hd lines))))"

definition fresh_handle :: "event list \<Rightarrow> handle" where
  "fresh_handle file =
     \<lparr> h_next_seq = foldl (\<lambda>m e. max m (ev_seq e + 1)) 0 file, h_known_len = None,
       h_open = fold_open_deferrals file, h_folded_to = length file,
       h_requires = fold_requires file \<rparr>"

definition repair_guard :: "handle \<Rightarrow> event list \<Rightarrow> nat \<Rightarrow> handle \<times> event list" where
  "repair_guard h file ts =
     (case append_inner h file ts
        (Decided (\<lambda>events. map_option Deferred_Retry_Guard (missing_guard events))) of
        (h', file', _) \<Rightarrow> (h', file'))"

definition open_log :: "event list \<Rightarrow> nat \<Rightarrow> bool \<Rightarrow> handle \<times> event list" where
  "open_log file ts refuse =
     (let h = fresh_handle file in
      if missing_guard file \<noteq> None \<and> refuse then repair_guard h file ts else (h, file))"

section \<open>Reading a journal with unknown events\<close>

text \<open>An event of a type the reading binary does not know keeps only its seq and its type tag.\<close>

record journal_read =
  jr_events :: "event list"
  jr_unknown :: "(nat \<times> string) list"

definition last_checkpoint :: "event list \<Rightarrow> nat option" where
  "last_checkpoint es =
     map_option ev_seq (find (\<lambda>e. is_checkpoint (ev_payload e)) (rev es))"

definition check_unknown_settled :: "journal_read \<Rightarrow> bool" where
  "check_unknown_settled j =
     (let checkpoint = last_checkpoint (jr_events j) in
      filter (\<lambda>(q, k). case checkpoint of None \<Rightarrow> True | Some c \<Rightarrow> q > c) (jr_unknown j) = [])"

text \<open>What a binary that knows no deferrals makes of a journal: those records are unknown to it.\<close>

definition read_without_deferrals :: "event list \<Rightarrow> journal_read" where
  "read_without_deferrals es =
     \<lparr> jr_events = filter (\<lambda>e. \<not> is_deferral_record (ev_payload e)) es,
       jr_unknown = map (\<lambda>e. (ev_seq e, ''deferral'')) (filter (\<lambda>e. is_deferral_record (ev_payload e)) es) \<rparr>"

section \<open>Any number of writers\<close>

type_synonym log_state = "event list \<times> handle list"

inductive log_step :: "log_state \<Rightarrow> log_state \<Rightarrow> bool" where
  open_handle: "open_log file ts refuse = (h, file') \<Longrightarrow> log_step (file, hs) (file', h # hs)"
| append: "i < length hs \<Longrightarrow> append_inner (hs ! i) file ts b = (h, file', ev)
    \<Longrightarrow> log_step (file, hs) (file', hs[i := h])"

inductive_cases log_stepE: "log_step s s'"

inductive log_reachable :: "log_state \<Rightarrow> bool" where
  start: "log_reachable ([], [])"
| more: "log_reachable s \<Longrightarrow> log_step s s' \<Longrightarrow> log_reachable s'"

section \<open>Folding extended journals\<close>

lemma fold_open_append: "fold_open_deferrals (xs @ ys) =
    foldl (\<lambda>o1 e. apply_change o1 (deferral_change (ev_payload e))) (fold_open_deferrals xs) ys"
  by (simp add: fold_open_deferrals_def)

lemma fold_requires_append: "fold_requires (xs @ ys) =
    foldl (\<lambda>r e. tracker_apply r (run_guard_requires (ev_payload e))) (fold_requires xs) ys"
  by (simp add: fold_requires_def tracker_fold_def foldl_map_list)

lemma fold_requires_Nil [simp]: "fold_requires [] = []"
  by (simp add: fold_requires_def tracker_fold_def)

lemma fold_open_Nil [simp]: "fold_open_deferrals [] = fempty"
  by (simp add: fold_open_deferrals_def)

lemma track_folds:
  assumes "h_open h = fold_open_deferrals xs" "h_requires h = fold_requires xs"
  shows "h_open (track h ys) = fold_open_deferrals (xs @ ys)"
    and "h_requires (track h ys) = fold_requires (xs @ ys)"
  using assms by (simp_all add: track_def fold_open_append fold_requires_append)

lemma track_frame [simp]:
  "h_next_seq (track h ys) = h_next_seq h" "h_known_len (track h ys) = h_known_len h"
  by (simp_all add: track_def)

section \<open>What a well-kept journal and handle are\<close>

definition seqs_increasing :: "event list \<Rightarrow> bool" where
  "seqs_increasing file = sorted_wrt (<) (map ev_seq file)"

definition deferrals_guarded :: "event list \<Rightarrow> bool" where
  "deferrals_guarded file =
     (\<forall>i < length file.
        is_guarded_checkpoint (ev_payload (file ! i))
        \<and> fold_open_deferrals (take (Suc i) file) \<noteq> fempty \<longrightarrow>
        Suc i < length file
        \<and> ev_payload (file ! Suc i) =
            Deferred_Retry_Guard (sorted_list_of_fset (fold_open_deferrals (take (Suc i) file))))"

definition run_guarded :: "event list \<Rightarrow> bool" where
  "run_guarded file =
     (\<forall>i < length file.
        is_checkpoint (ev_payload (file ! i)) \<and> fold_requires (take i file) \<noteq> [] \<longrightarrow>
        (\<exists>j. i < j \<and> j \<le> i + 2 \<and> j < length file
             \<and> ev_payload (file ! j) = Run_Guard (fold_requires (take i file))))"

definition journal_ok :: "event list \<Rightarrow> bool" where
  "journal_ok file = (seqs_increasing file \<and> deferrals_guarded file \<and> run_guarded file)"

definition handle_ok :: "event list \<Rightarrow> handle \<Rightarrow> bool" where
  "handle_ok file h =
     (h_folded_to h \<le> length file
      \<and> h_open h = fold_open_deferrals (take (h_folded_to h) file)
      \<and> h_requires h = fold_requires (take (h_folded_to h) file)
      \<and> (\<forall>k. h_known_len h = Some k \<longrightarrow>
            k \<le> length file \<and> (\<forall>e\<in>set (take k file). ev_seq e < h_next_seq h)))"

lemma handle_ok_extend: "handle_ok file h \<Longrightarrow> handle_ok (file @ xs) h"
  by (auto simp: handle_ok_def)

lemma sorted_last:
  assumes "seqs_increasing file" "e \<in> set file"
  shows "ev_seq e \<le> ev_seq (last file)"
proof -
  obtain xs x where f: "file = xs @ [x]" using assms(2) by (cases "file" rule: rev_cases) auto
  show ?thesis
  proof (cases "e = x")
    case True
    then show ?thesis using f by simp
  next
    case False
    then have "e \<in> set xs" using assms(2) f by auto
    then show ?thesis using assms(1) f by (auto simp: seqs_increasing_def sorted_wrt_append)
  qed
qed

lemma resync_next:
  assumes "seqs_increasing file" "e \<in> set file"
  shows "ev_seq e < h_next_seq (resync_seq file h)"
  using sorted_last [OF assms] assms(2)
  by (auto simp: resync_seq_def last_seq_on_disk_def)

lemma resync_frame [simp]:
  "h_known_len (resync_seq file h) = h_known_len h" "h_open (resync_seq file h) = h_open h"
  "h_folded_to (resync_seq file h) = h_folded_to h" "h_requires (resync_seq file h) = h_requires h"
  by (simp_all add: resync_seq_def split: option.splits)

lemma catch_up_folds:
  assumes "handle_ok file h"
  shows "h_open (catch_up_deferrals file h) = fold_open_deferrals file"
    and "h_requires (catch_up_deferrals file h) = fold_requires file"
    and "h_next_seq (catch_up_deferrals file h) = h_next_seq h"
proof -
  let ?k = "h_folded_to h"
  have k: "?k \<le> length file" "h_open h = fold_open_deferrals (take ?k file)"
    "h_requires h = fold_requires (take ?k file)"
    using assms by (auto simp: handle_ok_def)
  have "take ?k file @ drop ?k file = file" by simp
  then show "h_open (catch_up_deferrals file h) = fold_open_deferrals file"
    "h_requires (catch_up_deferrals file h) = fold_requires file"
    "h_next_seq (catch_up_deferrals file h) = h_next_seq h"
    using k track_folds [OF k(2,3), of "drop ?k file"]
    by (auto simp: catch_up_deferrals_def Let_def)
qed

section \<open>The lines of one append\<close>

lemma append_lines_shape:
  obtains gs where
    "append_lines h ts p = \<lparr> ev_seq = h_next_seq h, ev_ts = ts, ev_payload = p \<rparr> # gs"
    "\<forall>g\<in>set gs. \<not> is_checkpoint (ev_payload g) \<and> (\<exists>x. ev_payload g = Deferred_Retry_Guard x \<or> ev_payload g = Run_Guard x)"
    "is_guarded_checkpoint p \<Longrightarrow> apply_change (h_open h) (deferral_change p) \<noteq> fempty \<Longrightarrow>
      gs \<noteq> [] \<and> ev_payload (hd gs) =
        Deferred_Retry_Guard (sorted_list_of_fset (apply_change (h_open h) (deferral_change p)))"
    "is_checkpoint p \<Longrightarrow> h_requires h \<noteq> [] \<Longrightarrow>
      gs \<noteq> [] \<and> ev_payload (last gs) = Run_Guard (h_requires h)"
    "length gs \<le> 2"
    "map ev_seq gs = [h_next_seq h + 1..<h_next_seq h + 1 + length gs]"
proof -
  let ?d = "if is_guarded_checkpoint p then open_after (h_open h) (deferral_change p) else None"
  let ?r = "if is_checkpoint p then requires_after_checkpoint (h_requires h) else None"
  let ?e = "\<lparr> ev_seq = h_next_seq h, ev_ts = ts, ev_payload = p \<rparr>"
  define dl where "dl = (case ?d of Some open \<Rightarrow>
      [\<lparr> ev_seq = h_next_seq h + 1, ev_ts = ts, ev_payload = Deferred_Retry_Guard open \<rparr>] | None \<Rightarrow> [])"
  define rl where "rl = (case ?r of Some requires \<Rightarrow>
      [\<lparr> ev_seq = h_next_seq h + Suc (length dl), ev_ts = ts, ev_payload = Run_Guard requires \<rparr>] | None \<Rightarrow> [])"
  have "append_lines h ts p = ?e # (dl @ rl)"
    by (auto simp: append_lines_def dl_def rl_def Let_def split: option.splits)
  moreover have "\<forall>g\<in>set (dl @ rl). \<not> is_checkpoint (ev_payload g)
      \<and> (\<exists>x. ev_payload g = Deferred_Retry_Guard x \<or> ev_payload g = Run_Guard x)"
    by (auto simp: dl_def rl_def is_checkpoint_def split: option.splits)
  moreover have "is_guarded_checkpoint p \<Longrightarrow> apply_change (h_open h) (deferral_change p) \<noteq> fempty \<Longrightarrow>
      dl @ rl \<noteq> [] \<and> ev_payload (hd (dl @ rl)) =
        Deferred_Retry_Guard (sorted_list_of_fset (apply_change (h_open h) (deferral_change p)))"
    by (simp add: dl_def open_after_def Let_def)
  moreover have "is_checkpoint p \<Longrightarrow> h_requires h \<noteq> [] \<Longrightarrow>
      dl @ rl \<noteq> [] \<and> ev_payload (last (dl @ rl)) = Run_Guard (h_requires h)"
    by (simp add: rl_def requires_after_checkpoint_def)
  moreover have "length (dl @ rl) \<le> 2"
    by (auto simp: dl_def rl_def split: option.splits)
  moreover have "map ev_seq (dl @ rl) = [h_next_seq h + 1..<h_next_seq h + 1 + length (dl @ rl)]"
    by (auto simp: dl_def rl_def upt_conv_Cons split: option.splits)
  ultimately show ?thesis by (rule that)
qed

lemma seqs_append:
  assumes "seqs_increasing file" "\<forall>e\<in>set file. ev_seq e < n"
    "map ev_seq lines = [n..<n + length lines]"
  shows "seqs_increasing (file @ lines)"
proof -
  have "sorted_wrt (<) (map ev_seq lines)" unfolding assms(3) by (rule sorted_wrt_upt)
  moreover have "\<forall>q\<in>set (map ev_seq lines). n \<le> q" unfolding assms(3) by simp
  ultimately show ?thesis
    using assms(1,2) by (fastforce simp: seqs_increasing_def sorted_wrt_append)
qed

lemma deferrals_guarded_append:
  assumes "deferrals_guarded file" "lines = e # gs" "\<forall>g\<in>set gs. \<not> is_checkpoint (ev_payload g)"
    and "is_guarded_checkpoint (ev_payload e) \<Longrightarrow> fold_open_deferrals (file @ [e]) \<noteq> fempty \<Longrightarrow>
      gs \<noteq> [] \<and> ev_payload (hd gs) =
        Deferred_Retry_Guard (sorted_list_of_fset (fold_open_deferrals (file @ [e])))"
  shows "deferrals_guarded (file @ lines)"
  unfolding deferrals_guarded_def
proof (intro allI impI)
  fix i assume i: "i < length (file @ lines)"
    and cp: "is_guarded_checkpoint (ev_payload ((file @ lines) ! i))
      \<and> fold_open_deferrals (take (Suc i) (file @ lines)) \<noteq> fempty"
  consider "i < length file" | "i = length file" | "length file < i" by linarith
  then show "Suc i < length (file @ lines) \<and> ev_payload ((file @ lines) ! Suc i) =
      Deferred_Retry_Guard (sorted_list_of_fset (fold_open_deferrals (take (Suc i) (file @ lines))))"
  proof cases
    case 1
    then have t: "take (Suc i) (file @ lines) = take (Suc i) file" by simp
    have n: "(file @ lines) ! i = file ! i" using 1 by (simp add: nth_append)
    have "Suc i < length file \<and> ev_payload (file ! Suc i) =
      Deferred_Retry_Guard (sorted_list_of_fset (fold_open_deferrals (take (Suc i) file)))"
      using assms(1) 1 cp unfolding deferrals_guarded_def t n by blast
    then show ?thesis unfolding t by (simp add: nth_append)
  next
    case 2
    then have t: "take (Suc i) (file @ lines) = file @ [e]" using assms(2) by simp
    have n: "(file @ lines) ! i = e" "(file @ lines) ! Suc i = hd gs \<or> gs = []"
      using 2 assms(2) by (auto simp: nth_append hd_conv_nth)
    show ?thesis using assms(4) cp n 2 assms(2) unfolding t n(1) by (cases gs) auto
  next
    case 3
    then have "(file @ lines) ! i = gs ! (i - Suc (length file))"
      using assms(2) by (simp add: nth_append nth_Cons')
    moreover have "i - Suc (length file) < length gs" using i 3 assms(2) by simp
    ultimately show ?thesis
      using cp assms(3) guarded_is_checkpoint by (metis nth_mem)
  qed
qed

lemma run_guarded_append:
  assumes "run_guarded file" "lines = e # gs" "\<forall>g\<in>set gs. \<not> is_checkpoint (ev_payload g)"
    and "is_checkpoint (ev_payload e) \<Longrightarrow> fold_requires file \<noteq> [] \<Longrightarrow>
      gs \<noteq> [] \<and> ev_payload (last gs) = Run_Guard (fold_requires file)"
    and "length gs \<le> 2"
  shows "run_guarded (file @ lines)"
  unfolding run_guarded_def
proof (intro allI impI)
  fix i assume i: "i < length (file @ lines)"
    and cp: "is_checkpoint (ev_payload ((file @ lines) ! i))
      \<and> fold_requires (take i (file @ lines)) \<noteq> []"
  let ?goal = "\<lambda>j. i < j \<and> j \<le> i + 2 \<and> j < length (file @ lines) \<and> ev_payload ((file @ lines) ! j) =
      Run_Guard (fold_requires (take i (file @ lines)))"
  consider "i < length file" | "i = length file" | "length file < i" by linarith
  then show "\<exists>j. ?goal j"
  proof cases
    case 1
    then have t: "take i (file @ lines) = take i file" "(file @ lines) ! i = file ! i"
      by (simp_all add: nth_append)
    then obtain j where "i < j" "j \<le> i + 2" "j < length file"
      "ev_payload (file ! j) = Run_Guard (fold_requires (take i file))"
      using assms(1) 1 cp unfolding run_guarded_def by fastforce
    then have "?goal j" unfolding t by (simp add: nth_append)
    then show ?thesis ..
  next
    case 2
    then have t: "take i (file @ lines) = file" "(file @ lines) ! i = e" using assms(2) by simp_all
    then have g: "gs \<noteq> []" "ev_payload (last gs) = Run_Guard (fold_requires file)"
      using assms(4) cp by auto
    then have "(file @ lines) ! (i + length gs) = last gs"
      using 2 assms(2) by (simp add: nth_append last_conv_nth nth_Cons')
    then have "?goal (i + length gs)" using g t 2 assms(2,5) by simp
    then show ?thesis ..
  next
    case 3
    then have "(file @ lines) ! i = gs ! (i - Suc (length file))"
      using assms(2) by (simp add: nth_append nth_Cons')
    moreover have "i - Suc (length file) < length gs" using i 3 assms(2) by simp
    ultimately show ?thesis using cp assms(3) by (metis nth_mem)
  qed
qed

section \<open>Every interleaving keeps the journal\<close>

lemma append_ok:
  assumes j: "journal_ok file" and h: "handle_ok file h"
    and a: "append_inner h file ts b = (h', file', ev)"
  shows "journal_ok file'" and "handle_ok file' h'" and "\<exists>lines. file' = file @ lines"
proof -
  have "journal_ok file' \<and> handle_ok file' h' \<and> (\<exists>lines. file' = file @ lines)"
  proof (cases "case b of Plain p \<Rightarrow> Some p | Decided decide \<Rightarrow> decide file")
    case None
    then show ?thesis using a j h by (auto simp: append_inner_def)
  next
    case (Some p)
    define h1 where "h1 = (if h_known_len h \<noteq> Some (length file) then resync_seq file h else h)"
    define h2 where "h2 = catch_up_deferrals file h1"
    define lines where "lines = append_lines h2 ts p"
    have inc: "seqs_increasing file" using j by (simp add: journal_ok_def)
    have fr: "h_open h1 = h_open h" "h_folded_to h1 = h_folded_to h" "h_requires h1 = h_requires h"
      "h_known_len h1 = h_known_len h"
      by (simp_all add: h1_def)
    have next1: "\<forall>e\<in>set file. ev_seq e < h_next_seq h1"
      using h resync_next [OF inc] by (auto simp: h1_def handle_ok_def)
    have next_le: "h_next_seq h \<le> h_next_seq h1"
      by (auto simp: h1_def resync_seq_def split: option.splits)
    have ok1: "handle_ok file h1" using h fr next_le by (fastforce simp: handle_ok_def)
    note f2 = catch_up_folds [OF ok1, folded h2_def]
    obtain gs where gs: "lines = \<lparr> ev_seq = h_next_seq h2, ev_ts = ts, ev_payload = p \<rparr> # gs"
      "\<forall>g\<in>set gs. \<not> is_checkpoint (ev_payload g) \<and> (\<exists>x. ev_payload g = Deferred_Retry_Guard x \<or> ev_payload g = Run_Guard x)"
      "is_guarded_checkpoint p \<Longrightarrow> apply_change (h_open h2) (deferral_change p) \<noteq> fempty \<Longrightarrow>
        gs \<noteq> [] \<and> ev_payload (hd gs) =
          Deferred_Retry_Guard (sorted_list_of_fset (apply_change (h_open h2) (deferral_change p)))"
      "is_checkpoint p \<Longrightarrow> h_requires h2 \<noteq> [] \<Longrightarrow>
        gs \<noteq> [] \<and> ev_payload (last gs) = Run_Guard (h_requires h2)"
      "length gs \<le> 2" "map ev_seq gs = [h_next_seq h2 + 1..<h_next_seq h2 + 1 + length gs]"
      using append_lines_shape [of h2 ts p] unfolding lines_def by metis
    let ?e = "\<lparr> ev_seq = h_next_seq h2, ev_ts = ts, ev_payload = p \<rparr>"
    have open_e: "fold_open_deferrals (file @ [?e]) = apply_change (h_open h2) (deferral_change p)"
      by (simp add: fold_open_append f2(1))
    have file': "file' = file @ lines"
      and h': "h' = (track (h2\<lparr>h_next_seq := h_next_seq h2 + length lines,
          h_known_len := Some (length (file @ lines))\<rparr>) lines)\<lparr>h_folded_to := length (file @ lines)\<rparr>"
      using a Some by (auto simp: append_inner_def Let_def h1_def h2_def lines_def split: build.splits)
    have seqs: "map ev_seq lines = [h_next_seq h2..<h_next_seq h2 + length lines]"
    proof -
      have "[h_next_seq h2..<h_next_seq h2 + length lines] =
          h_next_seq h2 # [h_next_seq h2 + 1..<h_next_seq h2 + 1 + length gs]"
        by (simp add: gs(1) upt_conv_Cons del: upt_Suc)
      then show ?thesis unfolding gs(6) [symmetric] by (simp add: gs(1))
    qed
    have inc': "seqs_increasing (file @ lines)"
      by (rule seqs_append [OF inc _ seqs]) (use next1 f2(3) in simp)
    have "deferrals_guarded (file @ lines)"
      by (rule deferrals_guarded_append [OF _ gs(1)])
        (use j gs(2,3) open_e in \<open>auto simp: journal_ok_def\<close>)
    moreover have "run_guarded (file @ lines)"
      by (rule run_guarded_append [OF _ gs(1) _ _ gs(5)])
        (use j gs(2,4) f2(2) in \<open>auto simp: journal_ok_def\<close>)
    moreover have "handle_ok (file @ lines) h'"
    proof -
      let ?hh = "h2\<lparr>h_next_seq := h_next_seq h2 + length lines,
          h_known_len := Some (length (file @ lines))\<rparr>"
      have t: "h_open (track ?hh lines) = fold_open_deferrals (file @ lines)"
        "h_requires (track ?hh lines) = fold_requires (file @ lines)"
        using track_folds [of ?hh "file" lines] f2 by simp_all
      have "ev_seq x < h_next_seq h2 + length lines" if "x \<in> set (file @ lines)" for x
      proof (cases "x \<in> set file")
        case True
        then show ?thesis using next1 f2(3) by fastforce
      next
        case False
        then have "ev_seq x \<in> set (map ev_seq lines)" using that by auto
        then show ?thesis unfolding seqs by simp
      qed
      then show ?thesis unfolding h' handle_ok_def using t by simp
    qed
    ultimately show ?thesis using inc' file' by (auto simp: journal_ok_def)
  qed
  then show "journal_ok file'" "handle_ok file' h'" "\<exists>lines. file' = file @ lines" by auto
qed

lemma fresh_handle_ok: "handle_ok file (fresh_handle file)"
  by (simp add: handle_ok_def fresh_handle_def)

lemma open_log_ok:
  assumes "journal_ok file" "open_log file ts refuse = (h, file')"
  shows "journal_ok file' \<and> handle_ok file' h \<and> (\<exists>lines. file' = file @ lines)"
proof (cases "missing_guard file \<noteq> None \<and> refuse")
  case True
  then obtain ev where "append_inner (fresh_handle file) file ts
      (Decided (\<lambda>events. map_option Deferred_Retry_Guard (missing_guard events))) = (h, file', ev)"
    using assms(2) by (auto simp: open_log_def repair_guard_def Let_def split: prod.splits)
  from append_ok [OF assms(1) fresh_handle_ok this] show ?thesis by blast
next
  case False
  then show ?thesis using assms fresh_handle_ok by (auto simp: open_log_def Let_def)
qed

definition log_ok :: "log_state \<Rightarrow> bool" where
  "log_ok s = (journal_ok (fst s) \<and> (\<forall>h\<in>set (snd s). handle_ok (fst s) h))"

lemma log_step_ok: "log_step s s' \<Longrightarrow> log_ok s \<Longrightarrow> log_ok s'"
proof (induction rule: log_step.induct)
  case (open_handle "file" ts refuse h file' hs)
  then show ?case
    using open_log_ok [OF _ open_handle(1)] handle_ok_extend by (fastforce simp: log_ok_def)
next
  case (append i hs "file" ts b h file' ev)
  have j: "journal_ok file" and hi: "handle_ok file (hs ! i)"
    using append by (auto simp: log_ok_def)
  note ok = append_ok [OF j hi append(2)]
  have "handle_ok file' x" if "x \<in> set (hs[i := h])" for x
  proof (cases "x = h")
    case True
    then show ?thesis using ok(2) by simp
  next
    case False
    then have "x \<in> set hs" using that set_update_subset_insert [of hs i h] by auto
    then show ?thesis using append(3) ok(3) handle_ok_extend by (auto simp: log_ok_def)
  qed
  then show ?case using ok(1) by (simp add: log_ok_def)
qed

lemma journal_ok_Nil: "journal_ok []"
  by (simp add: journal_ok_def seqs_increasing_def deferrals_guarded_def run_guarded_def)

lemma log_reachable_ok: "log_reachable s \<Longrightarrow> log_ok s"
proof (induction rule: log_reachable.induct)
  case start
  then show ?case by (simp add: log_ok_def journal_ok_Nil)
next
  case (more s s')
  then show ?case using log_step_ok by blast
qed

text \<open>
  C1: however many writers open the journal and however their appends interleave, sequence
  numbers are strictly increasing, every checkpoint written while a retry is deferred is followed
  at once by a guard naming exactly the open deferrals, and every checkpoint written while the
  definition is guarded is followed within two lines by a run guard naming the same features.
\<close>

theorem journal_guards:
  assumes "log_reachable (file, hs)"
  shows "seqs_increasing file \<and> deferrals_guarded file \<and> run_guarded file"
  using log_reachable_ok [OF assms] by (simp add: log_ok_def journal_ok_def)

definition log_run :: "event_payload list \<Rightarrow> log_state" where
  "log_run ps = foldl (\<lambda>(file, hs) p.
     (case append_inner (hs ! 0) file 0 (Plain p) of (h, file', _) \<Rightarrow> (file', hs[0 := h])))
     ([], [fresh_handle []]) ps"

lemma log_run_reachable: "log_reachable (log_run ps) \<and> length (snd (log_run ps)) = 1"
proof (induction ps rule: rev_induct)
  case Nil
  have "log_step ([], []) ([], [fresh_handle []])"
    by (rule log_step.open_handle [where ts = 0 and refuse = False]) (simp add: open_log_def)
  then show ?case using log_reachable.start log_reachable.more by (simp add: log_run_def)
next
  case (snoc p ps)
  obtain "file" hs where st: "log_run ps = (file, hs)" by fastforce
  obtain h file' ev where a: "append_inner (hs ! 0) file 0 (Plain p) = (h, file', ev)"
    by (metis prod_cases3)
  have "log_run (ps @ [p]) = (file', hs[0 := h])"
    using st a by (simp add: log_run_def)
  moreover have "log_step (file, hs) (file', hs[0 := h])"
    by (rule log_step.append [OF _ a]) (use snoc st in simp)
  ultimately show ?case using snoc st log_reachable.more by auto
qed

theorem journal_guards_witness:
  "seqs_increasing (fst (log_run [deferred_event ''a'' 5, paused_event ''p'' None]))
   \<and> deferrals_guarded (fst (log_run [deferred_event ''a'' 5, paused_event ''p'' None]))
   \<and> run_guarded (fst (log_run [deferred_event ''a'' 5, paused_event ''p'' None]))"
  by (rule journal_guards [where hs = "snd (log_run [deferred_event ''a'' 5, paused_event ''p'' None])"])
    (simp add: log_run_reachable)

lemma open_needs_record:
  "fold_open_deferrals (xs @ ys) \<noteq> fempty \<Longrightarrow> fold_open_deferrals xs = fempty \<Longrightarrow>
    \<exists>e\<in>set ys. is_deferral_record (ev_payload e)"
proof (induction ys rule: rev_induct)
  case Nil
  then show ?case by simp
next
  case (snoc e ys)
  show ?case
  proof (cases "fold_open_deferrals (xs @ ys) = fempty")
    case True
    have "fold_open_deferrals (xs @ ys @ [e]) =
        apply_change (fold_open_deferrals (xs @ ys)) (deferral_change (ev_payload e))"
      by (simp add: fold_open_append)
    then have "apply_change fempty (deferral_change (ev_payload e)) \<noteq> fempty"
      using snoc.prems(1) True by simp
    then have "\<exists>n. deferral_change (ev_payload e) = Open n"
      by (cases "deferral_change (ev_payload e)") (simp_all add: guard_simps)
    then have "is_deferral_record (ev_payload e)"
      by (auto simp: deferral_change_def is_deferral_record_def split: event_payload.splits if_splits)
    then show ?thesis by simp
  next
    case False
    then show ?thesis using snoc by auto
  qed
qed

lemma last_checkpoint_split:
  "last_checkpoint es = None \<and> (\<forall>e\<in>set es. \<not> is_checkpoint (ev_payload e))
   \<or> (\<exists>xs e ys. es = xs @ e # ys \<and> is_checkpoint (ev_payload e)
        \<and> (\<forall>y\<in>set ys. \<not> is_checkpoint (ev_payload y)) \<and> last_checkpoint es = Some (ev_seq e))"
proof (induction es rule: rev_induct)
  case Nil
  then show ?case by (simp add: last_checkpoint_def)
next
  case (snoc e es)
  show ?case
  proof (cases "is_checkpoint (ev_payload e)")
    case True
    then show ?thesis by (intro disjI2 exI [of _ es] exI [of _ e] exI [of _ "[]"])
        (simp add: last_checkpoint_def)
  next
    case False
    then have l: "last_checkpoint (es @ [e]) = last_checkpoint es" by (simp add: last_checkpoint_def)
    show ?thesis
      using snoc
    proof (elim disjE conjE exE)
      assume "last_checkpoint es = None" "\<forall>e\<in>set es. \<not> is_checkpoint (ev_payload e)"
      then show ?thesis using False l by simp
    next
      fix xs c ys
      assume c: "es = xs @ c # ys" "is_checkpoint (ev_payload c)"
        "\<forall>y\<in>set ys. \<not> is_checkpoint (ev_payload y)" "last_checkpoint es = Some (ev_seq c)"
      show ?thesis
        by (intro disjI2 exI [of _ xs] exI [of _ c] exI [of _ "ys @ [e]"]) (use c False l in simp)
    qed
  qed
qed

lemma deferral_record_not_checkpoint: "is_deferral_record p \<Longrightarrow> \<not> is_checkpoint p"
  by (cases p) (simp_all add: is_deferral_record_def is_checkpoint_def)

lemma last_checkpoint_without_deferrals:
  "last_checkpoint (filter (\<lambda>e. \<not> is_deferral_record (ev_payload e)) es) = last_checkpoint es"
proof -
  have "find (\<lambda>e. is_checkpoint (ev_payload e)) (filter (\<lambda>e. \<not> is_deferral_record (ev_payload e)) xs)
      = find (\<lambda>e. is_checkpoint (ev_payload e)) xs" for xs :: "event list"
    by (induction xs) (auto dest: deferral_record_not_checkpoint)
  then show ?thesis by (simp add: last_checkpoint_def rev_filter)
qed

lemma unsettled_when_record_after:
  assumes "r \<in> set es" "is_deferral_record (ev_payload r)"
    and "\<And>c. last_checkpoint es = Some c \<Longrightarrow> c < ev_seq r"
  shows "\<not> check_unknown_settled (read_without_deferrals es)"
proof -
  have "(ev_seq r, ''deferral'') \<in> set (jr_unknown (read_without_deferrals es))"
    using assms by (auto simp: read_without_deferrals_def)
  moreover have "last_checkpoint (jr_events (read_without_deferrals es)) = last_checkpoint es"
    by (simp add: read_without_deferrals_def last_checkpoint_without_deferrals)
  ultimately show ?thesis
    using assms(3)
    by (auto simp: check_unknown_settled_def Let_def filter_empty_conv split: option.splits
        intro!: bexI [of _ "(ev_seq r, ''deferral'')"])
qed

lemma refuses_open_deferrals:
  assumes j: "journal_ok es" and opn: "fold_open_deferrals es \<noteq> fempty"
  shows "\<not> check_unknown_settled (read_without_deferrals es)"
  using last_checkpoint_split [of es]
proof (elim disjE conjE exE)
  assume none: "last_checkpoint es = None"
  obtain r where "r \<in> set es" "is_deferral_record (ev_payload r)"
    using open_needs_record [of "[]" es] opn by auto
  then show ?thesis by (rule unsettled_when_record_after) (simp add: none)
next
  fix xs e ys
  assume es: "es = xs @ e # ys" and cp: "is_checkpoint (ev_payload e)"
    and l: "last_checkpoint es = Some (ev_seq e)"
  have later: "ev_seq e < ev_seq y" if "y \<in> set ys" for y
    using j that es by (auto simp: journal_ok_def seqs_increasing_def sorted_wrt_append)
  have t: "take (Suc (length xs)) es = xs @ [e]" and n: "es ! length xs = e" using es by simp_all
  have "\<exists>r\<in>set ys. is_deferral_record (ev_payload r)"
  proof (cases "fold_open_deferrals (xs @ [e]) = fempty")
    case True
    then show ?thesis using open_needs_record [of "xs @ [e]" ys] opn es by simp
  next
    case False
    have "is_guarded_checkpoint (ev_payload e)"
    proof (rule ccontr)
      assume "\<not> is_guarded_checkpoint (ev_payload e)"
      then have "deferral_change (ev_payload e) = Close_All"
        using cp by (auto simp: is_checkpoint_def is_guarded_checkpoint_def deferral_change_def
            split: event_payload.splits)
      then show False using False by (simp add: fold_open_append guard_simps)
    qed
    moreover have "length xs < length es" using es by simp
    ultimately have g: "Suc (length xs) < length es"
      "ev_payload (es ! Suc (length xs)) =
        Deferred_Retry_Guard (sorted_list_of_fset (fold_open_deferrals (xs @ [e])))"
      using j False unfolding journal_ok_def deferrals_guarded_def t [symmetric]
      by (metis n)+
    then have "ys \<noteq> []" "es ! Suc (length xs) = hd ys"
      using es by (auto simp: nth_append hd_conv_nth)
    then show ?thesis using g(2) by (intro bexI [of _ "hd ys"]) (simp_all add: is_deferral_record_def)
  qed
  then obtain r where r: "r \<in> set ys" "is_deferral_record (ev_payload r)" by auto
  show ?thesis
    by (rule unsettled_when_record_after [of r]) (use r es l later in auto)
qed

text \<open>
  C2: the reason the guard exists: while any retry is deferred, a binary that does not know
  deferred retries finds an unknown event after the last checkpoint it knows and refuses to
  continue the run, whatever writers produced the journal.
\<close>

theorem older_binary_refuses:
  assumes "log_reachable (file, hs)" "fold_open_deferrals file \<noteq> fempty"
  shows "\<not> check_unknown_settled (read_without_deferrals file)"
  using refuses_open_deferrals log_reachable_ok [OF assms(1)] assms(2) by (simp add: log_ok_def)

theorem older_binary_refuses_witness:
  "\<not> check_unknown_settled (read_without_deferrals
      (fst (log_run [deferred_event ''a'' 5, paused_event ''p'' None])))"
proof (rule older_binary_refuses
    [where hs = "snd (log_run [deferred_event ''a'' 5, paused_event ''p'' None])"])
  show "log_reachable (fst (log_run [deferred_event ''a'' 5, paused_event ''p'' None]),
      snd (log_run [deferred_event ''a'' 5, paused_event ''p'' None]))"
    using log_run_reachable by simp
  show "fold_open_deferrals (fst (log_run [deferred_event ''a'' 5, paused_event ''p'' None])) \<noteq> fempty"
    by code_simp
qed

lemma guard_closes_gap:
  "is_deferral_record (ev_payload g) \<Longrightarrow> \<not> is_checkpoint (ev_payload g) \<Longrightarrow>
    missing_guard (es @ [g]) = None"
  by (auto simp: missing_guard_def guard_steps_def unguarded_def unguarded_step_def guard_step_def
      Let_def split: prod.splits option.splits bool.splits)

text \<open>
  Opening a journal for writing repairs a guard lost between the two lines of one append:
  whatever the journal holds, after the open no checkpoint with an open deferral is the last word.
\<close>

theorem open_repairs_guard:
  "missing_guard (snd (open_log file ts True)) = None"
proof (cases "missing_guard file")
  case None
  then show ?thesis by (simp add: open_log_def Let_def)
next
  case (Some names)
  define h2 where "h2 = catch_up_deferrals file (resync_seq file (fresh_handle file))"
  obtain gs where lines: "append_lines h2 ts (Deferred_Retry_Guard names) = gs"
    and gs: "gs = [\<lparr> ev_seq = h_next_seq h2, ev_ts = ts, ev_payload = Deferred_Retry_Guard names \<rparr>]"
    by (simp add: append_lines_def is_guarded_checkpoint_def is_checkpoint_def)
  have "snd (open_log file ts True) = file @ gs"
    using Some lines
    by (simp add: open_log_def repair_guard_def append_inner_def Let_def fresh_handle_def
        h2_def [unfolded fresh_handle_def] split: prod.splits)
  then show ?thesis
    using guard_closes_gap gs by (simp add: is_deferral_record_def is_checkpoint_def)
qed

end
