(* ===== verification/Run_State.thy ===== *)
theory Run_State
  imports Event_Log
begin

text \<open>
  The run state folded from the journal, \<^verbatim>\<open>apb-engine/src/state.rs\<close>.
  \<^verbatim>\<open>RunState::fold\<close> is one loop over a match with an arm per payload; here every arm
  that changes the state is a definition \<open>on_...\<close> and \<open>fold_event\<close> is the match.  The fold's two
  local variables (the open attempts and the legacy resume marker) are carried beside the state.
\<close>

section \<open>Statuses\<close>

datatype node_status =
    Pending | Ready | Running | Succeeded | Failed | Unknown | Timed_Out | Interrupted
  | Skipped | Cancelled | Retry_Waiting

definition node_status_str :: "node_status \<Rightarrow> string" where
  "node_status_str s =
     (case s of Pending \<Rightarrow> ''pending'' | Ready \<Rightarrow> ''ready'' | Running \<Rightarrow> ''running''
      | Succeeded \<Rightarrow> ''succeeded'' | Failed \<Rightarrow> ''failed'' | Unknown \<Rightarrow> ''unknown''
      | Timed_Out \<Rightarrow> ''timed_out'' | Interrupted \<Rightarrow> ''interrupted'' | Skipped \<Rightarrow> ''skipped''
      | Cancelled \<Rightarrow> ''cancelled'' | Retry_Waiting \<Rightarrow> ''retry_waiting'')"

definition is_finished :: "node_status \<Rightarrow> bool" where
  "is_finished s = (s \<in> {Succeeded, Failed, Timed_Out, Skipped, Cancelled})"

definition has_executed :: "node_status \<Rightarrow> bool" where
  "has_executed s = (s \<notin> {Pending, Ready, Running})"

definition ended_badly :: "node_status \<Rightarrow> bool" where
  "ended_badly s = (s \<in> {Failed, Timed_Out, Interrupted})"

definition from_label :: "string \<Rightarrow> node_status" where
  "from_label s =
     (if s = ''pending'' then Pending else if s = ''ready'' then Ready
      else if s = ''running'' then Running else if s = ''succeeded'' then Succeeded
      else if s = ''failed'' then Failed else if s = ''timed_out'' then Timed_Out
      else if s = ''interrupted'' then Interrupted else if s = ''skipped'' then Skipped
      else if s = ''cancelled'' then Cancelled else if s = ''retry_waiting'' then Retry_Waiting
      else Unknown)"

datatype run_status =
    Run_Created | Run_Running | Run_Is_Paused | Run_Succeeded | Run_Failed | Run_Is_Aborted
  | Run_Interrupted

definition run_status_str :: "run_status \<Rightarrow> string" where
  "run_status_str s =
     (case s of Run_Created \<Rightarrow> ''created'' | Run_Running \<Rightarrow> ''running'' | Run_Is_Paused \<Rightarrow> ''paused''
      | Run_Succeeded \<Rightarrow> ''succeeded'' | Run_Failed \<Rightarrow> ''failed'' | Run_Is_Aborted \<Rightarrow> ''aborted''
      | Run_Interrupted \<Rightarrow> ''interrupted'')"

definition is_terminal :: "run_status \<Rightarrow> bool" where
  "is_terminal s = (s \<in> {Run_Succeeded, Run_Failed, Run_Is_Aborted})"

section \<open>The state\<close>

record review_decision =
  rd_decision :: string
  rd_note :: string

record failure_reason =
  fr_node :: "string option"
  fr_reason :: string

definition failure_display :: "failure_reason \<Rightarrow> string" where
  "failure_display f =
     (case fr_node f of Some n \<Rightarrow> ''node `'' @ n @ ''`: '' @ fr_reason f | None \<Rightarrow> fr_reason f)"

record deferred_retry =
  dr_seq :: nat
  dr_ts :: nat
  dr_after_attempt :: u64
  dr_attempt :: u32
  dr_retry :: u32
  dr_step :: u32
  dr_binding :: string
  dr_delay_ms :: u64
  dr_failure_kind :: "string option"
  dr_expedited :: bool

record released_drive =
  rl_seq :: nat
  rl_wake_at_ms :: u64
  rl_nodes :: "string list"

record node_seqs =
  ns_started :: "(string, nat) fmap"
  ns_finished :: "(string, nat) fmap"
  ns_hops :: "(string \<times> string, nat) fmap"

record revival_entry =
  re_from_node :: string
  re_nodes :: "string fset"

record judge_edge_answers =
  ja_execution :: u32
  ja_applied :: bool
  ja_p :: "(string, f64) fmap"

record run_state =
  rs_run_status :: run_status
  rs_nodes :: "(string, node_status) fmap"
  rs_attempts :: "(string, u32) fmap"
  rs_outputs :: "(string, string) fmap"
  rs_reviews :: "(string, review_decision) fmap"
  rs_last_node :: "string option"
  rs_edge_counts :: "(string \<times> string, u32) fmap"
  rs_journaled_hops :: "(string \<times> string) fset"
  rs_rejected_outputs :: "(string, string) fmap"
  rs_stalled :: "string fset"
  rs_failure_reason :: "failure_reason option"
  rs_worktree :: "string option"
  rs_judge_edges :: "(string, judge_edge_answers) fmap"
  rs_finished_counts :: "(string, u32) fmap"
  rs_route_suppressed :: "string fset"
  rs_refused_joins :: "string fset"
  rs_revived :: "string fset"
  rs_revival_starts :: "string fset"
  rs_revivals :: "revival_entry list"
  rs_delivered :: "(string \<times> string) fset"
  rs_seqs :: node_seqs
  rs_deferred :: "(string, deferred_retry) fmap"
  rs_released :: "released_drive option"
  rs_previous_success :: "opaque option"
  rs_success_outputs :: "(string, string list) fmap"

definition state_init :: run_state where
  "state_init =
     \<lparr> rs_run_status = Run_Created, rs_nodes = fmempty, rs_attempts = fmempty,
       rs_outputs = fmempty, rs_reviews = fmempty, rs_last_node = None, rs_edge_counts = fmempty,
       rs_journaled_hops = fempty, rs_rejected_outputs = fmempty, rs_stalled = fempty,
       rs_failure_reason = None, rs_worktree = None, rs_judge_edges = fmempty,
       rs_finished_counts = fmempty, rs_route_suppressed = fempty, rs_refused_joins = fempty,
       rs_revived = fempty, rs_revival_starts = fempty, rs_revivals = [], rs_delivered = fempty,
       rs_seqs = \<lparr> ns_started = fmempty, ns_finished = fmempty, ns_hops = fmempty \<rparr>,
       rs_deferred = fmempty, rs_released = None, rs_previous_success = None,
       rs_success_outputs = fmempty \<rparr>"

section \<open>What routing reads\<close>

definition current_status :: "run_state \<Rightarrow> string \<Rightarrow> node_status" where
  "current_status s n = (if n |\<in>| rs_revived s then Pending else fget (rs_nodes s) Pending n)"

definition routes :: "run_state \<Rightarrow> string \<Rightarrow> string \<Rightarrow> bool" where
  "routes s from to = (from |\<notin>| rs_revived s \<and> (from, to) |\<in>| rs_journaled_hops s)"

definition revived_after_finish :: "run_state \<Rightarrow> string \<Rightarrow> bool" where
  "revived_after_finish s n =
     (n |\<in>| rs_revived s
      \<and> (case fmlookup (rs_nodes s) n of Some st \<Rightarrow> is_finished st | None \<Rightarrow> False)
      \<and> \<not> fBex (rs_delivered s) (\<lambda>(f, t). t = n \<and> routes s f t))"

definition hop_of_latest_run :: "run_state \<Rightarrow> string \<Rightarrow> string \<Rightarrow> bool" where
  "hop_of_latest_run s from to =
     (case (fmlookup (ns_hops (rs_seqs s)) (from, to), fmlookup (ns_started (rs_seqs s)) from) of
        (Some h, Some start) \<Rightarrow> h > start
      | _ \<Rightarrow> True)"

definition join_consumed :: "run_state \<Rightarrow> string \<Rightarrow> string \<Rightarrow> bool" where
  "join_consumed s source join =
     (case fmlookup (ns_finished (rs_seqs s)) source of
        None \<Rightarrow> False
      | Some done1 \<Rightarrow>
          (case fmlookup (ns_finished (rs_seqs s)) join of
             None \<Rightarrow> False
           | Some join_done \<Rightarrow>
               join_done > done1
               \<and> (case fmlookup (ns_started (rs_seqs s)) join of Some q \<Rightarrow> q < join_done | None \<Rightarrow> True)
               \<and> join |\<notin>| rs_revived s))"

section \<open>Revivals\<close>

definition settle_revivals :: "run_state \<Rightarrow> run_state" where
  "settle_revivals s =
     (let revivals = filter (\<lambda>r. re_nodes r \<noteq> fempty) (rs_revivals s);
          revived = foldr (\<lambda>r acc. re_nodes r |\<union>| acc) revivals fempty;
          starts = fset_of_list (map re_from_node (filter (\<lambda>r. re_from_node r |\<in>| re_nodes r) revivals))
      in s\<lparr>rs_revivals := revivals, rs_revived := revived, rs_revival_starts := starts,
           rs_delivered := ffilter (\<lambda>(f, t). t |\<in>| revived) (rs_delivered s)\<rparr>)"

definition revive_from :: "run_state \<Rightarrow> string \<Rightarrow> string list \<Rightarrow> string list \<Rightarrow> run_state" where
  "revive_from s from_node ns superseded =
     (let nodes = fset_of_list ns;
          kept = filter (\<lambda>r. \<not> (re_from_node r \<in> set superseded \<and> re_from_node r |\<in>| re_nodes r))
                   (rs_revivals s);
          covered = map (\<lambda>r. if re_from_node r |\<in>| nodes
                             then r\<lparr>re_nodes := re_nodes r |-| {|re_from_node r|}\<rparr> else r) kept
      in settle_revivals
           (s\<lparr>rs_revivals := covered @ [\<lparr> re_from_node = from_node, re_nodes = nodes \<rparr>]\<rparr>))"

definition ran_again :: "run_state \<Rightarrow> string \<Rightarrow> run_state" where
  "ran_again s n =
     (if n |\<notin>| rs_revived s then s
      else settle_revivals
        (s\<lparr>rs_journaled_hops := ffilter (\<lambda>(f, t). f \<noteq> n) (rs_journaled_hops s),
           rs_delivered := ffilter (\<lambda>(f, t). t \<noteq> n) (rs_delivered s),
           rs_revivals := map (\<lambda>r. r\<lparr>re_nodes := re_nodes r |-| {|n|}\<rparr>) (rs_revivals s)\<rparr>))"

definition end_owed_revivals :: "run_state \<Rightarrow> run_state" where
  "end_owed_revivals s =
     settle_revivals
       (s\<lparr>rs_revivals := filter (\<lambda>r. re_from_node r |\<notin>| re_nodes r) (rs_revivals s)\<rparr>)"

definition settle_waiting :: "run_state \<Rightarrow> run_state" where
  "settle_waiting s =
     s\<lparr>rs_nodes := fmmap (\<lambda>st. if st = Retry_Waiting then Cancelled else st) (rs_nodes s)\<rparr>"

section \<open>Deferred retries\<close>

definition fold_deferred :: "run_state \<Rightarrow> event \<Rightarrow> (string, deferred_retry) fmap" where
  "fold_deferred s e =
     (case ev_payload e of
        Retry_Deferred d \<Rightarrow>
          if df_node d \<noteq> [] then
            fmupd (df_node d)
              \<lparr> dr_seq = ev_seq e, dr_ts = ev_ts e, dr_after_attempt = df_after_attempt d,
                dr_attempt = fget (rs_attempts s) 0 (df_node d), dr_retry = df_retry d,
                dr_step = df_step d, dr_binding = df_binding d, dr_delay_ms = df_delay_ms d,
                dr_failure_kind = df_failure_kind d, dr_expedited = False \<rparr> (rs_deferred s)
          else close_map (rs_deferred s) (deferral_change (ev_payload e))
      | Retry_Expedited n who \<Rightarrow>
          (case fmlookup (rs_deferred s) n of
             Some d \<Rightarrow> fmupd n (d\<lparr>dr_expedited := True\<rparr>) (rs_deferred s)
           | None \<Rightarrow> rs_deferred s)
      | other \<Rightarrow> close_map (rs_deferred s) (deferral_change other))"

definition fold_released :: "run_state \<Rightarrow> event \<Rightarrow> released_drive option" where
  "fold_released s e =
     (case ev_payload e of
        Drive_Released wake_at ns \<Rightarrow>
          Some \<lparr> rl_seq = ev_seq e, rl_wake_at_ms = wake_at, rl_nodes = ns \<rparr>
      | Node_Started _ _ \<Rightarrow> None
      | Attempt_Started _ \<Rightarrow> None
      | Run_Paused _ \<Rightarrow> None
      | Run_Resumed _ \<Rightarrow> None
      | Run_Aborted _ _ \<Rightarrow> None
      | Run_Finished _ \<Rightarrow> None
      | Retry_Deferred _ \<Rightarrow> None
      | _ \<Rightarrow> rs_released s)"

definition fold_deferral :: "run_state \<Rightarrow> event \<Rightarrow> run_state" where
  "fold_deferral s e = s\<lparr>rs_deferred := fold_deferred s e, rs_released := fold_released s e\<rparr>"

section \<open>One arm per event\<close>

definition on_node_started :: "run_state \<Rightarrow> nat \<Rightarrow> string \<Rightarrow> run_state" where
  "on_node_started s q n =
     ran_again
       (s\<lparr>rs_seqs := (rs_seqs s)\<lparr>ns_started := fmupd n q (ns_started (rs_seqs s))\<rparr>,
          rs_nodes := fmupd n Running (rs_nodes s),
          rs_route_suppressed := rs_route_suppressed s |-| {|n|},
          rs_refused_joins := rs_refused_joins s |-| {|n|},
          rs_stalled := rs_stalled s |-| {|n|}\<rparr>) n"

definition on_attempt_started :: "run_state \<Rightarrow> attempt_started \<Rightarrow> run_state" where
  "on_attempt_started s a =
     s\<lparr>rs_nodes := fmupd (as_node a) Running (rs_nodes s),
       rs_attempts := (if as_item a = None then fmupd (as_node a) (as_attempt a) (rs_attempts s)
                       else rs_attempts s)\<rparr>"

definition on_attempt_finished :: "run_state \<Rightarrow> attempt_finished \<Rightarrow> run_state" where
  "on_attempt_finished s a =
     (if af_item a \<noteq> None then s
      else s\<lparr>rs_rejected_outputs :=
               (case af_rejected_output a of
                  Some text \<Rightarrow> fmupd (af_node a) text (rs_rejected_outputs s)
                | None \<Rightarrow> rs_rejected_outputs s),
             rs_stalled := (if af_stalled a then finsert (af_node a) (rs_stalled s)
                            else rs_stalled s |-| {|af_node a|})\<rparr>)"

definition on_node_finished :: "run_state \<Rightarrow> nat \<Rightarrow> node_finished \<Rightarrow> run_state" where
  "on_node_finished s0 q f =
     (let n = nf_node f; st = from_label (nf_status f);
          s = ran_again
                (s0\<lparr>rs_seqs := (rs_seqs s0)\<lparr>ns_finished := fmupd n q (ns_finished (rs_seqs s0))\<rparr>\<rparr>) n
      in s\<lparr>rs_nodes := fmupd n st (rs_nodes s),
           rs_outputs := fmupd n (nf_output f) (rs_outputs s),
           rs_last_node := Some n,
           rs_finished_counts := fmupd n (fget (rs_finished_counts s) 0 n + 1) (rs_finished_counts s),
           rs_stalled := (if \<not> (st = Failed \<and> n |\<in>| rs_stalled s) then rs_stalled s |-| {|n|}
                          else rs_stalled s),
           rs_success_outputs :=
             (if st = Succeeded
              then fmupd n (fget (rs_success_outputs s) [] n @ [nf_output f]) (rs_success_outputs s)
              else rs_success_outputs s)\<rparr>)"

definition on_run_finished :: "run_state \<Rightarrow> string \<Rightarrow> run_state" where
  "on_run_finished s result =
     settle_waiting (end_owed_revivals
       (s\<lparr>rs_run_status := (if result = ''succeeded'' then Run_Succeeded else Run_Failed)\<rparr>))"

definition on_run_aborted :: "run_state \<Rightarrow> run_state" where
  "on_run_aborted s = settle_waiting (end_owed_revivals (s\<lparr>rs_run_status := Run_Is_Aborted\<rparr>))"

definition on_decision_made :: "run_state \<Rightarrow> decision_made \<Rightarrow> run_state" where
  "on_decision_made s d =
     (case (dm_node d, dm_attempt d, dm_error d) of
        (Some n, Some execution, None) \<Rightarrow>
          if dm_use_site d = ''judge_edge'' then
            s\<lparr>rs_judge_edges :=
                fmupd n \<lparr> ja_execution = execution, ja_applied = dm_applied d,
                          ja_p = fmmap the (fmfilter (\<lambda>k. fget (dm_answers d) None k \<noteq> None) (dm_answers d)) \<rparr>
                  (rs_judge_edges s)\<rparr>
          else s
      | _ \<Rightarrow> s)"

definition on_edge_traversed :: "run_state \<Rightarrow> nat \<Rightarrow> edge_traversed \<Rightarrow> run_state" where
  "on_edge_traversed s q t =
     (let k = (et_from t, et_to t) in
      s\<lparr>rs_journaled_hops := finsert k (rs_journaled_hops s),
        rs_seqs := (rs_seqs s)\<lparr>ns_hops := fmupd k q (ns_hops (rs_seqs s))\<rparr>,
        rs_delivered :=
          (if et_to t |\<in>| rs_revived s \<and> et_from t |\<notin>| rs_revived s
           then finsert k (rs_delivered s) else rs_delivered s),
        rs_edge_counts :=
          (if \<not> et_via_policy t \<and> \<not> et_uncounted t
           then fmupd k (fget (rs_edge_counts s) 0 k + 1) (rs_edge_counts s)
           else rs_edge_counts s)\<rparr>)"

definition on_branch_failed :: "run_state \<Rightarrow> string \<Rightarrow> string \<Rightarrow> run_state" where
  "on_branch_failed s n policy =
     (if policy = branch_failure_str Fail_Fast
      then s\<lparr>rs_route_suppressed := finsert n (rs_route_suppressed s)\<rparr> else s)"

definition state_event :: "run_state \<Rightarrow> event \<Rightarrow> run_state" where
  "state_event s e =
     (case ev_payload e of
        Run_Started _ _ _ \<Rightarrow> s\<lparr>rs_run_status := Run_Running\<rparr>
      | Run_Provenance p \<Rightarrow>
          (if rs_previous_success s = None
           then s\<lparr>rs_previous_success := pv_previous_success p\<rparr> else s)
      | Node_Started n _ \<Rightarrow> on_node_started s (ev_seq e) n
      | Attempt_Started a \<Rightarrow> on_attempt_started s a
      | Attempt_Finished a \<Rightarrow> on_attempt_finished s a
      | Node_Finished f \<Rightarrow> on_node_finished s (ev_seq e) f
      | Run_Paused _ \<Rightarrow> s\<lparr>rs_run_status := Run_Is_Paused\<rparr>
      | Run_Resumed _ \<Rightarrow> s\<lparr>rs_run_status := Run_Running\<rparr>
      | Worktree_Resolved path _ _ \<Rightarrow>
          (if rs_worktree s = None then s\<lparr>rs_worktree := Some path\<rparr> else s)
      | Run_Finished result \<Rightarrow> on_run_finished s result
      | Run_Aborted _ _ \<Rightarrow> on_run_aborted s
      | Decision_Made d \<Rightarrow> on_decision_made s d
      | Nodes_Revived r \<Rightarrow> revive_from s (nr_from_node r) (nr_nodes r) (nr_superseded r)
      | Branch_Failed _ n policy _ \<Rightarrow> on_branch_failed s n policy
      | Branch_Cancelled _ n _ \<Rightarrow> s\<lparr>rs_route_suppressed := finsert n (rs_route_suppressed s)\<rparr>
      | Join_Refused n _ _ \<Rightarrow> s\<lparr>rs_refused_joins := finsert n (rs_refused_joins s)\<rparr>
      | Retry_Deferred d \<Rightarrow>
          (if df_node d \<noteq> [] then s\<lparr>rs_nodes := fmupd (df_node d) Retry_Waiting (rs_nodes s)\<rparr> else s)
      | Edge_Traversed t \<Rightarrow> on_edge_traversed s (ev_seq e) t
      | Run_Error n reason \<Rightarrow>
          s\<lparr>rs_failure_reason := Some \<lparr> fr_node = n, fr_reason = reason \<rparr>\<rparr>
      | Review_Decided d \<Rightarrow>
          s\<lparr>rs_reviews := fmupd (rv_node d) \<lparr> rd_decision = rv_decision d, rd_note = rv_note d \<rparr>
              (rs_reviews s)\<rparr>
      | _ \<Rightarrow> s)"

section \<open>The fold\<close>

type_synonym open_attempts = "(string \<times> string option) fset"

definition open_event :: "open_attempts \<Rightarrow> event_payload \<Rightarrow> open_attempts" where
  "open_event open p =
     (case p of
        Attempt_Started a \<Rightarrow> finsert (as_node a, as_item a) open
      | Attempt_Finished a \<Rightarrow> open |-| {|(af_node a, af_item a)|}
      | Node_Finished f \<Rightarrow> ffilter (\<lambda>(n, i). n \<noteq> nf_node f) open
      | _ \<Rightarrow> open)"

definition marker_event :: "bool \<Rightarrow> event_payload \<Rightarrow> bool" where
  "marker_event legacy p =
     (case p of Run_Paused _ \<Rightarrow> is_legacy_resume_marker p | _ \<Rightarrow> legacy)"

type_synonym fold_acc = "run_state \<times> open_attempts \<times> bool"

definition fold_event :: "fold_acc \<Rightarrow> event \<Rightarrow> fold_acc" where
  "fold_event acc e =
     (case acc of (s, open, legacy) \<Rightarrow>
        (state_event (fold_deferral s e) e, open_event open (ev_payload e),
         marker_event legacy (ev_payload e)))"

definition settle_open :: "fold_acc \<Rightarrow> run_state" where
  "settle_open acc =
     (case acc of (s, open, legacy) \<Rightarrow>
        if open = fempty then s
        else
          (let s1 = s\<lparr>rs_nodes := foldr (\<lambda>n m. fmupd n Interrupted m)
                        (sorted_list_of_fset (fimage fst open))
                        (rs_nodes s)\<rparr>;
               exempt = (case rs_run_status s of Run_Succeeded \<Rightarrow> True | Run_Failed \<Rightarrow> True
                         | Run_Is_Aborted \<Rightarrow> True | Run_Is_Paused \<Rightarrow> \<not> legacy | _ \<Rightarrow> False)
           in if exempt then s1 else s1\<lparr>rs_run_status := Run_Interrupted\<rparr>))"

definition fold_run :: "event list \<Rightarrow> run_state" where
  "fold_run events = settle_open (foldl fold_event (state_init, fempty, False) events)"

section \<open>Folding a journal\<close>

text \<open>
  Two ways a statement travels from one event to a whole journal: an invariant of the step, and a
  projection of the state that evolves on its own.
\<close>

locale journal_invariant =
  fixes stp :: "'s \<Rightarrow> event \<Rightarrow> 's"
    and ini :: 's
    and inv :: "'s \<Rightarrow> bool"
  assumes inv_init: "inv ini"
    and inv_step: "inv s \<Longrightarrow> inv (stp s e)"
begin

lemma inv_fold: "inv (foldl stp ini es)"
proof (induction es rule: rev_induct)
  case Nil
  then show ?case by (simp add: inv_init)
next
  case (snoc e es)
  then show ?case by (simp add: inv_step)
qed

end

locale journal_projection =
  fixes stp :: "'s \<Rightarrow> event \<Rightarrow> 's"
    and ini :: 's
    and view :: "'s \<Rightarrow> 'v"
    and vstp :: "'v \<Rightarrow> event \<Rightarrow> 'v"
  assumes view_step: "view (stp s e) = vstp (view s) e"
begin

lemma view_fold: "view (foldl stp ini es) = foldl vstp (view ini) es"
  by (induction es rule: rev_induct) (simp_all add: view_step)

end

abbreviation fold_init :: fold_acc where
  "fold_init \<equiv> (state_init, fempty, False)"

lemma settle_revivals_frame [fold_simps]:
  "rs_run_status (settle_revivals s) = rs_run_status s"
  "rs_nodes (settle_revivals s) = rs_nodes s"
  "rs_attempts (settle_revivals s) = rs_attempts s"
  "rs_outputs (settle_revivals s) = rs_outputs s"
  "rs_edge_counts (settle_revivals s) = rs_edge_counts s"
  "rs_journaled_hops (settle_revivals s) = rs_journaled_hops s"
  "rs_finished_counts (settle_revivals s) = rs_finished_counts s"
  "rs_route_suppressed (settle_revivals s) = rs_route_suppressed s"
  "rs_refused_joins (settle_revivals s) = rs_refused_joins s"
  "rs_stalled (settle_revivals s) = rs_stalled s"
  "rs_seqs (settle_revivals s) = rs_seqs s"
  "rs_deferred (settle_revivals s) = rs_deferred s"
  "rs_success_outputs (settle_revivals s) = rs_success_outputs s"
  "rs_judge_edges (settle_revivals s) = rs_judge_edges s"
  by (simp_all add: settle_revivals_def Let_def)

lemma ran_again_frame [fold_simps]:
  "rs_run_status (ran_again s n) = rs_run_status s"
  "rs_nodes (ran_again s n) = rs_nodes s"
  "rs_attempts (ran_again s n) = rs_attempts s"
  "rs_outputs (ran_again s n) = rs_outputs s"
  "rs_edge_counts (ran_again s n) = rs_edge_counts s"
  "rs_finished_counts (ran_again s n) = rs_finished_counts s"
  "rs_route_suppressed (ran_again s n) = rs_route_suppressed s"
  "rs_refused_joins (ran_again s n) = rs_refused_joins s"
  "rs_stalled (ran_again s n) = rs_stalled s"
  "rs_seqs (ran_again s n) = rs_seqs s"
  "rs_deferred (ran_again s n) = rs_deferred s"
  "rs_success_outputs (ran_again s n) = rs_success_outputs s"
  by (simp_all add: ran_again_def fold_simps)

lemma revive_from_frame [fold_simps]:
  "rs_run_status (revive_from s n ns sp) = rs_run_status s"
  "rs_nodes (revive_from s n ns sp) = rs_nodes s"
  "rs_edge_counts (revive_from s n ns sp) = rs_edge_counts s"
  "rs_journaled_hops (revive_from s n ns sp) = rs_journaled_hops s"
  "rs_finished_counts (revive_from s n ns sp) = rs_finished_counts s"
  "rs_seqs (revive_from s n ns sp) = rs_seqs s"
  "rs_deferred (revive_from s n ns sp) = rs_deferred s"
  "rs_success_outputs (revive_from s n ns sp) = rs_success_outputs s"
  by (simp_all add: revive_from_def Let_def fold_simps)

lemma end_owed_frame [fold_simps]:
  "rs_run_status (end_owed_revivals s) = rs_run_status s"
  "rs_nodes (end_owed_revivals s) = rs_nodes s"
  "rs_edge_counts (end_owed_revivals s) = rs_edge_counts s"
  "rs_finished_counts (end_owed_revivals s) = rs_finished_counts s"
  "rs_seqs (end_owed_revivals s) = rs_seqs s"
  "rs_deferred (end_owed_revivals s) = rs_deferred s"
  "rs_success_outputs (end_owed_revivals s) = rs_success_outputs s"
  by (simp_all add: end_owed_revivals_def fold_simps)

lemma settle_waiting_frame [fold_simps]:
  "rs_run_status (settle_waiting s) = rs_run_status s"
  "rs_edge_counts (settle_waiting s) = rs_edge_counts s"
  "rs_finished_counts (settle_waiting s) = rs_finished_counts s"
  "rs_seqs (settle_waiting s) = rs_seqs s"
  "rs_deferred (settle_waiting s) = rs_deferred s"
  "rs_success_outputs (settle_waiting s) = rs_success_outputs s"
  "rs_revivals (settle_waiting s) = rs_revivals s"
  "rs_revived (settle_waiting s) = rs_revived s"
  "rs_revival_starts (settle_waiting s) = rs_revival_starts s"
  "rs_delivered (settle_waiting s) = rs_delivered s"
  by (simp_all add: settle_waiting_def)

lemma fold_deferral_frame [fold_simps]:
  "rs_run_status (fold_deferral s e) = rs_run_status s"
  "rs_nodes (fold_deferral s e) = rs_nodes s"
  "rs_edge_counts (fold_deferral s e) = rs_edge_counts s"
  "rs_finished_counts (fold_deferral s e) = rs_finished_counts s"
  "rs_seqs (fold_deferral s e) = rs_seqs s"
  "rs_success_outputs (fold_deferral s e) = rs_success_outputs s"
  "rs_revivals (fold_deferral s e) = rs_revivals s"
  "rs_revived (fold_deferral s e) = rs_revived s"
  "rs_revival_starts (fold_deferral s e) = rs_revival_starts s"
  "rs_delivered (fold_deferral s e) = rs_delivered s"
  by (simp_all add: fold_deferral_def)

lemma settle_open_frame [fold_simps]:
  "rs_edge_counts (settle_open (s, o1, l)) = rs_edge_counts s"
  "rs_finished_counts (settle_open (s, o1, l)) = rs_finished_counts s"
  "rs_seqs (settle_open (s, o1, l)) = rs_seqs s"
  "rs_deferred (settle_open (s, o1, l)) = rs_deferred s"
  "rs_success_outputs (settle_open (s, o1, l)) = rs_success_outputs s"
  "rs_revivals (settle_open (s, o1, l)) = rs_revivals s"
  "rs_revived (settle_open (s, o1, l)) = rs_revived s"
  "rs_revival_starts (settle_open (s, o1, l)) = rs_revival_starts s"
  "rs_delivered (settle_open (s, o1, l)) = rs_delivered s"
  by (simp_all add: settle_open_def Let_def)

lemmas arm_defs = on_node_started_def on_attempt_started_def on_attempt_finished_def
  on_node_finished_def on_run_finished_def on_run_aborted_def on_decision_made_def
  on_edge_traversed_def on_branch_failed_def Let_def

lemma fst_fold_event: "fst (fold_event acc e) = state_event (fold_deferral (fst acc) e) e"
  by (simp add: fold_event_def split: prod.splits)

lemma fold_run_frame:
  "rs_edge_counts (fold_run es) = rs_edge_counts (fst (foldl fold_event fold_init es))"
  "rs_finished_counts (fold_run es) = rs_finished_counts (fst (foldl fold_event fold_init es))"
  "rs_seqs (fold_run es) = rs_seqs (fst (foldl fold_event fold_init es))"
  "rs_deferred (fold_run es) = rs_deferred (fst (foldl fold_event fold_init es))"
  "rs_success_outputs (fold_run es) = rs_success_outputs (fst (foldl fold_event fold_init es))"
  by (cases "foldl fold_event fold_init es"; simp add: fold_run_def fold_simps)+

section \<open>Counters and histories\<close>

definition counted_hop :: "string \<times> string \<Rightarrow> event \<Rightarrow> bool" where
  "counted_hop k e =
     (case ev_payload e of
        Edge_Traversed t \<Rightarrow> (et_from t, et_to t) = k \<and> \<not> et_via_policy t \<and> \<not> et_uncounted t
      | _ \<Rightarrow> False)"

definition finish_of :: "string \<Rightarrow> event \<Rightarrow> node_finished option" where
  "finish_of n e =
     (case ev_payload e of Node_Finished f \<Rightarrow> if nf_node f = n then Some f else None | _ \<Rightarrow> None)"

lemma state_event_edge_counts:
  "fget (rs_edge_counts (state_event s e)) 0 k =
    fget (rs_edge_counts s) 0 k + (if counted_hop k e then 1 else 0)"
  by (cases "ev_payload e")
    (auto simp: state_event_def counted_hop_def arm_defs fold_simps split: option.splits)

interpretation edge_counts: journal_projection fold_event fold_init
  "\<lambda>acc. fget (rs_edge_counts (fst acc)) 0 k" "\<lambda>c e. c + (if counted_hop k e then 1 else 0)" for k
  by unfold_locales (simp add: fst_fold_event state_event_edge_counts fold_simps)

lemma foldl_count:
  "foldl (\<lambda>c e. c + (if P e then 1 else 0)) a es = a + of_nat (length (filter P es))"
  by (induction es arbitrary: a) (simp_all add: algebra_simps)

lemma edge_counts_fold:
  "fget (rs_edge_counts (fold_run es)) 0 k = of_nat (length (filter (counted_hop k) es))"
  using edge_counts.view_fold [where k = k and es = es] by (simp add: fold_run_frame foldl_count state_init_def)

text \<open>
  The traversal count of a bounded edge is exactly the number of its counted hops in the
  journal (policy routes and uncounted routing decisions never spend it), modulo the 32-bit
  counter.
\<close>

theorem edge_count_exact:
  "fget (rs_edge_counts (fold_run es)) 0 k = of_nat (length (filter (counted_hop k) es))"
  by (rule edge_counts_fold)

definition successes :: "string \<Rightarrow> event list \<Rightarrow> string list" where
  "successes n es =
     concat (map (\<lambda>e. case finish_of n e of
                        Some f \<Rightarrow> if from_label (nf_status f) = Succeeded then [nf_output f] else []
                      | None \<Rightarrow> []) es)"

lemma successes_snoc: "successes n (es @ [e]) = successes n es @ successes n [e]"
  by (simp add: successes_def)

lemma state_event_finished:
  "fget (rs_finished_counts (state_event s e)) 0 n =
    fget (rs_finished_counts s) 0 n + (if finish_of n e \<noteq> None then 1 else 0)"
  by (cases "ev_payload e")
    (auto simp: state_event_def finish_of_def arm_defs fold_simps split: option.splits)

lemma state_event_successes:
  "fget (rs_success_outputs (state_event s e)) [] n =
    fget (rs_success_outputs s) [] n @ successes n [e]"
  by (cases "ev_payload e")
    (auto simp: state_event_def finish_of_def successes_def arm_defs fold_simps split: option.splits)

interpretation finish_counts: journal_projection fold_event fold_init
  "\<lambda>acc. fget (rs_finished_counts (fst acc)) 0 n" "\<lambda>c e. c + (if finish_of n e \<noteq> None then 1 else 0)" for n
  by unfold_locales (simp only: fst_fold_event state_event_finished fold_simps)

interpretation success_history: journal_projection fold_event fold_init
  "\<lambda>acc. fget (rs_success_outputs (fst acc)) [] n" "\<lambda>os e. os @ successes n [e]" for n
  by unfold_locales (simp only: fst_fold_event state_event_successes fold_simps)

lemma foldl_successes: "foldl (\<lambda>os e. os @ successes n [e]) a es = a @ successes n es"
  by (induction es rule: rev_induct) (simp_all add: successes_snoc, simp add: successes_def)

text \<open>
  A node's history of successful outputs is the outputs of its \<^verbatim>\<open>succeeded\<close>
  finishes in journal order, each once: revivals, patches and failed visits never remove or add an
  entry; and its finish count is the number of its finishes, modulo the 32-bit counter.
\<close>

theorem success_history_exact:
  "fget (rs_success_outputs (fold_run es)) [] n = successes n es
   \<and> fget (rs_finished_counts (fold_run es)) 0 n =
       of_nat (length (filter (\<lambda>e. finish_of n e \<noteq> None) es))"
  using success_history.view_fold [where n = n and es = es]
    finish_counts.view_fold [where n = n and es = es]
  by (simp add: fold_run_frame foldl_successes foldl_count state_init_def)

section \<open>Deferrals: the log's set and the state's map\<close>

lemma fold_deferred_keys:
  "fmdom (fold_deferred s e) = apply_change (fmdom (rs_deferred s)) (deferral_change (ev_payload e))"
proof (cases "ev_payload e")
  case (Retry_Deferred d)
  then show ?thesis
    by (simp add: fold_deferred_def deferral_change_def guard_simps close_set_map close_set_def close_def)
next
  case (Retry_Expedited n who)
  then show ?thesis
    by (auto simp: fold_deferred_def deferral_change_def guard_simps split: option.splits
        intro: fmdomI fset_eqI)
qed (simp_all add: fold_deferred_def deferral_change_def close_set_map apply_change_def close_set_def close_def)

lemma state_event_deferred: "rs_deferred (state_event s e) = rs_deferred s"
  by (cases "ev_payload e")
    (auto simp: state_event_def arm_defs fold_simps split: option.splits)

interpretation deferral_keys: journal_projection fold_event fold_init
  "\<lambda>acc. fmdom (rs_deferred (fst acc))" "\<lambda>o1 e. apply_change o1 (deferral_change (ev_payload e))"
  by unfold_locales (simp add: fst_fold_event state_event_deferred fold_deferral_def fold_deferred_keys)

text \<open>
  C4: the run state and the event log's guard agree on which retries are open: the nodes of
  \<^verbatim>\<open>RunState.deferred\<close> are exactly the log's open deferrals after any journal, although
  the two keep different structures and are updated by different code.
\<close>

theorem deferred_nodes_agree:
  "fmdom (rs_deferred (fold_run es)) = fold_open_deferrals es"
  using deferral_keys.view_fold [of es]
  by (simp add: fold_run_frame fold_open_deferrals_def state_init_def)

section \<open>The revival overlay\<close>

definition revival_inv :: "run_state \<Rightarrow> bool" where
  "revival_inv s =
     (fset (rs_revived s) = (\<Union>r\<in>set (rs_revivals s). fset (re_nodes r))
      \<and> fset (rs_revival_starts s) =
          {re_from_node r | r. r \<in> set (rs_revivals s) \<and> re_from_node r |\<in>| re_nodes r}
      \<and> (\<forall>r\<in>set (rs_revivals s). re_nodes r \<noteq> fempty)
      \<and> (\<forall>f t. (f, t) |\<in>| rs_delivered s \<longrightarrow> t |\<in>| rs_revived s))"

lemma foldr_union_fset:
  "fset (foldr (\<lambda>r acc. g r |\<union>| acc) rs fempty) = (\<Union>r\<in>set rs. fset (g r))"
  by (induction rs) auto

lemma settle_revival_inv: "revival_inv (settle_revivals s)"
  unfolding revival_inv_def settle_revivals_def Let_def
  by (auto simp: foldr_union_fset fset_of_list.rep_eq)

lemma settle_waiting_inv [fold_simps]: "revival_inv (settle_waiting s) = revival_inv s"
  by (simp add: revival_inv_def fold_simps)

lemma fold_deferral_inv [fold_simps]: "revival_inv (fold_deferral s e) = revival_inv s"
  by (simp add: revival_inv_def fold_simps)

lemma ran_again_inv: "revival_inv s \<Longrightarrow> revival_inv (ran_again s n)"
  by (simp add: ran_again_def settle_revival_inv)

lemma revival_inv_cong:
  "rs_revivals s' = rs_revivals s \<Longrightarrow> rs_revived s' = rs_revived s \<Longrightarrow>
    rs_revival_starts s' = rs_revival_starts s \<Longrightarrow> rs_delivered s' = rs_delivered s \<Longrightarrow>
    revival_inv s' = revival_inv s"
  by (simp add: revival_inv_def)

lemma on_node_started_inv: "revival_inv s \<Longrightarrow> revival_inv (on_node_started s q n)"
  unfolding on_node_started_def
  by (rule ran_again_inv, subst revival_inv_cong [of _ s]) simp_all

lemma on_node_finished_inv: "revival_inv s \<Longrightarrow> revival_inv (on_node_finished s q f)"
proof -
  assume i: "revival_inv s"
  let ?s = "ran_again (s\<lparr>rs_seqs := (rs_seqs s)\<lparr>ns_finished := fmupd (nf_node f) q
      (ns_finished (rs_seqs s))\<rparr>\<rparr>) (nf_node f)"
  have "revival_inv ?s"
    by (rule ran_again_inv, subst revival_inv_cong [of _ s]) (simp_all add: i)
  then show ?thesis
    by (subst revival_inv_cong [of _ ?s]) (simp_all add: on_node_finished_def Let_def)
qed

lemma on_edge_traversed_inv: "revival_inv s \<Longrightarrow> revival_inv (on_edge_traversed s q t)"
  by (auto simp: revival_inv_def on_edge_traversed_def Let_def)

lemma state_event_revival: "revival_inv s \<Longrightarrow> revival_inv (state_event s e)"
proof (cases "ev_payload e")
  case (Node_Started n a)
  then show "revival_inv s \<Longrightarrow> ?thesis" by (simp add: state_event_def on_node_started_inv)
next
  case (Node_Finished f)
  then show "revival_inv s \<Longrightarrow> ?thesis" by (simp add: state_event_def on_node_finished_inv)
next
  case (Edge_Traversed t)
  then show "revival_inv s \<Longrightarrow> ?thesis" by (simp add: state_event_def on_edge_traversed_inv)
next
  case (Nodes_Revived r)
  then show ?thesis by (simp add: state_event_def revive_from_def Let_def settle_revival_inv)
next
  case (Run_Finished r)
  then show ?thesis
    by (simp add: state_event_def on_run_finished_def end_owed_revivals_def fold_simps settle_revival_inv)
next
  case (Run_Aborted r w)
  then show ?thesis
    by (simp add: state_event_def on_run_aborted_def end_owed_revivals_def fold_simps settle_revival_inv)
qed (auto simp: state_event_def revival_inv_def on_attempt_started_def on_attempt_finished_def
    on_decision_made_def on_branch_failed_def split: option.splits)

interpretation revivals: journal_invariant fold_event fold_init "\<lambda>acc. revival_inv (fst acc)"
  by unfold_locales
    (simp_all add: fst_fold_event fold_simps state_event_revival, simp add: revival_inv_def state_init_def)

lemma fold_run_fst:
  obtains s op lg where "foldl fold_event fold_init es = (s, op, lg)" "fold_run es = settle_open (s, op, lg)"
  by (cases "foldl fold_event fold_init es") (simp add: fold_run_def)

lemma settle_open_inv: "revival_inv (settle_open (s, op, lg)) = revival_inv s"
  by (simp add: revival_inv_def fold_simps)


section \<open>A terminal journal\<close>

lemma end_owed_starts: "rs_revival_starts (end_owed_revivals s) = fempty"
proof -
  have "revival_inv (end_owed_revivals s)"
    by (simp add: end_owed_revivals_def settle_revival_inv)
  moreover have "rs_revivals (end_owed_revivals s) = filter (\<lambda>r. re_nodes r \<noteq> fempty)
      (filter (\<lambda>r. re_from_node r |\<notin>| re_nodes r) (rs_revivals s))"
    by (simp add: end_owed_revivals_def settle_revivals_def Let_def)
  ultimately have "fset (rs_revival_starts (end_owed_revivals s)) = {}"
    by (auto simp: revival_inv_def)
  then show ?thesis by (intro fset_eqI) auto
qed

lemma settle_waiting_none: "fmlookup (rs_nodes (settle_waiting s)) n \<noteq> Some Retry_Waiting"
  by (auto simp: settle_waiting_def)

lemma interrupted_nodes:
  "fmlookup (foldr (\<lambda>n m. fmupd n Interrupted m) ns m) x =
    (if x \<in> set ns then Some Interrupted else fmlookup m x)"
  by (induction ns) auto

lemma settle_open_nodes:
  "fmlookup (rs_nodes (settle_open (s, op, lg))) x =
    (if \<exists>i. (x, i) |\<in>| op then Some Interrupted else fmlookup (rs_nodes s) x)"
proof (cases "op = fempty")
  case True
  then show ?thesis by (simp add: settle_open_def)
next
  case False
  have "(x \<in> set (sorted_list_of_fset (fimage fst op))) = (\<exists>i. (x, i) |\<in>| op)"
    by (force simp: image_iff)
  then show ?thesis using False
    by (auto simp: settle_open_def Let_def interrupted_nodes)
qed

definition ends_run :: "event_payload \<Rightarrow> bool" where
  "ends_run p = (case p of Run_Finished _ \<Rightarrow> True | Run_Aborted _ _ \<Rightarrow> True | _ \<Rightarrow> False)"

text \<open>
  Once a run ends (finished or stopped), it owes no re-run, no retry is deferred, and no node
  is left waiting for one.
\<close>

theorem ended_run_waits_for_nothing:
  assumes "ends_run (ev_payload e)"
  shows "rs_revival_starts (fold_run (es @ [e])) = fempty
    \<and> rs_deferred (fold_run (es @ [e])) = fmempty
    \<and> fmlookup (rs_nodes (fold_run (es @ [e]))) n \<noteq> Some Retry_Waiting"
proof -
  obtain s op lg where f: "foldl fold_event fold_init es = (s, op, lg)" by (metis prod_cases3)
  let ?s = "state_event (fold_deferral s e) e"
  obtain op' lg' where r: "fold_run (es @ [e]) = settle_open (?s, op', lg')"
    using f by (simp add: fold_run_def fold_event_def)
  have "rs_revival_starts ?s = fempty" "fmlookup (rs_nodes ?s) n \<noteq> Some Retry_Waiting"
    using assms by (cases "ev_payload e"; simp add: ends_run_def state_event_def on_run_finished_def
        on_run_aborted_def fold_simps end_owed_starts settle_waiting_none)+
  moreover have "fmdom (rs_deferred (fold_run (es @ [e]))) = fempty"
    using assms deferral_keys.view_fold [of "es @ [e]"]
    by (cases "ev_payload e") (simp_all add: ends_run_def fold_run_frame deferral_change_def guard_simps)
  moreover have "m = fmempty" if "fmdom m = fempty" for m :: "(string, deferred_retry) fmap"
    using that by (metis fmdom_empty fmrestrict_fset_dom fmrestrict_fset_null)
  ultimately show ?thesis unfolding r by (simp add: fold_simps settle_open_nodes)
qed

theorem ended_run_waits_for_nothing_witness:
  "rs_revival_starts (fold_run ([] @ [\<lparr> ev_seq = 0, ev_ts = 0, ev_payload = Run_Aborted [] None \<rparr>])) = fempty
    \<and> rs_deferred (fold_run ([] @ [\<lparr> ev_seq = 0, ev_ts = 0, ev_payload = Run_Aborted [] None \<rparr>])) = fmempty
    \<and> fmlookup (rs_nodes (fold_run ([] @ [\<lparr> ev_seq = 0, ev_ts = 0,
          ev_payload = Run_Aborted [] None \<rparr>]))) ''a'' \<noteq> Some Retry_Waiting"
  by (rule ended_run_waits_for_nothing) (simp add: ends_run_def)

section \<open>Run status and interrupted nodes\<close>

definition status_of :: "event_payload \<Rightarrow> run_status option" where
  "status_of p =
     (case p of Run_Started _ _ _ \<Rightarrow> Some Run_Running | Run_Paused _ \<Rightarrow> Some Run_Is_Paused
      | Run_Resumed _ \<Rightarrow> Some Run_Running
      | Run_Finished r \<Rightarrow> Some (if r = ''succeeded'' then Run_Succeeded else Run_Failed)
      | Run_Aborted _ _ \<Rightarrow> Some Run_Is_Aborted | _ \<Rightarrow> None)"

lemma state_event_status:
  "rs_run_status (state_event s e) =
    (case status_of (ev_payload e) of Some st \<Rightarrow> st | None \<Rightarrow> rs_run_status s)"
  by (cases "ev_payload e")
    (auto simp: state_event_def status_of_def arm_defs fold_simps split: option.splits)

lemma foldl_fold_event_quiet:
  "\<forall>y\<in>set ys. status_of (ev_payload y) = None \<Longrightarrow>
    \<exists>s' op'. foldl fold_event (s, op, lg) ys = (s', op', lg) \<and> rs_run_status s' = rs_run_status s"
proof (induction ys arbitrary: s op)
  case Nil
  then show ?case by simp
next
  case (Cons y ys)
  have "marker_event lg (ev_payload y) = lg"
    using Cons.prems by (auto simp: marker_event_def status_of_def split: event_payload.splits)
  then have "fold_event (s, op, lg) y = (state_event (fold_deferral s y) y, open_event op (ev_payload y), lg)"
    by (simp add: fold_event_def)
  then show ?case
    using Cons.IH [of "state_event (fold_deferral s y) y" "open_event op (ev_payload y)"] Cons.prems
    by (auto simp: state_event_status fold_simps)
qed

definition final_verdict :: "event_payload \<Rightarrow> bool" where
  "final_verdict p = (ends_run p \<or> (case p of Run_Paused r \<Rightarrow> \<not> is_legacy_resume_marker p | _ \<Rightarrow> False))"

lemma verdict_stands:
  assumes "final_verdict (ev_payload e)" "\<forall>y\<in>set ys. status_of (ev_payload y) = None"
  shows "rs_run_status (fold_run (xs @ e # ys)) = the (status_of (ev_payload e))"
proof -
  obtain s op lg where f: "foldl fold_event fold_init xs = (s, op, lg)" by (metis prod_cases3)
  let ?s = "state_event (fold_deferral s e) e"
  let ?lg = "marker_event lg (ev_payload e)"
  obtain s' op' where r: "foldl fold_event (?s, open_event op (ev_payload e), ?lg) ys = (s', op', ?lg)"
    "rs_run_status s' = rs_run_status ?s"
    using foldl_fold_event_quiet [OF assms(2)] by blast
  have fr: "fold_run (xs @ e # ys) = settle_open (s', op', ?lg)"
    using f r(1) by (simp add: fold_run_def fold_event_def)
  have st: "rs_run_status s' = the (status_of (ev_payload e))"
    using assms(1) r(2)
    by (auto simp: final_verdict_def ends_run_def state_event_status status_of_def
        split: event_payload.splits)
  show ?thesis
    using assms(1) st unfolding fr
    by (auto simp: final_verdict_def ends_run_def settle_open_def status_of_def marker_event_def Let_def
        split: event_payload.splits)
qed

text \<open>
  A verdict stands: after a stop, an end or a real pause, as long as no later event changes
  the run's status, the folded status is that verdict even when a dead driver left attempts open,
  so a stopped run is never downgraded to interrupted.
\<close>

theorem recorded_verdict_stands:
  assumes "final_verdict (ev_payload e)" "\<forall>y\<in>set ys. status_of (ev_payload y) = None"
  shows "rs_run_status (fold_run (xs @ e # ys)) = the (status_of (ev_payload e))"
  using assms by (rule verdict_stands)

theorem recorded_verdict_stands_witness:
  "rs_run_status (fold_run ([\<lparr> ev_seq = 0, ev_ts = 0, ev_payload = Node_Started ''a'' 1 \<rparr>]
      @ \<lparr> ev_seq = 1, ev_ts = 0, ev_payload = Run_Aborted [] None \<rparr> # [])) =
    the (status_of (Run_Aborted [] None))"
  using recorded_verdict_stands [of "\<lparr> ev_seq = 1, ev_ts = 0, ev_payload = Run_Aborted [] None \<rparr>" "[]"
      "[\<lparr> ev_seq = 0, ev_ts = 0, ev_payload = Node_Started ''a'' 1 \<rparr>]"]
  by (simp add: final_verdict_def ends_run_def)

definition starts_attempt :: "string \<times> string option \<Rightarrow> event_payload \<Rightarrow> bool" where
  "starts_attempt k p = (case p of Attempt_Started a \<Rightarrow> (as_node a, as_item a) = k | _ \<Rightarrow> False)"

definition closes_attempt :: "string \<times> string option \<Rightarrow> event_payload \<Rightarrow> bool" where
  "closes_attempt k p =
     (case p of Attempt_Finished a \<Rightarrow> (af_node a, af_item a) = k
      | Node_Finished f \<Rightarrow> nf_node f = fst k | _ \<Rightarrow> False)"

lemma open_event_iff:
  "(k |\<in>| open_event op p) = (starts_attempt k p \<or> k |\<in>| op \<and> \<not> closes_attempt k p)"
  by (cases p) (auto simp: open_event_def starts_attempt_def closes_attempt_def)

interpretation open_attempts: journal_projection fold_event fold_init
  "\<lambda>acc. k |\<in>| fst (snd acc)"
  "\<lambda>b e. starts_attempt k (ev_payload e) \<or> b \<and> \<not> closes_attempt k (ev_payload e)" for k
  by unfold_locales (simp add: fold_event_def open_event_iff split: prod.splits)

lemma starts_not_closes: "starts_attempt k p \<Longrightarrow> \<not> closes_attempt k p"
  by (cases p) (simp_all add: starts_attempt_def closes_attempt_def)

lemma open_fold_iff:
  "foldl (\<lambda>b e. starts_attempt k (ev_payload e) \<or> b \<and> \<not> closes_attempt k (ev_payload e)) False es =
    (\<exists>xs e ys. es = xs @ e # ys \<and> starts_attempt k (ev_payload e)
       \<and> (\<forall>y\<in>set ys. \<not> closes_attempt k (ev_payload y)))"
  by (rule last_wins)

text \<open>
  A node reads interrupted because of its attempts exactly when one was started and neither
  finished nor closed by the node's own finish; every other node keeps the status the journal gave
  it.
\<close>

theorem open_attempt_interrupts:
  "fmlookup (rs_nodes (fold_run es)) n =
    (if \<exists>i xs e ys. es = xs @ e # ys \<and> starts_attempt (n, i) (ev_payload e)
          \<and> (\<forall>y\<in>set ys. \<not> closes_attempt (n, i) (ev_payload y))
     then Some Interrupted
     else fmlookup (rs_nodes (fst (foldl fold_event fold_init es))) n)"
proof -
  obtain s op lg where f: "foldl fold_event fold_init es = (s, op, lg)"
    "fold_run es = settle_open (s, op, lg)" by (rule fold_run_fst)
  have K: "(k |\<in>| op) = (\<exists>xs e ys. es = xs @ e # ys \<and> starts_attempt k (ev_payload e)
      \<and> (\<forall>y\<in>set ys. \<not> closes_attempt k (ev_payload y)))" for k
    using open_attempts.view_fold [where k = k and es = es] f(1) open_fold_iff [of k es] by simp
  show ?thesis unfolding f(2) settle_open_nodes K f(1) fst_conv ..
qed

theorem open_attempt_interrupts_witness:
  "fmlookup (rs_nodes (fold_run (numbered 0 [attempt_event ''a'', attempt_event ''b'',
      finished_event ''b'' ''succeeded'' []]))) ''a'' = Some Interrupted"
proof -
  let ?es = "numbered 0 [attempt_event ''a'', attempt_event ''b'', finished_event ''b'' ''succeeded'' []]"
  have "?es = [] @ hd ?es # tl ?es \<and> starts_attempt (''a'', None) (ev_payload (hd ?es))
      \<and> (\<forall>y\<in>set (tl ?es). \<not> closes_attempt (''a'', None) (ev_payload y))"
    by (simp add: attempt_event_def finished_event_def starts_attempt_def closes_attempt_def)
  then have "\<exists>i xs e ys. ?es = xs @ e # ys \<and> starts_attempt (''a'', i) (ev_payload e)
      \<and> (\<forall>y\<in>set ys. \<not> closes_attempt (''a'', i) (ev_payload y))" by blast
  then show ?thesis unfolding open_attempt_interrupts by (simp only: if_True)
qed

section \<open>A re-run leaves the overlay\<close>

definition runs_node :: "string \<Rightarrow> event_payload \<Rightarrow> bool" where
  "runs_node n p = (case p of Node_Started m _ \<Rightarrow> m = n | Node_Finished f \<Rightarrow> nf_node f = n | _ \<Rightarrow> False)"

lemma settle_revivals_revived:
  "fset (rs_revived (settle_revivals s)) = (\<Union>r\<in>set (rs_revivals s). fset (re_nodes r))"
  by (auto simp: settle_revivals_def Let_def foldr_union_fset)

lemma ran_again_revived:
  "revival_inv s \<Longrightarrow> fset (rs_revived (ran_again s n)) = fset (rs_revived s) - {n}"
  by (auto simp: ran_again_def settle_revivals_revived revival_inv_def)

lemma ran_again_hops:
  "n |\<in>| rs_revived s \<Longrightarrow> (n, t) |\<notin>| rs_journaled_hops (ran_again s n)"
  by (simp add: ran_again_def fold_simps)

lemma settle_open_hops: "rs_journaled_hops (settle_open (s, op, lg)) = rs_journaled_hops s"
  by (simp add: settle_open_def Let_def)

lemma state_event_runs_node:
  assumes "runs_node n (ev_payload e)" "revival_inv s"
  shows "fset (rs_revived (state_event s e)) = fset (rs_revived s) - {n}"
    and "n |\<in>| rs_revived s \<Longrightarrow> (n, t) |\<notin>| rs_journaled_hops (state_event s e)"
  using assms ran_again_revived [of _ n] ran_again_hops [of n]
  by (cases "ev_payload e";
      simp add: runs_node_def state_event_def on_node_started_def on_node_finished_def Let_def
        revival_inv_cong [of "s\<lparr>rs_seqs := x, rs_nodes := y, rs_route_suppressed := z,
          rs_refused_joins := w, rs_stalled := v\<rparr>" s for x y z w v]
        revival_inv_cong [of "s\<lparr>rs_seqs := x\<rparr>" s for x])+

text \<open>
  Starting or finishing a node takes exactly that node out of the revival overlay, and the
  hops its earlier pass recorded are gone, so routing no longer reads them.
\<close>

theorem rerun_leaves_overlay:
  assumes "runs_node n (ev_payload e)"
  shows "fset (rs_revived (fold_run (es @ [e]))) = fset (rs_revived (fold_run es)) - {n}
    \<and> (n |\<in>| rs_revived (fold_run es) \<longrightarrow> \<not> routes (fold_run (es @ [e])) n t)"
proof -
  obtain s op lg where f: "foldl fold_event fold_init es = (s, op, lg)"
    "fold_run es = settle_open (s, op, lg)" by (rule fold_run_fst)
  let ?s = "state_event (fold_deferral s e) e"
  obtain op' lg' where r: "fold_run (es @ [e]) = settle_open (?s, op', lg')"
    using f by (simp add: fold_run_def fold_event_def)
  have i: "revival_inv (fold_deferral s e)"
    using revivals.inv_fold [of es] f(1) by (simp add: fold_simps)
  show ?thesis
    using state_event_runs_node [OF assms i] unfolding r f(2)
    by (auto simp: fold_simps settle_open_hops routes_def)
qed

theorem rerun_leaves_overlay_witness:
  "fset (rs_revived (fold_run ([\<lparr> ev_seq = 0, ev_ts = 0, ev_payload = revived_event ''a'' [''a'', ''b''] [] \<rparr>]
      @ [\<lparr> ev_seq = 1, ev_ts = 0, ev_payload = Node_Started ''a'' 1 \<rparr>]))) =
    fset (rs_revived (fold_run [\<lparr> ev_seq = 0, ev_ts = 0, ev_payload = revived_event ''a'' [''a'', ''b''] [] \<rparr>]))
      - {''a''}"
  by (rule conjunct1 [OF rerun_leaves_overlay]) (simp add: runs_node_def)

section \<open>Positions of the latest execution\<close>

definition last_seq :: "(event \<Rightarrow> bool) \<Rightarrow> event list \<Rightarrow> nat option" where
  "last_seq P es = foldl (\<lambda>q e. if P e then Some (ev_seq e) else q) None es"

definition starts_node :: "string \<Rightarrow> event \<Rightarrow> bool" where
  "starts_node n e = (case ev_payload e of Node_Started m _ \<Rightarrow> m = n | _ \<Rightarrow> False)"

definition traverses :: "string \<Rightarrow> string \<Rightarrow> event \<Rightarrow> bool" where
  "traverses f t e =
     (case ev_payload e of Edge_Traversed x \<Rightarrow> et_from x = f \<and> et_to x = t | _ \<Rightarrow> False)"

lemma state_event_seqs:
  "fmlookup (ns_started (rs_seqs (state_event s e))) n =
    (if starts_node n e then Some (ev_seq e) else fmlookup (ns_started (rs_seqs s)) n)"
  "fmlookup (ns_finished (rs_seqs (state_event s e))) n =
    (if finish_of n e \<noteq> None then Some (ev_seq e) else fmlookup (ns_finished (rs_seqs s)) n)"
  "fmlookup (ns_hops (rs_seqs (state_event s e))) (f, t) =
    (if traverses f t e then Some (ev_seq e) else fmlookup (ns_hops (rs_seqs s)) (f, t))"
  by (cases "ev_payload e";
      auto simp: state_event_def starts_node_def finish_of_def traverses_def arm_defs fold_simps
        split: option.splits)+

interpretation start_position: journal_projection fold_event fold_init
  "\<lambda>acc. fmlookup (ns_started (rs_seqs (fst acc))) n" "\<lambda>q e. if starts_node n e then Some (ev_seq e) else q" for n
  by unfold_locales (simp only: fst_fold_event state_event_seqs fold_simps)

interpretation hop_position: journal_projection fold_event fold_init
  "\<lambda>acc. fmlookup (ns_hops (rs_seqs (fst acc))) (f, t)" "\<lambda>q e. if traverses f t e then Some (ev_seq e) else q" for f t
  by unfold_locales (simp only: fst_fold_event state_event_seqs fold_simps)

interpretation finish_position: journal_projection fold_event fold_init
  "\<lambda>acc. fmlookup (ns_finished (rs_seqs (fst acc))) n"
  "\<lambda>q e. if finish_of n e \<noteq> None then Some (ev_seq e) else q" for n
  by unfold_locales (simp only: fst_fold_event state_event_seqs fold_simps)

lemma last_seq_snoc: "last_seq P (es @ [e]) = (if P e then Some (ev_seq e) else last_seq P es)"
  by (simp add: last_seq_def)

lemma last_seq_Some:
  "last_seq P es = Some q \<Longrightarrow>
    \<exists>xs e ys. es = xs @ e # ys \<and> P e \<and> ev_seq e = q \<and> (\<forall>y\<in>set ys. \<not> P y)"
proof (induction es rule: rev_induct)
  case Nil
  then show ?case by (simp add: last_seq_def)
next
  case (snoc e es)
  show ?case
  proof (cases "P e")
    case True
    then show ?thesis using snoc.prems
      by (intro exI [of _ es] exI [of _ e] exI [of _ "[]"]) (simp add: last_seq_snoc)
  next
    case False
    then obtain xs c ys where "es = xs @ c # ys" "P c" "ev_seq c = q" "\<forall>y\<in>set ys. \<not> P y"
      using snoc by (auto simp: last_seq_snoc)
    then show ?thesis using False
      by (intro exI [of _ xs] exI [of _ c] exI [of _ "ys @ [e]"]) auto
  qed
qed

lemma last_seq_None: "(last_seq P es = None) = (\<forall>e\<in>set es. \<not> P e)"
  by (induction es rule: rev_induct) (auto simp: last_seq_snoc, simp add: last_seq_def)

lemma last_seq_after:
  assumes inc: "seqs_increasing es" and es: "es = xs @ e # ys" and "ev_seq e = q"
    and disj: "\<And>x. \<not> (P x \<and> Q x)" and e: "P e" "\<forall>y\<in>set ys. \<not> P y"
    and h: "last_seq Q es = Some h"
  shows "(q < h) = (\<exists>y\<in>set ys. Q y)"
proof -
  obtain us c vs where c: "es = us @ c # vs" "Q c" "ev_seq c = h" "\<forall>y\<in>set vs. \<not> Q y"
    using last_seq_Some [OF h] by blast
  have earlier: "ev_seq x < q" if "x \<in> set xs" for x
    using inc es that assms(3) by (auto simp: seqs_increasing_def sorted_wrt_append)
  have later: "q < ev_seq y" if "y \<in> set ys" for y
    using inc es that assms(3) by (auto simp: seqs_increasing_def sorted_wrt_append)
  have "c \<noteq> e" using disj c(2) e(1) by blast
  have mem: "c \<in> set xs \<or> c \<in> set ys" 
  proof -
    have "c \<in> set es" using c(1) by simp
    then show ?thesis using es \<open>c \<noteq> e\<close> by simp
  qed
  show ?thesis
  proof
    assume "q < h"
    then show "\<exists>y\<in>set ys. Q y" using mem earlier c(2,3) by fastforce
  next
    assume "\<exists>y\<in>set ys. Q y"
    then obtain y where y: "y \<in> set ys" "Q y" by auto
    have "y \<in> set (us @ c # vs)" using y(1) es unfolding c(1) [symmetric] by simp
    then have "y \<in> set us \<or> y = c" using y(2) c(4) by auto
    then have "ev_seq y \<le> h"
      using inc c(1,3) by (auto simp: seqs_increasing_def sorted_wrt_append intro: less_imp_le)
    then show "q < h" using later [OF y(1)] by simp
  qed
qed

lemma fold_run_positions:
  "fmlookup (ns_started (rs_seqs (fold_run es))) n = last_seq (starts_node n) es"
  "fmlookup (ns_hops (rs_seqs (fold_run es))) (f, t) = last_seq (traverses f t) es"
  "fmlookup (ns_finished (rs_seqs (fold_run es))) n = last_seq (\<lambda>e. finish_of n e \<noteq> None) es"
  using start_position.view_fold [where n = n and es = es]
    hop_position.view_fold [where f = f and t = t and es = es]
    finish_position.view_fold [where n = n and es = es]
  by (simp_all add: fold_run_frame last_seq_def state_init_def)

text \<open>
  A hop that was traversed counts as taken by its source's latest execution exactly when the
  journal shows a traversal after the source's last start: a hop of an earlier loop round never
  decides where the node goes now.
\<close>

theorem latest_run_hop:
  assumes "seqs_increasing es" "es = xs @ e # ys" "starts_node f e"
    and "\<forall>y\<in>set ys. \<not> starts_node f y" "x \<in> set es" "traverses f t x"
  shows "hop_of_latest_run (fold_run es) f t = (\<exists>y\<in>set ys. traverses f t y)"
proof -
  have "last_seq (starts_node f) es \<noteq> None" "last_seq (traverses f t) es \<noteq> None"
    using assms by (auto simp: last_seq_None)
  then obtain q h where q: "last_seq (starts_node f) es = Some q"
    and h: "last_seq (traverses f t) es = Some h" by auto
  have "ev_seq e = q"
  proof -
    have "last_seq P (us @ c # vs) = Some (ev_seq c)" if "P c" "\<forall>y\<in>set vs. \<not> P y" for P us c vs
      using that by (induction vs rule: rev_induct) (auto simp: last_seq_def)
    then have "last_seq (starts_node f) es = Some (ev_seq e)" using assms(2-4) by simp
    then show ?thesis using q by simp
  qed
  have disj: "\<not> (starts_node f x \<and> traverses f t x)" for x
    by (auto simp: starts_node_def traverses_def split: event_payload.splits)
  show ?thesis
    using last_seq_after [OF assms(1,2) \<open>ev_seq e = q\<close> disj assms(3,4) h] q h
    by (simp add: hop_of_latest_run_def fold_run_positions)
qed

theorem latest_run_hop_witness:
  "hop_of_latest_run (fold_run (numbered 0 [Node_Started ''a'' 1, hop ''a'' ''b'' False False []]
      @ \<lparr> ev_seq = 2, ev_ts = 0, ev_payload = Node_Started ''a'' 1 \<rparr> # [])) ''a'' ''b''
   = (\<exists>y\<in>set []. traverses ''a'' ''b'' y)"
  by (rule latest_run_hop [where x = "numbered 0 [Node_Started ''a'' 1, hop ''a'' ''b'' False False []] ! 1"])
    (simp_all add: seqs_increasing_def starts_node_def, simp_all add: traverses_def hop_def)

end
