(* ===== verification/Loop_Items.thy ===== *)
theory Loop_Items
  imports Schema
begin

text \<open>
  What a loop found so far, \<^verbatim>\<open>apb-core/src/loop_items.rs\<close> with the key grammar of
  \<^verbatim>\<open>list/items.rs\<close> and \<^verbatim>\<open>text.rs\<close>: the fold behind the
  \<^verbatim>\<open>no_new_items\<close> edge condition.  The set the code keeps beside the ordered list for
  speed is kept here too, as the fold's second component.
\<close>

section \<open>Definitions\<close>

definition ITEM_ID_MAX_CHARS :: nat where
  "ITEM_ID_MAX_CHARS = 128"

definition between :: "nat \<Rightarrow> nat \<Rightarrow> nat \<Rightarrow> bool" where
  "between lo hi c = (lo \<le> c \<and> c \<le> hi)"

definition is_white :: "nat \<Rightarrow> bool" where
  "is_white c =
     (between 9 13 c \<or> c = 32 \<or> c = 0x85 \<or> c = 0xA0 \<or> c = 0x1680 \<or> between 0x2000 0x200A c
      \<or> c = 0x2028 \<or> c = 0x2029 \<or> c = 0x202F \<or> c = 0x205F \<or> c = 0x3000)"

definition is_control :: "nat \<Rightarrow> bool" where
  "is_control c = (c < 0x20 \<or> between 0x7F 0x9F c)"

definition is_format :: "nat \<Rightarrow> bool" where
  "is_format c =
     (between 0x0600 0x0605 c \<or> c = 0x06DD \<or> c = 0x070F \<or> between 0x0890 0x0891 c \<or> c = 0x08E2
      \<or> between 0xFFF9 0xFFFB c \<or> c = 0x110BD \<or> c = 0x110CD \<or> between 0x13430 0x1343F c)"

definition is_ignorable :: "nat \<Rightarrow> bool" where
  "is_ignorable c =
     (c = 0x00AD \<or> c = 0x034F \<or> c = 0x061C \<or> between 0x115F 0x1160 c \<or> between 0x17B4 0x17B5 c
      \<or> between 0x180B 0x180F c \<or> between 0x200B 0x200F c \<or> between 0x202A 0x202E c
      \<or> between 0x2060 0x206F c \<or> c = 0x3164 \<or> between 0xFE00 0xFE0F c \<or> c = 0xFEFF \<or> c = 0xFFA0
      \<or> between 0xFFF0 0xFFF8 c \<or> between 0x1BCA0 0x1BCA3 c \<or> between 0x1D173 0x1D17A c
      \<or> between 0xE0000 0xE0FFF c)"

definition is_hidden_char :: "nat \<Rightarrow> bool" where
  "is_hidden_char c = (is_control c \<or> c = 0x2028 \<or> c = 0x2029 \<or> is_format c \<or> is_ignorable c)"

definition unsafe_id_char :: "nat \<Rightarrow> bool" where
  "unsafe_id_char c = (c = 96 \<or> (is_white c \<and> c \<noteq> 32) \<or> is_hidden_char c)"

datatype items_error =
    Not_Json | Not_Array | Not_Object nat | Missing_Key nat | Bad_Key nat | Unsafe_Key nat
  | Duplicate "string list" | Digest_Collision string string | Too_Many nat u32

definition id_of :: "json \<Rightarrow> nat \<Rightarrow> items_error + string" where
  "id_of v i =
     (case (case v of JString s \<Rightarrow> Some s
            | JNumber t _ integral \<Rightarrow> if integral then Some t else None
            | _ \<Rightarrow> None) of
        None \<Rightarrow> Inl (Bad_Key i)
      | Some s \<Rightarrow>
          if trim s = [] \<or> length (str_chars s) > ITEM_ID_MAX_CHARS then Inl (Bad_Key i)
          else if list_ex unsafe_id_char (str_chars s) then Inl (Unsafe_Key i)
          else Inr s)"

record loop_items =
  li_visits :: nat
  li_streak :: nat
  li_seen :: "string list"
  li_new_in_last :: nat

definition loop_items_init :: loop_items where
  "loop_items_init = \<lparr> li_visits = 0, li_streak = 0, li_seen = [], li_new_in_last = 0 \<rparr>"

definition elem_key :: "string option \<Rightarrow> json \<Rightarrow> nat \<Rightarrow> string option" where
  "elem_key key v i =
     (case key of
        Some name \<Rightarrow>
          (case as_object v of
             None \<Rightarrow> None
           | Some kvs \<Rightarrow>
               (case map_of kvs name of
                  None \<Rightarrow> None
                | Some w \<Rightarrow> (case id_of w i of Inr k \<Rightarrow> Some k | Inl _ \<Rightarrow> None)))
      | None \<Rightarrow> (case id_of v i of Inr k \<Rightarrow> Some k | Inl _ \<Rightarrow> None))"

fun elem_keys :: "string option \<Rightarrow> json list \<Rightarrow> nat \<Rightarrow> string list option" where
  "elem_keys key [] i = Some []"
| "elem_keys key (v # vs) i =
     (case elem_key key v i of
        None \<Rightarrow> None
      | Some k \<Rightarrow> map_option ((#) k) (elem_keys key vs (Suc i)))"

definition visit_keys :: "json_reader \<Rightarrow> string \<Rightarrow> string \<Rightarrow> string option \<Rightarrow> string list option" where
  "visit_keys J output field key =
     (case object_field J output field of
        Some (JArray values) \<Rightarrow> elem_keys key values 0
      | Some (JString text) \<Rightarrow>
          (case J text of Some (JArray values) \<Rightarrow> elem_keys key values 0 | _ \<Rightarrow> None)
      | _ \<Rightarrow> None)"

text \<open>The inner loop over one visit's keys: the ordered list, the set beside it, the fresh count.\<close>

definition key_step :: "string list \<times> string fset \<times> nat \<Rightarrow> string \<Rightarrow> string list \<times> string fset \<times> nat" where
  "key_step st k =
     (case st of (seen, known, fresh) \<Rightarrow>
        if k |\<in>| known then (seen, known, fresh) else (seen @ [k], finsert k known, fresh + 1))"

definition visit_step ::
  "json_reader \<Rightarrow> string \<Rightarrow> string option \<Rightarrow> loop_items \<times> string fset \<Rightarrow> string \<Rightarrow> loop_items \<times> string fset" where
  "visit_step J field key st output =
     (case st of (li, known) \<Rightarrow>
        (case visit_keys J output field key of
           None \<Rightarrow> (li\<lparr>li_visits := li_visits li + 1, li_streak := 0, li_new_in_last := 0\<rparr>, known)
         | Some keys \<Rightarrow>
             (case foldl key_step (li_seen li, known, 0) keys of
                (seen, known', fresh) \<Rightarrow>
                  (li\<lparr>li_visits := li_visits li + 1,
                      li_streak := (if fresh = 0 then li_streak li + 1 else 0),
                      li_seen := seen, li_new_in_last := fresh\<rparr>, known'))))"

definition evaluate_items :: "json_reader \<Rightarrow> string list \<Rightarrow> string \<Rightarrow> string option \<Rightarrow> loop_items" where
  "evaluate_items J outputs field key =
     fst (foldl (visit_step J field key) (loop_items_init, fempty) outputs)"

section \<open>What the fold computes\<close>

lemma key_steps:
  "set seen = fset known \<Longrightarrow> distinct seen \<Longrightarrow>
   foldl key_step (seen, known, n) ks = (seen', known', n') \<Longrightarrow>
     set seen' = set seen \<union> set ks \<and> set seen' = fset known' \<and> distinct seen'
     \<and> (n' = n) = (set ks \<subseteq> set seen) \<and> n \<le> n' \<and> length seen' = length seen + (n' - n)"
proof (induction ks arbitrary: seen known n)
  case Nil
  then show ?case by simp
next
  case (Cons k ks)
  show ?case
  proof (cases "k |\<in>| known")
    case True
    then have "key_step (seen, known, n) k = (seen, known, n)" by (simp add: key_step_def)
    then have "foldl key_step (seen, known, n) ks = (seen', known', n')"
      using Cons.prems(3) by simp
    from Cons.IH [OF Cons.prems(1,2) this] show ?thesis using Cons.prems(1) True by auto
  next
    case False
    then have k: "k \<notin> set seen" using Cons.prems(1) by simp
    have "key_step (seen, known, n) k = (seen @ [k], finsert k known, n + 1)"
      using False by (simp add: key_step_def)
    then have "foldl key_step (seen @ [k], finsert k known, n + 1) ks = (seen', known', n')"
      using Cons.prems(3) by simp
    from Cons.IH [OF _ _ this] show ?thesis using Cons.prems(1,2) k by auto
  qed
qed

definition keys_of :: "json_reader \<Rightarrow> string \<Rightarrow> string option \<Rightarrow> string list \<Rightarrow> string set" where
  "keys_of J field key os =
     (\<Union>o1\<in>set os. case visit_keys J o1 field key of Some ks \<Rightarrow> set ks | None \<Rightarrow> {})"

text \<open>A visit is stale after earlier ones: it reads, and adds no key they had not produced.\<close>

definition stale_visit :: "json_reader \<Rightarrow> string \<Rightarrow> string option \<Rightarrow> string list \<Rightarrow> string \<Rightarrow> bool" where
  "stale_visit J field key before output =
     (case visit_keys J output field key of
        Some ks \<Rightarrow> set ks \<subseteq> keys_of J field key before
      | None \<Rightarrow> False)"

lemma keys_of_snoc: "keys_of J field key (os @ [x]) =
    keys_of J field key os \<union> (case visit_keys J x field key of Some ks \<Rightarrow> set ks | None \<Rightarrow> {})"
  by (auto simp: keys_of_def)

definition items_inv :: "json_reader \<Rightarrow> string \<Rightarrow> string option \<Rightarrow> string list \<Rightarrow> loop_items \<times> string fset \<Rightarrow> bool" where
  "items_inv J field key os st =
     (case st of (li, known) \<Rightarrow>
        li_visits li = length os \<and> distinct (li_seen li) \<and> set (li_seen li) = fset known
        \<and> set (li_seen li) = keys_of J field key os \<and> li_streak li \<le> length os
        \<and> (\<forall>r. r \<le> li_streak li \<longleftrightarrow>
             (r \<le> length os \<and> (\<forall>i<length os. length os - r \<le> i \<longrightarrow>
                stale_visit J field key (take i os) (os ! i)))))"

lemma streak_snoc:
  "(\<forall>i<length (os @ [x]). length (os @ [x]) - Suc r \<le> i \<longrightarrow> P (take i (os @ [x])) ((os @ [x]) ! i))
   \<longleftrightarrow> P os x \<and> (\<forall>i<length os. length os - r \<le> i \<longrightarrow> P (take i os) (os ! i))"
proof (intro iffI conjI allI impI)
  assume a: "\<forall>i<length (os @ [x]). length (os @ [x]) - Suc r \<le> i \<longrightarrow> P (take i (os @ [x])) ((os @ [x]) ! i)"
  show "P os x" using spec [OF a, of "length os"] by simp
  fix i assume "i < length os" "length os - r \<le> i"
  then show "P (take i os) (os ! i)" using spec [OF a, of i] by (simp add: nth_append)
next
  fix i assume a: "P os x \<and> (\<forall>i<length os. length os - r \<le> i \<longrightarrow> P (take i os) (os ! i))"
    and i: "i < length (os @ [x])" "length (os @ [x]) - Suc r \<le> i"
  show "P (take i (os @ [x])) ((os @ [x]) ! i)"
  proof (cases "i = length os")
    case True
    then show ?thesis using a by simp
  next
    case False
    then have "i < length os" "length os - r \<le> i" using i by auto
    then show ?thesis using a by (simp add: nth_append)
  qed
qed

lemma visit_step_inv:
  assumes "items_inv J field key os st"
  shows "items_inv J field key (os @ [x]) (visit_step J field key st x)"
proof -
  obtain li known where st: "st = (li, known)" by (cases st)
  let ?P = "stale_visit J field key"
  have inv: "li_visits li = length os" "distinct (li_seen li)" "set (li_seen li) = fset known"
    "set (li_seen li) = keys_of J field key os" "li_streak li \<le> length os"
    and streak: "\<And>r. r \<le> li_streak li \<longleftrightarrow> (r \<le> length os \<and> (\<forall>i<length os. length os - r \<le> i \<longrightarrow>
        ?P (take i os) (os ! i)))"
    using assms st by (auto simp: items_inv_def)
  have lift: "(r \<le> (if ?P os x then li_streak li + 1 else 0)) \<longleftrightarrow>
      (r \<le> length (os @ [x]) \<and> (\<forall>i<length (os @ [x]). length (os @ [x]) - r \<le> i \<longrightarrow>
        ?P (take i (os @ [x])) ((os @ [x]) ! i)))" for r
  proof (cases r)
    case 0
    then show ?thesis by simp
  next
    case (Suc q)
    show ?thesis unfolding Suc streak_snoc using streak [of q] by auto
  qed
  show ?thesis
  proof (cases "visit_keys J x field key")
    case None
    then have "\<not> ?P os x" by (simp add: stale_visit_def)
    then show ?thesis
      using None inv lift st
      by (simp add: visit_step_def items_inv_def keys_of_snoc)
  next
    case (Some ks)
    obtain seen' known' n' where f: "foldl key_step (li_seen li, known, 0) ks = (seen', known', n')"
      by (metis prod_cases3)
    note k = key_steps [OF inv(3,2) f]
    have "?P os x = (n' = 0)" using k inv(4) Some by (simp add: stale_visit_def)
    then show ?thesis
      using Some inv lift st k f
      by (auto simp: visit_step_def items_inv_def keys_of_snoc)
  qed
qed

lemma evaluate_items_inv:
  "items_inv J field key os (foldl (visit_step J field key) (loop_items_init, fempty) os)"
proof (induction os rule: rev_induct)
  case Nil
  then show ?case by (simp add: items_inv_def loop_items_init_def keys_of_def)
next
  case (snoc x os)
  then show ?case using visit_step_inv by simp
qed

text \<open>
  The loop exit fires exactly when it should: the condition (at least \<open>r\<close> visits, a trailing
  streak of at least \<open>r\<close>) holds if and only if there were \<open>r\<close> successful visits and each of the
  last \<open>r\<close> was readable and produced only keys some earlier visit had already produced; the keys
  are kept once each.
\<close>

theorem no_new_items_exact:
  "(r \<le> li_visits (evaluate_items J os field key) \<and> r \<le> li_streak (evaluate_items J os field key))
    = (r \<le> length os \<and> (\<forall>i<length os. length os - r \<le> i \<longrightarrow>
         stale_visit J field key (take i os) (os ! i)))
   \<and> distinct (li_seen (evaluate_items J os field key))
   \<and> set (li_seen (evaluate_items J os field key)) = keys_of J field key os"
  using evaluate_items_inv [of J field key os]
  by (auto simp: evaluate_items_def items_inv_def split: prod.splits)

theorem no_new_items_exact_witness:
  "(1 \<le> li_visits (evaluate_items (\<lambda>_. Some (JObject [(''f'', JArray [])])) [[]] ''f'' None)
     \<and> 1 \<le> li_streak (evaluate_items (\<lambda>_. Some (JObject [(''f'', JArray [])])) [[]] ''f'' None))"
proof -
  have "stale_visit (\<lambda>_. Some (JObject [(''f'', JArray [])])) ''f'' None [] []"
    by (simp add: stale_visit_def visit_keys_def object_field_def as_object_def)
  then show ?thesis
    using no_new_items_exact [of 1 "\<lambda>_. Some (JObject [(''f'', JArray [])])" "[[]]" "''f''" None] by simp
qed

end
