(* ===== verification/Routing.thy ===== *)
theory Routing
  imports Run_State Graph_Util Loop_Items
begin

text \<open>
  Edge selection, the first half of \<^verbatim>\<open>apb-engine/src/parallel.rs\<close>: whether one edge's
  condition matches the folded state, whether a bounded edge is still available, and the routing
  decision out of a node with the per-edge record of what it saw.  The availability test is an
  argument of \<open>evaluate_route\<close> as it is in the code; \<open>J\<close> reads JSON texts.
\<close>

section \<open>Conditions\<close>

definition status_matches :: "run_state \<Rightarrow> string \<Rightarrow> status_eq \<Rightarrow> bool" where
  "status_matches s n eq =
     (let st = current_status s n in
      case eq of
        Eq_Success \<Rightarrow> st = Succeeded
      | Eq_Failure \<Rightarrow> st = Failed \<or> st = Timed_Out
      | Eq_Stalled \<Rightarrow> st = Failed \<and> n |\<in>| rs_stalled s)"

definition judge_edge_p :: "run_state \<Rightarrow> string \<Rightarrow> nat \<Rightarrow> f64 option" where
  "judge_edge_p s from index =
     (case fmlookup (rs_judge_edges s) from of
        None \<Rightarrow> None
      | Some a \<Rightarrow>
          if \<not> ja_applied a \<or> fmlookup (rs_finished_counts s) from \<noteq> Some (ja_execution a) then None
          else fmlookup (ja_p a) (''edge_'' @ show_nat index))"

definition edge_matches_at :: "json_reader \<Rightarrow> edge \<Rightarrow> nat option \<Rightarrow> string \<Rightarrow> run_state \<Rightarrow> bool" where
  "edge_matches_at J e index from s =
     (case e_condition e of
        None \<Rightarrow> True
      | Some c \<Rightarrow>
          (case c of
             Node_Status n eq \<Rightarrow> status_matches s n eq
           | Review_Status eq \<Rightarrow>
               (case fmlookup (rs_reviews s) from of Some r \<Rightarrow> rd_decision r = eq | None \<Rightarrow> False)
           | Output_Match n pat \<Rightarrow>
               (case fmlookup (rs_outputs s) n of Some o1 \<Rightarrow> sublist pat o1 | None \<Rightarrow> False)
           | Output_Field n field _ _ _ _ _ \<Rightarrow>
               (case (fmlookup (rs_outputs s) n, field_compare_of c) of
                  (Some o1, Some cmp) \<Rightarrow> output_field_matches J o1 field cmp
                | _ \<Rightarrow> False)
           | Judge_Edge _ min_p on_unavailable \<Rightarrow>
               (case Option.bind index (judge_edge_p s from) of
                  Some p \<Rightarrow> f64_le min_p p
                | None \<Rightarrow> (case on_unavailable of Some b \<Rightarrow> b | None \<Rightarrow> False))
           | No_New_Items n field key rounds \<Rightarrow>
               (let items = evaluate_items J (fget (rs_success_outputs s) [] n) field key in
                li_visits items \<ge> unat rounds \<and> li_streak items \<ge> unat rounds)))"

definition edge_matches :: "json_reader \<Rightarrow> edge \<Rightarrow> string \<Rightarrow> run_state \<Rightarrow> bool" where
  "edge_matches J e from s = edge_matches_at J e None from s"

definition edge_available :: "run_state \<Rightarrow> edge \<Rightarrow> bool" where
  "edge_available s e =
     (case e_max_traversals e of
        Some cap \<Rightarrow> fget (rs_edge_counts s) 0 (e_from e, e_to e) < cap
      | None \<Rightarrow> True)"

definition condition_reads :: "edge_condition \<Rightarrow> string \<Rightarrow> bool" where
  "condition_reads c nd =
     (case c of
        Node_Status n _ \<Rightarrow> n = nd | Output_Match n _ \<Rightarrow> n = nd | Output_Field n _ _ _ _ _ _ \<Rightarrow> n = nd
      | No_New_Items n _ _ _ \<Rightarrow> n = nd | Review_Status _ \<Rightarrow> False | Judge_Edge _ _ _ \<Rightarrow> False)"

section \<open>The routing decision\<close>

datatype route_mode = Suppressed | Fan_Out | One_Of | Dead_End

datatype check_result = Matched | Not_Matched | Exhausted | Not_Reached | Judge_Unavailable | Shadowed

record edge_check =
  ec_index :: nat
  ec_rank :: nat
  ec_result :: check_result

record route_evaluation =
  re_mode :: route_mode
  re_checks :: "edge_check list"
  re_chosen :: "nat list"

definition judge_miss :: "run_state \<Rightarrow> string \<Rightarrow> check_result" where
  "judge_miss s from =
     (let shadow = (case fmlookup (rs_judge_edges s) from of
                      Some a \<Rightarrow> \<not> ja_applied a
                        \<and> fmlookup (rs_finished_counts s) from = Some (ja_execution a)
                    | None \<Rightarrow> False)
      in if shadow then Shadowed else Judge_Unavailable)"

type_synonym out_edge = "nat \<times> nat \<times> edge"

text \<open>The outgoing edges with their rank among them and their index in the playbook.\<close>

definition out_edges :: "playbook \<Rightarrow> string \<Rightarrow> out_edge list" where
  "out_edges pb from =
     enumerate 0 (filter (\<lambda>(i, e). e_from e = from) (enumerate 0 (pb_edges pb)))"

definition set_result :: "edge_check list \<Rightarrow> nat \<Rightarrow> check_result \<Rightarrow> edge_check list" where
  "set_result checks rank r =
     (if rank < length checks then checks[rank := (checks ! rank)\<lparr>ec_result := r\<rparr>] else checks)"

fun unconditional_pass ::
  "(edge \<Rightarrow> bool) \<Rightarrow> out_edge list \<Rightarrow> edge_check list \<Rightarrow> nat list \<Rightarrow> edge_check list \<times> nat list" where
  "unconditional_pass av [] checks acc = (checks, acc)"
| "unconditional_pass av ((rank, index, e) # r) checks acc =
     (if e_condition e = None \<and> \<not> e_fallback e
      then (if av e then unconditional_pass av r checks (acc @ [index])
            else unconditional_pass av r (set_result checks rank Exhausted) acc)
      else unconditional_pass av r checks acc)"

definition miss_result :: "run_state \<Rightarrow> string \<Rightarrow> edge \<Rightarrow> nat \<Rightarrow> check_result" where
  "miss_result s from e rank =
     (case e_condition e of
        Some (Judge_Edge _ _ _) \<Rightarrow>
          if judge_edge_p s from rank = None then judge_miss s from else Not_Matched
      | _ \<Rightarrow> Not_Matched)"

fun conditional_pass ::
  "json_reader \<Rightarrow> run_state \<Rightarrow> string \<Rightarrow> (edge \<Rightarrow> bool) \<Rightarrow> out_edge list \<Rightarrow> edge_check list
     \<Rightarrow> edge_check list \<times> nat option" where
  "conditional_pass J s from av [] checks = (checks, None)"
| "conditional_pass J s from av ((rank, index, e) # r) checks =
     (if e_fallback e \<or> e_condition e = None then conditional_pass J s from av r checks
      else if \<not> av e then conditional_pass J s from av r (set_result checks rank Exhausted)
      else if edge_matches_at J e (Some rank) from s
      then (set_result checks rank Matched, Some index)
      else conditional_pass J s from av r (set_result checks rank (miss_result s from e rank)))"

fun fallback_pass ::
  "(edge \<Rightarrow> bool) \<Rightarrow> out_edge list \<Rightarrow> edge_check list \<Rightarrow> nat list \<Rightarrow> edge_check list \<times> nat list" where
  "fallback_pass av [] checks chosen = (checks, chosen)"
| "fallback_pass av ((rank, index, e) # r) checks chosen =
     (if \<not> e_fallback e then fallback_pass av r checks chosen
      else if \<not> av e then fallback_pass av r (set_result checks rank Exhausted) chosen
      else if chosen = [] then fallback_pass av r (set_result checks rank Matched) [index]
      else fallback_pass av r checks chosen)"

definition evaluate_route ::
  "json_reader \<Rightarrow> playbook \<Rightarrow> string \<Rightarrow> run_state \<Rightarrow> (edge \<Rightarrow> bool) \<Rightarrow> route_evaluation" where
  "evaluate_route J pb from s available =
     (let out = out_edges pb from;
          checks = map (\<lambda>(rank, index, _). \<lparr> ec_index = index, ec_rank = rank, ec_result = Not_Reached \<rparr>) out
      in
      if from |\<in>| rs_route_suppressed s
      then \<lparr> re_mode = Suppressed, re_checks = checks, re_chosen = [] \<rparr>
      else
        let refused = from |\<in>| rs_refused_joins s;
            (checks1, unconditional) = unconditional_pass available out checks []
        in
        if unconditional \<noteq> [] \<and> \<not> refused
        then \<lparr> re_mode = Fan_Out,
               re_checks = map (\<lambda>c. if ec_index c \<in> set unconditional then c\<lparr>ec_result := Matched\<rparr> else c) checks1,
               re_chosen = unconditional \<rparr>
        else
          (case conditional_pass J s from available out checks1 of
             (checks2, Some index) \<Rightarrow> \<lparr> re_mode = One_Of, re_checks = checks2, re_chosen = [index] \<rparr>
           | (checks2, None) \<Rightarrow>
               (case fallback_pass available out checks2 [] of
                  (checks3, chosen) \<Rightarrow>
                    \<lparr> re_mode = (if chosen = [] then Dead_End else One_Of),
                      re_checks = checks3, re_chosen = chosen \<rparr>)))"

definition evaluate_live_route :: "json_reader \<Rightarrow> playbook \<Rightarrow> string \<Rightarrow> run_state \<Rightarrow> route_evaluation" where
  "evaluate_live_route J pb from s = evaluate_route J pb from s (edge_available s)"

definition available_as_run :: "run_state \<Rightarrow> edge \<Rightarrow> bool" where
  "available_as_run s e =
     (edge_available s e
      \<or> hop_of_latest_run s (e_from e) (e_to e) \<and> (e_from e, e_to e) |\<in>| rs_journaled_hops s)"

definition evaluate_route_as_run :: "json_reader \<Rightarrow> playbook \<Rightarrow> string \<Rightarrow> run_state \<Rightarrow> route_evaluation" where
  "evaluate_route_as_run J pb from s = evaluate_route J pb from s (available_as_run s)"

definition select_edges ::
  "json_reader \<Rightarrow> playbook \<Rightarrow> string \<Rightarrow> run_state \<Rightarrow> (edge \<Rightarrow> bool) \<Rightarrow> edge list" where
  "select_edges J pb from s available =
     map ((!) (pb_edges pb)) (re_chosen (evaluate_route J pb from s available))"

definition selected_edges :: "json_reader \<Rightarrow> playbook \<Rightarrow> string \<Rightarrow> run_state \<Rightarrow> edge list" where
  "selected_edges J pb from s = select_edges J pb from s (edge_available s)"

definition selected_edges_as_run :: "json_reader \<Rightarrow> playbook \<Rightarrow> string \<Rightarrow> run_state \<Rightarrow> edge list" where
  "selected_edges_as_run J pb from s =
     map ((!) (pb_edges pb)) (re_chosen (evaluate_route_as_run J pb from s))"

definition successors :: "json_reader \<Rightarrow> playbook \<Rightarrow> string \<Rightarrow> run_state \<Rightarrow> string list" where
  "successors J pb from s = map e_to (selected_edges J pb from s)"

section \<open>What the passes choose\<close>

definition is_unconditional :: "edge \<Rightarrow> bool" where
  "is_unconditional e = (e_condition e = None \<and> \<not> e_fallback e)"

definition is_conditional :: "edge \<Rightarrow> bool" where
  "is_conditional e = (e_condition e \<noteq> None \<and> \<not> e_fallback e)"

lemma unconditional_pass_chosen:
  "snd (unconditional_pass av out checks acc) =
    acc @ map (fst \<circ> snd) (filter (\<lambda>(r, i, e). is_unconditional e \<and> av e) out)"
  by (induction av out checks acc rule: unconditional_pass.induct) (auto simp: is_unconditional_def)

lemma conditional_pass_chosen:
  "snd (conditional_pass J s from av out checks) =
    map_option (fst \<circ> snd)
      (find (\<lambda>(r, i, e). is_conditional e \<and> av e \<and> edge_matches_at J e (Some r) from s) out)"
  by (induction J s "from" av out checks rule: conditional_pass.induct) (auto simp: is_conditional_def)

lemma fallback_pass_chosen:
  "snd (fallback_pass av out checks chosen) =
    (if chosen \<noteq> [] then chosen
     else case find (\<lambda>(r, i, e). e_fallback e \<and> av e) out of Some (r, i, e) \<Rightarrow> [i] | None \<Rightarrow> [])"
  by (induction av out checks chosen rule: fallback_pass.induct) auto

text \<open>The documented rule, stated directly over the outgoing edges.\<close>

definition route_rule :: "json_reader \<Rightarrow> playbook \<Rightarrow> string \<Rightarrow> run_state \<Rightarrow> (edge \<Rightarrow> bool) \<Rightarrow> nat list" where
  "route_rule J pb from s available =
     (let out = out_edges pb from;
          free = filter (\<lambda>(r, i, e). is_unconditional e \<and> available e) out;
          hit = find (\<lambda>(r, i, e). is_conditional e \<and> available e
                        \<and> edge_matches_at J e (Some r) from s) out;
          spare = find (\<lambda>(r, i, e). e_fallback e \<and> available e) out
      in if from |\<in>| rs_route_suppressed s then []
         else if free \<noteq> [] \<and> from |\<notin>| rs_refused_joins s then map (\<lambda>(r, i, e). i) free
         else case hit of
                Some (r, i, e) \<Rightarrow> [i]
              | None \<Rightarrow> (case spare of Some (r, i, e) \<Rightarrow> [i] | None \<Rightarrow> []))"

lemma evaluate_route_rule:
  "re_chosen (evaluate_route J pb from s av) = route_rule J pb from s av"
proof -
  let ?out = "out_edges pb from"
  let ?checks = "map (\<lambda>(rank, index, _). \<lparr> ec_index = index, ec_rank = rank, ec_result = Not_Reached \<rparr>) ?out"
  let ?free = "filter (\<lambda>(r, i, e). is_unconditional e \<and> av e) ?out"
  have proj: "map (fst \<circ> snd) xs = map (\<lambda>(r, i, e). i) xs" for xs :: "out_edge list"
    by (rule map_cong) auto
  obtain c1 un where u: "unconditional_pass av ?out ?checks [] = (c1, un)" by fastforce
  have un: "un = map (\<lambda>(r, i, e). i) ?free"
    using unconditional_pass_chosen [of av ?out ?checks "[]"] u proj by simp
  obtain c2 co where c: "conditional_pass J s from av ?out c1 = (c2, co)" by fastforce
  have co: "co = map_option (fst \<circ> snd)
      (find (\<lambda>(r, i, e). is_conditional e \<and> av e \<and> edge_matches_at J e (Some r) from s) ?out)"
    using conditional_pass_chosen [of J s "from" av ?out c1] c by simp
  obtain c3 fb where f: "fallback_pass av ?out c2 [] = (c3, fb)" by fastforce
  have fb: "fb = (case find (\<lambda>(r, i, e). e_fallback e \<and> av e) ?out of Some (r, i, e) \<Rightarrow> [i] | None \<Rightarrow> [])"
    using fallback_pass_chosen [of av ?out c2 "[]"] f by simp
  show ?thesis
    unfolding evaluate_route_def route_rule_def Let_def u prod.case c f co un fb
    by (auto split: option.splits)
qed

lemma set_enumerate_snd: "p \<in> set (enumerate k xs) \<Longrightarrow> snd p \<in> set xs"
  by (cases p) (auto simp: in_set_enumerate_eq dest!: nth_mem)

lemma out_edges_elem:
  "(r, i, e) \<in> set (out_edges pb from) \<Longrightarrow>
    i < length (pb_edges pb) \<and> e = pb_edges pb ! i \<and> e_from e = from"
  using set_enumerate_snd [of "(r, i, e)" 0 "filter (\<lambda>(i, e). e_from e = from) (enumerate 0 (pb_edges pb))"]
  by (auto simp: out_edges_def in_set_enumerate_eq)

lemma find_elem: "find P xs = Some x \<Longrightarrow> x \<in> set xs \<and> P x"
  by (auto simp: find_Some_iff)

lemma chosen_available:
  assumes "i \<in> set (re_chosen (evaluate_route J pb from s av))"
  shows "i < length (pb_edges pb) \<and> e_from (pb_edges pb ! i) = from \<and> av (pb_edges pb ! i)"
proof -
  let ?out = "out_edges pb from"
  define free where "free = filter (\<lambda>(r, i, e). is_unconditional e \<and> av e) ?out"
  define hit where "hit = find (\<lambda>(r, i, e). is_conditional e \<and> av e
      \<and> edge_matches_at J e (Some r) from s) ?out"
  define spare where "spare = find (\<lambda>(r, i, e). e_fallback e \<and> av e) ?out"
  have f: "x \<in> set free \<Longrightarrow> x \<in> set ?out \<and> av (snd (snd x))" for x
    by (auto simp: free_def)
  have h: "hit = Some x \<Longrightarrow> x \<in> set ?out \<and> av (snd (snd x))" for x
    unfolding hit_def by (drule find_elem) auto
  have sp: "spare = Some x \<Longrightarrow> x \<in> set ?out \<and> av (snd (snd x))" for x
    unfolding spare_def by (drule find_elem) auto
  have "re_chosen (evaluate_route J pb from s av) =
     (if from |\<in>| rs_route_suppressed s then []
      else if free \<noteq> [] \<and> from |\<notin>| rs_refused_joins s then map (\<lambda>(r, i, e). i) free
      else case hit of Some (r, i, e) \<Rightarrow> [i]
           | None \<Rightarrow> (case spare of Some (r, i, e) \<Rightarrow> [i] | None \<Rightarrow> []))"
    unfolding evaluate_route_rule route_rule_def Let_def free_def hit_def spare_def ..
  then have "(\<exists>x\<in>set free. fst (snd x) = i) \<or> (\<exists>x. hit = Some x \<and> fst (snd x) = i)
      \<or> (\<exists>x. spare = Some x \<and> fst (snd x) = i)"
    using assms by (force split: if_splits option.splits prod.splits)
  then obtain x where "x \<in> set ?out" "av (snd (snd x))" "fst (snd x) = i"
    using f h sp by blast
  then show ?thesis using out_edges_elem [of "fst x" "fst (snd x)" "snd (snd x)" pb "from"] by auto
qed

lemma selected_edges_as_run_elem:
  "e \<in> set (selected_edges_as_run J pb from s) \<Longrightarrow>
    e \<in> set (pb_edges pb) \<and> e_from e = from \<and> available_as_run s e"
  using chosen_available [of _ J pb "from" s "available_as_run s"]
  by (auto simp: selected_edges_as_run_def evaluate_route_as_run_def)

lemma selected_edges_elem:
  "e \<in> set (selected_edges J pb from s) \<Longrightarrow>
    e \<in> set (pb_edges pb) \<and> e_from e = from \<and> edge_available s e"
  using chosen_available [of _ J pb "from" s "edge_available s"]
  by (auto simp: selected_edges_def select_edges_def)

text \<open>
  C5: edge selection follows the documented rule: nothing for a suppressed node; else every
  available unconditional edge in declaration order, unless the node is a refused join; else the
  first available conditional edge that matches; else the first available fallback; else nothing.
\<close>

theorem route_follows_rule:
  "re_chosen (evaluate_route J pb from s av) = route_rule J pb from s av"
  by (rule evaluate_route_rule)

text \<open>
  A bounded edge is a bounded loop: whatever the journal, an edge with a traversal cap is
  selected only while the journal holds fewer counted hops over its ends than the cap (the counter
  being 32 bits wide), so a capped back edge cannot be selected for ever.
\<close>

theorem capped_edge_below_cap:
  assumes "e \<in> set (selected_edges J pb from (fold_run es))" "e_max_traversals e = Some cap"
  shows "(of_nat (length (filter (counted_hop (e_from e, e_to e)) es)) :: u32) < cap"
  using selected_edges_elem [OF assms(1)] assms(2)
  by (auto simp: edge_available_def edge_counts_fold)

theorem capped_edge_below_cap_witness:
  "(of_nat (length (filter (counted_hop (''a'', ''b'')) [])) :: u32) < 2"
proof -
  define e where "e = (plain_edge ''a'' ''b'')\<lparr>e_max_traversals := Some 2\<rparr>"
  define pb where "pb = (plain_playbook [] [e])"
  have "e \<in> set (selected_edges (\<lambda>_. None) pb ''a'' (fold_run []))"
    by (simp add: e_def pb_def plain_edge_def plain_playbook_def selected_edges_def select_edges_def
        evaluate_route_rule route_rule_def out_edges_def is_unconditional_def edge_available_def
        fold_run_def settle_open_def state_init_def fget_def)
  then show ?thesis
    using capped_edge_below_cap [of e "\<lambda>_. None" pb "''a''" "[]" 2]
    by (simp add: e_def plain_edge_def)
qed

end
