(* ===== verification/Join_Kind.thy ===== *)
theory Join_Kind
  imports Routing
begin

text \<open>
  Which nodes synchronize, and failures no route looked at:
  \<^verbatim>\<open>apb-engine/src/parallel.rs\<close>.  A node with several incoming edges is a join when
  one of them declares it, or when the fan-in is acyclic.  \<open>unhandled_failure\<close> reads the whole
  journal against the definition: the first node whose latest failure no route handled.
\<close>

section \<open>Joins\<close>

definition incoming :: "playbook \<Rightarrow> string \<Rightarrow> edge list" where
  "incoming pb nd = filter (\<lambda>e. e_to e = nd) (pb_edges pb)"

datatype join_kind = Explicit join_mode | Implicit

definition first_join :: "edge list \<Rightarrow> string option" where
  "first_join es = (case List.find (\<lambda>e. e_join e \<noteq> None) es of Some e \<Rightarrow> e_join e | None \<Rightarrow> None)"

definition join_mode_of :: "playbook \<Rightarrow> string \<Rightarrow> join_mode" where
  "join_mode_of pb nd =
     (case first_join (incoming pb nd) of
        Some text \<Rightarrow> (case join_mode_parse text of Some m \<Rightarrow> m | None \<Rightarrow> Join_All)
      | None \<Rightarrow> Join_All)"

definition join_kind_of :: "playbook \<Rightarrow> string \<Rightarrow> join_kind option" where
  "join_kind_of pb nd =
     (let inc = incoming pb nd in
      if length inc < 2 then None
      else if list_ex (\<lambda>e. e_join e \<noteq> None) inc then Some (Explicit (join_mode_of pb nd))
      else if is_acyclic_fan_in (adjacency pb) nd (map e_from inc) then Some Implicit
      else None)"

definition is_join :: "playbook \<Rightarrow> string \<Rightarrow> bool" where
  "is_join pb nd = (join_kind_of pb nd \<noteq> None)"

definition requires_all_succeeded :: "playbook \<Rightarrow> string \<Rightarrow> bool" where
  "requires_all_succeeded pb nd = list_ex (\<lambda>e. e_require e \<noteq> None) (incoming pb nd)"

text \<open>
  A node nobody declared as a join waits for all its inputs exactly when the fan-in is
  acyclic: it has at least two incoming edges and none of their sources can be reached from the
  node itself, so a merge point inside its own loop is never a barrier waiting for itself.
\<close>

theorem implicit_join_iff_acyclic:
  "(join_kind_of pb nd = Some Implicit) =
    (2 \<le> length (incoming pb nd) \<and> list_all (\<lambda>e. e_join e = None) (incoming pb nd)
     \<and> list_all (\<lambda>e. (nd, e_from e) \<notin> (edge_rel pb)\<^sup>*) (incoming pb nd))"
  by (auto simp: join_kind_of_def Let_def acyclic_fan_in_iff list_ex_iff list_all_iff)

section \<open>Unhandled failures\<close>

definition is_failure :: "string \<Rightarrow> bool" where
  "is_failure label = (from_label label = Failed \<or> from_label label = Timed_Out)"

text \<open>The scan over the finishes: the index of each node's latest failure, and the order of first failures.\<close>

definition failure_step ::
  "(string, nat) fmap \<times> string list \<Rightarrow> nat \<times> event \<Rightarrow> (string, nat) fmap \<times> string list" where
  "failure_step acc ie =
     (case (acc, ie) of ((last_failure, order), (i, e)) \<Rightarrow>
        (case ev_payload e of
           Node_Finished f \<Rightarrow>
             if is_failure (nf_status f)
             then (fmupd (nf_node f) i last_failure,
                   if nf_node f \<in> set order then order else order @ [nf_node f])
             else (fmdrop (nf_node f) last_failure, order)
         | _ \<Rightarrow> (last_failure, order)))"

definition failure_scan :: "event list \<Rightarrow> (string, nat) fmap \<times> string list" where
  "failure_scan es = foldl failure_step (fmempty, []) (enumerate 0 es)"

definition edges_between :: "playbook \<Rightarrow> string \<Rightarrow> string \<Rightarrow> edge list" where
  "edges_between pb from to = filter (\<lambda>e. e_from e = from \<and> e_to e = to) (pb_edges pb)"

definition hop_handles :: "playbook \<Rightarrow> string \<Rightarrow> edge_traversed \<Rightarrow> bool" where
  "hop_handles pb nd t =
     (let edges = edges_between pb (et_from t) (et_to t);
          into_join = (case join_kind_of pb (et_to t) of Some (Explicit _) \<Rightarrow> True | _ \<Rightarrow> False)
      in et_from t = nd
           \<and> (et_via_policy t \<or> into_join \<or> list_ex (\<lambda>e. e_condition e \<noteq> None \<or> e_fallback e) edges)
         \<or> list_ex (\<lambda>e. case e_condition e of Some c \<Rightarrow> condition_reads c nd | None \<Rightarrow> False) edges)"

text \<open>The walk over the hops after the failure, with its early exit; \<open>left\<close> is the result at the end.\<close>

fun hops_leave_unhandled :: "playbook \<Rightarrow> string \<Rightarrow> event list \<Rightarrow> bool \<Rightarrow> bool" where
  "hops_leave_unhandled pb nd [] left = left"
| "hops_leave_unhandled pb nd (e # es) left =
     (case ev_payload e of
        Edge_Traversed t \<Rightarrow>
          if hop_handles pb nd t then False
          else hops_leave_unhandled pb nd es (left \<or> et_from t = nd)
      | _ \<Rightarrow> hops_leave_unhandled pb nd es left)"

definition unhandled_failure :: "playbook \<Rightarrow> event list \<Rightarrow> string option" where
  "unhandled_failure pb es =
     (case failure_scan es of (last_failure, order) \<Rightarrow>
        List.find (\<lambda>nd. case fmlookup last_failure nd of
                     None \<Rightarrow> False
                   | Some at \<Rightarrow> hops_leave_unhandled pb nd (drop (at + 1) es) False) order)"

section \<open>What the scan and the walk compute\<close>

definition finishes :: "string \<Rightarrow> event \<Rightarrow> bool" where
  "finishes n e = (case ev_payload e of Node_Finished f \<Rightarrow> nf_node f = n | _ \<Rightarrow> False)"

definition fails :: "string \<Rightarrow> event \<Rightarrow> bool" where
  "fails n e = (case ev_payload e of Node_Finished f \<Rightarrow> nf_node f = n \<and> is_failure (nf_status f) | _ \<Rightarrow> False)"

definition leaves :: "string \<Rightarrow> event \<Rightarrow> bool" where
  "leaves n e = (case ev_payload e of Edge_Traversed t \<Rightarrow> et_from t = n | _ \<Rightarrow> False)"

definition handles :: "playbook \<Rightarrow> string \<Rightarrow> event \<Rightarrow> bool" where
  "handles pb n e = (case ev_payload e of Edge_Traversed t \<Rightarrow> hop_handles pb n t | _ \<Rightarrow> False)"

text \<open>The failure of \<open>n\<close> the journal ends on: not finished again, left, and never looked at.\<close>

definition left_unhandled :: "playbook \<Rightarrow> event list \<Rightarrow> string \<Rightarrow> bool" where
  "left_unhandled pb es n =
     (\<exists>xs e ys. es = xs @ e # ys \<and> fails n e \<and> list_all (\<lambda>y. \<not> finishes n y) ys
        \<and> list_ex (leaves n) ys \<and> list_all (\<lambda>y. \<not> handles pb n y) ys)"

lemma failure_step_simps:
  "fmlookup (fst (failure_step (m, order) (i, e))) n =
    (if fails n e then Some i else if finishes n e then None else fmlookup m n)"
  "(n \<in> set (snd (failure_step (m, order) (i, e)))) = (n \<in> set order \<or> fails n e)"
  by (auto simp: failure_step_def fails_def finishes_def split: event_payload.splits)

lemma failure_scan_snoc:
  "failure_scan (es @ [e]) = failure_step (failure_scan es) (length es, e)"
  by (simp add: failure_scan_def enumerate_append_eq)

lemma failure_scan_order: "(n \<in> set (snd (failure_scan es))) = list_ex (fails n) es"
proof (induction es rule: rev_induct)
  case Nil
  then show ?case by (simp add: failure_scan_def)
next
  case (snoc e es)
  then show ?case
    by (cases "failure_scan es") (simp add: failure_scan_snoc failure_step_simps)
qed

lemma failure_scan_latest:
  "(fmlookup (fst (failure_scan es)) n = Some k) =
    (\<exists>xs e ys. es = xs @ e # ys \<and> k = length xs \<and> fails n e \<and> list_all (\<lambda>y. \<not> finishes n y) ys)"
    (is "?L es = ?R es")
proof (induction es rule: rev_induct)
  case Nil
  then show ?case by (simp add: failure_scan_def)
next
  case (snoc e es)
  obtain m order where fs: "failure_scan es = (m, order)" by fastforce
  have fin: "fails n x \<Longrightarrow> finishes n x" for x
    by (auto simp: fails_def finishes_def split: event_payload.splits)
  have R: "?R (es @ [e]) = (fails n e \<and> k = length es \<or> \<not> finishes n e \<and> ?R es)"
  proof
    assume "?R (es @ [e])"
    then obtain xs x ys where s: "es @ [e] = xs @ x # ys" "k = length xs" "fails n x"
      "list_all (\<lambda>y. \<not> finishes n y) ys" by blast
    then show "fails n e \<and> k = length es \<or> \<not> finishes n e \<and> ?R es"
      by (cases ys rule: rev_cases) auto
  next
    assume "fails n e \<and> k = length es \<or> \<not> finishes n e \<and> ?R es"
    then show "?R (es @ [e])"
    proof
      assume "fails n e \<and> k = length es"
      then show ?thesis by fastforce
    next
      assume "\<not> finishes n e \<and> ?R es"
      then obtain xs x ys where "es = xs @ x # ys" "k = length xs" "fails n x"
        "list_all (\<lambda>y. \<not> finishes n y) (ys @ [e])" by auto
      then have "es @ [e] = xs @ x # (ys @ [e])" by simp
      then show ?thesis using \<open>k = length xs\<close> \<open>fails n x\<close> \<open>list_all _ (ys @ [e])\<close> by blast
    qed
  qed
  have "?L (es @ [e]) = (fails n e \<and> k = length es \<or> \<not> finishes n e \<and> ?L es)"
    using fin [of e] by (auto simp: failure_scan_snoc fs failure_step_simps)
  then show ?case unfolding R using snoc.IH by simp
qed

lemma hops_leave_unhandled_iff:
  "hops_leave_unhandled pb n ys left =
    ((left \<or> list_ex (leaves n) ys) \<and> list_all (\<lambda>y. \<not> handles pb n y) ys)"
proof (induction ys arbitrary: left)
  case (Cons y ys)
  then show ?case by (cases "ev_payload y") (auto simp: leaves_def handles_def)
qed simp

definition verdict :: "playbook \<Rightarrow> event list \<Rightarrow> string \<Rightarrow> bool" where
  "verdict pb es n =
     (case fmlookup (fst (failure_scan es)) n of
        None \<Rightarrow> False
      | Some k \<Rightarrow> hops_leave_unhandled pb n (drop (k + 1) es) False)"

lemma verdict_iff: "verdict pb es n = left_unhandled pb es n"
proof (cases "fmlookup (fst (failure_scan es)) n")
  case None
  then show ?thesis using failure_scan_latest [of es n] by (auto simp: verdict_def left_unhandled_def)
next
  case (Some k)
  then obtain xs e ys where s: "es = xs @ e # ys" "k = length xs" "fails n e"
    "list_all (\<lambda>y. \<not> finishes n y) ys" using failure_scan_latest [of es n k] by auto
  have uniq: "ys' = ys" if "es = xs' @ e' # ys'" "fails n e'" "list_all (\<lambda>y. \<not> finishes n y) ys'"
    for xs' e' ys'
  proof -
    have "fmlookup (fst (failure_scan es)) n = Some (length xs')"
      using failure_scan_latest that by blast
    then show ?thesis using Some s(1,2) that(1) by simp
  qed
  have "verdict pb es n = hops_leave_unhandled pb n ys False"
    using Some s(1,2) by (simp add: verdict_def)
  then show ?thesis
    unfolding hops_leave_unhandled_iff left_unhandled_def using s uniq by blast
qed

lemma unhandled_failure_find:
  "unhandled_failure pb es = List.find (verdict pb es) (snd (failure_scan es))"
  by (simp add: unhandled_failure_def verdict_def [abs_def] split: prod.splits)

text \<open>
  A run is told of an unhandled failure exactly when there is one: the check returns nothing
  if and only if no node's latest finish is a failure that the run left and never looked at again
  (no conditional, fallback or policy route out of it, no explicit join it fed, no condition that
  reads it), and a node it names is one.
\<close>

theorem unhandled_failure_exact:
  "case unhandled_failure pb es of
     None \<Rightarrow> \<forall>n. \<not> left_unhandled pb es n
   | Some n \<Rightarrow> left_unhandled pb es n"
proof -
  have "left_unhandled pb es n \<Longrightarrow> n \<in> set (snd (failure_scan es))" for n
    by (auto simp: failure_scan_order left_unhandled_def)
  then show ?thesis
    by (auto simp: unhandled_failure_find find_None_iff find_Some_iff verdict_iff split: option.splits)
qed

end
