(* ===== verification/Liveness.thy ===== *)
theory Liveness
  imports Join_Kind
begin

text \<open>
  Which way a finished node went, which heads a run still has outstanding, and which nodes it can
  still execute before a join runs: \<open>routed_targets\<close> and \<open>pending_heads\<close> of
  \<^verbatim>\<open>apb-engine/src/parallel.rs\<close> and the residual walk of
  \<^verbatim>\<open>parallel/liveness.rs\<close>.  The walk's queue may revisit a node once, when it
  learns that the node runs again; it terminates because every node can only be added and then
  upgraded.
\<close>

section \<open>Where a finished node went\<close>

definition routed_targets :: "json_reader \<Rightarrow> playbook \<Rightarrow> string \<Rightarrow> run_state \<Rightarrow> string fset" where
  "routed_targets J pb nd s =
     snd |`| ffilter (\<lambda>(from, to). from = nd \<and> pb_node pb to \<noteq> None \<and> routes s from to
                        \<and> hop_of_latest_run s from to) (rs_journaled_hops s)
     |\<union>| fset_of_list (map e_to (selected_edges_as_run J pb nd s))"

definition pending_heads_besides ::
  "json_reader \<Rightarrow> playbook \<Rightarrow> run_state \<Rightarrow> string list \<Rightarrow> string list" where
  "pending_heads_besides J pb s overridden =
     (let finished = ffilter (\<lambda>n. is_finished (current_status s n) \<and> n \<notin> set overridden)
                       (fmdom (rs_nodes s));
          heads = ffilter (\<lambda>t. \<not> is_finished (current_status s t) \<and> \<not> revived_after_finish s t)
                    (ffUnion ((\<lambda>n. routed_targets J pb n s) |`| finished))
      in sorted_list_of_fset heads)"

definition pending_heads :: "json_reader \<Rightarrow> playbook \<Rightarrow> run_state \<Rightarrow> string list" where
  "pending_heads J pb s = pending_heads_besides J pb s []"

section \<open>The residual walk\<close>

definition delivered_again :: "json_reader \<Rightarrow> playbook \<Rightarrow> run_state \<Rightarrow> string \<Rightarrow> bool" where
  "delivered_again J pb s nd =
     (case fmlookup (ns_finished (rs_seqs s)) nd of
        None \<Rightarrow> False
      | Some done1 \<Rightarrow>
          list_ex (\<lambda>e. e_to e = nd \<and> e_from e \<noteq> nd
              \<and> (case fmlookup (ns_finished (rs_seqs s)) (e_from e) of Some f \<Rightarrow> f > done1 | None \<Rightarrow> False)
              \<and> nd |\<in>| routed_targets J pb (e_from e) s) (pb_edges pb))"

definition runs_again :: "json_reader \<Rightarrow> playbook \<Rightarrow> run_state \<Rightarrow> string \<Rightarrow> bool \<Rightarrow> bool" where
  "runs_again J pb s nd from_runs =
     (from_runs \<or> \<not> is_finished (current_status s nd) \<or> delivered_again J pb s nd)"

definition live_next :: "json_reader \<Rightarrow> playbook \<Rightarrow> run_state \<Rightarrow> string \<Rightarrow> bool \<Rightarrow> string fset" where
  "live_next J pb s nd runs =
     (if runs then fset_of_list (map e_to (filter (\<lambda>e. e_from e = nd) (pb_edges pb)))
      else routed_targets J pb nd s)"

text \<open>Every node the walk can put on the queue is the target of an edge or a declared node.\<close>

definition walk_targets :: "playbook \<Rightarrow> string set" where
  "walk_targets pb = e_to ` set (pb_edges pb) \<union> n_id ` set (pb_nodes pb)"

lemma finite_walk_targets [simp]: "finite (walk_targets pb)"
  by (simp add: walk_targets_def)

lemma pb_node_declared: "pb_node pb t \<noteq> None \<Longrightarrow> t \<in> n_id ` set (pb_nodes pb)"
  by (auto simp: pb_node_def find_None_iff)

lemma routed_targets_walk: "fset (routed_targets J pb nd s) \<subseteq> walk_targets pb"
proof
  fix t
  assume "t \<in> fset (routed_targets J pb nd s)"
  then have "pb_node pb t \<noteq> None \<or> t \<in> e_to ` set (selected_edges_as_run J pb nd s)"
    by (auto simp: routed_targets_def fset_of_list.rep_eq)
  then show "t \<in> walk_targets pb"
    using selected_edges_as_run_elem [of _ J pb nd s] pb_node_declared [of pb t]
    by (auto simp: walk_targets_def)
qed

lemma live_next_walk: "fset (live_next J pb s nd runs) \<subseteq> walk_targets pb"
  using routed_targets_walk [of J pb nd s]
  by (auto simp: live_next_def walk_targets_def fset_of_list.rep_eq)

definition live_rank :: "(string, bool) fmap \<Rightarrow> string \<Rightarrow> nat" where
  "live_rank live n = (case fmlookup live n of None \<Rightarrow> 2 | Some False \<Rightarrow> 1 | Some True \<Rightarrow> 0)"

definition live_measure :: "playbook \<Rightarrow> (string, bool) fmap \<Rightarrow> (string \<times> bool) list \<Rightarrow> nat" where
  "live_measure pb live q = (\<Sum>n\<in>walk_targets pb \<union> fst ` set q. live_rank live n)"

lemma live_measure_skip: "live_measure pb live q \<le> live_measure pb live (x # q)"
  unfolding live_measure_def by (rule sum_mono2) auto

lemma live_measure_visit:
  assumes "fmlookup live i \<noteq> Some True" "fmlookup live i = None \<or> runs"
    and "fst ` set q' \<subseteq> fst ` set q \<union> walk_targets pb"
  shows "live_measure pb (fmupd i runs live) q' < live_measure pb live ((i, b) # q)"
proof -
  let ?U = "walk_targets pb \<union> fst ` set ((i, b) # q)"
  have "live_measure pb (fmupd i runs live) q' \<le> (\<Sum>n\<in>?U. live_rank (fmupd i runs live) n)"
    unfolding live_measure_def using assms(3) by (intro sum_mono2) auto
  also have "\<dots> < (\<Sum>n\<in>?U. live_rank live n)"
  proof (rule sum_strict_mono_ex1)
    show "\<forall>n\<in>?U. live_rank (fmupd i runs live) n \<le> live_rank live n"
      using assms(1,2) by (auto simp: live_rank_def split: option.splits bool.splits)
    have "live_rank (fmupd i runs live) i < live_rank live i"
      using assms(1,2) by (auto simp: live_rank_def split: option.splits bool.splits)
    then show "\<exists>n\<in>?U. live_rank (fmupd i runs live) n < live_rank live n" by auto
  qed simp
  finally show ?thesis by (simp add: live_measure_def)
qed

function live_loop ::
  "json_reader \<Rightarrow> playbook \<Rightarrow> run_state \<Rightarrow> string \<Rightarrow> (string, bool) fmap \<Rightarrow> (string \<times> bool) list
     \<Rightarrow> (string, bool) fmap" where
  "live_loop J pb s join live [] = live"
| "live_loop J pb s join live ((i, from_runs) # q) =
     (if fmlookup live i = Some True then live_loop J pb s join live q
      else let runs = runs_again J pb s i from_runs in
           if fmlookup live i \<noteq> None \<and> \<not> runs then live_loop J pb s join live q
           else if i = join then live_loop J pb s join (fmupd i runs live) q
           else live_loop J pb s join (fmupd i runs live)
                  (q @ map (\<lambda>n. (n, runs)) (sorted_list_of_fset (live_next J pb s i runs))))"
  by pat_completeness auto
termination
proof (relation "measures [\<lambda>(J, pb, s, join, live, q). live_measure pb live q,
                           \<lambda>(J, pb, s, join, live, q). length q]", goal_cases)
  case 1
  then show ?case by simp
next
  case (2 J pb s join live i from_runs q)
  then show ?case using live_measure_skip [of pb live q "(i, from_runs)"] by simp linarith
next
  case (3 J pb s join live i from_runs q runs)
  then show ?case using live_measure_skip [of pb live q "(i, from_runs)"] by simp linarith
next
  case (4 J pb s join live i from_runs q runs)
  then have "live_measure pb (fmupd i runs live) q < live_measure pb live ((i, from_runs) # q)"
    by (intro live_measure_visit) auto
  then show ?case by simp
next
  case (5 J pb s join live i from_runs q runs)
  then have "live_measure pb (fmupd i runs live)
      (q @ map (\<lambda>n. (n, runs)) (sorted_list_of_fset (live_next J pb s i runs)))
      < live_measure pb live ((i, from_runs) # q)"
    using live_next_walk [of J pb s i runs] by (intro live_measure_visit) force+
  then show ?case by simp
qed

definition live_nodes :: "json_reader \<Rightarrow> playbook \<Rightarrow> run_state \<Rightarrow> string list \<Rightarrow> string \<Rightarrow> string fset" where
  "live_nodes J pb s active join =
     fmdom (live_loop J pb s join fmempty (map (\<lambda>n. (n, False)) active))"

section \<open>The walk is the reachable region\<close>

text \<open>
  The region by rules: an active node is in it, and so is every node a member (other than the join)
  can lead to; the flag says that the node is known to run again.
\<close>

inductive live_walk ::
  "json_reader \<Rightarrow> playbook \<Rightarrow> run_state \<Rightarrow> string list \<Rightarrow> string \<Rightarrow> string \<Rightarrow> bool \<Rightarrow> bool"
  for J pb s active join where
  start: "n \<in> set active \<Longrightarrow> live_walk J pb s active join n (runs_again J pb s n False)"
| onward: "live_walk J pb s active join n b \<Longrightarrow> n \<noteq> join \<Longrightarrow> m |\<in>| live_next J pb s n b \<Longrightarrow>
    live_walk J pb s active join m (runs_again J pb s m b)"

inductive_cases live_walkE: "live_walk J pb s active join n b"

lemma live_loop_sound:
  assumes "\<And>i b. fmlookup live i = Some b \<Longrightarrow> live_walk J pb s active join i b"
    and "\<And>n fr. (n, fr) \<in> set q \<Longrightarrow> live_walk J pb s active join n (runs_again J pb s n fr)"
    and "fmlookup (live_loop J pb s join live q) i = Some b"
  shows "live_walk J pb s active join i b"
  using assms
proof (induction J pb s join live q rule: live_loop.induct)
  case (1 J pb s join live)
  then show ?case by simp
next
  case (2 J pb s join live n fr q)
  let ?runs = "runs_again J pb s n fr"
  have w: "live_walk J pb s active join n ?runs" using 2(6) by simp
  have upd: "fmlookup (fmupd n ?runs live) k = Some c \<Longrightarrow> live_walk J pb s active join k c" for k c
    using 2(5) w by (auto split: if_splits)
  consider (known) "fmlookup live n = Some True"
    | (same) "fmlookup live n \<noteq> Some True" "fmlookup live n \<noteq> None \<and> \<not> ?runs"
    | (join) "fmlookup live n \<noteq> Some True" "\<not> (fmlookup live n \<noteq> None \<and> \<not> ?runs)" "n = join"
    | (visit) "fmlookup live n \<noteq> Some True" "\<not> (fmlookup live n \<noteq> None \<and> \<not> ?runs)" "n \<noteq> join"
    by blast
  then show ?case
  proof cases
    case known
    then show ?thesis using 2(1) [OF known 2(5)] 2(6,7) by simp
  next
    case same
    then show ?thesis using 2(2) [OF same(1) refl same(2) 2(5)] 2(6,7) by (simp add: Let_def)
  next
    case join
    then show ?thesis using 2(3) [OF join(1) refl join(2,3) upd] 2(6,7) by (auto simp: Let_def)
  next
    case visit
    have "(m, c) \<in> set (q @ map (\<lambda>n. (n, ?runs)) (sorted_list_of_fset (live_next J pb s n ?runs))) \<Longrightarrow>
        live_walk J pb s active join m (runs_again J pb s m c)" for m c
      using 2(6) live_walk.onward [OF w visit(3)] by auto
    then show ?thesis using 2(4) [OF visit(1) refl visit(2,3) upd] 2(7) visit by (auto simp: Let_def)
  qed
qed

text \<open>A pending visit: done with at least its flag, or still queued.\<close>

definition covered ::
  "json_reader \<Rightarrow> playbook \<Rightarrow> run_state \<Rightarrow> (string, bool) fmap \<Rightarrow> (string \<times> bool) list \<Rightarrow> string \<times> bool \<Rightarrow> bool" where
  "covered J pb s live q v =
     (v \<in> set q \<or> (\<exists>b. fmlookup live (fst v) = Some b \<and> (runs_again J pb s (fst v) (snd v) \<longrightarrow> b)))"

definition live_closed ::
  "json_reader \<Rightarrow> playbook \<Rightarrow> run_state \<Rightarrow> string \<Rightarrow> (string, bool) fmap \<Rightarrow> (string \<times> bool) list \<Rightarrow> bool" where
  "live_closed J pb s join live q =
     (\<forall>n b m. fmlookup live n = Some b \<and> n \<noteq> join \<and> m |\<in>| live_next J pb s n b \<longrightarrow>
        covered J pb s live q (m, b))"

lemma covered_skip:
  assumes "covered J pb s live ((n, fr) # q) v" "covered J pb s live q (n, fr)"
  shows "covered J pb s live q v"
  using assms by (auto simp: covered_def)

lemma covered_visit:
  assumes "covered J pb s live ((n, fr) # q) v" "fmlookup live n = None \<or> runs_again J pb s n fr"
  shows "covered J pb s (fmupd n (runs_again J pb s n fr) live) (q @ q') v"
  using assms by (auto simp: covered_def)

lemma live_loop_closed:
  assumes "live_closed J pb s join live q"
  shows "live_closed J pb s join (live_loop J pb s join live q) []
    \<and> (\<forall>v. covered J pb s live q v \<longrightarrow> covered J pb s (live_loop J pb s join live q) [] v)"
  using assms
proof (induction J pb s join live q rule: live_loop.induct)
  case (1 J pb s join live)
  then show ?case by simp
next
  case (2 J pb s join live n fr q)
  let ?runs = "runs_again J pb s n fr"
  note closed = 2(5)
  have skip: ?case if c: "covered J pb s live q (n, fr)"
    and l: "live_loop J pb s join live ((n, fr) # q) = live_loop J pb s join live q"
    and IH: "live_closed J pb s join live q \<Longrightarrow> live_closed J pb s join (live_loop J pb s join live q) []
      \<and> (\<forall>v. covered J pb s live q v \<longrightarrow> covered J pb s (live_loop J pb s join live q) [] v)"
  proof -
    have "live_closed J pb s join live q"
      using closed covered_skip [OF _ c] unfolding live_closed_def by blast
    then show ?thesis unfolding l using IH covered_skip [OF _ c] by blast
  qed
  have visit: ?case if v: "fmlookup live n = None \<or> ?runs"
    and l: "live_loop J pb s join live ((n, fr) # q) = live_loop J pb s join (fmupd n ?runs live) (q @ q')"
    and onw: "n = join \<or> (\<forall>m. m |\<in>| live_next J pb s n ?runs \<longrightarrow> (m, ?runs) \<in> set q')"
    and IH: "live_closed J pb s join (fmupd n ?runs live) (q @ q') \<Longrightarrow>
      live_closed J pb s join (live_loop J pb s join (fmupd n ?runs live) (q @ q')) []
      \<and> (\<forall>v. covered J pb s (fmupd n ?runs live) (q @ q') v \<longrightarrow>
           covered J pb s (live_loop J pb s join (fmupd n ?runs live) (q @ q')) [] v)" for q'
  proof -
    have "live_closed J pb s join (fmupd n ?runs live) (q @ q')"
      unfolding live_closed_def
    proof (intro allI impI)
      fix k b m
      assume a: "fmlookup (fmupd n ?runs live) k = Some b \<and> k \<noteq> join \<and> m |\<in>| live_next J pb s k b"
      show "covered J pb s (fmupd n ?runs live) (q @ q') (m, b)"
      proof (cases "k = n")
        case True
        then show ?thesis using a onw by (auto simp: covered_def)
      next
        case False
        then show ?thesis using a closed covered_visit [OF _ v] unfolding live_closed_def by simp
      qed
    qed
    then show ?thesis unfolding l using IH covered_visit [OF _ v] by blast
  qed
  consider (known) "fmlookup live n = Some True"
    | (same) "fmlookup live n \<noteq> Some True" "fmlookup live n \<noteq> None \<and> \<not> ?runs"
    | (join) "fmlookup live n \<noteq> Some True" "\<not> (fmlookup live n \<noteq> None \<and> \<not> ?runs)" "n = join"
    | (walk) "fmlookup live n \<noteq> Some True" "\<not> (fmlookup live n \<noteq> None \<and> \<not> ?runs)" "n \<noteq> join"
    by blast
  then show ?case
  proof cases
    case known
    then show ?thesis by (intro skip 2(1)) (auto simp: covered_def)
  next
    case same
    then show ?thesis by (intro skip 2(2)) (auto simp: covered_def Let_def)
  next
    case join
    then show ?thesis using visit [of "[]"] 2(3) by (auto simp: Let_def)
  next
    case walk
    then show ?thesis
      using visit [of "map (\<lambda>n. (n, ?runs)) (sorted_list_of_fset (live_next J pb s n ?runs))"]
        2(4) [OF walk(1) refl walk(2,3)] by (auto simp: Let_def)
  qed
qed

lemma live_nodes_sound:
  "n |\<in>| live_nodes J pb s active join \<Longrightarrow> \<exists>b. live_walk J pb s active join n b"
  using live_loop_sound [of fmempty J pb s active join "map (\<lambda>n. (n, False)) active" n]
  by (auto simp: live_nodes_def fmlookup_dom_iff intro: live_walk.start)

lemma live_nodes_complete:
  assumes hops: "\<And>k. fset (live_next J pb s k False) \<subseteq> fset (live_next J pb s k True)"
    and w: "live_walk J pb s active join n b"
  shows "n |\<in>| live_nodes J pb s active join"
proof -
  let ?q = "map (\<lambda>n. (n, False)) active"
  let ?fin = "live_loop J pb s join fmempty ?q"
  have closed: "live_closed J pb s join ?fin []"
    and cov: "\<And>v. v \<in> set ?q \<Longrightarrow> covered J pb s ?fin [] v"
    using live_loop_closed [of J pb s join fmempty ?q] by (auto simp: live_closed_def covered_def)
  have "\<exists>c. fmlookup ?fin n = Some c \<and> (b \<longrightarrow> c)"
    using w
  proof (induction rule: live_walk.induct)
    case (start n)
    then show ?case using cov [of "(n, False)"] by (auto simp: covered_def)
  next
    case (onward k b m)
    then obtain c where c: "fmlookup ?fin k = Some c" "b \<longrightarrow> c" by blast
    then have "m |\<in>| live_next J pb s k c" using onward(3) hops [of k] by (cases b; cases c) auto
    then have "covered J pb s ?fin [] (m, c)" using closed c(1) onward(2) unfolding live_closed_def by blast
    then show ?case using c(2) by (auto simp: covered_def runs_again_def)
  qed
  then show ?thesis by (auto simp: live_nodes_def intro: fmdomI)
qed

lemma live_nodes_active:
  assumes "n \<in> set active"
  shows "n |\<in>| live_nodes J pb s active join"
proof -
  let ?q = "map (\<lambda>n. (n, False)) active"
  have "covered J pb s fmempty ?q (n, False)" using assms by (auto simp: covered_def)
  then have "covered J pb s (live_loop J pb s join fmempty ?q) [] (n, False)"
    using live_loop_closed [of J pb s join fmempty ?q] by (auto simp: live_closed_def)
  then show ?thesis by (auto simp: covered_def live_nodes_def intro: fmdomI)
qed

lemma live_nodes_none [simp]: "live_nodes J pb s [] join = fempty"
  by (simp add: live_nodes_def)



end
