(* ===== verification/Join.thy ===== *)
theory Join
  imports Liveness
begin

text \<open>
  Readiness of a synchronizing node, \<^verbatim>\<open>apb-engine/src/parallel.rs\<close>: what each
  incoming branch contributes (still possible, delivered, dead), the verdict, and the three lists
  of inputs the drive journals (dead, pending, refused).  \<open>active\<close> is the set of nodes the run can
  still execute.
\<close>

section \<open>Definitions\<close>

datatype join_readiness = Not_Ready | Ready_Success | Ready_Failure | Refused

definition succeeded :: "node_status \<Rightarrow> bool" where
  "succeeded st = (st = Succeeded)"

datatype arrival = Can_Arrive | Delivered node_status | Dead

definition delivered_into_an_earlier_round ::
  "playbook \<Rightarrow> string \<Rightarrow> string \<Rightarrow> run_state \<Rightarrow> bool" where
  "delivered_into_an_earlier_round pb join source s =
     (join_consumed s source join \<and> source |\<in>| reachable_from (adjacency pb) join)"

definition arrival_of ::
  "json_reader \<Rightarrow> playbook \<Rightarrow> string \<Rightarrow> run_state \<Rightarrow> string fset \<Rightarrow> string \<Rightarrow> arrival" where
  "arrival_of J pb nd s live source =
     (let status = current_status s source in
      if \<not> is_finished status \<or> delivered_into_an_earlier_round pb nd source s
      then (if source |\<in>| live then Can_Arrive else Dead)
      else if nd |\<in>| routed_targets J pb source s then Delivered status
      else Dead)"

definition arrivals :: "json_reader \<Rightarrow> playbook \<Rightarrow> string \<Rightarrow> run_state \<Rightarrow> string list \<Rightarrow> arrival list" where
  "arrivals J pb nd s active =
     map (\<lambda>e. arrival_of J pb nd s (live_nodes J pb s active nd) (e_from e)) (incoming pb nd)"

definition delivered :: "arrival list \<Rightarrow> node_status list" where
  "delivered as = List.map_filter (\<lambda>a. case a of Delivered st \<Rightarrow> Some st | _ \<Rightarrow> None) as"

definition all_arrived_succeeded :: "arrival list \<Rightarrow> bool" where
  "all_arrived_succeeded as = list_all (\<lambda>a. case a of Delivered st \<Rightarrow> succeeded st | _ \<Rightarrow> False) as"

definition join_readiness_of ::
  "json_reader \<Rightarrow> playbook \<Rightarrow> string \<Rightarrow> run_state \<Rightarrow> string list \<Rightarrow> join_readiness" where
  "join_readiness_of J pb nd s active =
     (case join_kind_of pb nd of
        None \<Rightarrow> Ready_Success
      | Some kind \<Rightarrow>
          let as = arrivals J pb nd s active;
              waiting = Can_Arrive \<in> set as
          in
          if requires_all_succeeded pb nd \<and> \<not> waiting \<and> \<not> all_arrived_succeeded as then Refused
          else if delivered as = [] \<and> \<not> waiting then Ready_Success
          else
            (case kind of
               Implicit \<Rightarrow> if waiting then Not_Ready else Ready_Success
             | Explicit Join_All \<Rightarrow>
                 if waiting then Not_Ready
                 else if list_all succeeded (delivered as) then Ready_Success
                 else Ready_Failure
             | Explicit Join_Any \<Rightarrow>
                 if list_ex succeeded (delivered as) then Ready_Success
                 else if waiting then Not_Ready
                 else Ready_Failure))"

text \<open>\<^verbatim>\<open>if !out.contains(x) { out.push(x) }\<close>\<close>

definition push_new :: "string list \<Rightarrow> string \<Rightarrow> string list" where
  "push_new out x = (if x \<in> set out then out else out @ [x])"

definition refused_inputs ::
  "json_reader \<Rightarrow> playbook \<Rightarrow> string \<Rightarrow> run_state \<Rightarrow> string list \<Rightarrow> string list" where
  "refused_inputs J pb nd s active =
     (let live = live_nodes J pb s active nd in
      foldl (\<lambda>out e.
          let ok = (case arrival_of J pb nd s live (e_from e) of Delivered st \<Rightarrow> succeeded st | _ \<Rightarrow> False)
          in if ok then out else push_new out (e_from e))
        [] (incoming pb nd))"

definition dead_inputs ::
  "json_reader \<Rightarrow> playbook \<Rightarrow> string \<Rightarrow> run_state \<Rightarrow> string list \<Rightarrow> string list" where
  "dead_inputs J pb nd s active =
     (if join_kind_of pb nd = None then []
      else let live = live_nodes J pb s active nd in
           map e_from (filter (\<lambda>e. arrival_of J pb nd s live (e_from e) = Dead) (incoming pb nd)))"

definition pending_inputs ::
  "json_reader \<Rightarrow> playbook \<Rightarrow> string \<Rightarrow> run_state \<Rightarrow> string list \<Rightarrow> string list" where
  "pending_inputs J pb nd s active =
     (if join_kind_of pb nd = None then []
      else let live = live_nodes J pb s active nd in
           foldl (\<lambda>out e.
               if arrival_of J pb nd s live (e_from e) = Can_Arrive then push_new out (e_from e) else out)
             [] (incoming pb nd))"

section \<open>The lists and the verdict agree\<close>

definition sources :: "playbook \<Rightarrow> string \<Rightarrow> string set" where
  "sources pb nd = e_from ` set (incoming pb nd)"

definition arrives ::
  "json_reader \<Rightarrow> playbook \<Rightarrow> string \<Rightarrow> run_state \<Rightarrow> string list \<Rightarrow> string \<Rightarrow> arrival" where
  "arrives J pb nd s active n = arrival_of J pb nd s (live_nodes J pb s active nd) n"

lemma set_push_new [simp]: "set (push_new out x) = insert x (set out)"
  by (auto simp: push_new_def)

lemma foldl_push_new:
  "set (foldl (\<lambda>out e. if P e then push_new out (f e) else out) acc es)
    = set acc \<union> f ` {e \<in> set es. P e}"
  by (induction es arbitrary: acc) auto

lemma set_arrivals: "set (arrivals J pb nd s active) = arrives J pb nd s active ` sources pb nd"
  by (auto simp: arrivals_def arrives_def sources_def)

lemma set_delivered: "set (delivered as) = {st. Delivered st \<in> set as}"
  by (induction as) (auto simp: delivered_def List.map_filter_def split: arrival.splits)

lemma set_dead_inputs:
  "join_kind_of pb nd \<noteq> None \<Longrightarrow>
    set (dead_inputs J pb nd s active) = {n \<in> sources pb nd. arrives J pb nd s active n = Dead}"
  by (auto simp: dead_inputs_def Let_def sources_def arrives_def)

lemma set_pending_inputs:
  "join_kind_of pb nd \<noteq> None \<Longrightarrow>
    set (pending_inputs J pb nd s active) = {n \<in> sources pb nd. arrives J pb nd s active n = Can_Arrive}"
  by (auto simp: pending_inputs_def Let_def foldl_push_new sources_def arrives_def)

lemma set_refused_inputs:
  "set (refused_inputs J pb nd s active) =
    {n \<in> sources pb nd. \<not> (arrives J pb nd s active n = Delivered Succeeded)}"
proof -
  have ok: "(case a of Delivered st \<Rightarrow> succeeded st | _ \<Rightarrow> False) = (a = Delivered Succeeded)" for a
    by (cases a) (auto simp: succeeded_def)
  have "refused_inputs J pb nd s active =
      foldl (\<lambda>out e. if arrives J pb nd s active (e_from e) \<noteq> Delivered Succeeded
                     then push_new out (e_from e) else out) [] (incoming pb nd)"
    unfolding refused_inputs_def Let_def ok arrives_def
    by (intro foldl_cong) auto
  then show ?thesis by (auto simp: foldl_push_new sources_def)
qed

lemma arrives_status:
  "arrives J pb nd s active n = Delivered st \<Longrightarrow> st = current_status s n \<and> is_finished st"
  by (auto simp: arrives_def arrival_of_def Let_def split: if_splits)

text \<open>
  What a join promises, over the lists the drive journals: which inputs are pending and dead, and
  the statuses of the inputs that are neither.
\<close>

definition landed :: "json_reader \<Rightarrow> playbook \<Rightarrow> string \<Rightarrow> run_state \<Rightarrow> string list \<Rightarrow> string set" where
  "landed J pb nd s active =
     sources pb nd - set (dead_inputs J pb nd s active) - set (pending_inputs J pb nd s active)"

definition good :: "run_state \<Rightarrow> string set" where
  "good s = {n. current_status s n = Succeeded}"

definition join_contract ::
  "json_reader \<Rightarrow> playbook \<Rightarrow> string \<Rightarrow> run_state \<Rightarrow> string list \<Rightarrow> join_readiness" where
  "join_contract J pb nd s active =
     (let waits = pending_inputs J pb nd s active \<noteq> [];
          dead = dead_inputs J pb nd s active \<noteq> [];
          arrived = landed J pb nd s active
      in case join_kind_of pb nd of
           None \<Rightarrow> Ready_Success
         | Some kind \<Rightarrow>
             if requires_all_succeeded pb nd \<and> \<not> waits \<and> (dead \<or> \<not> arrived \<subseteq> good s) then Refused
             else if arrived = {} \<and> \<not> waits then Ready_Success
             else if kind = Explicit Join_Any \<and> arrived \<inter> good s \<noteq> {} then Ready_Success
             else if waits then Not_Ready
             else if kind = Implicit \<or> kind = Explicit Join_All \<and> arrived \<subseteq> good s then Ready_Success
             else Ready_Failure)"

lemma landed_arrives:
  assumes "join_kind_of pb nd \<noteq> None"
  shows "landed J pb nd s active =
    {n \<in> sources pb nd. arrives J pb nd s active n = Delivered (current_status s n)}"
proof -
  have "(a \<noteq> Dead \<and> a \<noteq> Can_Arrive) = (\<exists>st. a = Delivered st)" for a by (cases a) auto
  then show ?thesis
    unfolding landed_def set_dead_inputs [OF assms] set_pending_inputs [OF assms]
    by (auto dest: arrives_status)
qed

lemma arrivals_facts:
  assumes "join_kind_of pb nd \<noteq> None"
  shows "(Can_Arrive \<in> set (arrivals J pb nd s active)) = (pending_inputs J pb nd s active \<noteq> [])"
    and "all_arrived_succeeded (arrivals J pb nd s active) =
      (pending_inputs J pb nd s active = [] \<and> dead_inputs J pb nd s active = []
       \<and> landed J pb nd s active \<subseteq> good s)"
    and "(delivered (arrivals J pb nd s active) = []) = (landed J pb nd s active = {})"
    and "list_all succeeded (delivered (arrivals J pb nd s active)) = (landed J pb nd s active \<subseteq> good s)"
    and "list_ex succeeded (delivered (arrivals J pb nd s active)) = (landed J pb nd s active \<inter> good s \<noteq> {})"
proof -
  let ?a = "arrives J pb nd s active" and ?S = "sources pb nd"
  have L: "landed J pb nd s active = {n \<in> ?S. ?a n = Delivered (current_status s n)}"
    by (rule landed_arrives [OF assms])
  have D: "set (delivered (arrivals J pb nd s active)) = current_status s ` landed J pb nd s active"
    unfolding set_delivered set_arrivals L
    by (auto simp: image_iff) (metis arrives_status)+
  have P: "(pending_inputs J pb nd s active = []) = (\<forall>n\<in>?S. ?a n \<noteq> Can_Arrive)"
    unfolding set_empty [symmetric] set_pending_inputs [OF assms] by auto
  have E: "(dead_inputs J pb nd s active = []) = (\<forall>n\<in>?S. ?a n \<noteq> Dead)"
    unfolding set_empty [symmetric] set_dead_inputs [OF assms] by auto
  show "(Can_Arrive \<in> set (arrivals J pb nd s active)) = (pending_inputs J pb nd s active \<noteq> [])"
    unfolding P set_arrivals image_iff by metis
  have ok: "(case x of Delivered st \<Rightarrow> succeeded st | _ \<Rightarrow> False) = (x = Delivered Succeeded)" for x
    by (cases x) (auto simp: succeeded_def)
  have cases: "(x = Delivered Succeeded) = (x \<noteq> Can_Arrive \<and> x \<noteq> Dead \<and> (\<forall>st. x = Delivered st \<longrightarrow> st = Succeeded))"
    for x by (cases x) auto
  have "all_arrived_succeeded (arrivals J pb nd s active) = (\<forall>n\<in>?S. ?a n = Delivered Succeeded)"
    unfolding all_arrived_succeeded_def ok list_all_iff set_arrivals by auto
  also have "\<dots> = ((\<forall>n\<in>?S. ?a n \<noteq> Can_Arrive) \<and> (\<forall>n\<in>?S. ?a n \<noteq> Dead)
      \<and> (\<forall>n\<in>?S. \<forall>st. ?a n = Delivered st \<longrightarrow> st = Succeeded))"
    unfolding cases by blast
  also have "(\<forall>n\<in>?S. \<forall>st. ?a n = Delivered st \<longrightarrow> st = Succeeded) = (landed J pb nd s active \<subseteq> good s)"
  proof (intro iffI subsetI ballI allI impI)
    fix n st
    assume "landed J pb nd s active \<subseteq> good s" "n \<in> ?S" "?a n = Delivered st"
    moreover have "st = current_status s n" using arrives_status [OF calculation(3)] ..
    ultimately show "st = Succeeded" unfolding L good_def by blast
  qed (auto simp: L good_def)
  finally show "all_arrived_succeeded (arrivals J pb nd s active) =
      (pending_inputs J pb nd s active = [] \<and> dead_inputs J pb nd s active = []
       \<and> landed J pb nd s active \<subseteq> good s)"
    unfolding P E .
  show "(delivered (arrivals J pb nd s active) = []) = (landed J pb nd s active = {})"
    unfolding set_empty [symmetric] D by simp
  show "list_all succeeded (delivered (arrivals J pb nd s active)) = (landed J pb nd s active \<subseteq> good s)"
    unfolding list_all_iff D by (auto simp: succeeded_def good_def)
  show "list_ex succeeded (delivered (arrivals J pb nd s active)) = (landed J pb nd s active \<inter> good s \<noteq> {})"
    unfolding list_ex_iff D by (force simp: succeeded_def good_def)
qed

text \<open>
  C6: the verdict on a join and the inputs the drive journals for it come from one decision: a
  join with \<^verbatim>\<open>require: all_succeeded\<close> refuses as soon as nothing is pending and an
  input is dead or did not succeed; nothing delivered and nothing pending means run; \<^verbatim>\<open>any\<close>
  succeeds on its first success; otherwise a join waits exactly while an input is pending, an
  implicit join then always runs, \<^verbatim>\<open>all\<close> succeeds when every delivered input
  succeeded, and everything else fails.
\<close>

theorem join_verdict:
  "join_readiness_of J pb nd s active = join_contract J pb nd s active"
proof (cases "join_kind_of pb nd")
  case None
  then show ?thesis by (simp add: join_readiness_of_def join_contract_def Let_def)
next
  case (Some kind)
  then have k: "join_kind_of pb nd \<noteq> None" by simp
  have mode: "m = Join_All \<or> m = Join_Any" for m by (cases m) simp_all
  show ?thesis
    unfolding join_readiness_of_def join_contract_def Let_def Some option.case arrivals_facts [OF k]
    using mode by (cases kind) (force split: join_mode.split)+
qed

text \<open>
  C7: no deadlock at a join: a join only ever waits for an input the residual walk still reaches
  from an active node; with nothing left to run it never waits.
\<close>

theorem join_waits_for_the_living:
  assumes "join_readiness_of J pb nd s active = Not_Ready"
  shows "active \<noteq> [] \<and> (\<exists>e b. e \<in> set (incoming pb nd) \<and> live_walk J pb s active nd (e_from e) b)"
proof -
  have k: "join_kind_of pb nd \<noteq> None"
    using assms by (cases "join_kind_of pb nd") (simp_all add: join_readiness_of_def)
  have "Can_Arrive \<in> set (arrivals J pb nd s active)"
    using assms by (auto simp: join_readiness_of_def Let_def split: option.splits if_splits
        join_kind.splits join_mode.splits)
  then obtain e where e: "e \<in> set (incoming pb nd)"
    "arrival_of J pb nd s (live_nodes J pb s active nd) (e_from e) = Can_Arrive"
    by (auto simp: arrivals_def)
  then have l: "e_from e |\<in>| live_nodes J pb s active nd"
    by (auto simp: arrival_of_def Let_def split: if_splits)
  then have "active \<noteq> []" by auto
  then show ?thesis using e(1) live_nodes_sound [OF l] by blast
qed

text \<open>A fan-out whose right branch has not run yet keeps the join of both waiting.\<close>

theorem join_waits_for_the_living_witness:
  "let pb = plain_playbook []
       [plain_edge ''a'' ''j'', (plain_edge ''b'' ''j'')\<lparr>e_join := Some ''all''\<rparr>]
   in join_readiness_of (\<lambda>_. None) pb ''j'' state_init [''b''] = Not_Ready
      \<and> (\<exists>e b. e \<in> set (incoming pb ''j'') \<and> live_walk (\<lambda>_. None) pb state_init [''b''] ''j'' (e_from e) b)"
proof -
  let ?pb = "plain_playbook [] [plain_edge ''a'' ''j'', (plain_edge ''b'' ''j'')\<lparr>e_join := Some ''all''\<rparr>]"
  have inc: "incoming ?pb ''j'' = [plain_edge ''a'' ''j'', (plain_edge ''b'' ''j'')\<lparr>e_join := Some ''all''\<rparr>]"
    by (simp add: incoming_def)
  have kind: "join_kind_of ?pb ''j'' = Some (Explicit Join_All)"
    by (simp add: join_kind_of_def inc join_mode_of_def first_join_def join_mode_parse_def)
  have b: "''b'' |\<in>| live_nodes (\<lambda>_. None) ?pb state_init [''b''] ''j''"
    by (rule live_nodes_active) simp
  have "current_status state_init n = Pending" for n
    by (simp add: current_status_def state_init_def fget_def)
  then have "Can_Arrive \<in> set (arrivals (\<lambda>_. None) ?pb ''j'' state_init [''b''])"
    using b by (simp add: arrivals_def inc arrival_of_def is_finished_def)
  then have "join_readiness_of (\<lambda>_. None) ?pb ''j'' state_init [''b''] = Not_Ready"
    by (simp add: join_readiness_of_def kind Let_def)
  then show ?thesis
    using join_waits_for_the_living [of "\<lambda>_. None" ?pb "''j''" state_init "[''b'']"]
    unfolding Let_def by blast
qed

text \<open>
  A \<^verbatim>\<open>join_refused\<close> record is never empty and never premature: a strict join
  refuses exactly when no input can still arrive and the list of refused inputs is not empty, and
  that list is exactly the inputs that did not arrive succeeded.
\<close>

theorem refusal_names_inputs:
  "(join_readiness_of J pb nd s active = Refused) =
    (is_join pb nd \<and> requires_all_succeeded pb nd \<and> pending_inputs J pb nd s active = []
     \<and> refused_inputs J pb nd s active \<noteq> [])
   \<and> set (refused_inputs J pb nd s active) =
       {n \<in> sources pb nd. arrives J pb nd s active n \<noteq> Delivered Succeeded}"
proof
  show "set (refused_inputs J pb nd s active) =
      {n \<in> sources pb nd. arrives J pb nd s active n \<noteq> Delivered Succeeded}"
    by (rule set_refused_inputs)
  show "(join_readiness_of J pb nd s active = Refused) =
    (is_join pb nd \<and> requires_all_succeeded pb nd \<and> pending_inputs J pb nd s active = []
     \<and> refused_inputs J pb nd s active \<noteq> [])"
  proof (cases "join_kind_of pb nd")
    case None
    then show ?thesis by (simp add: join_readiness_of_def is_join_def)
  next
    case (Some kind)
    then have k: "join_kind_of pb nd \<noteq> None" by simp
    have ok: "(case x of Delivered st \<Rightarrow> succeeded st | _ \<Rightarrow> False) = (x = Delivered Succeeded)" for x
      by (cases x) (auto simp: succeeded_def)
    have "all_arrived_succeeded (arrivals J pb nd s active) = (refused_inputs J pb nd s active = [])"
      unfolding all_arrived_succeeded_def ok list_all_iff set_arrivals set_empty [symmetric]
        set_refused_inputs by auto
    then show ?thesis
      using arrivals_facts(1) [OF k, of J s active] Some
      by (auto simp: join_readiness_of_def is_join_def Let_def split: join_kind.splits join_mode.splits)
  qed
qed

end
