(* ===== verification/Revival.thy ===== *)
theory Revival
  imports Join
begin

text \<open>
  The nodes a drive runs again when it executes some nodes again,
  \<^verbatim>\<open>apb-engine/src/parallel/revive.rs\<close>: each start together with everything only
  downstream of it (the forward walk that never enters an ancestor of the start), the
  \<^verbatim>\<open>defaults.on_failure\<close> handler counting as a hop where it is a real one.
\<close>

section \<open>Definitions\<close>

definition push_next :: "string fset \<Rightarrow> string fset \<times> string list \<Rightarrow> string \<Rightarrow> string fset \<times> string list" where
  "push_next stop sq nx =
     (case sq of (seen, q) \<Rightarrow>
        if nx |\<notin>| stop \<and> nx |\<notin>| seen then (finsert nx seen, q @ [nx]) else (seen, q))"

lemma push_next_fold:
  assumes "foldl (push_next stop) (seen, q) ns = (seen', q')"
  shows "fset seen' = fset seen \<union> (set ns - fset stop)" (is ?A)
    and "set q' = set q \<union> (set ns - fset stop - fset seen)" (is ?B)
    and "fset seen \<subseteq> fset seen' \<and> (fset seen' = fset seen \<longrightarrow> q' = q)" (is ?C)
proof -
  have "?A \<and> ?B \<and> ?C"
    using assms
  proof (induction ns arbitrary: seen q)
    case Nil
    then show ?case by auto
  next
    case (Cons n ns)
    obtain s1 q1 where p: "push_next stop (seen, q) n = (s1, q1)" by fastforce
    then have c: "if n |\<notin>| stop \<and> n |\<notin>| seen then s1 = finsert n seen \<and> q1 = q @ [n] else s1 = seen \<and> q1 = q"
      by (auto simp: push_next_def split: if_splits)
    have "foldl (push_next stop) (s1, q1) ns = (seen', q')" using Cons.prems p by simp
    note IH = Cons.IH [OF this]
    show ?case
    proof (cases "n |\<notin>| stop \<and> n |\<notin>| seen")
      case True
      then have "s1 = finsert n seen" "q1 = q @ [n]" using c by auto
      then show ?thesis using IH True by auto
    next
      case False
      then have "s1 = seen" "q1 = q" using c by auto
      then show ?thesis using IH False by auto
    qed
  qed
  then show ?A ?B ?C by simp_all
qed

function walk_loop :: "adjacency_map \<Rightarrow> string fset \<Rightarrow> string fset \<Rightarrow> string list \<Rightarrow> string fset" where
  "walk_loop adj stop seen [] = seen"
| "walk_loop adj stop seen (i # q) =
     (case foldl (push_next stop) (seen, q) (fget adj [] i) of
        (seen', q') \<Rightarrow> walk_loop adj stop seen' q')"
  by pat_completeness auto
termination
proof (relation "measures [\<lambda>(adj, stop, seen, q). card (adj_targets adj - fset seen),
                           \<lambda>(adj, stop, seen, q). length q]", simp, goal_cases)
  case (1 adj stop seen i q seen' q')
  then have f: "foldl (push_next stop) (seen, q) (fget adj [] i) = (seen', q')" by (rule sym)
  note p = push_next_fold [OF f]
  show ?case
  proof (cases "fset seen' = fset seen")
    case True
    then show ?thesis using p(3) by simp
  next
    case False
    have "fset seen' - fset seen \<subseteq> adj_targets adj" using p(1) fget_targets [of adj i] by auto
    then have "adj_targets adj - fset seen' \<subset> adj_targets adj - fset seen"
      using p(3) False by auto
    then show ?thesis by (simp add: psubset_card_mono)
  qed
qed

definition walk_from :: "adjacency_map \<Rightarrow> string \<Rightarrow> string fset \<Rightarrow> string fset" where
  "walk_from adj from stop = walk_loop adj stop fempty [from] |-| {|from|}"

definition downstream_only :: "adjacency_map \<Rightarrow> adjacency_map \<Rightarrow> string \<Rightarrow> string fset" where
  "downstream_only forward reverse start =
     (let ancestors = walk_from reverse start fempty
      in finsert start (walk_from forward start ancestors))"

definition reverse_adjacency :: "playbook \<Rightarrow> adjacency_map" where
  "reverse_adjacency pb =
     foldl (\<lambda>adj e. fmupd (e_to e) (fget adj [] (e_to e) @ [e_from e]) adj) fmempty (pb_edges pb)"

text \<open>Whether a node's failure policy is a real hop out of it, and the hop's target.\<close>

definition policy_hop :: "json_reader \<Rightarrow> playbook \<Rightarrow> run_state \<Rightarrow> string list \<Rightarrow> string \<Rightarrow> string option" where
  "policy_hop J pb s starts i =
     (case target_for (d_on_failure (pb_defaults pb)) i of
        None \<Rightarrow> None
      | Some handler \<Rightarrow>
          let routed = (i, handler) |\<in>| rs_journaled_hops s;
              failed_start = i \<in> set starts
                \<and> (case fmlookup (rs_nodes s) i of Some st \<Rightarrow> st = Failed \<or> st = Timed_Out | None \<Rightarrow> False)
                \<and> selected_edges J pb i s = []
                \<and> i |\<notin>| rs_route_suppressed s
          in if routed \<or> failed_start then Some handler else None)"

definition forward_adjacency ::
  "json_reader \<Rightarrow> playbook \<Rightarrow> run_state \<Rightarrow> string list \<Rightarrow> adjacency_map" where
  "forward_adjacency J pb s starts =
     foldl (\<lambda>adj n. case policy_hop J pb s starts (n_id n) of
                      None \<Rightarrow> adj
                    | Some handler \<Rightarrow> fmupd (n_id n) (fget adj [] (n_id n) @ [handler]) adj)
       (adjacency pb) (pb_nodes pb)"

record revival =
  rvl_by_start :: "(string \<times> string fset) list"
  rvl_all :: "string fset"

definition no_revival :: revival where
  "no_revival = \<lparr> rvl_by_start = [], rvl_all = fempty \<rparr>"

definition revival_step :: "adjacency_map \<Rightarrow> adjacency_map \<Rightarrow> revival \<Rightarrow> string \<Rightarrow> revival" where
  "revival_step forward reverse r start =
     (let nodes = downstream_only forward reverse start
      in \<lparr> rvl_by_start = rvl_by_start r @ [(start, nodes)], rvl_all = rvl_all r |\<union>| nodes \<rparr>)"

definition revival_new :: "json_reader \<Rightarrow> playbook \<Rightarrow> run_state \<Rightarrow> string list \<Rightarrow> revival" where
  "revival_new J pb s starts =
     foldl (revival_step (forward_adjacency J pb s starts) (reverse_adjacency pb)) no_revival starts"

fun add_to_first :: "string \<Rightarrow> string \<Rightarrow> (string \<times> string fset) list \<Rightarrow> (string \<times> string fset) list option" where
  "add_to_first start nd [] = None"
| "add_to_first start nd ((s, nodes) # rest) =
     (if s = start then Some ((s, finsert nd nodes) # rest)
      else map_option ((#) (s, nodes)) (add_to_first start nd rest))"

definition revival_add :: "revival \<Rightarrow> string \<Rightarrow> string \<Rightarrow> revival" where
  "revival_add r start nd =
     (case add_to_first start nd (rvl_by_start r) of
        Some by \<Rightarrow> \<lparr> rvl_by_start = by, rvl_all = finsert nd (rvl_all r) \<rparr>
      | None \<Rightarrow> r)"

definition revival_contains :: "revival \<Rightarrow> string \<Rightarrow> bool" where
  "revival_contains r nd = (nd |\<in>| rvl_all r)"

definition start_of :: "revival \<Rightarrow> string \<Rightarrow> string option" where
  "start_of r nd = map_option fst (List.find (\<lambda>(_, nodes). nd |\<in>| nodes) (rvl_by_start r))"

definition revived_nodes :: "json_reader \<Rightarrow> playbook \<Rightarrow> run_state \<Rightarrow> string \<Rightarrow> string fset" where
  "revived_nodes J pb s start = rvl_all (revival_new J pb s [start])"

section \<open>The walk is the closure outside the stop set\<close>

definition avoiding :: "adjacency_map \<Rightarrow> string fset \<Rightarrow> (string \<times> string) set" where
  "avoiding adj stop = {(a, b) \<in> adj_rel adj. b |\<notin>| stop}"

lemma avoiding_Image: "avoiding adj stop `` {i} = set (fget adj [] i) - fset stop"
  by (auto simp: avoiding_def adj_rel_def)

lemma walk_loop_sound:
  assumes "fset seen \<subseteq> (avoiding adj stop)\<^sup>+ `` {from}" "set q \<subseteq> insert from ((avoiding adj stop)\<^sup>+ `` {from})"
  shows "fset (walk_loop adj stop seen q) \<subseteq> (avoiding adj stop)\<^sup>+ `` {from}"
  using assms
proof (induction adj stop seen q rule: walk_loop.induct)
  case (1 adj stop seen)
  then show ?case by simp
next
  case (2 adj stop seen i q)
  obtain seen' q' where f: "foldl (push_next stop) (seen, q) (fget adj [] i) = (seen', q')" by fastforce
  note p = push_next_fold [OF f]
  have "i = from \<or> (from, i) \<in> (avoiding adj stop)\<^sup>+" using 2(3) by auto
  then have n: "set (fget adj [] i) - fset stop \<subseteq> (avoiding adj stop)\<^sup>+ `` {from}"
    unfolding avoiding_Image [symmetric] by (auto intro: trancl_into_trancl)
  have "fset (walk_loop adj stop seen' q') \<subseteq> (avoiding adj stop)\<^sup>+ `` {from}"
    using 2(1) [OF f [symmetric]] p(1,2) n 2(2,3) by auto
  then show ?case using f by simp
qed

lemma walk_loop_complete:
  assumes "\<And>x. x \<in> insert from (fset seen) \<Longrightarrow> x \<in> set q \<or> avoiding adj stop `` {x} \<subseteq> fset seen"
  shows "fset seen \<subseteq> fset (walk_loop adj stop seen q)
    \<and> avoiding adj stop `` insert from (fset (walk_loop adj stop seen q)) \<subseteq> fset (walk_loop adj stop seen q)"
  using assms
proof (induction adj stop seen q rule: walk_loop.induct)
  case (1 adj stop seen)
  then show ?case by auto
next
  case (2 adj stop seen i q)
  obtain seen' q' where f: "foldl (push_next stop) (seen, q) (fget adj [] i) = (seen', q')" by fastforce
  note p = push_next_fold [OF f]
  have "x \<in> set q' \<or> avoiding adj stop `` {x} \<subseteq> fset seen'" if "x \<in> insert from (fset seen')" for x
  proof (cases "x \<in> insert from (fset seen)")
    case True
    then have "x = i \<or> x \<in> set q \<or> avoiding adj stop `` {x} \<subseteq> fset seen" using 2(2) [of x] by auto
    then show ?thesis using p(1,2) avoiding_Image [of adj stop i] by auto
  next
    case False
    then have "x \<in> set q'" using that p(1,2) by auto
    then show ?thesis ..
  qed
  then show ?case using 2(1) [OF f [symmetric]] f p(3) by auto
qed

lemma walk_loop_trancl:
  "fset (walk_loop adj stop fempty [from]) = (avoiding adj stop)\<^sup>+ `` {from}" (is "?W = ?R")
proof
  show "?W \<subseteq> ?R" by (rule walk_loop_sound) auto
  have c: "avoiding adj stop `` insert from ?W \<subseteq> ?W"
    using walk_loop_complete [of "from" fempty "[from]" adj stop] by auto
  have "(from, y) \<in> (avoiding adj stop)\<^sup>+ \<Longrightarrow> y \<in> ?W" for y
    by (induction rule: trancl_induct) (use c in auto)
  then show "?R \<subseteq> ?W" by auto
qed

lemma walk_from_trancl: "fset (walk_from adj from stop) = (avoiding adj stop)\<^sup>+ `` {from} - {from}"
  by (simp only: walk_from_def minus_fset finsert.rep_eq bot_fset.rep_eq walk_loop_trancl)

section \<open>What a re-run revives\<close>

definition policy_rel :: "json_reader \<Rightarrow> playbook \<Rightarrow> run_state \<Rightarrow> string list \<Rightarrow> (string \<times> string) set" where
  "policy_rel J pb s starts =
     {(n_id n, h) | n h. n \<in> set (pb_nodes pb) \<and> policy_hop J pb s starts (n_id n) = Some h}"

lemma reverse_rel: "adj_rel (reverse_adjacency pb) = (edge_rel pb)\<inverse>"
proof -
  have "set (fget (foldl (\<lambda>adj e. fmupd (e_to e) (fget adj [] (e_to e) @ [e_from e]) adj) adj es) [] a)
    = set (fget adj [] a) \<union> {e_from e | e. e \<in> set es \<and> e_to e = a}" for adj and es :: "edge list" and a
    by (induction es arbitrary: adj) auto
  then show ?thesis by (auto simp: adj_rel_def reverse_adjacency_def edge_rel_def)
qed

lemma forward_rel:
  "adj_rel (forward_adjacency J pb s starts) = edge_rel pb \<union> policy_rel J pb s starts"
proof -
  have "adj_rel (foldl (\<lambda>adj n. case policy_hop J pb s starts (n_id n) of None \<Rightarrow> adj
        | Some handler \<Rightarrow> fmupd (n_id n) (fget adj [] (n_id n) @ [handler]) adj) adj ns)
    = adj_rel adj \<union> {(n_id n, h) | n h. n \<in> set ns \<and> policy_hop J pb s starts (n_id n) = Some h}"
    for adj and ns :: "node list"
  proof (induction ns arbitrary: adj)
    case Nil
    then show ?case by simp
  next
    case (Cons n ns)
    show ?case
      unfolding foldl.simps Cons.IH by (auto simp: adj_rel_def split: option.splits if_splits)
  qed
  then show ?thesis
    by (simp add: forward_adjacency_def adj_rel_adjacency policy_rel_def)
qed

definition upstream :: "playbook \<Rightarrow> string \<Rightarrow> string set" where
  "upstream pb start = {n. n \<noteq> start \<and> (n, start) \<in> (edge_rel pb)\<^sup>+}"

definition hop_rel :: "json_reader \<Rightarrow> playbook \<Rightarrow> run_state \<Rightarrow> string list \<Rightarrow> (string \<times> string) set" where
  "hop_rel J pb s starts = edge_rel pb \<union> policy_rel J pb s starts"

definition revived_by :: "json_reader \<Rightarrow> playbook \<Rightarrow> run_state \<Rightarrow> string list \<Rightarrow> string \<Rightarrow> string set" where
  "revived_by J pb s starts start =
     {n. (start, n) \<in> {(a, b) \<in> hop_rel J pb s starts. b \<notin> upstream pb start}\<^sup>*}"

lemma ancestors_upstream: "fset (walk_from (reverse_adjacency pb) start fempty) = upstream pb start"
proof -
  have "avoiding (reverse_adjacency pb) fempty = (edge_rel pb)\<inverse>"
    by (auto simp: avoiding_def reverse_rel)
  then show ?thesis
    by (auto simp: walk_from_trancl upstream_def trancl_converse)
qed

lemma downstream_only_exact:
  "fset (downstream_only (forward_adjacency J pb s starts) (reverse_adjacency pb) start)
    = revived_by J pb s starts start"
proof -
  have "avoiding (forward_adjacency J pb s starts) (walk_from (reverse_adjacency pb) start fempty)
      = {(a, b) \<in> hop_rel J pb s starts. b \<notin> upstream pb start}"
    by (auto simp: avoiding_def forward_rel hop_rel_def ancestors_upstream)
  then show ?thesis
    by (auto simp: downstream_only_def Let_def walk_from_trancl revived_by_def rtrancl_eq_or_trancl)
qed

lemma revival_new_fold:
  "rvl_by_start (foldl (revival_step fw rv) r starts) =
      rvl_by_start r @ map (\<lambda>t. (t, downstream_only fw rv t)) starts
   \<and> fset (rvl_all (foldl (revival_step fw rv) r starts)) =
      fset (rvl_all r) \<union> (\<Union>t\<in>set starts. fset (downstream_only fw rv t))"
  by (induction starts arbitrary: r) (auto simp: revival_step_def Let_def)

lemma revival_all:
  "fset (rvl_all (revival_new J pb s starts)) = (\<Union>t\<in>set starts. revived_by J pb s starts t)"
  by (simp add: revival_new_def revival_new_fold downstream_only_exact no_revival_def)


text \<open>
  No stale result survives beside a re-run: a node a revived node delivers into is itself
  revived, unless it is the start's own upstream, and nothing upstream of the start is revived, so
  a branch of the loop that already completed is not run twice.
\<close>

theorem revival_closed:
  assumes "n \<in> fset (revived_nodes J pb s start)" "(n, m) \<in> edge_rel pb"
  shows "(m \<in> fset (revived_nodes J pb s start) \<or> m \<in> upstream pb start)
    \<and> n \<notin> upstream pb start"
proof -
  let ?R = "{(a, b) \<in> hop_rel J pb s [start]. b \<notin> upstream pb start}"
  have r: "fset (revived_nodes J pb s start) = {n. (start, n) \<in> ?R\<^sup>*}"
    by (simp add: revived_nodes_def revival_all revived_by_def)
  have n: "(start, n) \<in> ?R\<^sup>*" using assms(1) unfolding r by simp
  have "m \<notin> upstream pb start \<Longrightarrow> (n, m) \<in> ?R" using assms(2) by (simp add: hop_rel_def)
  then have "m \<notin> upstream pb start \<Longrightarrow> (start, m) \<in> ?R\<^sup>*" using n by (auto intro: rtrancl_into_rtrancl)
  moreover have "n \<notin> upstream pb start"
    using n by (cases rule: rtranclE) (auto simp: upstream_def)
  ultimately show ?thesis unfolding r by blast
qed

theorem revival_closed_witness:
  "let pb = plain_playbook [] [plain_edge ''a'' ''b'', plain_edge ''b'' ''c'']
   in (''c'' \<in> fset (revived_nodes (\<lambda>_. None) pb state_init ''b'') \<or> ''c'' \<in> upstream pb ''b'')
      \<and> ''b'' \<notin> upstream pb ''b''"
proof -
  let ?pb = "plain_playbook [] [plain_edge ''a'' ''b'', plain_edge ''b'' ''c'']"
  have "''b'' \<in> fset (revived_nodes (\<lambda>_. None) ?pb state_init ''b'')"
    by (simp add: revived_nodes_def revival_all revived_by_def)
  moreover have "(''b'', ''c'') \<in> edge_rel ?pb" by (force simp: edge_rel_def)
  ultimately show ?thesis unfolding Let_def by (rule revival_closed)
qed

end
