(* ===== verification/Frontier.thy ===== *)
theory Frontier
  imports Revival Edge_Address
begin

text \<open>
  The frontier of branch heads the drive loop keeps, \<^verbatim>\<open>apb-engine/src/scheduler/node.rs\<close>
  (\<^verbatim>\<open>seed_successors\<close> to \<^verbatim>\<open>advance_frontier\<close>): routing past a finished node,
  the \<^verbatim>\<open>join: any\<close> race, the hops the journal gets, and the rebuild of a lost frontier.
  An operation returns the new frontier with the payloads it appends, in order; an append that
  fails ends the operation with the log's error, and the model follows the appends that succeed.
  The decision record of \<^verbatim>\<open>diagnostics::route\<close> goes to a file of its own and is left out.
\<close>

section \<open>Definitions\<close>

definition may_run :: "json_reader \<Rightarrow> playbook \<Rightarrow> run_state \<Rightarrow> string list \<Rightarrow> string \<Rightarrow> bool" where
  "may_run J pb s active t = (is_join pb t \<longrightarrow> join_readiness_of J pb t s active \<noteq> Not_Ready)"

definition seed_successors :: "json_reader \<Rightarrow> playbook \<Rightarrow> string \<Rightarrow> run_state \<Rightarrow> string list \<Rightarrow> string list" where
  "seed_successors J pb nd s active =
     foldl (\<lambda>runnable t. if may_run J pb s active t then push_new runnable t else runnable)
       [] (successors J pb nd s)"

definition active_set :: "string \<Rightarrow> string list \<Rightarrow> string list \<Rightarrow> string list" where
  "active_set nd frontier also_active = foldl push_new [nd] (frontier @ also_active)"

text \<open>One rebuilt head: skipped when it is the current node, already there, or a join not decided yet.\<close>

definition offer_head ::
  "json_reader \<Rightarrow> playbook \<Rightarrow> run_state \<Rightarrow> string list \<Rightarrow> string \<Rightarrow> string list \<Rightarrow> string \<Rightarrow> string list" where
  "offer_head J pb s active current frontier head =
     (if head = current \<or> head \<in> set frontier then frontier
      else if is_join pb head \<and> join_readiness_of J pb head s active = Not_Ready then frontier
      else frontier @ [head])"

definition offer_owed :: "string \<Rightarrow> string list \<Rightarrow> string \<Rightarrow> string list" where
  "offer_owed current frontier start =
     (if start \<noteq> current \<and> start \<notin> set frontier then frontier @ [start] else frontier)"

definition restore_frontier_besides ::
  "json_reader \<Rightarrow> playbook \<Rightarrow> run_state \<Rightarrow> string \<Rightarrow> string list \<Rightarrow> string list \<Rightarrow> string list" where
  "restore_frontier_besides J pb s current frontier overridden =
     (let heads = pending_heads_besides J pb s overridden;
          also_active = heads @ sorted_list_of_fset (rs_revival_starts s);
          active = active_set current frontier also_active;
          frontier1 = foldl (offer_head J pb s active current) frontier heads
      in foldl (offer_owed current) frontier1 (sorted_list_of_fset (rs_revival_starts s)))"

definition restore_frontier ::
  "json_reader \<Rightarrow> playbook \<Rightarrow> run_state \<Rightarrow> string \<Rightarrow> string list \<Rightarrow> string list" where
  "restore_frontier J pb s current frontier = restore_frontier_besides J pb s current frontier []"

definition journal_dead_inputs ::
  "json_reader \<Rightarrow> playbook \<Rightarrow> string \<Rightarrow> run_state \<Rightarrow> string list \<Rightarrow> event_payload list" where
  "journal_dead_inputs J pb nd s active =
     (let sources = dead_inputs J pb nd s active
      in if sources = [] then [] else [Join_Input_Dead nd sources])"

text \<open>The race a ready \<^verbatim>\<open>join: any\<close> wins: what stays, what is journaled, who was cancelled.\<close>

definition race_step ::
  "playbook \<Rightarrow> string list \<times> event_payload list \<times> string list \<Rightarrow> string
     \<Rightarrow> string list \<times> event_payload list \<times> string list" where
  "race_step pb acc other =
     (case acc of (kept, evs, raced) \<Rightarrow>
        if is_join pb other then (kept @ [other], evs, raced)
        else (kept, evs @ [Node_Started other 1, finished_event other ''cancelled'' ''cancelled''],
              raced @ [other]))"

definition is_any_join :: "playbook \<Rightarrow> string \<Rightarrow> bool" where
  "is_any_join pb t = (join_kind_of pb t = Some (Explicit Join_Any))"

definition any_race ::
  "playbook \<Rightarrow> string list \<Rightarrow> string list \<Rightarrow> string list \<times> string list \<times> event_payload list \<times> string list" where
  "any_race pb frontier runnable =
     (case List.find (is_any_join pb) runnable of
        None \<Rightarrow> (frontier, runnable, [], [])
      | Some join \<Rightarrow>
          (case foldl (race_step pb) ([], [], []) frontier of
             (kept, evs, raced) \<Rightarrow>
               (kept, filter (\<lambda>t. t = join) runnable, evs, raced @ filter (\<lambda>t. t \<noteq> join) runnable)))"

definition hop_addresses :: "json_reader \<Rightarrow> playbook \<Rightarrow> string \<Rightarrow> run_state \<Rightarrow> string \<Rightarrow> string list" where
  "hop_addresses J pb nd s target =
     map (\<lambda>i. ae_rendered (edge_addresses pb ! i))
       (filter (\<lambda>i. e_to (pb_edges pb ! i) = target) (re_chosen (evaluate_live_route J pb nd s)))"

definition decision_step ::
  "run_state \<Rightarrow> string \<Rightarrow> (string \<Rightarrow> string list) \<Rightarrow> string list
     \<Rightarrow> string list \<times> event_payload list \<Rightarrow> edge \<Rightarrow> string list \<times> event_payload list" where
  "decision_step s nd into raced_out acc e =
     (case acc of (recorded, evs) \<Rightarrow>
        if e_to e \<in> set raced_out \<or> e_to e \<in> set recorded then (recorded, evs)
        else (recorded @ [e_to e],
              if (nd, e_to e) |\<in>| rs_journaled_hops s \<and> hop_of_latest_run s nd (e_to e) then evs
              else evs @ [hop nd (e_to e) False True (into (e_to e))]))"

definition push_step ::
  "json_reader \<Rightarrow> playbook \<Rightarrow> string \<Rightarrow> run_state \<Rightarrow> string list \<Rightarrow> edge list \<Rightarrow> (string \<Rightarrow> string list)
     \<Rightarrow> string list \<times> event_payload list \<Rightarrow> string \<Rightarrow> string list \<times> event_payload list" where
  "push_step J pb nd s active selected into acc t =
     (case acc of (frontier, evs) \<Rightarrow>
        if t \<in> set frontier then (frontier, evs)
        else (frontier @ [t],
              evs @ journal_dead_inputs J pb t s active
                @ (if list_ex (\<lambda>e. e_to e = t \<and> e_max_traversals e \<noteq> None) selected
                   then [hop nd t False False (into t)] else [])))"

definition advance_frontier ::
  "json_reader \<Rightarrow> playbook \<Rightarrow> string \<Rightarrow> run_state \<Rightarrow> string list \<Rightarrow> string list
     \<Rightarrow> string list \<times> event_payload list" where
  "advance_frontier J pb nd s frontier also_active =
     (let active = active_set nd frontier also_active;
          runnable = filter (\<lambda>t. t \<notin> set frontier) (seed_successors J pb nd s active)
      in case any_race pb frontier runnable of
           (frontier1, runnable1, cancels, raced_out) \<Rightarrow>
             let selected = map ((!) (pb_edges pb)) (re_chosen (evaluate_live_route J pb nd s));
                 into = hop_addresses J pb nd s;
                 (recorded, decisions) = foldl (decision_step s nd into raced_out) ([], []) selected;
                 (frontier2, pushes) =
                   foldl (push_step J pb nd s active selected into) (frontier1, []) runnable1
             in (frontier2, cancels @ decisions @ pushes))"

section \<open>What an advance does to the frontier\<close>

lemma set_foldl_push_new [simp]: "set (foldl push_new acc xs) = set acc \<union> set xs"
  by (induction xs arbitrary: acc) auto

lemma distinct_push_new: "distinct out \<Longrightarrow> distinct (push_new out x)"
  by (simp add: push_new_def)

lemma set_active: "set (active_set nd frontier also) = insert nd (set frontier \<union> set also)"
  by (auto simp: active_set_def)

lemma set_seed_successors:
  "set (seed_successors J pb nd s active) = {t \<in> set (successors J pb nd s). may_run J pb s active t}"
  using foldl_push_new [of "may_run J pb s active" "\<lambda>t. t" "[]" "successors J pb nd s"]
  by (simp add: seed_successors_def)

lemma distinct_seed_successors: "distinct (seed_successors J pb nd s active)"
proof -
  have "distinct acc \<Longrightarrow>
      distinct (foldl (\<lambda>r t. if may_run J pb s active t then push_new r t else r) acc ts)" for acc ts
    by (induction ts arbitrary: acc) (auto simp: distinct_push_new)
  then show ?thesis by (simp add: seed_successors_def)
qed

definition cancel_records :: "string \<Rightarrow> event_payload list" where
  "cancel_records n = [Node_Started n 1, finished_event n ''cancelled'' ''cancelled'']"

lemma race_fold:
  "foldl (race_step pb) (kept, evs, raced) frontier =
    (kept @ filter (is_join pb) frontier,
     evs @ concat (map cancel_records (filter (\<lambda>n. \<not> is_join pb n) frontier)),
     raced @ filter (\<lambda>n. \<not> is_join pb n) frontier)"
  by (induction frontier arbitrary: kept evs raced) (auto simp: race_step_def cancel_records_def)

lemma any_race_eq:
  "any_race pb frontier runnable =
    (case List.find (is_any_join pb) runnable of
       None \<Rightarrow> (frontier, runnable, [], [])
     | Some join \<Rightarrow>
         (filter (is_join pb) frontier, filter (\<lambda>t. t = join) runnable,
          concat (map cancel_records (filter (\<lambda>n. \<not> is_join pb n) frontier)),
          filter (\<lambda>n. \<not> is_join pb n) frontier @ filter (\<lambda>t. t \<noteq> join) runnable))"
  by (simp add: any_race_def race_fold split: option.splits)

lemma push_fold:
  assumes "distinct ts" "set ts \<inter> set frontier = {}"
  shows "foldl (push_step J pb nd s active selected into) (frontier, evs) ts =
    (frontier @ ts,
     evs @ concat (map (\<lambda>t. journal_dead_inputs J pb t s active
       @ (if list_ex (\<lambda>e. e_to e = t \<and> e_max_traversals e \<noteq> None) selected
          then [hop nd t False False (into t)] else [])) ts))"
  using assms
proof (induction ts arbitrary: frontier evs)
  case (Cons t ts)
  then have "set ts \<inter> set (frontier @ [t]) = {}" "t \<notin> set frontier" by auto
  then show ?case using Cons by (simp add: push_step_def)
qed simp

text \<open>The advance, laid out: who stays, who is pushed, and the three groups of payloads.\<close>

definition pushed :: "json_reader \<Rightarrow> playbook \<Rightarrow> string \<Rightarrow> run_state \<Rightarrow> string list \<Rightarrow> string list \<Rightarrow> string list" where
  "pushed J pb nd s frontier also =
     (let runnable = filter (\<lambda>t. t \<notin> set frontier)
            (seed_successors J pb nd s (active_set nd frontier also))
      in case List.find (is_any_join pb) runnable of
           None \<Rightarrow> runnable | Some join \<Rightarrow> filter (\<lambda>t. t = join) runnable)"

definition any_won :: "json_reader \<Rightarrow> playbook \<Rightarrow> string \<Rightarrow> run_state \<Rightarrow> string list \<Rightarrow> string list \<Rightarrow> bool" where
  "any_won J pb nd s frontier also =
     list_ex (\<lambda>t. t \<notin> set frontier \<and> is_any_join pb t)
       (seed_successors J pb nd s (active_set nd frontier also))"

definition kept :: "json_reader \<Rightarrow> playbook \<Rightarrow> string \<Rightarrow> run_state \<Rightarrow> string list \<Rightarrow> string list \<Rightarrow> string list" where
  "kept J pb nd s frontier also =
     (if any_won J pb nd s frontier also then filter (is_join pb) frontier else frontier)"

definition raced_out :: "json_reader \<Rightarrow> playbook \<Rightarrow> string \<Rightarrow> run_state \<Rightarrow> string list \<Rightarrow> string list \<Rightarrow> string list" where
  "raced_out J pb nd s frontier also =
     (let active = active_set nd frontier also
      in snd (snd (snd (any_race pb frontier
           (filter (\<lambda>t. t \<notin> set frontier) (seed_successors J pb nd s active))))))"

definition push_records ::
  "json_reader \<Rightarrow> playbook \<Rightarrow> string \<Rightarrow> run_state \<Rightarrow> string list \<Rightarrow> string list \<Rightarrow> string \<Rightarrow> event_payload list" where
  "push_records J pb nd s frontier also t =
     journal_dead_inputs J pb t s (active_set nd frontier also)
     @ (if list_ex (\<lambda>e. e_to e = t \<and> e_max_traversals e \<noteq> None) (selected_edges J pb nd s)
        then [hop nd t False False (hop_addresses J pb nd s t)] else [])"

lemma selected_live:
  "selected_edges J pb nd s = map ((!) (pb_edges pb)) (re_chosen (evaluate_live_route J pb nd s))"
  by (simp add: selected_edges_def select_edges_def evaluate_live_route_def)

lemma find_filter_ex: "(List.find P (filter Q xs) = None) = (\<not> list_ex (\<lambda>x. Q x \<and> P x) xs)"
  by (auto simp: find_None_iff list_ex_iff)

lemma pushed_facts:
  "distinct (pushed J pb nd s frontier also)"
  "t \<in> set (pushed J pb nd s frontier also) \<Longrightarrow>
    t \<notin> set frontier \<and> t \<in> set (successors J pb nd s)
    \<and> may_run J pb s (active_set nd frontier also) t"
  by (auto simp: pushed_def Let_def distinct_seed_successors set_seed_successors split: option.splits)

lemma advance_frontier_eq:
  "advance_frontier J pb nd s frontier also =
    (kept J pb nd s frontier also @ pushed J pb nd s frontier also,
     (if any_won J pb nd s frontier also
      then concat (map cancel_records (filter (\<lambda>n. \<not> is_join pb n) frontier)) else [])
     @ snd (foldl (decision_step s nd (hop_addresses J pb nd s) (raced_out J pb nd s frontier also))
              ([], []) (selected_edges J pb nd s))
     @ concat (map (push_records J pb nd s frontier also) (pushed J pb nd s frontier also)))"
proof -
  let ?active = "active_set nd frontier also"
  let ?run = "filter (\<lambda>t. t \<notin> set frontier) (seed_successors J pb nd s ?active)"
  have won: "(List.find (is_any_join pb) ?run = None) = (\<not> any_won J pb nd s frontier also)"
    by (simp add: find_filter_ex any_won_def)
  have race: "any_race pb frontier ?run =
    (kept J pb nd s frontier also, pushed J pb nd s frontier also,
     if any_won J pb nd s frontier also
     then concat (map cancel_records (filter (\<lambda>n. \<not> is_join pb n) frontier)) else [],
     raced_out J pb nd s frontier also)"
    using won
    by (cases "List.find (is_any_join pb) ?run")
      (simp_all add: any_race_eq kept_def pushed_def raced_out_def Let_def)
  have "set (pushed J pb nd s frontier also) \<inter> set (kept J pb nd s frontier also) = {}"
    using pushed_facts(2) [of _ J pb nd s frontier] by (auto simp: kept_def)
  note push = push_fold [OF pushed_facts(1) this]
  show ?thesis
    unfolding advance_frontier_def Let_def race prod.case push selected_live [symmetric]
    by (simp add: push_records_def [abs_def] split: prod.splits)
qed

lemma cancel_sublist:
  "n \<in> set ns \<Longrightarrow> sublist (cancel_records n) (concat (map cancel_records ns))"
  by (metis concat_append concat.simps(2) list.simps(9) map_append split_list sublist_appendI)

lemma any_won_pushed:
  "any_won J pb nd s frontier also =
    (\<exists>j. j \<in> set (pushed J pb nd s frontier also) \<and> is_any_join pb j)"
proof -
  let ?run = "filter (\<lambda>t. t \<notin> set frontier) (seed_successors J pb nd s (active_set nd frontier also))"
  have "any_won J pb nd s frontier also = (\<exists>j\<in>set ?run. is_any_join pb j)"
    by (auto simp: any_won_def list_ex_iff)
  then show ?thesis
    using find_None_iff [of "is_any_join pb" ?run] find_elem [of "is_any_join pb" ?run]
    by (cases "List.find (is_any_join pb) ?run") (auto simp: pushed_def)
qed

text \<open>
  C8: routing past a node loses no branch: every head of the frontier stays on it unless a
  \<^verbatim>\<open>join: any\<close> just won the race (it was selected, may run now and was not on the frontier
  before), and then it was no join and its cancellation is journaled; when one just won, no plain
  head is kept; every selected successor is on the new frontier unless it is a join that is not ready
  or lost that race; whatever is added was selected and may run now; and no head is listed twice.
\<close>

theorem advance_loses_nothing:
  assumes "advance_frontier J pb nd s frontier rest = (frontier', evs)"
  shows "(\<forall>x\<in>set frontier. x \<in> set frontier'
        \<or> \<not> is_join pb x \<and> sublist (cancel_records x) evs
          \<and> (\<exists>j\<in>set frontier' - set frontier. is_any_join pb j))
    \<and> ((\<exists>j\<in>set frontier' - set frontier. is_any_join pb j)
        \<longrightarrow> (\<forall>x\<in>set frontier' \<inter> set frontier. is_join pb x))
    \<and> (\<forall>t\<in>set (successors J pb nd s). t \<in> set frontier'
        \<or> \<not> may_run J pb s (active_set nd frontier rest) t
        \<or> (\<exists>j\<in>set frontier' - set frontier. is_any_join pb j))
    \<and> (\<forall>t\<in>set frontier' - set frontier. t \<in> set (successors J pb nd s)
        \<and> may_run J pb s (active_set nd frontier rest) t)
    \<and> (distinct frontier \<longrightarrow> distinct frontier')"
proof -
  let ?K = "kept J pb nd s frontier rest" and ?P = "pushed J pb nd s frontier rest"
  let ?won = "any_won J pb nd s frontier rest"
  have f: "frontier' = ?K @ ?P" and e: "?won \<Longrightarrow>
      sublist (concat (map cancel_records (filter (\<lambda>n. \<not> is_join pb n) frontier))) evs"
    using assms unfolding advance_frontier_eq by auto
  have P: "t \<in> set ?P \<Longrightarrow> t \<notin> set frontier \<and> t \<in> set (successors J pb nd s)
      \<and> may_run J pb s (active_set nd frontier rest) t" for t
    by (rule pushed_facts(2))
  have w: "?won \<Longrightarrow> \<exists>j\<in>set ?P. is_any_join pb j" using any_won_pushed by blast
  have "x \<in> set frontier' \<or> \<not> is_join pb x \<and> sublist (cancel_records x) evs
      \<and> (\<exists>j\<in>set frontier' - set frontier. is_any_join pb j)" if x: "x \<in> set frontier" for x
  proof (cases "?won \<and> \<not> is_join pb x")
    case True
    then have "x \<in> set (filter (\<lambda>n. \<not> is_join pb n) frontier)" using x by simp
    then have "sublist (cancel_records x) evs"
      using sublist_order.order_trans [OF cancel_sublist e] True by blast
    moreover obtain j where "j \<in> set ?P" "is_any_join pb j" using w True by blast
    ultimately show ?thesis using True P unfolding f by auto
  next
    case False
    then show ?thesis using x by (auto simp: f kept_def)
  qed
  moreover have "is_join pb x" if j: "j \<in> set frontier' - set frontier" "is_any_join pb j"
    and x: "x \<in> set frontier' \<inter> set frontier" for x j
  proof -
    have "j \<in> set ?P" using j(1) by (auto simp: f kept_def split: if_splits)
    then have ?won unfolding any_won_pushed using j(2) by blast
    then show ?thesis using x P by (auto simp: f kept_def)
  qed
  moreover have "t \<in> set frontier' \<or> \<not> may_run J pb s (active_set nd frontier rest) t
      \<or> (\<exists>j\<in>set frontier' - set frontier. is_any_join pb j)" if t: "t \<in> set (successors J pb nd s)" for t
  proof (cases ?won)
    case True
    then show ?thesis using w P unfolding f by auto
  next
    case False
    then have "?K = frontier" "?P = filter (\<lambda>t. t \<notin> set frontier)
        (seed_successors J pb nd s (active_set nd frontier rest))"
      by (auto simp: kept_def pushed_def find_filter_ex any_won_def Let_def split: option.splits)
        (metis find_filter_ex option.distinct(1))+
    then show ?thesis using t unfolding f by (auto simp: set_seed_successors)
  qed
  moreover have "t \<in> set (successors J pb nd s) \<and> may_run J pb s (active_set nd frontier rest) t"
    if "t \<in> set frontier' - set frontier" for t
    using that P by (auto simp: f kept_def split: if_splits)
  moreover have "distinct frontier'" if "distinct frontier"
    using that pushed_facts(1) P by (auto simp: f kept_def)
  ultimately show ?thesis by blast
qed

lemma plain_edge_no_join [simp]: "join_kind_of (plain_playbook ns [e]) t = None"
  by (simp add: join_kind_of_def incoming_def)

theorem advance_loses_nothing_witness:
  "set (fst (advance_frontier (\<lambda>_. None) (plain_playbook [] [plain_edge ''a'' ''b'']) ''a'' state_init [''x''] []))
    = {''x'', ''b''}"
proof -
  let ?pb = "plain_playbook [] [plain_edge ''a'' ''b'']"
  obtain f evs where a: "advance_frontier (\<lambda>_. None) ?pb ''a'' state_init [''x''] [] = (f, evs)" by fastforce
  have "successors (\<lambda>_. None) ?pb ''a'' state_init = [''b'']"
    by (simp add: successors_def selected_edges_def select_edges_def evaluate_route_rule route_rule_def
        out_edges_def is_unconditional_def edge_available_def state_init_def)
  then show ?thesis
    using advance_loses_nothing [OF a] unfolding a by (auto simp: is_any_join_def may_run_def is_join_def)
qed

section \<open>Traversals are counted once\<close>

definition counted_payload :: "string \<times> string \<Rightarrow> event_payload \<Rightarrow> bool" where
  "counted_payload k p =
     (case p of
        Edge_Traversed t \<Rightarrow> (et_from t, et_to t) = k \<and> \<not> et_via_policy t \<and> \<not> et_uncounted t
      | _ \<Rightarrow> False)"

lemma counted_hop_payload: "counted_hop k e = counted_payload k (ev_payload e)"
  by (simp add: counted_hop_def counted_payload_def)

lemma counted_simps [simp]:
  "\<not> counted_payload k (hop f t v True into)"
  "counted_payload k (hop f t False False into) = (k = (f, t))"
  "\<not> counted_payload k (Join_Input_Dead n ss)"
  "\<not> counted_payload k (Node_Started n a)"
  "\<not> counted_payload k (finished_event n st o1)"
  by (auto simp: counted_payload_def hop_def finished_event_def)

lemma counted_cancels:
  "filter (counted_payload k) (concat (map cancel_records ns)) = []"
  by (induction ns) (simp_all add: cancel_records_def)

lemma counted_decisions:
  "filter (counted_payload k) (snd (foldl (decision_step s nd into raced) (rec, evs) es))
    = filter (counted_payload k) evs"
proof (induction es arbitrary: rec evs)
  case (Cons e es)
  obtain r1 v1 where d: "decision_step s nd into raced (rec, evs) e = (r1, v1)" by fastforce
  then have "filter (counted_payload k) v1 = filter (counted_payload k) evs"
    by (auto simp: decision_step_def split: if_splits)
  then show ?case using Cons d by simp
qed simp

lemma counted_dead: "filter (counted_payload k) (journal_dead_inputs J pb t s active) = []"
  by (simp add: journal_dead_inputs_def Let_def)

lemma counted_pushes:
  assumes "distinct ts"
  shows "length (filter (counted_payload (f, t)) (concat (map (push_records J pb nd s frontier also) ts))) =
    (if f = nd \<and> t \<in> set ts
        \<and> list_ex (\<lambda>e. e_to e = t \<and> e_max_traversals e \<noteq> None) (selected_edges J pb nd s) then 1 else 0)"
  using assms
  by (induction ts) (auto simp: push_records_def counted_dead)

text \<open>
  An advance spends a bounded edge's allowance exactly once per push: folding the journal with
  what the advance appended raises the count of a hop by one when the advance newly put its target
  on the frontier over a capped edge of the routed node, and leaves every other count alone,
  decision records and race cancellations included.
\<close>

theorem advance_counts_once:
  assumes "map ev_payload new = snd (advance_frontier J pb nd s frontier rest)"
  shows "fget (rs_edge_counts (fold_run (es @ new))) 0 (f, t) =
    fget (rs_edge_counts (fold_run es)) 0 (f, t)
    + (if f = nd \<and> t \<in> set (fst (advance_frontier J pb nd s frontier rest)) \<and> t \<notin> set frontier
          \<and> list_ex (\<lambda>e. e_to e = t \<and> e_max_traversals e \<noteq> None) (selected_edges J pb nd s)
       then 1 else 0)"
proof -
  let ?P = "pushed J pb nd s frontier rest"
  have "length (filter (counted_hop (f, t)) new) = length (filter (counted_payload (f, t)) (map ev_payload new))"
    by (induction new) (simp_all add: counted_hop_payload)
  also have "\<dots> = (if f = nd \<and> t \<in> set ?P
      \<and> list_ex (\<lambda>e. e_to e = t \<and> e_max_traversals e \<noteq> None) (selected_edges J pb nd s) then 1 else 0)"
    unfolding assms advance_frontier_eq snd_conv filter_append length_append
      counted_decisions counted_pushes [OF pushed_facts(1)]
    by (simp add: counted_cancels)
  finally have n: "length (filter (counted_hop (f, t)) new) = \<dots>" .
  have "t \<in> set ?P \<longleftrightarrow> t \<in> set (fst (advance_frontier J pb nd s frontier rest)) \<and> t \<notin> set frontier"
    unfolding advance_frontier_eq using pushed_facts(2) [of t J pb nd s frontier rest]
    by (auto simp: kept_def)
  then show ?thesis unfolding edge_counts_fold by (simp add: n)
qed

theorem advance_counts_once_witness:
  "let pb = plain_playbook [] [(plain_edge ''a'' ''a'')\<lparr>e_max_traversals := Some 3\<rparr>];
       ps = snd (advance_frontier (\<lambda>_. None) pb ''a'' state_init [] [])
   in fget (rs_edge_counts (fold_run ([] @ numbered 0 ps))) 0 (''a'', ''a'') = 1"
proof -
  let ?e = "(plain_edge ''a'' ''a'')\<lparr>e_max_traversals := Some 3\<rparr>"
  let ?pb = "plain_playbook [] [?e]"
  let ?ps = "snd (advance_frontier (\<lambda>_. None) ?pb ''a'' state_init [] [])"
  have "map ev_payload (numbered k ps) = ps" for k ps
    by (induction ps arbitrary: k) simp_all
  note n = this [of 0 ?ps]
  have sel: "selected_edges (\<lambda>_. None) ?pb ''a'' state_init = [?e]"
    by (simp add: selected_edges_def select_edges_def evaluate_route_rule route_rule_def
        out_edges_def is_unconditional_def edge_available_def state_init_def)
  have "seed_successors (\<lambda>_. None) ?pb ''a'' state_init act = [''a'']" for act
    by (simp add: seed_successors_def successors_def sel may_run_def is_join_def push_new_def)
  then have "fst (advance_frontier (\<lambda>_. None) ?pb ''a'' state_init [] []) = [''a'']"
    by (simp add: advance_frontier_eq kept_def pushed_def is_any_join_def Let_def)
  then show ?thesis
    using advance_counts_once [OF n, of "[]" "''a''" "''a''"] sel
    by (simp add: Let_def edge_counts_fold)
qed

section \<open>A lost frontier is rebuilt\<close>

lemma offer_heads:
  "set (foldl (offer_head J pb s active current) frontier heads) =
    set frontier \<union> {h \<in> set heads. h \<noteq> current \<and> may_run J pb s active h}"
  by (induction heads arbitrary: frontier) (auto simp: offer_head_def may_run_def)

lemma offer_owed_set:
  "set (foldl (offer_owed current) frontier starts) = set frontier \<union> (set starts - {current})"
  by (induction starts arbitrary: frontier) (auto simp: offer_owed_def)

lemma set_pending_heads_besides:
  "set (pending_heads_besides J pb s overridden) =
    {t. \<exists>n. n |\<in>| fmdom (rs_nodes s) \<and> is_finished (current_status s n) \<and> n \<notin> set overridden
        \<and> t |\<in>| routed_targets J pb n s
        \<and> \<not> is_finished (current_status s t) \<and> \<not> revived_after_finish s t}"
  by (auto simp: pending_heads_besides_def Let_def ffUnion.rep_eq)

text \<open>The heads a restart still owes: targets of finished nodes that have not finished themselves.\<close>

definition owed_heads :: "json_reader \<Rightarrow> playbook \<Rightarrow> run_state \<Rightarrow> string set" where
  "owed_heads J pb s =
     {t. \<exists>n. is_finished (current_status s n) \<and> n |\<in>| fmdom (rs_nodes s) \<and> t |\<in>| routed_targets J pb n s
        \<and> \<not> is_finished (current_status s t) \<and> \<not> revived_after_finish s t}"

text \<open>
  A driver that lost its frontier gets every outstanding branch back: the rebuilt frontier is
  the given one plus exactly the owed heads that may run now (a join only when its barrier has
  decided) plus every owed re-run, the current node apart.
\<close>

theorem restored_frontier_exact:
  "set (restore_frontier J pb s current frontier) =
    set frontier
    \<union> {h \<in> owed_heads J pb s. h \<noteq> current
         \<and> may_run J pb s (active_set current frontier
             (pending_heads J pb s @ sorted_list_of_fset (rs_revival_starts s))) h}
    \<union> (fset (rs_revival_starts s) - {current})"
proof -
  have "set (pending_heads J pb s) = owed_heads J pb s"
    by (auto simp: pending_heads_def set_pending_heads_besides owed_heads_def)
  then show ?thesis
    unfolding restore_frontier_def restore_frontier_besides_def Let_def offer_owed_set offer_heads
    by (simp add: pending_heads_def)
qed

end
