(* ===== verification/Rerun.thy ===== *)
theory Rerun
  imports Frontier
begin

text \<open>
  The frontier rebuild of a drive that executes nodes again on request,
  \<^verbatim>\<open>apb-engine/src/scheduler/revive.rs\<close>: the revival is journaled, the request
  supersedes the owed re-runs the drive does not hold, write-offs it makes obsolete are taken back,
  and the frontier loses the revived nodes and gets the exposed heads back.
\<close>

section \<open>Definitions\<close>

definition carries_a_result :: "run_state \<Rightarrow> string \<Rightarrow> bool" where
  "carries_a_result s n =
     (n |\<in>| fmdom (rs_nodes s) \<or> n |\<in>| rs_route_suppressed s \<or> n |\<in>| rs_refused_joins s
      \<or> fBex (rs_journaled_hops s) (\<lambda>(from, _). from = n))"

definition why_not_finished :: "run_state \<Rightarrow> string \<Rightarrow> string" where
  "why_not_finished s n =
     (if n |\<in>| rs_revived s then ''was revived for a re-run and has not run again''
      else ''has not finished'')"

definition operator_rerun :: "event list \<Rightarrow> string \<Rightarrow> bool" where
  "operator_rerun es n =
     (case List.find (\<lambda>e. case ev_payload e of Run_Resumed _ \<Rightarrow> True | _ \<Rightarrow> False) (rev es) of
        Some e \<Rightarrow> (case ev_payload e of
                     Run_Resumed r \<Rightarrow> rr_explicit r \<and> rr_from_node r = n | _ \<Rightarrow> False)
      | None \<Rightarrow> False)"

text \<open>The events from the last start of \<open>n\<close> on (the whole journal when it never started).\<close>

definition since_start :: "event list \<Rightarrow> string \<Rightarrow> event list" where
  "since_start es n =
     (case position (\<lambda>e. case ev_payload e of Node_Started m _ \<Rightarrow> m = n | _ \<Rightarrow> False) (rev es) of
        Some k \<Rightarrow> drop (length es - 1 - k) es
      | None \<Rightarrow> es)"

definition sibling_step ::
  "run_state \<Rightarrow> string \<Rightarrow> (string \<times> string) list \<Rightarrow> event \<Rightarrow> (string \<times> string) list" where
  "sibling_step s start out e =
     (case ev_payload e of
        Branch_Cancelled fork_node n failed_node \<Rightarrow>
          if failed_node = start \<and> fmlookup (rs_nodes s) n = Some Cancelled \<and> n \<notin> snd ` set out
          then out @ [(start, n)] else out
      | _ \<Rightarrow> out)"

definition cancelled_siblings :: "event list \<Rightarrow> run_state \<Rightarrow> string list \<Rightarrow> (string \<times> string) list" where
  "cancelled_siblings es s starts =
     foldl (\<lambda>out start. foldl (sibling_step s start) out (since_start es start)) [] starts"

definition write_off_step ::
  "(string, string list) fmap \<Rightarrow> event \<Rightarrow> (string, string list) fmap" where
  "write_off_step out e =
     (case ev_payload e of
        Join_Input_Dead n srcs \<Rightarrow> fmupd n srcs out
      | Join_Input_Revived n srcs _ \<Rightarrow>
          (case fmlookup out n of
             Some dead \<Rightarrow>
               let left = filter (\<lambda>x. x \<notin> set srcs) dead
               in if left = [] then fmdrop n out else fmupd n left out
           | None \<Rightarrow> out)
      | _ \<Rightarrow> out)"

definition standing_write_offs :: "event list \<Rightarrow> (string, string list) fmap" where
  "standing_write_offs es = foldl write_off_step fmempty es"

definition revived_input ::
  "json_reader \<Rightarrow> playbook \<Rightarrow> event list \<Rightarrow> run_state \<Rightarrow> revival \<Rightarrow> string list \<Rightarrow> string \<Rightarrow> event_payload list" where
  "revived_input J pb es s rv active join =
     (if is_finished (current_status s join) then []
      else
        let pending = pending_inputs J pb join s active;
            srcs = filter (\<lambda>x. x \<in> set pending) (fget (standing_write_offs es) [] join)
        in case srcs of
             [] \<Rightarrow> []
           | first # _ \<Rightarrow>
               [Join_Input_Revived join srcs
                  (case start_of rv first of Some st \<Rightarrow> st
                   | None \<Rightarrow> (case active of a # _ \<Rightarrow> a | [] \<Rightarrow> []))])"

definition revived_inputs ::
  "json_reader \<Rightarrow> playbook \<Rightarrow> event list \<Rightarrow> run_state \<Rightarrow> revival \<Rightarrow> string list \<Rightarrow> event_payload list" where
  "revived_inputs J pb es s rv active =
     concat (map (revived_input J pb es s rv active)
       (sorted_list_of_fset (fmdom (standing_write_offs es))))"

definition put_back_exposed_heads ::
  "json_reader \<Rightarrow> playbook \<Rightarrow> run_state \<Rightarrow> run_state \<Rightarrow> string \<Rightarrow> string list \<Rightarrow> string list \<Rightarrow> string list" where
  "put_back_exposed_heads J pb s without_supersede current frontier overridden =
     (let before = pending_heads_besides J pb without_supersede overridden;
          heads = pending_heads_besides J pb s overridden;
          active = active_set current frontier (heads @ sorted_list_of_fset (rs_revival_starts s))
      in foldl (offer_head J pb s active current) frontier (filter (\<lambda>h. h \<notin> set before) heads))"

text \<open>The loop over the starts: the state with and without the supersede, and what is journaled.\<close>

record rerun_acc =
  ra_state :: run_state
  ra_kept :: run_state
  ra_superseded :: "string list"
  ra_any :: bool
  ra_events :: "event_payload list"

definition rerun_step :: "rerun_acc \<Rightarrow> string \<times> string fset \<Rightarrow> rerun_acc" where
  "rerun_step a start_nodes =
     (case start_nodes of (start, nodes) \<Rightarrow>
        let sup1 = ra_superseded a; ns = sorted_list_of_fset nodes in
        if sup1 = [] \<and> \<not> list_ex (carries_a_result (ra_state a)) ns
        then a\<lparr>ra_superseded := []\<rparr>
        else \<lparr> ra_state = revive_from (ra_state a) start ns sup1,
               ra_kept = revive_from (ra_kept a) start ns [],
               ra_superseded = [],
               ra_any = (ra_any a \<or> sup1 \<noteq> []),
               ra_events = ra_events a
                 @ [Nodes_Revived \<lparr> nr_from_node = start, nr_nodes = ns, nr_superseded = sup1 \<rparr>] \<rparr>)"

definition all_starts :: "playbook \<Rightarrow> string list \<Rightarrow> (string \<times> string) list \<Rightarrow> string list" where
  "all_starts pb starts cancelled =
     foldl (\<lambda>acc (_, n). if \<not> is_join pb n then push_new acc n else acc) starts cancelled"

definition rerun_revival ::
  "json_reader \<Rightarrow> playbook \<Rightarrow> run_state \<Rightarrow> string list \<Rightarrow> (string \<times> string) list \<Rightarrow> revival" where
  "rerun_revival J pb s starts cancelled =
     foldl (\<lambda>rv (start, n). if is_join pb n then revival_add rv start n else rv)
       (revival_new J pb s starts) cancelled"

definition rerun_loop :: "run_state \<Rightarrow> string list \<Rightarrow> (string \<times> string fset) list \<Rightarrow> rerun_acc" where
  "rerun_loop s superseded per_start =
     foldl rerun_step \<lparr> ra_state = s, ra_kept = s, ra_superseded = superseded, ra_any = False,
       ra_events = [] \<rparr> per_start"

definition revive ::
  "json_reader \<Rightarrow> playbook \<Rightarrow> event list \<Rightarrow> string list \<Rightarrow> string list \<Rightarrow> string list
     \<Rightarrow> run_state \<times> string list \<times> event_payload list" where
  "revive J pb es starts0 frontier overridden =
     (let s0 = fold_run es in
      case starts0 of
        [] \<Rightarrow> (s0, frontier, [])
      | current # _ \<Rightarrow>
          let cancelled = cancelled_siblings es s0 starts0;
              starts = all_starts pb starts0 cancelled;
              rv = rerun_revival J pb s0 starts cancelled;
              superseded = filter (\<lambda>x. x \<notin> set frontier) (sorted_list_of_fset (rs_revival_starts s0));
              a = rerun_loop s0 superseded (rvl_by_start rv);
              s = ra_state a;
              frontier1 = (if ra_any a
                           then put_back_exposed_heads J pb s (ra_kept a) current frontier overridden
                           else frontier);
              also_active = tl starts @ pending_heads_besides J pb s overridden
                              @ sorted_list_of_fset (rs_revival_starts s);
              active = active_set current frontier1 also_active;
              records = revived_inputs J pb es s rv active;
              frontier2 = filter (\<lambda>n. n \<in> set starts \<or> \<not> revival_contains rv n) frontier1
          in (s, foldl (offer_owed current) frontier2 (sorted_list_of_fset (rs_revival_starts s)),
              ra_events a @ records))"

definition restore_revived_frontier ::
  "json_reader \<Rightarrow> playbook \<Rightarrow> event list \<Rightarrow> string list \<Rightarrow> string list \<Rightarrow> string list
     \<Rightarrow> string list \<times> event_payload list" where
  "restore_revived_frontier J pb es starts frontier overridden0 =
     (case starts of
        [] \<Rightarrow> (frontier, [])
      | current # _ \<Rightarrow>
          let overridden = filter (\<lambda>n. n \<notin> set starts) overridden0 in
          (case revive J pb es starts frontier overridden of
             (s, frontier1, evs) \<Rightarrow>
               (restore_frontier_besides J pb s current frontier1 overridden, evs)))"

definition reoffer_step ::
  "json_reader \<Rightarrow> playbook \<Rightarrow> run_state \<Rightarrow> string \<Rightarrow> string list
     \<Rightarrow> string list \<times> event_payload list \<Rightarrow> string \<Rightarrow> string list \<times> event_payload list" where
  "reoffer_step J pb s nd also_active acc head =
     (case acc of (frontier, evs) \<Rightarrow>
        if head |\<notin>| rs_revived s \<or> \<not> is_join pb head \<or> head \<in> set frontier \<or> head = nd
        then (frontier, evs)
        else
          let active = active_set nd frontier also_active in
          if join_readiness_of J pb head s active = Not_Ready then (frontier, evs)
          else (frontier @ [head], evs @ journal_dead_inputs J pb head s active))"

definition reoffer_revived_joins ::
  "json_reader \<Rightarrow> playbook \<Rightarrow> run_state \<Rightarrow> string \<Rightarrow> string list \<Rightarrow> string list
     \<Rightarrow> string list \<times> event_payload list" where
  "reoffer_revived_joins J pb s nd also_active frontier =
     (if rs_revived s = fempty then (frontier, [])
      else foldl (reoffer_step J pb s nd also_active) (frontier, []) (pending_heads J pb s))"

section \<open>The returned state is the fold of what was journaled\<close>

text \<open>
  The state without its open deferrals: the one part of the fold a revival record changes that
  \<open>revive_from\<close> does not.
\<close>

definition no_deferrals :: "run_state \<Rightarrow> run_state" where
  "no_deferrals s = s\<lparr>rs_deferred := fmempty\<rparr>"

lemma settle_revivals_update:
  "settle_revivals (s\<lparr>rs_deferred := d\<rparr>) = (settle_revivals s)\<lparr>rs_deferred := d\<rparr>"
  "settle_revivals (s\<lparr>rs_nodes := m, rs_run_status := st\<rparr>) =
    (settle_revivals s)\<lparr>rs_nodes := m, rs_run_status := st\<rparr>"
  by (simp_all add: settle_revivals_def Let_def)

lemma revivals_update_commute:
  "s\<lparr>rs_deferred := d\<rparr>\<lparr>rs_revivals := r\<rparr> = s\<lparr>rs_revivals := r\<rparr>\<lparr>rs_deferred := d\<rparr>"
  "s\<lparr>rs_nodes := m, rs_run_status := st\<rparr>\<lparr>rs_revivals := r\<rparr> =
    s\<lparr>rs_revivals := r\<rparr>\<lparr>rs_nodes := m, rs_run_status := st\<rparr>"
  "rs_revivals (s\<lparr>rs_deferred := d\<rparr>) = rs_revivals s"
  "rs_revivals (s\<lparr>rs_nodes := m, rs_run_status := st\<rparr>) = rs_revivals s"
  by simp_all

lemma revive_from_no_deferrals:
  "no_deferrals (revive_from s f ns sup1) = revive_from (no_deferrals s) f ns sup1"
  unfolding no_deferrals_def revive_from_def Let_def revivals_update_commute settle_revivals_update ..

text \<open>\<open>settle_open\<close> only touches the nodes and the run's status.\<close>

definition shut_nodes :: "open_attempts \<Rightarrow> (string, node_status) fmap \<Rightarrow> (string, node_status) fmap" where
  "shut_nodes op m = (if op = fempty then m
     else foldr (\<lambda>n m. fmupd n Interrupted m) (sorted_list_of_fset (fimage fst op)) m)"

definition shut_status :: "open_attempts \<Rightarrow> bool \<Rightarrow> run_status \<Rightarrow> run_status" where
  "shut_status op lg st =
     (if op = fempty \<or> st \<in> {Run_Succeeded, Run_Failed, Run_Is_Aborted} \<or> st = Run_Is_Paused \<and> \<not> lg
      then st else Run_Interrupted)"

lemma settle_open_shape:
  "settle_open (s, op, lg) =
    s\<lparr>rs_nodes := shut_nodes op (rs_nodes s), rs_run_status := shut_status op lg (rs_run_status s)\<rparr>"
proof (cases "op = fempty")
  case True
  then show ?thesis by (simp add: settle_open_def shut_nodes_def shut_status_def)
next
  case False
  then show ?thesis
    by (cases "rs_run_status s"; simp add: settle_open_def shut_nodes_def shut_status_def)
qed

lemma revive_from_update:
  "revive_from (s\<lparr>rs_nodes := m, rs_run_status := st\<rparr>) f ns sup1 =
    (revive_from s f ns sup1)\<lparr>rs_nodes := m, rs_run_status := st\<rparr>"
  unfolding revive_from_def Let_def revivals_update_commute settle_revivals_update ..

lemma revive_from_settle_open:
  "settle_open (revive_from s f ns sup1, op, lg) = revive_from (settle_open (s, op, lg)) f ns sup1"
  by (simp only: settle_open_shape revive_from_update revive_from_frame)

lemma settle_open_no_deferrals:
  "no_deferrals (settle_open (s, op, lg)) = settle_open (no_deferrals s, op, lg)"
  by (simp add: settle_open_shape no_deferrals_def)

lemma fold_run_snoc:
  obtains s op lg where "fold_run es = settle_open (s, op, lg)"
    "fold_run (es @ [e]) = settle_open (state_event (fold_deferral s e) e,
        open_event op (ev_payload e), marker_event lg (ev_payload e))"
proof -
  obtain s op lg where "foldl fold_event fold_init es = (s, op, lg)" by (metis prod_cases3)
  then show thesis by (intro that [of s op lg]) (simp_all add: fold_run_def fold_event_def)
qed

lemma fold_run_revived:
  assumes "ev_payload e = Nodes_Revived r"
  shows "no_deferrals (fold_run (es @ [e])) =
    revive_from (no_deferrals (fold_run es)) (nr_from_node r) (nr_nodes r) (nr_superseded r)"
proof -
  obtain s op lg where f: "fold_run es = settle_open (s, op, lg)"
    "fold_run (es @ [e]) = settle_open (state_event (fold_deferral s e) e,
        open_event op (ev_payload e), marker_event lg (ev_payload e))" by (rule fold_run_snoc)
  have "no_deferrals (fold_deferral s e) = no_deferrals s"
    using assms by (simp add: no_deferrals_def fold_deferral_def fold_released_def)
  then have "no_deferrals (state_event (fold_deferral s e) e) =
      revive_from (no_deferrals s) (nr_from_node r) (nr_nodes r) (nr_superseded r)"
    using assms by (simp add: state_event_def revive_from_no_deferrals)
  then show ?thesis
    unfolding f using assms
    by (simp add: settle_open_no_deferrals revive_from_settle_open open_event_def marker_event_def)
qed

lemma fold_run_input_revived:
  assumes "ev_payload e = Join_Input_Revived n srcs from"
  shows "no_deferrals (fold_run (es @ [e])) = no_deferrals (fold_run es)"
proof -
  obtain s op lg where f: "fold_run es = settle_open (s, op, lg)"
    "fold_run (es @ [e]) = settle_open (state_event (fold_deferral s e) e,
        open_event op (ev_payload e), marker_event lg (ev_payload e))" by (rule fold_run_snoc)
  have "no_deferrals (state_event (fold_deferral s e) e) = no_deferrals s"
    using assms by (simp add: no_deferrals_def state_event_def fold_deferral_def fold_released_def)
  then show ?thesis
    unfolding f using assms by (simp add: settle_open_no_deferrals open_event_def marker_event_def)
qed

text \<open>What one record of a re-run does to the state, and a whole list of them.\<close>

definition replay :: "run_state \<Rightarrow> event_payload \<Rightarrow> run_state" where
  "replay s p =
     (case p of Nodes_Revived r \<Rightarrow> revive_from s (nr_from_node r) (nr_nodes r) (nr_superseded r)
      | _ \<Rightarrow> s)"

lemma replay_simps [simp]:
  "replay s (Nodes_Revived r) = revive_from s (nr_from_node r) (nr_nodes r) (nr_superseded r)"
  "replay s (Join_Input_Revived n srcs from) = s"
  by (simp_all add: replay_def)

definition rerun_record :: "event_payload \<Rightarrow> bool" where
  "rerun_record p =
     (case p of Nodes_Revived _ \<Rightarrow> True | Join_Input_Revived _ _ _ \<Rightarrow> True | _ \<Rightarrow> False)"

lemma rerun_record_simps [simp]:
  "rerun_record (Nodes_Revived r)"
  "rerun_record (Join_Input_Revived n srcs from)"
  by (simp_all add: rerun_record_def)

lemma rerun_record_cases:
  assumes "rerun_record p"
  obtains r where "p = Nodes_Revived r" | n srcs f where "p = Join_Input_Revived n srcs f"
  using assms by (cases p) (simp_all add: rerun_record_def)

lemma fold_run_replay:
  assumes "list_all rerun_record (map ev_payload new)"
  shows "no_deferrals (fold_run (es @ new)) =
    foldl replay (no_deferrals (fold_run es)) (map ev_payload new)"
  using assms
proof (induction new rule: rev_induct)
  case (snoc e new)
  then have "rerun_record (ev_payload e)" by simp
  then have "no_deferrals (fold_run ((es @ new) @ [e])) = replay (no_deferrals (fold_run (es @ new))) (ev_payload e)"
    by (rule rerun_record_cases) (simp_all add: fold_run_revived fold_run_input_revived
        del: append_assoc)
  then show ?case using snoc by simp
qed simp

lemma rerun_loop_replay:
  "list_all rerun_record (ra_events a) \<Longrightarrow> no_deferrals (ra_state a) = foldl replay t (ra_events a) \<Longrightarrow>
    list_all rerun_record (ra_events (foldl rerun_step a ps))
    \<and> no_deferrals (ra_state (foldl rerun_step a ps)) = foldl replay t (ra_events (foldl rerun_step a ps))"
proof (induction ps arbitrary: a)
  case (Cons p ps)
  have "list_all rerun_record (ra_events (rerun_step a p))
      \<and> no_deferrals (ra_state (rerun_step a p)) = foldl replay t (ra_events (rerun_step a p))"
    using Cons.prems
    by (cases p) (simp add: rerun_step_def Let_def revive_from_no_deferrals)
  then show ?case using Cons.IH by simp
qed simp

lemma revived_inputs_records:
  "list_all rerun_record (revived_inputs J pb es s rv active)
   \<and> foldl replay t (revived_inputs J pb es s rv active) = t"
proof -
  have one: "list_all rerun_record (revived_input J pb es s rv active j)
      \<and> foldl replay t (revived_input J pb es s rv active j) = t" for j t
    by (auto simp: revived_input_def Let_def split: list.splits)
  have "list_all rerun_record (concat (map (revived_input J pb es s rv active) js))
      \<and> foldl replay t (concat (map (revived_input J pb es s rv active) js)) = t" for js
    by (induction js) (simp_all add: one)
  then show ?thesis by (simp add: revived_inputs_def)
qed

lemma revive_eq:
  assumes "revive J pb es starts frontier overridden = (s, frontier', evs)"
  obtains sup1 per records where
    "s = (if starts = [] then fold_run es else ra_state (rerun_loop (fold_run es) sup1 per))"
    "evs = (if starts = [] then [] else ra_events (rerun_loop (fold_run es) sup1 per) @ records)"
    "list_all rerun_record records" "\<forall>t. foldl replay t records = t"
proof (cases starts)
  case Nil
  then show ?thesis using assms that [of _ _ "[]"] by (simp add: revive_def)
next
  case (Cons current rest)
  let ?c = "cancelled_siblings es (fold_run es) starts"
  let ?sup = "filter (\<lambda>x. x \<notin> set frontier) (sorted_list_of_fset (rs_revival_starts (fold_run es)))"
  let ?per = "rvl_by_start (rerun_revival J pb (fold_run es) (all_starts pb starts ?c) ?c)"
  have "\<exists>act. s = ra_state (rerun_loop (fold_run es) ?sup ?per)
      \<and> evs = ra_events (rerun_loop (fold_run es) ?sup ?per)
          @ revived_inputs J pb es s (rerun_revival J pb (fold_run es) (all_starts pb starts ?c) ?c) act"
    using assms Cons by (auto simp: revive_def Let_def)
  then show ?thesis
    using Cons that [of ?sup ?per] revived_inputs_records by fastforce
qed

text \<open>
  C9: the state a re-run hands the drive is the state the next driver will fold: folding the
  journal with every record the re-run appended gives that state, open deferrals apart.
\<close>

theorem rerun_state_is_fold:
  assumes "revive J pb es starts frontier overridden = (s, frontier', evs)" "map ev_payload new = evs"
  shows "no_deferrals (fold_run (es @ new)) = no_deferrals s"
proof -
  obtain sup1 per records where r:
    "s = (if starts = [] then fold_run es else ra_state (rerun_loop (fold_run es) sup1 per))"
    "evs = (if starts = [] then [] else ra_events (rerun_loop (fold_run es) sup1 per) @ records)"
    "list_all rerun_record records" "\<forall>t. foldl replay t records = t"
    by (rule revive_eq [OF assms(1)])
  have loop: "list_all rerun_record (ra_events (rerun_loop (fold_run es) sup1 per))
      \<and> no_deferrals (ra_state (rerun_loop (fold_run es) sup1 per)) =
        foldl replay (no_deferrals (fold_run es)) (ra_events (rerun_loop (fold_run es) sup1 per))"
    unfolding rerun_loop_def by (rule rerun_loop_replay) simp_all
  then have "list_all rerun_record evs" using r by simp
  then have "no_deferrals (fold_run (es @ new)) = foldl replay (no_deferrals (fold_run es)) evs"
    using fold_run_replay [of new es] assms(2) by simp
  then show ?thesis using r loop by (simp split: if_splits)
qed

theorem rerun_state_is_fold_witness:
  "let es = numbered 0 [Node_Started ''a'' 1, finished_event ''a'' ''failed'' []] in
   case revive (\<lambda>_. None) (plain_playbook [] [plain_edge ''a'' ''b'']) es [''a''] [] [] of
     (s, frontier', evs) \<Rightarrow> no_deferrals (fold_run (es @ numbered 2 evs)) = no_deferrals s"
proof -
  let ?es = "numbered 0 [Node_Started ''a'' 1, finished_event ''a'' ''failed'' []]"
  obtain s f evs where r: "revive (\<lambda>_. None) (plain_playbook [] [plain_edge ''a'' ''b'']) ?es [''a''] [] [] = (s, f, evs)"
    by (metis prod_cases3)
  have "map ev_payload (numbered k ps) = ps" for k ps
    by (induction ps arbitrary: k) simp_all
  then show ?thesis unfolding Let_def r prod.case by (rule rerun_state_is_fold [OF r])
qed

section \<open>Standing write-offs\<close>

definition writes_off :: "string \<Rightarrow> string \<Rightarrow> event \<Rightarrow> bool" where
  "writes_off join src e =
     (case ev_payload e of Join_Input_Dead n srcs \<Rightarrow> n = join \<and> src \<in> set srcs | _ \<Rightarrow> False)"

definition revokes :: "string \<Rightarrow> string \<Rightarrow> event \<Rightarrow> bool" where
  "revokes join src e =
     (case ev_payload e of
        Join_Input_Dead n srcs \<Rightarrow> n = join \<and> src \<notin> set srcs
      | Join_Input_Revived n srcs _ \<Rightarrow> n = join \<and> src \<in> set srcs
      | _ \<Rightarrow> False)"

lemma write_off_step_member:
  "(src \<in> set (fget (write_off_step out e) [] join)) =
    (writes_off join src e \<or> src \<in> set (fget out [] join) \<and> \<not> revokes join src e)"
  by (cases "ev_payload e")
    (auto simp: write_off_step_def writes_off_def revokes_def Let_def fget_def filter_empty_conv
      split: option.splits)

interpretation write_offs: journal_projection write_off_step fmempty
  "\<lambda>out. src \<in> set (fget out [] join)"
  "\<lambda>b e. writes_off join src e \<or> b \<and> \<not> revokes join src e" for src join
  by unfold_locales (rule write_off_step_member)

text \<open>
  A write-off stands until it is taken back: an input of a join counts as written off exactly
  when some record wrote it off and no later one revived it or replaced that join's list without
  it.
\<close>

theorem write_offs_standing:
  "(src \<in> set (fget (standing_write_offs es) [] join)) =
    (\<exists>xs e ys. es = xs @ e # ys \<and> writes_off join src e \<and> list_all (\<lambda>y. \<not> revokes join src y) ys)"
  using write_offs.view_fold [where src = src and join = join and es = es]
    last_wins [of "writes_off join src" "revokes join src" es]
  by (simp add: standing_write_offs_def list_all_iff)

end
