(* ===== verification/Pause_Clock.thy ===== *)
theory Pause_Clock
  imports Run_State
begin

text \<open>
  The operator pause and the clock it stops: \<^verbatim>\<open>apb-engine/src/pause.rs\<close>, the causes read
  back from a pause's reason (\<^verbatim>\<open>pause/cause.rs\<close>, \<^verbatim>\<open>pause/kind.rs\<close>) and the
  reasons the engine writes (\<^verbatim>\<open>pause/quota.rs\<close>, \<^verbatim>\<open>pause/billing.rs\<close>).  Timestamps are
  the journal's \<^verbatim>\<open>u128\<close> milliseconds, natural numbers here; a deadline the caller keeps as
  \<^verbatim>\<open>u64\<close> stays a word.  The lemmas show that the clock of every deadline, timeout and retry
  delay counts exactly the milliseconds at which the journal was not paused.
\<close>

section \<open>Requests and reasons\<close>

record pause_request =
  pq_reason :: "string option"
  pq_by :: "pause_by option"
  pq_mode :: pause_mode
  pq_until :: "u64 option"
  pq_keep_lock :: bool

definition supervisor_request :: pause_request where
  "supervisor_request = \<lparr> pq_reason = None, pq_by = Some By_Supervisor_Pause, pq_mode = Drain,
     pq_until = None, pq_keep_lock = False \<rparr>"

definition journal_reason :: "pause_request \<Rightarrow> string" where
  "journal_reason q =
     (let label = (case pq_by q of Some By_Operator \<Rightarrow> ''operator pause''
                   | Some By_Engine \<Rightarrow> ''engine pause'' | _ \<Rightarrow> ''supervisor pause'') in
      case pq_reason q of Some r \<Rightarrow> (if trim r \<noteq> [] then r else label) | None \<Rightarrow> label)"

definition pause_event :: "pause_request \<Rightarrow> event_payload" where
  "pause_event q =
     Run_Paused \<lparr> rp_reason = journal_reason q, rp_by = pq_by q, rp_mode = Some (pq_mode q),
       rp_until = pq_until q, rp_keep_lock = pq_keep_lock q \<rparr>"

definition engine_paused :: "string \<Rightarrow> event_payload" where
  "engine_paused reason =
     Run_Paused \<lparr> rp_reason = reason, rp_by = Some By_Engine, rp_mode = None,
       rp_until = None, rp_keep_lock = False \<rparr>"

datatype pause_cause = Cause_Quota | Cause_Budget | Cause_Billing

definition pause_cause_str :: "pause_cause \<Rightarrow> string" where
  "pause_cause_str c = (case c of Cause_Quota \<Rightarrow> ''quota'' | Cause_Budget \<Rightarrow> ''budget''
     | Cause_Billing \<Rightarrow> ''billing'')"

definition QUOTA_PREFIX :: string where "QUOTA_PREFIX = ''quota (''"

definition BUDGET_PREFIX :: string where "BUDGET_PREFIX = ''budget (''"

definition BILLING_PREFIX :: string where "BILLING_PREFIX = ''billing (''"

definition reason_inner :: "string \<Rightarrow> string \<Rightarrow> string option" where
  "reason_inner pre reason = Option.bind (strip_prefix pre reason) (strip_suffix '')'')"

definition parse_billing_reason :: "string \<Rightarrow> (string \<times> string) option" where
  "parse_billing_reason reason =
     Option.bind (reason_inner BILLING_PREFIX reason) (\<lambda>inner.
       Option.bind (split_once_str '': '' inner) (\<lambda>(agent, basis).
         if agent \<noteq> [] \<and> basis \<noteq> [] then Some (agent, basis) else None))"

definition parse_quota_reason :: "string \<Rightarrow> (string \<times> string) option" where
  "parse_quota_reason reason =
     Option.bind (reason_inner QUOTA_PREFIX reason) (\<lambda>inner.
       Option.bind (split_once (CHR ''/'') inner) (\<lambda>(agent, model).
         if agent \<noteq> [] then Some (agent, model) else None))"

definition is_budget_reason :: "string \<Rightarrow> bool" where
  "is_budget_reason reason = (prefix BUDGET_PREFIX reason \<and> suffix '')'' reason)"

definition cause_of :: "string \<Rightarrow> pause_by \<Rightarrow> pause_cause option" where
  "cause_of reason by =
     (if by \<noteq> By_Engine then None
      else if parse_quota_reason reason \<noteq> None then Some Cause_Quota
      else if is_budget_reason reason then Some Cause_Budget
      else if parse_billing_reason reason \<noteq> None then Some Cause_Billing
      else None)"

definition quota_reason :: "string \<Rightarrow> string \<Rightarrow> string" where
  "quota_reason agent model = QUOTA_PREFIX @ agent @ ''/'' @ model @ '')''"

definition quota_pause :: "string \<Rightarrow> string \<Rightarrow> u64 \<Rightarrow> pause_request" where
  "quota_pause agent model until =
     \<lparr> pq_reason = Some (quota_reason agent model), pq_by = Some By_Engine, pq_mode = Drain,
       pq_until = Some until, pq_keep_lock = False \<rparr>"

section \<open>Paused intervals\<close>

definition opens_pause :: "event_payload \<Rightarrow> bool" where
  "opens_pause p = (case p of Run_Paused _ \<Rightarrow> \<not> is_legacy_resume_marker p | _ \<Rightarrow> False)"

definition closes_pause :: "event_payload \<Rightarrow> bool" where
  "closes_pause p = (case p of Run_Resumed _ \<Rightarrow> True | Run_Aborted _ _ \<Rightarrow> True
     | Run_Finished _ \<Rightarrow> True | Node_Started _ _ \<Rightarrow> True | _ \<Rightarrow> False)"

type_synonym spans = "(nat \<times> nat) list"

definition pause_step :: "spans \<times> nat option \<Rightarrow> event \<Rightarrow> spans \<times> nat option" where
  "pause_step acc e =
     (let (out, opened) = acc; p = ev_payload e in
      if is_legacy_resume_marker p then acc
      else if (case p of Run_Paused _ \<Rightarrow> True | _ \<Rightarrow> False) then
        (out, case opened of None \<Rightarrow> Some (ev_ts e) | Some s \<Rightarrow> Some s)
      else if closes_pause p then
        (case opened of Some s \<Rightarrow> (out @ [(s, max (ev_ts e) s)], None) | None \<Rightarrow> acc)
      else acc)"

definition paused_intervals :: "event list \<Rightarrow> nat \<Rightarrow> spans" where
  "paused_intervals es now =
     (case foldl pause_step ([], None) es of
        (out, None) \<Rightarrow> out
      | (out, Some s) \<Rightarrow> out @ [(s, max now s)])"

definition ended_step :: "spans \<times> nat option \<Rightarrow> event \<Rightarrow> spans \<times> nat option" where
  "ended_step acc e =
     (let (out, ended) = acc in
      case ev_payload e of
        Run_Finished _ \<Rightarrow> (out, case ended of None \<Rightarrow> Some (ev_ts e) | Some s \<Rightarrow> Some s)
      | Run_Aborted _ _ \<Rightarrow> (out, case ended of None \<Rightarrow> Some (ev_ts e) | Some s \<Rightarrow> Some s)
      | Run_Resumed _ \<Rightarrow>
          (case ended of Some s \<Rightarrow> (out @ [(s, max (ev_ts e) s)], None) | None \<Rightarrow> acc)
      | _ \<Rightarrow> acc)"

definition ended_intervals :: "event list \<Rightarrow> spans" where
  "ended_intervals es = fst (foldl ended_step ([], None) es)"

definition inactive_intervals :: "event list \<Rightarrow> nat \<Rightarrow> spans" where
  "inactive_intervals es now = paused_intervals es now @ ended_intervals es"

definition paused_ms_in :: "spans \<Rightarrow> nat \<Rightarrow> nat \<Rightarrow> nat" where
  "paused_ms_in ivs from to =
     (if to \<le> from then 0 else sum_list (map (\<lambda>(s, e). min e to - max s from) ivs))"

definition inactive_ms_between :: "event list \<Rightarrow> nat \<Rightarrow> nat \<Rightarrow> nat \<Rightarrow> nat" where
  "inactive_ms_between es from to now = paused_ms_in (inactive_intervals es now) from to"

definition active_run_ms :: "event list \<Rightarrow> nat \<Rightarrow> nat \<Rightarrow> nat \<Rightarrow> nat" where
  "active_run_ms es from to now = (to - from) - inactive_ms_between es from to now"

definition paused_ms_between :: "event list \<Rightarrow> nat \<Rightarrow> nat \<Rightarrow> nat \<Rightarrow> nat" where
  "paused_ms_between es from to now = paused_ms_in (paused_intervals es now) from to"

definition active_elapsed_ms :: "event list \<Rightarrow> nat \<Rightarrow> nat \<Rightarrow> nat \<Rightarrow> nat" where
  "active_elapsed_ms es from to now = (to - from) - paused_ms_between es from to now"

definition clamp_u64 :: "nat \<Rightarrow> u64" where
  "clamp_u64 n = (if n < 2 ^ 64 then of_nat n else - 1)"

definition shift_by_paused :: "u64 \<Rightarrow> event list \<Rightarrow> nat \<Rightarrow> u64" where
  "shift_by_paused deadline es now =
     saturating_add deadline
       (clamp_u64 (sum_list (map (\<lambda>(s, e). e - s) (paused_intervals es now))))"

definition run_start :: "event list \<Rightarrow> nat option" where
  "run_start es =
     map_option ev_ts
       (find (\<lambda>e. case ev_payload e of Run_Started _ _ _ \<Rightarrow> True | _ \<Rightarrow> False) es)"

definition active_elapsed_seconds :: "event list option \<Rightarrow> nat \<Rightarrow> u64 option" where
  "active_elapsed_seconds journal now =
     Option.bind journal (\<lambda>es. Option.bind (run_start es) (\<lambda>start.
       let s = active_elapsed_ms es start now now div 1000 in
       if s < 2 ^ 64 then Some (of_nat s) else None))"

section \<open>The pause a surface reports\<close>

record pause_info =
  pi_reason :: string
  pi_by :: pause_by
  pi_mode :: pause_mode
  pi_since :: "nat option"
  pi_until :: "u64 option"
  pi_keep_lock :: bool
  pi_pausing :: bool
  pi_cause :: "pause_cause option"

definition last_pause_step :: "event option \<times> nat option \<Rightarrow> event \<Rightarrow> event option \<times> nat option" where
  "last_pause_step acc e =
     (let (last, since) = acc; p = ev_payload e in
      if is_legacy_resume_marker p then acc
      else if (case p of Run_Paused _ \<Rightarrow> True | _ \<Rightarrow> False) then
        (Some e, case since of None \<Rightarrow> Some (ev_ts e) | Some s \<Rightarrow> Some s)
      else if closes_pause p then (last, None)
      else acc)"

definition last_pause :: "event list \<Rightarrow> (event \<times> nat) option" where
  "last_pause es =
     (case foldl last_pause_step (None, None) es of
        (Some e, Some s) \<Rightarrow> Some (e, s) | _ \<Rightarrow> None)"

definition pause_info_of ::
  "event list \<Rightarrow> run_status \<Rightarrow> pause_request option \<Rightarrow> bool option \<Rightarrow> pause_info option" where
  "pause_info_of es status pending driver_alive =
     (case status of
        Run_Is_Paused \<Rightarrow>
          Option.bind (last_pause es) (\<lambda>(e, since).
            case ev_payload e of
              Run_Paused r \<Rightarrow>
                (let by = (case rp_by r of Some b \<Rightarrow> b | None \<Rightarrow> By_Supervisor_Pause) in
                 Some \<lparr> pi_reason = rp_reason r, pi_by = by,
                   pi_mode = (case rp_mode r of Some m \<Rightarrow> m | None \<Rightarrow> Drain), pi_since = Some since,
                   pi_until = rp_until r, pi_keep_lock = rp_keep_lock r, pi_pausing = False,
                   pi_cause = cause_of (rp_reason r) by \<rparr>)
            | _ \<Rightarrow> None)
      | Run_Running \<Rightarrow>
          (if driver_alive = Some True then
             map_option (\<lambda>q. let by = (case pq_by q of Some b \<Rightarrow> b | None \<Rightarrow> By_Supervisor_Pause) in
               \<lparr> pi_reason = journal_reason q, pi_by = by, pi_mode = pq_mode q, pi_since = None,
                 pi_until = pq_until q, pi_keep_lock = pq_keep_lock q, pi_pausing = True,
                 pi_cause = cause_of (journal_reason q) by \<rparr>) pending
           else None)
      | _ \<Rightarrow> None)"

section \<open>What still holds a run\<close>

datatype wake_hold = Hold_Pause nat | Hold_Release nat

definition pause_holds :: "event list \<Rightarrow> nat \<Rightarrow> bool" where
  "pause_holds es seq =
     (rs_run_status (fold_run es) = Run_Is_Paused \<and>
      map_option ev_seq
        (find (\<lambda>e. case ev_payload e of Run_Paused _ \<Rightarrow> True | _ \<Rightarrow> False) (rev es)) = Some seq)"

definition release_wake :: "event list \<Rightarrow> nat \<Rightarrow> u64 option" where
  "release_wake es seq =
     (let s = fold_run es in
      if rs_run_status s \<noteq> Run_Running then None
      else case rs_released s of
        Some r \<Rightarrow>
          (if rl_seq r \<noteq> seq then None
           else if fBex (fmran (rs_deferred s)) dr_expedited then Some 0
           else Some (rl_wake_at_ms r))
      | None \<Rightarrow> None)"

definition hold_holds :: "wake_hold \<Rightarrow> event list \<Rightarrow> bool" where
  "hold_holds h es =
     (case h of Hold_Pause seq \<Rightarrow> pause_holds es seq
      | Hold_Release seq \<Rightarrow> release_wake es seq \<noteq> None)"

section \<open>Reasons read back\<close>

lemma reason_inner_own [simp]: "reason_inner pre (pre @ inner @ '')'') = Some inner"
proof -
  have "strip_prefix pre (pre @ (inner @ '')'')) = Some (inner @ '')'')" by (rule strip_prefix_append)
  then show ?thesis unfolding reason_inner_def by simp
qed

lemma parse_quota_own:
  assumes "agent \<noteq> []" "CHR ''/'' \<notin> set agent"
  shows "parse_quota_reason (quota_reason agent model) = Some (agent, model)"
proof -
  have "quota_reason agent model = QUOTA_PREFIX @ (agent @ CHR ''/'' # model) @ '')''"
    by (simp add: quota_reason_def)
  then show ?thesis
    using assms reason_inner_own [of QUOTA_PREFIX "agent @ CHR ''/'' # model"]
    by (simp add: parse_quota_reason_def)
qed

section \<open>The paused clock\<close>

text \<open>
  Whether a journal leaves the run paused, and whether it was paused at a millisecond: what the
  events stamped up to that millisecond leave.
\<close>

definition leaves_paused :: "event list \<Rightarrow> bool" where
  "leaves_paused es = (\<exists>xs e ys. es = xs @ e # ys \<and> opens_pause (ev_payload e) \<and>
     (\<forall>y\<in>set ys. \<not> closes_pause (ev_payload y)))"

definition paused_at :: "event list \<Rightarrow> nat \<Rightarrow> bool" where
  "paused_at es t = leaves_paused (filter (\<lambda>e. ev_ts e \<le> t) es)"

definition in_spans :: "spans \<Rightarrow> nat \<Rightarrow> bool" where
  "in_spans ivs t = list_ex (\<lambda>(s, e). s \<le> t \<and> t < e) ivs"

fun chained :: "nat \<Rightarrow> spans \<Rightarrow> bool" where
  "chained lo [] = True"
| "chained lo ((s, e) # ivs) = (lo \<le> s \<and> s \<le> e \<and> chained e ivs)"

lemma leaves_paused_Nil [simp]: "\<not> leaves_paused []"
  by (simp add: leaves_paused_def)

lemma leaves_paused_snoc:
  "leaves_paused (es @ [e]) =
    (opens_pause (ev_payload e) \<or> leaves_paused es \<and> \<not> closes_pause (ev_payload e))"
  unfolding leaves_paused_def by (rule split_snoc)

lemma leaves_paused_fold:
  "leaves_paused es =
    foldl (\<lambda>b e. opens_pause (ev_payload e) \<or> b \<and> \<not> closes_pause (ev_payload e)) False es"
  unfolding leaves_paused_def last_wins ..

lemma opens_not_closes: "opens_pause p \<Longrightarrow> \<not> closes_pause p"
  by (cases p) (simp_all add: opens_pause_def closes_pause_def)

lemma pause_step_cases:
  "pause_step (out, opened) e =
    (if opens_pause (ev_payload e)
     then (out, Some (case opened of None \<Rightarrow> ev_ts e | Some s \<Rightarrow> s))
     else if closes_pause (ev_payload e)
     then (case opened of Some s \<Rightarrow> (out @ [(s, max (ev_ts e) s)], None) | None \<Rightarrow> (out, None))
     else (out, opened))"
  by (cases "ev_payload e")
    (auto simp: pause_step_def opens_pause_def closes_pause_def is_legacy_resume_marker_def
      split: option.splits)

lemma in_spans_append [simp]: "in_spans (xs @ ys) t = (in_spans xs t \<or> in_spans ys t)"
  by (simp add: in_spans_def)

lemma in_spans_simps [simp]: "\<not> in_spans [] t"
  "in_spans ((s, e) # ivs) t = (s \<le> t \<and> t < e \<or> in_spans ivs t)"
  by (simp_all add: in_spans_def)

lemma chained_snoc:
  "chained lo (ivs @ [(s, e)]) = (chained lo ivs \<and> (if ivs = [] then lo else snd (last ivs)) \<le> s \<and> s \<le> e)"
  by (induction lo ivs rule: chained.induct) auto

lemma chained_low: "chained lo ivs \<Longrightarrow> in_spans ivs t \<Longrightarrow> lo \<le> t"
  by (induction lo ivs rule: chained.induct) auto

lemma chained_mono: "chained lo ivs \<Longrightarrow> lo' \<le> lo \<Longrightarrow> chained lo' ivs"
  by (cases ivs) auto

text \<open>The overlaps of disjoint spans add up to the milliseconds they cover.\<close>

lemma overlap_card: "min e to - max s from = card {t. from \<le> t \<and> t < to \<and> s \<le> t \<and> t < (e :: nat)}"
proof -
  have "{t. from \<le> t \<and> t < to \<and> s \<le> t \<and> t < e} = {max s from ..< min e to}" by auto
  then show ?thesis by simp
qed

lemma spans_card:
  "chained lo ivs \<Longrightarrow> sum_list (map (\<lambda>(s, e). min e to - max s from) ivs) =
    card {t. from \<le> t \<and> t < to \<and> in_spans ivs t}"
proof (induction lo ivs rule: chained.induct)
  case (1 lo)
  then show ?case by simp
next
  case (2 lo s e ivs)
  let ?A = "{t. from \<le> t \<and> t < to \<and> s \<le> t \<and> t < e}"
  let ?B = "{t. from \<le> t \<and> t < to \<and> in_spans ivs t}"
  have ch: "chained e ivs" using 2 by simp
  have split: "{t. from \<le> t \<and> t < to \<and> in_spans ((s, e) # ivs) t} = ?A \<union> ?B" by auto
  have "finite ?A" "finite ?B" by (rule finite_subset [of _ "{..<to}"]; auto)+
  moreover have "?A \<inter> ?B = {}" using chained_low [OF ch] by fastforce
  ultimately have "card (?A \<union> ?B) = card ?A + card ?B" by (rule card_Un_disjoint)
  then show ?case using 2 split overlap_card [of e to s "from"] by simp
qed

lemma paused_ms_card:
  "chained lo ivs \<Longrightarrow> paused_ms_in ivs from to = card {t. from \<le> t \<and> t < to \<and> in_spans ivs t}"
proof (cases "to \<le> from")
  case True
  then have "{t. from \<le> t \<and> t < to \<and> in_spans ivs t} = {}" by auto
  then have "card {t. from \<le> t \<and> t < to \<and> in_spans ivs t} = 0" by (simp only: card.empty)
  then show ?thesis using True by (simp add: paused_ms_in_def)
next
  case False
  assume "chained lo ivs"
  then show ?thesis using False spans_card by (simp add: paused_ms_in_def)
qed

text \<open>
  What the fold over a journal in time order holds: its closed spans are disjoint, in order and
  past, and with the open one they cover the milliseconds the journal was paused at.
\<close>

definition past :: "event list \<Rightarrow> nat \<Rightarrow> bool" where
  "past es m = (\<forall>e\<in>set es. ev_ts e \<le> m)"

definition clock_inv :: "event list \<Rightarrow> spans \<times> nat option \<Rightarrow> bool" where
  "clock_inv es acc =
     (case acc of (out, opened) \<Rightarrow>
        chained 0 (out @ (case opened of Some s \<Rightarrow> [(s, s)] | None \<Rightarrow> [])) \<and>
        (\<forall>t. paused_at es t = (in_spans out t \<or> (case opened of Some s \<Rightarrow> s \<le> t | None \<Rightarrow> False))) \<and>
        (\<forall>m. past es m \<longrightarrow> (\<forall>x\<in>set out. snd x \<le> m) \<and> (\<forall>s. opened = Some s \<longrightarrow> s \<le> m)))"

lemma paused_at_snoc:
  "paused_at (es @ [e]) t =
    (if ev_ts e \<le> t then opens_pause (ev_payload e) \<or> paused_at es t \<and> \<not> closes_pause (ev_payload e)
     else paused_at es t)"
  by (simp add: paused_at_def leaves_paused_snoc)

lemma paused_at_past: "past es t \<Longrightarrow> paused_at es t = leaves_paused es"
  unfolding paused_at_def past_def by (metis filter_True)

lemma in_spans_below: "in_spans ivs t \<Longrightarrow> \<forall>x\<in>set ivs. snd x \<le> m \<Longrightarrow> t < m"
  by (fastforce simp: in_spans_def list_ex_iff)

lemma clock_inv_step:
  assumes inv: "clock_inv es acc" and p: "past es (ev_ts e)"
  shows "clock_inv (es @ [e]) (pause_step acc e)"
proof -
  obtain out opened where acc: "acc = (out, opened)" by (cases acc)
  have ch: "chained 0 (out @ (case opened of Some s \<Rightarrow> [(s, s)] | None \<Rightarrow> []))"
    and at: "\<And>t. paused_at es t = (in_spans out t \<or> (case opened of Some s \<Rightarrow> s \<le> t | None \<Rightarrow> False))"
    and le: "\<And>m. past es m \<Longrightarrow> (\<forall>x\<in>set out. snd x \<le> m) \<and> (\<forall>s. opened = Some s \<longrightarrow> s \<le> m)"
    using inv unfolding clock_inv_def acc by auto
  have ends: "\<forall>x\<in>set out. snd x \<le> ev_ts e" and op: "\<And>s. opened = Some s \<Longrightarrow> s \<le> ev_ts e"
    using le [OF p] by auto
  have no: "\<not> in_spans out t" if "ev_ts e \<le> t" for t
    using in_spans_below [OF _ ends] that by fastforce
  have pm: "past (es @ [e]) m \<longleftrightarrow> past es m \<and> ev_ts e \<le> m" for m by (auto simp: past_def)
  have lst: "out \<noteq> [] \<Longrightarrow> snd (last out) \<le> ev_ts e" using ends by simp
  have oc: "opens_pause (ev_payload e) \<Longrightarrow> \<not> closes_pause (ev_payload e)" by (rule opens_not_closes)
  show ?thesis
    using ch at le ends op no lst oc unfolding acc pause_step_cases clock_inv_def
    by (cases opened)
      (auto simp: paused_at_snoc pm chained_snoc max_def split: if_splits)
qed

lemma clock_inv_fold: "sorted (map ev_ts es) \<Longrightarrow> clock_inv es (foldl pause_step ([], None) es)"
proof (induction es rule: rev_induct)
  case Nil
  then show ?case by (simp add: clock_inv_def paused_at_def)
next
  case (snoc e es)
  then have "past es (ev_ts e)" by (auto simp: past_def sorted_append)
  then show ?case using clock_inv_step snoc by (simp add: sorted_append)
qed

lemma paused_intervals_exact:
  assumes "sorted (map ev_ts es)"
  shows "chained 0 (paused_intervals es now)"
    and "t < now \<Longrightarrow> in_spans (paused_intervals es now) t = paused_at es t"
proof -
  obtain out opened where f: "foldl pause_step ([], None) es = (out, opened)" by force
  have inv: "clock_inv es (out, opened)" using clock_inv_fold [OF assms] f by simp
  show "chained 0 (paused_intervals es now)"
    using inv by (auto simp: paused_intervals_def f clock_inv_def chained_snoc split: option.splits)
  show "t < now \<Longrightarrow> in_spans (paused_intervals es now) t = paused_at es t"
    using inv by (auto simp: paused_intervals_def f clock_inv_def split: option.splits)
qed

lemma card_interval_split:
  "(to - from) - card {t. from \<le> t \<and> t < to \<and> P t} = card {t. from \<le> t \<and> t < (to :: nat) \<and> \<not> P t}"
proof -
  let ?A = "{t. from \<le> t \<and> t < to \<and> P t}" and ?B = "{t. from \<le> t \<and> t < to \<and> \<not> P t}"
  have "finite ?A" "finite ?B" by (rule finite_subset [of _ "{..<to}"]; auto)+
  moreover have "?A \<inter> ?B = {}" by blast
  ultimately have "card (?A \<union> ?B) = card ?A + card ?B" by (rule card_Un_disjoint)
  moreover have "?A \<union> ?B = {from ..< to}" by auto
  ultimately show ?thesis by simp
qed

text \<open>
  The clock of every deadline, timeout and retry delay counts exactly the milliseconds of the span
  at which the run was not paused.
\<close>

lemma active_elapsed_card:
  assumes "sorted (map ev_ts es)" "to \<le> now"
  shows "active_elapsed_ms es from to now = card {t. from \<le> t \<and> t < to \<and> \<not> paused_at es t}"
proof -
  have "{t. from \<le> t \<and> t < to \<and> in_spans (paused_intervals es now) t} =
      {t. from \<le> t \<and> t < to \<and> paused_at es t}"
    using paused_intervals_exact(2) [OF assms(1)] assms(2) by auto
  then have "paused_ms_between es from to now = card {t. from \<le> t \<and> t < to \<and> paused_at es t}"
    using paused_ms_card [OF paused_intervals_exact(1) [OF assms(1)]]
    by (simp add: paused_ms_between_def)
  then show ?thesis unfolding active_elapsed_ms_def by (simp only: card_interval_split)
qed

definition pause_journal :: "event list" where
  "pause_journal = numbered 0 [Run_Started [] [] None, paused_event ''p'' None,
     resumed ''a'' None True, Node_Started ''a'' 1]"

text \<open>
  Once a pause stands, with nothing that closes it journaled after, the clock stands still: two
  readings after the last event give the same active time.
\<close>

lemma paused_clock_stands:
  assumes "sorted (map ev_ts es)" "leaves_paused es" "past es n" "n \<le> m"
  shows "active_elapsed_ms es from m m = active_elapsed_ms es from n n"
proof -
  have "{t. from \<le> t \<and> t < m \<and> \<not> paused_at es t} = {t. from \<le> t \<and> t < n \<and> \<not> paused_at es t}"
  proof -
    have "paused_at es t" if "n \<le> t" for t
    proof -
      have "past es t" using assms(3) that by (fastforce simp: past_def)
      then show ?thesis using assms(2) paused_at_past by blast
    qed
    then show ?thesis using assms(4) by (metis (no_types, lifting) le_eq_less_or_eq linorder_not_le order_trans)
  qed
  then show ?thesis using assms(1) by (simp add: active_elapsed_card)
qed

end
