(* ===== verification/Deferred.thy ===== *)
theory Deferred
  imports Pause_Clock Float64 Civil_Clock
begin

text \<open>
  Deferred retries (\<^verbatim>\<open>apb-engine/src/scheduler/deferred.rs\<close>), how run surfaces report
  them (\<^verbatim>\<open>retry_wait.rs\<close>) and the drive's admission turn around them
  (\<^verbatim>\<open>scheduler.rs\<close>): the delay of a retry, when an open deferral is due on the paused
  clock, which node a turn runs, sleeps for or releases the run over, and the expedite and
  write-off of open deferrals.  A \<^verbatim>\<open>Duration\<close> is its whole milliseconds.  The power
  \<^verbatim>\<open>f64::powi\<close>, whose precision the standard library leaves open, is the parameter
  \<open>pw\<close>; the clock reading, the event lock and the control file's entries are arguments.
\<close>

section \<open>The delay\<close>

definition RELEASE_AFTER :: nat where "RELEASE_AFTER = 60000"

definition WAIT_TICK :: nat where "WAIT_TICK = 200"

definition test_override :: "bool \<Rightarrow> string option \<Rightarrow> nat option" where
  "test_override knobs raw =
     (if knobs then Option.bind raw (\<lambda>v. parse_unsigned (2 ^ 64) (trim v)) else None)"

definition release_after_from :: "bool \<Rightarrow> string option \<Rightarrow> nat" where
  "release_after_from knobs raw =
     (case test_override knobs raw of Some d \<Rightarrow> d | None \<Rightarrow> RELEASE_AFTER)"

datatype run_mode = Autonomous | Supervised | Agent_Supervised

definition parks_on_failure :: "run_mode \<Rightarrow> bool" where
  "parks_on_failure m = (m = Supervised \<or> m = Agent_Supervised)"

text \<open>What \<^verbatim>\<open>may_release\<close> reads of a run's configuration.\<close>

record release_config =
  rc_parent_run :: "string option"
  rc_eval :: "opaque option"
  rc_unattended :: bool

definition may_release :: "nat \<Rightarrow> release_config \<Rightarrow> run_mode \<Rightarrow> u64 \<Rightarrow> nat \<Rightarrow> bool" where
  "may_release release_after cfg mode due_at now =
     (rc_parent_run cfg = None \<and> rc_eval cfg = None \<and> \<not> rc_unattended cfg \<and>
      \<not> parks_on_failure mode \<and> release_after < unat due_at - now)"

definition retry_exponent :: "u32 \<Rightarrow> int" where
  "retry_exponent retry = min (int (unat retry - 1)) (2 ^ 31 - 1)"

definition delay_ms :: "(f64 \<Rightarrow> int \<Rightarrow> f64) \<Rightarrow> retry_delay \<Rightarrow> u32 \<Rightarrow> nat option \<Rightarrow> u64" where
  "delay_ms pw policy retry retry_after =
     (let initial = f64_of_u64 (saturating_mul
            (case initial_secs policy of Some s \<Rightarrow> s | None \<Rightarrow> 1) 1000);
          limit = saturating_mul
            (case max_secs policy of Some s \<Rightarrow> s | None \<Rightarrow> CEILING_SECS) 1000;
          grown = f64_mul initial (pw (f64_max (rd_factor policy) f64_one) (retry_exponent retry));
          base = (if f64_is_finite grown \<and> f64_lt grown (f64_of_u64 limit)
                  then f64_to_u64 grown else limit);
          asked = (case retry_after of Some d \<Rightarrow> clamp_u64 d | None \<Rightarrow> 0)
      in min (max base asked) limit)"

record retry_continuation =
  rcn_step :: u32
  rcn_retry :: u32
  rcn_binding :: string
  rcn_attempt :: u32

definition continuation_of :: "deferred_retry \<Rightarrow> retry_continuation" where
  "continuation_of d = \<lparr> rcn_step = dr_step d, rcn_retry = dr_retry d,
     rcn_binding = dr_binding d, rcn_attempt = dr_attempt d \<rparr>"

section \<open>When a deferral is due\<close>

datatype due_time = Due_Now | Due_At u64 | Due_Frozen u64

definition due_in :: "event list \<Rightarrow> deferred_retry \<Rightarrow> nat \<Rightarrow> bool \<Rightarrow> due_time" where
  "due_in es d now paused =
     (if dr_expedited d then Due_Now
      else
        (let remaining = unat (dr_delay_ms d) - active_elapsed_ms es (dr_ts d) now now in
         if remaining = 0 then Due_Now
         else if paused then Due_Frozen (clamp_u64 remaining)
         else Due_At (saturating_add (clamp_u64 now) (clamp_u64 remaining))))"

definition due :: "event list \<Rightarrow> deferred_retry \<Rightarrow> nat \<Rightarrow> due_time" where
  "due es d now = due_in es d now (rs_run_status (fold_run es) = Run_Is_Paused)"

definition due_ms :: "nat \<Rightarrow> due_time \<Rightarrow> u64 option" where
  "due_ms now t =
     (case t of Due_Now \<Rightarrow> None | Due_At at \<Rightarrow> Some at
      | Due_Frozen remaining \<Rightarrow> Some (saturating_add (clamp_u64 now) remaining))"

text \<open>A \<^verbatim>\<open>BTreeMap\<close> filtered and mapped keeps its keys.\<close>

definition fm_filter_map :: "('v \<Rightarrow> 'w option) \<Rightarrow> ('k, 'v) fmap \<Rightarrow> ('k, 'w) fmap" where
  "fm_filter_map f m =
     fmmap (\<lambda>v. the (f v)) (fmfilter (\<lambda>k. case fmlookup m k of Some v \<Rightarrow> f v \<noteq> None | None \<Rightarrow> False) m)"

definition held :: "run_state \<Rightarrow> event list \<Rightarrow> nat \<Rightarrow> (string, u64) fmap" where
  "held s es now =
     fm_filter_map (\<lambda>d. due_ms now (due_in es d now (rs_run_status s = Run_Is_Paused))) (rs_deferred s)"

text \<open>A scenario run's delays are due at once: \<open>skips\<close> says whether this run is one.\<close>

definition held_in :: "bool \<Rightarrow> run_state \<Rightarrow> event list \<Rightarrow> nat \<Rightarrow> (string, u64) fmap" where
  "held_in skips s es now = (if skips then fmempty else held s es now)"

definition waiting :: "event list \<Rightarrow> string option \<Rightarrow> string list" where
  "waiting es which =
     (let m = rs_deferred (fold_run es) in
      filter (\<lambda>n. (which = None \<or> which = Some n) \<and>
          (case fmlookup m n of Some d \<Rightarrow> \<not> dr_expedited d | None \<Rightarrow> False))
        (sorted_list_of_fset (fmdom m)))"

definition expedite :: "event list \<Rightarrow> string option \<Rightarrow> opaque option \<Rightarrow> event_payload list" where
  "expedite es which by = map (\<lambda>n. Retry_Expedited n by) (waiting es which)"

text \<open>Decided under the run's event lock: \<open>None\<close> when the run is not driven as it is now.\<close>

definition expedite_live ::
  "event list \<Rightarrow> bool option \<Rightarrow> string option \<Rightarrow> opaque option \<Rightarrow> event_payload list option" where
  "expedite_live es driver_alive which by =
     (let s = fold_run es in
      if rs_run_status s \<noteq> Run_Running \<or> rs_released s \<noteq> None \<or> driver_alive \<noteq> Some True then None
      else Some (expedite es which by))"

definition min_value :: "(string, u64) fmap \<Rightarrow> u64 option" where
  "min_value m =
     (case map (\<lambda>n. the (fmlookup m n)) (sorted_list_of_fset (fmdom m)) of
        [] \<Rightarrow> None | v # vs \<Rightarrow> Some (foldl min v vs))"

section \<open>The admission turn\<close>

definition remove_at :: "nat \<Rightarrow> 'a list \<Rightarrow> 'a list" where
  "remove_at i xs = take i xs @ drop (Suc i) xs"

definition hold ::
  "(string, u64) fmap \<Rightarrow> string \<Rightarrow> string list \<Rightarrow> string \<times> string list \<times> u64 option" where
  "hold hs current frontier =
     (if current |\<notin>| fmdom hs then (current, frontier, None)
      else case position (\<lambda>n. n |\<notin>| fmdom hs) frontier of
        Some i \<Rightarrow>
          (let rest = remove_at i frontier in
           (frontier ! i, if current \<in> set rest then rest else rest @ [current], None))
      | None \<Rightarrow> (current, frontier, min_value hs))"

definition give_way ::
  "string fset \<Rightarrow> bool \<Rightarrow> string \<Rightarrow> string list \<Rightarrow> string \<times> string list \<times> bool" where
  "give_way dues parks current frontier =
     (if \<not> parks \<or> current |\<in>| dues then (current, frontier, False)
      else case position (\<lambda>n. n |\<in>| dues) frontier of
        None \<Rightarrow> (current, frontier, False)
      | Some i \<Rightarrow>
          (let rest = remove_at i frontier in
           (frontier ! i, if current \<in> set rest then rest else current # rest, True)))"

datatype control =
    Ctl_Retry string "string option"
  | Ctl_Continue_From string
  | Ctl_Pause pause_request
  | Ctl_Abort string "pause_by option"
  | Ctl_Context_Append string
  | Ctl_Progress u64 u64 "string option" "string option"
  | Ctl_Patch string string string
  | Ctl_Interrupt string "string option"
  | Ctl_Rebind string string opaque string "string option"

definition control_pending :: "control list \<Rightarrow> bool" where
  "control_pending cs =
     list_ex (\<lambda>c. case c of Ctl_Retry _ _ \<Rightarrow> False | Ctl_Continue_From _ \<Rightarrow> False | _ \<Rightarrow> True) cs"

definition try_release ::
  "bool \<Rightarrow> control list \<Rightarrow> event list \<Rightarrow> nat \<Rightarrow> (u64 \<times> event_payload) option" where
  "try_release locked controls es now =
     (if \<not> locked then None
      else if control_pending controls then None
      else
        (let s = fold_run es; h = held s es now in
         if h = fmempty \<or> fcard (fmdom h) \<noteq> fcard (fmdom (rs_deferred s)) then None
         else case min_value h of
           None \<Rightarrow> None
         | Some wake \<Rightarrow> Some (wake, Drive_Released wake (sorted_list_of_fset (fmdom h)))))"

definition cancelled_finish :: "string \<Rightarrow> deferred_retry \<Rightarrow> event_payload" where
  "cancelled_finish n d =
     Node_Finished \<lparr> nf_node = n, nf_status = node_status_str Cancelled,
       nf_attempt = max (dr_attempt d) 1, nf_output = ''cancelled'', nf_artifacts = [],
       nf_result = None \<rparr>"

definition cancel_open :: "event list \<Rightarrow> event_payload list" where
  "cancel_open es =
     (let m = rs_deferred (fold_run es) in
      map (\<lambda>n. cancelled_finish n (the (fmlookup m n))) (sorted_list_of_fset (fmdom m)))"

definition sleep_for :: "u64 \<Rightarrow> nat \<Rightarrow> nat" where
  "sleep_for due_at now = min (unat (clamp_u64 (unat due_at - now))) WAIT_TICK"

text \<open>
  One turn of the drive up to the node it runs: hold back what is not due, release the run or
  sleep when nothing else is left, and let a due retry go before a node that parks the drive.
\<close>

datatype turn = Turn_Released u64 event_payload | Turn_Sleep nat | Turn_Run string "string list"

definition admission_turn ::
  "(u64 \<Rightarrow> bool) \<Rightarrow> bool \<Rightarrow> control list \<Rightarrow> bool \<Rightarrow> (string \<Rightarrow> bool) \<Rightarrow> event list \<Rightarrow> event list
    \<Rightarrow> nat \<Rightarrow> string \<Rightarrow> string list \<Rightarrow> turn" where
  "admission_turn release_ok locked controls skips parks es es' now current frontier =
     (let s = fold_run es; h = held_in skips s es now in
      case hold h current frontier of
        (c, f, Some due_at) \<Rightarrow>
          (case (if release_ok due_at then try_release locked controls es' now else None) of
             Some (wake, p) \<Rightarrow> Turn_Released wake p
           | None \<Rightarrow> Turn_Sleep (sleep_for due_at now))
      | (c, f, None) \<Rightarrow>
          (if rs_deferred s = fmempty then Turn_Run c f
           else
             (let (c', f', changed) =
                give_way (ffilter (\<lambda>n. n |\<notin>| fmdom h) (fmdom (rs_deferred s))) (parks c) c f
              in Turn_Run c' f')))"

section \<open>What surfaces report\<close>

record retry_wait =
  rw_node :: string
  rw_attempt :: u32
  rw_retry :: u32
  rw_delay_ms :: u64
  rw_due :: due_time
  rw_failure_kind :: "string option"
  rw_expedited :: bool

definition retry_waits :: "event list \<Rightarrow> run_state \<Rightarrow> u64 \<Rightarrow> retry_wait list" where
  "retry_waits es s now =
     map (\<lambda>n. let d = the (fmlookup (rs_deferred s) n) in
        \<lparr> rw_node = n, rw_attempt = dr_attempt d, rw_retry = dr_retry d,
          rw_delay_ms = dr_delay_ms d, rw_due = due es d (unat now),
          rw_failure_kind = dr_failure_kind d, rw_expedited = dr_expedited d \<rparr>)
       (sorted_list_of_fset (fmdom (rs_deferred s)))"

definition seconds_words :: "u64 \<Rightarrow> string" where
  "seconds_words ms =
     (let t = (unat ms + 999) div 1000; h = t div 3600; m = (t mod 3600) div 60; s = t mod 60 in
      if h = 0 \<and> m = 0 then show_nat s @ ''s''
      else if h = 0 then show_nat m @ ''m '' @ show_nat s @ ''s''
      else show_nat h @ ''h '' @ show_nat m @ ''m '' @ show_nat s @ ''s'')"

fun joined :: "string \<Rightarrow> string list \<Rightarrow> string" where
  "joined sep [] = []"
| "joined sep [x] = x"
| "joined sep (x # xs) = x @ sep @ joined sep xs"

definition node_list :: "string list \<Rightarrow> string" where
  "node_list ns = joined '', '' (map (\<lambda>n. ''`'' @ n @ ''`'') ns)"

definition released_line :: "released_drive \<Rightarrow> string" where
  "released_line r =
     ''waiting to retry '' @ node_list (rl_nodes r) @ '' at '' @ iso_utc (rl_wake_at_ms r) @
     ''; a waker resumes the run then''"

definition wait_line :: "retry_wait \<Rightarrow> string" where
  "wait_line w =
     ''retry '' @ show_nat (unat (rw_retry w)) @
     (case rw_due w of
        Due_Now \<Rightarrow> '' due now''
      | Due_At at \<Rightarrow> '' at '' @ iso_utc at
      | Due_Frozen left \<Rightarrow> '' frozen while paused, '' @ seconds_words left @ '' left'')"

record retry_refusal =
  rrf_error :: string
  rrf_detail :: string

record retry_now_plan =
  rnp_nodes :: "string list"
  rnp_live :: bool

text \<open>\<open>view\<close> is what loading the run's view returned: the fold, the reported status and the driver.\<close>

definition plan_retry_now ::
  "string + run_state \<times> run_status \<times> bool option \<Rightarrow> string \<Rightarrow> string option
    \<Rightarrow> retry_refusal + retry_now_plan" where
  "plan_retry_now view run_id which =
     (case view of
        Inl e \<Rightarrow> Inl \<lparr> rrf_error = ''not_found'', rrf_detail = e \<rparr>
      | Inr (s, status, driver_alive) \<Rightarrow>
          if is_terminal status then
            Inl \<lparr> rrf_error = ''run_finished'', rrf_detail = ''run `'' @ run_id @ ''` has ended ('' @
              run_status_str status @ ''); nothing waits to retry'' \<rparr>
          else
            (let ns = filter (\<lambda>n. which = None \<or> which = Some n)
                  (sorted_list_of_fset (fmdom (rs_deferred s))) in
             if ns = [] then
               Inl \<lparr> rrf_error = ''no_deferred_retry'', rrf_detail =
                 (case which of
                    Some n \<Rightarrow> ''node `'' @ n @ ''` of run `'' @ run_id @ ''` has no retry waiting''
                  | None \<Rightarrow> ''run `'' @ run_id @ ''` has no retry waiting'') \<rparr>
             else Inr \<lparr> rnp_nodes = ns,
               rnp_live = (driver_alive = Some True \<and> status \<noteq> Run_Is_Paused \<and> rs_released s = None) \<rparr>))"

section \<open>The delay lies between what was asked and the ceiling\<close>

lemma limit_bounds:
  "min a (l :: u64) \<le> min (max b a) l" "min (max b a) l \<le> (l :: u64)"
  by (auto simp: min_def max_def)

definition delay_ceiling :: "retry_delay \<Rightarrow> u64" where
  "delay_ceiling policy =
     saturating_mul (case max_secs policy of Some s \<Rightarrow> s | None \<Rightarrow> CEILING_SECS) 1000"

definition delay_floor :: "retry_delay \<Rightarrow> u64" where
  "delay_floor policy =
     saturating_mul (case initial_secs policy of Some s \<Rightarrow> s | None \<Rightarrow> 1) 1000"

lemma clamp_u64_unat: "unat (clamp_u64 n) = min n (2 ^ 64 - 1)"
proof (cases "n < 2 ^ 64")
  case True
  then show ?thesis by (simp add: clamp_u64_def unat_of_nat take_bit_nat_def)
next
  case False
  then show ?thesis by (simp add: clamp_u64_def unsigned_minus_1_eq_mask mask_eq_exp_minus_1)
qed

lemma delay_bounds:
  "delay_ms pw policy retry retry_after \<le> delay_ceiling policy \<and>
   min (case retry_after of Some d \<Rightarrow> clamp_u64 d | None \<Rightarrow> 0) (delay_ceiling policy)
     \<le> delay_ms pw policy retry retry_after"
  unfolding delay_ms_def Let_def delay_ceiling_def by (intro conjI limit_bounds)

lemma first_growth:
  assumes "\<forall>x. pw x 0 = f64_one" "unat retry \<le> 1" "unat (delay_floor policy) < 2 ^ 53"
  shows "f64_mul (f64_of_u64 (delay_floor policy)) (pw x (retry_exponent retry)) =
    f64_of_u64 (delay_floor policy)"
proof -
  have "retry_exponent retry = 0" using assms(2) by (simp add: retry_exponent_def)
  then show ?thesis using assms(1) f64_mul_one f64_u64_round_trip(2) [OF assms(3)] by simp
qed

text \<open>
  the delay of a retry: whatever the growth computes in floating point, overflow, infinity
  and NaN included, it never exceeds the policy's ceiling and never undercuts a provider's
  \<^verbatim>\<open>Retry-After\<close> below that ceiling; and the first retry of a step waits exactly the
  initial delay, raised to what the provider asked and capped by the ceiling, as long as both
  durations are below \<open>2^53\<close> milliseconds.  The power of exponent zero is one, as documented.
\<close>

theorem retry_delay_bounds:
  assumes "\<forall>x. pw x 0 = f64_one"
    and "unat (delay_floor policy) < 2 ^ 53" "unat (delay_ceiling policy) < 2 ^ 53"
  shows "delay_ms pw policy retry retry_after \<le> delay_ceiling policy \<and>
    min (case retry_after of Some d \<Rightarrow> clamp_u64 d | None \<Rightarrow> 0) (delay_ceiling policy)
      \<le> delay_ms pw policy retry retry_after \<and>
    (unat retry \<le> 1 \<longrightarrow> delay_ms pw policy retry retry_after =
      min (max (delay_floor policy) (case retry_after of Some d \<Rightarrow> clamp_u64 d | None \<Rightarrow> 0))
        (delay_ceiling policy))"
proof (intro conjI impI)
  assume first: "unat retry \<le> 1"
  note g = first_growth [where pw = pw, OF assms(1) first assms(2)]
    and lt = of_u64_less [OF assms(2,3)] and rt = f64_u64_round_trip [OF assms(2)]
  show "delay_ms pw policy retry retry_after =
      min (max (delay_floor policy) (case retry_after of Some d \<Rightarrow> clamp_u64 d | None \<Rightarrow> 0))
        (delay_ceiling policy)"
    unfolding delay_ms_def Let_def delay_floor_def [symmetric] delay_ceiling_def [symmetric] g lt
    using rt by (auto simp: max_def min_def)
qed (use delay_bounds in blast)+

definition demo_policy :: retry_delay where
  "demo_policy = \<lparr> rd_initial = ''5'', rd_factor = DEFAULT_FACTOR, rd_max = None \<rparr>"

theorem retry_delay_bounds_witness:
  "delay_ms (\<lambda>x e. f64_one) demo_policy 1 (Some 9000) \<le> delay_ceiling demo_policy"
proof -
  have "unat (delay_ceiling demo_policy) < 2 ^ 53"
    by (simp add: delay_ceiling_def max_secs_def demo_policy_def CEILING_SECS_def saturating_mul_unat)
  moreover have "trim ''5'' = ''5''"
    by (rule trim_graphic) (simp_all add: graphic_def in_range_def byte_def)
  then have "parse_duration_str ''5'' = Some 5"
    using parse_u64_digits [of "''5''"]
    by (simp add: parse_duration_str_def is_digit_def in_range_def byte_def dec_val_def digit_val_def)
  then have "unat (delay_floor demo_policy) < 2 ^ 53"
    by (simp add: delay_floor_def initial_secs_def demo_policy_def saturating_mul_unat)
  ultimately show ?thesis
    using retry_delay_bounds [of "\<lambda>x e. f64_one" demo_policy 1 "Some 9000"] by simp
qed

section \<open>Due on the paused clock\<close>

lemma fmlookup_filter_map [simp]: "fmlookup (fm_filter_map f m) k = Option.bind (fmlookup m k) f"
  by (auto simp: fm_filter_map_def split: option.splits)

lemma held_lookup:
  "fmlookup (held s es now) n =
    Option.bind (fmlookup (rs_deferred s) n)
      (\<lambda>d. due_ms now (due_in es d now (rs_run_status s = Run_Is_Paused)))"
  by (simp add: held_def)

lemma due_ms_None: "(due_ms now t = None) = (t = Due_Now)"
  by (cases t) (simp_all add: due_ms_def)

definition active_since :: "event list \<Rightarrow> deferred_retry \<Rightarrow> nat \<Rightarrow> nat" where
  "active_since es d now = card {t. dr_ts d \<le> t \<and> t < now \<and> \<not> paused_at es t}"

lemma due_in_active:
  assumes "sorted (map ev_ts es)"
  shows "due_in es d now paused =
    (let left = unat (dr_delay_ms d) - active_since es d now in
     if dr_expedited d \<or> left = 0 then Due_Now
     else if paused then Due_Frozen (clamp_u64 left)
     else Due_At (saturating_add (clamp_u64 now) (clamp_u64 left)))"
  using assms by (simp add: due_in_def active_since_def active_elapsed_card Let_def)

text \<open>
  C10: a deferred retry is due exactly when someone expedited it or the run has been active, not
  paused, for its whole delay since it was deferred, counted over the journal in time order.
\<close>

theorem retry_due_exact:
  assumes "sorted (map ev_ts es)"
  shows "(due es d now = Due_Now) = (dr_expedited d \<or> unat (dr_delay_ms d) \<le> active_since es d now)"
  unfolding due_def using due_in_active [OF assms] by (simp add: Let_def)

definition waiting_retry :: deferred_retry where
  "waiting_retry = \<lparr> dr_seq = 0, dr_ts = 500, dr_after_attempt = 1, dr_attempt = 1, dr_retry = 1,
     dr_step = 0, dr_binding = ''b'', dr_delay_ms = 1500, dr_failure_kind = None,
     dr_expedited = False \<rparr>"

lemma pause_journal_paused:
  "paused_at pause_journal t = (1000 \<le> t \<and> t < 2000)"
  unfolding paused_at_def leaves_paused_fold
  by (simp add: pause_journal_def opens_pause_def closes_pause_def paused_event_def resumed_def
      is_legacy_resume_marker_def)

theorem retry_due_exact_witness:
  "(due pause_journal waiting_retry 2600 = Due_Now) =
     (dr_expedited waiting_retry \<or> unat (dr_delay_ms waiting_retry) \<le> active_since pause_journal waiting_retry 2600)
   \<and> active_since pause_journal waiting_retry 2600 = 1100"
proof -
  have s: "sorted (map ev_ts pause_journal)" by (simp add: pause_journal_def)
  have "{t. 500 \<le> t \<and> t < 2600 \<and> \<not> (1000 \<le> t \<and> t < 2000)} = {500..<1000} \<union> {2000..<2600 :: nat}" by auto
  then have "active_since pause_journal waiting_retry 2600 = 1100"
    by (simp add: active_since_def pause_journal_paused waiting_retry_def card_Un_disjoint)
  then show ?thesis using retry_due_exact [OF s] by blast
qed

text \<open>
  A pause freezes a waiting retry: after a pause that nothing has closed, and with no later
  event that changes the run's status, every reading of the clock gives the same frozen rest of
  the delay, so a paused run never finds the retry due by waiting.
\<close>

theorem pause_freezes_retry:
  assumes "es = xs @ e # ys" "opens_pause (ev_payload e)"
    and "\<forall>y\<in>set ys. status_of (ev_payload y) = None \<and> \<not> closes_pause (ev_payload y)"
    and "sorted (map ev_ts es)" "past es n" "n \<le> m"
    and "\<not> dr_expedited d" "due es d n \<noteq> Due_Now"
  shows "due es d m = due es d n \<and> (\<exists>left. due es d m = Due_Frozen left)"
proof -
  have fv: "final_verdict (ev_payload e)" and st: "status_of (ev_payload e) = Some Run_Is_Paused"
    using assms(2) by (auto simp: final_verdict_def opens_pause_def status_of_def split: event_payload.splits)
  have "rs_run_status (fold_run es) = the (status_of (ev_payload e))"
    unfolding assms(1) using fv by (rule verdict_stands) (use assms(3) in blast)
  then have p: "rs_run_status (fold_run es) = Run_Is_Paused" using st by simp
  have "leaves_paused es" unfolding leaves_paused_def using assms(1,2,3) by blast
  then have "active_elapsed_ms es (dr_ts d) m m = active_elapsed_ms es (dr_ts d) n n"
    using assms(4,5,6) by (intro paused_clock_stands)
  then have "due es d m = due es d n" using p by (simp add: due_def due_in_def Let_def)
  moreover have "\<exists>left. due es d n = Due_Frozen left"
    using assms(7,8) p by (auto simp: due_def due_in_def Let_def)
  ultimately show ?thesis by simp
qed

definition frozen_journal :: "event list" where
  "frozen_journal = numbered 0 [Run_Started [] [] None, paused_event ''p'' None]"

theorem pause_freezes_retry_witness:
  "due frozen_journal waiting_retry 9000 = due frozen_journal waiting_retry 1000 \<and>
   (\<exists>left. due frozen_journal waiting_retry 9000 = Due_Frozen left)"
proof (rule pause_freezes_retry)
  show "frozen_journal = [\<lparr> ev_seq = 0, ev_ts = 0, ev_payload = Run_Started [] [] None \<rparr>] @
      \<lparr> ev_seq = 1, ev_ts = 1000, ev_payload = paused_event ''p'' None \<rparr> # []"
    by (simp add: frozen_journal_def)
  show "opens_pause (ev_payload \<lparr> ev_seq = 1, ev_ts = 1000, ev_payload = paused_event ''p'' None \<rparr>)"
    by (simp add: opens_pause_def paused_event_def is_legacy_resume_marker_def)
  show "sorted (map ev_ts frozen_journal)" "past frozen_journal 1000"
    by (simp_all add: frozen_journal_def past_def)
  have "active_elapsed_ms frozen_journal 500 1000 1000 \<le> 500" by (simp add: active_elapsed_ms_def)
  then show "due frozen_journal waiting_retry 1000 \<noteq> Due_Now"
    by (simp add: due_def due_in_def waiting_retry_def Let_def)
qed (simp_all add: waiting_retry_def)

section \<open>Holding back what is not due\<close>

lemma remove_at_set: "i < length xs \<Longrightarrow> insert (xs ! i) (set (remove_at i xs)) = set xs"
  using id_take_nth_drop [of i xs] unfolding remove_at_def
  by (metis Un_insert_right list.simps(15) set_append)

lemma remove_at_distinct:
  assumes "i < length xs" "distinct xs"
  shows "distinct (xs ! i # remove_at i xs)"
proof -
  have "distinct (take i xs @ xs ! i # drop (Suc i) xs)" using assms by (simp flip: id_take_nth_drop)
  then show ?thesis by (auto simp: remove_at_def)
qed

lemma foldl_min: "foldl min (v :: u64) vs = Min (insert v (set vs))"
proof (induction vs arbitrary: v)
  case (Cons x vs)
  then show ?case by (cases "vs = []") (simp_all add: min.assoc)
qed simp

lemma min_value_Some:
  assumes "min_value m = Some v"
  shows "v |\<in>| fmran m \<and> (\<forall>n w. fmlookup m n = Some w \<longrightarrow> v \<le> w)"
proof -
  let ?vs = "map (\<lambda>n. the (fmlookup m n)) (sorted_list_of_fset (fmdom m))"
  have s: "set ?vs = {w. \<exists>n. fmlookup m n = Some w}"
    by (force simp: fmlookup_dom_iff image_iff)
  obtain x xs where vs: "?vs = x # xs" using assms by (auto simp: min_value_def split: list.splits)
  then have "v = Min (set ?vs)" using assms foldl_min [of x xs] by (simp add: min_value_def)
  moreover have "set ?vs \<noteq> {}" using vs by simp
  ultimately have "v \<in> set ?vs" "\<And>w. w \<in> set ?vs \<Longrightarrow> v \<le> w"
    using Min_in [of "set ?vs"] Min_le [of "set ?vs"] by auto
  then show ?thesis unfolding s by (auto intro: fmranI)
qed

lemma min_value_None: "(min_value m = None) = (m = fmempty)"
proof -
  have "(min_value m = None) = (sorted_list_of_fset (fmdom m) = [])"
    by (cases "sorted_list_of_fset (fmdom m)") (simp_all add: min_value_def)
  also have "\<dots> = (fmdom m = {||})"
    by (metis fset_of_list_simps(1) sorted_list_of_fset_simps(2) sorted_list_of_set_empty sorted_list_of_fset.rep_eq bot_fset.rep_eq)
  finally have "(min_value m = None) = (fmdom m = {||})" .
  then show ?thesis by (metis fmdom_empty fmrestrict_fset_dom fmrestrict_fset_null)
qed

text \<open>
  The admission rule for deferred nodes: the node the drive runs is never a held one, the
  turn neither loses, invents nor repeats a node, and the drive waits only when the current node
  and the whole frontier are held, until the earliest moment a held retry is due.
\<close>

theorem hold_admits_no_held_node:
  assumes dist: "distinct (current # frontier)"
  shows "case hold hs current frontier of (c, f, wait) \<Rightarrow>
     insert c (set f) = insert current (set frontier) \<and>
     distinct (c # f) \<and>
     (case wait of
        None \<Rightarrow> c |\<notin>| fmdom hs
      | Some t \<Rightarrow> c = current \<and> f = frontier \<and> fset_of_list (current # frontier) |\<subseteq>| fmdom hs \<and>
          Some t = min_value hs)"
proof (cases "current |\<notin>| fmdom hs")
  case True
  then show ?thesis using dist by (simp add: hold_def)
next
  case cur: False
  show ?thesis
  proof (cases "position (\<lambda>n. n |\<notin>| fmdom hs) frontier")
    case None
    have "min_value hs \<noteq> None" using cur min_value_None [of hs] by auto
    moreover have "\<forall>n\<in>set frontier. n |\<in>| fmdom hs" using None by (simp add: position_None)
    ultimately show ?thesis using cur None dist
      by (auto simp: hold_def fsubset_iff fset_of_list_elem split: option.splits)
  next
    case (Some i)
    have i: "i < length frontier" "frontier ! i |\<notin>| fmdom hs" using position_Some [OF Some] by auto
    have st: "set frontier = insert (frontier ! i) (set (remove_at i frontier))"
      using remove_at_set [OF i(1)] by simp
    have di: "distinct (frontier ! i # remove_at i frontier)"
      using remove_at_distinct [OF i(1)] dist by simp
    have "current \<notin> set (remove_at i frontier)" "current \<noteq> frontier ! i" using dist st by auto
    then show ?thesis using cur Some i st di by (auto simp: hold_def Let_def)
  qed
qed

theorem hold_admits_no_held_node_witness:
  "hold (fmupd ''a'' (9000 :: u64) fmempty) ''a'' [''b'', ''c''] = (''b'', [''c'', ''a''], None) \<and>
   ''b'' |\<notin>| fmdom (fmupd ''a'' (9000 :: u64) fmempty) \<and> distinct [''b'', ''c'', ''a'']"
proof -
  have e: "hold (fmupd ''a'' (9000 :: u64) fmempty) ''a'' [''b'', ''c''] = (''b'', [''c'', ''a''], None)"
    by (simp add: hold_def remove_at_def)
  show ?thesis
    using hold_admits_no_held_node [of "''a''" "[''b'', ''c'']" "fmupd ''a'' (9000 :: u64) fmempty"] e
    by simp
qed

section \<open>Releasing a run to its waker\<close>

lemma fold_run_append_frame:
  assumes "open_event op (ev_payload e) = op" "marker_event lg (ev_payload e) = lg"
    "foldl fold_event fold_init es = (s, op, lg)"
  shows "fold_run (es @ [e]) = settle_open (state_event (fold_deferral s e) e, op, lg)"
  using assms by (simp add: fold_run_def fold_event_def)

lemma settle_open_running:
  "rs_run_status (settle_open (s, op, lg)) = Run_Running \<Longrightarrow> op = fempty \<and> settle_open (s, op, lg) = s"
  by (auto simp: settle_open_def Let_def split: if_splits run_status.splits)

lemma fold_released_append:
  assumes "rs_run_status (fold_run es) = Run_Running"
  shows "fold_run (es @ [\<lparr> ev_seq = q, ev_ts = t, ev_payload = Drive_Released wake ns \<rparr>]) =
    (fold_run es)\<lparr>rs_released := Some \<lparr> rl_seq = q, rl_wake_at_ms = wake, rl_nodes = ns \<rparr>\<rparr>"
proof -
  obtain s op lg where f: "foldl fold_event fold_init es = (s, op, lg)" by (metis prod_cases3)
  have fr: "fold_run es = settle_open (s, op, lg)" using f by (simp add: fold_run_def)
  have op: "op = fempty" "fold_run es = s" using settle_open_running assms unfolding fr by auto
  let ?e = "\<lparr> ev_seq = q, ev_ts = t, ev_payload = Drive_Released wake ns \<rparr>"
  have "fold_run (es @ [?e]) = settle_open (state_event (fold_deferral s ?e) ?e, op, lg)"
    by (rule fold_run_append_frame [OF _ _ f]) (simp_all add: open_event_def marker_event_def)
  moreover have "fold_deferred s ?e = rs_deferred s"
    by (simp add: fold_deferred_def deferral_change_def close_map_def close_def)
  ultimately show ?thesis
    using op by (simp add: settle_open_def state_event_def fold_deferral_def fold_released_def)
qed

lemma try_release_Some:
  assumes "try_release locked controls es now = Some (wake, p)"
  shows "locked" "\<not> control_pending controls" "min_value (held (fold_run es) es now) = Some wake"
    "p = Drive_Released wake (sorted_list_of_fset (fmdom (held (fold_run es) es now)))"
    "fmdom (held (fold_run es) es now) = fmdom (rs_deferred (fold_run es))"
proof -
  let ?h = "held (fold_run es) es now"
  have *: "locked" "\<not> control_pending controls" "min_value ?h = Some wake"
    "p = Drive_Released wake (sorted_list_of_fset (fmdom ?h))"
    "fcard (fmdom ?h) = fcard (fmdom (rs_deferred (fold_run es)))"
    using assms by (auto simp: try_release_def Let_def split: if_splits option.splits)
  then show "locked" "\<not> control_pending controls" "min_value ?h = Some wake"
    "p = Drive_Released wake (sorted_list_of_fset (fmdom ?h))" by blast+
  have "fmdom ?h |\<subseteq>| fmdom (rs_deferred (fold_run es))"
    by (rule fsubsetI) (auto simp: fmlookup_dom_iff held_lookup bind_eq_Some_conv)
  then show "fmdom ?h = fmdom (rs_deferred (fold_run es))" using *(5) by (metis fcard_seteq order_refl)
qed

lemma held_not_expedited:
  assumes "fmdom (held s es now) = fmdom (rs_deferred s)" "fmlookup (rs_deferred s) n = Some d"
  shows "\<not> dr_expedited d"
proof
  assume x: "dr_expedited d"
  have "n |\<in>| fmdom (held s es now)" using assms by (simp add: fmdomI)
  then show False using assms(2) x by (auto simp: fmlookup_dom_iff held_lookup due_ms_def due_in_def)
qed

text \<open>
  C11: a driver of a running run lets go of it only under the event lock, with no control pending and
  every open deferral still waiting, and the waker it leaves is set to the earliest of their due
  times: some deferral is due then and none before.  Once the release is journaled the run is held for
  that waker: until something else comes in, the release's own sequence number finds it with that time.
\<close>

theorem release_arms_waker:
  assumes "try_release locked controls es now = Some (wake, p)"
    and "rs_run_status (fold_run es) = Run_Running"
  shows "locked \<and> \<not> control_pending controls \<and>
    (\<exists>n d. fmlookup (rs_deferred (fold_run es)) n = Some d \<and> due es d now = Due_At wake) \<and>
    (\<forall>n d. fmlookup (rs_deferred (fold_run es)) n = Some d \<longrightarrow> (\<exists>at\<ge>wake. due es d now = Due_At at)) \<and>
    release_wake (es @ [\<lparr> ev_seq = q, ev_ts = t, ev_payload = p \<rparr>]) q = Some wake"
proof -
  note r = try_release_Some [OF assms(1)]
  let ?s = "fold_run es"
  have st: "rs_run_status ?s \<noteq> Run_Is_Paused" using assms(2) by simp
  have h: "fmlookup (held ?s es now) n = Option.bind (fmlookup (rs_deferred ?s) n) (\<lambda>d. due_ms now (due es d now))" for n
    by (simp add: held_lookup due_def)
  have at: "\<exists>a. due es d now = Due_At a \<and> fmlookup (held ?s es now) n = Some a"
    if d: "fmlookup (rs_deferred ?s) n = Some d" for n d
  proof -
    have "n |\<in>| fmdom (held ?s es now)" using d r(5) by (simp add: fmdomI)
    then show ?thesis using d h [of n] st
      by (cases "due es d now") (auto simp: fmlookup_dom_iff due_ms_def due_def due_in_def Let_def split: if_splits)
  qed
  note m = min_value_Some [OF r(3)]
  obtain n0 where n0: "fmlookup (held ?s es now) n0 = Some wake" using m by blast
  then obtain d0 where "fmlookup (rs_deferred ?s) n0 = Some d0" using h [of n0] by (auto simp: bind_eq_Some_conv)
  then have first: "\<exists>n d. fmlookup (rs_deferred ?s) n = Some d \<and> due es d now = Due_At wake"
    using at n0 by fastforce
  have least: "\<exists>at\<ge>wake. due es d now = Due_At at" if "fmlookup (rs_deferred ?s) n = Some d" for n d
    using at [OF that] m by blast
  have "\<not> fBex (fmran (rs_deferred (fold_run es))) dr_expedited"
    using held_not_expedited [OF r(5)] by (fastforce simp: fmlookup_ran_iff)
  then have "release_wake (es @ [\<lparr> ev_seq = q, ev_ts = t, ev_payload = p \<rparr>]) q = Some wake"
    using assms(2) unfolding r(4) release_wake_def fold_released_append [OF assms(2)]
    by (simp add: Let_def)
  then show ?thesis using r(1,2) first least by blast
qed

definition deferred_journal :: "event list" where
  "deferred_journal = numbered 0 [Run_Started [] [] None, deferred_event ''a'' 90000]"

lemmas deferral_eval = fold_event_def state_event_def fold_deferral_def fold_deferred_def
  fold_released_def deferral_change_def close_map_def close_def map_remove_node_def map_clear_nodes_def
  open_event_def marker_event_def state_init_def settle_open_def

lemma deferred_journal_fold:
  "rs_deferred (fold_run deferred_journal) = fmupd ''a''
      \<lparr> dr_seq = 1, dr_ts = 1000, dr_after_attempt = 1, dr_attempt = 0, dr_retry = 1, dr_step = 0,
        dr_binding = ''b'', dr_delay_ms = 90000, dr_failure_kind = None, dr_expedited = False \<rparr> fmempty"
  "rs_run_status (fold_run deferred_journal) = Run_Running"
  by (simp_all add: deferred_journal_def deferred_event_def fold_run_def deferral_eval)

lemma deferred_journal_clock: "active_elapsed_ms deferred_journal 1000 3000 3000 = 2000"
  by (simp add: active_elapsed_ms_def paused_ms_between_def paused_intervals_def deferred_journal_def
      deferred_event_def pause_step_cases opens_pause_def closes_pause_def paused_ms_in_def)

lemma deferred_journal_release:
  "try_release True [] deferred_journal 3000 = Some (91000, Drive_Released 91000 [''a''])"
proof -
  have "due_in deferred_journal
      \<lparr> dr_seq = 1, dr_ts = 1000, dr_after_attempt = 1, dr_attempt = 0, dr_retry = 1, dr_step = 0,
        dr_binding = ''b'', dr_delay_ms = 90000, dr_failure_kind = None, dr_expedited = False \<rparr> 3000 False
      = Due_At 91000"
    by (simp add: due_in_def deferred_journal_clock clamp_u64_def saturating_add_def)
  then have "held (fold_run deferred_journal) deferred_journal 3000 = fmupd ''a'' 91000 fmempty"
    by (intro fmap_ext) (simp add: held_lookup deferred_journal_fold due_ms_def)
  moreover have "sorted_list_of_fset {|''a''|} = [''a'']" by (simp add: sorted_list_of_fset.rep_eq)
  ultimately show ?thesis
    by (simp add: try_release_def deferred_journal_fold control_pending_def Let_def min_value_def)
qed

theorem release_arms_waker_witness:
  "release_wake (deferred_journal @ [\<lparr> ev_seq = 2, ev_ts = 3000, ev_payload = Drive_Released 91000 [''a''] \<rparr>]) 2
    = Some 91000"
  using release_arms_waker [OF deferred_journal_release deferred_journal_fold(2), of 2 3000] by blast

section \<open>Retry now, and writing a deferral off\<close>

text \<open>How a record of either kind changes the open deferrals.\<close>

lemma fold_deferred_expedited:
  "ev_payload e = Retry_Expedited x by_whom \<Longrightarrow>
    fmlookup (fold_deferred s e) n =
      map_option (\<lambda>d. if n = x then d\<lparr>dr_expedited := True\<rparr> else d) (fmlookup (rs_deferred s) n)"
  by (cases "fmlookup (rs_deferred s) n"; cases "n = x")
    (auto simp: fold_deferred_def split: option.splits)

lemma fold_deferred_finished:
  "ev_payload e = Node_Finished f \<Longrightarrow> fold_deferred s e = fmdrop (nf_node f) (rs_deferred s)"
  by (simp add: fold_deferred_def deferral_change_def close_map_def close_def map_remove_node_def)

lemma expedite_run_deferred:
  "map ev_payload evs = map (\<lambda>n. Retry_Expedited n by_whom) ns \<Longrightarrow>
    fmlookup (rs_deferred (fst (foldl fold_event acc evs))) n =
      map_option (\<lambda>d. if n \<in> set ns then d\<lparr>dr_expedited := True\<rparr> else d)
        (fmlookup (rs_deferred (fst acc)) n)"
proof (induction ns arbitrary: acc evs)
  case Nil
  then show ?case by (simp add: option.map_id0 flip: id_def)
next
  case (Cons x ns)
  then obtain e es where evs: "evs = e # es" "ev_payload e = Retry_Expedited x by_whom"
    "map ev_payload es = map (\<lambda>n. Retry_Expedited n by_whom) ns" by auto
  have "rs_deferred (fst (fold_event acc e)) = fold_deferred (fst acc) e"
    by (simp add: fst_fold_event state_event_deferred fold_deferral_def)
  then show ?case
    using Cons.IH [OF evs(3), of "fold_event acc e"] fold_deferred_expedited [OF evs(2), of "fst acc"] evs(1)
    by (cases "fmlookup (rs_deferred (fst acc)) n") auto
qed

lemma waiting_set:
  "set (waiting es which) =
    {n. (which = None \<or> which = Some n) \<and>
      (\<exists>d. fmlookup (rs_deferred (fold_run es)) n = Some d \<and> \<not> dr_expedited d)}"
  by (auto simp: waiting_def Let_def fmlookup_dom_iff split: option.splits)

text \<open>
  Retry now: once the records \<^verbatim>\<open>expedite\<close> journals are read back, every open deferral
  asked for is due at once, whatever its delay, and the open deferrals are the same nodes with
  nothing but that mark changed; nodes with no open deferral stay without one.
\<close>

theorem expedite_makes_due:
  assumes "map ev_payload evs = expedite es which by_whom"
  shows "fmlookup (rs_deferred (fold_run (es @ evs))) n =
      map_option (\<lambda>d. if which = None \<or> which = Some n then d\<lparr>dr_expedited := True\<rparr> else d)
        (fmlookup (rs_deferred (fold_run es)) n) \<and>
    (case fmlookup (rs_deferred (fold_run (es @ evs))) n of
       Some d \<Rightarrow> (which \<noteq> None \<and> which \<noteq> Some n) \<or> due (es @ evs) d now = Due_Now
     | None \<Rightarrow> True)"
proof -
  have d: "fmlookup (rs_deferred (fold_run (es @ evs))) n =
      map_option (\<lambda>d. if which = None \<or> which = Some n then d\<lparr>dr_expedited := True\<rparr> else d)
        (fmlookup (rs_deferred (fold_run es)) n)"
  proof (cases "fmlookup (rs_deferred (fold_run es)) n")
    case None
    then show ?thesis
      using expedite_run_deferred [OF assms [unfolded expedite_def], of "foldl fold_event fold_init es" n]
      by (simp add: fold_run_frame)
  next
    case (Some r)
    moreover have "r\<lparr>dr_expedited := True\<rparr> = r" if "dr_expedited r" using that by simp
    ultimately show ?thesis
      using expedite_run_deferred [OF assms [unfolded expedite_def], of "foldl fold_event fold_init es" n]
      by (auto simp: fold_run_frame waiting_set)
  qed
  then show ?thesis by (auto simp: due_def due_in_def split: option.splits)
qed

theorem expedite_makes_due_witness:
  "fmlookup (rs_deferred (fold_run (deferred_journal @
      [\<lparr> ev_seq = 2, ev_ts = 3000, ev_payload = Retry_Expedited ''a'' None \<rparr>]))) ''a'' \<noteq> None"
proof -
  have "waiting deferred_journal None = [''a'']"
    by (simp add: waiting_def deferred_journal_fold Let_def sorted_list_of_fset.rep_eq)
  then have "map ev_payload [\<lparr> ev_seq = 2, ev_ts = 3000, ev_payload = Retry_Expedited ''a'' None \<rparr>]
      = expedite deferred_journal None None" by (simp add: expedite_def)
  from expedite_makes_due [OF this, of "''a''" 3000] show ?thesis by (auto simp: deferred_journal_fold)
qed

lemma cancel_run:
  "map ev_payload evs = map (\<lambda>n. cancelled_finish n (d n)) ns \<Longrightarrow>
    \<exists>s' op'. foldl fold_event (s, op, lg) evs = (s', op', lg) \<and>
      (\<forall>n. fmlookup (rs_deferred s') n = (if n \<in> set ns then None else fmlookup (rs_deferred s) n)) \<and>
      (\<forall>n. fmlookup (rs_nodes s') n = (if n \<in> set ns then Some Cancelled else fmlookup (rs_nodes s) n)) \<and>
      (\<forall>n i. (n, i) |\<in>| op' \<longleftrightarrow> (n, i) |\<in>| op \<and> n \<notin> set ns)"
proof (induction ns arbitrary: s op evs)
  case Nil
  then show ?case by simp
next
  case (Cons x ns)
  then obtain e es where evs: "evs = e # es" "ev_payload e = cancelled_finish x (d x)"
    "map ev_payload es = map (\<lambda>n. cancelled_finish n (d n)) ns" by auto
  let ?s = "state_event (fold_deferral s e) e" and ?op = "open_event op (ev_payload e)"
  have st: "fold_event (s, op, lg) e = (?s, ?op, lg)"
    using evs(2) by (simp add: fold_event_def marker_event_def cancelled_finish_def)
  have "from_label (node_status_str Cancelled) = Cancelled"
    by (simp add: from_label_def node_status_str_def)
  then have "rs_deferred ?s = fmdrop x (rs_deferred s)"
    "rs_nodes ?s = fmupd x Cancelled (rs_nodes s)"
    "\<And>n i. (n, i) |\<in>| ?op \<longleftrightarrow> (n, i) |\<in>| op \<and> n \<noteq> x"
    using evs(2) fold_deferred_finished [of e _ s]
    by (auto simp: cancelled_finish_def state_event_def on_node_finished_def Let_def fold_simps
        fold_deferral_def open_event_def)
  then show ?case using Cons.IH [OF evs(3), of ?s ?op] unfolding evs(1) foldl.simps st by auto
qed

text \<open>
  A run that ends otherwise writes every open deferral off first: once those records are read
  back no deferral is open, and each such node reads cancelled, not waiting and not interrupted.
\<close>

theorem cancel_open_closes:
  assumes "map ev_payload evs = cancel_open es"
  shows "rs_deferred (fold_run (es @ evs)) = fmempty \<and>
    (\<forall>n |\<in>| fmdom (rs_deferred (fold_run es)).
       fmlookup (rs_nodes (fold_run (es @ evs))) n = Some Cancelled)"
proof -
  let ?ns = "sorted_list_of_fset (fmdom (rs_deferred (fold_run es)))"
  obtain s op lg where f: "foldl fold_event fold_init es = (s, op, lg)" by (metis prod_cases3)
  obtain s' op' where r: "foldl fold_event (s, op, lg) evs = (s', op', lg)"
    "\<forall>n. fmlookup (rs_deferred s') n = (if n \<in> set ?ns then None else fmlookup (rs_deferred s) n)"
    "\<forall>n. fmlookup (rs_nodes s') n = (if n \<in> set ?ns then Some Cancelled else fmlookup (rs_nodes s) n)"
    "\<forall>n i. (n, i) |\<in>| op' \<longleftrightarrow> (n, i) |\<in>| op \<and> n \<notin> set ?ns"
    using cancel_run [OF assms [unfolded cancel_open_def Let_def], of s op lg] by blast
  have fr: "fold_run (es @ evs) = settle_open (s', op', lg)" using f r(1) by (simp add: fold_run_def)
  have s: "rs_deferred (fold_run es) = rs_deferred s" using f by (simp add: fold_run_frame)
  have "rs_deferred s' = fmempty"
    using r(2) s by (intro fmap_ext) (auto simp: fmdom_notD)
  then show ?thesis using r(3,4) unfolding fr by (auto simp: fold_simps settle_open_nodes)
qed

theorem cancel_open_closes_witness:
  "rs_deferred (fold_run (deferred_journal @ [\<lparr> ev_seq = 2, ev_ts = 3000, ev_payload =
      Node_Finished \<lparr> nf_node = ''a'', nf_status = ''cancelled'', nf_attempt = 1, nf_output = ''cancelled'',
        nf_artifacts = [], nf_result = None \<rparr> \<rparr>])) = fmempty"
proof -
  have "map ev_payload [\<lparr> ev_seq = 2, ev_ts = 3000, ev_payload =
      Node_Finished \<lparr> nf_node = ''a'', nf_status = ''cancelled'', nf_attempt = 1, nf_output = ''cancelled'',
        nf_artifacts = [], nf_result = None \<rparr> \<rparr>] = cancel_open deferred_journal"
    by (simp add: cancel_open_def deferred_journal_fold Let_def sorted_list_of_fset.rep_eq
        cancelled_finish_def node_status_str_def max_def)
  from cancel_open_closes [OF this] show ?thesis by blast
qed

end
