(* ===== verification/Budget.thy ===== *)
theory Budget
  imports Pause_Clock
begin

text \<open>
  The run budget, engine side: the fold of its records (\<^verbatim>\<open>apb-engine/src/budget/fold.rs\<close>),
  what a run spent (\<^verbatim>\<open>budget/spent.rs\<close>, \<^verbatim>\<open>run_estimate/sample.rs\<close>), the gate's
  decision (\<^verbatim>\<open>budget/gate.rs\<close>), what a resume may change (\<^verbatim>\<open>budget/resume.rs\<close>) and
  the gate of a drive (\<^verbatim>\<open>scheduler/budget_gate.rs\<close>).  The run's estimate snapshot and the
  journals of its child runs are arguments; so is the text of a dollar amount.  The lemmas show
  what the gate decides, that a waiver is a person's and admits once, and that a budget pause
  stays closed to everybody but a person who changes something.
\<close>

section \<open>The fold\<close>

record gate_pause =
  gp_node :: string
  gp_batch :: "u32 option"
  gp_items :: "u32 option"
  gp_basis :: gate_basis
  gp_need :: "budget_amount option"
  gp_remaining :: "budget_amount option"
  gp_seq :: nat

record budget_fold =
  bf_limit :: budget_limit
  bf_on_no_estimate :: on_no_estimate
  bf_source :: "budget_source option"
  bf_sets :: u32
  bf_last_pause :: "gate_pause option"
  bf_pause_open :: bool
  bf_pause_resolved :: bool
  bf_waiver :: "string option"
  bf_counts_subscription :: bool

definition new_budget :: "budget_set \<Rightarrow> budget_fold" where
  "new_budget b =
     \<lparr> bf_limit = no_limit, bf_on_no_estimate = bg_on_no_estimate b, bf_source = bg_source b,
       bf_sets = 0, bf_last_pause = None, bf_pause_open = False, bf_pause_resolved = False,
       bf_waiver = None, bf_counts_subscription = True \<rparr>"

definition on_budget_set :: "budget_fold option \<Rightarrow> budget_set \<Rightarrow> budget_fold" where
  "on_budget_set fo b =
     (let f = (case fo of Some f \<Rightarrow> f | None \<Rightarrow> new_budget b) in
      f\<lparr>bf_counts_subscription := (case bg_counts_subscription b of Some c \<Rightarrow> c | None \<Rightarrow> True),
        bf_limit := \<lparr> bl_tokens = bg_tokens b, bl_usd = bg_usd b \<rparr>,
        bf_on_no_estimate := bg_on_no_estimate b,
        bf_source := bg_source b,
        bf_sets := bf_sets f + 1,
        bf_pause_resolved := True\<rparr>)"

definition on_budget_gate :: "budget_fold \<Rightarrow> nat \<Rightarrow> budget_gate \<Rightarrow> budget_fold" where
  "on_budget_gate f q g =
     (case gt_decision g of
        Gate_Paused \<Rightarrow>
          f\<lparr>bf_last_pause := Some \<lparr> gp_node = gt_node g, gp_batch = gt_batch g, gp_items = gt_items g,
              gp_basis = gt_basis g, gp_need = gt_need g, gp_remaining = gt_remaining g, gp_seq = q \<rparr>,
            bf_pause_open := True, bf_pause_resolved := False, bf_waiver := None\<rparr>
      | Gate_Waived \<Rightarrow> f\<lparr>bf_waiver := Some (gt_node g), bf_pause_resolved := True\<rparr>
      | Gate_Admitted_Waived \<Rightarrow>
          (if bf_waiver f = Some (gt_node g) then f\<lparr>bf_waiver := None\<rparr> else f)
      | _ \<Rightarrow> f)"

definition on_budget_resumed :: "budget_fold \<Rightarrow> run_resumed \<Rightarrow> budget_fold" where
  "on_budget_resumed f r =
     (let g = f\<lparr>bf_pause_open := False\<rparr> in
      if rr_explicit r \<and> (case bf_waiver g of Some w \<Rightarrow> w \<noteq> rr_from_node r | None \<Rightarrow> False)
      then g\<lparr>bf_waiver := None\<rparr> else g)"

definition budget_step :: "budget_fold option \<Rightarrow> event \<Rightarrow> budget_fold option" where
  "budget_step fo e =
     (case ev_payload e of
        Budget_Set b \<Rightarrow> Some (on_budget_set fo b)
      | Budget_Gate g \<Rightarrow> map_option (\<lambda>f. on_budget_gate f (ev_seq e) g) fo
      | Run_Resumed r \<Rightarrow> map_option (\<lambda>f. on_budget_resumed f r) fo
      | Run_Aborted _ _ \<Rightarrow> map_option (\<lambda>f. f\<lparr>bf_pause_open := False\<rparr>) fo
      | Run_Finished _ \<Rightarrow> map_option (\<lambda>f. f\<lparr>bf_pause_open := False\<rparr>) fo
      | _ \<Rightarrow> fo)"

definition fold_budget :: "event list \<Rightarrow> budget_fold option" where
  "fold_budget es =
     (case foldl budget_step None es of
        Some f \<Rightarrow> (if is_limited (bf_limit f) then Some f else None)
      | None \<Rightarrow> None)"

definition unresolved_pause :: "budget_fold \<Rightarrow> gate_pause option" where
  "unresolved_pause f = (if bf_pause_open f \<and> \<not> bf_pause_resolved f then bf_last_pause f else None)"

definition set_event :: "effective_budget \<Rightarrow> bool \<Rightarrow> event_payload" where
  "set_event eff counts =
     Budget_Set \<lparr> bg_tokens = bl_tokens (eb_limit eff), bg_usd = bl_usd (eb_limit eff),
       bg_on_no_estimate = eb_on_no_estimate eff, bg_source = Some (eb_source eff), bg_by = None,
       bg_counts_subscription = Some counts \<rparr>"

definition record_start :: "budget_block option \<Rightarrow> budget_request option \<Rightarrow> bool \<Rightarrow> event_payload list" where
  "record_start block req counts =
     (case effective block req of Some e \<Rightarrow> [set_event e counts] | None \<Rightarrow> [])"

section \<open>What a run spent\<close>

record attempt_spend =
  asp_tokens :: "u64 option"
  asp_cost :: "f64 option"
  asp_price :: "f64 option"

definition spend_of :: "agent_usage option \<Rightarrow> attempt_spend" where
  "spend_of usage =
     \<lparr> asp_tokens = map_option billable_tokens usage,
       asp_cost = Option.bind usage (\<lambda>u. if counts_as_money (au_cost_basis u) then au_cost_usd u
                                        else Some f64_zero),
       asp_price = Option.bind usage au_cost_usd \<rparr>"

definition LIST_CHECK_SUFFIX :: string where "LIST_CHECK_SUFFIX = ''#check''"

definition check_site_node :: "string \<Rightarrow> string option" where
  "check_site_node site = strip_suffix LIST_CHECK_SUFFIX site"

definition attempt_spend_of :: "event_payload \<Rightarrow> (string \<times> attempt_spend) option" where
  "attempt_spend_of p =
     (case p of
        Attempt_Finished a \<Rightarrow>
          Some (case check_site_node (af_node a) of Some n \<Rightarrow> n | None \<Rightarrow> af_node a, spend_of (af_usage a))
      | _ \<Rightarrow> None)"

definition is_safe_segment :: "string \<Rightarrow> bool" where
  "is_safe_segment s =
     (s \<noteq> [] \<and> s \<noteq> ''.'' \<and> CHR ''/'' \<notin> set s \<and> CHR 0x5C \<notin> set s \<and> \<not> sublist ''..'' s)"

definition MAX_SUBPLAYBOOK_DEPTH :: nat where "MAX_SUBPLAYBOOK_DEPTH = 5"

text \<open>
  Depths up to \<open>MAX_SUBPLAYBOOK_DEPTH\<close> are read, so the first call has one level more to go than
  that; \<open>journals\<close> is what reads of the child runs' directories return.
\<close>

primrec collect_child :: "(string \<Rightarrow> event list option) \<Rightarrow> nat \<Rightarrow> string \<Rightarrow> attempt_spend list" where
  "collect_child journals 0 run_id = []"
| "collect_child journals (Suc levels) run_id =
     (if \<not> is_safe_segment run_id then []
      else case journals run_id of
        None \<Rightarrow> []
      | Some es \<Rightarrow> concat (map (\<lambda>e. case ev_payload e of
            Attempt_Finished a \<Rightarrow> [spend_of (af_usage a)]
          | Child_Run_Started _ child \<Rightarrow> collect_child journals levels child
          | _ \<Rightarrow> []) es))"

definition child_attempts :: "(string \<Rightarrow> event list option) \<Rightarrow> string \<Rightarrow> attempt_spend list" where
  "child_attempts journals run_id = collect_child journals (Suc MAX_SUBPLAYBOOK_DEPTH) run_id"

record attempt_median =
  am_tokens :: "u64 option"
  am_cost_usd :: "f64 option"

text \<open>The medians of a node the budget reads from the estimate snapshot.\<close>

record node_spread =
  nsp_tokens :: "u64 option"
  nsp_cost_usd :: "f64 option"

record node_estimate =
  ne_per_visit :: node_spread
  ne_per_attempt :: attempt_median
  ne_list_per_item :: "node_spread option"

type_synonym run_estimate = "string \<Rightarrow> node_estimate option"

definition gate_figure :: "node_estimate \<Rightarrow> node_spread" where
  "gate_figure n = (case ne_list_per_item n of Some s \<Rightarrow> s | None \<Rightarrow> ne_per_visit n)"

record spent =
  sp_tokens :: spent_dim
  sp_usd :: spent_dim

definition spend_add :: "spent_dim \<Rightarrow> f64 option \<Rightarrow> f64 option \<Rightarrow> spent_dim" where
  "spend_add d reported imputed =
     (case reported of
        Some v \<Rightarrow> d\<lparr>sd_known := f64_add (sd_known d) v\<rparr>
      | None \<Rightarrow>
          d\<lparr>sd_unknown_attempts := sd_unknown_attempts d + 1,
            sd_imputed := (case (sd_imputed d, imputed) of
                (Some a, Some b) \<Rightarrow> Some (f64_add a b) | _ \<Rightarrow> None)\<rparr>)"

definition count_attempt ::
  "run_estimate option \<Rightarrow> bool \<Rightarrow> spent \<Rightarrow> string \<times> attempt_spend \<Rightarrow> spent" where
  "count_attempt est counts s na =
     (let (n, a) = na;
          median = map_option ne_per_attempt (Option.bind est (\<lambda>x. x n)) in
      \<lparr> sp_tokens = spend_add (sp_tokens s) (map_option f64_of_u64 (asp_tokens a))
          (map_option f64_of_u64 (Option.bind median am_tokens)),
        sp_usd = spend_add (sp_usd s) (if counts then asp_price a else asp_cost a)
          (Option.bind median am_cost_usd) \<rparr>)"

definition spent_step ::
  "(string \<Rightarrow> event list option) \<Rightarrow> run_estimate option \<Rightarrow> bool \<Rightarrow> spent \<Rightarrow> event \<Rightarrow> spent" where
  "spent_step journals est counts s e =
     (case attempt_spend_of (ev_payload e) of
        Some na \<Rightarrow> count_attempt est counts s na
      | None \<Rightarrow>
          (case ev_payload e of
             Child_Run_Started n run_id \<Rightarrow>
               foldl (count_attempt est counts) s (map (Pair n) (child_attempts journals run_id))
           | _ \<Rightarrow> s))"

definition nothing_spent :: spent where
  "nothing_spent =
     (let d = \<lparr> sd_known = f64_zero, sd_unknown_attempts = 0, sd_imputed = Some f64_zero \<rparr> in
      \<lparr> sp_tokens = d, sp_usd = d \<rparr>)"

definition spent_of ::
  "(string \<Rightarrow> event list option) \<Rightarrow> event list \<Rightarrow> run_estimate option \<Rightarrow> bool \<Rightarrow> spent" where
  "spent_of journals es est counts = foldl (spent_step journals est counts) nothing_spent es"

definition spent_for_limit :: "spent \<Rightarrow> budget_limit \<Rightarrow> budget_spent" where
  "spent_for_limit s l =
     \<lparr> bs_tokens = map_option (\<lambda>_. sp_tokens s) (bl_tokens l),
       bs_usd = map_option (\<lambda>_. sp_usd s) (bl_usd l) \<rparr>"

datatype remaining = Unlimited | Unknown_Left f64 | Known_Left f64

definition remaining_dim :: "f64 option \<Rightarrow> spent_dim \<Rightarrow> f64 option \<Rightarrow> remaining" where
  "remaining_dim limit d reserved =
     (case limit of
        None \<Rightarrow> Unlimited
      | Some l \<Rightarrow>
          (let left = f64_sub l (case reserved of Some r \<Rightarrow> r | None \<Rightarrow> f64_zero) in
           case spent_total d of
             None \<Rightarrow> Unknown_Left (f64_sub left (sd_known d))
           | Some s \<Rightarrow> Known_Left (f64_sub left s)))"

definition remaining_of :: "budget_limit \<Rightarrow> spent \<Rightarrow> budget_amount \<Rightarrow> remaining \<times> remaining" where
  "remaining_of limit s reserved =
     (remaining_dim (map_option f64_of_u64 (bl_tokens limit)) (sp_tokens s) (ba_tokens reserved),
      remaining_dim (bl_usd limit) (sp_usd s) (ba_usd reserved))"

section \<open>The gate\<close>

datatype need = Need_Known budget_amount | Need_Unknown

record gate_input =
  gi_fold :: budget_fold
  gi_spent :: spent
  gi_need :: need
  gi_reserved :: budget_amount
  gi_waived :: bool
  gi_executor_drift :: bool

datatype verdict =
    Admit
  | Admit_Waived
  | Admit_Continue gate_basis
  | Refuse gate_basis "budget_amount option" budget_amount

datatype dim = Dim_Fits | Dim_Over gate_basis | Dim_No_Estimate | Dim_Unknown_Spend

definition dim_of :: "remaining \<Rightarrow> f64 option \<Rightarrow> dim option" where
  "dim_of rem need =
     (let judge = (\<lambda>left exact.
        if f64_le left f64_zero then Dim_Over Basis_Exhausted
        else case need of
          None \<Rightarrow> Dim_No_Estimate
        | Some n \<Rightarrow>
            (if f64_lt left n then Dim_Over Basis_Median
             else if \<not> exact then Dim_Unknown_Spend else Dim_Fits)) in
      case rem of
        Unlimited \<Rightarrow> None
      | Known_Left r \<Rightarrow> Some (judge r True)
      | Unknown_Left r \<Rightarrow> Some (judge r False))"

definition over :: "dim option \<Rightarrow> gate_basis option" where
  "over d = (case d of Some (Dim_Over b) \<Rightarrow> Some b | _ \<Rightarrow> None)"

definition reported :: "remaining \<Rightarrow> bool \<Rightarrow> f64 option" where
  "reported r was_over =
     (case r of Known_Left x \<Rightarrow> Some x
      | Unknown_Left x \<Rightarrow> (if was_over then Some x else None)
      | Unlimited \<Rightarrow> None)"

definition usable_need :: "gate_input \<Rightarrow> budget_amount option" where
  "usable_need i =
     (case gi_need i of
        Need_Known n \<Rightarrow> (if \<not> gi_executor_drift i then Some n else None)
      | Need_Unknown \<Rightarrow> None)"

definition decide :: "gate_input \<Rightarrow> verdict" where
  "decide i =
     (if gi_waived i then Admit_Waived
      else
        (let need = usable_need i;
             (rt, ru) = remaining_of (bf_limit (gi_fold i)) (gi_spent i) (gi_reserved i);
             dt = dim_of rt (Option.bind need ba_tokens);
             du = dim_of ru (Option.bind need ba_usd);
             refuse = (\<lambda>basis. Refuse basis need
               \<lparr> ba_tokens = reported rt (over dt \<noteq> None), ba_usd = reported ru (over du \<noteq> None) \<rparr>);
             overs = List.map_filter id [over dt, over du]
         in if overs \<noteq> [] then
              refuse (if Basis_Median \<in> set overs then Basis_Median else hd overs)
            else if dt = Some Dim_No_Estimate \<or> du = Some Dim_No_Estimate then
              (if bf_on_no_estimate (gi_fold i) = Est_Continue
               then Admit_Continue Basis_No_Estimate else refuse Basis_No_Estimate)
            else if dt = Some Dim_Unknown_Spend \<or> du = Some Dim_Unknown_Spend then
              (if bf_on_no_estimate (gi_fold i) = Est_Continue
               then Admit_Continue Basis_Unknown_Spend else refuse Basis_Unknown_Spend)
            else Admit))"

section \<open>What a resume may change\<close>

datatype budget_error = Invalid string | Conflict string

record budget_resume =
  br_raise_tokens :: "u64 option"
  br_raise_usd :: "f64 option"
  br_tokens :: "u64 option"
  br_usd :: "f64 option"
  br_on_no_estimate :: "on_no_estimate option"
  br_once :: bool

definition no_change_asked :: budget_resume where
  "no_change_asked = \<lparr> br_raise_tokens = None, br_raise_usd = None, br_tokens = None,
     br_usd = None, br_on_no_estimate = None, br_once = False \<rparr>"

definition changes_budget :: "budget_resume \<Rightarrow> bool" where
  "changes_budget r =
     (br_raise_tokens r \<noteq> None \<or> br_raise_usd r \<noteq> None \<or> br_tokens r \<noteq> None \<or>
      br_usd r \<noteq> None \<or> br_on_no_estimate r \<noteq> None)"

definition positive_usd :: "f64 option \<Rightarrow> bool" where
  "positive_usd v = (case v of None \<Rightarrow> True | Some x \<Rightarrow> f64_is_finite x \<and> f64_lt f64_zero x)"

definition new_tokens :: "budget_limit \<Rightarrow> budget_resume \<Rightarrow> budget_error + u64 option" where
  "new_tokens limit r =
     (case (br_tokens r, br_raise_tokens r) of
        (Some t, _) \<Rightarrow> Inr (Some t)
      | (None, Some extra) \<Rightarrow>
          (case bl_tokens limit of
             None \<Rightarrow> Inl (Invalid ''the run has no token limit to raise; set one instead'')
           | Some t \<Rightarrow> Inr (Some (saturating_add t extra)))
      | (None, None) \<Rightarrow> Inr (bl_tokens limit))"

definition new_usd :: "budget_limit \<Rightarrow> budget_resume \<Rightarrow> budget_error + f64 option" where
  "new_usd limit r =
     (case (br_usd r, br_raise_usd r) of
        (Some u, _) \<Rightarrow> Inr (Some u)
      | (None, Some extra) \<Rightarrow>
          (case bl_usd limit of
             None \<Rightarrow> Inl (Invalid ''the run has no dollar limit to raise; set one instead'')
           | Some u \<Rightarrow> Inr (Some (f64_add u extra)))
      | (None, None) \<Rightarrow> Inr (bl_usd limit))"

definition new_limit :: "budget_fold option \<Rightarrow> budget_resume \<Rightarrow> budget_error + budget_limit" where
  "new_limit current r =
     (if br_tokens r = Some 0 \<or> br_raise_tokens r = Some 0 then
        Inl (Invalid ''a token budget and a token raise must be greater than 0'')
      else if \<not> positive_usd (br_usd r) \<or> \<not> positive_usd (br_raise_usd r) then
        Inl (Invalid ''a dollar budget and a dollar raise must be finite amounts greater than 0'')
      else if br_tokens r \<noteq> None \<and> br_raise_tokens r \<noteq> None \<or> br_usd r \<noteq> None \<and> br_raise_usd r \<noteq> None then
        Inl (Invalid ''set a new limit or raise it, not both, for the same dimension'')
      else
        (let limit = (case current of Some f \<Rightarrow> bf_limit f | None \<Rightarrow> no_limit) in
         case new_tokens limit r of
           Inl e \<Rightarrow> Inl e
         | Inr tokens \<Rightarrow>
             (case new_usd limit r of
                Inl e \<Rightarrow> Inl e
              | Inr usd \<Rightarrow>
                  (if (case usd of Some u \<Rightarrow> \<not> f64_is_finite u | None \<Rightarrow> False) then
                     Inl (Invalid ''the dollar limit would not be a finite amount'')
                   else if \<not> is_limited \<lparr> bl_tokens = tokens, bl_usd = usd \<rparr> then
                     Inl (Invalid ''a budget needs a token or a dollar limit'')
                   else Inr \<lparr> bl_tokens = tokens, bl_usd = usd \<rparr>))))"

definition BUDGET_PAUSED :: string where "BUDGET_PAUSED = ''budget_paused''"

definition paused_refusal :: "(f64 \<Rightarrow> string) \<Rightarrow> gate_pause \<Rightarrow> budget_error" where
  "paused_refusal cents p =
     (let amount = (\<lambda>a. amount_text cents (case a of Some x \<Rightarrow> x | None \<Rightarrow> no_amount)) in
      Conflict (BUDGET_PAUSED @ '': the run is paused by its budget before `'' @ gp_node p @ ''` ('' @
        gate_basis_str (gp_basis p) @ ''; needs '' @ amount (gp_need p) @ '', left '' @
        amount (gp_remaining p) @
        ''); resume it with a raised or new budget, another on_no_estimate, or once to let `'' @
        gp_node p @ ''` run once over it''))"

definition set_at_resume ::
  "budget_fold option \<Rightarrow> budget_resume \<Rightarrow> pause_by \<Rightarrow> bool \<Rightarrow> budget_limit \<Rightarrow> event_payload" where
  "set_at_resume f r by_whom counts limit =
     Budget_Set \<lparr> bg_tokens = bl_tokens limit, bg_usd = bl_usd limit,
       bg_on_no_estimate = (case option_or (br_on_no_estimate r) (map_option bf_on_no_estimate f) of
          Some p \<Rightarrow> p | None \<Rightarrow> Est_Ask),
       bg_source = Some Source_Resume, bg_by = Some by_whom, bg_counts_subscription = Some counts \<rparr>"

definition waive_at_resume :: "gate_pause \<Rightarrow> pause_by \<Rightarrow> event_payload" where
  "waive_at_resume p by_whom =
     Budget_Gate \<lparr> gt_node = gp_node p, gt_batch = gp_batch p, gt_items = gp_items p,
       gt_decision = Gate_Waived, gt_basis = Basis_Operator, gt_need = gp_need p,
       gt_remaining = gp_remaining p, gt_spent = no_spent, gt_by = Some by_whom \<rparr>"

definition resume_events ::
  "(f64 \<Rightarrow> string) \<Rightarrow> event list \<Rightarrow> budget_resume option \<Rightarrow> pause_by \<Rightarrow> bool
    \<Rightarrow> budget_error + event_payload list" where
  "resume_events cents es asked by_whom counts =
     (let fold = fold_budget es; paused = Option.bind fold unresolved_pause in
      case (if asked = Some no_change_asked then None else asked) of
        None \<Rightarrow>
          (case paused of
             Some p \<Rightarrow>
               (if by_whom = By_Operator then Inl (paused_refusal cents p)
                else Inl (Conflict (BUDGET_PAUSED @
                  '': the run is paused by its budget, and a budget pause is resumed by a person'')))
           | None \<Rightarrow> Inr [])
      | Some r \<Rightarrow>
          (if by_whom \<noteq> By_Operator then Inl (Conflict ''only a person may change a run's budget'')
           else
             (let open_pause = Option.bind fold (\<lambda>f. if bf_pause_open f then bf_last_pause f else None) in
              if br_once r \<and> open_pause = None then
                Inl (Invalid ''once applies only to a run its budget paused before a node'')
              else
                (let waived = (case open_pause of
                       Some p \<Rightarrow> (if br_once r then [waive_at_resume p by_whom] else [])
                     | None \<Rightarrow> []) in
                 if changes_budget r then
                   (case new_limit fold r of
                      Inl e \<Rightarrow> Inl e
                    | Inr limit \<Rightarrow> Inr (set_at_resume fold r by_whom counts limit # waived))
                 else Inr waived))))"

definition check_resume ::
  "(f64 \<Rightarrow> string) \<Rightarrow> bool option \<Rightarrow> event list \<Rightarrow> budget_resume option \<Rightarrow> pause_by
    \<Rightarrow> budget_error + unit" where
  "check_resume cents driver_alive es asked by_whom =
     (let req = (if asked = Some no_change_asked then None else asked) in
      if req \<noteq> None \<and> rs_run_status (fold_run es) \<noteq> Run_Is_Paused \<and> driver_alive = Some True then
        Inl (Conflict ''the run is running: its budget changes only at a resume; pause it first'')
      else case resume_events cents es req by_whom True of Inl e \<Rightarrow> Inl e | Inr _ \<Rightarrow> Inr ())"

section \<open>The gate of a drive\<close>

definition budget_reason ::
  "(f64 \<Rightarrow> string) \<Rightarrow> string \<Rightarrow> gate_basis \<Rightarrow> budget_amount option \<Rightarrow> budget_amount \<Rightarrow> string" where
  "budget_reason cents n basis need remaining =
     (let pick = (\<lambda>left needs txt dim.
            Option.bind left (\<lambda>l.
              let nd = (case needs of Some x \<Rightarrow> x | None \<Rightarrow> f64_zero) in
              if f64_le l f64_zero \<or> f64_lt l nd
              then Some (dim @ '': '' @ txt l @ '' left, `'' @ n @ ''` needs ~'' @ txt nd) else None));
          asked = (case need of Some a \<Rightarrow> a | None \<Rightarrow> no_amount);
          inner = (case basis of
             Basis_No_Estimate \<Rightarrow> ''`'' @ n @ ''` has no estimate''
           | Basis_Unknown_Spend \<Rightarrow> ''spent amount unknown before `'' @ n @ ''`''
           | Basis_Exhausted \<Rightarrow> ''nothing left before `'' @ n @ ''`''
           | _ \<Rightarrow>
               (case option_or (pick (ba_tokens remaining) (ba_tokens asked) tokens_text ''tokens'')
                       (pick (ba_usd remaining) (ba_usd asked) (usd_text cents) ''usd'') of
                  Some t \<Rightarrow> t
                | None \<Rightarrow> ''`'' @ n @ ''` needs more than is left''))
      in BUDGET_PREFIX @ inner @ '')'')"

definition budget_pause :: "string \<Rightarrow> pause_request" where
  "budget_pause reason =
     \<lparr> pq_reason = Some reason, pq_by = Some By_Engine, pq_mode = Drain, pq_until = None,
       pq_keep_lock = False \<rparr>"

datatype admission = Go | Pause_With pause_request | Exhausted

record drive_gate =
  dg_estimate :: "run_estimate option"
  dg_active :: bool
  dg_unattended :: bool
  dg_exhausted :: "(string \<times> string) option"

record gate_site =
  gs_node :: string
  gs_batch :: "u32 option"
  gs_items :: "u32 option"

definition load_gate :: "run_estimate option \<Rightarrow> event list \<Rightarrow> bool \<Rightarrow> drive_gate" where
  "load_gate snapshot es unattended =
     (let active = (fold_budget es \<noteq> None) in
      \<lparr> dg_estimate = (if active then snapshot else None), dg_active = active,
        dg_unattended = unattended, dg_exhausted = None \<rparr>)"

definition gates :: "drive_gate \<Rightarrow> node \<Rightarrow> bool" where
  "gates g n = (dg_active g \<and> budget_gated (n_kind n))"

definition need_of :: "drive_gate \<Rightarrow> string \<Rightarrow> f64 \<Rightarrow> need" where
  "need_of g n scale =
     (case map_option gate_figure (Option.bind (dg_estimate g) (\<lambda>e. e n)) of
        None \<Rightarrow> Need_Unknown
      | Some f \<Rightarrow>
          (if nsp_tokens f = None \<and> nsp_cost_usd f = None then Need_Unknown
           else Need_Known
             \<lparr> ba_tokens = map_option (\<lambda>t. f64_mul (f64_of_u64 t) scale) (nsp_tokens f),
               ba_usd = map_option (\<lambda>c. f64_mul c scale) (nsp_cost_usd f) \<rparr>))"

definition drift_step :: "string \<Rightarrow> bool \<times> bool \<Rightarrow> event \<Rightarrow> bool \<times> bool" where
  "drift_step n acc e =
     (let (in_latest, any_host) = acc in
      case ev_payload e of
        Node_Started m _ \<Rightarrow> if m = n then (False, any_host) else acc
      | Fallback_Triggered m _ _ \<Rightarrow> if m = n then (True, any_host) else acc
      | Execution_Fallback m _ _ \<Rightarrow> if m = n then (in_latest, True) else acc
      | _ \<Rightarrow> acc)"

definition executor_drift :: "event list \<Rightarrow> string \<Rightarrow> bool" where
  "executor_drift es n = (let (l, h) = foldl (drift_step n) (False, False) es in h \<or> l)"

definition need_amount :: "need \<Rightarrow> budget_amount option" where
  "need_amount n = (case n of Need_Known a \<Rightarrow> Some a | Need_Unknown \<Rightarrow> None)"

definition gate_record ::
  "gate_site \<Rightarrow> budget_fold \<Rightarrow> spent \<Rightarrow> need \<Rightarrow> gate_decision \<Rightarrow> gate_basis \<Rightarrow> budget_amount option
    \<Rightarrow> event_payload" where
  "gate_record site f s need decision basis remaining =
     Budget_Gate \<lparr> gt_node = gs_node site, gt_batch = gs_batch site, gt_items = gs_items site,
       gt_decision = decision, gt_basis = basis, gt_need = need_amount need,
       gt_remaining = remaining, gt_spent = spent_for_limit s (bf_limit f), gt_by = None \<rparr>"

definition gate_input_at ::
  "(string \<Rightarrow> event list option) \<Rightarrow> drive_gate \<Rightarrow> event list \<Rightarrow> budget_fold \<Rightarrow> gate_site \<Rightarrow> need
    \<Rightarrow> budget_amount \<Rightarrow> gate_input" where
  "gate_input_at journals g es f site need reserved =
     \<lparr> gi_fold = f, gi_spent = spent_of journals es (dg_estimate g) (bf_counts_subscription f),
       gi_need = need, gi_reserved = reserved, gi_waived = (bf_waiver f = Some (gs_node site)),
       gi_executor_drift = executor_drift es (gs_node site) \<rparr>"

definition decide_at ::
  "(f64 \<Rightarrow> string) \<Rightarrow> (string \<Rightarrow> event list option) \<Rightarrow> drive_gate \<Rightarrow> event list \<Rightarrow> gate_site \<Rightarrow> need
    \<Rightarrow> budget_amount \<Rightarrow> event_payload list \<times> admission \<times> drive_gate" where
  "decide_at cents journals g es site need reserved =
     (case fold_budget es of
        None \<Rightarrow> ([], Go, g)
      | Some f \<Rightarrow>
          (let i = gate_input_at journals g es f site need reserved;
               record = gate_record site f (gi_spent i) need in
           case decide i of
             Admit \<Rightarrow> ([], Go, g)
           | Admit_Waived \<Rightarrow> ([record Gate_Admitted_Waived Basis_Operator None], Go, g)
           | Admit_Continue basis \<Rightarrow> ([record Gate_Continued basis None], Go, g)
           | Refuse basis known remaining \<Rightarrow>
               (let decision = (if dg_unattended g then Gate_Failed else Gate_Paused);
                    ev = record decision basis
                      (if amount_is_empty remaining then None else Some remaining);
                    reason = budget_reason cents (gs_node site) basis known remaining
                in if dg_unattended g then
                     ([ev], Exhausted,
                      g\<lparr>dg_exhausted := (case dg_exhausted g of
                          Some x \<Rightarrow> Some x
                        | None \<Rightarrow> Some (gs_node site, ''budget_exhausted: '' @ reason))\<rparr>)
                   else ([ev], Pause_With (budget_pause reason), g))))"

definition node_started_count :: "event list \<Rightarrow> string \<Rightarrow> nat" where
  "node_started_count es n =
     length (filter (\<lambda>e. case ev_payload e of Node_Started m _ \<Rightarrow> m = n | _ \<Rightarrow> False) es)"

definition node_finished_count :: "event list \<Rightarrow> string \<Rightarrow> nat" where
  "node_finished_count es n =
     length (filter (\<lambda>e. case ev_payload e of Node_Finished f \<Rightarrow> nf_node f = n | _ \<Rightarrow> False) es)"

type_synonym reservations = "(string, budget_amount) fmap"

definition reserved_total :: "reservations \<Rightarrow> budget_amount" where
  "reserved_total r =
     foldl amount_plus no_amount (map (\<lambda>n. the (fmlookup r n)) (sorted_list_of_fset (fmdom r)))"

definition release_reservation :: "string \<Rightarrow> reservations \<Rightarrow> reservations" where
  "release_reservation n r = fmdrop n r"

definition admit_node ::
  "(f64 \<Rightarrow> string) \<Rightarrow> (string \<Rightarrow> event list option) \<Rightarrow> drive_gate \<Rightarrow> event list \<Rightarrow> node \<Rightarrow> reservations
    \<Rightarrow> event_payload list \<times> admission \<times> drive_gate \<times> reservations" where
  "admit_node cents journals g es n reserved =
     (if \<not> gates g n \<or> n_list n \<noteq> None then ([], Go, g, reserved)
      else if node_started_count es (n_id n) > node_finished_count es (n_id n) then ([], Go, g, reserved)
      else
        (let need = need_of g (n_id n) f64_one;
             (evs, adm, g') = decide_at cents journals g es
               \<lparr> gs_node = n_id n, gs_batch = None, gs_items = None \<rparr> need (reserved_total reserved)
         in (evs, adm, g',
             case (adm, need) of
               (Go, Need_Known a) \<Rightarrow> fmupd (n_id n) a reserved
             | _ \<Rightarrow> reserved)))"

definition admit_batch ::
  "(f64 \<Rightarrow> string) \<Rightarrow> (string \<Rightarrow> event list option) \<Rightarrow> drive_gate \<Rightarrow> event list \<Rightarrow> node \<Rightarrow> u32 \<Rightarrow> u64
    \<Rightarrow> event_payload list \<times> admission \<times> drive_gate" where
  "admit_batch cents journals g es n batch items =
     (if \<not> gates g n then ([], Go, g)
      else decide_at cents journals g es
        \<lparr> gs_node = n_id n, gs_batch = Some batch, gs_items = Some (ucast items) \<rparr>
        (need_of g (n_id n) (f64_of_u64 items)) no_amount)"

section \<open>The status surfaces report\<close>

record dim_status =
  ds_spent :: f64
  ds_unknown_attempts :: u32
  ds_imputed :: "f64 option"
  ds_remaining :: "f64 option"

definition dim_status_of :: "f64 \<Rightarrow> spent_dim \<Rightarrow> dim_status" where
  "dim_status_of limit d =
     \<lparr> ds_spent = sd_known d, ds_unknown_attempts = sd_unknown_attempts d,
       ds_imputed = (if 0 < sd_unknown_attempts d then sd_imputed d else None),
       ds_remaining = map_option (f64_sub limit) (spent_total d) \<rparr>"

record paused_gate =
  pg_node :: string
  pg_batch :: "u32 option"
  pg_basis :: gate_basis
  pg_need :: "budget_amount option"
  pg_remaining :: "budget_amount option"

definition paused_gate_of :: "gate_pause \<Rightarrow> paused_gate" where
  "paused_gate_of p =
     \<lparr> pg_node = gp_node p, pg_batch = gp_batch p, pg_basis = gp_basis p, pg_need = gp_need p,
       pg_remaining = gp_remaining p \<rparr>"

record budget_status =
  bst_limit :: budget_limit
  bst_on_no_estimate :: on_no_estimate
  bst_source :: "budget_source option"
  bst_tokens :: "dim_status option"
  bst_usd :: "dim_status option"
  bst_sets :: u32
  bst_paused :: "paused_gate option"
  bst_waiver :: "string option"

definition budget_status_of ::
  "(string \<Rightarrow> event list option) \<Rightarrow> run_estimate option \<Rightarrow> event list \<Rightarrow> budget_status option" where
  "budget_status_of journals est es =
     map_option (\<lambda>f. let s = spent_of journals es est (bf_counts_subscription f) in
       \<lparr> bst_limit = bf_limit f, bst_on_no_estimate = bf_on_no_estimate f, bst_source = bf_source f,
         bst_tokens = map_option (\<lambda>l. dim_status_of (f64_of_u64 l) (sp_tokens s)) (bl_tokens (bf_limit f)),
         bst_usd = map_option (\<lambda>l. dim_status_of l (sp_usd s)) (bl_usd (bf_limit f)),
         bst_sets = bf_sets f,
         bst_paused = (if bf_pause_open f then map_option paused_gate_of (bf_last_pause f) else None),
         bst_waiver = bf_waiver f \<rparr>) (fold_budget es)"

section \<open>What the gate decides\<close>

text \<open>
  A dimension is short when it is limited and nothing is left, or less than the need; it cannot be
  decided when it is limited and the need or part of the spend is unknown.
\<close>

definition short_of :: "remaining \<Rightarrow> f64 option \<Rightarrow> bool" where
  "short_of rem need =
     (let below = (\<lambda>l. f64_le l f64_zero \<or> (case need of Some n \<Rightarrow> f64_lt l n | None \<Rightarrow> False)) in
      case rem of Unlimited \<Rightarrow> False | Known_Left l \<Rightarrow> below l | Unknown_Left l \<Rightarrow> below l)"

definition undecided :: "remaining \<Rightarrow> f64 option \<Rightarrow> bool" where
  "undecided rem need =
     (case rem of Unlimited \<Rightarrow> False | Known_Left _ \<Rightarrow> need = None | Unknown_Left _ \<Rightarrow> True)"

definition gate_short :: "gate_input \<Rightarrow> bool" where
  "gate_short i =
     (let (rt, ru) = remaining_of (bf_limit (gi_fold i)) (gi_spent i) (gi_reserved i); n = usable_need i in
      short_of rt (Option.bind n ba_tokens) \<or> short_of ru (Option.bind n ba_usd))"

definition gate_undecided :: "gate_input \<Rightarrow> bool" where
  "gate_undecided i =
     (let (rt, ru) = remaining_of (bf_limit (gi_fold i)) (gi_spent i) (gi_reserved i); n = usable_need i in
      undecided rt (Option.bind n ba_tokens) \<or> undecided ru (Option.bind n ba_usd))"

lemma over_short: "(over (dim_of rem need) \<noteq> None) = short_of rem need"
  by (cases rem; cases need) (auto simp: over_def dim_of_def short_of_def Let_def)

lemma dim_undecided:
  "\<not> short_of rem need \<Longrightarrow>
    (dim_of rem need = Some Dim_No_Estimate \<or> dim_of rem need = Some Dim_Unknown_Spend) = undecided rem need"
  by (cases rem; cases need) (auto simp: dim_of_def short_of_def undecided_def Let_def)

lemma decide_cases:
  "decide i =
    (if gi_waived i then Admit_Waived
     else if gate_short i then decide i
     else if gate_undecided i then decide i
     else Admit)"
  "\<not> gi_waived i \<Longrightarrow> gate_short i \<Longrightarrow> \<exists>b n r. decide i = Refuse b n r"
  "\<not> gi_waived i \<Longrightarrow> \<not> gate_short i \<Longrightarrow> gate_undecided i \<Longrightarrow>
    (if bf_on_no_estimate (gi_fold i) = Est_Continue then \<exists>b. decide i = Admit_Continue b
     else \<exists>b n r. decide i = Refuse b n r)"
proof -
  obtain rt ru where r: "remaining_of (bf_limit (gi_fold i)) (gi_spent i) (gi_reserved i) = (rt, ru)" by force
  let ?nt = "Option.bind (usable_need i) ba_tokens" and ?nu = "Option.bind (usable_need i) ba_usd"
  let ?dt = "dim_of rt ?nt" and ?du = "dim_of ru ?nu"
  have sh: "gate_short i = (short_of rt ?nt \<or> short_of ru ?nu)" by (simp add: gate_short_def r Let_def)
  have un: "gate_undecided i = (undecided rt ?nt \<or> undecided ru ?nu)" by (simp add: gate_undecided_def r Let_def)
  have ov: "(List.map_filter id [over ?dt, over ?du] \<noteq> []) = gate_short i"
    unfolding sh using over_short [of rt ?nt] over_short [of ru ?nu]
    by (auto simp: List.map_filter_def)
  note d = decide_def [of i] r Let_def
  show "\<not> gi_waived i \<Longrightarrow> gate_short i \<Longrightarrow> \<exists>b n r. decide i = Refuse b n r"
    using ov by (auto simp: d)
  have tu: "\<not> gate_short i \<Longrightarrow> (?dt = Some Dim_No_Estimate \<or> ?dt = Some Dim_Unknown_Spend \<or>
      ?du = Some Dim_No_Estimate \<or> ?du = Some Dim_Unknown_Spend) = gate_undecided i"
    unfolding sh un using dim_undecided [of rt ?nt] dim_undecided [of ru ?nu] by blast
  show "\<not> gi_waived i \<Longrightarrow> \<not> gate_short i \<Longrightarrow> gate_undecided i \<Longrightarrow>
    (if bf_on_no_estimate (gi_fold i) = Est_Continue then \<exists>b. decide i = Admit_Continue b
     else \<exists>b n r. decide i = Refuse b n r)"
    using ov tu by (auto simp: d)
  show "decide i = (if gi_waived i then Admit_Waived else if gate_short i then decide i
     else if gate_undecided i then decide i else Admit)"
    using ov tu by (auto simp: d)
qed

lemma gate_verdict:
  "(decide i = Admit_Waived) = gi_waived i
   \<and> (\<exists>b n r. decide i = Refuse b n r) =
      (\<not> gi_waived i \<and> (gate_short i \<or> gate_undecided i \<and> bf_on_no_estimate (gi_fold i) \<noteq> Est_Continue))
   \<and> (\<exists>b. decide i = Admit_Continue b) =
      (\<not> gi_waived i \<and> \<not> gate_short i \<and> gate_undecided i \<and> bf_on_no_estimate (gi_fold i) = Est_Continue)
   \<and> (decide i = Admit) = (\<not> gi_waived i \<and> \<not> gate_short i \<and> \<not> gate_undecided i)"
proof (cases "gi_waived i")
  case True
  then show ?thesis using decide_cases(1) [of i] by simp
next
  case nw: False
  show ?thesis
  proof (cases "gate_short i")
    case True
    then obtain b n r where "decide i = Refuse b n r" using decide_cases(2) nw by blast
    then show ?thesis using True nw by simp
  next
    case ns: False
    show ?thesis
    proof (cases "gate_undecided i")
      case True
      then show ?thesis using decide_cases(3) [OF nw ns True] nw ns by (auto split: if_splits)
    next
      case False
      then show ?thesis using decide_cases(1) [of i] nw ns by simp
    qed
  qed
qed


section \<open>Waivers\<close>

definition gate_of :: "gate_decision \<Rightarrow> string \<Rightarrow> event \<Rightarrow> bool" where
  "gate_of d n e = (case ev_payload e of Budget_Gate g \<Rightarrow> gt_decision g = d \<and> gt_node g = n | _ \<Rightarrow> False)"

definition gate_count :: "gate_decision \<Rightarrow> string \<Rightarrow> event list \<Rightarrow> nat" where
  "gate_count d n es = length (filter (gate_of d n) es)"

definition holds_waiver :: "event list \<Rightarrow> string \<Rightarrow> bool" where
  "holds_waiver es n =
     (case foldl budget_step None es of Some f \<Rightarrow> bf_waiver f = Some n | None \<Rightarrow> False)"

text \<open>
  The journals a run can have as far as its budget goes: gate records come from the gate and from
  resumes only; any other event may come in between.  The gate reads the journal and appends its
  record later, without a lock: other records (\<open>zs\<close>) may land in between, except gate records,
  which only the one driver of the run and a resume of a run without a driver write.
\<close>

inductive budget_journal ::
  "(f64 \<Rightarrow> string) \<Rightarrow> (string \<Rightarrow> event list option) \<Rightarrow> event list \<Rightarrow> bool"
  for cents :: "f64 \<Rightarrow> string" and journals :: "string \<Rightarrow> event list option" where
  bj_start: "budget_journal cents journals []"
| bj_other: "budget_journal cents journals es \<Longrightarrow> (\<forall>g. ev_payload e \<noteq> Budget_Gate g) \<Longrightarrow>
    budget_journal cents journals (es @ [e])"
| bj_gate: "budget_journal cents journals es \<Longrightarrow>
    (\<forall>z\<in>set zs. \<forall>b. ev_payload z \<noteq> Budget_Gate b) \<Longrightarrow>
    decide_at cents journals g es site need reserved = (map ev_payload evs, adm, g') \<Longrightarrow>
    budget_journal cents journals (es @ zs @ evs)"
| bj_resume: "budget_journal cents journals es \<Longrightarrow>
    resume_events cents es asked by_whom counts = Inr (map ev_payload evs) \<Longrightarrow>
    budget_journal cents journals (es @ evs)"

definition waiver_inv :: "event list \<Rightarrow> bool" where
  "waiver_inv es =
     ((\<forall>n. gate_count Gate_Admitted_Waived n es + (if holds_waiver es n then 1 else 0)
         \<le> gate_count Gate_Waived n es) \<and>
      (\<forall>e\<in>set es. case ev_payload e of
         Budget_Gate g \<Rightarrow> gt_decision g = Gate_Waived \<longrightarrow> gt_by g = Some By_Operator | _ \<Rightarrow> True))"

definition fair_gate :: "event list \<Rightarrow> event_payload \<Rightarrow> bool" where
  "fair_gate es p =
     (case p of
        Budget_Gate g \<Rightarrow>
          (gt_decision g = Gate_Admitted_Waived \<longrightarrow> holds_waiver es (gt_node g)) \<and>
          (gt_decision g = Gate_Waived \<longrightarrow> gt_by g = Some By_Operator)
      | _ \<Rightarrow> True)"

lemma gate_count_snoc:
  "gate_count d n (es @ [e]) = gate_count d n es + (if gate_of d n e then 1 else 0)"
  by (simp add: gate_count_def)

lemma holds_waiver_snoc:
  "holds_waiver (es @ [e]) n \<Longrightarrow>
    gate_of Gate_Waived n e \<or> holds_waiver es n \<and> \<not> gate_of Gate_Admitted_Waived n e"
proof (cases "foldl budget_step None es")
  case None
  then show "holds_waiver (es @ [e]) n \<Longrightarrow> ?thesis"
    by (cases "ev_payload e") (auto simp: holds_waiver_def budget_step_def on_budget_set_def
        new_budget_def Let_def)
next
  case (Some f)
  then show "holds_waiver (es @ [e]) n \<Longrightarrow> ?thesis"
  proof (cases "ev_payload e")
    case (Budget_Gate g)
    then show "holds_waiver (es @ [e]) n \<Longrightarrow> ?thesis" using Some
      by (cases "gt_decision g")
        (auto simp: holds_waiver_def budget_step_def gate_of_def on_budget_gate_def split: if_splits)
  qed (auto simp: holds_waiver_def budget_step_def gate_of_def on_budget_set_def
      on_budget_resumed_def Let_def split: if_splits)
qed

lemma no_gate_count:
  "(\<forall>z\<in>set zs. \<forall>b. ev_payload z \<noteq> Budget_Gate b) \<Longrightarrow> gate_count d n (es @ zs) = gate_count d n es"
  by (induction zs rule: rev_induct)
    (auto simp: gate_count_snoc gate_of_def simp flip: append_assoc split: event_payload.splits)

text \<open>One gate record, decided on a journal to which other records were added since.\<close>

lemma waiver_inv_late:
  assumes inv: "waiver_inv es" "waiver_inv (es @ zs)" and zs: "\<forall>z\<in>set zs. \<forall>b. ev_payload z \<noteq> Budget_Gate b"
    and fair: "fair_gate es (ev_payload e)"
  shows "waiver_inv (es @ zs @ [e])"
proof -
  have "gate_count Gate_Admitted_Waived n ((es @ zs) @ [e]) + (if holds_waiver ((es @ zs) @ [e]) n then 1 else 0)
      \<le> gate_count Gate_Waived n ((es @ zs) @ [e])" for n
  proof -
    have le: "gate_count Gate_Admitted_Waived n es + (if holds_waiver es n then 1 else 0)
        \<le> gate_count Gate_Waived n es"
      "gate_count Gate_Admitted_Waived n (es @ zs) + (if holds_waiver (es @ zs) n then 1 else 0)
        \<le> gate_count Gate_Waived n (es @ zs)" using inv by (simp_all add: waiver_inv_def)
    have adm: "gate_of Gate_Admitted_Waived n e \<Longrightarrow> holds_waiver es n \<and> \<not> gate_of Gate_Waived n e"
      using fair by (auto simp: gate_of_def fair_gate_def split: event_payload.splits)
    show ?thesis using le adm holds_waiver_snoc [of "es @ zs" e n]
      unfolding gate_count_snoc no_gate_count [OF zs] by (auto split: if_splits)
  qed
  moreover have "case ev_payload e of
      Budget_Gate g \<Rightarrow> gt_decision g = Gate_Waived \<longrightarrow> gt_by g = Some By_Operator | _ \<Rightarrow> True"
    using fair by (auto simp: fair_gate_def split: event_payload.splits)
  ultimately show ?thesis using inv by (simp add: waiver_inv_def)
qed

lemma waiver_inv_snoc: "waiver_inv es \<Longrightarrow> fair_gate es (ev_payload e) \<Longrightarrow> waiver_inv (es @ [e])"
  using waiver_inv_late [of es "[]" e] by simp

lemma waiver_inv_append:
  assumes "waiver_inv es" "\<forall>xs x ys. evs = xs @ x # ys \<longrightarrow> fair_gate (es @ xs) (ev_payload x)"
  shows "waiver_inv (es @ evs)"
  using assms
proof (induction evs rule: rev_induct)
  case (snoc e evs)
  have "waiver_inv (es @ evs)" using snoc.IH [OF snoc.prems(1)] snoc.prems(2) by simp
  moreover have "fair_gate (es @ evs) (ev_payload e)" using snoc.prems(2) by blast
  ultimately show ?case using waiver_inv_snoc [of "es @ evs" e] by simp
qed simp

lemma decide_at_fair:
  assumes "decide_at cents journals g es site need reserved = (map ev_payload evs, adm, g')"
  shows "evs = [] \<or> (\<exists>e. evs = [e] \<and> fair_gate es (ev_payload e))"
proof (cases "fold_budget es")
  case None
  then show ?thesis using assms by (simp add: decide_at_def)
next
  case (Some f)
  let ?i = "gate_input_at journals g es f site need reserved"
  have raw: "foldl budget_step None es = Some f"
    using Some by (auto simp: fold_budget_def split: option.splits if_splits)
  show ?thesis
  proof (cases "decide ?i")
    case Admit_Waived
    then have "bf_waiver f = Some (gs_node site)"
      using gate_verdict [of ?i] by (simp add: gate_input_at_def)
    then show ?thesis using assms Some Admit_Waived raw
      by (auto simp: decide_at_def Let_def fair_gate_def gate_record_def holds_waiver_def
          dest!: sym [of "Budget_Gate _"])
  qed (use assms Some in \<open>auto simp: decide_at_def Let_def fair_gate_def gate_record_def
      dest!: sym [of "Budget_Gate _"] split: if_splits\<close>)
qed

lemma resume_events_fair:
  assumes "resume_events cents es asked by_whom counts = Inr ps" "p \<in> set ps"
  shows "fair_gate X p" "by_whom = By_Operator"
  using assms
  by (auto simp: resume_events_def Let_def fair_gate_def set_at_resume_def waive_at_resume_def
      split: option.splits if_splits sum.splits)

lemma budget_journal_inv: "budget_journal cents journals es \<Longrightarrow> waiver_inv es"
proof (induction rule: budget_journal.induct)
  case bj_start
  then show ?case by (simp add: waiver_inv_def gate_count_def holds_waiver_def)
next
  case (bj_other es e)
  then show ?case by (intro waiver_inv_snoc) (auto simp: fair_gate_def split: event_payload.splits)
next
  case (bj_gate es zs g site need reserved evs adm g')
  have "fair_gate X (ev_payload z)" if "z \<in> set zs" for z X
    using bj_gate.hyps(2) that by (cases "ev_payload z") (simp_all add: fair_gate_def)
  then have "waiver_inv (es @ zs)" using bj_gate.IH by (intro waiver_inv_append) auto
  then show ?case
    using decide_at_fair [OF bj_gate.hyps(3)] waiver_inv_late [OF bj_gate.IH _ bj_gate.hyps(2)] by auto
next
  case (bj_resume es asked by_whom counts evs)
  have "fair_gate X (ev_payload x)" if "x \<in> set evs" for x X
    using resume_events_fair(1) [OF bj_resume.hyps(2)] that by simp
  then show ?case using bj_resume.IH by (intro waiver_inv_append) auto
qed

text \<open>
  C12: an admission over the budget is a person's and happens once: in every journal the gate and
  the resumes produce, a node never runs on a waiver more often than it was waived, and every
  waiver was given by the operator.
\<close>

theorem waivers_are_single_use:
  assumes "budget_journal cents journals es"
  shows "gate_count Gate_Admitted_Waived n es \<le> gate_count Gate_Waived n es \<and>
    (\<forall>e\<in>set es. gate_of Gate_Waived n e \<longrightarrow>
       (case ev_payload e of Budget_Gate g \<Rightarrow> gt_by g = Some By_Operator | _ \<Rightarrow> False))"
proof -
  note inv = budget_journal_inv [OF assms, unfolded waiver_inv_def]
  have "gate_count Gate_Admitted_Waived n es \<le> gate_count Gate_Waived n es"
    using inv by (meson add_leD1)
  moreover have "case ev_payload e of Budget_Gate g \<Rightarrow> gt_by g = Some By_Operator | _ \<Rightarrow> False"
    if "e \<in> set es" "gate_of Gate_Waived n e" for e
    using inv that by (auto simp: gate_of_def split: event_payload.splits)
  ultimately show ?thesis by blast
qed

section \<open>A budget pause waits for a person\<close>

definition budget_quiet :: "event_payload \<Rightarrow> bool" where
  "budget_quiet p =
     (case p of Budget_Set _ \<Rightarrow> False | Budget_Gate g \<Rightarrow> gt_decision g \<noteq> Gate_Waived | Run_Resumed _ \<Rightarrow> False
      | Run_Aborted _ _ \<Rightarrow> False | Run_Finished _ \<Rightarrow> False | _ \<Rightarrow> True)"

definition pause_pending :: "budget_fold option \<Rightarrow> bool" where
  "pause_pending fo =
     (case fo of
        Some f \<Rightarrow> is_limited (bf_limit f) \<and> bf_pause_open f \<and> \<not> bf_pause_resolved f \<and> bf_last_pause f \<noteq> None
      | None \<Rightarrow> False)"

lemma budget_step_quiet: "budget_quiet (ev_payload e) \<Longrightarrow> pause_pending fo \<Longrightarrow> pause_pending (budget_step fo e)"
  by (cases "ev_payload e")
    (auto simp: budget_quiet_def budget_step_def pause_pending_def on_budget_gate_def split: option.splits gate_decision.splits)

lemma budget_fold_quiet:
  "\<forall>y\<in>set ys. budget_quiet (ev_payload y) \<Longrightarrow> pause_pending fo \<Longrightarrow> pause_pending (foldl budget_step fo ys)"
  by (induction ys arbitrary: fo) (simp_all add: budget_step_quiet)

lemma budget_limit_quiet:
  assumes "\<forall>z\<in>set zs. \<forall>b. ev_payload z \<noteq> Budget_Set b" "foldl budget_step None es = Some f"
  shows "\<exists>f'. foldl budget_step None (es @ zs) = Some f' \<and> bf_limit f' = bf_limit f"
  using assms(1)
proof (induction zs rule: rev_induct)
  case (snoc z zs)
  then obtain f' where f': "foldl budget_step None (es @ zs) = Some f'" "bf_limit f' = bf_limit f" by auto
  have "\<exists>f2. budget_step (Some f') z = Some f2 \<and> bf_limit f2 = bf_limit f'" using snoc.prems
    by (cases "ev_payload z")
      (auto simp: budget_step_def on_budget_gate_def on_budget_resumed_def Let_def split: gate_decision.splits)
  then show ?case using f' by auto
qed (simp add: assms(2))

lemma resume_refused:
  assumes "Option.bind (fold_budget es) unresolved_pause \<noteq> None"
    and "by_whom \<noteq> By_Operator \<or> asked = None \<or> asked = Some no_change_asked"
  shows "\<exists>msg. resume_events cents es asked by_whom counts = Inl (Conflict msg)"
proof -
  obtain p where "Option.bind (fold_budget es) unresolved_pause = Some p" using assms(1) by blast
  then show ?thesis using assms(2)
    by (cases asked; cases "asked = Some no_change_asked")
      (auto simp: resume_events_def Let_def paused_refusal_def)
qed

text \<open>
  C13: once the gate paused a run, and until the budget changes, a waiver is given, or the run is
  resumed or ends, nothing but a person's change continues it: a plain resume, and any resume by a
  supervisor or the engine, is refused.  Whatever else the gate decides meanwhile, for this node or
  another, admissions and further pauses included, resolves nothing; nor does what others journaled
  between the gate's reading and its record, short of a new budget.
\<close>

theorem budget_pause_holds:
  assumes "decide_at cents journals g es site need reserved = (map ev_payload evs, Pause_With req, g')"
    and "\<forall>z\<in>set zs. \<forall>b. ev_payload z \<noteq> Budget_Set b"
    and "\<forall>y\<in>set ys. budget_quiet (ev_payload y)"
    and "by_whom \<noteq> By_Operator \<or> asked = None \<or> asked = Some no_change_asked"
  shows "\<exists>msg. resume_events cents (es @ zs @ evs @ ys) asked by_whom counts = Inl (Conflict msg)"
proof (rule resume_refused [OF _ assms(4)])
  obtain f where f: "fold_budget es = Some f"
    using assms(1) by (cases "fold_budget es") (auto simp: decide_at_def)
  then have raw: "foldl budget_step None es = Some f" "is_limited (bf_limit f)"
    by (auto simp: fold_budget_def split: option.splits if_splits)
  obtain f' where f': "foldl budget_step None (es @ zs) = Some f'" "is_limited (bf_limit f')"
    using budget_limit_quiet [OF assms(2) raw(1)] raw(2) by auto
  let ?i = "gate_input_at journals g es f site need reserved"
  obtain gt e where e: "evs = [e]" "ev_payload e = Budget_Gate gt" "gt_decision gt = Gate_Paused"
    using assms(1) f by (cases "decide ?i")
      (auto simp: decide_at_def Let_def gate_record_def split: if_splits dest!: sym [of "Budget_Gate _"])
  have "pause_pending (Some (on_budget_gate f' (ev_seq e) gt))"
    using f'(2) e(3) by (simp add: pause_pending_def on_budget_gate_def)
  then have "pause_pending (foldl budget_step None (es @ zs @ evs @ ys))"
    using budget_fold_quiet [OF assms(3)] f'(1) e(1,2) by (simp add: budget_step_def)
  then show "Option.bind (fold_budget (es @ zs @ evs @ ys)) unresolved_pause \<noteq> None"
    by (auto simp: pause_pending_def fold_budget_def unresolved_pause_def split: option.splits)
qed

lemma resolved_step:
  assumes "\<exists>b. ev_payload e = Budget_Set b \<or>
      ev_payload e = Budget_Gate b' \<and> gt_decision b' = Gate_Waived"
  shows "case budget_step fo e of Some f \<Rightarrow> bf_pause_resolved f | None \<Rightarrow> True"
  using assms by (cases fo) (auto simp: budget_step_def on_budget_set_def on_budget_gate_def Let_def)

lemma resume_events_cases:
  assumes "resume_events cents es asked by_whom counts = Inr ps"
  shows "ps = [] \<and> Option.bind (fold_budget es) unresolved_pause = None
    \<or> (ps \<noteq> [] \<and> (\<exists>b. last ps = Budget_Set b \<or> (\<exists>g. last ps = Budget_Gate g \<and> gt_decision g = Gate_Waived)))
    \<or> (\<exists>r. asked = Some r \<and> r \<noteq> no_change_asked \<and> \<not> changes_budget r \<and> \<not> br_once r)"
  using assms
  by (auto simp: resume_events_def Let_def set_at_resume_def waive_at_resume_def
      split: if_splits option.splits sum.splits)

lemma change_or_once: "r \<noteq> no_change_asked \<Longrightarrow> changes_budget r \<or> br_once r"
  by (cases r) (auto simp: no_change_asked_def changes_budget_def)

text \<open>
  And a resume that is let through leaves no unresolved budget pause behind: once the records
  it journals are read back, no open gate pause is left that a plain resume would have to refuse.
\<close>

theorem admitted_resume_resolves:
  assumes "resume_events cents es asked by_whom counts = Inr (map ev_payload evs)"
  shows "Option.bind (fold_budget (es @ evs)) unresolved_pause = None"
proof -
  consider "evs = []" "Option.bind (fold_budget es) unresolved_pause = None"
    | b where "evs \<noteq> []" "ev_payload (last evs) = Budget_Set b"
    | g where "evs \<noteq> []" "ev_payload (last evs) = Budget_Gate g" "gt_decision g = Gate_Waived"
    using resume_events_cases [OF assms] by (auto simp: last_map dest: change_or_once)
  then show ?thesis
  proof cases
    case 1
    then show ?thesis by simp
  next
    case (2 b)
    obtain xs e where "evs = xs @ [e]" "ev_payload e = Budget_Set b"
      using 2 by (metis append_butlast_last_id)
    then show ?thesis using resolved_step [of e undefined "foldl budget_step None (es @ xs)"]
      by (auto simp: fold_budget_def unresolved_pause_def split: option.splits)
  next
    case (3 g)
    obtain xs e where "evs = xs @ [e]" "ev_payload e = Budget_Gate g"
      using 3 by (metis append_butlast_last_id)
    then show ?thesis using resolved_step [of e g "foldl budget_step None (es @ xs)"] 3(3)
      by (auto simp: fold_budget_def unresolved_pause_def split: option.splits)
  qed
qed

section \<open>A budget paused, waived and used\<close>

definition demo_gate :: drive_gate where
  "demo_gate = \<lparr> dg_estimate = None, dg_active = True, dg_unattended = False, dg_exhausted = None \<rparr>"

definition demo_site :: gate_site where
  "demo_site = \<lparr> gs_node = ''n'', gs_batch = None, gs_items = None \<rparr>"

definition demo_set :: event where
  "demo_set = \<lparr> ev_seq = 0, ev_ts = 0, ev_payload = Budget_Set \<lparr> bg_tokens = Some 100, bg_usd = None,
     bg_on_no_estimate = Est_Ask, bg_source = None, bg_by = None, bg_counts_subscription = None \<rparr> \<rparr>"

lemma demo_fold: "\<exists>f. fold_budget [demo_set] = Some f \<and> bf_waiver f = None \<and> bf_on_no_estimate f = Est_Ask
    \<and> bf_limit f = \<lparr> bl_tokens = Some 100, bl_usd = None \<rparr>"
  by (simp add: fold_budget_def demo_set_def budget_step_def on_budget_set_def new_budget_def Let_def
      is_limited_def)

lemma demo_refused:
  "\<exists>e q. decide_at cents journals demo_gate [demo_set] demo_site Need_Unknown no_amount
      = (map ev_payload [e], Pause_With q, demo_gate) \<and> gate_of Gate_Paused ''n'' e"
proof -
  obtain f where f: "fold_budget [demo_set] = Some f" "bf_waiver f = None" "bf_on_no_estimate f = Est_Ask"
    "bf_limit f = \<lparr> bl_tokens = Some 100, bl_usd = None \<rparr>" using demo_fold by blast
  let ?i = "gate_input_at journals demo_gate [demo_set] f demo_site Need_Unknown no_amount"
  have "gi_spent ?i = nothing_spent"
    by (simp add: gate_input_at_def spent_of_def spent_step_def attempt_spend_of_def demo_set_def)
  then have "gate_undecided ?i"
    by (simp add: gate_undecided_def gate_input_at_def f remaining_of_def remaining_dim_def spent_total_def
        nothing_spent_def Let_def undecided_def usable_need_def no_amount_def)
  moreover have "\<not> gi_waived ?i" "bf_on_no_estimate (gi_fold ?i) \<noteq> Est_Continue"
    using f by (simp_all add: gate_input_at_def)
  ultimately obtain b n r where d: "decide ?i = Refuse b n r" using gate_verdict [of ?i] by blast
  let ?p = "gate_record demo_site f (gi_spent ?i) Need_Unknown Gate_Paused b
      (if amount_is_empty r then None else Some r)"
  have "decide_at cents journals demo_gate [demo_set] demo_site Need_Unknown no_amount
      = (map ev_payload [\<lparr> ev_seq = 1, ev_ts = 0, ev_payload = ?p \<rparr>],
         Pause_With (budget_pause (budget_reason cents ''n'' b n r)), demo_gate)"
    using f d by (simp add: decide_at_def demo_gate_def demo_site_def Let_def)
  moreover have "gate_of Gate_Paused ''n'' \<lparr> ev_seq = 1, ev_ts = 0, ev_payload = ?p \<rparr>"
    by (simp add: gate_of_def gate_record_def demo_site_def)
  ultimately show ?thesis by blast
qed

theorem budget_pause_holds_witness:
  "\<exists>e msg. gate_of Gate_Paused ''n'' e \<and>
     resume_events (\<lambda>_. []) [demo_set, e] None By_Operator True = Inl (Conflict msg)"
proof -
  obtain e q where e: "decide_at (\<lambda>_. []) (\<lambda>_. None) demo_gate [demo_set] demo_site Need_Unknown no_amount
      = (map ev_payload [e], Pause_With q, demo_gate)" "gate_of Gate_Paused ''n'' e"
    using demo_refused by blast
  then show ?thesis using budget_pause_holds [OF e(1), of "[]" "[]" By_Operator None True] by auto
qed

definition ask_once :: budget_resume where
  "ask_once = \<lparr> br_raise_tokens = None, br_raise_usd = None, br_tokens = None, br_usd = None,
     br_on_no_estimate = None, br_once = True \<rparr>"

lemma demo_waived:
  assumes "gate_of Gate_Paused ''n'' e"
  shows "\<exists>w. resume_events cents [demo_set, e] (Some ask_once) By_Operator True = Inr (map ev_payload [w])
    \<and> gate_of Gate_Waived ''n'' w \<and> holds_waiver [demo_set, e, w] ''n''"
proof -
  obtain g where g: "ev_payload e = Budget_Gate g" "gt_decision g = Gate_Paused" "gt_node g = ''n''"
    using assms by (auto simp: gate_of_def split: event_payload.splits)
  obtain f where f: "fold_budget [demo_set, e] = Some f" "bf_pause_open f"
    "\<exists>p. bf_last_pause f = Some p \<and> gp_node p = ''n''"
    using g by (simp add: fold_budget_def demo_set_def budget_step_def on_budget_set_def new_budget_def
        Let_def is_limited_def on_budget_gate_def)
  then obtain p where p: "bf_last_pause f = Some p" "gp_node p = ''n''" by blast
  let ?w = "\<lparr> ev_seq = 2, ev_ts = 0, ev_payload = waive_at_resume p By_Operator \<rparr>"
  have "foldl budget_step None [demo_set, e] = Some f"
    using f(1) by (auto simp: fold_budget_def split: option.splits if_splits)
  then have "holds_waiver [demo_set, e, ?w] ''n''"
    using p by (simp add: holds_waiver_def budget_step_def waive_at_resume_def on_budget_gate_def)
  moreover have "resume_events cents [demo_set, e] (Some ask_once) By_Operator True = Inr (map ev_payload [?w])"
    using f p by (simp add: resume_events_def Let_def ask_once_def no_change_asked_def changes_budget_def)
  moreover have "gate_of Gate_Waived ''n'' ?w" using p by (simp add: gate_of_def waive_at_resume_def)
  ultimately show ?thesis by blast
qed

theorem admitted_resume_resolves_witness:
  "\<exists>e w. gate_of Gate_Waived ''n'' w \<and>
     Option.bind (fold_budget [demo_set, e, w]) unresolved_pause = None"
proof -
  obtain e q where e: "gate_of Gate_Paused ''n'' e" using demo_refused by blast
  obtain w where w: "resume_events (\<lambda>_. []) [demo_set, e] (Some ask_once) By_Operator True
      = Inr (map ev_payload [w])" "gate_of Gate_Waived ''n'' w" using demo_waived [OF e] by blast
  then show ?thesis using admitted_resume_resolves [OF w(1)] by auto
qed

theorem waivers_are_single_use_witness:
  "\<exists>e w. gate_of Gate_Waived ''n'' w \<and>
     gate_count Gate_Admitted_Waived ''n'' [demo_set, e, w] \<le> gate_count Gate_Waived ''n'' [demo_set, e, w]"
proof -
  obtain e q where e: "decide_at (\<lambda>_. []) (\<lambda>_. None) demo_gate [demo_set] demo_site Need_Unknown no_amount
      = (map ev_payload [e], Pause_With q, demo_gate)" "gate_of Gate_Paused ''n'' e"
    using demo_refused by blast
  obtain w where w: "resume_events (\<lambda>_. []) [demo_set, e] (Some ask_once) By_Operator True
      = Inr (map ev_payload [w])" "gate_of Gate_Waived ''n'' w" using demo_waived [OF e(2)] by blast
  have "budget_journal (\<lambda>_. []) (\<lambda>_. None) ([] @ [demo_set])"
    by (rule bj_other [OF bj_start]) (simp add: demo_set_def)
  from bj_gate [OF this, of "[]" demo_gate demo_site Need_Unknown no_amount "[e]" "Pause_With q" demo_gate]
  have "budget_journal (\<lambda>_. []) (\<lambda>_. None) ([demo_set] @ [e])" using e(1) by simp
  from bj_resume [OF this, of "Some ask_once" By_Operator True "[w]"]
  have "budget_journal (\<lambda>_. []) (\<lambda>_. None) [demo_set, e, w]" using w(1) by simp
  then show ?thesis using waivers_are_single_use [of _ _ "[demo_set, e, w]" "''n''"] w(2) by blast
qed

end
