(* ===== verification/Quota.thy ===== *)
theory Quota
  imports Budget
begin

text \<open>
  The pauses the engine takes on its own: the quota pause (\<^verbatim>\<open>apb-engine/src/pause/quota.rs\<close>,
  \<^verbatim>\<open>decide_quota\<close> and the journaling of a failed attempt in
  \<^verbatim>\<open>scheduler/node.rs\<close>), the wake-up probe (\<^verbatim>\<open>pause/probe.rs\<close>) and the billing
  pause (\<^verbatim>\<open>pause/billing.rs\<close>, \<^verbatim>\<open>apb-core/src/billing.rs\<close>).  A
  \<^verbatim>\<open>Duration\<close> is its nanoseconds.  The classification of a probe's failure, its
  \<^verbatim>\<open>Retry-After\<close>, the redaction of its message and the event lock are arguments.
\<close>

section \<open>Schedule\<close>

definition QUOTA_PAUSE_CAP :: u32 where "QUOTA_PAUSE_CAP = 6"

definition DEFAULT_QUOTA_BACKOFF_MS :: "u64 list" where
  "DEFAULT_QUOTA_BACKOFF_MS = [15 * 60000, 30 * 60000, 60 * 60000]"

definition as_millis :: "nat \<Rightarrow> nat" where "as_millis d = d div 1000000"

definition from_millis :: "u64 \<Rightarrow> nat" where "from_millis ms = unat ms * 1000000"

fun split_on :: "char \<Rightarrow> string \<Rightarrow> string list" where
  "split_on c [] = [[]]"
| "split_on c (x # xs) =
     (if x = c then [] # split_on c xs
      else case split_on c xs of [] \<Rightarrow> [[x]] | y # ys \<Rightarrow> (x # y) # ys)"

definition backoff_list :: "string \<Rightarrow> u64 list option" where
  "backoff_list raw =
     (let parsed = map (\<lambda>part. parse_unsigned (2 ^ 64) (trim part)) (split_on (CHR '','') raw) in
      if list_all (\<lambda>p. p \<noteq> None) parsed then Some (map (\<lambda>p. of_nat (the p)) parsed) else None)"

definition quota_schedule :: "string option \<Rightarrow> nat list" where
  "quota_schedule env =
     map from_millis
       (case Option.bind env backoff_list of Some v \<Rightarrow> v | None \<Rightarrow> DEFAULT_QUOTA_BACKOFF_MS)"

definition quota_backoff :: "nat list \<Rightarrow> u32 \<Rightarrow> nat" where
  "quota_backoff schedule n =
     (if unat n < length schedule then schedule ! unat n
      else if schedule \<noteq> [] then last schedule else 0)"

definition quota_until :: "nat list \<Rightarrow> nat option \<Rightarrow> u32 \<Rightarrow> nat \<Rightarrow> u64" where
  "quota_until schedule retry_after prior now =
     (let wait = (case retry_after of Some d \<Rightarrow> d | None \<Rightarrow> quota_backoff schedule prior) in
      saturating_add (clamp_u64 now) (clamp_u64 (as_millis wait)))"

section \<open>What a quota failure does next\<close>

datatype quota_step = Step_Fallback | Step_Infra_Retry nat | Step_Pause

definition next_step :: "bool \<Rightarrow> nat option \<Rightarrow> nat option \<Rightarrow> quota_step" where
  "next_step fallback_left retry_after next_backoff =
     (if fallback_left then Step_Fallback
      else case next_backoff of
        Some b \<Rightarrow>
          (if (case retry_after of None \<Rightarrow> True | Some r \<Rightarrow> r \<le> b) then Step_Infra_Retry b else Step_Pause)
      | None \<Rightarrow> Step_Pause)"

definition QUOTA_PROBE_ACTION :: string where "QUOTA_PROBE_ACTION = ''quota_probe''"

definition PROBE_PASSED :: string where "PROBE_PASSED = ''passed''"

definition PROBE_QUOTA :: string where "PROBE_QUOTA = ''quota''"

definition PROBE_ERROR :: string where "PROBE_ERROR = ''error''"

definition quota_count_step :: "string \<Rightarrow> u32 \<Rightarrow> event \<Rightarrow> u32" where
  "quota_count_step n k e =
     (case ev_payload e of
        Attempt_Finished a \<Rightarrow>
          (if af_node a = n then
             (if af_status a = ''succeeded'' then 0
              else if af_status a = ''interrupted'' \<and> af_failure_kind a = Some ''quota'' then k + 1
              else k)
           else k)
      | Supervisor_Action action (Some m) detail \<Rightarrow>
          (if m = n \<and> action = QUOTA_PROBE_ACTION \<and> prefix PROBE_QUOTA detail then k + 1 else k)
      | _ \<Rightarrow> k)"

definition quota_pauses :: "event list \<Rightarrow> string \<Rightarrow> u32" where
  "quota_pauses es n = foldl (quota_count_step n) 0 es"

definition quota_mark :: "event \<Rightarrow> string option" where
  "quota_mark e =
     (case ev_payload e of
        Attempt_Finished a \<Rightarrow>
          (if af_status a = ''interrupted'' \<and> af_failure_kind a = Some ''quota'' then Some (af_node a)
           else None)
      | Supervisor_Action action (Some m) detail \<Rightarrow>
          (if action = QUOTA_PROBE_ACTION \<and> prefix PROBE_QUOTA detail then Some m else None)
      | _ \<Rightarrow> None)"

definition quota_node :: "event list \<Rightarrow> string option" where
  "quota_node es = Option.bind (find (\<lambda>e. quota_mark e \<noteq> None) (rev es)) quota_mark"

datatype quota_decision =
    Decide_Fallback | Decide_Infra_Retry | Decide_Pause u64 | Decide_Exhausted u32

definition decide_quota ::
  "nat list \<Rightarrow> event list \<Rightarrow> string \<Rightarrow> bool \<Rightarrow> nat option \<Rightarrow> nat option \<Rightarrow> nat \<Rightarrow> quota_decision" where
  "decide_quota schedule es n fallback_left retry_after next_backoff now =
     (case next_step fallback_left retry_after next_backoff of
        Step_Fallback \<Rightarrow> Decide_Fallback
      | Step_Infra_Retry _ \<Rightarrow> Decide_Infra_Retry
      | Step_Pause \<Rightarrow>
          (let prior = quota_pauses es n in
           if QUOTA_PAUSE_CAP \<le> prior then Decide_Exhausted prior
           else Decide_Pause (quota_until schedule retry_after prior now)))"

text \<open>
  The record of an attempt that failed on quota: the one a pause ends, and every one of a node
  that requires a verdict, is \<^verbatim>\<open>interrupted\<close>; the others carry the ordinary status.
\<close>

definition quota_attempt_status :: "bool \<Rightarrow> quota_decision \<Rightarrow> string \<Rightarrow> string" where
  "quota_attempt_status require_verdict d attempt_status =
     (if (case d of Decide_Pause _ \<Rightarrow> True | _ \<Rightarrow> False) \<or> require_verdict
      then node_status_str Interrupted else attempt_status)"

definition exhausted_output :: "string \<Rightarrow> string \<Rightarrow> u32 \<Rightarrow> string \<Rightarrow> string" where
  "exhausted_output agent model pauses detail =
     ''quota exhausted: `'' @ agent @ ''/'' @ model @ ''` was still out of quota after '' @
     show_nat (unat pauses) @ '' quota pauses without a successful attempt; last error: '' @ trim detail"

section \<open>The wake-up probe\<close>

datatype probe_run = Probe_Unavailable string | Probe_Answered | Probe_Failed string

datatype wake_probe =
    Wake_Not_Quota | Wake_Skipped string | Wake_Passed | Wake_Repaused nat u64 | Wake_Superseded

definition quota_executor :: "event list \<Rightarrow> nat \<Rightarrow> (string \<times> string) option" where
  "quota_executor es seq =
     (case List.map_filter (\<lambda>e. case ev_payload e of
          Run_Paused r \<Rightarrow>
            (if rp_by r = Some By_Engine \<and> ev_seq e = seq then parse_quota_reason (rp_reason r) else None)
        | _ \<Rightarrow> None) (rev es) of
        [] \<Rightarrow> None | x # _ \<Rightarrow> Some x)"

text \<open>
  \<open>refused\<close> is what the checks before a probe found (the run gate, the launch policy, environment
  drift), \<open>lock_error\<close> a lock that stayed busy; \<open>es'\<close> is the journal under the lock and
  \<open>paused_seq\<close> the sequence number it gives the new pause.
\<close>

definition probe_before_wake ::
  "nat list \<Rightarrow> string option \<Rightarrow> (string \<Rightarrow> string \<Rightarrow> string \<Rightarrow> probe_run) \<Rightarrow> (string \<Rightarrow> bool)
    \<Rightarrow> (string \<Rightarrow> nat option) \<Rightarrow> (string \<Rightarrow> string) \<Rightarrow> string option \<Rightarrow> string \<Rightarrow> event list \<Rightarrow> event list
    \<Rightarrow> nat \<Rightarrow> nat \<Rightarrow> nat \<Rightarrow> string + wake_probe \<times> event_payload list" where
  "probe_before_wake schedule refused probe is_quota retry_after message lock_error run_id es es' seq
      paused_seq now =
     (if \<not> is_safe_segment run_id then Inl (''run `'' @ run_id @ ''`'')
      else if \<not> pause_holds es seq then Inr (Wake_Superseded, [])
      else case quota_executor es seq of
        None \<Rightarrow> Inr (Wake_Not_Quota, [])
      | Some (agent, model) \<Rightarrow>
          (case quota_node es of
             None \<Rightarrow> Inr (Wake_Skipped ''no quota-paused node'', [])
           | Some n \<Rightarrow>
               (let prior = quota_pauses es n;
                    name = ''`'' @ agent @ ''/'' @ model @ ''`'';
                    record = (\<lambda>detail. Supervisor_Action QUOTA_PROBE_ACTION (Some n) detail);
                    journal = (\<lambda>out evs.
                      case lock_error of
                        Some e \<Rightarrow> Inl e
                      | None \<Rightarrow> (if pause_holds es' seq then Inr (out, evs) else Inr (Wake_Superseded, [])))
                in if QUOTA_PAUSE_CAP \<le> prior then
                     Inr (Wake_Skipped (''node `'' @ n @ ''` had '' @ show_nat (unat prior) @
                       '' quota pauses already''), [])
                   else case refused of
                     Some e \<Rightarrow> Inl e
                   | None \<Rightarrow>
                       (case probe n agent model of
                          Probe_Unavailable why \<Rightarrow> Inr (Wake_Skipped why, [])
                        | Probe_Answered \<Rightarrow>
                            journal Wake_Passed [record (PROBE_PASSED @ '': '' @ name @ '' answered'')]
                        | Probe_Failed msg \<Rightarrow>
                            (if is_quota msg then
                               (let until = quota_until schedule (retry_after msg) prior now in
                                journal (Wake_Repaused paused_seq until)
                                  [record (PROBE_QUOTA @ '': '' @ name @ '' is still out of quota: '' @
                                     message msg),
                                   pause_event (quota_pause agent model until)])
                             else journal Wake_Passed
                               [record (PROBE_ERROR @ '': '' @ name @ '' failed: '' @ message msg)])))))"

section \<open>The billing pause\<close>

record billing_entry =
  be_agent :: string
  be_basis :: cost_basis

definition billing_label :: "billing_entry \<Rightarrow> string" where
  "billing_label e = be_agent e @ '': '' @ cost_basis_key (be_basis e)"

record billing_record =
  br_allowed :: "cost_basis list"
  br_confirmed :: "billing_entry list"
  br_confirmation :: "string option"

definition covers :: "billing_record \<Rightarrow> string \<Rightarrow> cost_basis \<Rightarrow> bool" where
  "covers r agent basis =
     (basis = Subscription_Equivalent \<or> basis \<in> set (br_allowed r) \<or>
      list_ex (\<lambda>e. be_agent e = agent \<and> be_basis e = basis) (br_confirmed r))"

definition billing_reason :: "billing_entry \<Rightarrow> string" where
  "billing_reason e = BILLING_PREFIX @ billing_label e @ '')''"

definition billing_pause :: "billing_entry \<Rightarrow> pause_request" where
  "billing_pause e =
     \<lparr> pq_reason = Some (billing_reason e), pq_by = Some By_Engine, pq_mode = Drain, pq_until = None,
       pq_keep_lock = False \<rparr>"

definition held_entry :: "event list \<Rightarrow> (billing_entry \<times> nat) option" where
  "held_entry es =
     (case find (\<lambda>e. case ev_payload e of Run_Paused _ \<Rightarrow> True | Run_Resumed _ \<Rightarrow> True | _ \<Rightarrow> False) (rev es) of
        None \<Rightarrow> None
      | Some e \<Rightarrow>
          (case ev_payload e of
             Run_Paused r \<Rightarrow>
               (if rp_by r = Some By_Engine then
                  Option.bind (parse_billing_reason (rp_reason r)) (\<lambda>(agent, basis).
                    map_option (\<lambda>b. (\<lparr> be_agent = agent, be_basis = b \<rparr>, ev_seq e))
                      (find (\<lambda>b. cost_basis_key b = basis)
                        [Billed, Subscription_Equivalent, Basis_Not_Known]))
                else None)
           | _ \<Rightarrow> None))"

text \<open>
  \<open>settings_hold\<close> says whether the settings in force hold work of a basis back, for a run whose
  launch record has no billing record.
\<close>

definition spawn_hold ::
  "bool \<Rightarrow> billing_record option \<Rightarrow> (cost_basis \<Rightarrow> bool) \<Rightarrow> string \<Rightarrow> cost_basis \<Rightarrow> pause_request option" where
  "spawn_hold scenario launch settings_hold agent basis =
     (if scenario then None
      else if (case launch of Some r \<Rightarrow> covers r agent basis | None \<Rightarrow> \<not> settings_hold basis) then None
      else Some (billing_pause \<lparr> be_agent = agent, be_basis = basis \<rparr>))"

section \<open>The engine's reasons read back\<close>

lemma split_label:
  "CHR '':'' \<notin> set agent \<Longrightarrow> split_once_str '': '' (agent @ '': '' @ basis) = Some (agent, basis)"
  by (induction agent) auto

lemma cost_basis_key_inject: "cost_basis_key a = cost_basis_key b \<Longrightarrow> a = b"
  by (cases a; cases b) (simp_all add: cost_basis_key_def)

lemma parse_billing_own:
  assumes "be_agent e \<noteq> []" "CHR '':'' \<notin> set (be_agent e)"
  shows "parse_billing_reason (billing_reason e) = Some (be_agent e, cost_basis_key (be_basis e))"
proof -
  have "cost_basis_key (be_basis e) \<noteq> []" by (cases "be_basis e") (simp_all add: cost_basis_key_def)
  moreover have "reason_inner BILLING_PREFIX (billing_reason e) = Some (billing_label e)"
    unfolding billing_reason_def by (rule reason_inner_own)
  ultimately show ?thesis
    using assms split_label [of "be_agent e" "cost_basis_key (be_basis e)"]
    by (simp add: parse_billing_reason_def billing_label_def)
qed

lemma reason_inner_prefix: "reason_inner pre r \<noteq> None \<Longrightarrow> prefix pre r"
  by (auto simp: reason_inner_def strip_prefix_def split: if_splits)

lemma not_quota:
  "\<not> prefix QUOTA_PREFIX r \<Longrightarrow> parse_quota_reason r = None"
  using reason_inner_prefix [of QUOTA_PREFIX r]
  by (cases "reason_inner QUOTA_PREFIX r") (auto simp: parse_quota_reason_def)

lemma prefix_heads:
  "prefix p (q @ x) \<Longrightarrow> p \<noteq> [] \<Longrightarrow> q \<noteq> [] \<Longrightarrow> hd p = hd q"
  by (cases p; cases q) auto

text \<open>
  Why the engine paused a run is read back from the reason it wrote: a quota pause names its
  agent and model, a budget pause reads as the budget's whatever the gate decided, a billing pause
  names its agent and basis, and the same reasons written by anybody else have no cause.
\<close>

theorem engine_reasons_read_back:
  assumes "agent \<noteq> []" "CHR ''/'' \<notin> set agent"
    and "be_agent entry \<noteq> []" "CHR '':'' \<notin> set (be_agent entry)"
  shows "parse_quota_reason (quota_reason agent model) = Some (agent, model) \<and>
    cause_of (quota_reason agent model) By_Engine = Some Cause_Quota \<and>
    cause_of (budget_reason cents n basis need left) By_Engine = Some Cause_Budget \<and>
    parse_billing_reason (billing_reason entry) = Some (be_agent entry, cost_basis_key (be_basis entry)) \<and>
    cause_of (billing_reason entry) By_Engine = Some Cause_Billing \<and>
    (by_whom = By_Engine \<or> cause_of reason by_whom = None)"
proof -
  have q: "parse_quota_reason (quota_reason agent model) = Some (agent, model)"
    using assms by (intro parse_quota_own)
  obtain inner where b: "budget_reason cents n basis need left = BUDGET_PREFIX @ inner @ '')''"
    unfolding budget_reason_def Let_def by blast
  then have bq: "parse_quota_reason (budget_reason cents n basis need left) = None"
    "is_budget_reason (budget_reason cents n basis need left)"
    by (auto simp: is_budget_reason_def suffix_def QUOTA_PREFIX_def BUDGET_PREFIX_def intro!: not_quota)
  have l: "parse_quota_reason (billing_reason entry) = None" "\<not> is_budget_reason (billing_reason entry)"
    by (auto simp: is_budget_reason_def billing_reason_def QUOTA_PREFIX_def BUDGET_PREFIX_def
        BILLING_PREFIX_def intro!: not_quota)
  show ?thesis using q bq l parse_billing_own [OF assms(3,4)] by (simp add: cause_of_def)
qed

theorem engine_reasons_read_back_witness:
  "parse_quota_reason (quota_reason ''zai'' ''GLM-5.3'') = Some (''zai'', ''GLM-5.3'') \<and>
   cause_of (billing_reason \<lparr> be_agent = ''codex'', be_basis = Billed \<rparr>) By_Engine = Some Cause_Billing"
  using engine_reasons_read_back [of "''zai''" "\<lparr> be_agent = ''codex'', be_basis = Billed \<rparr>" "''GLM-5.3''"]
  by simp

section \<open>How often a node pauses for quota\<close>

text \<open>
  The journals of a node as its quota failures shape them.  An attempt that failed decides on the
  journal as it reads it and is journaled later; the items of a list node fail in parallel threads
  under one node id, so up to \<open>w\<close> failed attempts (and probes) may have decided and not been journaled
  (\<open>ds\<close>).  The numbers carried along are those since the node's last success: \<open>k\<close>, how often the run
  really paused for the node's quota, by an attempt whose decision was to pause or a probe that paused
  the run again; and \<open>r\<close>, its other quota failures journaled as interrupted.
\<close>

definition success_of :: "string \<Rightarrow> event \<Rightarrow> bool" where
  "success_of n e =
     (case ev_payload e of
        Attempt_Finished a \<Rightarrow> af_node a = n \<and> af_status a = ''succeeded'' | _ \<Rightarrow> False)"

definition quota_failed :: "string \<Rightarrow> string \<Rightarrow> event \<Rightarrow> bool" where
  "quota_failed n status e =
     (case ev_payload e of
        Attempt_Finished a \<Rightarrow> af_node a = n \<and> af_status a = status \<and> af_failure_kind a = Some ''quota''
      | _ \<Rightarrow> False)"

datatype deciding = Attempt_Decided quota_decision | Probe_Asked

definition pauses_next :: "deciding \<Rightarrow> bool" where
  "pauses_next x = (case x of Attempt_Decided (Decide_Pause _) \<Rightarrow> True | Attempt_Decided _ \<Rightarrow> False | Probe_Asked \<Rightarrow> True)"

inductive quota_run :: "bool \<Rightarrow> nat \<Rightarrow> string \<Rightarrow> event list \<Rightarrow> deciding list \<Rightarrow> nat \<Rightarrow> nat \<Rightarrow> bool"
  for rv :: bool and w :: nat and n :: string where
  qr_start: "quota_run rv w n [] [] 0 0"
| qr_other: "quota_run rv w n es ds k r \<Longrightarrow> quota_mark e \<noteq> Some n \<Longrightarrow> \<not> success_of n e \<Longrightarrow>
    quota_run rv w n (es @ [e]) ds k r"
| qr_success: "quota_run rv w n es ds k r \<Longrightarrow> success_of n e \<Longrightarrow> quota_run rv w n (es @ [e]) ds 0 0"
| qr_decide: "quota_run rv w n es ds k r \<Longrightarrow> length ds < w \<Longrightarrow>
    decide_quota schedule es n fallback_left retry_after next_backoff now = d \<Longrightarrow>
    quota_run rv w n es (Attempt_Decided d # ds) k r"
| qr_failed: "quota_run rv w n es ds k r \<Longrightarrow> Attempt_Decided d \<in> set ds \<Longrightarrow>
    status = ''failed'' \<or> status = ''timed_out'' \<Longrightarrow>
    quota_failed n (quota_attempt_status rv d status) e \<Longrightarrow>
    quota_run rv w n (es @ [e]) (remove1 (Attempt_Decided d) ds)
      (k + of_bool (pauses_next (Attempt_Decided d))) (r + of_bool (rv \<and> \<not> pauses_next (Attempt_Decided d)))"
| qr_ask: "quota_run rv w n es ds k r \<Longrightarrow> length ds < w \<Longrightarrow> quota_pauses es n < QUOTA_PAUSE_CAP \<Longrightarrow>
    quota_run rv w n es (Probe_Asked # ds) k r"
| qr_probe: "quota_run rv w n es ds k r \<Longrightarrow> Probe_Asked \<in> set ds \<Longrightarrow>
    ev_payload e = Supervisor_Action QUOTA_PROBE_ACTION (Some n) detail \<Longrightarrow> prefix PROBE_QUOTA detail \<Longrightarrow>
    quota_run rv w n (es @ [e]) (remove1 Probe_Asked ds) (Suc k) r"
| qr_lost: "quota_run rv w n es ds k r \<Longrightarrow> x \<in> set ds \<Longrightarrow> quota_run rv w n es (remove1 x ds) k r"

lemma quota_pauses_snoc:
  "quota_pauses (es @ [e]) n =
    (if success_of n e then 0 else if quota_mark e = Some n then quota_pauses es n + 1
     else quota_pauses es n)"
  by (cases "ev_payload e")
    (auto simp: quota_pauses_def quota_count_step_def success_of_def quota_mark_def split: option.splits)

text \<open>What the record of a failed attempt counts as.\<close>

lemma failed_mark:
  assumes "quota_failed n (quota_attempt_status rv d status) e" "status = ''failed'' \<or> status = ''timed_out''"
  shows "\<not> success_of n e" "quota_mark e = Some n \<longleftrightarrow> pauses_next (Attempt_Decided d) \<or> rv"
  using assms
  by (auto simp: quota_failed_def quota_attempt_status_def node_status_str_def success_of_def quota_mark_def
      pauses_next_def split: event_payload.splits quota_decision.splits if_splits)

lemma probe_mark:
  assumes "ev_payload e = Supervisor_Action QUOTA_PROBE_ACTION (Some n) detail" "prefix PROBE_QUOTA detail"
  shows "\<not> success_of n e" "quota_mark e = Some n"
  using assms by (simp_all add: quota_mark_def success_of_def)

lemma quota_run_count: "quota_run rv w n es ds k r \<Longrightarrow> quota_pauses es n = of_nat (k + r) \<and> (\<not> rv \<longrightarrow> r = 0)"
proof (induction rule: quota_run.induct)
  case (qr_failed es ds k r d status e)
  then show ?case using failed_mark [OF qr_failed.hyps(4,3)] by (auto simp: quota_pauses_snoc)
next
  case (qr_probe es ds k r e detail)
  then show ?case using probe_mark [OF qr_probe.hyps(3,4)] by (simp add: quota_pauses_snoc)
next
  case qr_start
  then show ?case by (simp add: quota_pauses_def)
qed (simp_all add: quota_pauses_snoc)

lemma filter_remove1: "x \<in> set xs \<Longrightarrow> length (filter P (remove1 x xs)) + of_bool (P x) = length (filter P xs)"
  by (induction xs) auto

lemma unat_u32_of_nat: "k < 2 ^ 32 \<Longrightarrow> unat (of_nat k :: u32) = k"
  by (simp add: unat_of_nat take_bit_nat_eq_self)

text \<open>A decision to pause was made on a count below the cap; each one in flight may still add to it.\<close>

lemma quota_run_bound:
  assumes "quota_run False w n es ds k r" "5 + w < 2 ^ 32"
  shows "k + length (filter pauses_next ds) \<le> 5 + w \<and> length ds \<le> w"
  using assms
proof (induction rule: quota_run.induct)
  case (qr_decide es ds k r schedule fallback_left retry_after next_backoff now d)
  have c: "quota_pauses es n = of_nat k" using quota_run_count [OF qr_decide.hyps(1)] by auto
  have le: "length (filter pauses_next ds) \<le> length ds" by simp
  show ?case
  proof (cases "pauses_next (Attempt_Decided d)")
    case True
    then have "quota_pauses es n < 6" using qr_decide.hyps(3)
      by (auto simp: pauses_next_def decide_quota_def Let_def QUOTA_PAUSE_CAP_def
          split: quota_step.splits if_splits quota_decision.splits)
    moreover have "k < 2 ^ 32" using qr_decide by simp
    ultimately have "k < 6" unfolding c by (simp add: word_less_nat_alt unat_u32_of_nat)
    then have "k + length (filter pauses_next ds) \<le> 4 + w" using qr_decide.hyps(2) le by linarith
    then show ?thesis using qr_decide.hyps(2) by simp
  qed (use qr_decide in simp)
next
  case (qr_ask es ds k r)
  have c: "quota_pauses es n = of_nat k" using quota_run_count [OF qr_ask.hyps(1)] by auto
  have "k < 2 ^ 32" using qr_ask by simp
  then have "k < 6" using qr_ask.hyps(3) unfolding c QUOTA_PAUSE_CAP_def
    by (simp add: word_less_nat_alt unat_u32_of_nat)
  moreover have "length (filter pauses_next ds) \<le> length ds" by simp
  ultimately have "k + length (filter pauses_next ds) \<le> 4 + w" using qr_ask.hyps(2) by linarith
  then show ?case using qr_ask.hyps(2) by simp
next
  case (qr_failed es ds k r d status e)
  then show ?case using filter_remove1 [OF qr_failed.hyps(2), of pauses_next] by (simp add: length_remove1 le_diff_conv)
next
  case (qr_probe es ds k r e detail)
  have "pauses_next Probe_Asked" by (simp add: pauses_next_def)
  then show ?case using qr_probe filter_remove1 [OF qr_probe.hyps(2), of pauses_next]
    by (simp add: length_remove1 le_diff_conv)
next
  case (qr_lost es ds k r x)
  then show ?case using filter_remove1 [OF qr_lost.hyps(2), of pauses_next] by (simp add: length_remove1 le_diff_conv)
qed simp_all


text \<open>
  C15: a node that requires a verdict runs out of quota pauses early: each of its other quota failures
  (infrastructure retries and fallbacks) is journaled interrupted with the kind quota as well and
  counts as a pause.  Where its failure would pause the run, it is refused as exhausted exactly when
  its pauses and those failures together have reached six since its last success, so with any retry
  among them before the run paused six times.
\<close>

theorem verdict_nodes_exhaust_early:
  assumes "quota_run True w n es ds k r" "k + r < 2 ^ 32"
    and "next_step fallback_left retry_after next_backoff = Step_Pause"
  shows "(\<exists>p. decide_quota schedule es n fallback_left retry_after next_backoff now = Decide_Exhausted p
        \<and> unat p = k + r) \<longleftrightarrow> 6 \<le> k + r"
proof -
  have u: "unat (quota_pauses es n) = k + r"
    using quota_run_count [OF assms(1)] assms(2) by (simp add: unat_u32_of_nat del: of_nat_add)
  have "QUOTA_PAUSE_CAP \<le> quota_pauses es n \<longleftrightarrow> 6 \<le> k + r"
    unfolding word_le_nat_alt u by (simp add: QUOTA_PAUSE_CAP_def)
  then show ?thesis using u by (auto simp: decide_quota_def assms(3) Let_def)
qed

text \<open>A journal of quota failures of node \<open>n\<close> with given statuses.\<close>

definition quota_event :: "string \<Rightarrow> string \<Rightarrow> event" where
  "quota_event n status =
     \<lparr> ev_seq = 0, ev_ts = 0, ev_payload = Attempt_Finished
       \<lparr> af_node = n, af_attempt = 1, af_status = status, af_duration_ms = None, af_session = None,
         af_summary = None, af_rejected_output = None, af_partial_output = None,
         af_failure_kind = Some ''quota'', af_usage = None, af_output_truncated = [],
         af_transcript_incomplete = False, af_rejected_for = None, af_rejection_fingerprint = None,
         af_stalled = False, af_item = None \<rparr> \<rparr>"

lemma quota_event_failed [simp]: "quota_failed n status (quota_event n status)"
  by (simp add: quota_failed_def quota_event_def)

text \<open>One failure, decided and journaled.\<close>

lemma quota_once:
  assumes "quota_run rv 1 n es [] k r"
    and "decide_quota schedule es n False None next_backoff 0 = d"
    and "d = Decide_Infra_Retry \<and> rv \<or> (\<exists>u. d = Decide_Pause u)"
  shows "quota_run rv 1 n (es @ [quota_event n ''interrupted'']) []
    (k + of_bool (pauses_next (Attempt_Decided d))) (r + of_bool (rv \<and> \<not> pauses_next (Attempt_Decided d)))"
proof -
  have "quota_run rv 1 n es [Attempt_Decided d] k r" by (rule qr_decide [OF assms(1) _ assms(2)]) simp
  from qr_failed [OF this, of d "''failed''" "quota_event n ''interrupted''"] show ?thesis
    using assms(3) by (auto simp: quota_attempt_status_def node_status_str_def)
qed


text \<open>Two retries, then a pause, as with a backoff of two steps: the third pause is refused.\<close>

theorem verdict_nodes_exhaust_early_witness:
  "\<exists>es p. quota_run True 1 ''n'' es [] 2 4
     \<and> decide_quota [] es ''n'' False None None 0 = Decide_Exhausted p \<and> unat p = 6"
proof -
  let ?q = "quota_event ''n'' ''interrupted''"
  have retry: "quota_run True 1 ''n'' (es @ [?q]) [] k (Suc r)" if "quota_run True 1 ''n'' es [] k r" for es k r
    using quota_once [OF that, of "[]" "Some 5"]
    by (simp add: decide_quota_def next_step_def pauses_next_def)
  have pause: "quota_run True 1 ''n'' (es @ [?q]) [] (Suc k) r" if q: "quota_run True 1 ''n'' es [] k r" "k + r < 6" for es k r
  proof -
    have "unat (quota_pauses es ''n'') = k + r" using quota_run_count [OF q(1)] q(2) by (simp add: unat_u32_of_nat del: of_nat_add)
    then have "\<not> QUOTA_PAUSE_CAP \<le> quota_pauses es ''n''"
      unfolding word_le_nat_alt using q(2) by (simp add: QUOTA_PAUSE_CAP_def)
    then obtain u where "decide_quota [] es ''n'' False None None 0 = Decide_Pause u"
      by (simp add: decide_quota_def next_step_def Let_def)
    from quota_once [OF q(1) this] show ?thesis by (simp add: pauses_next_def)
  qed
  obtain es where es: "quota_run True 1 ''n'' es [] 1 2"
    using pause [OF retry [OF retry [OF qr_start]]] by (auto simp: numeral_2_eq_2)
  obtain es' where es': "quota_run True 1 ''n'' es' [] 2 4"
    using pause [OF retry [OF retry [OF es]]] by (auto simp: eval_nat_numeral)
  have "next_step False None None = Step_Pause" by (simp add: next_step_def)
  from verdict_nodes_exhaust_early [OF es' _ this, of "[]" 0] es' show ?thesis by auto
qed

end
