(* ===== verification/Scc.thy ===== *)
theory Scc
  imports Graph_Util
begin

text \<open>
  The strongly connected components of a playbook, the second half of
  \<^verbatim>\<open>apb-core/src/graphutil.rs\<close>: Tarjan's algorithm with an explicit call stack of
  frames (node, next neighbour).  A vector indexed by node number is a function on node numbers
  (\<open>None\<close> for the \<^verbatim>\<open>usize::MAX\<close> of a node without an index); the two stacks have their
  top first.  The search is shown to terminate on every graph and to return exactly the classes of
  mutual reachability.
\<close>

section \<open>Definitions\<close>

definition node_ids :: "playbook \<Rightarrow> string list" where
  "node_ids pb = map n_id (pb_nodes pb)"

definition index_of :: "playbook \<Rightarrow> (string, nat) fmap" where
  "index_of pb = foldl (\<lambda>m (i, s). fmupd s i m) fmempty (enumerate 0 (node_ids pb))"

definition neighbours :: "playbook \<Rightarrow> nat \<Rightarrow> nat list" where
  "neighbours pb v =
     List.map_filter (fmlookup (index_of pb)) (fget (adjacency pb) [] (node_ids pb ! v))"

record tarjan =
  tj_index :: "nat \<Rightarrow> nat option"
  tj_low :: "nat \<Rightarrow> nat"
  tj_on_stack :: "nat \<Rightarrow> bool"
  tj_stack :: "nat list"
  tj_counter :: nat
  tj_out :: "string list list"
  tj_call :: "(nat \<times> nat) list"

definition tarjan_init :: tarjan where
  "tarjan_init = \<lparr> tj_index = (\<lambda>_. None), tj_low = (\<lambda>_. 0), tj_on_stack = (\<lambda>_. False),
     tj_stack = [], tj_counter = 0, tj_out = [], tj_call = [] \<rparr>"

text \<open>The first visit of a frame numbers its node and puts it on the stack.\<close>

definition tarjan_enter :: "nat \<Rightarrow> tarjan \<Rightarrow> tarjan" where
  "tarjan_enter v st = st\<lparr> tj_index := (tj_index st)(v := Some (tj_counter st)),
     tj_low := (tj_low st)(v := tj_counter st), tj_counter := tj_counter st + 1,
     tj_stack := v # tj_stack st, tj_on_stack := (tj_on_stack st)(v := True) \<rparr>"

text \<open>The stack is popped down to \<open>v\<close>; what was popped is the component, in that order.\<close>

fun pop_component ::
  "string list \<Rightarrow> nat \<Rightarrow> nat list \<Rightarrow> (nat \<Rightarrow> bool) \<Rightarrow> string list
    \<Rightarrow> nat list \<times> (nat \<Rightarrow> bool) \<times> string list" where
  "pop_component ids v [] on popped = ([], on, popped)"
| "pop_component ids v (w # s) on popped =
     (if w = v then (s, on(w := False), popped @ [ids ! w])
      else pop_component ids v s (on(w := False)) (popped @ [ids ! w]))"

definition tarjan_close :: "string list \<Rightarrow> nat \<Rightarrow> tarjan \<Rightarrow> tarjan" where
  "tarjan_close ids v st =
     (if Some (tj_low st v) = tj_index st v
      then case pop_component ids v (tj_stack st) (tj_on_stack st) [] of
             (s, on, popped) \<Rightarrow> st\<lparr> tj_stack := s, tj_on_stack := on, tj_out := tj_out st @ [popped] \<rparr>
      else st)"

definition tarjan_return :: "nat \<Rightarrow> (nat \<times> nat) list \<Rightarrow> tarjan \<Rightarrow> tarjan" where
  "tarjan_return v rest st =
     (case rest of
        [] \<Rightarrow> st\<lparr> tj_call := [] \<rparr>
      | (parent, _) # _ \<Rightarrow>
          st\<lparr> tj_call := rest,
              tj_low := (tj_low st)(parent := min (tj_low st parent) (tj_low st v)) \<rparr>)"

text \<open>One neighbour \<open>w\<close> of the top frame \<open>(v, ei)\<close>.\<close>

definition tarjan_visit :: "nat \<Rightarrow> nat \<Rightarrow> (nat \<times> nat) list \<Rightarrow> nat \<Rightarrow> tarjan \<Rightarrow> tarjan" where
  "tarjan_visit v ei rest w st =
     (case tj_index st w of
        None \<Rightarrow> st\<lparr> tj_call := (w, 0) # (v, ei + 1) # rest \<rparr>
      | Some k \<Rightarrow>
          if tj_on_stack st w
          then st\<lparr> tj_call := (v, ei + 1) # rest, tj_low := (tj_low st)(v := min (tj_low st v) k) \<rparr>
          else st\<lparr> tj_call := (v, ei + 1) # rest \<rparr>)"

text \<open>One turn of the loop over the call stack.\<close>

definition tarjan_turn :: "playbook \<Rightarrow> nat \<Rightarrow> nat \<Rightarrow> (nat \<times> nat) list \<Rightarrow> tarjan \<Rightarrow> tarjan" where
  "tarjan_turn pb v ei rest st =
     (let st = (if ei = 0 then tarjan_enter v st else st);
          neigh = neighbours pb v
      in if ei < length neigh then tarjan_visit v ei rest (neigh ! ei) st
         else tarjan_return v rest (tarjan_close (node_ids pb) v st))"

lemma index_of_range: "fmlookup (index_of pb) s = Some i \<Longrightarrow> i < length (node_ids pb) \<and> node_ids pb ! i = s"
proof -
  have "fmlookup (foldl (\<lambda>m (i, s). fmupd s i m) fmempty (enumerate 0 xs)) s = Some i \<Longrightarrow>
      i < length xs \<and> xs ! i = s" for xs :: "string list"
    by (induction xs arbitrary: i rule: rev_induct)
      (auto simp: enumerate_append_eq nth_append split: if_splits)
  then show "fmlookup (index_of pb) s = Some i \<Longrightarrow> i < length (node_ids pb) \<and> node_ids pb ! i = s"
    by (simp add: index_of_def)
qed

lemma set_map_filter: "set (List.map_filter f xs) = {y. \<exists>x\<in>set xs. f x = Some y}"
  by (induction xs) (auto split: option.splits)

lemma neighbours_range: "w \<in> set (neighbours pb v) \<Longrightarrow> w < length (node_ids pb)"
  by (auto simp: neighbours_def set_map_filter dest: index_of_range)

text \<open>
  The loop ends: a turn numbers a node or pushes one that has no number, or else it moves a frame
  on or pops it.  The top frame that has not been entered counts as numbered already.
\<close>

definition unnumbered :: "playbook \<Rightarrow> tarjan \<Rightarrow> nat set" where
  "unnumbered pb st = {w. w < length (node_ids pb) \<and> tj_index st w = None
     \<and> \<not> (case tj_call st of (v, ei) # _ \<Rightarrow> ei = 0 \<and> w = v | [] \<Rightarrow> False)}"

definition call_work :: "playbook \<Rightarrow> tarjan \<Rightarrow> nat" where
  "call_work pb st = sum_list (map (\<lambda>(v, ei). Suc (length (neighbours pb v) - ei)) (tj_call st))"

lemma unnumbered_finite [simp]: "finite (unnumbered pb st)"
  by (simp add: unnumbered_def)

lemma tarjan_visit_measure:
  assumes call: "tj_call st = (v, ei) # rest" and e: "0 < ei \<or> tj_index st v \<noteq> None"
    and w: "w < length (node_ids pb)" and ei: "ei < length (neighbours pb v)"
  shows "card (unnumbered pb (tarjan_visit v ei rest w st)) < card (unnumbered pb st)
    \<or> card (unnumbered pb (tarjan_visit v ei rest w st)) = card (unnumbered pb st)
      \<and> call_work pb (tarjan_visit v ei rest w st) < call_work pb st"
proof (cases "tj_index st w")
  case None
  have "unnumbered pb (tarjan_visit v ei rest w st) = unnumbered pb st - {w}"
    using call e None by (auto simp: unnumbered_def tarjan_visit_def)
  moreover have "w \<in> unnumbered pb st"
    using call e None w by (auto simp: unnumbered_def)
  ultimately have "card (unnumbered pb (tarjan_visit v ei rest w st)) < card (unnumbered pb st)"
    using card_Diff1_less [OF unnumbered_finite] by metis
  then show ?thesis ..
next
  case (Some k)
  then have "unnumbered pb (tarjan_visit v ei rest w st) = unnumbered pb st"
    using call e by (auto simp: unnumbered_def tarjan_visit_def)
  moreover have "call_work pb (tarjan_visit v ei rest w st) < call_work pb st"
    using call ei Some by (auto simp: call_work_def tarjan_visit_def)
  ultimately show ?thesis by simp
qed

lemma tarjan_return_measure:
  assumes call: "tj_call st = (v, ei) # rest" and e: "0 < ei \<or> tj_index st v \<noteq> None"
  shows "card (unnumbered pb (tarjan_return v rest st)) < card (unnumbered pb st)
    \<or> card (unnumbered pb (tarjan_return v rest st)) = card (unnumbered pb st)
      \<and> call_work pb (tarjan_return v rest st) < call_work pb st"
proof -
  have "unnumbered pb (tarjan_return v rest st) \<subseteq> unnumbered pb st"
    using call e by (auto simp: unnumbered_def tarjan_return_def split: list.splits)
  then have "card (unnumbered pb (tarjan_return v rest st)) \<le> card (unnumbered pb st)"
    by (simp add: card_mono)
  moreover have "call_work pb (tarjan_return v rest st) < call_work pb st"
    using call by (auto simp: call_work_def tarjan_return_def split: list.splits)
  ultimately show ?thesis by auto
qed

lemma tarjan_close_same [simp]:
  "tj_call (tarjan_close ids v st) = tj_call st" "tj_index (tarjan_close ids v st) = tj_index st"
  "tj_low (tarjan_close ids v st) = tj_low st" "tj_counter (tarjan_close ids v st) = tj_counter st"
  by (simp_all add: tarjan_close_def split: prod.splits)

lemma measure_same_shape:
  assumes "tj_call st' = tj_call st" "tj_index st' = tj_index st"
  shows "unnumbered pb st' = unnumbered pb st" "call_work pb st' = call_work pb st"
  using assms by (simp_all add: unnumbered_def call_work_def)

lemma tarjan_enter_measure:
  assumes "tj_call st = (v, 0) # rest"
  shows "unnumbered pb (tarjan_enter v st) = unnumbered pb st"
    and "call_work pb (tarjan_enter v st) = call_work pb st"
  using assms by (auto simp: unnumbered_def call_work_def tarjan_enter_def)

lemma tarjan_turn_measure:
  assumes call: "tj_call st = (v, ei) # rest"
  shows "card (unnumbered pb (tarjan_turn pb v ei rest st)) < card (unnumbered pb st)
    \<or> card (unnumbered pb (tarjan_turn pb v ei rest st)) = card (unnumbered pb st)
      \<and> call_work pb (tarjan_turn pb v ei rest st) < call_work pb st"
proof -
  define s where "s = (if ei = 0 then tarjan_enter v st else st)"
  have same: "unnumbered pb s = unnumbered pb st" "call_work pb s = call_work pb st"
    using tarjan_enter_measure call by (auto simp: s_def)
  have s: "tj_call s = (v, ei) # rest" "0 < ei \<or> tj_index s v \<noteq> None"
    using call by (auto simp: s_def tarjan_enter_def)
  show ?thesis
  proof (cases "ei < length (neighbours pb v)")
    case True
    then have "neighbours pb v ! ei < length (node_ids pb)" by (intro neighbours_range [of _ pb v] nth_mem)
    then show ?thesis
      using tarjan_visit_measure [OF s _ True] True same by (simp add: tarjan_turn_def Let_def s_def)
  next
    case False
    let ?c = "tarjan_close (node_ids pb) v s"
    have "unnumbered pb ?c = unnumbered pb st" "call_work pb ?c = call_work pb st"
      using measure_same_shape [of ?c s] same by simp_all
    then show ?thesis
      using tarjan_return_measure [of ?c v ei rest pb] s False
      by (simp add: tarjan_turn_def Let_def s_def)
  qed
qed

function tarjan_run :: "playbook \<Rightarrow> tarjan \<Rightarrow> tarjan" where
  "tarjan_run pb st =
     (case tj_call st of [] \<Rightarrow> st | (v, ei) # rest \<Rightarrow> tarjan_run pb (tarjan_turn pb v ei rest st))"
  by pat_completeness auto
termination
  by (relation "measures [\<lambda>(pb, st). card (unnumbered pb st), \<lambda>(pb, st). call_work pb st]")
    (auto dest: tarjan_turn_measure)

declare tarjan_run.simps [simp del]

definition tarjan_root :: "playbook \<Rightarrow> tarjan \<Rightarrow> nat \<Rightarrow> tarjan" where
  "tarjan_root pb st root =
     (if tj_index st root \<noteq> None then st else tarjan_run pb (st\<lparr> tj_call := [(root, 0)] \<rparr>))"

definition sccs :: "playbook \<Rightarrow> string list list" where
  "sccs pb = tj_out (foldl (tarjan_root pb) tarjan_init [0..<length (pb_nodes pb)])"

section \<open>The invariant of the search\<close>

definition arcs :: "playbook \<Rightarrow> (nat \<times> nat) set" where
  "arcs pb = {(v, w). v < length (node_ids pb) \<and> w \<in> set (neighbours pb v)}"

abbreviation numb :: "tarjan \<Rightarrow> nat \<Rightarrow> nat" where
  "numb st u \<equiv> the (tj_index st u)"

text \<open>
  \<open>fs\<close> are the frames that have been entered.  A node in a frame has handled the neighbours
  before the frame's position, any other node on the stack all of them.
\<close>

definition handled :: "playbook \<Rightarrow> (nat \<times> nat) list \<Rightarrow> nat \<Rightarrow> nat set" where
  "handled pb fs u =
     (case map_of fs u of Some e \<Rightarrow> set (take e (neighbours pb u)) | None \<Rightarrow> set (neighbours pb u))"

definition closed_nodes :: "tarjan \<Rightarrow> nat set" where
  "closed_nodes st = {u. tj_index st u \<noteq> None \<and> u \<notin> set (tj_stack st)}"

definition stack_inv :: "playbook \<Rightarrow> tarjan \<Rightarrow> bool" where
  "stack_inv pb st \<longleftrightarrow>
     (\<forall>u. tj_on_stack st u = (u \<in> set (tj_stack st)))
     \<and> sorted_wrt (\<lambda>a b. numb st b < numb st a) (tj_stack st)
     \<and> (\<forall>u\<in>set (tj_stack st). tj_index st u \<noteq> None)
     \<and> (\<forall>u k. tj_index st u = Some k \<longrightarrow> u < length (node_ids pb) \<and> k < tj_counter st)"

definition frames_inv :: "(nat \<times> nat) list \<Rightarrow> tarjan \<Rightarrow> bool" where
  "frames_inv fs st \<longleftrightarrow>
     fst ` set fs \<subseteq> set (tj_stack st)
     \<and> sorted_wrt (\<lambda>a b. numb st (fst b) < numb st (fst a)) fs"

definition closed_inv :: "playbook \<Rightarrow> tarjan \<Rightarrow> bool" where
  "closed_inv pb st \<longleftrightarrow> (\<forall>u\<in>closed_nodes st. set (neighbours pb u) \<subseteq> closed_nodes st)"

definition handled_inv :: "playbook \<Rightarrow> (nat \<times> nat) list \<Rightarrow> nat set \<Rightarrow> tarjan \<Rightarrow> bool" where
  "handled_inv pb fs X st \<longleftrightarrow>
     (\<forall>u\<in>set (tj_stack st). \<forall>w\<in>handled pb fs u. tj_index st w \<noteq> None \<or> w \<in> X)"

definition reach_inv :: "playbook \<Rightarrow> (nat \<times> nat) list \<Rightarrow> tarjan \<Rightarrow> bool" where
  "reach_inv pb fs st \<longleftrightarrow>
     (\<forall>g\<in>fst ` set fs. \<forall>y\<in>set (tj_stack st). numb st g \<le> numb st y \<longrightarrow> (g, y) \<in> (arcs pb)\<^sup>*)
     \<and> (\<forall>x\<in>set (tj_stack st). \<exists>g\<in>fst ` set fs. numb st g \<le> numb st x \<and> (x, g) \<in> (arcs pb)\<^sup>*)"

definition low_sound :: "playbook \<Rightarrow> (nat \<times> nat) list \<Rightarrow> tarjan \<Rightarrow> bool" where
  "low_sound pb fs st \<longleftrightarrow>
     (\<forall>g\<in>fst ` set fs. tj_low st g \<le> numb st g
        \<and> (\<exists>w\<in>set (tj_stack st). numb st w = tj_low st g \<and> (g, w) \<in> (arcs pb)\<^sup>*))"

definition low_complete :: "playbook \<Rightarrow> (nat \<times> nat) list \<Rightarrow> tarjan \<Rightarrow> bool" where
  "low_complete pb fs st \<longleftrightarrow>
     (\<forall>u\<in>set (tj_stack st). \<forall>w\<in>handled pb fs u \<inter> set (tj_stack st). \<forall>g\<in>fst ` set fs.
        numb st w < numb st g \<and> numb st g \<le> numb st u \<longrightarrow>
        (\<exists>h\<in>fst ` set fs. numb st g \<le> numb st h \<and> numb st h \<le> numb st u \<and> tj_low st h \<le> numb st w))"

definition is_scc :: "playbook \<Rightarrow> nat set \<Rightarrow> bool" where
  "is_scc pb C \<longleftrightarrow> C \<noteq> {} \<and> (\<forall>a\<in>C. C = {b. (a, b) \<in> (arcs pb)\<^sup>* \<and> (b, a) \<in> (arcs pb)\<^sup>*})"

definition out_inv :: "playbook \<Rightarrow> tarjan \<Rightarrow> bool" where
  "out_inv pb st \<longleftrightarrow>
     (\<exists>cs. tj_out st = map (map ((!) (node_ids pb))) cs \<and> distinct (concat cs)
        \<and> set (concat cs) = closed_nodes st \<and> (\<forall>c\<in>set cs. is_scc pb (set c)))"

definition search_inv :: "playbook \<Rightarrow> (nat \<times> nat) list \<Rightarrow> nat set \<Rightarrow> tarjan \<Rightarrow> bool" where
  "search_inv pb fs X st \<longleftrightarrow>
     stack_inv pb st \<and> frames_inv fs st \<and> closed_inv pb st \<and> handled_inv pb fs X st
     \<and> reach_inv pb fs st \<and> low_sound pb fs st \<and> low_complete pb fs st \<and> out_inv pb st"

lemmas search_inv_defs = search_inv_def stack_inv_def frames_inv_def closed_inv_def
  handled_inv_def reach_inv_def low_sound_def low_complete_def

lemma handled_enter: "handled pb ((w, 0) # fs) u = (if u = w then {} else handled pb fs u)"
  by (simp add: handled_def)

lemma handled_next:
  "e < length (neighbours pb v) \<Longrightarrow> handled pb ((v, Suc e) # fs) u =
     (if u = v then insert (neighbours pb v ! e) (handled pb ((v, e) # fs) u)
      else handled pb ((v, e) # fs) u)"
  by (auto simp: handled_def take_Suc_conv_app_nth)

lemma handled_all:
  "\<not> e < length (neighbours pb v) \<Longrightarrow> v \<notin> fst ` set fs \<Longrightarrow>
     handled pb ((v, e) # fs) u = handled pb fs u"
  by (auto simp: handled_def map_of_eq_None_iff [THEN iffD2])

lemma sorted_numb_inj:
  "sorted_wrt (\<lambda>a b. (f b :: nat) < f a) xs \<Longrightarrow> a \<in> set xs \<Longrightarrow> b \<in> set xs \<Longrightarrow> f a = f b \<Longrightarrow> a = b"
  by (induction xs) auto

lemma sorted_numb_distinct: "sorted_wrt (\<lambda>a b. (f b :: nat) < f a) xs \<Longrightarrow> distinct xs"
  by (induction xs) auto

lemma stack_numb_inj:
  "stack_inv pb st \<Longrightarrow> a \<in> set (tj_stack st) \<Longrightarrow> b \<in> set (tj_stack st) \<Longrightarrow>
    numb st a = numb st b \<Longrightarrow> a = b"
  by (rule sorted_numb_inj [where f = "numb st"]) (auto simp: stack_inv_def)

lemma top_frame_numb:
  "frames_inv ((v, e) # fs) st \<Longrightarrow> g \<in> fst ` set fs \<Longrightarrow> numb st g < numb st v"
  by (auto simp: frames_inv_def)

section \<open>Entering a node\<close>

lemma enter_simps [simp]:
  "tj_stack (tarjan_enter w st) = w # tj_stack st"
  "tj_index (tarjan_enter w st) = (tj_index st)(w := Some (tj_counter st))"
  "tj_low (tarjan_enter w st) = (tj_low st)(w := tj_counter st)"
  "tj_on_stack (tarjan_enter w st) = (tj_on_stack st)(w := True)"
  "tj_counter (tarjan_enter w st) = tj_counter st + 1"
  "tj_out (tarjan_enter w st) = tj_out st"
  "tj_call (tarjan_enter w st) = tj_call st"
  by (simp_all add: tarjan_enter_def)

lemma stack_numb_counter: "stack_inv pb st \<Longrightarrow> u \<in> set (tj_stack st) \<Longrightarrow> numb st u < tj_counter st"
  unfolding stack_inv_def by (metis option.collapse)

lemma white_off_stack: "stack_inv pb st \<Longrightarrow> tj_index st w = None \<Longrightarrow> w \<notin> set (tj_stack st)"
  by (auto simp: stack_inv_def)

lemma enter_closed_nodes: "tj_index st w = None \<Longrightarrow> closed_nodes (tarjan_enter w st) = closed_nodes st"
  by (auto simp: closed_nodes_def)

lemma enter_stack_inv:
  assumes "stack_inv pb st" "tj_index st w = None" "w < length (node_ids pb)"
  shows "stack_inv pb (tarjan_enter w st)"
proof -
  have off: "w \<notin> set (tj_stack st)" using white_off_stack [OF assms(1,2)] .
  have "sorted_wrt (\<lambda>a b. numb (tarjan_enter w st) b < numb (tarjan_enter w st) a) (tj_stack st)"
    using assms(1) off by (auto simp: stack_inv_def elim!: sorted_wrt_mono_rel [rotated])
  moreover have "\<forall>u\<in>set (tj_stack st). numb st u < tj_counter st"
    using stack_numb_counter [OF assms(1)] by blast
  ultimately show ?thesis
    using assms off by (auto simp: stack_inv_def less_Suc_eq split: if_splits)
qed

lemma enter_frames_inv:
  assumes "stack_inv pb st" "frames_inv fs st" "tj_index st w = None"
  shows "frames_inv ((w, 0) # fs) (tarjan_enter w st)"
proof -
  have off: "w \<notin> set (tj_stack st)" using white_off_stack [OF assms(1,3)] .
  have on: "fst ` set fs \<subseteq> set (tj_stack st)" using assms(2) by (simp add: frames_inv_def)
  have "sorted_wrt (\<lambda>a b. numb (tarjan_enter w st) (fst b) < numb (tarjan_enter w st) (fst a)) fs"
    using assms(2) off on
    by (auto simp: frames_inv_def elim!: sorted_wrt_mono_rel [rotated])
  moreover have "\<forall>f\<in>set fs. fst f \<noteq> w \<and> numb st (fst f) < tj_counter st"
    using on off stack_numb_counter [OF assms(1)] by blast
  ultimately show ?thesis using on by (auto simp: frames_inv_def)
qed

lemma enter_handled_inv:
  "handled_inv pb fs {w} st \<Longrightarrow> handled_inv pb ((w, 0) # fs) {} (tarjan_enter w st)"
  by (auto simp: handled_inv_def handled_enter)

lemma enter_reach_inv:
  assumes "stack_inv pb st" "frames_inv fs st" "reach_inv pb fs st" "tj_index st w = None"
    and edge: "fs \<noteq> [] \<longrightarrow> (fst (hd fs), w) \<in> arcs pb"
  shows "reach_inv pb ((w, 0) # fs) (tarjan_enter w st)"
proof -
  let ?st = "tarjan_enter w st"
  have off: "w \<notin> set (tj_stack st)" using white_off_stack [OF assms(1,4)] .
  have on: "fst ` set fs \<subseteq> set (tj_stack st)" using assms(2) by (simp add: frames_inv_def)
  have lt: "u \<in> set (tj_stack st) \<Longrightarrow> numb ?st u = numb st u \<and> numb st u < tj_counter st" for u
    using off stack_numb_counter [OF assms(1)] by auto
  have new: "(g, w) \<in> (arcs pb)\<^sup>*" if g: "g \<in> fst ` set fs" for g
  proof -
    obtain v e r where fs: "fs = (v, e) # r" using g by (cases fs) auto
    have "g = v \<or> g \<in> fst ` set r" using g fs by auto
    then have "numb st g \<le> numb st v"
      using top_frame_numb [of v e r st g] assms(2) unfolding fs by force
    moreover have "v \<in> set (tj_stack st)" using on fs by auto
    ultimately have "(g, v) \<in> (arcs pb)\<^sup>*" using assms(3) g by (auto simp: reach_inv_def)
    then show ?thesis using edge fs by (auto intro: rtrancl_into_rtrancl)
  qed
  have 1: "(g, y) \<in> (arcs pb)\<^sup>*"
    if "g \<in> fst ` set ((w, 0) # fs)" "y \<in> set (tj_stack ?st)" "numb ?st g \<le> numb ?st y" for g y
  proof (cases "g = w")
    case True
    then have "y = w" using that lt [of y] by (auto split: if_splits)
    then show ?thesis using True by simp
  next
    case False
    then have g: "g \<in> fst ` set fs" using that(1) by auto
    show ?thesis
    proof (cases "y = w")
      case True
      then show ?thesis using new g by simp
    next
      case yw: False
      then have "y \<in> set (tj_stack st)" "numb st g \<le> numb st y"
        using that False by auto
      then show ?thesis using assms(3) g by (auto simp: reach_inv_def)
    qed
  qed
  have 2: "\<exists>g\<in>fst ` set ((w, 0) # fs). numb ?st g \<le> numb ?st x \<and> (x, g) \<in> (arcs pb)\<^sup>*"
    if "x \<in> set (tj_stack ?st)" for x
  proof (cases "x = w")
    case True
    then show ?thesis by auto
  next
    case False
    then have "x \<in> set (tj_stack st)" using that by simp
    then obtain g where g: "g \<in> fst ` set fs" "numb st g \<le> numb st x" "(x, g) \<in> (arcs pb)\<^sup>*"
      using assms(3) unfolding reach_inv_def by blast
    have "g \<noteq> w" using g(1) on off by auto
    then have "numb ?st g \<le> numb ?st x" using g(2) False by simp
    then show ?thesis using g(1,3) by (intro bexI [of _ g]) simp_all
  qed
  show ?thesis using 1 2 unfolding reach_inv_def by blast
qed

lemma enter_low_sound:
  assumes "stack_inv pb st" "frames_inv fs st" "low_sound pb fs st" "tj_index st w = None"
  shows "low_sound pb ((w, 0) # fs) (tarjan_enter w st)"
  unfolding low_sound_def
proof
  fix g assume g: "g \<in> fst ` set ((w, 0) # fs)"
  have off: "w \<notin> set (tj_stack st)" using white_off_stack [OF assms(1,4)] .
  show "tj_low (tarjan_enter w st) g \<le> numb (tarjan_enter w st) g \<and>
     (\<exists>x\<in>set (tj_stack (tarjan_enter w st)). numb (tarjan_enter w st) x = tj_low (tarjan_enter w st) g
        \<and> (g, x) \<in> (arcs pb)\<^sup>*)"
  proof (cases "g = w")
    case True
    then show ?thesis by auto
  next
    case False
    then have "g \<in> fst ` set fs" using g by auto
    then obtain x where "x \<in> set (tj_stack st)" "numb st x = tj_low st g" "(g, x) \<in> (arcs pb)\<^sup>*"
      "tj_low st g \<le> numb st g" using assms(3) unfolding low_sound_def by blast
    moreover from this have "x \<noteq> w" using off by auto
    ultimately show ?thesis using False by auto
  qed
qed

lemma enter_low_complete:
  assumes "stack_inv pb st" "frames_inv fs st" "low_complete pb fs st" "tj_index st w = None"
  shows "low_complete pb ((w, 0) # fs) (tarjan_enter w st)"
  unfolding low_complete_def
proof (intro ballI impI)
  let ?st = "tarjan_enter w st"
  fix u x g
  assume u: "u \<in> set (tj_stack ?st)" and x: "x \<in> handled pb ((w, 0) # fs) u \<inter> set (tj_stack ?st)"
    and g: "g \<in> fst ` set ((w, 0) # fs)" and n: "numb ?st x < numb ?st g \<and> numb ?st g \<le> numb ?st u"
  have off: "w \<notin> set (tj_stack st)" using white_off_stack [OF assms(1,4)] .
  have on: "fst ` set fs \<subseteq> set (tj_stack st)" using assms(2) by (simp add: frames_inv_def)
  have uw: "u \<noteq> w" using x by (auto simp: handled_enter)
  then have ustk: "u \<in> set (tj_stack st)" using u by simp
  have "numb st u < tj_counter st" using stack_numb_counter [OF assms(1) ustk] .
  then have gw: "g \<noteq> w" "x \<noteq> w" using n uw by auto
  then have "x \<in> handled pb fs u \<inter> set (tj_stack st)" "g \<in> fst ` set fs"
    "numb st x < numb st g \<and> numb st g \<le> numb st u"
    using x g n uw by (auto simp: handled_enter)
  then obtain h where h: "h \<in> fst ` set fs" "numb st g \<le> numb st h" "numb st h \<le> numb st u"
    "tj_low st h \<le> numb st x" using assms(3) ustk unfolding low_complete_def by blast
  have "h \<noteq> w" using h(1) on off by auto
  then show "\<exists>h\<in>fst ` set ((w, 0) # fs). numb ?st g \<le> numb ?st h \<and> numb ?st h \<le> numb ?st u
      \<and> tj_low ?st h \<le> numb ?st x"
    using h gw uw by (intro bexI [of _ h]) auto
qed

lemma enter_search_inv:
  assumes "search_inv pb fs {w} st" "tj_index st w = None" "w < length (node_ids pb)"
    "fs \<noteq> [] \<longrightarrow> (fst (hd fs), w) \<in> arcs pb"
  shows "search_inv pb ((w, 0) # fs) {} (tarjan_enter w st)"
  using assms enter_frames_inv [of pb st fs w]
  by (simp add: search_inv_def enter_stack_inv enter_handled_inv enter_reach_inv
      enter_low_sound enter_low_complete closed_inv_def out_inv_def enter_closed_nodes)

section \<open>Looking at a neighbour\<close>

text \<open>The parts of the invariant that do not read the low links, the counter or the call stack.\<close>

lemma search_inv_low_call:
  "search_inv pb fs X (st\<lparr> tj_call := c \<rparr>) = search_inv pb fs X st"
  by (simp add: search_inv_defs out_inv_def closed_nodes_def)

lemma next_frames_inv: "frames_inv ((v, e) # r) st \<Longrightarrow> frames_inv ((v, e') # r) st"
  by (simp add: frames_inv_def)

lemma next_reach_inv: "reach_inv pb ((v, e) # r) st \<Longrightarrow> reach_inv pb ((v, e') # r) st"
  by (simp add: reach_inv_def)

lemma next_low_sound: "low_sound pb ((v, e) # r) st \<Longrightarrow> low_sound pb ((v, e') # r) st"
  by (simp add: low_sound_def)

lemma next_low_complete:
  assumes "low_complete pb ((v, e) # r) st" "e < length (neighbours pb v)"
    and "neighbours pb v ! e \<notin> set (tj_stack st)"
  shows "low_complete pb ((v, Suc e) # r) st"
  using assms by (auto simp: low_complete_def handled_next split: if_splits)

text \<open>A neighbour without a number is entered next, one already closed changes nothing.\<close>

lemma next_search_inv:
  assumes inv: "search_inv pb ((v, e) # r) {} st" and e: "e < length (neighbours pb v)"
    and off: "neighbours pb v ! e \<notin> set (tj_stack st)"
    and X: "tj_index st (neighbours pb v ! e) \<noteq> None \<or> neighbours pb v ! e \<in> X"
  shows "search_inv pb ((v, Suc e) # r) X st"
proof -
  have "handled_inv pb ((v, Suc e) # r) X st"
    using inv X by (fastforce simp: search_inv_def handled_inv_def handled_next [OF e])
  then show ?thesis
    using inv next_low_complete [OF _ e off] next_frames_inv next_reach_inv next_low_sound
    unfolding search_inv_def by blast
qed

lemma lowered_low_complete:
  assumes sinv: "stack_inv pb st" and finv: "frames_inv ((v, e) # r) st"
    and low: "low_complete pb ((v, e) # r) st"
    and e: "e < length (neighbours pb v)" and w: "neighbours pb v ! e = w"
  shows "low_complete pb ((v, Suc e) # r)
    (st\<lparr> tj_low := (tj_low st)(v := min (tj_low st v) (numb st w)) \<rparr>)"
  unfolding low_complete_def
proof (intro ballI impI)
  let ?st = "st\<lparr> tj_low := (tj_low st)(v := min (tj_low st v) (numb st w)) \<rparr>"
  fix u x g
  assume u: "u \<in> set (tj_stack ?st)"
    and x: "x \<in> handled pb ((v, Suc e) # r) u \<inter> set (tj_stack ?st)"
    and g: "g \<in> fst ` set ((v, Suc e) # r)" and n: "numb ?st x < numb ?st g \<and> numb ?st g \<le> numb ?st u"
  show "\<exists>h\<in>fst ` set ((v, Suc e) # r). numb ?st g \<le> numb ?st h \<and> numb ?st h \<le> numb ?st u
      \<and> tj_low ?st h \<le> numb ?st x"
  proof (cases "x \<in> handled pb ((v, e) # r) u")
    case True
    then have "u \<in> set (tj_stack st)" "x \<in> handled pb ((v, e) # r) u \<inter> set (tj_stack st)"
      "g \<in> fst ` set ((v, e) # r)" "numb st x < numb st g \<and> numb st g \<le> numb st u"
      using u x g n by simp_all
    then obtain h where h: "h \<in> fst ` set ((v, e) # r)" "numb st g \<le> numb st h"
      "numb st h \<le> numb st u" "tj_low st h \<le> numb st x"
      using low unfolding low_complete_def by blast
    from h(4) have "tj_low ?st h \<le> numb ?st x" by (auto simp: min_le_iff_disj)
    then show ?thesis using h by (intro bexI [of _ h]) simp_all
  next
    case False
    then have ux: "u = v" "x = w" using x w by (auto simp: handled_next [OF e] split: if_splits)
    then show ?thesis using n by (intro bexI [of _ v]) auto
  qed
qed

lemma lowered_low_sound:
  assumes low: "low_sound pb ((v, e) # r) st" and w: "w \<in> set (tj_stack st)" and arc: "(v, w) \<in> arcs pb"
  shows "low_sound pb ((v, e') # r) (st\<lparr> tj_low := (tj_low st)(v := min (tj_low st v) (numb st w)) \<rparr>)"
  using assms unfolding low_sound_def by (auto simp: min_def)

lemma lowered_search_inv:
  assumes inv: "search_inv pb ((v, e) # r) {} st" and e: "e < length (neighbours pb v)"
    and w: "neighbours pb v ! e = w" "w \<in> set (tj_stack st)" and arc: "(v, w) \<in> arcs pb"
  shows "search_inv pb ((v, Suc e) # r) {}
    (st\<lparr> tj_low := (tj_low st)(v := min (tj_low st v) (numb st w)) \<rparr>)"
proof -
  have "tj_index st w \<noteq> None" using inv w by (auto simp: search_inv_def stack_inv_def)
  then have "handled_inv pb ((v, Suc e) # r) {}
      (st\<lparr> tj_low := (tj_low st)(v := min (tj_low st v) (numb st w)) \<rparr>)"
    using inv w by (fastforce simp: search_inv_def handled_inv_def handled_next [OF e])
  moreover have "low_complete pb ((v, Suc e) # r)
      (st\<lparr> tj_low := (tj_low st)(v := min (tj_low st v) (numb st w)) \<rparr>)"
    using lowered_low_complete [OF _ _ _ e w(1)] inv by (simp add: search_inv_def)
  moreover have "low_sound pb ((v, Suc e) # r)
      (st\<lparr> tj_low := (tj_low st)(v := min (tj_low st v) (numb st w)) \<rparr>)"
    using lowered_low_sound [OF _ w(2) arc, of e r "Suc e"] inv by (simp add: search_inv_def)
  ultimately show ?thesis
    using inv
    by (simp add: search_inv_def stack_inv_def frames_inv_def closed_inv_def closed_nodes_def
        reach_inv_def out_inv_def)
qed

section \<open>Leaving a node\<close>

lemma handled_leave:
  assumes "frames_inv ((v, e) # r) st" "\<not> e < length (neighbours pb v)"
  shows "handled pb ((v, e) # r) u = handled pb r u"
proof (rule handled_all [OF assms(2)])
  show "v \<notin> fst ` set r" using top_frame_numb [OF assms(1)] by blast
qed

text \<open>A node whose low link lies below it hands that link to its parent.\<close>

lemma inner_has_lower:
  assumes inv: "search_inv pb ((v, e) # r) {} st" and low: "tj_low st v \<noteq> numb st v"
  obtains w g where "w \<in> set (tj_stack st)" "numb st w = tj_low st v" "(v, w) \<in> (arcs pb)\<^sup>*"
    "g \<in> fst ` set r" "numb st g \<le> numb st w" "(w, g) \<in> (arcs pb)\<^sup>*" "numb st w < numb st v"
proof -
  obtain w where w: "w \<in> set (tj_stack st)" "numb st w = tj_low st v" "(v, w) \<in> (arcs pb)\<^sup>*"
    "tj_low st v \<le> numb st v" using inv unfolding search_inv_def low_sound_def by force
  obtain g where g: "g \<in> fst ` set ((v, e) # r)" "numb st g \<le> numb st w" "(w, g) \<in> (arcs pb)\<^sup>*"
    using inv w(1) unfolding search_inv_def reach_inv_def by blast
  have "numb st w < numb st v" using w low by simp
  moreover from this have "g \<in> fst ` set r" using g by auto
  ultimately show ?thesis using that w g by blast
qed

lemma parent_highest:
  assumes "frames_inv ((v, e) # (p, e') # r) st" "g \<in> fst ` set ((p, e') # r)"
  shows "numb st g \<le> numb st p" "numb st p < numb st v"
  using assms by (auto simp: frames_inv_def)

lemma inner_reach_inv:
  assumes inv: "search_inv pb ((v, e) # r) {} st" and low: "tj_low st v \<noteq> numb st v"
  shows "reach_inv pb r st"
  unfolding reach_inv_def
proof (intro conjI ballI impI)
  fix g y
  assume "g \<in> fst ` set r" "y \<in> set (tj_stack st)" "numb st g \<le> numb st y"
  moreover from this have "g \<in> fst ` set ((v, e) # r)" by simp
  ultimately show "(g, y) \<in> (arcs pb)\<^sup>*"
    using inv unfolding search_inv_def reach_inv_def by blast
next
  fix x assume "x \<in> set (tj_stack st)"
  then obtain g where g: "g \<in> fst ` set ((v, e) # r)" "numb st g \<le> numb st x" "(x, g) \<in> (arcs pb)\<^sup>*"
    using inv unfolding search_inv_def reach_inv_def by blast
  show "\<exists>g\<in>fst ` set r. numb st g \<le> numb st x \<and> (x, g) \<in> (arcs pb)\<^sup>*"
  proof (cases "g = v")
    case True
    obtain w h where "(v, w) \<in> (arcs pb)\<^sup>*" "h \<in> fst ` set r" "numb st h \<le> numb st w"
      "(w, h) \<in> (arcs pb)\<^sup>*" "numb st w < numb st v" using inner_has_lower [OF inv low] by metis
    then show ?thesis using g True by (intro bexI [of _ h]) auto
  next
    case False
    then show ?thesis using g by auto
  qed
qed

lemma inner_low_sound:
  assumes inv: "search_inv pb ((v, e) # (p, e') # r) {} st" and low: "tj_low st v \<noteq> numb st v"
  shows "low_sound pb ((p, e') # r) (st\<lparr> tj_low := (tj_low st)(p := min (tj_low st p) (tj_low st v)) \<rparr>)"
proof -
  obtain w where w: "w \<in> set (tj_stack st)" "numb st w = tj_low st v" "(v, w) \<in> (arcs pb)\<^sup>*"
    using inner_has_lower [OF inv low] by metis
  have "numb st p < numb st v" "v \<in> set (tj_stack st)"
    using inv by (auto simp: search_inv_def frames_inv_def)
  then have "(p, v) \<in> (arcs pb)\<^sup>*" using inv unfolding search_inv_def reach_inv_def by simp
  then have "(p, w) \<in> (arcs pb)\<^sup>*" using w(3) by simp
  moreover have "low_sound pb ((v, e) # (p, e') # r) st" using inv by (simp add: search_inv_def)
  ultimately show ?thesis using w unfolding low_sound_def by (auto simp: min_def)
qed

lemma inner_low_complete:
  assumes inv: "search_inv pb ((v, e) # (p, e') # r) {} st" and e: "\<not> e < length (neighbours pb v)"
  shows "low_complete pb ((p, e') # r)
    (st\<lparr> tj_low := (tj_low st)(p := min (tj_low st p) (tj_low st v)) \<rparr>)"
  unfolding low_complete_def
proof (intro ballI impI)
  let ?st = "st\<lparr> tj_low := (tj_low st)(p := min (tj_low st p) (tj_low st v)) \<rparr>"
  fix u x g
  assume u: "u \<in> set (tj_stack ?st)" and x: "x \<in> handled pb ((p, e') # r) u \<inter> set (tj_stack ?st)"
    and g: "g \<in> fst ` set ((p, e') # r)" and n: "numb ?st x < numb ?st g \<and> numb ?st g \<le> numb ?st u"
  have finv: "frames_inv ((v, e) # (p, e') # r) st" using inv by (simp add: search_inv_def)
  have "x \<in> handled pb ((v, e) # (p, e') # r) u \<inter> set (tj_stack st)"
    using x handled_leave [OF finv e] by simp
  moreover have "u \<in> set (tj_stack st)" "g \<in> fst ` set ((v, e) # (p, e') # r)"
    "numb st x < numb st g \<and> numb st g \<le> numb st u" using u g n by simp_all
  ultimately obtain h where h: "h \<in> fst ` set ((v, e) # (p, e') # r)" "numb st g \<le> numb st h"
    "numb st h \<le> numb st u" "tj_low st h \<le> numb st x"
    using inv unfolding search_inv_def low_complete_def by blast
  have gp: "numb st g \<le> numb st p" "numb st p < numb st v" using parent_highest [OF finv g] by auto
  show "\<exists>h\<in>fst ` set ((p, e') # r). numb ?st g \<le> numb ?st h \<and> numb ?st h \<le> numb ?st u
      \<and> tj_low ?st h \<le> numb ?st x"
  proof (cases "h = v")
    case True
    then show ?thesis using h gp by (intro bexI [of _ p]) (simp_all add: min_le_iff_disj)
  next
    case False
    have "tj_low ?st h \<le> numb ?st x" using h(4) by (auto simp: min_le_iff_disj)
    moreover have "h \<in> fst ` set ((p, e') # r)" using h(1) False by auto
    ultimately show ?thesis using h by (intro bexI [of _ h]) simp_all
  qed
qed

lemma inner_search_inv:
  assumes inv: "search_inv pb ((v, e) # (p, e') # r) {} st" and low: "tj_low st v \<noteq> numb st v"
    and e: "\<not> e < length (neighbours pb v)"
  shows "search_inv pb ((p, e') # r) {}
    (st\<lparr> tj_low := (tj_low st)(p := min (tj_low st p) (tj_low st v)) \<rparr>)"
proof -
  have finv: "frames_inv ((v, e) # (p, e') # r) st" using inv by (simp add: search_inv_def)
  have "handled_inv pb ((p, e') # r) {} st"
    using inv handled_leave [OF finv e] by (simp add: search_inv_def handled_inv_def)
  then show ?thesis
    using inv inner_reach_inv [OF inv low] inner_low_sound [OF inv low] inner_low_complete [OF inv e]
    by (simp add: search_inv_def stack_inv_def frames_inv_def closed_inv_def closed_nodes_def
        reach_inv_def handled_inv_def out_inv_def)
qed

section \<open>Popping a component\<close>

lemma pop_component_split:
  "v \<notin> set seg \<Longrightarrow> pop_component ids v (seg @ v # rest) on acc =
     (rest, \<lambda>u. on u \<and> u \<notin> set (seg @ [v]), acc @ map ((!) ids) (seg @ [v]))"
  by (induction seg arbitrary: on acc) (auto simp: fun_eq_iff)

text \<open>The stack from its top down to \<open>v\<close>, and the rest, when \<open>v\<close> is the top frame.\<close>

lemma stack_split:
  assumes inv: "search_inv pb ((v, e) # r) {} st"
  obtains seg rest where "tj_stack st = seg @ v # rest" "v \<notin> set seg"
    "\<forall>u\<in>set (seg @ [v]). numb st v \<le> numb st u" "\<forall>u\<in>set rest. numb st u < numb st v"
proof -
  have "v \<in> set (tj_stack st)" using inv by (simp add: search_inv_def frames_inv_def)
  then obtain seg rest where s: "tj_stack st = seg @ v # rest" by (auto simp: in_set_conv_decomp)
  have "sorted_wrt (\<lambda>a b. numb st b < numb st a) (seg @ v # rest)"
    using inv s by (simp add: search_inv_def stack_inv_def)
  then have "\<forall>u\<in>set seg. numb st v < numb st u" "\<forall>u\<in>set rest. numb st u < numb st v"
    by (auto simp: sorted_wrt_append)
  then show ?thesis using that [OF s] by force
qed

lemma root_targets:
  assumes inv: "search_inv pb ((v, e) # r) {} st" and low: "tj_low st v = numb st v"
    and e: "\<not> e < length (neighbours pb v)"
    and u: "u \<in> set (tj_stack st)" "numb st v \<le> numb st u" and w: "w \<in> set (neighbours pb u)"
  shows "w \<in> closed_nodes st \<or> w \<in> set (tj_stack st) \<and> numb st v \<le> numb st w"
proof -
  have finv: "frames_inv ((v, e) # r) st" using inv by (simp add: search_inv_def)
  have "u \<notin> fst ` set r" using top_frame_numb [OF finv, of u] u(2) by auto
  then have hd: "w \<in> handled pb ((v, e) # r) u"
    using w handled_leave [OF finv e] by (simp add: handled_def map_of_eq_None_iff [THEN iffD2])
  then have "tj_index st w \<noteq> None" using inv u(1) unfolding search_inv_def handled_inv_def by blast
  moreover have "numb st v \<le> numb st w" if on: "w \<in> set (tj_stack st)"
  proof (rule ccontr)
    assume "\<not> numb st v \<le> numb st w"
    then have n: "numb st w < numb st v \<and> numb st v \<le> numb st u" using u(2) by simp
    have "low_complete pb ((v, e) # r) st" using inv by (simp add: search_inv_def)
    moreover have "w \<in> handled pb ((v, e) # r) u \<inter> set (tj_stack st)" using hd on by simp
    moreover have "v \<in> fst ` set ((v, e) # r)" by simp
    ultimately obtain h where h: "h \<in> fst ` set ((v, e) # r)" "numb st v \<le> numb st h"
      "tj_low st h \<le> numb st w" using u(1) n unfolding low_complete_def by blast
    have "h = v" using h(1,2) top_frame_numb [OF finv, of h] by auto
    then show False using h(3) low n by simp
  qed
  ultimately show ?thesis by (auto simp: closed_nodes_def)
qed

lemma root_closed:
  assumes inv: "search_inv pb ((v, e) # r) {} st" and low: "tj_low st v = numb st v"
    and e: "\<not> e < length (neighbours pb v)"
    and C: "C = {u \<in> set (tj_stack st). numb st v \<le> numb st u}"
  shows "\<forall>u\<in>closed_nodes st \<union> C. set (neighbours pb u) \<subseteq> closed_nodes st \<union> C"
proof (intro ballI subsetI)
  fix u w assume u: "u \<in> closed_nodes st \<union> C" and w: "w \<in> set (neighbours pb u)"
  show "w \<in> closed_nodes st \<union> C"
  proof (cases "u \<in> closed_nodes st")
    case True
    moreover have "closed_inv pb st" using inv by (simp add: search_inv_def)
    ultimately have "w \<in> closed_nodes st" using w unfolding closed_inv_def by blast
    then show ?thesis ..
  next
    case False
    then show ?thesis using root_targets [OF inv low e _ _ w] u by (auto simp: C)
  qed
qed

lemma closed_reach:
  assumes "\<forall>u\<in>D. set (neighbours pb u) \<subseteq> D" "(a, b) \<in> (arcs pb)\<^sup>*" "a \<in> D"
  shows "b \<in> D"
  using assms(2,1,3) by (induction rule: rtrancl_induct) (auto simp: arcs_def)

lemma root_is_scc:
  assumes inv: "search_inv pb ((v, e) # r) {} st" and low: "tj_low st v = numb st v"
    and e: "\<not> e < length (neighbours pb v)"
    and C: "C = {u \<in> set (tj_stack st). numb st v \<le> numb st u}"
  shows "is_scc pb C"
proof -
  have finv: "frames_inv ((v, e) # r) st" using inv by (simp add: search_inv_def)
  have v: "v \<in> C" using finv by (simp add: C frames_inv_def)
  note closed = root_closed [OF inv low e C]
  have down: "(v, y) \<in> (arcs pb)\<^sup>*" if "y \<in> C" for y
    using inv that unfolding search_inv_def reach_inv_def C by simp
  have up: "(x, v) \<in> (arcs pb)\<^sup>*" if x: "x \<in> C" for x
  proof -
    obtain g where g: "g \<in> fst ` set ((v, e) # r)" "(x, g) \<in> (arcs pb)\<^sup>*"
      using inv x unfolding search_inv_def reach_inv_def C by blast
    have "g \<in> closed_nodes st \<union> C" using closed_reach [OF closed g(2)] x by simp
    moreover have "g \<in> set (tj_stack st)" using g(1) finv unfolding frames_inv_def by auto
    ultimately have "numb st v \<le> numb st g" by (auto simp: C closed_nodes_def)
    then have "g = v" using g(1) top_frame_numb [OF finv, of g] by force
    then show ?thesis using g(2) by simp
  qed
  have inside: "b \<in> C" if a: "a \<in> C" and ab: "(a, b) \<in> (arcs pb)\<^sup>*" and ba: "(b, a) \<in> (arcs pb)\<^sup>*" for a b
  proof (rule ccontr)
    assume "b \<notin> C"
    then have "b \<in> closed_nodes st" using closed_reach [OF closed ab] a by simp
    then have "a \<in> closed_nodes st"
      using closed_reach [OF _ ba] inv by (simp add: search_inv_def closed_inv_def)
    then show False using a by (simp add: C closed_nodes_def)
  qed
  have "C = {b. (a, b) \<in> (arcs pb)\<^sup>* \<and> (b, a) \<in> (arcs pb)\<^sup>*}" if a: "a \<in> C" for a
  proof (intro equalityI subsetI CollectI)
    fix b assume "b \<in> C"
    then show "(a, b) \<in> (arcs pb)\<^sup>* \<and> (b, a) \<in> (arcs pb)\<^sup>*"
      using up down a by (meson rtrancl_trans)
  next
    fix b assume "b \<in> {b. (a, b) \<in> (arcs pb)\<^sup>* \<and> (b, a) \<in> (arcs pb)\<^sup>*}"
    then show "b \<in> C" using inside [OF a] by simp
  qed
  then show ?thesis using v unfolding is_scc_def by blast
qed

text \<open>The state once the component of \<open>v\<close> is off the stack.\<close>

definition popped_state ::
  "tarjan \<Rightarrow> nat list \<Rightarrow> (nat \<Rightarrow> bool) \<Rightarrow> string list \<Rightarrow> tarjan" where
  "popped_state st rest on c = st\<lparr> tj_stack := rest, tj_on_stack := on, tj_out := tj_out st @ [c] \<rparr>"

lemma popped_simps [simp]:
  "tj_stack (popped_state st rest on c) = rest" "tj_on_stack (popped_state st rest on c) = on"
  "tj_out (popped_state st rest on c) = tj_out st @ [c]"
  "tj_index (popped_state st rest on c) = tj_index st"
  "tj_low (popped_state st rest on c) = tj_low st"
  "tj_counter (popped_state st rest on c) = tj_counter st"
  "tj_call (popped_state st rest on c) = tj_call st"
  by (simp_all add: popped_state_def)

lemma root_reach_inv:
  assumes inv: "search_inv pb ((v, e) # r) {} st"
    and split: "tj_stack st = seg @ v # rest" "\<forall>u\<in>set rest. numb st u < numb st v"
  shows "reach_inv pb r (popped_state st rest on c)"
proof -
  have 1: "(g, y) \<in> (arcs pb)\<^sup>*" if "g \<in> fst ` set r" "y \<in> set rest" "numb st g \<le> numb st y" for g y
  proof -
    have "g \<in> fst ` set ((v, e) # r)" "y \<in> set (tj_stack st)" using that split(1) by simp_all
    then show ?thesis using inv that(3) unfolding search_inv_def reach_inv_def by blast
  qed
  have 2: "\<exists>g\<in>fst ` set r. numb st g \<le> numb st x \<and> (x, g) \<in> (arcs pb)\<^sup>*" if x: "x \<in> set rest" for x
  proof -
    have "x \<in> set (tj_stack st)" using x split(1) by simp
    then obtain g where g: "g \<in> fst ` set ((v, e) # r)" "numb st g \<le> numb st x"
      "(x, g) \<in> (arcs pb)\<^sup>*" using inv unfolding search_inv_def reach_inv_def by blast
    have "numb st x < numb st v" using split(2) x by blast
    then have "g \<in> fst ` set r" using g(1,2) by auto
    then show ?thesis using g by blast
  qed
  show ?thesis using 1 2 by (simp add: reach_inv_def)
qed

lemma root_low_sound:
  assumes inv: "search_inv pb ((v, e) # r) {} st"
    and split: "tj_stack st = seg @ v # rest" "\<forall>u\<in>set (seg @ [v]). numb st v \<le> numb st u"
      "\<forall>u\<in>set rest. numb st u < numb st v"
  shows "low_sound pb r (popped_state st rest on c)"
  unfolding low_sound_def popped_simps
proof
  fix g assume g: "g \<in> fst ` set r"
  then have "g \<in> fst ` set ((v, e) # r)" by simp
  then obtain w where w: "w \<in> set (tj_stack st)" "numb st w = tj_low st g" "(g, w) \<in> (arcs pb)\<^sup>*"
    and le: "tj_low st g \<le> numb st g" using inv unfolding search_inv_def low_sound_def by blast
  have "numb st w < numb st v" using w(2) le top_frame_numb [OF _ g, of v e st] inv by (simp add: search_inv_def)
  then have "w \<in> set rest" using w(1) split(1,2) by force
  then show "tj_low st g \<le> numb st g \<and>
    (\<exists>w\<in>set rest. numb st w = tj_low st g \<and> (g, w) \<in> (arcs pb)\<^sup>*)" using w le by blast
qed

lemma root_low_complete:
  assumes inv: "search_inv pb ((v, e) # r) {} st" and e: "\<not> e < length (neighbours pb v)"
    and split: "tj_stack st = seg @ v # rest" "\<forall>u\<in>set rest. numb st u < numb st v"
  shows "low_complete pb r (popped_state st rest on c)"
  unfolding low_complete_def popped_simps
proof (intro ballI impI)
  fix u w g
  have finv: "frames_inv ((v, e) # r) st" using inv by (simp add: search_inv_def)
  assume u: "u \<in> set rest" and w: "w \<in> handled pb r u \<inter> set rest" and g: "g \<in> fst ` set r"
    and n: "numb st w < numb st g \<and> numb st g \<le> numb st u"
  have "u \<in> set (tj_stack st)" "w \<in> handled pb ((v, e) # r) u \<inter> set (tj_stack st)"
    "g \<in> fst ` set ((v, e) # r)" using u w g split(1) handled_leave [OF finv e] by simp_all
  then obtain h where h: "h \<in> fst ` set ((v, e) # r)" "numb st g \<le> numb st h"
    "numb st h \<le> numb st u" "tj_low st h \<le> numb st w"
    using inv n unfolding search_inv_def low_complete_def by blast
  have "numb st u < numb st v" using u split(2) by blast
  then have "h \<in> fst ` set r" using h(1,3) by auto
  then show "\<exists>h\<in>fst ` set r. numb st g \<le> numb st h \<and> numb st h \<le> numb st u \<and> tj_low st h \<le> numb st w"
    using h by blast
qed

lemma root_search_inv:
  assumes inv: "search_inv pb ((v, e) # r) {} st" and low: "tj_low st v = numb st v"
    and e: "\<not> e < length (neighbours pb v)"
    and split: "tj_stack st = seg @ v # rest" "\<forall>u\<in>set (seg @ [v]). numb st v \<le> numb st u"
      "\<forall>u\<in>set rest. numb st u < numb st v"
  shows "search_inv pb r {} (popped_state st rest
    (\<lambda>u. tj_on_stack st u \<and> u \<notin> set (seg @ [v])) (map ((!) (node_ids pb)) (seg @ [v])))"
    (is "search_inv pb r {} ?st")
proof -
  let ?C = "set (seg @ [v])"
  have C: "?C = {u \<in> set (tj_stack st). numb st v \<le> numb st u}" using split by force
  have finv: "frames_inv ((v, e) # r) st" and sinv: "stack_inv pb st"
    using inv by (simp_all add: search_inv_def)
  have gr: "g \<in> set rest" if "g \<in> fst ` set r" for g
    using that top_frame_numb [OF finv that] finv split(1,2) unfolding frames_inv_def by force
  have disj: "?C \<inter> set rest = {}" using split(2,3) by force
  have dist: "distinct (seg @ [v])"
    using sinv split(1) sorted_numb_distinct [of "numb st" "tj_stack st"]
    by (simp add: stack_inv_def)
  have closed: "closed_nodes ?st = closed_nodes st \<union> ?C"
    using disj split(1) sinv by (auto simp: closed_nodes_def stack_inv_def)
  have "stack_inv pb ?st"
    using sinv disj split(1) by (auto simp: stack_inv_def sorted_wrt_append)
  moreover have "frames_inv r ?st" using finv gr by (auto simp: frames_inv_def)
  moreover have "closed_inv pb ?st"
    using root_closed [OF inv low e C] unfolding closed_inv_def closed by blast
  moreover have "handled_inv pb r {} ?st"
    using inv handled_leave [OF finv e] split(1) by (auto simp: search_inv_def handled_inv_def)
  moreover have "reach_inv pb r ?st" using root_reach_inv [OF inv split(1,3)] .
  moreover have "low_sound pb r ?st" using root_low_sound [OF inv split] .
  moreover have "low_complete pb r ?st" using root_low_complete [OF inv e split(1,3)] .
  moreover have "out_inv pb ?st"
  proof -
    obtain cs where cs: "tj_out st = map (map ((!) (node_ids pb))) cs" "distinct (concat cs)"
      "set (concat cs) = closed_nodes st" "\<forall>c\<in>set cs. is_scc pb (set c)"
      using inv unfolding search_inv_def out_inv_def by blast
    have "closed_nodes st \<inter> ?C = {}" using split(1) by (auto simp: closed_nodes_def)
    then have "distinct (concat (cs @ [seg @ [v]]))" "set (concat (cs @ [seg @ [v]])) = closed_nodes ?st"
      using cs(2,3) dist closed by (simp_all add: Int_commute)
    moreover have "\<forall>c\<in>set (cs @ [seg @ [v]]). is_scc pb (set c)"
      using cs(4) root_is_scc [OF inv low e C] by simp
    moreover have "tj_out ?st = map (map ((!) (node_ids pb))) (cs @ [seg @ [v]])" using cs(1) by simp
    ultimately show ?thesis unfolding out_inv_def by blast
  qed
  ultimately show ?thesis by (simp add: search_inv_def)
qed

section \<open>The whole search\<close>

text \<open>
  Between two turns either every frame has been entered, or the top one names a node without a
  number that the frame below it has just come to.
\<close>

definition entered_inv :: "playbook \<Rightarrow> (nat \<times> nat) list \<Rightarrow> tarjan \<Rightarrow> bool" where
  "entered_inv pb fs st \<longleftrightarrow> search_inv pb fs {} st \<and> (\<forall>f\<in>set fs. 0 < snd f)"

definition pending_inv :: "playbook \<Rightarrow> nat \<Rightarrow> (nat \<times> nat) list \<Rightarrow> tarjan \<Rightarrow> bool" where
  "pending_inv pb w fs st \<longleftrightarrow>
     search_inv pb fs {w} st \<and> (\<forall>f\<in>set fs. 0 < snd f) \<and> tj_index st w = None
     \<and> w < length (node_ids pb) \<and> (fs \<noteq> [] \<longrightarrow> (fst (hd fs), w) \<in> arcs pb)"

definition call_inv :: "playbook \<Rightarrow> tarjan \<Rightarrow> bool" where
  "call_inv pb st \<longleftrightarrow>
     entered_inv pb (tj_call st) st
     \<or> (\<exists>w fs. tj_call st = (w, 0) # fs \<and> pending_inv pb w fs st)"

lemma entered_call [simp]: "entered_inv pb fs (st\<lparr> tj_call := c \<rparr>) = entered_inv pb fs st"
  by (simp add: entered_inv_def search_inv_low_call)

lemma entered_call_low [simp]:
  "entered_inv pb fs (st\<lparr> tj_call := c, tj_low := l \<rparr>) = entered_inv pb fs (st\<lparr> tj_low := l \<rparr>)"
  by (simp add: entered_inv_def search_inv_defs out_inv_def closed_nodes_def)

lemma pending_call [simp]: "pending_inv pb w fs (st\<lparr> tj_call := c \<rparr>) = pending_inv pb w fs st"
  by (simp add: pending_inv_def search_inv_low_call)

lemma turn_entered:
  assumes "call_inv pb st" "tj_call st = (v, ei) # rest"
  shows "search_inv pb ((v, ei) # rest) {} (if ei = 0 then tarjan_enter v st else st)
    \<and> (\<forall>f\<in>set rest. 0 < snd f)"
  using assms enter_search_inv [of pb rest v st]
  by (auto simp: call_inv_def entered_inv_def pending_inv_def)

lemma visit_call_inv:
  assumes inv: "search_inv pb ((v, ei) # rest) {} st" and rest: "\<forall>f\<in>set rest. 0 < snd f"
    and ei: "ei < length (neighbours pb v)"
  shows "call_inv pb (tarjan_visit v ei rest (neighbours pb v ! ei) st)"
proof -
  let ?w = "neighbours pb v ! ei"
  have sinv: "stack_inv pb st" and "v \<in> set (tj_stack st)"
    using inv by (simp_all add: search_inv_def frames_inv_def)
  then have "v < length (node_ids pb)" unfolding stack_inv_def by (metis option.exhaust)
  then have arc: "(v, ?w) \<in> arcs pb" using ei by (simp add: arcs_def)
  have wN: "?w < length (node_ids pb)" using ei by (intro neighbours_range [of _ pb v] nth_mem)
  show ?thesis
  proof (cases "tj_index st ?w")
    case None
    then have "search_inv pb ((v, Suc ei) # rest) {?w} st"
      using next_search_inv [OF inv ei] white_off_stack [OF sinv] by simp
    then have "pending_inv pb ?w ((v, Suc ei) # rest) st"
      using None arc wN rest by (simp add: pending_inv_def)
    then show ?thesis using None by (simp add: tarjan_visit_def call_inv_def)
  next
    case (Some k)
    show ?thesis
    proof (cases "tj_on_stack st ?w")
      case True
      then have "search_inv pb ((v, Suc ei) # rest) {}
          (st\<lparr> tj_low := (tj_low st)(v := min (tj_low st v) k) \<rparr>)"
        using lowered_search_inv [OF inv ei refl _ arc] Some sinv by (simp add: stack_inv_def)
      then have "entered_inv pb ((v, Suc ei) # rest)
          (st\<lparr> tj_low := (tj_low st)(v := min (tj_low st v) k) \<rparr>)"
        using rest by (simp add: entered_inv_def)
      then show ?thesis using Some True by (simp add: tarjan_visit_def call_inv_def)
    next
      case False
      then have "search_inv pb ((v, Suc ei) # rest) {} st"
        using next_search_inv [OF inv ei] Some sinv by (simp add: stack_inv_def)
      then have "entered_inv pb ((v, Suc ei) # rest) st" using rest by (simp add: entered_inv_def)
      then show ?thesis using Some False by (simp add: tarjan_visit_def call_inv_def)
    qed
  qed
qed

lemma leave_call_inv:
  assumes inv: "search_inv pb ((v, ei) # rest) {} st" and rest: "\<forall>f\<in>set rest. 0 < snd f"
    and ei: "\<not> ei < length (neighbours pb v)"
  shows "call_inv pb (tarjan_return v rest (tarjan_close (node_ids pb) v st))"
proof -
  have num: "tj_index st v = Some (numb st v)"
    using inv by (auto simp: search_inv_def frames_inv_def stack_inv_def)
  show ?thesis
  proof (cases "tj_low st v = numb st v")
    case True
    obtain seg rs where split: "tj_stack st = seg @ v # rs" "v \<notin> set seg"
      "\<forall>u\<in>set (seg @ [v]). numb st v \<le> numb st u" "\<forall>u\<in>set rs. numb st u < numb st v"
      using stack_split [OF inv] by metis
    define st' where "st' = tarjan_close (node_ids pb) v st"
    have close: "st' = popped_state st rs (\<lambda>u. tj_on_stack st u \<and> u \<notin> set (seg @ [v]))
        (map ((!) (node_ids pb)) (seg @ [v]))"
      using num True by (simp add: st'_def tarjan_close_def popped_state_def split(1)
          pop_component_split [OF split(2)])
    have "search_inv pb rest {} st'"
      unfolding close using root_search_inv [OF inv True ei split(1,3,4)] .
    then have ent: "entered_inv pb rest st'" using rest by (simp add: entered_inv_def)
    have same: "(tj_low st')(p := min (tj_low st' p) (tj_low st' v)) = tj_low st'"
      if "rest = (p, e') # r" for p e' r
    proof -
      have "numb st p < numb st v" using inv that by (simp add: search_inv_def frames_inv_def)
      moreover have "tj_low st p \<le> numb st p" using inv that by (simp add: search_inv_def low_sound_def)
      ultimately show ?thesis using True close by (simp add: fun_eq_iff)
    qed
    have "tarjan_return v rest st' = st'\<lparr> tj_call := rest \<rparr>"
      using same by (auto simp: tarjan_return_def split: list.splits)
    then show ?thesis using ent by (simp add: call_inv_def st'_def)
  next
    case False
    then have "Some (tj_low st v) \<noteq> tj_index st v" by (metis option.sel)
    then have close: "tarjan_close (node_ids pb) v st = st" by (simp add: tarjan_close_def)
    obtain g where "g \<in> fst ` set rest" using inner_has_lower [OF inv False] by metis
    then obtain p e' r where r: "rest = (p, e') # r" by (cases rest) auto
    have "search_inv pb rest {} (st\<lparr> tj_low := (tj_low st)(p := min (tj_low st p) (tj_low st v)) \<rparr>)"
      using inner_search_inv [of pb v ei p e' r st] inv False ei by (simp add: r)
    then have "entered_inv pb rest (st\<lparr> tj_low := (tj_low st)(p := min (tj_low st p) (tj_low st v)) \<rparr>)"
      using rest by (simp add: entered_inv_def)
    then show ?thesis unfolding close by (simp add: tarjan_return_def r call_inv_def)
  qed
qed

lemma turn_call_inv:
  assumes "call_inv pb st" "tj_call st = (v, ei) # rest"
  shows "call_inv pb (tarjan_turn pb v ei rest st)"
  using turn_entered [OF assms] visit_call_inv leave_call_inv
  by (auto simp: tarjan_turn_def Let_def)

text \<open>A node on the call stack has a number when the search returns, and none is lost.\<close>

definition seen_by :: "tarjan \<Rightarrow> nat set" where
  "seen_by st = {u. tj_index st u \<noteq> None} \<union> fst ` set (tj_call st)"

lemma turn_seen:
  assumes "call_inv pb st" "tj_call st = (v, ei) # rest"
  shows "seen_by st \<subseteq> seen_by (tarjan_turn pb v ei rest st)"
proof -
  have "tj_index (if ei = 0 then tarjan_enter v st else st) v \<noteq> None"
    using turn_entered [OF assms] by (auto simp: search_inv_def frames_inv_def stack_inv_def)
  then show ?thesis
    using assms(2)
    by (auto simp: seen_by_def tarjan_turn_def Let_def tarjan_visit_def tarjan_return_def
        split: option.splits list.splits)
qed

lemma run_call_inv:
  "call_inv pb st \<Longrightarrow> search_inv pb [] {} (tarjan_run pb st)
    \<and> seen_by st \<subseteq> {u. tj_index (tarjan_run pb st) u \<noteq> None}"
proof (induction pb st rule: tarjan_run.induct)
  case (1 pb st)
  show ?case
  proof (cases "tj_call st")
    case Nil
    then show ?thesis using 1(2) by (subst (1 2) tarjan_run.simps)
        (auto simp: call_inv_def entered_inv_def seen_by_def)
  next
    case (Cons f rest)
    obtain v ei where f: "f = (v, ei)" by (cases f)
    have call: "tj_call st = (v, ei) # rest" using Cons f by simp
    have "tarjan_run pb st = tarjan_run pb (tarjan_turn pb v ei rest st)"
      by (subst tarjan_run.simps) (simp add: call)
    then show ?thesis
      using 1(1) [OF Cons f [symmetric] turn_call_inv [OF 1(2) call]] turn_seen [OF 1(2) call] by auto
  qed
qed

lemma root_step:
  assumes "search_inv pb [] {} st" "root < length (node_ids pb)"
  shows "search_inv pb [] {} (tarjan_root pb st root)
    \<and> {u. tj_index st u \<noteq> None} \<union> {root} \<subseteq> {u. tj_index (tarjan_root pb st root) u \<noteq> None}"
proof (cases "tj_index st root")
  case None
  have "search_inv pb [] {root} st" using assms(1) by (auto simp: search_inv_def handled_inv_def)
  then have "call_inv pb (st\<lparr> tj_call := [(root, 0)] \<rparr>)"
    using assms(2) None by (simp add: call_inv_def pending_inv_def search_inv_low_call)
  from run_call_inv [OF this] show ?thesis using None by (simp add: tarjan_root_def seen_by_def)
next
  case (Some k)
  then show ?thesis using assms by (auto simp: tarjan_root_def)
qed

lemma init_inv: "search_inv pb [] {} tarjan_init"
  by (simp add: search_inv_defs out_inv_def tarjan_init_def closed_nodes_def)

lemma roots_inv:
  "k \<le> length (node_ids pb) \<Longrightarrow>
    search_inv pb [] {} (foldl (tarjan_root pb) tarjan_init [0..<k])
    \<and> {..<k} \<subseteq> {u. tj_index (foldl (tarjan_root pb) tarjan_init [0..<k]) u \<noteq> None}"
proof (induction k)
  case 0
  then show ?case by (simp add: init_inv)
next
  case (Suc k)
  let ?st = "foldl (tarjan_root pb) tarjan_init [0..<k]"
  from Suc have "search_inv pb [] {} ?st" "k < length (node_ids pb)" by simp_all
  from root_step [OF this] show ?case using Suc by (auto simp: lessThan_Suc)
qed

lemma sccs_indices:
  obtains cs where "sccs pb = map (map ((!) (node_ids pb))) cs" "distinct (concat cs)"
    "set (concat cs) = {..<length (node_ids pb)}" "\<forall>c\<in>set cs. is_scc pb (set c)"
proof -
  let ?st = "foldl (tarjan_root pb) tarjan_init [0..<length (node_ids pb)]"
  have inv: "search_inv pb [] {} ?st" and seen: "{..<length (node_ids pb)} \<subseteq> {u. tj_index ?st u \<noteq> None}"
    using roots_inv [of "length (node_ids pb)" pb] by simp_all
  have "tj_stack ?st = []" using inv by (auto simp: search_inv_def reach_inv_def)
  then have "closed_nodes ?st = {u. tj_index ?st u \<noteq> None}" by (simp add: closed_nodes_def)
  moreover have "{u. tj_index ?st u \<noteq> None} \<subseteq> {..<length (node_ids pb)}"
    using inv by (auto simp: search_inv_def stack_inv_def)
  ultimately have "closed_nodes ?st = {..<length (node_ids pb)}" using seen by auto
  moreover have "sccs pb = tj_out ?st" by (simp add: sccs_def node_ids_def)
  ultimately show ?thesis using inv that unfolding search_inv_def out_inv_def by metis
qed

section \<open>Components over the ids\<close>

text \<open>The edges between declared nodes.\<close>

definition declared_rel :: "playbook \<Rightarrow> (string \<times> string) set" where
  "declared_rel pb = {(a, b) \<in> edge_rel pb. a \<in> set (node_ids pb) \<and> b \<in> set (node_ids pb)}"

lemma index_of_nth:
  assumes "distinct (node_ids pb)" "j < length (node_ids pb)"
  shows "fmlookup (index_of pb) (node_ids pb ! j) = Some j"
proof -
  have "distinct xs \<Longrightarrow> j < length xs \<Longrightarrow>
      fmlookup (foldl (\<lambda>m (i, s). fmupd s i m) fmempty (enumerate 0 xs)) (xs ! j) = Some j"
    for xs :: "string list"
    by (induction xs rule: rev_induct) (auto simp: enumerate_append_eq nth_append less_Suc_eq)
  then show ?thesis using assms by (simp add: index_of_def)
qed

lemma arcs_ids:
  assumes "distinct (node_ids pb)" "i < length (node_ids pb)"
  shows "(i, j) \<in> arcs pb \<longleftrightarrow>
    j < length (node_ids pb) \<and> (node_ids pb ! i, node_ids pb ! j) \<in> declared_rel pb"
proof -
  have "(i, j) \<in> arcs pb \<longleftrightarrow>
      (\<exists>t. (node_ids pb ! i, t) \<in> edge_rel pb \<and> fmlookup (index_of pb) t = Some j)"
    using assms(2) adj_rel_adjacency [of pb]
    by (auto simp: arcs_def neighbours_def set_map_filter adj_rel_def set_eq_iff)
  also have "\<dots> \<longleftrightarrow> j < length (node_ids pb) \<and> (node_ids pb ! i, node_ids pb ! j) \<in> edge_rel pb"
    using index_of_range index_of_nth [OF assms(1)] by metis
  finally show ?thesis using assms(2) by (auto simp: declared_rel_def)
qed

lemma arcs_rtrancl_ids:
  assumes "distinct (node_ids pb)" "i < length (node_ids pb)"
  shows "(node_ids pb ! i, b) \<in> (declared_rel pb)\<^sup>* \<longleftrightarrow>
    (\<exists>j < length (node_ids pb). b = node_ids pb ! j \<and> (i, j) \<in> (arcs pb)\<^sup>*)"
proof
  assume "(node_ids pb ! i, b) \<in> (declared_rel pb)\<^sup>*"
  then show "\<exists>j < length (node_ids pb). b = node_ids pb ! j \<and> (i, j) \<in> (arcs pb)\<^sup>*"
  proof (induction rule: rtrancl_induct)
    case base
    then show ?case using assms(2) by auto
  next
    case (step b c)
    then obtain j where j: "j < length (node_ids pb)" "b = node_ids pb ! j" "(i, j) \<in> (arcs pb)\<^sup>*"
      by blast
    have "c \<in> set (node_ids pb)" using step(2) by (auto simp: declared_rel_def)
    then obtain k where "k < length (node_ids pb)" "c = node_ids pb ! k" by (auto simp: in_set_conv_nth)
    moreover from this have "(j, k) \<in> arcs pb" using j step(2) arcs_ids [OF assms(1) j(1)] by simp
    ultimately show ?case using j(3) by (blast intro: rtrancl_into_rtrancl)
  qed
next
  assume "\<exists>j < length (node_ids pb). b = node_ids pb ! j \<and> (i, j) \<in> (arcs pb)\<^sup>*"
  then obtain j where j: "b = node_ids pb ! j" "(i, j) \<in> (arcs pb)\<^sup>*" by blast
  from j(2) have "j < length (node_ids pb) \<and> (node_ids pb ! i, node_ids pb ! j) \<in> (declared_rel pb)\<^sup>*"
  proof (induction rule: rtrancl_induct)
    case base
    then show ?case using assms(2) by simp
  next
    case (step k l)
    then show ?case using arcs_ids [OF assms(1), of k l] by (auto intro: rtrancl_into_rtrancl)
  qed
  then show "(node_ids pb ! i, b) \<in> (declared_rel pb)\<^sup>*" using j(1) by simp
qed

lemma scc_ids:
  assumes "distinct (node_ids pb)" "set c \<subseteq> {..<length (node_ids pb)}" "is_scc pb (set c)" "i \<in> set c"
  shows "(!) (node_ids pb) ` set c =
    {b. (node_ids pb ! i, b) \<in> (declared_rel pb)\<^sup>* \<and> (b, node_ids pb ! i) \<in> (declared_rel pb)\<^sup>*}"
proof -
  have i: "i < length (node_ids pb)" using assms(2,4) by auto
  have "(node_ids pb ! j, node_ids pb ! k) \<in> (declared_rel pb)\<^sup>* \<longleftrightarrow> (j, k) \<in> (arcs pb)\<^sup>*"
    if "j < length (node_ids pb)" "k < length (node_ids pb)" for j k
    using arcs_rtrancl_ids [OF assms(1) that(1)] that assms(1) nth_eq_iff_index_eq by metis
  moreover have "set c = {j. (i, j) \<in> (arcs pb)\<^sup>* \<and> (j, i) \<in> (arcs pb)\<^sup>*}"
    using assms(3,4) unfolding is_scc_def by blast
  ultimately show ?thesis
    using assms(2) i arcs_rtrancl_ids [OF assms(1) i] by auto
qed

lemma sccs_exact_lib:
  assumes "distinct (node_ids pb)"
  shows "distinct (concat (sccs pb)) \<and> set (concat (sccs pb)) = set (node_ids pb)
    \<and> (\<forall>c\<in>set (sccs pb). c \<noteq> [] \<and> (\<forall>a\<in>set c.
         set c = {b. (a, b) \<in> (declared_rel pb)\<^sup>* \<and> (b, a) \<in> (declared_rel pb)\<^sup>*}))"
proof -
  obtain cs where cs: "sccs pb = map (map ((!) (node_ids pb))) cs" "distinct (concat cs)"
    "set (concat cs) = {..<length (node_ids pb)}" "\<forall>c\<in>set cs. is_scc pb (set c)"
    by (rule sccs_indices)
  have cc: "concat (sccs pb) = map ((!) (node_ids pb)) (concat cs)" by (simp add: cs(1) map_concat)
  have "inj_on ((!) (node_ids pb)) {..<length (node_ids pb)}"
    using assms by (auto simp: inj_on_def nth_eq_iff_index_eq)
  then have "distinct (concat (sccs pb))" unfolding cc distinct_map cs(3) using cs(2) by simp
  moreover have "set (concat (sccs pb)) = set (node_ids pb)"
    unfolding cc set_map cs(3) by (auto simp: set_conv_nth)
  moreover have "c \<noteq> [] \<and> (\<forall>a\<in>set c.
      set c = {b. (a, b) \<in> (declared_rel pb)\<^sup>* \<and> (b, a) \<in> (declared_rel pb)\<^sup>*})"
    if c: "c \<in> set (sccs pb)" for c
  proof -
    obtain d where d: "d \<in> set cs" "c = map ((!) (node_ids pb)) d" using c cs(1) by auto
    have "set d \<subseteq> {..<length (node_ids pb)}" using cs(3) d(1) by auto
    moreover have "is_scc pb (set d)" using cs(4) d(1) by blast
    ultimately show ?thesis using scc_ids [OF assms] d(2) by (auto simp: is_scc_def)
  qed
  ultimately show ?thesis by blast
qed

text \<open>
  C17: the components of a playbook whose node ids are distinct are exactly the classes of mutual
  reachability over the edges between declared nodes: every declared node is in one component and
  in no other, and the component of a node holds the nodes that it reaches and that reach it.  The
  search ends on every graph.
\<close>

theorem sccs_exact:
  assumes "distinct (node_ids pb)"
  shows "distinct (concat (sccs pb)) \<and> set (concat (sccs pb)) = set (node_ids pb)
    \<and> (\<forall>c\<in>set (sccs pb). c \<noteq> [] \<and> (\<forall>a\<in>set c.
         set c = {b. (a, b) \<in> (declared_rel pb)\<^sup>* \<and> (b, a) \<in> (declared_rel pb)\<^sup>*}))"
  by (rule sccs_exact_lib [OF assms])

text \<open>A loop of two nodes behind a start, and a node on its own.\<close>

theorem sccs_exact_witness:
  "\<exists>pb. distinct (node_ids pb) \<and> node_ids pb = [''s'', ''a'', ''b'']
    \<and> set (concat (sccs pb)) = {''s'', ''a'', ''b''}"
proof -
  let ?pb = "plain_playbook [plain_node ''s'' Start, plain_node ''a'' (Prompt []),
      plain_node ''b'' (Prompt [])]
    [plain_edge ''s'' ''a'', plain_edge ''a'' ''b'', plain_edge ''b'' ''a'']"
  have ids: "node_ids ?pb = [''s'', ''a'', ''b'']" by (simp add: node_ids_def)
  have "distinct (node_ids ?pb)" by (simp add: ids)
  with sccs_exact [of ?pb] have "set (concat (sccs ?pb)) = {''s'', ''a'', ''b''}" by (simp add: ids)
  then show ?thesis using ids by (intro exI [of _ ?pb]) simp
qed

end
