(* ===== verification/Validation.thy ===== *)
theory Validation
  imports Edge_Address
begin

text \<open>
  What the validator reports, \<^verbatim>\<open>apb-core/src/validate/mod.rs\<close>: issues with a code, a
  severity, a message, a node and the rendered addresses of the edges they are about.  A rule takes
  the report so far and returns it with its issues added at the end.  An edge the source hands over
  by reference is given by its index in the playbook, which is what the source's identity search
  recovers.
\<close>

section \<open>Issues and reports\<close>

datatype severity = Severity_Error | Severity_Warning

record issue =
  is_code :: string
  is_severity :: severity
  is_message :: string
  is_node :: "string option"
  is_edges :: "string list"

type_synonym report = "issue list"

definition issue_new :: "string \<Rightarrow> severity \<Rightarrow> string option \<Rightarrow> string \<Rightarrow> issue" where
  "issue_new code severity node message = \<lparr> is_code = code, is_severity = severity,
     is_message = message, is_node = node, is_edges = [] \<rparr>"

definition with_edges :: "issue \<Rightarrow> string list \<Rightarrow> issue" where
  "with_edges i edges = i\<lparr> is_edges := edges \<rparr>"

definition is_valid :: "report \<Rightarrow> bool" where
  "is_valid r = (\<not> list_ex (\<lambda>i. is_severity i = Severity_Error) r)"

definition report_error :: "string \<Rightarrow> string option \<Rightarrow> string \<Rightarrow> report \<Rightarrow> report" where
  "report_error code node msg r = r @ [issue_new code Severity_Error node msg]"

definition report_warn :: "string \<Rightarrow> string option \<Rightarrow> string \<Rightarrow> report \<Rightarrow> report" where
  "report_warn code node msg r = r @ [issue_new code Severity_Warning node msg]"

definition rendered_step :: "addressed_edge list \<Rightarrow> string list \<Rightarrow> nat \<Rightarrow> string list" where
  "rendered_step addressed out i =
     (if i < length addressed
      then let a = ae_rendered (addressed ! i) in
           if a \<notin> set out \<and> (case parse_address a of Inr _ \<Rightarrow> True | Inl _ \<Rightarrow> False) then out @ [a] else out
      else out)"

definition rendered_edges :: "playbook \<Rightarrow> nat list \<Rightarrow> string list" where
  "rendered_edges pb edges =
     (let indexes = remdups_adj (sort (filter (\<lambda>i. i < length (pb_edges pb)) edges)) in
      if indexes = [] then [] else foldl (rendered_step (edge_addresses pb)) [] indexes)"

definition report_error_edges ::
  "playbook \<Rightarrow> string \<Rightarrow> string option \<Rightarrow> nat list \<Rightarrow> string \<Rightarrow> report \<Rightarrow> report" where
  "report_error_edges pb code node edges msg r =
     r @ [with_edges (issue_new code Severity_Error node msg) (rendered_edges pb edges)]"

definition report_warn_edges ::
  "playbook \<Rightarrow> string \<Rightarrow> string option \<Rightarrow> nat list \<Rightarrow> string \<Rightarrow> report \<Rightarrow> report" where
  "report_warn_edges pb code node edges msg r =
     r @ [with_edges (issue_new code Severity_Warning node msg) (rendered_edges pb edges)]"

section \<open>The text of a report\<close>

definition severity_word :: "severity \<Rightarrow> string" where
  "severity_word s = (case s of Severity_Error \<Rightarrow> ''error'' | Severity_Warning \<Rightarrow> ''warning'')"

fun join_with :: "string \<Rightarrow> string list \<Rightarrow> string" where
  "join_with sep [] = []"
| "join_with sep [x] = x"
| "join_with sep (x # y # ys) = x @ sep @ join_with sep (y # ys)"

definition ticked :: "string \<Rightarrow> string" where
  "ticked s = ''`'' @ s @ ''`''"

definition edges_segment :: "string list \<Rightarrow> string" where
  "edges_segment edges =
     (if edges = [] then [] else '' (edges '' @ join_with '', '' (map ticked edges) @ '')'')"

definition render_issue :: "issue \<Rightarrow> string" where
  "render_issue i =
     [CHR 0x0A] @ ''- '' @ is_code i @ '' '' @ severity_word (is_severity i)
     @ (case is_node i of Some n \<Rightarrow> '' (node `'' @ n @ ''`)'' | None \<Rightarrow> [])
     @ edges_segment (is_edges i) @ '': '' @ is_message i"

definition render_issues :: "issue list \<Rightarrow> string" where
  "render_issues issues = foldl (\<lambda>out i. out @ render_issue i) ''validation failed:'' issues"

record issue_view =
  iv_code :: string
  iv_severity :: string
  iv_message :: string
  iv_node :: "string option"
  iv_edges :: "string list"

definition issue_view_of :: "issue \<Rightarrow> issue_view" where
  "issue_view_of i = \<lparr> iv_code = is_code i, iv_severity = severity_word (is_severity i),
     iv_message = is_message i, iv_node = is_node i, iv_edges = is_edges i \<rparr>"

section \<open>What a rule adds\<close>

text \<open>
  A rule is a function on reports; the ones of the validator only add issues.  \<open>flags code node r\<close>:
  the report has an issue of this code at this node.
\<close>

definition flags :: "string \<Rightarrow> string option \<Rightarrow> report \<Rightarrow> bool" where
  "flags code node r = list_ex (\<lambda>i. is_code i = code \<and> is_node i = node) r"

lemma is_valid_simps [simp]:
  "is_valid []"
  "is_valid (report_error c n m r) = False"
  "is_valid (report_error_edges pb c n es m r) = False"
  "is_valid (report_warn c n m r) = is_valid r"
  "is_valid (report_warn_edges pb c n es m r) = is_valid r"
  by (simp_all add: is_valid_def report_error_def report_error_edges_def report_warn_def
      report_warn_edges_def issue_new_def with_edges_def)

lemma flags_simps [simp]:
  "\<not> flags code node []"
  "flags code node (report_error c n m r) = (flags code node r \<or> c = code \<and> n = node)"
  "flags code node (report_error_edges pb c n es m r) = (flags code node r \<or> c = code \<and> n = node)"
  "flags code node (report_warn c n m r) = (flags code node r \<or> c = code \<and> n = node)"
  "flags code node (report_warn_edges pb c n es m r) = (flags code node r \<or> c = code \<and> n = node)"
  by (auto simp: flags_def report_error_def report_error_edges_def report_warn_def
      report_warn_edges_def issue_new_def with_edges_def)

text \<open>A pass over a list whose turns each add what their own element calls for.\<close>

lemma foldl_flags:
  assumes "\<And>x r. flags code node (f r x) = (flags code node r \<or> P x)"
  shows "flags code node (foldl f r xs) = (flags code node r \<or> list_ex P xs)"
  by (induction xs arbitrary: r) (auto simp: assms)

lemma foldl_valid:
  assumes "\<And>x r. is_valid (f r x) = (is_valid r \<and> P x)"
  shows "is_valid (foldl f r xs) = (is_valid r \<and> list_all P xs)"
  by (induction xs arbitrary: r) (auto simp: assms)

end
