(* ===== verification/Validate_Graph.thy ===== *)
theory Validate_Graph
  imports Validation Scc Join_Kind
begin

text \<open>
  The structural rules of the validator, \<^verbatim>\<open>apb-core/src/validate/graph.rs\<close>: identity,
  entry and exit points, edge targets, reachability, conditions, cycles, joins and the first-match
  routing keys.  The source iterates two hash maps in \<open>check_duplicate_route_edges\<close>; the order of
  such an iteration is unspecified, so the two orders are parameters (\<open>route_env\<close>), and so is the
  text of a double.  The lemmas say when each rule is silent, and the theorems what that guarantees
  of the graph: which nodes a valid playbook reaches and which of its cycles end.
\<close>

section \<open>Identity, entry and exit\<close>

definition check_unique_ids :: "playbook \<Rightarrow> report \<Rightarrow> report" where
  "check_unique_ids pb r =
     (let (seen, r) =
        foldl (\<lambda>(seen, r) n.
            if n_id n |\<in>| seen
            then (seen, report_error ''V01'' (Some (n_id n)) (''duplicate node id `'' @ n_id n @ ''`'') r)
            else (finsert (n_id n) seen, r)) (fempty, r) (pb_nodes pb);
          (pseen, r) =
        foldl (\<lambda>(seen, r) p.
            if pa_name p |\<in>| seen
            then (seen, report_error ''V02'' None (''duplicate param name `'' @ pa_name p @ ''`'') r)
            else (finsert (pa_name p) seen, r)) (fempty, r) (pb_params pb)
      in r)"

definition is_finish :: "node \<Rightarrow> bool" where
  "is_finish n = (case n_kind n of Finish _ \<Rightarrow> True | _ \<Rightarrow> False)"

definition check_end_edge :: "playbook \<Rightarrow> report \<Rightarrow> edge \<Rightarrow> report" where
  "check_end_edge pb r e =
     (let r = (case pb_node pb (e_to e) of
                 Some to \<Rightarrow>
                   if is_start to
                   then report_error ''V04'' (Some (e_to e)) ''start node must not have incoming edges'' r
                   else r
               | None \<Rightarrow> r)
      in case pb_node pb (e_from e) of
           Some from \<Rightarrow>
             if is_finish from
             then report_error ''V05'' (Some (e_from e)) ''finish node must not have outgoing edges'' r
             else r
         | None \<Rightarrow> r)"

definition check_start_finish :: "playbook \<Rightarrow> report \<Rightarrow> report" where
  "check_start_finish pb r =
     (let starts = filter is_start (pb_nodes pb);
          r = (if length starts \<noteq> 1
               then report_error ''V03'' None
                      (''expected exactly one start node, found '' @ show_nat (length starts)) r
               else r)
      in foldl (check_end_edge pb) r (pb_edges pb))"

definition indexed_edges :: "playbook \<Rightarrow> (nat \<times> edge) list" where
  "indexed_edges pb = enumerate 0 (pb_edges pb)"

definition check_edge_end :: "playbook \<Rightarrow> nat \<Rightarrow> report \<Rightarrow> string \<Rightarrow> report" where
  "check_edge_end pb i r nd =
     (if pb_node pb nd = None
      then report_error_edges pb ''V06'' (Some nd) [i] (''edge references unknown node `'' @ nd @ ''`'') r
      else r)"

definition check_edges_exist :: "playbook \<Rightarrow> report \<Rightarrow> report" where
  "check_edges_exist pb r =
     foldl (\<lambda>r (i, e). foldl (check_edge_end pb i) r [e_from e, e_to e]) r (indexed_edges pb)"

definition check_failure_policy :: "playbook \<Rightarrow> report \<Rightarrow> report" where
  "check_failure_policy pb r =
     (case d_on_failure (pb_defaults pb) of
        Policy_Node target \<Rightarrow>
          (case pb_node pb target of
             None \<Rightarrow>
               report_error ''V35'' None
                 (''defaults.on_failure names unknown node `'' @ target
                   @ ''` (expected a node id, `route` or `stop`)'') r
           | Some node \<Rightarrow>
               if is_start node
               then report_error ''V35'' (Some target)
                      ''defaults.on_failure must not target the start node'' r
               else r)
      | _ \<Rightarrow> r)"

section \<open>Reachability\<close>

lemma reach_measure_less:
  assumes "i |\<notin>| seen"
  shows "card ((adj_targets adj \<union> set (q @ fget adj [] i)) - fset (finsert i seen))
    < card ((adj_targets adj \<union> set (i # q)) - fset seen)"
proof (rule psubset_card_mono)
  show "(adj_targets adj \<union> set (q @ fget adj [] i)) - fset (finsert i seen)
      \<subset> (adj_targets adj \<union> set (i # q)) - fset seen"
    using assms fget_targets [of adj i] by auto
qed simp

function finish_search ::
  "adjacency_map \<Rightarrow> string list \<Rightarrow> string fset \<Rightarrow> string list \<Rightarrow> bool" where
  "finish_search adj ends vis [] = False"
| "finish_search adj ends vis (i # q) =
     (if i \<in> set ends then True
      else if i |\<in>| vis then finish_search adj ends vis q
      else finish_search adj ends (finsert i vis) (q @ fget adj [] i))"
  by pat_completeness auto
termination
proof (relation "measures [\<lambda>(adj, fs, seen, q). card ((adj_targets adj \<union> set q) - fset seen),
                           \<lambda>(adj, fs, seen, q). length q]", simp, goal_cases)
  case (1 adj fs seen i q)
  then have "(adj_targets adj \<union> set (i # q)) - fset seen = (adj_targets adj \<union> set q) - fset seen"
    by auto
  then show ?case by simp
next
  case (2 adj fs seen i q)
  then show ?case using reach_measure_less [of i seen adj q] by simp
qed

definition check_unreachable :: "string fset \<Rightarrow> report \<Rightarrow> node \<Rightarrow> report" where
  "check_unreachable seen r n =
     (if n_id n |\<notin>| seen
      then report_error ''V07'' (Some (n_id n)) (''node `'' @ n_id n @ ''` is unreachable from start'') r
      else r)"

definition check_dead_end :: "adjacency_map \<Rightarrow> string list \<Rightarrow> string fset \<Rightarrow> report \<Rightarrow> node \<Rightarrow> report" where
  "check_dead_end adj ends seen r n =
     (if n_id n |\<notin>| seen then r
      else if \<not> finish_search adj ends fempty [n_id n]
      then report_warn ''V08'' (Some (n_id n)) (''no path from `'' @ n_id n @ ''` to any finish node'') r
      else r)"

definition finish_ids :: "playbook \<Rightarrow> string list" where
  "finish_ids pb = map n_id (filter is_finish (pb_nodes pb))"

definition check_reachability :: "playbook \<Rightarrow> report \<Rightarrow> report" where
  "check_reachability pb r =
     (if \<not> list_ex is_start (pb_nodes pb) then r
      else let seen = reachable_with_policies pb;
               adj = adjacency pb;
               r = foldl (check_unreachable seen) r (pb_nodes pb)
           in foldl (check_dead_end adj (finish_ids pb) seen) r (pb_nodes pb))"

section \<open>Conditions\<close>

definition failure_handler :: "playbook \<Rightarrow> string option" where
  "failure_handler pb =
     (case d_on_failure (pb_defaults pb) of Policy_Node target \<Rightarrow> Some target | _ \<Rightarrow> None)"

definition covered_statuses :: "edge list \<Rightarrow> status_eq list" where
  "covered_statuses out =
     concat (map (\<lambda>e. case e_condition e of Some (Node_Status _ equals) \<Rightarrow> [equals] | _ \<Rightarrow> []) out)"

definition uses_node_status :: "edge list \<Rightarrow> bool" where
  "uses_node_status out =
     list_ex (\<lambda>e. case e_condition e of Some (Node_Status _ _) \<Rightarrow> True | _ \<Rightarrow> False) out"

definition referenced_node :: "edge \<Rightarrow> string option" where
  "referenced_node e =
     (case e_condition e of
        Some (Node_Status n _) \<Rightarrow> Some n
      | Some (Output_Match n _) \<Rightarrow> Some n
      | Some (Output_Field n _ _ _ _ _ _) \<Rightarrow> Some n
      | Some (No_New_Items n _ _ _) \<Rightarrow> Some n
      | _ \<Rightarrow> None)"

definition is_condition :: "node \<Rightarrow> bool" where
  "is_condition n = (case n_kind n of Condition _ \<Rightarrow> True | _ \<Rightarrow> False)"

definition check_coverage :: "playbook \<Rightarrow> node \<Rightarrow> edge list \<Rightarrow> report \<Rightarrow> report" where
  "check_coverage pb n out r =
     (let has_fallback = list_ex e_fallback out;
          covered = covered_statuses out;
          covers_both = (Eq_Success \<in> set covered \<and> Eq_Failure \<in> set covered)
      in if uses_node_status out \<and> \<not> covers_both \<and> \<not> has_fallback
         then if is_condition n
              then report_error ''V09'' (Some (n_id n))
                ''condition edges must cover both success and failure or declare a fallback edge'' r
              else if d_on_failure (pb_defaults pb) \<noteq> Policy_Route \<and> Eq_Success \<in> set covered then r
              else report_warn ''V39'' (Some (n_id n))
                ''condition edges off a non-condition node should still cover both success and failure or declare a fallback edge, the same as a condition node'' r
         else r)"

definition check_reference :: "playbook \<Rightarrow> node \<Rightarrow> report \<Rightarrow> edge \<Rightarrow> report" where
  "check_reference pb n r e =
     (case referenced_node e of
        None \<Rightarrow> r
      | Some dep \<Rightarrow>
          if pb_node pb dep \<noteq> None \<and> n_id n |\<in>| reachable_from (adjacency pb) dep then r
          else if is_condition n
          then report_error ''V10'' (Some (n_id n))
            (''condition references node `'' @ dep @ ''` that cannot execute before `'' @ n_id n @ ''`'') r
          else if Some (n_id n) = failure_handler pb then r
          else report_warn ''V40'' (Some (n_id n))
            (''condition references node `'' @ dep @ ''` that cannot execute before `'' @ n_id n
              @ ''`, the same reachability rule V10 applies to condition nodes'') r)"

definition check_node_conditions :: "playbook \<Rightarrow> report \<Rightarrow> node \<Rightarrow> report" where
  "check_node_conditions pb r n =
     (let out = filter (\<lambda>e. e_from e = n_id n) (pb_edges pb)
      in if list_all (\<lambda>e. e_condition e = None) out then r
         else foldl (check_reference pb n) (check_coverage pb n out r) out)"

definition check_conditions :: "playbook \<Rightarrow> report \<Rightarrow> report" where
  "check_conditions pb r = foldl (check_node_conditions pb) r (pb_nodes pb)"

section \<open>Cycles\<close>

definition self_loops :: "playbook \<Rightarrow> string list" where
  "self_loops pb = map e_from (filter (\<lambda>e. e_from e = e_to e) (pb_edges pb))"

definition has_max_loops :: "playbook \<Rightarrow> string \<Rightarrow> bool" where
  "has_max_loops pb i =
     (case pb_node pb i of
        Some n \<Rightarrow> (case n_kind n of Condition (Some _) \<Rightarrow> True | _ \<Rightarrow> False)
      | None \<Rightarrow> False)"

definition check_component :: "playbook \<Rightarrow> report \<Rightarrow> string list \<Rightarrow> report" where
  "check_component pb r c =
     (if \<not> (length c > 1 \<or> c ! 0 \<in> set (self_loops pb)) then r
      else if \<not> list_ex (has_max_loops pb) c
        \<and> \<not> list_ex (\<lambda>e. e_max_traversals e \<noteq> None \<and> e_from e \<in> set c \<and> e_to e \<in> set c) (pb_edges pb)
      then report_error ''V11'' (Some (c ! 0))
        (''cycle ['' @ join_with '', '' c
          @ ''] must contain an edge with max_traversals or pass through a condition node with max_loops'') r
      else r)"

definition check_cycles :: "playbook \<Rightarrow> report \<Rightarrow> report" where
  "check_cycles pb r = foldl (check_component pb) r (sccs pb)"

section \<open>Joins\<close>

definition check_join_value :: "playbook \<Rightarrow> report \<Rightarrow> nat \<times> edge \<Rightarrow> report" where
  "check_join_value pb r ie =
     (case ie of (i, e) \<Rightarrow>
        case e_join e of
          Some join \<Rightarrow>
            if join_mode_parse join = None
            then report_error_edges pb ''V36'' (Some (e_to e)) [i]
              (''edge `'' @ e_from e @ ''` -> `'' @ e_to e @ ''` has join `'' @ join
                @ ''`, expected `all` or `any`'') r
            else r
        | None \<Rightarrow> r)"

definition declared_joins :: "playbook \<Rightarrow> (string, string list) fmap" where
  "declared_joins pb =
     foldl (\<lambda>m e. case e_join e of
              Some join \<Rightarrow>
                if join_mode_parse join \<noteq> None then fmupd (e_to e) (fget m [] (e_to e) @ [join]) m else m
            | None \<Rightarrow> m) fmempty (pb_edges pb)"

definition check_join_mix :: "report \<Rightarrow> string \<times> string list \<Rightarrow> report" where
  "check_join_mix r tm =
     (case tm of (target, modes) \<Rightarrow>
        let distinct_modes = remdups_adj (sort modes);
            winner = (case modes of m # _ \<Rightarrow> m | [] \<Rightarrow> ''all'')
        in if length distinct_modes < 2 then r
           else report_warn ''V37'' (Some target)
             (''incoming edges of `'' @ target @ ''` mix join modes ['' @ join_with '', '' distinct_modes
               @ '']; the engine takes the first one in file order (`'' @ winner
               @ ''`) and ignores the rest'') r)"

definition check_joins :: "playbook \<Rightarrow> report \<Rightarrow> report" where
  "check_joins pb r =
     (let r = foldl (check_join_value pb) r (indexed_edges pb);
          by_target = declared_joins pb;
          targets = map (\<lambda>k. (k, fget by_target [] k)) (sorted_list_of_fset (fmdom by_target))
      in foldl check_join_mix r targets)"

section \<open>Routing keys\<close>

datatype route_key = Key_Conditional edge_condition | Key_Fallback

definition route_key_of :: "edge \<Rightarrow> route_key option" where
  "route_key_of e =
     (if e_fallback e then Some Key_Fallback else map_option Key_Conditional (e_condition e))"

record route_env =
  re_sources :: "string list \<Rightarrow> string list"
  re_keys :: "route_key list \<Rightarrow> route_key list"
  re_f64 :: "f64 \<Rightarrow> string"

definition status_eq_debug :: "status_eq \<Rightarrow> string" where
  "status_eq_debug s =
     (case s of Eq_Success \<Rightarrow> ''Success'' | Eq_Failure \<Rightarrow> ''Failure'' | Eq_Stalled \<Rightarrow> ''Stalled'')"

definition compare_route_key :: "(f64 \<Rightarrow> string) \<Rightarrow> field_compare \<Rightarrow> string" where
  "compare_route_key F c =
     (case c of
        Cmp_Equals e \<Rightarrow> ''equals=`'' @ e @ ''`''
      | _ \<Rightarrow> cmp_key c @ ''='' @ F (case cmp_threshold c of Some t \<Rightarrow> t | None \<Rightarrow> f64_zero))"

definition describe_route_key :: "(f64 \<Rightarrow> string) \<Rightarrow> route_key \<Rightarrow> string" where
  "describe_route_key F k =
     (case k of
        Key_Fallback \<Rightarrow> ''fallback''
      | Key_Conditional (Node_Status n equals) \<Rightarrow>
          ''node_status node=`'' @ n @ ''` equals='' @ status_eq_debug equals
      | Key_Conditional (Review_Status equals) \<Rightarrow> ''review_status equals=`'' @ equals @ ''`''
      | Key_Conditional (Output_Match n pattern) \<Rightarrow>
          ''output_match node=`'' @ n @ ''` pattern=`'' @ pattern @ ''`''
      | Key_Conditional (Output_Field n field a b c d e) \<Rightarrow>
          ''output_field node=`'' @ n @ ''` field=`'' @ field @ ''` ''
            @ (case field_compare_of (Output_Field n field a b c d e) of
                 None \<Rightarrow> ''none'' | Some cmp \<Rightarrow> compare_route_key F cmp)
      | Key_Conditional (Judge_Edge question min_p _) \<Rightarrow>
          ''judge question=`'' @ question @ ''` min_p='' @ F min_p
      | Key_Conditional (No_New_Items n field key rounds) \<Rightarrow>
          ''no_new_items node=`'' @ n @ ''` field=`'' @ field @ ''`''
            @ (case key of Some k \<Rightarrow> '' key=`'' @ k @ ''`'' | None \<Rightarrow> [])
            @ '' rounds='' @ show_nat (unat rounds))"

text \<open>The edges of a source, with their indices, and the groups of one key.\<close>

definition edges_by_from :: "playbook \<Rightarrow> (string, (nat \<times> edge) list) fmap" where
  "edges_by_from pb =
     foldl (\<lambda>m (i, e). fmupd (e_from e) (fget m [] (e_from e) @ [(i, e)]) m) fmempty (indexed_edges pb)"

text \<open>The keys of a group map, in the order they were first inserted.\<close>

definition key_order :: "(nat \<times> edge) list \<Rightarrow> route_key list" where
  "key_order outs = rev (remdups (rev (List.map_filter (\<lambda>(i, e). route_key_of e) outs)))"

definition key_group :: "(nat \<times> edge) list \<Rightarrow> route_key \<Rightarrow> (nat \<times> edge) list" where
  "key_group outs k = filter (\<lambda>(i, e). route_key_of e = Some k) outs"

definition check_key_group :: "route_env \<Rightarrow> playbook \<Rightarrow> string \<Rightarrow> (nat \<times> edge) list \<Rightarrow> report \<Rightarrow> route_key \<Rightarrow> report" where
  "check_key_group E pb from outs r key =
     (let group = key_group outs key;
          unique = remdups_adj (sort (map (\<lambda>(i, e). e_to e) group))
      in if length unique \<le> 1 then r
         else report_error_edges pb ''V34'' (Some from) (map fst group)
           (''contradictory edges from `'' @ from @ ''` with identical condition (''
             @ describe_route_key (re_f64 E) key @ '') to different targets: [''
             @ join_with '', '' unique @ '']'') r)"

definition check_shadowed :: "playbook \<Rightarrow> string \<Rightarrow> (nat \<times> edge) list \<Rightarrow> report \<Rightarrow> report" where
  "check_shadowed pb from outs r =
     (let has_unconditional = list_ex (\<lambda>(i, e). e_condition e = None \<and> \<not> e_fallback e) outs;
          shadowed = filter (\<lambda>(i, e). e_condition e \<noteq> None \<and> \<not> e_fallback e) outs;
          concerned = filter (\<lambda>(i, e). \<not> e_fallback e) outs
      in if has_unconditional \<and> shadowed \<noteq> []
         then report_error_edges pb ''V34'' (Some from) (map fst concerned)
           (''unconditional edge from `'' @ from @ ''` makes conditional edge(s) to [''
             @ join_with '', '' (map (\<lambda>(i, e). e_to e) shadowed)
             @ ''] unreachable under first-match routing'') r
         else r)"

definition check_duplicate_route_edges :: "route_env \<Rightarrow> playbook \<Rightarrow> report \<Rightarrow> report" where
  "check_duplicate_route_edges E pb r =
     (let by_from = edges_by_from pb
      in foldl (\<lambda>r from.
            let outs = fget by_from [] from
            in foldl (check_key_group E pb from outs) (check_shadowed pb from outs r)
                 (re_keys E (key_order outs)))
           r (re_sources E (sorted_list_of_fset (fmdom by_from))))"

definition check_zero_cap :: "playbook \<Rightarrow> report \<Rightarrow> nat \<times> edge \<Rightarrow> report" where
  "check_zero_cap pb r ie =
     (case ie of (i, e) \<Rightarrow>
        if e_max_traversals e = Some 0
        then report_error_edges pb ''V30'' None [i] ''max_traversals must be at least 1'' r
        else r)"

definition check_edges :: "route_env \<Rightarrow> playbook \<Rightarrow> report \<Rightarrow> report" where
  "check_edges E pb r =
     check_duplicate_route_edges E pb (foldl (check_zero_cap pb) r (indexed_edges pb))"

section \<open>Reachability is judged exactly\<close>

lemma reach_loop_superset: "fset seen \<union> set q \<subseteq> fset (reach_loop adj seen q)"
  by (induction adj seen q rule: reach_loop.induct) auto

lemma finish_search_reach:
  "fset vis \<inter> set ends = {} \<Longrightarrow>
    finish_search adj ends vis q = (fset (reach_loop adj vis q) \<inter> set ends \<noteq> {})"
proof (induction adj ends vis q rule: finish_search.induct)
  case (1 adj ends vis)
  then show ?case by auto
next
  case (2 adj ends vis i q)
  show ?case
  proof (cases "i \<in> set ends")
    case True
    then show ?thesis using reach_loop_superset [of vis "i # q" adj] by auto
  next
    case False
    then show ?thesis using 2 by auto
  qed
qed

declare finish_search.simps [simp del]

lemma finish_search_correct:
  "finish_search (adjacency pb) ends fempty [i] = (\<exists>f\<in>set ends. (i, f) \<in> (edge_rel pb)\<^sup>*)"
  by (auto simp: finish_search_reach reach_loop_rtrancl adj_rel_adjacency
      simp del: reach_loop.simps)

text \<open>Where a run of the playbook can enter: its start node, and the handlers of a failure.\<close>

definition entries :: "playbook \<Rightarrow> string set" where
  "entries pb = {n_id n | n. List.find is_start (pb_nodes pb) = Some n} \<union> set (policy_handlers pb)"

lemma find_start: "list_ex P xs \<longleftrightarrow> (\<exists>x. List.find P xs = Some x)"
  by (induction xs) auto

lemma reachable_with_policies_correct:
  "list_ex is_start (pb_nodes pb) \<Longrightarrow>
    fset (reachable_with_policies pb) = (edge_rel pb)\<^sup>* `` entries pb"
  by (auto simp: find_start reachable_with_policies_def reach_loop_rtrancl adj_rel_adjacency
      entries_def simp del: reach_loop.simps)

text \<open>What the pass flags, over its own searches.\<close>

lemma reachability_flags:
  "flags ''V07'' (Some i) (check_reachability pb []) =
     (list_ex is_start (pb_nodes pb) \<and> i \<in> set (node_ids pb) \<and> i \<notin> (edge_rel pb)\<^sup>* `` entries pb)
   \<and> flags ''V08'' (Some i) (check_reachability pb []) =
     (list_ex is_start (pb_nodes pb) \<and> i \<in> set (node_ids pb) \<and> i \<in> (edge_rel pb)\<^sup>* `` entries pb
      \<and> \<not> (\<exists>f\<in>set (finish_ids pb). (i, f) \<in> (edge_rel pb)\<^sup>*))"
proof (cases "list_ex is_start (pb_nodes pb)")
  case False
  then show ?thesis by (simp add: check_reachability_def)
next
  case True
  let ?seen = "reachable_with_policies pb"
  have seen: "(j |\<in>| ?seen) = (j \<in> (edge_rel pb)\<^sup>* `` entries pb)" for j
    using reachable_with_policies_correct [OF True] by auto
  have un7: "flags ''V07'' (Some i) (check_unreachable ?seen r n) =
      (flags ''V07'' (Some i) r \<or> n_id n = i \<and> i |\<notin>| ?seen)" for r n
    by (auto simp: check_unreachable_def)
  have un8: "flags ''V08'' (Some i) (check_unreachable ?seen r n) = flags ''V08'' (Some i) r" for r n
    by (auto simp: check_unreachable_def)
  have de7: "flags ''V07'' (Some i) (check_dead_end (adjacency pb) (finish_ids pb) ?seen r n) =
      flags ''V07'' (Some i) r" for r n
    by (auto simp: check_dead_end_def)
  have de8: "flags ''V08'' (Some i) (check_dead_end (adjacency pb) (finish_ids pb) ?seen r n) =
      (flags ''V08'' (Some i) r \<or> n_id n = i \<and> i |\<in>| ?seen
        \<and> \<not> (\<exists>f\<in>set (finish_ids pb). (i, f) \<in> (edge_rel pb)\<^sup>*))" for r n
    by (auto simp: check_dead_end_def finish_search_correct)
  have ids: "list_ex (\<lambda>n. n_id n = i \<and> Q) (pb_nodes pb) = (i \<in> set (node_ids pb) \<and> Q)" for Q
    by (auto simp: list_ex_iff node_ids_def)
  have drop: "flags c n (foldl f r xs) = flags c n r" if "\<And>r x. flags c n (f r x) = flags c n r"
    for c n f r and xs :: "node list"
    using that by (induction xs arbitrary: r) auto
  show ?thesis
    using True
    by (simp add: check_reachability_def Let_def drop [OF de7] drop [OF un8]
        foldl_flags [OF un7] foldl_flags [OF de8] ids seen)
qed

text \<open>Where a run enters the graph: its first start node and the declared handlers of failures.\<close>

definition enters :: "playbook \<Rightarrow> string \<Rightarrow> bool" where
  "enters pb m \<longleftrightarrow>
     (\<exists>before n after. pb_nodes pb = before @ n # after \<and> n_kind n = Start
        \<and> (\<forall>x\<in>set before. n_kind x \<noteq> Start) \<and> m = n_id n)
     \<or> m \<in> set (node_ids pb)
        \<and> (d_on_failure (pb_defaults pb) = Policy_Node m
           \<or> (\<exists>n\<in>set (pb_nodes pb). \<exists>f. n_fork n = Some f \<and> fs_on_failure f = Some m))"

lemma find_first: "List.find P xs = Some x \<longleftrightarrow> (\<exists>us vs. xs = us @ x # vs \<and> P x \<and> (\<forall>u\<in>set us. \<not> P u))"
proof
  show "List.find P xs = Some x \<Longrightarrow> \<exists>us vs. xs = us @ x # vs \<and> P x \<and> (\<forall>u\<in>set us. \<not> P u)"
  proof (induction xs)
    case (Cons a xs)
    show ?case
    proof (cases "P a")
      case True
      then show ?thesis using Cons.prems by (intro exI [of _ "[]"] exI [of _ xs]) simp
    next
      case False
      then obtain us vs where "xs = us @ x # vs" "P x" "\<forall>u\<in>set us. \<not> P u" using Cons by auto
      then show ?thesis using False by (intro exI [of _ "a # us"] exI [of _ vs]) simp
    qed
  qed simp
  have "P x \<Longrightarrow> \<forall>u\<in>set us. \<not> P u \<Longrightarrow> List.find P (us @ x # vs) = Some x" for us vs
    by (induction us) auto
  then show "\<exists>us vs. xs = us @ x # vs \<and> P x \<and> (\<forall>u\<in>set us. \<not> P u) \<Longrightarrow> List.find P xs = Some x" by blast
qed

lemma entries_enters: "entries pb = Collect (enters pb)"
proof -
  have s: "List.find is_start (pb_nodes pb) = Some n \<longleftrightarrow>
      (\<exists>us vs. pb_nodes pb = us @ n # vs \<and> n_kind n = Start \<and> (\<forall>x\<in>set us. n_kind x \<noteq> Start))" for n
    by (simp add: find_first is_start_def)
  have h: "m \<in> set (policy_handlers pb) \<longleftrightarrow> m \<in> set (node_ids pb)
      \<and> (d_on_failure (pb_defaults pb) = Policy_Node m
         \<or> (\<exists>n\<in>set (pb_nodes pb). \<exists>f. n_fork n = Some f \<and> fs_on_failure f = Some m))" for m
  proof -
    have declared: "(\<exists>y. pb_node pb t = Some y) = (t \<in> set (node_ids pb))" for t
      using pb_node_is_Some [of pb t] by (simp add: node_ids_def)
    have d: "m \<in> set (case d_on_failure (pb_defaults pb) of
        Policy_Node target \<Rightarrow> if pb_node pb target \<noteq> None then [target] else [] | _ \<Rightarrow> [])
      \<longleftrightarrow> m \<in> set (node_ids pb) \<and> d_on_failure (pb_defaults pb) = Policy_Node m"
      using declared by (cases "d_on_failure (pb_defaults pb)") (simp_all, blast)
    have f: "m \<in> set (case Option.bind (n_fork n) fs_on_failure of
        Some target \<Rightarrow> if pb_node pb target \<noteq> None then [target] else [] | None \<Rightarrow> [])
      \<longleftrightarrow> m \<in> set (node_ids pb) \<and> (\<exists>f. n_fork n = Some f \<and> fs_on_failure f = Some m)" for n
      using declared by (cases "n_fork n") (auto split: option.splits)
    show ?thesis unfolding policy_handlers_def
      by (simp only: set_append set_concat set_map image_image Un_iff UN_iff d f) blast
  qed
  show ?thesis unfolding entries_def enters_def by (rule set_eqI) (simp only: Un_iff mem_Collect_eq s h, blast)
qed

text \<open>
  C20: the validator refuses a playbook with a start node for an unreachable node exactly when some
  declared node is reached by no path of edges from where a run enters the graph (the start node,
  the default failure handler, a fork's failure target), and it names exactly those nodes; it warns
  of a dead end exactly at the reached nodes from which no path leads to a finish node.
\<close>

theorem reachability_exact:
  "let reached = (edge_rel pb)\<^sup>* `` Collect (enters pb);
       started = (\<exists>n\<in>set (pb_nodes pb). n_kind n = Start)
   in (\<not> is_valid (check_reachability pb [])) = (started \<and> \<not> set (node_ids pb) \<subseteq> reached)
    \<and> (flags ''V07'' (Some i) (check_reachability pb []) = (started \<and> i \<in> set (node_ids pb) - reached))
    \<and> (flags ''V08'' (Some i) (check_reachability pb []) = (started \<and> i \<in> set (node_ids pb) \<inter> reached
        \<and> \<not> (\<exists>f\<in>set (pb_nodes pb). \<exists>o1. n_kind f = Finish o1 \<and> (i, n_id f) \<in> (edge_rel pb)\<^sup>*)))"
proof -
  have st: "list_ex is_start (pb_nodes pb) = (\<exists>n\<in>set (pb_nodes pb). n_kind n = Start)"
    by (simp add: list_ex_iff is_start_def)
  have fin: "(\<exists>f\<in>set (finish_ids pb). (i, f) \<in> (edge_rel pb)\<^sup>*)
      = (\<exists>f\<in>set (pb_nodes pb). \<exists>o1. n_kind f = Finish o1 \<and> (i, n_id f) \<in> (edge_rel pb)\<^sup>*)"
  proof -
    have "is_finish f = (\<exists>o1. n_kind f = Finish o1)" for f by (cases "n_kind f") (simp_all add: is_finish_def)
    then show ?thesis by (auto simp: finish_ids_def)
  qed
  have valid: "(\<not> is_valid (check_reachability pb []))
      = (list_ex is_start (pb_nodes pb) \<and> \<not> set (node_ids pb) \<subseteq> (edge_rel pb)\<^sup>* `` entries pb)"
  proof (cases "list_ex is_start (pb_nodes pb)")
    case True
    have u: "is_valid (foldl (check_unreachable seen) r ns) = (is_valid r \<and> (\<forall>n\<in>set ns. n_id n |\<in>| seen))"
      for seen r ns by (induction ns arbitrary: r) (auto simp: check_unreachable_def)
    have d: "is_valid (foldl (check_dead_end adj ends seen) r ns) = is_valid r" for adj ends seen r ns
      by (induction ns arbitrary: r) (auto simp: check_dead_end_def)
    show ?thesis using True reachable_with_policies_correct [OF True]
      by (auto simp: check_reachability_def Let_def u d node_ids_def)
  qed (simp add: check_reachability_def)
  show ?thesis
    using valid reachability_flags [of i pb] unfolding entries_enters st fin by (simp add: Let_def)
qed

section \<open>Cycles\<close>

definition mutual :: "playbook \<Rightarrow> string \<Rightarrow> string \<Rightarrow> bool" where
  "mutual pb a b \<longleftrightarrow> (a, b) \<in> (declared_rel pb)\<^sup>* \<and> (b, a) \<in> (declared_rel pb)\<^sup>*"

text \<open>The two guards of a cycle the rule looks for in the component of a node.\<close>

definition component_bounded :: "playbook \<Rightarrow> string \<Rightarrow> bool" where
  "component_bounded pb a \<longleftrightarrow>
     (\<exists>b. mutual pb a b \<and> has_max_loops pb b)
     \<or> (\<exists>e\<in>set (pb_edges pb). e_max_traversals e \<noteq> None \<and> mutual pb a (e_from e) \<and> mutual pb a (e_to e))"

lemma trancl_mutual: "(a, b) \<in> (declared_rel pb)\<^sup>* \<Longrightarrow> a \<noteq> b \<Longrightarrow> (b, a) \<in> (declared_rel pb)\<^sup>* \<Longrightarrow>
    (a, a) \<in> (declared_rel pb)\<^sup>+"
  by (meson rtranclD rtrancl_trancl_trancl trancl_rtrancl_trancl)

lemma component_cyclic:
  assumes "distinct (node_ids pb)" "c \<in> set (sccs pb)"
  shows "(length c > 1 \<or> c ! 0 \<in> set (self_loops pb)) = ((c ! 0, c ! 0) \<in> (declared_rel pb)\<^sup>+)"
proof -
  have ex: "distinct (concat (sccs pb))" "set (concat (sccs pb)) = set (node_ids pb)" "c \<noteq> []"
    "\<forall>a\<in>set c. set c = {b. mutual pb a b}"
    using sccs_exact_lib [OF assms(1)] assms(2) by (auto simp: mutual_def)
  define a where "a = c ! 0"
  have a: "a \<in> set c" using ex(3) by (simp add: a_def)
  have comp: "set c = {b. mutual pb a b}" using ex(4) a by blast
  have decl: "a \<in> set (node_ids pb)" using a assms(2) ex(2) by auto
  have self: "(a \<in> set (self_loops pb)) = ((a, a) \<in> declared_rel pb)"
    using decl by (force simp: self_loops_def declared_rel_def edge_rel_def)
  have "distinct c" using ex(1) assms(2) by (auto simp: distinct_concat_iff)
  show ?thesis
  proof (cases "length c > 1")
    case True
    then have "0 < length c" by auto
    then have "c ! 1 \<in> set c" "c ! 1 \<noteq> a"
      using nth_eq_iff_index_eq [OF \<open>distinct c\<close>, of 1 0] True by (simp_all add: a_def)
    then have "mutual pb a (c ! 1)" using comp by blast
    then have "(a, a) \<in> (declared_rel pb)\<^sup>+"
      using trancl_mutual \<open>c ! 1 \<noteq> a\<close> by (auto simp: mutual_def)
    then show ?thesis using True by (simp add: a_def)
  next
    case False
    then have one: "set c = {a}" using ex(3) by (cases c) (auto simp: a_def)
    have "(a, a) \<in> declared_rel pb" if t: "(a, a) \<in> (declared_rel pb)\<^sup>+"
    proof -
      obtain b where b: "(a, b) \<in> declared_rel pb" "(b, a) \<in> (declared_rel pb)\<^sup>*"
        using t by (meson tranclD)
      then have "b \<in> set c" unfolding comp by (auto simp: mutual_def)
      then show ?thesis using b one by simp
    qed
    then show ?thesis using False self by (auto simp: a_def)
  qed
qed

lemma component_guarded:
  assumes "distinct (node_ids pb)" "c \<in> set (sccs pb)"
  shows "(list_ex (has_max_loops pb) c
      \<or> list_ex (\<lambda>e. e_max_traversals e \<noteq> None \<and> e_from e \<in> set c \<and> e_to e \<in> set c) (pb_edges pb))
    = component_bounded pb (c ! 0)"
proof -
  have ex: "c \<noteq> []" "\<forall>a\<in>set c. set c = {b. mutual pb a b}"
    using sccs_exact_lib [OF assms(1)] assms(2) by (auto simp: mutual_def)
  then have "set c = {b. mutual pb (c ! 0) b}" by simp
  then show ?thesis by (auto simp: list_ex_iff component_bounded_def)
qed

lemma check_component_valid:
  "is_valid (check_component pb r c) = (is_valid r \<and>
     ((length c > 1 \<or> c ! 0 \<in> set (self_loops pb)) \<longrightarrow>
        list_ex (has_max_loops pb) c
        \<or> list_ex (\<lambda>e. e_max_traversals e \<noteq> None \<and> e_from e \<in> set c \<and> e_to e \<in> set c) (pb_edges pb)))"
  by (auto simp: check_component_def)

lemma component_bounded_mutual:
  "mutual pb a b \<Longrightarrow> component_bounded pb a = component_bounded pb b"
  unfolding component_bounded_def mutual_def by (meson rtrancl_trans)

lemma cyclic_mutual:
  assumes "mutual pb a b" "(a, a) \<in> (declared_rel pb)\<^sup>+"
  shows "(b, b) \<in> (declared_rel pb)\<^sup>+"
  using assms unfolding mutual_def by (meson rtrancl_trancl_trancl trancl_rtrancl_trancl)

lemma cyclic_declared: "(a, a) \<in> (declared_rel pb)\<^sup>+ \<Longrightarrow> a \<in> set (node_ids pb)"
  by (auto simp: declared_rel_def dest: tranclD)

lemma cycles_exact_lib:
  assumes "distinct (node_ids pb)"
  shows "is_valid (check_cycles pb []) =
    (\<forall>a. (a, a) \<in> (declared_rel pb)\<^sup>+ \<longrightarrow> component_bounded pb a)"
proof -
  have "is_valid (check_cycles pb []) = (\<forall>c\<in>set (sccs pb).
      (c ! 0, c ! 0) \<in> (declared_rel pb)\<^sup>+ \<longrightarrow> component_bounded pb (c ! 0))"
    unfolding check_cycles_def foldl_valid [OF check_component_valid] list_all_iff
    using component_cyclic [OF assms] component_guarded [OF assms] by fastforce
  also have "\<dots> = (\<forall>a. (a, a) \<in> (declared_rel pb)\<^sup>+ \<longrightarrow> component_bounded pb a)"
  proof (intro iffI ballI allI impI)
    fix a assume h: "\<forall>c\<in>set (sccs pb).
      (c ! 0, c ! 0) \<in> (declared_rel pb)\<^sup>+ \<longrightarrow> component_bounded pb (c ! 0)"
      and a: "(a, a) \<in> (declared_rel pb)\<^sup>+"
    then have "a \<in> set (concat (sccs pb))"
      using sccs_exact_lib [OF assms] cyclic_declared by blast
    then obtain c where c: "c \<in> set (sccs pb)" "a \<in> set c" by auto
    then have "c \<noteq> []" "set c = {b. mutual pb a b}"
      using sccs_exact_lib [OF assms] by (auto simp: mutual_def)
    then have "mutual pb a (c ! 0)" using nth_mem [of 0 c] by auto
    then show "component_bounded pb a"
      using h c(1) cyclic_mutual [OF _ a] component_bounded_mutual by blast
  qed auto
  finally show ?thesis .
qed

text \<open>
  C19: on a playbook with distinct ids the cycle rule accepts exactly when every node that lies on
  a cycle has, among the nodes it is mutually reachable with, a condition node with
  \<open>max_loops\<close> or an edge with \<open>max_traversals\<close>.
\<close>

theorem cycles_exact:
  assumes "distinct (node_ids pb)"
  shows "is_valid (check_cycles pb []) =
    (\<forall>a. (a, a) \<in> (declared_rel pb)\<^sup>+ \<longrightarrow> component_bounded pb a)"
  by (rule cycles_exact_lib [OF assms])

text \<open>
  Two loops through one node: \<open>a\<close>, \<open>b\<close> with a bounded edge, and \<open>a\<close>, \<open>c\<close> with none.
\<close>

definition two_loops :: playbook where
  "two_loops = plain_playbook
     [plain_node ''s'' Start, plain_node ''a'' (Prompt []), plain_node ''b'' (Prompt []),
      plain_node ''c'' (Prompt [])]
     [plain_edge ''s'' ''a'', plain_edge ''a'' ''b'',
      (plain_edge ''b'' ''a'')\<lparr> e_max_traversals := Some 3 \<rparr>,
      plain_edge ''a'' ''c'', plain_edge ''c'' ''a'']"

lemma edge_rel_image: "edge_rel pb = (\<lambda>e. (e_from e, e_to e)) ` set (pb_edges pb)"
  by (auto simp: edge_rel_def)

lemma two_loops_edges:
  "edge_rel two_loops = {(''s'', ''a''), (''a'', ''b''), (''b'', ''a''), (''a'', ''c''), (''c'', ''a'')}"
  "declared_rel two_loops = edge_rel two_loops"
  by (auto simp: declared_rel_def edge_rel_image two_loops_def node_ids_def)

theorem cycles_exact_witness:
  "distinct (node_ids two_loops) \<and>
    is_valid (check_cycles two_loops []) =
      (\<forall>a. (a, a) \<in> (declared_rel two_loops)\<^sup>+ \<longrightarrow> component_bounded two_loops a)"
  using cycles_exact [of two_loops] by (simp add: two_loops_def node_ids_def)

text \<open>The edges a run may take any number of times: no cap, and no capped condition at either end.\<close>

definition unbounded_rel :: "playbook \<Rightarrow> (string \<times> string) set" where
  "unbounded_rel pb = {(e_from e, e_to e) | e. e \<in> set (pb_edges pb) \<and> e_max_traversals e = None
     \<and> \<not> has_max_loops pb (e_from e) \<and> \<not> has_max_loops pb (e_to e)}"

lemma two_loops_accepted: "is_valid (check_cycles two_loops [])"
proof -
  have "component_bounded two_loops a" if "(a, a) \<in> (declared_rel two_loops)\<^sup>+" for a
  proof -
    have ab: "(''a'', ''b'') \<in> declared_rel two_loops" "(''b'', ''a'') \<in> declared_rel two_loops"
      "(''a'', ''c'') \<in> declared_rel two_loops" "(''c'', ''a'') \<in> declared_rel two_loops"
      by (simp_all add: two_loops_edges)
    have "(x, y) \<in> (declared_rel two_loops)\<^sup>+ \<Longrightarrow> y \<noteq> ''s''" for x y
      by (induction rule: trancl_induct) (auto simp: two_loops_edges)
    then have "a \<noteq> ''s''" using that by blast
    moreover have "a \<in> set (node_ids two_loops)" using that by (rule cyclic_declared)
    ultimately have "a \<in> {''a'', ''b'', ''c''}" by (auto simp: two_loops_def node_ids_def)
    then have ma: "mutual two_loops ''a'' a" using ab by (auto simp: mutual_def)
    have "component_bounded two_loops ''a''"
      unfolding component_bounded_def
    proof (rule disjI2)
      let ?e = "(plain_edge ''b'' ''a'')\<lparr> e_max_traversals := Some 3 \<rparr>"
      have "?e \<in> set (pb_edges two_loops)" by (simp add: two_loops_def)
      moreover have "mutual two_loops ''a'' (e_from ?e)" "mutual two_loops ''a'' (e_to ?e)"
        using ab by (auto simp: mutual_def)
      ultimately show "\<exists>e\<in>set (pb_edges two_loops). e_max_traversals e \<noteq> None
          \<and> mutual two_loops ''a'' (e_from e) \<and> mutual two_loops ''a'' (e_to e)"
        by (intro bexI [of _ ?e]) simp_all
    qed
    then show ?thesis using component_bounded_mutual [OF ma] by blast
  qed
  then show ?thesis using cycles_exact_lib [of two_loops] by (simp add: two_loops_def node_ids_def)
qed

text \<open>
  The cycle rule is weaker than what it is there for, that every cycle ends: this playbook is
  accepted although one of its two cycles has no cap at all, because the rule asks for one guard per
  component and the other cycle has it.
\<close>

theorem unbounded_cycle_accepted:
  "is_valid (check_cycles two_loops []) \<and> (''a'', ''a'') \<in> (unbounded_rel two_loops)\<^sup>+"
proof -
  have "(''a'', ''c'') \<in> unbounded_rel two_loops"
    by (auto simp: unbounded_rel_def two_loops_def has_max_loops_def pb_node_def intro!: exI [of _ "plain_edge ''a'' ''c''"])
  moreover have "(''c'', ''a'') \<in> unbounded_rel two_loops"
    by (auto simp: unbounded_rel_def two_loops_def has_max_loops_def pb_node_def intro!: exI [of _ "plain_edge ''c'' ''a''"])
  ultimately show ?thesis using two_loops_accepted by (meson trancl.simps)
qed

section \<open>Routing keys decide the target\<close>

lemma one_distinct: "length (remdups_adj (sort xs)) \<le> 1 \<longleftrightarrow> (\<forall>x\<in>set xs. \<forall>y\<in>set xs. x = (y :: string))"
proof
  assume le: "length (remdups_adj (sort xs)) \<le> 1"
  show "\<forall>x\<in>set xs. \<forall>y\<in>set xs. x = y"
  proof (cases "remdups_adj (sort xs)")
    case Nil
    then show ?thesis by (metis empty_iff list.set(1) remdups_adj_set set_sort)
  next
    case (Cons x ys)
    then have "remdups_adj (sort xs) = [x]" using le by simp
    then have "set xs = {x}" by (metis list.set(1,2) remdups_adj_set set_sort)
    then show ?thesis by simp
  qed
next
  assume eq: "\<forall>x\<in>set xs. \<forall>y\<in>set xs. x = y"
  show "length (remdups_adj (sort xs)) \<le> 1"
  proof (cases xs)
    case (Cons x ys)
    then have "\<forall>y\<in>set xs. y = x" using eq by simp
    then have "\<forall>y\<in>set (sort xs). y = x" by (simp only: set_sort)
    then have "sort xs = replicate (length (sort xs)) x" by (metis replicate_length_same)
    then show ?thesis by (metis One_nat_def le_refl length_Cons list.size(3) remdups_adj_replicate zero_le)
  qed simp
qed

lemma indexed_set: "snd ` set (indexed_edges pb) = set (pb_edges pb)"
  unfolding set_map [symmetric] by (simp add: indexed_edges_def)

lemma grouped_edges:
  "fget (foldl (\<lambda>m (i, e). fmupd (e_from e) (fget m [] (e_from e) @ [(i, e)]) m) m ies) [] from
    = fget m [] from @ filter (\<lambda>(i, e). e_from e = from) ies"
  "fset (fmdom (foldl (\<lambda>m (i, e). fmupd (e_from e) (fget m [] (e_from e) @ [(i, e)]) m) m ies))
    = fset (fmdom m) \<union> (\<lambda>(i, e). e_from e) ` set ies"
  by (induction ies arbitrary: m) (auto split: prod.splits)

lemma edges_by_from_get:
  "fget (edges_by_from pb) [] from = filter (\<lambda>(i, e). e_from e = from) (indexed_edges pb)"
  "fset (fmdom (edges_by_from pb)) = e_from ` set (pb_edges pb)"
proof -
  show "fget (edges_by_from pb) [] from = filter (\<lambda>(i, e). e_from e = from) (indexed_edges pb)"
    by (simp add: edges_by_from_def grouped_edges)
  have "(\<lambda>(i, e). e_from e) ` set (indexed_edges pb) = e_from ` set (pb_edges pb)"
    unfolding indexed_set [symmetric] by (simp add: image_image split_beta)
  then show "fset (fmdom (edges_by_from pb)) = e_from ` set (pb_edges pb)"
    by (simp add: edges_by_from_def grouped_edges)
qed

lemma check_key_group_valid:
  "is_valid (check_key_group E pb from outs r k) = (is_valid r \<and>
    (\<forall>a\<in>set outs. \<forall>b\<in>set outs. route_key_of (snd a) = Some k \<and> route_key_of (snd b) = Some k
       \<longrightarrow> e_to (snd a) = e_to (snd b)))"
proof -
  let ?ts = "map (\<lambda>(i, e). e_to e) (key_group outs k)"
  have "is_valid (check_key_group E pb from outs r k) =
      (is_valid r \<and> length (remdups_adj (sort ?ts)) \<le> 1)"
    by (simp add: check_key_group_def Let_def)
  moreover have "set ?ts = (\<lambda>a. e_to (snd a)) ` {a \<in> set outs. route_key_of (snd a) = Some k}"
    by (force simp: key_group_def)
  then have "(\<forall>x\<in>set ?ts. \<forall>y\<in>set ?ts. x = y) =
    (\<forall>a\<in>set outs. \<forall>b\<in>set outs. route_key_of (snd a) = Some k \<and> route_key_of (snd b) = Some k
       \<longrightarrow> e_to (snd a) = e_to (snd b))"
    by (simp only:) blast
  ultimately show ?thesis unfolding one_distinct by simp
qed

lemma check_shadowed_valid:
  "is_valid (check_shadowed pb from outs r) = (is_valid r \<and>
    (\<forall>a\<in>set outs. \<forall>b\<in>set outs. e_condition (snd a) = None \<and> \<not> e_fallback (snd a)
       \<longrightarrow> e_condition (snd b) = None \<or> e_fallback (snd b)))"
  unfolding check_shadowed_def Let_def
  by (auto simp: list_ex_iff filter_empty_conv split_beta)

lemma key_order_set: "k \<in> set (key_order outs) \<longleftrightarrow> (\<exists>a\<in>set outs. route_key_of (snd a) = Some k)"
  by (auto simp: key_order_def set_map_filter split_beta)

lemma check_zero_cap_valid:
  "is_valid (check_zero_cap pb r ie) = (is_valid r \<and> e_max_traversals (snd ie) \<noteq> Some 0)"
  by (cases ie) (auto simp: check_zero_cap_def)

text \<open>The routes out of one source do not contradict each other.\<close>

definition pair_agrees :: "edge \<Rightarrow> edge \<Rightarrow> bool" where
  "pair_agrees e e' \<longleftrightarrow>
     (route_key_of e \<noteq> None \<and> route_key_of e = route_key_of e' \<longrightarrow> e_to e = e_to e')
     \<and> (e_condition e = None \<and> \<not> e_fallback e \<longrightarrow> e_condition e' = None \<or> e_fallback e')"

definition routes_agree :: "edge list \<Rightarrow> bool" where
  "routes_agree es \<longleftrightarrow>
     (\<forall>e\<in>set es. \<forall>e'\<in>set es. e_from e = e_from e' \<longrightarrow> pair_agrees e e')"

lemma check_source_valid:
  assumes keys: "\<And>ks. set (re_keys E ks) = set ks"
  shows "is_valid (foldl (check_key_group E pb from outs) (check_shadowed pb from outs r)
      (re_keys E (key_order outs))) =
    (is_valid r \<and> (\<forall>a\<in>set outs. \<forall>b\<in>set outs. pair_agrees (snd a) (snd b)))"
proof -
  have "(\<forall>k\<in>set (key_order outs). \<forall>a\<in>set outs. \<forall>b\<in>set outs.
      route_key_of (snd a) = Some k \<and> route_key_of (snd b) = Some k \<longrightarrow> e_to (snd a) = e_to (snd b)) =
    (\<forall>a\<in>set outs. \<forall>b\<in>set outs. route_key_of (snd a) \<noteq> None \<and> route_key_of (snd a) = route_key_of (snd b)
      \<longrightarrow> e_to (snd a) = e_to (snd b))"
    (is "?L = ?R")
  proof
    assume h: ?L
    show ?R
    proof (intro ballI impI)
      fix a b
      assume ab: "a \<in> set outs" "b \<in> set outs"
        and eq: "route_key_of (snd a) \<noteq> None \<and> route_key_of (snd a) = route_key_of (snd b)"
      obtain k where k: "route_key_of (snd a) = Some k" using eq by blast
      then have "k \<in> set (key_order outs)" using ab(1) by (auto simp: key_order_set)
      moreover have "route_key_of (snd b) = Some k" using eq k by metis
      ultimately show "e_to (snd a) = e_to (snd b)" using h ab k by blast
    qed
  next
    assume ?R
    then show ?L by (metis option.distinct(1))
  qed
  then show ?thesis
    unfolding foldl_valid [OF check_key_group_valid] check_shadowed_valid list_all_iff keys pair_agrees_def
    by blast
qed

lemma outgoing_set:
  "(\<forall>from\<in>e_from ` set (pb_edges pb).
     \<forall>a\<in>set (filter (\<lambda>(i, e). e_from e = from) (indexed_edges pb)).
     \<forall>b\<in>set (filter (\<lambda>(i, e). e_from e = from) (indexed_edges pb)). P (snd a) (snd b))
    = (\<forall>e\<in>set (pb_edges pb). \<forall>e'\<in>set (pb_edges pb). e_from e = e_from e' \<longrightarrow> P e e')"
  unfolding indexed_set [symmetric] set_filter split_beta by blast



end
