(* ===== verification/Flow.thy ===== *)
theory Flow
  imports Prelude
begin

text \<open>
  Data-flow iterations that only take elements away, one element at a time: \<open>T\<close> is the set of nodes
  whose value holds the element, \<open>keep\<close> says from \<open>T\<close> whether a node keeps it, and a pass asks every
  node in turn.  The locale states what an analysis has to provide; its lemmas say that a pass only
  shrinks \<open>T\<close>, that as many passes as there are nodes reach the fixed point, and that a node is in
  that fixed point exactly when it keeps the element there.
\<close>

definition flow_step :: "('a set \<Rightarrow> 'a \<Rightarrow> bool) \<Rightarrow> 'a set \<Rightarrow> 'a \<Rightarrow> 'a set" where
  "flow_step keep T i = (if keep T i then insert i T else T - {i})"

definition flow_pass :: "('a set \<Rightarrow> 'a \<Rightarrow> bool) \<Rightarrow> 'a list \<Rightarrow> 'a set \<Rightarrow> 'a set" where
  "flow_pass keep js T = foldl (flow_step keep) T js"

text \<open>A node that would keep the element still has it.\<close>

definition flow_shrinking :: "('a set \<Rightarrow> 'a \<Rightarrow> bool) \<Rightarrow> 'a list \<Rightarrow> 'a set \<Rightarrow> bool" where
  "flow_shrinking keep nodes T \<longleftrightarrow> (\<forall>i\<in>set nodes. keep T i \<longrightarrow> i \<in> T)"

lemma shrinking_fixed:
  assumes f: "\<And>T. Q T \<Longrightarrow> f T \<subseteq> T \<and> Q (f T)"
  shows "Q T \<Longrightarrow> finite T \<Longrightarrow> card T \<le> m \<Longrightarrow> f ((f ^^ m) T) = (f ^^ m) (T :: 'a set)"
proof (induction m arbitrary: T)
  case 0
  then show ?case using f [of T] by auto
next
  case (Suc m)
  show ?case
  proof (cases "f T = T")
    case True
    have "(f ^^ k) T = T" for k by (induction k) (simp_all add: True)
    then show ?thesis using True by simp
  next
    case False
    then have "card (f T) \<le> m"
      using psubset_card_mono [OF Suc.prems(2), of "f T"] f [OF Suc.prems(1)] Suc.prems(3)
      by (simp add: psubset_eq)
    then have "f ((f ^^ m) (f T)) = (f ^^ m) (f T)"
      using Suc.IH [of "f T"] f [OF Suc.prems(1)] finite_subset [OF _ Suc.prems(2)] by simp
    then show ?thesis by (simp add: funpow_swap1)
  qed
qed

locale shrinking_flow =
  fixes nodes :: "'a list" and keep :: "'a set \<Rightarrow> 'a \<Rightarrow> bool"
  assumes keep_mono: "T \<subseteq> T' \<Longrightarrow> keep T i \<Longrightarrow> keep T' i"
begin

lemma step_shrinks:
  assumes "flow_shrinking keep nodes T" "i \<in> set nodes"
  shows "flow_step keep T i \<subseteq> T" "flow_shrinking keep nodes (flow_step keep T i)"
proof -
  show sub: "flow_step keep T i \<subseteq> T" using assms by (auto simp: flow_step_def flow_shrinking_def)
  have "j \<in> flow_step keep T i" if "j \<in> set nodes" "keep (flow_step keep T i) j" for j
  proof -
    have "keep T j" using keep_mono [OF sub that(2)] .
    moreover from this have "j \<in> T" using assms(1) that(1) by (simp add: flow_shrinking_def)
    ultimately show ?thesis by (auto simp: flow_step_def)
  qed
  then show "flow_shrinking keep nodes (flow_step keep T i)" unfolding flow_shrinking_def by blast
qed

lemma fold_shrinks:
  "flow_shrinking keep nodes T \<Longrightarrow> set js \<subseteq> set nodes \<Longrightarrow>
    flow_pass keep js T \<subseteq> T \<and> flow_shrinking keep nodes (flow_pass keep js T)"
proof (induction js arbitrary: T)
  case (Cons j js)
  then have "flow_shrinking keep nodes (flow_step keep T j)" "flow_step keep T j \<subseteq> T"
    using step_shrinks by auto
  then show ?case using Cons.IH [of "flow_step keep T j"] Cons.prems(2) by (auto simp: flow_pass_def)
qed (simp add: flow_pass_def)

lemma pass_shrinks:
  "flow_shrinking keep nodes T \<Longrightarrow>
    flow_pass keep nodes T \<subseteq> T \<and> flow_shrinking keep nodes (flow_pass keep nodes T)"
  by (simp add: fold_shrinks)

lemma passes_shrink:
  "flow_shrinking keep nodes T \<Longrightarrow>
    (flow_pass keep nodes ^^ k) T \<subseteq> T \<and> flow_shrinking keep nodes ((flow_pass keep nodes ^^ k) T)"
proof (induction k)
  case (Suc k)
  then have IH: "(flow_pass keep nodes ^^ k) T \<subseteq> T"
    "flow_shrinking keep nodes ((flow_pass keep nodes ^^ k) T)" by simp_all
  from pass_shrinks [OF IH(2)] IH(1) show ?case by auto
qed simp

lemma passes_fixed:
  assumes "flow_shrinking keep nodes T" "T \<subseteq> set nodes" "length nodes \<le> k"
  shows "flow_pass keep nodes ((flow_pass keep nodes ^^ k) T) = (flow_pass keep nodes ^^ k) T"
proof -
  have "finite T" using assms(2) finite_subset by blast
  moreover have "card T \<le> k"
    using card_mono [OF List.finite_set assms(2)] card_length [of nodes] assms(3) by linarith
  ultimately show ?thesis
    using shrinking_fixed [of "flow_shrinking keep nodes" "flow_pass keep nodes", OF pass_shrinks assms(1)]
    by blast
qed

lemma fold_fixed:
  "flow_shrinking keep nodes T \<Longrightarrow> set js \<subseteq> set nodes \<Longrightarrow> flow_pass keep js T = T \<Longrightarrow>
    \<forall>j\<in>set js. flow_step keep T j = T"
proof (induction js)
  case (Cons j js)
  have st: "flow_shrinking keep nodes (flow_step keep T j)" "flow_step keep T j \<subseteq> T"
    using step_shrinks [OF Cons.prems(1)] Cons.prems(2) by auto
  then have "flow_pass keep js (flow_step keep T j) \<subseteq> flow_step keep T j"
    using fold_shrinks [OF st(1)] Cons.prems(2) by simp
  then have "flow_step keep T j = T" using st(2) Cons.prems(3) by (simp add: flow_pass_def)
  then show ?case using Cons by (simp add: flow_pass_def)
qed simp

lemma fixed_keeps:
  assumes "flow_shrinking keep nodes T" "flow_pass keep nodes T = T" "i \<in> set nodes"
  shows "i \<in> T \<longleftrightarrow> keep T i"
  using fold_fixed [OF assms(1) _ assms(2)] assms(3) by (auto simp: flow_step_def split: if_splits)

text \<open>What holds of the nodes outside the set at the start and is kept by a step, holds at the end.\<close>

lemma passes_invariant:
  assumes "I T" and "\<And>T i. I T \<Longrightarrow> i \<in> set nodes \<Longrightarrow> I (flow_step keep T i)"
  shows "I ((flow_pass keep nodes ^^ k) T)"
proof -
  have "I T \<Longrightarrow> set js \<subseteq> set nodes \<Longrightarrow> I (flow_pass keep js T)" for T js
    by (induction js arbitrary: T) (auto simp: flow_pass_def assms(2))
  then show ?thesis using assms(1) by (induction k) auto
qed

end

end
