(* ===== verification/Must_Finish.thy ===== *)
theory Must_Finish
  imports Flow Validation Scc Join_Kind
begin

text \<open>
  The must-analysis of \<^verbatim>\<open>apb-core/src/validate/graph.rs\<close>: for every node, the nodes the
  graph guarantees to have finished before it runs, as a data-flow iteration over sets of ids.  The
  lemmas follow one element of the sets at a time, show that the iteration is at its fixed point
  before the cap of the loop, and give that fixed point a meaning; the notion of a node that waits
  for all its inputs is the engine's.
\<close>

section \<open>What has finished before a node runs\<close>

definition inputs_of :: "playbook \<Rightarrow> string \<Rightarrow> edge list" where
  "inputs_of pb i = filter (\<lambda>e. e_to e = i) (pb_edges pb)"

definition waits_for_all_inputs :: "string \<Rightarrow> adjacency_map \<Rightarrow> edge list \<Rightarrow> bool" where
  "waits_for_all_inputs nd adj inc =
     (if length inc < 2 then False
      else case (case List.find (\<lambda>e. e_join e \<noteq> None) inc of Some e \<Rightarrow> e_join e | None \<Rightarrow> None) of
             Some mode \<Rightarrow> mode \<noteq> ''any''
           | None \<Rightarrow> is_acyclic_fan_in adj nd (map e_from inc))"

type_synonym finished_map = "(string, string fset) fmap"

definition waiting_nodes :: "playbook \<Rightarrow> string list" where
  "waiting_nodes pb =
     filter (\<lambda>i. waits_for_all_inputs i (adjacency pb) (inputs_of pb i)) (node_ids pb)"

definition finished_seed :: "playbook \<Rightarrow> finished_map" where
  "finished_seed pb =
     foldl (\<lambda>m i. fmupd i (if inputs_of pb i \<noteq> [] then fset_of_list (node_ids pb) else fempty) m)
       fmempty (node_ids pb)"

definition arrived_with :: "playbook \<Rightarrow> finished_map \<Rightarrow> edge \<Rightarrow> string fset" where
  "arrived_with pb done e =
     (let source = e_from e; arrived = fget done fempty source
      in if source \<in> set (node_ids pb) then finsert source arrived else arrived)"

definition merged_inputs :: "playbook \<Rightarrow> finished_map \<Rightarrow> bool \<Rightarrow> edge list \<Rightarrow> string fset option" where
  "merged_inputs pb done waits inc =
     foldl (\<lambda>next e. Some (case next of
              None \<Rightarrow> arrived_with pb done e
            | Some acc \<Rightarrow>
                if waits then acc |\<union>| arrived_with pb done e else acc |\<inter>| arrived_with pb done e))
       None inc"

definition finished_node :: "playbook \<Rightarrow> finished_map \<times> bool \<Rightarrow> string \<Rightarrow> finished_map \<times> bool" where
  "finished_node pb dc i =
     (case dc of (done, changed) \<Rightarrow>
        (case inputs_of pb i of
           [] \<Rightarrow> (done, changed)
         | inc \<Rightarrow>
             (case merged_inputs pb done (i \<in> set (waiting_nodes pb)) inc of
                None \<Rightarrow> (done, changed)
              | Some new \<Rightarrow>
                  if fmlookup done i \<noteq> Some new then (fmupd i new done, True) else (done, changed))))"

definition finished_pass :: "playbook \<Rightarrow> finished_map \<Rightarrow> finished_map \<times> bool" where
  "finished_pass pb done = foldl (finished_node pb) (done, False) (node_ids pb)"

fun finished_loop :: "playbook \<Rightarrow> nat \<Rightarrow> finished_map \<Rightarrow> finished_map" where
  "finished_loop pb 0 done = done"
| "finished_loop pb (Suc k) done =
     (case finished_pass pb done of (done', changed) \<Rightarrow>
        if changed then finished_loop pb k done' else done')"

definition must_have_finished :: "playbook \<Rightarrow> finished_map" where
  "must_have_finished pb = finished_loop pb (length (node_ids pb) + 2) (finished_seed pb)"

section \<open>Waiting for every input, here and in the engine\<close>

lemma find_join: "(List.find (\<lambda>e. e_join e \<noteq> None) es = None) = list_all (\<lambda>e. e_join e = None) es"
  by (auto simp: find_None_iff list_all_iff)

lemma find_join_Some: "List.find (\<lambda>e. e_join e \<noteq> None) es = Some e \<Longrightarrow> e_join e \<noteq> None \<and> list_ex (\<lambda>e. e_join e \<noteq> None) es"
  by (auto simp: find_Some_iff list_ex_iff)

text \<open>
  The validator's notion of a node that waits for every input agrees with the engine's joins:
  it is an implicit join, or an explicit one whose mode is not \<open>any\<close>.
\<close>

theorem waits_as_engine:
  "waits_for_all_inputs nd (adjacency pb) (inputs_of pb nd) =
    (join_kind_of pb nd = Some Implicit \<or> join_kind_of pb nd = Some (Explicit Join_All))"
proof -
  have inc: "inputs_of pb nd = incoming pb nd" by (simp add: inputs_of_def incoming_def)
  show ?thesis
  proof (cases "List.find (\<lambda>e. e_join e \<noteq> None) (incoming pb nd)")
    case None
    then show ?thesis
      using find_join [of "incoming pb nd"]
      by (auto simp: waits_for_all_inputs_def inc join_kind_of_def Let_def list_ex_iff list_all_iff)
  next
    case (Some e)
    then obtain m where "e_join e = Some m" using find_join_Some [OF Some] by auto
    then show ?thesis
      using Some find_join_Some [OF Some]
      by (auto simp: waits_for_all_inputs_def inc join_kind_of_def Let_def join_mode_of_def
          first_join_def join_mode_parse_def)
  qed
qed

section \<open>What has finished, exactly\<close>

text \<open>
  \<open>starts_without pb x i\<close>: node \<open>i\<close> can start with \<open>x\<close> not finished, where a barrier is read as
  waiting for every one of its inputs.  A node without inputs can, and so can an undeclared one; a
  node that waits for all its inputs needs every one of them to arrive without \<open>x\<close>, any other node
  one of them.  The reading is the analysis's own, deliberately optimistic about conditional routing
  (the comment above \<open>must_have_finished\<close>): at run time a join also fires without an input that an
  either-or fork left dead, so such a node can start although the analysis counts the dead branch as
  finished.
\<close>

inductive starts_without :: "playbook \<Rightarrow> string \<Rightarrow> string \<Rightarrow> bool" for pb x where
  undeclared: "i \<notin> set (node_ids pb) \<Longrightarrow> starts_without pb x i"
| entry: "inputs_of pb i = [] \<Longrightarrow> starts_without pb x i"
| first: "i \<notin> set (waiting_nodes pb) \<Longrightarrow> e \<in> set (inputs_of pb i) \<Longrightarrow> e_from e \<noteq> x
    \<Longrightarrow> starts_without pb x (e_from e) \<Longrightarrow> starts_without pb x i"
| all: "i \<in> set (waiting_nodes pb) \<Longrightarrow>
    (\<And>e. e \<in> set (inputs_of pb i) \<Longrightarrow> e_from e \<noteq> x \<and> starts_without pb x (e_from e))
    \<Longrightarrow> starts_without pb x i"

text \<open>
  The sets evolve element by element: \<open>bits x done\<close> are the nodes whose set holds \<open>x\<close>, and one turn
  of the pass decides for its node from those alone.
\<close>

definition bits :: "playbook \<Rightarrow> finished_map \<Rightarrow> string \<Rightarrow> string set" where
  "bits pb done x = {i \<in> set (node_ids pb). x |\<in>| fget done fempty i}"

definition arrives :: "playbook \<Rightarrow> string \<Rightarrow> string set \<Rightarrow> edge \<Rightarrow> bool" where
  "arrives pb x T e \<longleftrightarrow> e_from e \<in> set (node_ids pb) \<and> (e_from e \<in> T \<or> e_from e = x)"

definition merge_bit :: "playbook \<Rightarrow> string \<Rightarrow> string set \<Rightarrow> string \<Rightarrow> bool" where
  "merge_bit pb x T i \<longleftrightarrow>
     (if i \<in> set (waiting_nodes pb) then list_ex (arrives pb x T) (inputs_of pb i)
      else list_all (arrives pb x T) (inputs_of pb i))"

definition must_keep :: "playbook \<Rightarrow> string \<Rightarrow> string set \<Rightarrow> string \<Rightarrow> bool" where
  "must_keep pb x T i \<longleftrightarrow> (if inputs_of pb i = [] then i \<in> T else merge_bit pb x T i)"

abbreviation bit_pass :: "playbook \<Rightarrow> string \<Rightarrow> string set \<Rightarrow> string set" where
  "bit_pass pb x \<equiv> flow_pass (must_keep pb x) (node_ids pb)"

interpretation must: shrinking_flow "node_ids pb" "must_keep pb x" for pb x
proof
  show "must_keep pb x T' i" if "T \<subseteq> T'" "must_keep pb x T i" for T T' i
    using that by (auto simp: must_keep_def merge_bit_def arrives_def list_ex_iff list_all_iff
        split: if_splits)
qed

definition declared_values :: "playbook \<Rightarrow> finished_map \<Rightarrow> bool" where
  "declared_values pb done \<longleftrightarrow>
     fset (fmdom done) = set (node_ids pb)
     \<and> (\<forall>i. fset (fget done fempty i) \<subseteq> set (node_ids pb))"

lemma fget_undeclared: "declared_values pb done \<Longrightarrow> i \<notin> set (node_ids pb) \<Longrightarrow> fget done fempty i = fempty"
  unfolding declared_values_def fget_def by (metis fmdom_notD option.simps(4))

lemma merged_fold:
  "foldl (\<lambda>next e. Some (case next of None \<Rightarrow> f e | Some acc \<Rightarrow> g acc (f e))) (Some a) es
    = Some (foldl (\<lambda>acc e. g acc (f e)) a es)"
  by (induction es arbitrary: a) auto

lemma union_fold: "fset (foldl (\<lambda>acc e. acc |\<union>| f e) a es) = fset a \<union> (\<Union>e\<in>set es. fset (f e))"
  by (induction es arbitrary: a) auto

lemma inter_fold: "fset (foldl (\<lambda>acc e. acc |\<inter>| f e) a es) = fset a \<inter> (\<Inter>e\<in>set es. fset (f e))"
  by (induction es arbitrary: a) auto

lemma merged_inputs_exact:
  assumes "inc \<noteq> []"
  shows "\<exists>new. merged_inputs pb done waits inc = Some new
    \<and> fset new = (if waits then (\<Union>e\<in>set inc. fset (arrived_with pb done e))
                  else (\<Inter>e\<in>set inc. fset (arrived_with pb done e)))"
proof -
  obtain e es where inc: "inc = e # es" using assms by (cases inc) auto
  have "merged_inputs pb done waits inc = Some (foldl (\<lambda>acc e.
      if waits then acc |\<union>| arrived_with pb done e else acc |\<inter>| arrived_with pb done e)
      (arrived_with pb done e) es)"
    using merged_fold [of "arrived_with pb done" "\<lambda>acc f. if waits then acc |\<union>| f else acc |\<inter>| f"
        "arrived_with pb done e" es]
    by (simp add: merged_inputs_def inc)
  then show ?thesis by (cases waits) (simp_all add: inc union_fold inter_fold)
qed

lemma arrived_bit:
  "declared_values pb done \<Longrightarrow> x |\<in>| arrived_with pb done e \<longleftrightarrow> arrives pb x (bits pb done x) e"
  using fget_undeclared [of pb "done" "e_from e"]
  by (auto simp: arrived_with_def arrives_def bits_def Let_def)

lemma arrived_declared:
  "declared_values pb done \<Longrightarrow> fset (arrived_with pb done e) \<subseteq> set (node_ids pb)"
  by (auto simp: arrived_with_def declared_values_def Let_def)

lemma finished_node_bits:
  assumes dv: "declared_values pb done" and i: "i \<in> set (node_ids pb)"
    and dc: "finished_node pb (done, c) i = (done', c')"
  shows "declared_values pb done' \<and> bits pb done' x = flow_step (must_keep pb x) (bits pb done x) i
    \<and> c' = (c \<or> done' \<noteq> done)"
proof (cases "inputs_of pb i")
  case Nil
  then show ?thesis using dc dv by (auto simp: finished_node_def flow_step_def must_keep_def)
next
  case (Cons e es)
  then have ne: "inputs_of pb i \<noteq> []" by simp
  obtain new where new: "merged_inputs pb done (i \<in> set (waiting_nodes pb)) (inputs_of pb i) = Some new"
    "fset new = (if i \<in> set (waiting_nodes pb) then (\<Union>e\<in>set (inputs_of pb i). fset (arrived_with pb done e))
                 else (\<Inter>e\<in>set (inputs_of pb i). fset (arrived_with pb done e)))"
    using merged_inputs_exact [OF ne] by blast
  have sub: "fset new \<subseteq> set (node_ids pb)"
    using new(2) ne arrived_declared [OF dv] Cons by (auto split: if_splits)
  have bit: "x |\<in>| new \<longleftrightarrow> merge_bit pb x (bits pb done x) i"
    using new(2) arrived_bit [OF dv] by (auto simp: merge_bit_def list_ex_iff list_all_iff)
  have d': "done' = fmupd i new done \<and> c' = (c \<or> done' \<noteq> done)"
  proof (cases "fmlookup done i = Some new")
    case True
    then have "fmupd i new done = done" by (intro fmap_ext) auto
    then show ?thesis using dc new(1) Cons True by (simp add: finished_node_def)
  next
    case False
    then have "fmupd i new done \<noteq> done" by (metis fmupd_lookup)
    then show ?thesis using dc new(1) Cons False by (simp add: finished_node_def)
  qed
  have "declared_values pb done'"
    using dv i sub d' by (auto simp: declared_values_def)
  moreover have "bits pb done' x = flow_step (must_keep pb x) (bits pb done x) i"
    using d' bit i ne by (auto simp: bits_def flow_step_def must_keep_def)
  ultimately show ?thesis using d' by blast
qed

text \<open>A pass, and the passes of the loop, element by element.\<close>

abbreviation next_pass :: "playbook \<Rightarrow> finished_map \<Rightarrow> finished_map" where
  "next_pass pb done \<equiv> fst (finished_pass pb done)"

lemma finished_fold_bits:
  "declared_values pb d \<Longrightarrow> set js \<subseteq> set (node_ids pb) \<Longrightarrow>
    foldl (finished_node pb) (d, c) js = (d', c') \<Longrightarrow>
    declared_values pb d' \<and> bits pb d' x = flow_pass (must_keep pb x) js (bits pb d x)
      \<and> (\<not> c' \<longrightarrow> \<not> c \<and> d' = d)"
proof (induction js arbitrary: d c)
  case Nil
  then show ?case by (simp add: flow_pass_def)
next
  case (Cons j js)
  obtain e b where eb: "finished_node pb (d, c) j = (e, b)" by fastforce
  have "declared_values pb e \<and> bits pb e x = flow_step (must_keep pb x) (bits pb d x) j \<and> b = (c \<or> e \<noteq> d)"
    using finished_node_bits [OF Cons.prems(1) _ eb] Cons.prems(2) by simp
  then show ?case using Cons.IH [of e b] Cons.prems(2,3) eb by (auto simp: flow_pass_def)
qed

lemma next_pass_bits:
  assumes "declared_values pb d"
  shows "declared_values pb (next_pass pb d)" "bits pb (next_pass pb d) x = bit_pass pb x (bits pb d x)"
    "\<not> snd (finished_pass pb d) \<Longrightarrow> next_pass pb d = d"
proof -
  obtain d' c where dc: "finished_pass pb d = (d', c)" by fastforce
  then have "foldl (finished_node pb) (d, False) (node_ids pb) = (d', c)" by (simp add: finished_pass_def)
  from finished_fold_bits [OF assms _ this, of x] dc
  show "declared_values pb (next_pass pb d)" "bits pb (next_pass pb d) x = bit_pass pb x (bits pb d x)"
    "\<not> snd (finished_pass pb d) \<Longrightarrow> next_pass pb d = d"
    by simp_all
qed

lemma passes_bits:
  "declared_values pb d \<Longrightarrow> declared_values pb ((next_pass pb ^^ k) d)
    \<and> bits pb ((next_pass pb ^^ k) d) x = (bit_pass pb x ^^ k) (bits pb d x)"
  by (induction k) (simp_all add: next_pass_bits)

lemma bits_ext:
  assumes "declared_values pb d" "declared_values pb d'" "\<And>x. bits pb d x = bits pb d' x"
  shows "d = d'"
proof (rule fmap_ext)
  fix i
  show "fmlookup d i = fmlookup d' i"
  proof (cases "i \<in> set (node_ids pb)")
    case True
    then have "i |\<in>| fmdom d" "i |\<in>| fmdom d'" using assms(1,2) by (auto simp: declared_values_def)
    then obtain a b where ab: "fmlookup d i = Some a" "fmlookup d' i = Some b" by (auto elim!: fmdomE)
    have "x |\<in>| a \<longleftrightarrow> x |\<in>| b" for x
    proof -
      have "i \<in> bits pb d x \<longleftrightarrow> i \<in> bits pb d' x" using assms(3) by simp
      then show ?thesis using True ab by (simp add: bits_def fget_def)
    qed
    then show ?thesis using ab by auto
  next
    case False
    then have "i |\<notin>| fmdom d" "i |\<notin>| fmdom d'" using assms(1,2) by (auto simp: declared_values_def)
    then show ?thesis by (simp add: fmdom_notD)
  qed
qed

section \<open>The loop ends at the fixed point\<close>

lemma seed_lookup:
  "fmlookup (foldl (\<lambda>m i. fmupd i (f i) m) m js) i = (if i \<in> set js then Some (f i) else fmlookup m i)"
  by (induction js arbitrary: m) auto

lemma seed_get:
  "fget (finished_seed pb) fempty i =
    (if i \<in> set (node_ids pb) \<and> inputs_of pb i \<noteq> [] then fset_of_list (node_ids pb) else fempty)"
  by (simp add: finished_seed_def fget_def seed_lookup)

lemma seed_declared: "declared_values pb (finished_seed pb)"
proof -
  have "i |\<in>| fmdom (finished_seed pb) \<longleftrightarrow> i \<in> set (node_ids pb)" for i
    by (simp add: finished_seed_def fmlookup_dom_iff seed_lookup)
  then show ?thesis by (auto simp: declared_values_def seed_get fset_of_list.rep_eq)
qed

lemma seed_bits:
  "bits pb (finished_seed pb) x =
    (if x \<in> set (node_ids pb) then {i \<in> set (node_ids pb). inputs_of pb i \<noteq> []} else {})"
  by (auto simp: bits_def seed_get fset_of_list.rep_eq)

lemma arrives_undeclared: "x \<notin> set (node_ids pb) \<Longrightarrow> \<not> arrives pb x {} e"
  by (auto simp: arrives_def)

lemma seed_shrinking: "flow_shrinking (must_keep pb x) (node_ids pb) (bits pb (finished_seed pb) x)"
proof (cases "x \<in> set (node_ids pb)")
  case False
  have "\<not> merge_bit pb x {} i" if "inputs_of pb i \<noteq> []" for i
    using that arrives_undeclared [OF False]
    by (auto simp: merge_bit_def list_ex_iff list_all_iff neq_Nil_conv)
  then show ?thesis using False by (auto simp: flow_shrinking_def must_keep_def seed_bits split: if_splits)
qed (auto simp: flow_shrinking_def must_keep_def seed_bits)

lemma bit_passes_fixed:
  "bit_pass pb x ((bit_pass pb x ^^ length (node_ids pb)) (bits pb (finished_seed pb) x))
    = (bit_pass pb x ^^ length (node_ids pb)) (bits pb (finished_seed pb) x)"
  by (rule must.passes_fixed [OF seed_shrinking]) (auto simp: bits_def)

lemma must_passes_fixed:
  "next_pass pb ((next_pass pb ^^ length (node_ids pb)) (finished_seed pb))
    = (next_pass pb ^^ length (node_ids pb)) (finished_seed pb)" (is "next_pass pb ?d = ?d")
proof (rule bits_ext)
  show d: "declared_values pb ?d" using passes_bits [OF seed_declared] by blast
  show "declared_values pb (next_pass pb ?d)" using next_pass_bits(1) [OF d] .
  fix x
  show "bits pb (next_pass pb ?d) x = bits pb ?d x"
    using next_pass_bits(2) [OF d] passes_bits [OF seed_declared] bit_passes_fixed by simp
qed

lemma finished_loop_fixed:
  "declared_values pb d \<Longrightarrow> next_pass pb ((next_pass pb ^^ m) d) = (next_pass pb ^^ m) d \<Longrightarrow> m \<le> k
    \<Longrightarrow> finished_loop pb k d = (next_pass pb ^^ m) d"
proof (induction k arbitrary: d m)
  case 0
  then show ?case by simp
next
  case (Suc k)
  obtain d' c where dc: "finished_pass pb d = (d', c)" by fastforce
  show ?case
  proof (cases "d' = d")
    case True
    then have id: "next_pass pb d = d" using dc by simp
    have same: "(next_pass pb ^^ j) d = d" for j by (induction j) (simp_all add: id)
    then show ?thesis using Suc.IH [of d 0] Suc.prems(1) dc True id same by simp
  next
    case False
    then have c: "c" using next_pass_bits(3) [OF Suc.prems(1)] dc by fastforce
    obtain j where j: "m = Suc j" using Suc.prems(2) False dc by (cases m) auto
    have "declared_values pb d'" using next_pass_bits(1) [OF Suc.prems(1)] dc by simp
    moreover have "(next_pass pb ^^ j) d' = (next_pass pb ^^ m) d"
      using dc funpow_swap1 [of "next_pass pb" j d] by (simp add: j)
    ultimately show ?thesis using Suc.IH [of d' j] Suc.prems(2,3) dc c j by simp
  qed
qed

lemma must_have_finished_passes:
  "must_have_finished pb = (next_pass pb ^^ length (node_ids pb)) (finished_seed pb)"
  unfolding must_have_finished_def
  by (rule finished_loop_fixed [OF seed_declared must_passes_fixed]) simp

section \<open>The fixed point is what the graph guarantees\<close>

text \<open>A node outside the set of \<open>x\<close> can start without it: at every point of the iteration.\<close>

definition sound_bits :: "playbook \<Rightarrow> string \<Rightarrow> string set \<Rightarrow> bool" where
  "sound_bits pb x T \<longleftrightarrow> (\<forall>i\<in>set (node_ids pb). i \<notin> T \<longrightarrow> starts_without pb x i)"

lemma not_arrives:
  "x \<in> set (node_ids pb) \<Longrightarrow> sound_bits pb x T \<Longrightarrow> \<not> arrives pb x T e \<Longrightarrow>
    e_from e \<noteq> x \<and> starts_without pb x (e_from e)"
  by (auto simp: arrives_def sound_bits_def intro: starts_without.undeclared)

lemma step_sound:
  assumes "x \<in> set (node_ids pb)" "sound_bits pb x T"
  shows "sound_bits pb x (flow_step (must_keep pb x) T i)"
proof (cases "inputs_of pb i = [] \<or> merge_bit pb x T i")
  case True
  then show ?thesis using assms(2) by (auto simp: flow_step_def must_keep_def sound_bits_def)
next
  case False
  have "starts_without pb x i"
  proof (cases "i \<in> set (waiting_nodes pb)")
    case True
    then have "\<forall>e\<in>set (inputs_of pb i). \<not> arrives pb x T e"
      using False by (auto simp: merge_bit_def list_ex_iff)
    then show ?thesis using True not_arrives [OF assms] by (blast intro: starts_without.all)
  next
    case nw: False
    then obtain e where "e \<in> set (inputs_of pb i)" "\<not> arrives pb x T e"
      using False by (auto simp: merge_bit_def list_all_iff)
    then show ?thesis using nw not_arrives [OF assms] by (blast intro: starts_without.first)
  qed
  then show ?thesis using assms(2) False by (auto simp: flow_step_def must_keep_def sound_bits_def)
qed

lemma passes_sound:
  assumes "x \<in> set (node_ids pb)"
  shows "sound_bits pb x ((bit_pass pb x ^^ k) (bits pb (finished_seed pb) x))"
proof (rule must.passes_invariant)
  show "sound_bits pb x (bits pb (finished_seed pb) x)"
    using assms by (auto simp: sound_bits_def seed_bits intro: starts_without.entry)
qed (rule step_sound [OF assms])

text \<open>At the fixed point a node in the set of \<open>x\<close> cannot start without it.\<close>

lemma fixed_complete:
  assumes start: "starts_without pb x i"
    and keeps: "\<forall>j\<in>T. must_keep pb x T j"
    and T: "T \<subseteq> {j \<in> set (node_ids pb). inputs_of pb j \<noteq> []}"
  shows "i \<notin> T"
proof -
  have meet: "merge_bit pb x T j" if "j \<in> T" for j
    using that keeps T by (auto simp: must_keep_def split: if_splits)
  from start show ?thesis
  proof (induction rule: starts_without.induct)
    case (undeclared i)
    then show ?case using T by auto
  next
    case (entry i)
    then show ?case using T by auto
  next
    case (first i e)
    then have "\<not> merge_bit pb x T i" by (auto simp: merge_bit_def list_all_iff arrives_def)
    then show ?case using meet by blast
  next
    case (all i)
    then have "\<not> merge_bit pb x T i" by (auto simp: merge_bit_def list_ex_iff arrives_def)
    then show ?case using meet by blast
  qed
qed

lemma finished_bits:
  assumes x: "x \<in> set (node_ids pb)" and i: "i \<in> set (node_ids pb)"
  shows "i \<in> bits pb (must_have_finished pb) x \<longleftrightarrow> \<not> starts_without pb x i"
proof -
  let ?n = "length (node_ids pb)" and ?S = "bits pb (finished_seed pb) x"
  let ?T = "(bit_pass pb x ^^ ?n) ?S"
  have bits: "bits pb (must_have_finished pb) x = ?T"
    using passes_bits [OF seed_declared] by (simp add: must_have_finished_passes)
  have sub: "?T \<subseteq> ?S" and shr: "flow_shrinking (must_keep pb x) (node_ids pb) ?T"
    using must.passes_shrink [OF seed_shrinking] by blast+
  have "?S \<subseteq> set (node_ids pb)" by (auto simp: bits_def)
  then have "\<forall>j\<in>?T. must_keep pb x ?T j"
    using must.fixed_keeps [OF shr bit_passes_fixed] sub by blast
  moreover note sub
  moreover have "?S \<subseteq> {j \<in> set (node_ids pb). inputs_of pb j \<noteq> []}" by (auto simp: seed_bits)
  ultimately have "starts_without pb x i \<Longrightarrow> i \<notin> ?T"
    using fixed_complete by (meson subset_trans)
  moreover have "i \<notin> ?T \<Longrightarrow> starts_without pb x i"
    using passes_sound [OF x, of ?n] i by (simp add: sound_bits_def)
  ultimately show ?thesis using bits by blast
qed

text \<open>
  C18: the must-analysis returns, for every declared node and no other, exactly the declared nodes
  without which it cannot start when a barrier waits for every one of its inputs.  That is the
  documented, optimistic reading of a barrier: a branch that an either-or fork leaves dead counts as
  finished, although at run time the join fires without it.  The cap on the passes is never what
  ends the iteration: the answer is a fixed point of the pass, and every cap from the number of
  nodes up gives the same one.
\<close>

theorem must_have_finished_exact:
  "(\<exists>S. fmlookup (must_have_finished pb) i = Some S \<and> x |\<in>| S) =
     (i \<in> set (node_ids pb) \<and> x \<in> set (node_ids pb) \<and> \<not> starts_without pb x i)
   \<and> (fmlookup (must_have_finished pb) i \<noteq> None) = (i \<in> set (node_ids pb))
   \<and> next_pass pb (must_have_finished pb) = must_have_finished pb
   \<and> finished_loop pb (length (node_ids pb) + m) (finished_seed pb) = must_have_finished pb"
proof -
  have d: "declared_values pb (must_have_finished pb)"
    using passes_bits [OF seed_declared] by (simp add: must_have_finished_passes)
  have dom: "(fmlookup (must_have_finished pb) i \<noteq> None) = (i \<in> set (node_ids pb))"
    using d by (simp add: declared_values_def fmlookup_dom_iff set_eq_iff)
  have "(\<exists>S. fmlookup (must_have_finished pb) i = Some S \<and> x |\<in>| S)
      = (x |\<in>| fget (must_have_finished pb) fempty i)"
    by (auto simp: fget_def split: option.splits)
  also have "\<dots> = (i \<in> set (node_ids pb) \<and> x \<in> set (node_ids pb)
      \<and> i \<in> bits pb (must_have_finished pb) x)"
    using d fget_undeclared [OF d, of i] by (auto simp: bits_def declared_values_def)
  also have "\<dots> = (i \<in> set (node_ids pb) \<and> x \<in> set (node_ids pb) \<and> \<not> starts_without pb x i)"
    using finished_bits by blast
  finally show ?thesis
    using dom must_passes_fixed [of pb] finished_loop_fixed [OF seed_declared must_passes_fixed]
    by (simp add: must_have_finished_passes)
qed

end
