(* ===== verification/Fork_Region.thy ===== *)
theory Fork_Region
  imports Flow Graph_Util "HOL-Library.While_Combinator"
begin

text \<open>
  The structure of a fork, \<^verbatim>\<open>apb-core/src/fork.rs\<close>: its heads, the nodes some head
  dominates in the graph rooted at the fork, and the joins its branches reach along their normal
  path.  The dominator table is the code's iteration until nothing changes (\<open>while_option\<close>, so that
  a loop that never ends would be \<open>None\<close>); it is shown to end, and to hold exactly the nodes every
  path from the fork passes.
\<close>

section \<open>Definitions\<close>

record fork_region =
  fr_fork :: string
  fr_heads :: "string list"
  fr_branches :: "string fset"
  fr_joins :: "string fset"

definition fork_heads :: "playbook \<Rightarrow> string \<Rightarrow> string list" where
  "fork_heads pb fork =
     foldl (\<lambda>heads e.
         if e_condition e = None \<and> \<not> e_fallback e \<and> e_to e \<noteq> fork \<and> e_to e \<notin> set heads
         then heads @ [e_to e] else heads)
       [] (filter (\<lambda>e. e_from e = fork) (pb_edges pb))"

definition is_failure_route :: "edge \<Rightarrow> bool" where
  "is_failure_route e =
     (e_fallback e
      \<or> (case e_condition e of Some (Node_Status n Eq_Failure) \<Rightarrow> n = e_from e | _ \<Rightarrow> False))"

definition dom_succ :: "playbook \<Rightarrow> string \<Rightarrow> string \<Rightarrow> string list" where
  "dom_succ pb root n = map e_to (filter (\<lambda>e. e_to e \<noteq> root \<and> e_from e = n) (pb_edges pb))"

definition dom_pred :: "playbook \<Rightarrow> string \<Rightarrow> string \<Rightarrow> string list" where
  "dom_pred pb root n = map e_from (filter (\<lambda>e. e_to e \<noteq> root \<and> e_to e = n) (pb_edges pb))"

text \<open>The nodes reachable from the root, in the order they are first seen.\<close>

function dom_order :: "playbook \<Rightarrow> string \<Rightarrow> string list \<Rightarrow> string list \<Rightarrow> string list" where
  "dom_order pb root order [] = order"
| "dom_order pb root order (n # q) =
     (if n \<in> set order then dom_order pb root order q
      else dom_order pb root (order @ [n]) (q @ dom_succ pb root n))"
  by pat_completeness auto
termination
proof (relation "measures [\<lambda>(pb, root, order, q). card ((e_to ` set (pb_edges pb) \<union> set q) - set order),
                           \<lambda>(pb, root, order, q). length q]", simp, goal_cases)
  case (1 pb root order n q)
  then have "(e_to ` set (pb_edges pb) \<union> set (n # q)) - set order
      = (e_to ` set (pb_edges pb) \<union> set q) - set order" by auto
  then show ?case by simp
next
  case (2 pb root order n q)
  have "set (dom_succ pb root n) \<subseteq> e_to ` set (pb_edges pb)" by (auto simp: dom_succ_def)
  then have "(e_to ` set (pb_edges pb) \<union> set (q @ dom_succ pb root n)) - set (order @ [n])
      \<subset> (e_to ` set (pb_edges pb) \<union> set (n # q)) - set order" using 2 by auto
  then have "card ((e_to ` set (pb_edges pb) \<union> set (q @ dom_succ pb root n)) - set (order @ [n]))
      < card ((e_to ` set (pb_edges pb) \<union> set (n # q)) - set order)"
    by (rule psubset_card_mono [rotated]) simp
  then show ?case by simp
qed

type_synonym dom_map = "(string, string fset) fmap"

definition dom_init :: "string \<Rightarrow> string list \<Rightarrow> dom_map" where
  "dom_init root order =
     foldl (\<lambda>m n. fmupd n (if n = root then {|root|} else fset_of_list order) m) fmempty order"

definition dom_meet :: "playbook \<Rightarrow> string \<Rightarrow> string list \<Rightarrow> dom_map \<Rightarrow> string \<Rightarrow> string fset" where
  "dom_meet pb root order tab n =
     (case foldl (\<lambda>next p. Some (case next of
                     None \<Rightarrow> fget tab fempty p | Some acc \<Rightarrow> acc |\<inter>| fget tab fempty p))
             None (filter (\<lambda>p. p \<in> set order) (dom_pred pb root n)) of
        Some s \<Rightarrow> s | None \<Rightarrow> fempty)"

definition dom_node :: "playbook \<Rightarrow> string \<Rightarrow> string list \<Rightarrow> dom_map \<times> bool \<Rightarrow> string \<Rightarrow> dom_map \<times> bool" where
  "dom_node pb root order dc n =
     (case dc of (tab, changed) \<Rightarrow>
        let new = finsert n (dom_meet pb root order tab n)
        in if fget tab fempty n \<noteq> new then (fmupd n new tab, True) else (tab, changed))"

definition dom_pass :: "playbook \<Rightarrow> string \<Rightarrow> string list \<Rightarrow> dom_map \<Rightarrow> dom_map \<times> bool" where
  "dom_pass pb root order tab = foldl (dom_node pb root order) (tab, False) (tl order)"

definition dom_loop :: "playbook \<Rightarrow> string \<Rightarrow> string list \<Rightarrow> dom_map \<Rightarrow> (dom_map \<times> bool) option" where
  "dom_loop pb root order tab =
     while_option (\<lambda>(d, changed). changed) (\<lambda>(d, _). dom_pass pb root order d) (tab, True)"

definition dominators :: "playbook \<Rightarrow> string \<Rightarrow> dom_map" where
  "dominators pb root =
     (let order = dom_order pb root [] [root]
      in case dom_loop pb root order (dom_init root order) of
           Some (d, _) \<Rightarrow> d | None \<Rightarrow> fmempty)"

definition fork_branches :: "playbook \<Rightarrow> string \<Rightarrow> string fset" where
  "fork_branches pb fork =
     (let heads = fork_heads pb fork; tab = dominators pb fork
      in ffilter (\<lambda>n. n \<noteq> fork \<and> list_ex (\<lambda>h. h |\<in>| fget tab fempty n) heads) (fmdom tab))"

definition fork_joins :: "playbook \<Rightarrow> string \<Rightarrow> string fset \<Rightarrow> string fset" where
  "fork_joins pb fork branches =
     fset_of_list (map e_to (filter (\<lambda>e. e_from e |\<in>| branches \<and> e_to e |\<notin>| branches
        \<and> e_to e \<noteq> fork \<and> \<not> is_failure_route e) (pb_edges pb)))"

definition fork_region_of :: "playbook \<Rightarrow> string \<Rightarrow> fork_region option" where
  "fork_region_of pb fork =
     (let heads = fork_heads pb fork
      in if length heads < 2 then None
         else let branches = fork_branches pb fork
              in Some \<lparr> fr_fork = fork, fr_heads = heads, fr_branches = branches,
                        fr_joins = fork_joins pb fork branches \<rparr>)"

definition region_contains :: "fork_region \<Rightarrow> string \<Rightarrow> bool" where
  "region_contains r n = (n |\<in>| fr_branches r)"

definition enclosing_fork :: "playbook \<Rightarrow> string \<Rightarrow> node \<Rightarrow> (fork_region \<times> branch_failure_policy) option" where
  "enclosing_fork pb nd n =
     (case n_fork n of
        None \<Rightarrow> None
      | Some spec \<Rightarrow>
          if fs_on_branch_failure spec = Policy_Wait then None
          else (case fork_region_of pb (n_id n) of
                  None \<Rightarrow> None
                | Some region \<Rightarrow>
                    if region_contains region nd then Some (region, fs_on_branch_failure spec) else None))"

definition enclosing_forks :: "playbook \<Rightarrow> string \<Rightarrow> (fork_region \<times> branch_failure_policy) list" where
  "enclosing_forks pb nd =
     sort_key (\<lambda>(region, _). fcard (fr_branches region))
       (List.map_filter (enclosing_fork pb nd) (pb_nodes pb))"

section \<open>The graph rooted at the fork\<close>

definition fork_rel :: "playbook \<Rightarrow> string \<Rightarrow> (string \<times> string) set" where
  "fork_rel pb root = {(a, b) \<in> edge_rel pb. b \<noteq> root}"

text \<open>The edges that avoid \<open>x\<close>; \<open>x\<close> dominates \<open>n\<close> when no path of them leads from the root to \<open>n\<close>.\<close>

definition avoiding :: "playbook \<Rightarrow> string \<Rightarrow> string \<Rightarrow> (string \<times> string) set" where
  "avoiding pb root x = {(a, b) \<in> fork_rel pb root. a \<noteq> x \<and> b \<noteq> x}"

definition dominates :: "playbook \<Rightarrow> string \<Rightarrow> string \<Rightarrow> string \<Rightarrow> bool" where
  "dominates pb root x n \<longleftrightarrow> x = root \<or> (root, n) \<notin> (avoiding pb root x)\<^sup>*"

lemma dom_succ_set: "b \<in> set (dom_succ pb root a) \<longleftrightarrow> (a, b) \<in> fork_rel pb root"
  by (force simp: dom_succ_def fork_rel_def edge_rel_def)

lemma dom_pred_set: "a \<in> set (dom_pred pb root b) \<longleftrightarrow> (a, b) \<in> fork_rel pb root"
  by (force simp: dom_pred_def fork_rel_def edge_rel_def)

lemma dom_order_sound:
  "set (dom_order pb root order q) \<subseteq> set order \<union> (fork_rel pb root)\<^sup>* `` set q"
proof (induction pb root order q rule: dom_order.induct)
  case (2 pb root order n q)
  show ?case
  proof (cases "n \<in> set order")
    case True
    then show ?thesis using 2(1) by auto
  next
    case False
    let ?R = "(fork_rel pb root)\<^sup>*"
    have "?R `` set (dom_succ pb root n) \<subseteq> ?R `` {n}"
      by (auto simp: dom_succ_set intro: converse_rtrancl_into_rtrancl)
    moreover have "n \<in> ?R `` {n}" by auto
    moreover have "set (dom_order pb root (order @ [n]) (q @ dom_succ pb root n))
        \<subseteq> insert n (set order) \<union> (?R `` set q \<union> ?R `` set (dom_succ pb root n))"
    proof -
      have "set (order @ [n]) = insert n (set order)"
        "?R `` set (q @ dom_succ pb root n) = ?R `` set q \<union> ?R `` set (dom_succ pb root n)"
        by auto
      then show ?thesis using 2(2) [OF False] by metis
    qed
    ultimately have "set (dom_order pb root (order @ [n]) (q @ dom_succ pb root n))
        \<subseteq> set order \<union> (?R `` {n} \<union> ?R `` set q)" by (rule reach_step_subset)
    moreover have "?R `` set (n # q) = ?R `` {n} \<union> ?R `` set q" by auto
    ultimately show ?thesis using False by (simp only: dom_order.simps if_False)
  qed
qed simp

lemma dom_order_complete:
  assumes "\<And>a b. a \<in> set order \<Longrightarrow> (a, b) \<in> fork_rel pb root \<Longrightarrow> b \<in> set order \<or> b \<in> set q"
  shows "set order \<union> set q \<subseteq> set (dom_order pb root order q)
    \<and> fork_rel pb root `` set (dom_order pb root order q) \<subseteq> set (dom_order pb root order q)"
  using assms
proof (induction pb root order q rule: dom_order.induct)
  case (2 pb root order n q)
  show ?case
  proof (cases "n \<in> set order")
    case True
    then have "set order \<union> set q \<subseteq> set (dom_order pb root order q)
        \<and> fork_rel pb root `` set (dom_order pb root order q) \<subseteq> set (dom_order pb root order q)"
      using 2(1) 2(3) by fastforce
    then show ?thesis using True by auto
  next
    case False
    have "b \<in> set (order @ [n]) \<or> b \<in> set (q @ dom_succ pb root n)"
      if "a \<in> set (order @ [n])" "(a, b) \<in> fork_rel pb root" for a b
      using that 2(3) [of a b] by (auto simp: dom_succ_set)
    from 2(2) [OF False this] show ?thesis using False by auto
  qed
qed auto

lemma dom_order_prefix: "\<exists>zs. dom_order pb root order q = order @ zs"
  by (induction pb root order q rule: dom_order.induct) auto

lemma dom_order_distinct: "distinct order \<Longrightarrow> distinct (dom_order pb root order q)"
  by (induction pb root order q rule: dom_order.induct) auto

abbreviation reached :: "playbook \<Rightarrow> string \<Rightarrow> string list" where
  "reached pb root \<equiv> dom_order pb root [] [root]"

lemma reached_set: "set (reached pb root) = (fork_rel pb root)\<^sup>* `` {root}"
proof
  show "set (reached pb root) \<subseteq> (fork_rel pb root)\<^sup>* `` {root}"
    using dom_order_sound [of pb root "[]" "[root]"] by simp
  have c: "set [root] \<subseteq> set (reached pb root)"
    "fork_rel pb root `` set (reached pb root) \<subseteq> set (reached pb root)"
    using dom_order_complete [of "[]" pb root "[root]"] by (simp_all del: dom_order.simps)
  then show "(fork_rel pb root)\<^sup>* `` {root} \<subseteq> set (reached pb root)"
    using closed_rtrancl [OF c(2)] by (auto simp del: dom_order.simps)
qed

lemma reached_root: "reached pb root = root # tl (reached pb root)"
  using dom_order_prefix [of pb root "[root]" "dom_succ pb root root"] by auto

section \<open>The table, element by element\<close>

definition dom_bits :: "string list \<Rightarrow> dom_map \<Rightarrow> string \<Rightarrow> string set" where
  "dom_bits order d x = {n \<in> set order. x |\<in>| fget d fempty n}"

definition dom_keep :: "playbook \<Rightarrow> string \<Rightarrow> string list \<Rightarrow> string \<Rightarrow> string set \<Rightarrow> string \<Rightarrow> bool" where
  "dom_keep pb root order x T n \<longleftrightarrow>
     (if n = root then n \<in> T
      else n = x \<or> (\<exists>p\<in>set order. (p, n) \<in> fork_rel pb root)
        \<and> (\<forall>p\<in>set order. (p, n) \<in> fork_rel pb root \<longrightarrow> p \<in> T))"

interpretation dom: shrinking_flow order "dom_keep pb root order x" for pb root order x
proof
  show "dom_keep pb root order x T' n" if "T \<subseteq> T'" "dom_keep pb root order x T n" for T T' n
    using that by (auto simp: dom_keep_def split: if_splits)
qed

lemma meet_fold:
  "foldl (\<lambda>next p. Some (case next of None \<Rightarrow> f p | Some acc \<Rightarrow> acc |\<inter>| f p)) (Some a) ps
    = Some (foldl (\<lambda>acc p. acc |\<inter>| f p) a ps)"
  by (induction ps arbitrary: a) auto

lemma meet_set: "x |\<in>| foldl (\<lambda>acc p. acc |\<inter>| f p) a ps \<longleftrightarrow> x |\<in>| a \<and> (\<forall>p\<in>set ps. x |\<in>| f p)"
  by (induction ps arbitrary: a) auto

lemma dom_meet_bit:
  "x |\<in>| dom_meet pb root order d n \<longleftrightarrow>
    (\<exists>p\<in>set order. (p, n) \<in> fork_rel pb root)
    \<and> (\<forall>p\<in>set order. (p, n) \<in> fork_rel pb root \<longrightarrow> x |\<in>| fget d fempty p)"
proof -
  let ?ps = "filter (\<lambda>p. p \<in> set order) (dom_pred pb root n)"
  have ps: "p \<in> set ?ps \<longleftrightarrow> p \<in> set order \<and> (p, n) \<in> fork_rel pb root" for p
    by (auto simp: dom_pred_set)
  have "x |\<in>| dom_meet pb root order d n \<longleftrightarrow> ?ps \<noteq> [] \<and> (\<forall>p\<in>set ?ps. x |\<in>| fget d fempty p)"
    by (cases ?ps) (simp_all add: dom_meet_def meet_fold meet_set)
  also have "\<dots> \<longleftrightarrow> (\<exists>p. p \<in> set ?ps) \<and> (\<forall>p\<in>set ?ps. x |\<in>| fget d fempty p)"
    by (cases ?ps) auto
  finally show ?thesis using ps by (simp del: set_filter) blast
qed

definition tab_ok :: "string list \<Rightarrow> dom_map \<Rightarrow> bool" where
  "tab_ok order d \<longleftrightarrow> fset (fmdom d) = set order \<and> (\<forall>n. fset (fget d fempty n) \<subseteq> set order)"

lemma dom_meet_inside: "tab_ok order d \<Longrightarrow> fset (dom_meet pb root order d n) \<subseteq> set order"
  using dom_meet_bit [of _ pb root order d n] by (fastforce simp: tab_ok_def)

lemma dom_node_bits:
  assumes ok: "tab_ok order d" and n: "n \<in> set order" "n \<noteq> root"
    and dc: "dom_node pb root order (d, c) n = (d', c')"
  shows "tab_ok order d' \<and> dom_bits order d' x = flow_step (dom_keep pb root order x) (dom_bits order d x) n
    \<and> c' = (c \<or> d' \<noteq> d)"
proof -
  let ?new = "finsert n (dom_meet pb root order d n)"
  have sub: "fset ?new \<subseteq> set order" using dom_meet_inside [OF ok] n(1) by simp
  have d': "d' = fmupd n ?new d \<and> c' = (c \<or> d' \<noteq> d)"
  proof (cases "fget d fempty n = ?new")
    case True
    have "n |\<in>| fmdom d" using ok n(1) by (auto simp: tab_ok_def)
    then have "fmlookup d n = Some ?new" using True by (auto simp: fget_def elim: fmdomE)
    then have "fmupd n ?new d = d" by (intro fmap_ext) auto
    then show ?thesis using dc True by (simp add: dom_node_def Let_def)
  next
    case False
    then have "fmupd n ?new d \<noteq> d" by (metis fget_upd)
    then show ?thesis using dc False by (simp add: dom_node_def Let_def)
  qed
  have "tab_ok order d'" using ok n(1) sub d' by (auto simp: tab_ok_def)
  moreover have "x |\<in>| ?new \<longleftrightarrow> dom_keep pb root order x (dom_bits order d x) n"
    using n(2) dom_meet_bit [of x pb root order d n] by (auto simp: dom_keep_def dom_bits_def)
  then have "dom_bits order d' x = flow_step (dom_keep pb root order x) (dom_bits order d x) n"
    using d' n(1) by (auto simp: dom_bits_def flow_step_def)
  ultimately show ?thesis using d' by blast
qed

lemma dom_fold_bits:
  "tab_ok order d \<Longrightarrow> set js \<subseteq> set order - {root} \<Longrightarrow>
    foldl (dom_node pb root order) (d, c) js = (d', c') \<Longrightarrow>
    tab_ok order d' \<and> dom_bits order d' x = flow_pass (dom_keep pb root order x) js (dom_bits order d x)
      \<and> (\<not> c' \<longrightarrow> \<not> c \<and> d' = d)"
proof (induction js arbitrary: d c)
  case Nil
  then show ?case by (simp add: flow_pass_def)
next
  case (Cons j js)
  obtain e b where eb: "dom_node pb root order (d, c) j = (e, b)" by fastforce
  have "tab_ok order e \<and> dom_bits order e x = flow_step (dom_keep pb root order x) (dom_bits order d x) j
      \<and> b = (c \<or> e \<noteq> d)"
    using dom_node_bits [OF Cons.prems(1) _ _ eb] Cons.prems(2) by simp
  then show ?case using Cons.IH [of e b] Cons.prems(2,3) eb by (auto simp: flow_pass_def)
qed

lemma dom_bits_ext:
  assumes "tab_ok order d" "tab_ok order d'" "\<And>x. dom_bits order d x = dom_bits order d' x"
  shows "d = d'"
proof (rule fmap_ext)
  fix i
  show "fmlookup d i = fmlookup d' i"
  proof (cases "i \<in> set order")
    case True
    then have "i |\<in>| fmdom d" "i |\<in>| fmdom d'" using assms(1,2) by (auto simp: tab_ok_def)
    then obtain a b where ab: "fmlookup d i = Some a" "fmlookup d' i = Some b" by (auto elim!: fmdomE)
    have "x |\<in>| a \<longleftrightarrow> x |\<in>| b" for x
    proof -
      have "i \<in> dom_bits order d x \<longleftrightarrow> i \<in> dom_bits order d' x" using assms(3) by simp
      then show ?thesis using True ab by (simp add: dom_bits_def fget_def)
    qed
    then show ?thesis using ab by auto
  next
    case False
    then have "i |\<notin>| fmdom d" "i |\<notin>| fmdom d'" using assms(1,2) by (auto simp: tab_ok_def)
    then show ?thesis by (simp add: fmdom_notD)
  qed
qed

text \<open>A fold that ends where it began changed nothing on the way.\<close>

lemma dom_fold_still:
  "tab_ok order d \<Longrightarrow> set js \<subseteq> set order - {root} \<Longrightarrow>
    (\<And>x j. j \<in> set js \<Longrightarrow> flow_step (dom_keep pb root order x) (dom_bits order d x) j = dom_bits order d x) \<Longrightarrow>
    foldl (dom_node pb root order) (d, c) js = (d, c)"
proof (induction js)
  case (Cons j js)
  obtain e b where eb: "dom_node pb root order (d, c) j = (e, b)" by fastforce
  have e: "tab_ok order e \<and> dom_bits order e x = flow_step (dom_keep pb root order x) (dom_bits order d x) j
      \<and> b = (c \<or> e \<noteq> d)" for x
    using dom_node_bits [OF Cons.prems(1) _ _ eb] Cons.prems(2) by simp
  then have "e = d" using dom_bits_ext [OF _ Cons.prems(1)] Cons.prems(3) by simp
  then have "dom_node pb root order (d, c) j = (d, c)" using eb e by simp
  then show ?case using Cons by simp
qed simp

section \<open>The iteration ends at its fixed point\<close>

declare dom_order.simps [simp del]

lemma reached_parts:
  obtains js where "reached pb root = root # js" "set js = set (reached pb root) - {root}"
proof -
  obtain js where js: "reached pb root = root # js" using reached_root by blast
  have "distinct (reached pb root)" by (rule dom_order_distinct) simp
  then have "root \<notin> set js" unfolding js by simp
  then show ?thesis using that js by auto
qed

abbreviation dom_next :: "playbook \<Rightarrow> string \<Rightarrow> dom_map \<Rightarrow> dom_map" where
  "dom_next pb root d \<equiv> fst (dom_pass pb root (reached pb root) d)"

abbreviation dom_flow :: "playbook \<Rightarrow> string \<Rightarrow> string \<Rightarrow> string set \<Rightarrow> string set" where
  "dom_flow pb root x \<equiv> flow_pass (dom_keep pb root (reached pb root) x) (reached pb root)"

lemma flow_pass_root:
  "flow_pass (dom_keep pb root order x) (root # js) T = flow_pass (dom_keep pb root order x) js T"
proof -
  have "flow_step (dom_keep pb root order x) T root = T"
    by (auto simp: flow_step_def dom_keep_def)
  then show ?thesis by (simp add: flow_pass_def)
qed

lemma dom_next_bits:
  assumes "tab_ok (reached pb root) d"
  shows "tab_ok (reached pb root) (dom_next pb root d)"
    "dom_bits (reached pb root) (dom_next pb root d) x = dom_flow pb root x (dom_bits (reached pb root) d x)"
    "\<not> snd (dom_pass pb root (reached pb root) d) \<Longrightarrow> dom_next pb root d = d"
proof -
  obtain js where js: "reached pb root = root # js" "set js = set (reached pb root) - {root}"
    by (rule reached_parts)
  obtain d' c where dc: "dom_pass pb root (reached pb root) d = (d', c)" by fastforce
  then have "foldl (dom_node pb root (reached pb root)) (d, False) js = (d', c)"
    using js(1) by (simp add: dom_pass_def)
  from dom_fold_bits [OF assms _ this, of x] js(2)
  have "tab_ok (reached pb root) d' \<and> dom_bits (reached pb root) d' x =
      flow_pass (dom_keep pb root (reached pb root) x) js (dom_bits (reached pb root) d x)
      \<and> (\<not> c \<longrightarrow> d' = d)" by simp
  then show "tab_ok (reached pb root) (dom_next pb root d)"
    "dom_bits (reached pb root) (dom_next pb root d) x = dom_flow pb root x (dom_bits (reached pb root) d x)"
    "\<not> snd (dom_pass pb root (reached pb root) d) \<Longrightarrow> dom_next pb root d = d"
    using dc flow_pass_root [of pb root "reached pb root" x js] js(1) by simp_all
qed

lemma dom_nexts_bits:
  "tab_ok (reached pb root) d \<Longrightarrow> tab_ok (reached pb root) ((dom_next pb root ^^ k) d)
    \<and> dom_bits (reached pb root) ((dom_next pb root ^^ k) d) x
      = (dom_flow pb root x ^^ k) (dom_bits (reached pb root) d x)"
  by (induction k) (simp_all add: dom_next_bits)

abbreviation dom_start :: "playbook \<Rightarrow> string \<Rightarrow> dom_map" where
  "dom_start pb root \<equiv> dom_init root (reached pb root)"

lemma init_lookup:
  "fmlookup (foldl (\<lambda>m n. fmupd n (f n) m) m js) i = (if i \<in> set js then Some (f i) else fmlookup m i)"
  by (induction js arbitrary: m) auto

lemma root_reached [simp]: "root \<in> set (reached pb root)"
  by (simp add: reached_set)

lemma init_get:
  "fget (dom_init root order) fempty n =
    (if n \<in> set order then if n = root then {|root|} else fset_of_list order else fempty)"
  by (simp add: dom_init_def fget_def init_lookup)

lemma init_ok: "tab_ok (reached pb root) (dom_start pb root)"
proof -
  have "i |\<in>| fmdom (dom_start pb root) \<longleftrightarrow> i \<in> set (reached pb root)" for i
    by (simp add: dom_init_def fmlookup_dom_iff init_lookup)
  then show ?thesis by (auto simp: tab_ok_def init_get fset_of_list.rep_eq)
qed

lemma init_bits:
  "dom_bits (reached pb root) (dom_start pb root) x =
    (if x \<in> set (reached pb root) then {n \<in> set (reached pb root). n \<noteq> root \<or> x = root} else {})"
  by (auto simp: dom_bits_def init_get fset_of_list.rep_eq)

lemma init_shrinking:
  "flow_shrinking (dom_keep pb root (reached pb root) x) (reached pb root)
     (dom_bits (reached pb root) (dom_start pb root) x)"
  by (auto simp: flow_shrinking_def dom_keep_def init_bits split: if_splits)

lemma dom_flow_fixed:
  "dom_flow pb root x ((dom_flow pb root x ^^ length (reached pb root))
      (dom_bits (reached pb root) (dom_start pb root) x))
    = (dom_flow pb root x ^^ length (reached pb root)) (dom_bits (reached pb root) (dom_start pb root) x)"
  by (rule dom.passes_fixed [OF init_shrinking]) (auto simp: dom_bits_def)

abbreviation dom_end :: "playbook \<Rightarrow> string \<Rightarrow> dom_map" where
  "dom_end pb root \<equiv> (dom_next pb root ^^ length (reached pb root)) (dom_start pb root)"

lemma dom_end_still: "dom_pass pb root (reached pb root) (dom_end pb root) = (dom_end pb root, False)"
proof -
  let ?order = "reached pb root" and ?d = "dom_end pb root"
  obtain js where js: "?order = root # js" "set js = set ?order - {root}" by (rule reached_parts)
  have ok: "tab_ok ?order ?d" and bits: "dom_bits ?order ?d x
      = (dom_flow pb root x ^^ length ?order) (dom_bits ?order (dom_start pb root) x)" for x
    using dom_nexts_bits [OF init_ok] by blast+
  have "\<forall>j\<in>set ?order. flow_step (dom_keep pb root ?order x) (dom_bits ?order ?d x) j = dom_bits ?order ?d x"
    for x
    unfolding bits
    by (rule dom.fold_fixed [OF _ subset_refl dom_flow_fixed])
      (simp add: dom.passes_shrink [OF init_shrinking])
  then have "foldl (dom_node pb root ?order) (?d, False) js = (?d, False)"
    using dom_fold_still [OF ok, of js root pb False] js(2) by auto
  then show ?thesis using js(1) by (simp add: dom_pass_def)
qed

lemma while_until:
  assumes b: "\<And>s. b s = snd s" and c: "\<And>s. c s = g (fst s)"
    and quiet: "\<And>k. \<not> snd (g (((\<lambda>t. fst (g t)) ^^ k) t)) \<Longrightarrow>
        fst (g (((\<lambda>t. fst (g t)) ^^ k) t)) = ((\<lambda>t. fst (g t)) ^^ k) t"
    and still: "g (((\<lambda>t. fst (g t)) ^^ m) t) = (((\<lambda>t. fst (g t)) ^^ m) t, False)"
  shows "while_option b c (t, True) = Some (((\<lambda>t. fst (g t)) ^^ m) t, False)"
  using quiet still
proof (induction m arbitrary: t)
  case 0
  then have "while_option b c (g t) = Some (t, False)"
    by (subst while_option_unfold) (simp add: b)
  then show ?case by (subst while_option_unfold) (simp add: b c)
next
  case (Suc m)
  let ?f = "\<lambda>t. fst (g t)"
  have sw: "(?f ^^ k) (?f t) = (?f ^^ Suc k) t" for k
    by (simp only: funpow_Suc_right o_apply)
  show ?case
  proof (cases "snd (g t)")
    case True
    have "while_option b c (?f t, True) = Some ((?f ^^ m) (?f t), False)"
    proof (rule Suc.IH)
      show "?f ((?f ^^ k) (?f t)) = (?f ^^ k) (?f t)" if "\<not> snd (g ((?f ^^ k) (?f t)))" for k
        using Suc.prems(1) [of "Suc k"] that unfolding sw by blast
      show "g ((?f ^^ m) (?f t)) = ((?f ^^ m) (?f t), False)"
        using Suc.prems(2) unfolding sw .
    qed
    moreover have "(?f t, True) = g t" using True by (simp add: prod_eq_iff)
    ultimately show ?thesis
      unfolding sw by (subst while_option_unfold) (simp add: b c)
  next
    case False
    then have ft: "?f t = t" using Suc.prems(1) [of 0] by simp
    then have "(?f ^^ k) t = t" for k by (induction k) simp_all
    moreover have "g t = (t, False)" using False ft by (simp add: prod_eq_iff)
    then have "while_option b c (g t) = Some (t, False)"
      by (subst while_option_unfold) (simp add: b)
    ultimately show ?thesis
      by (subst while_option_unfold) (simp add: b c ft)
  qed
qed

lemma dom_next_quiet:
  "\<not> snd (dom_pass pb root (reached pb root) ((dom_next pb root ^^ k) (dom_start pb root))) \<Longrightarrow>
    dom_next pb root ((dom_next pb root ^^ k) (dom_start pb root)) = (dom_next pb root ^^ k) (dom_start pb root)"
  using dom_next_bits(3) dom_nexts_bits [OF init_ok] by blast

lemma dom_loop_ends:
  "dom_loop pb root (reached pb root) (dom_start pb root) = Some (dom_end pb root, False)"
  unfolding dom_loop_def
  by (rule while_until [where g = "dom_pass pb root (reached pb root)"])
    (simp_all add: dom_next_quiet dom_end_still split_beta)

lemma dominators_end: "dominators pb root = dom_end pb root"
  using dom_loop_ends by (simp add: dominators_def Let_def)

section \<open>The fixed point is dominance\<close>

lemma dom_end_bit:
  assumes "n \<in> set (reached pb root)"
  shows "x |\<in>| fget (dom_end pb root) fempty n \<longleftrightarrow>
    n \<in> (dom_flow pb root x ^^ length (reached pb root)) (dom_bits (reached pb root) (dom_start pb root) x)"
proof -
  have "dom_bits (reached pb root) (dom_end pb root) x =
      (dom_flow pb root x ^^ length (reached pb root)) (dom_bits (reached pb root) (dom_start pb root) x)"
    using dom_nexts_bits [OF init_ok] by blast
  then show ?thesis using assms by (auto simp: dom_bits_def)
qed

abbreviation dom_fix :: "playbook \<Rightarrow> string \<Rightarrow> string \<Rightarrow> string set" where
  "dom_fix pb root x \<equiv> (dom_flow pb root x ^^ length (reached pb root))
     (dom_bits (reached pb root) (dom_start pb root) x)"

lemma dom_fix_keeps:
  "n \<in> set (reached pb root) \<Longrightarrow>
    n \<in> dom_fix pb root x \<longleftrightarrow> dom_keep pb root (reached pb root) x (dom_fix pb root x) n"
  using dom.fixed_keeps [OF _ dom_flow_fixed] dom.passes_shrink [OF init_shrinking] by blast

lemma dom_fix_start: "dom_fix pb root x \<subseteq> dom_bits (reached pb root) (dom_start pb root) x"
  using dom.passes_shrink [OF init_shrinking] by blast

lemma avoiding_end: "(root, p) \<in> (avoiding pb root x)\<^sup>* \<Longrightarrow> x \<noteq> root \<Longrightarrow> p \<noteq> x"
  by (erule rtranclE) (auto simp: avoiding_def)

lemma avoiding_reached: "(root, p) \<in> (avoiding pb root x)\<^sup>* \<Longrightarrow> p \<in> set (reached pb root)"
  using rtrancl_mono [of "avoiding pb root x" "fork_rel pb root"]
  by (auto simp: reached_set avoiding_def)

lemma reached_pred:
  "n \<in> set (reached pb root) \<Longrightarrow> n \<noteq> root \<Longrightarrow> \<exists>p\<in>set (reached pb root). (p, n) \<in> fork_rel pb root"
  by (auto simp: reached_set elim: rtranclE)

lemma dom_keepD:
  "dom_keep pb root order x T n \<Longrightarrow> n \<noteq> root \<Longrightarrow> n \<noteq> x \<Longrightarrow>
    p \<in> set order \<Longrightarrow> (p, n) \<in> fork_rel pb root \<Longrightarrow> p \<in> T"
  by (simp add: dom_keep_def)

lemma avoided_lost:
  assumes "(root, n) \<in> (avoiding pb root x)\<^sup>*" "x \<noteq> root"
  shows "n \<notin> dom_fix pb root x"
  using assms(1)
proof (induction rule: rtrancl_induct)
  case base
  then show ?case using dom_fix_start [of pb root x] assms(2) by (auto simp: init_bits split: if_splits)
next
  case (step a b)
  have a: "a \<in> set (reached pb root)" and ab: "(a, b) \<in> fork_rel pb root" "b \<noteq> x" "b \<noteq> root"
    using step(1,2) avoiding_reached by (auto simp: avoiding_def fork_rel_def)
  have "b \<in> set (reached pb root)"
    using avoiding_reached [OF rtrancl_into_rtrancl [OF step(1,2)]] .
  then show ?case using dom_fix_keeps [of b pb root x] dom_keepD [OF _ ab(3,2) a ab(1)] step(3) by blast
qed

lemma lost_avoided:
  assumes x: "x \<in> set (reached pb root)" and n: "n \<in> set (reached pb root)" "n \<notin> dom_fix pb root x"
  shows "x \<noteq> root \<and> (root, n) \<in> (avoiding pb root x)\<^sup>*"
proof -
  let ?I = "\<lambda>T. \<forall>m\<in>set (reached pb root). m \<notin> T \<longrightarrow> x \<noteq> root \<and> (root, m) \<in> (avoiding pb root x)\<^sup>*"
  have "?I (dom_fix pb root x)"
  proof (rule dom.passes_invariant)
    show "?I (dom_bits (reached pb root) (dom_start pb root) x)"
      using x by (auto simp: init_bits)
    show "?I (flow_step (dom_keep pb root (reached pb root) x) T i)"
      if I: "?I T" and i: "i \<in> set (reached pb root)" for T i
    proof (cases "dom_keep pb root (reached pb root) x T i \<or> i \<notin> T")
      case True
      then show ?thesis using I by (auto simp: flow_step_def)
    next
      case False
      then have "i \<noteq> root" "i \<noteq> x" by (auto simp: dom_keep_def split: if_splits)
      then obtain p where p: "p \<in> set (reached pb root)" "(p, i) \<in> fork_rel pb root" "p \<notin> T"
        using False reached_pred [OF i] unfolding dom_keep_def by auto
      then have xp: "x \<noteq> root" "(root, p) \<in> (avoiding pb root x)\<^sup>*" using I by blast+
      have "p \<noteq> x" using avoiding_end [OF xp(2,1)] .
      then have "(p, i) \<in> avoiding pb root x"
        using p(2) \<open>i \<noteq> x\<close> by (simp add: avoiding_def)
      then have "(root, i) \<in> (avoiding pb root x)\<^sup>*" using xp(2) by (rule rtrancl_into_rtrancl [rotated])
      then have "?I (T - {i})" using I xp(1) by blast
      then show ?thesis using False by (simp add: flow_step_def)
    qed
  qed
  then show ?thesis using n by blast
qed

lemma dominators_lookup:
  "x |\<in>| fget (dominators pb root) fempty n \<longleftrightarrow>
    n \<in> set (reached pb root) \<and> x \<in> set (reached pb root) \<and> dominates pb root x n"
proof -
  have ok: "tab_ok (reached pb root) (dom_end pb root)" using dom_nexts_bits [OF init_ok] by blast
  have "x |\<in>| fget (dom_end pb root) fempty n \<Longrightarrow> n \<in> set (reached pb root)"
    using ok by (cases "fmlookup (dom_end pb root) n") (auto simp: tab_ok_def fget_def dest: fmdomI)
  moreover have "x |\<in>| fget (dom_end pb root) fempty n \<Longrightarrow> x \<in> set (reached pb root)"
    using ok by (auto simp: tab_ok_def)
  moreover have "n \<in> dom_fix pb root x \<longleftrightarrow> dominates pb root x n"
    if "n \<in> set (reached pb root)" "x \<in> set (reached pb root)"
    using avoided_lost [of root n pb x] lost_avoided [OF that(2,1)] by (auto simp: dominates_def)
  ultimately show ?thesis using dom_end_bit [of n pb root x] by (auto simp: dominators_end)
qed

lemma dominators_dom: "n |\<in>| fmdom (dominators pb root) \<longleftrightarrow> n \<in> set (reached pb root)"
  using dom_nexts_bits [OF init_ok, of pb root] by (auto simp: dominators_end tab_ok_def)

text \<open>
  C23: the dominator table is exact: the iteration ends, and the entry of a node \<open>n\<close> holds \<open>x\<close>
  exactly when the fork reaches both and no path from the fork to \<open>n\<close> avoids \<open>x\<close>.
\<close>

theorem dominators_exact:
  "dom_loop pb root (reached pb root) (dom_init root (reached pb root)) \<noteq> None
    \<and> fset (fmdom (dominators pb root)) = (fork_rel pb root)\<^sup>* `` {root}
    \<and> (x |\<in>| fget (dominators pb root) fempty n \<longleftrightarrow>
        (root, n) \<in> (fork_rel pb root)\<^sup>* \<and> (root, x) \<in> (fork_rel pb root)\<^sup>* \<and> dominates pb root x n)"
proof -
  have "fset (fmdom (dominators pb root)) = set (reached pb root)" using dominators_dom by blast
  then show ?thesis using dominators_lookup [of x pb root n] by (simp add: dom_loop_ends reached_set)
qed

section \<open>Branches and joins\<close>

lemma heads_fold:
  "set (foldl (\<lambda>heads e. if P e \<and> e_to e \<notin> set heads then heads @ [e_to e] else heads) hs es)
     = set hs \<union> {e_to e | e. e \<in> set es \<and> P e}"
  by (induction es arbitrary: hs) auto

lemma fork_heads_set:
  "set (fork_heads pb fork) = {e_to e | e. e \<in> set (pb_edges pb) \<and> e_from e = fork
     \<and> e_condition e = None \<and> \<not> e_fallback e \<and> e_to e \<noteq> fork}"
  using heads_fold [of "\<lambda>e. e_condition e = None \<and> \<not> e_fallback e \<and> e_to e \<noteq> fork" "[]"
      "filter (\<lambda>e. e_from e = fork) (pb_edges pb)"]
  by (auto simp: fork_heads_def)

lemma head_edge: "h \<in> set (fork_heads pb fork) \<Longrightarrow> h \<noteq> fork \<and> (fork, h) \<in> fork_rel pb fork"
  by (auto simp: fork_heads_set fork_rel_def edge_rel_def)

lemma branch_iff:
  "n |\<in>| fork_branches pb fork \<longleftrightarrow> n \<noteq> fork \<and> (fork, n) \<in> (fork_rel pb fork)\<^sup>*
     \<and> (\<exists>h\<in>set (fork_heads pb fork). dominates pb fork h n)"
proof -
  have "h \<in> set (reached pb fork)" if "h \<in> set (fork_heads pb fork)" for h
    using head_edge [OF that] by (auto simp: reached_set)
  moreover have "m \<in> set (reached pb fork) \<longleftrightarrow> (fork, m) \<in> (fork_rel pb fork)\<^sup>*" for m
    by (simp add: reached_set)
  ultimately show ?thesis
    by (auto simp: fork_branches_def Let_def list_ex_iff dominators_lookup dominators_dom)
qed

lemma head_dominates_itself: "h \<noteq> fork \<Longrightarrow> dominates pb fork h h"
  using avoiding_end unfolding dominates_def by blast

lemma head_is_branch: "h \<in> set (fork_heads pb fork) \<Longrightarrow> h |\<in>| fork_branches pb fork"
  using head_edge [of h pb fork] head_dominates_itself [of h fork pb]
  by (auto simp: branch_iff)

text \<open>A branch is entered at one of the heads only.\<close>

lemma branch_entry:
  assumes b: "b |\<in>| fork_branches pb fork" and ab: "(a, b) \<in> fork_rel pb fork"
    and a: "(fork, a) \<in> (fork_rel pb fork)\<^sup>*" "a |\<notin>| fork_branches pb fork"
  shows "b \<in> set (fork_heads pb fork)"
proof (rule ccontr)
  assume nh: "b \<notin> set (fork_heads pb fork)"
  obtain h where h: "h \<in> set (fork_heads pb fork)" "dominates pb fork h b" and bf: "b \<noteq> fork"
    using b by (auto simp: branch_iff)
  have hf: "h \<noteq> fork" using head_edge [OF h(1)] by blast
  have "(fork, a) \<in> (avoiding pb fork h)\<^sup>*"
  proof (cases "a = fork")
    case False
    then have "\<not> dominates pb fork h a" using a h(1) by (auto simp: branch_iff)
    then show ?thesis by (auto simp: dominates_def)
  qed simp
  moreover from this have "a \<noteq> h" using avoiding_end hf by blast
  then have "(a, b) \<in> avoiding pb fork h" using ab nh h(1) by (auto simp: avoiding_def)
  ultimately have "(fork, b) \<in> (avoiding pb fork h)\<^sup>*" by (rule rtrancl_into_rtrancl)
  then show False using h(2) hf by (simp add: dominates_def)
qed

lemma join_iff:
  "j |\<in>| fork_joins pb fork branches \<longleftrightarrow> (\<exists>e\<in>set (pb_edges pb). e_to e = j \<and> e_from e |\<in>| branches
     \<and> j |\<notin>| branches \<and> j \<noteq> fork \<and> \<not> is_failure_route e)"
  by (auto simp: fork_joins_def fset_of_list.rep_eq)

lemma region_parts:
  assumes "fork_region_of pb fork = Some r"
  shows "fr_fork r = fork" "fr_heads r = fork_heads pb fork" "fr_branches r = fork_branches pb fork"
    "fr_joins r = fork_joins pb fork (fork_branches pb fork)"
  using assms by (auto simp: fork_region_of_def Let_def split: if_splits)

text \<open>No head is listed twice.\<close>

lemma heads_fold_distinct:
  "distinct hs \<Longrightarrow>
    distinct (foldl (\<lambda>heads e. if P e \<and> e_to e \<notin> set heads then heads @ [e_to e] else heads) hs es)"
  by (induction es arbitrary: hs) auto

lemma fork_heads_distinct: "distinct (fork_heads pb fork)"
  using heads_fold_distinct [of "[]" "\<lambda>e. e_condition e = None \<and> \<not> e_fallback e \<and> e_to e \<noteq> fork"
      "filter (\<lambda>e. e_from e = fork) (pb_edges pb)"]
  by (simp add: fork_heads_def)

text \<open>
  C22: a node forks exactly when its unconditional, non-fallback edges lead to at least two nodes
  other than itself, and those nodes are the heads, each listed once; the branches are the nodes it
  reaches that some head dominates, every head among them; the joins are the nodes outside the
  branches, the fork apart, that a branch node has a normal edge to; and no edge leads into a branch
  from a reached node outside it except at a head.
\<close>

theorem fork_region_exact:
  "let heads = {e_to e | e. e \<in> set (pb_edges pb) \<and> e_from e = fork \<and> e_condition e = None
                     \<and> \<not> e_fallback e \<and> e_to e \<noteq> fork}
   in case fork_region_of pb fork of
     None \<Rightarrow> card heads < 2
   | Some r \<Rightarrow> 2 \<le> card heads \<and> fr_fork r = fork
       \<and> distinct (fr_heads r) \<and> set (fr_heads r) = heads \<and> heads \<subseteq> fset (fr_branches r)
       \<and> fset (fr_branches r) = {n. n \<noteq> fork \<and> (fork, n) \<in> (fork_rel pb fork)\<^sup>*
            \<and> (\<exists>h\<in>heads. dominates pb fork h n)}
       \<and> fset (fr_joins r) = {e_to e | e. e \<in> set (pb_edges pb) \<and> e_from e |\<in>| fr_branches r
            \<and> e_to e |\<notin>| fr_branches r \<and> e_to e \<noteq> fork \<and> \<not> is_failure_route e}
       \<and> fork_rel pb fork \<inter> ((fork_rel pb fork)\<^sup>* `` {fork} - fset (fr_branches r)) \<times> fset (fr_branches r)
            \<subseteq> UNIV \<times> heads"
proof (cases "fork_region_of pb fork")
  case None
  then have "length (fork_heads pb fork) < 2" by (simp add: fork_region_of_def Let_def split: if_splits)
  then show ?thesis using None distinct_card [OF fork_heads_distinct] by (simp add: flip: fork_heads_set)
next
  case (Some r)
  note p = region_parts [OF Some]
  have "2 \<le> card (set (fork_heads pb fork))"
    using Some distinct_card [OF fork_heads_distinct]
    by (auto simp: fork_region_of_def Let_def split: if_splits)
  moreover have "fset (fr_branches r) = {n. n \<noteq> fork \<and> (fork, n) \<in> (fork_rel pb fork)\<^sup>*
            \<and> (\<exists>h\<in>set (fork_heads pb fork). dominates pb fork h n)}"
    using branch_iff [of _ pb fork] p(3) by blast
  moreover have "fset (fr_joins r) = {e_to e | e. e \<in> set (pb_edges pb) \<and> e_from e |\<in>| fr_branches r
            \<and> e_to e |\<notin>| fr_branches r \<and> e_to e \<noteq> fork \<and> \<not> is_failure_route e}"
    using join_iff [of _ pb fork "fr_branches r"] p(3,4) by auto
  moreover have "fork_rel pb fork \<inter> ((fork_rel pb fork)\<^sup>* `` {fork} - fset (fr_branches r)) \<times> fset (fr_branches r)
            \<subseteq> UNIV \<times> set (fork_heads pb fork)"
    using branch_entry [of _ pb fork] p(3) by auto
  moreover have "set (fork_heads pb fork) \<subseteq> fset (fr_branches r)" using head_is_branch p(3) by auto
  ultimately show ?thesis using Some p(1,2) fork_heads_distinct by (simp add: flip: fork_heads_set)
qed

end
