(* ===== verification/Validate_Forks.thy ===== *)
theory Validate_Forks
  imports Fork_Region Validate_Graph Join_Kind
begin

text \<open>
  The validator's rules about forks and join refusal, \<^verbatim>\<open>apb-core/src/validate/forks.rs\<close>:
  V77 and V78 on a node's \<open>fork\<close> block, V79 on \<open>require\<close>.  The lemmas say exactly which playbooks
  pass, and the last section that a \<open>require\<close> the validator accepts is one the engine's join
  honours.
\<close>

section \<open>Failure policies of a fork\<close>

definition has_any_join :: "playbook \<Rightarrow> string \<Rightarrow> bool" where
  "has_any_join pb join =
     list_ex (\<lambda>e. e_to e = join \<and> Option.bind (e_join e) join_mode_parse = Some Join_Any) (pb_edges pb)"

definition check_any_join :: "playbook \<Rightarrow> string \<Rightarrow> report \<Rightarrow> string \<Rightarrow> report" where
  "check_any_join pb fork r join =
     (if has_any_join pb join
      then report_error ''V78'' (Some fork)
        (''fork `'' @ fork @ ''` uses `fail_fast`, but its join `'' @ join
          @ ''` is a `join: any`, which proceeds on the first success; use `cancel_siblings` or `wait`'') r
      else r)"

definition check_failure_target :: "playbook \<Rightarrow> string \<Rightarrow> string \<Rightarrow> report \<Rightarrow> report" where
  "check_failure_target pb fork target r =
     (case pb_node pb target of
        None \<Rightarrow> report_error ''V78'' (Some fork)
          (''fork `'' @ fork @ ''` routes branch failures to unknown node `'' @ target @ ''`'') r
      | Some n \<Rightarrow>
          if target = fork
          then report_error ''V78'' (Some fork)
            (''fork `'' @ fork @ ''` routes branch failures back to itself'') r
          else if is_start n
          then report_error ''V78'' (Some fork)
            (''fork `'' @ fork @ ''` routes branch failures to the start node `'' @ target @ ''`'') r
          else case fork_region_of pb fork of
                 None \<Rightarrow> r
               | Some region \<Rightarrow>
                   let r = (if region_contains region target
                            then report_error ''V78'' (Some fork)
                              (''fork `'' @ fork @ ''` routes branch failures to `'' @ target
                                @ ''`, a node inside its own branches, which a failure cancels'') r
                            else if target |\<in>| fr_joins region
                            then report_error ''V78'' (Some fork)
                              (''fork `'' @ fork @ ''` routes branch failures to `'' @ target
                                @ ''`, one of its own joins, which `fail_fast` never runs'') r
                            else r)
                   in foldl (check_any_join pb fork) r (sorted_list_of_fset (fr_joins region)))"

definition check_fork :: "playbook \<Rightarrow> report \<Rightarrow> node \<Rightarrow> report" where
  "check_fork pb r n =
     (case n_fork n of
        None \<Rightarrow> r
      | Some spec \<Rightarrow>
          let i = n_id n
          in if length (fork_heads pb i) < 2
             then report_error ''V77'' (Some i)
               (''node `'' @ i @ ''` declares `fork` but does not fork: it needs two or more ''
                 @ ''unconditional outgoing edges'') r
             else case (fs_on_failure spec, fs_on_branch_failure spec) of
                    (None, Fail_Fast) \<Rightarrow> report_error ''V78'' (Some i)
                      (''fork `'' @ i @ ''` uses `on_branch_failure: fail_fast` without `on_failure`: ''
                        @ ''name the node the run goes to when a branch fails'') r
                  | (Some target, Fail_Fast) \<Rightarrow> check_failure_target pb i target r
                  | (Some target, policy) \<Rightarrow> report_error ''V78'' (Some i)
                      (''fork `'' @ i @ ''` names `on_failure: '' @ target
                        @ ''`, which only `on_branch_failure: fail_fast` uses; with `''
                        @ branch_failure_str policy @ ''` the failed node follows its own routing'') r
                  | (None, _) \<Rightarrow> r)"

definition check_forks :: "playbook \<Rightarrow> report \<Rightarrow> report" where
  "check_forks pb r = foldl (check_fork pb) r (pb_nodes pb)"

section \<open>Join refusal\<close>

definition synchronizes :: "playbook \<Rightarrow> string \<Rightarrow> bool" where
  "synchronizes pb nd =
     (length (incoming pb nd) \<ge> 2
      \<and> (Option.bind (first_join (incoming pb nd)) join_mode_parse \<noteq> None
         \<or> is_acyclic_fan_in (adjacency pb) nd (map e_from (incoming pb nd))))"

definition check_join_require :: "playbook \<Rightarrow> report \<Rightarrow> nat \<times> edge \<Rightarrow> report" where
  "check_join_require pb r ie =
     (case ie of (i, e) \<Rightarrow>
        if \<not> synchronizes pb (e_to e)
        then report_error_edges pb ''V79'' (Some (e_to e)) [i]
          (''edge `'' @ e_from e @ ''` -> `'' @ e_to e @ ''` has `require: all_succeeded`, but `''
            @ e_to e @ ''` is not a join: it needs two or more incoming edges outside its own cycle, ''
            @ ''or a `join`'') r
        else if Option.bind (first_join (incoming pb (e_to e))) join_mode_parse = Some Join_Any
        then report_error_edges pb ''V79'' (Some (e_to e)) [i]
          (''edge `'' @ e_from e @ ''` -> `'' @ e_to e
            @ ''` has `require: all_succeeded` on a `join: any`: the first arrival cannot also wait ''
            @ ''for every branch to succeed'') r
        else r)"

definition check_join_requires :: "playbook \<Rightarrow> report \<Rightarrow> report" where
  "check_join_requires pb r =
     foldl (check_join_require pb) r (filter (\<lambda>(i, e). e_require e \<noteq> None) (indexed_edges pb))"

section \<open>Which forks pass\<close>

definition failure_target_ok :: "playbook \<Rightarrow> string \<Rightarrow> string \<Rightarrow> bool" where
  "failure_target_ok pb fork target \<longleftrightarrow>
     (\<exists>n. pb_node pb target = Some n \<and> n_kind n \<noteq> Start) \<and> target \<noteq> fork
     \<and> (case fork_region_of pb fork of
          None \<Rightarrow> True
        | Some region \<Rightarrow> \<not> region_contains region target \<and> target |\<notin>| fr_joins region
            \<and> fBall (fr_joins region) (\<lambda>j. \<not> has_any_join pb j))"

definition fork_ok :: "playbook \<Rightarrow> node \<Rightarrow> bool" where
  "fork_ok pb n \<longleftrightarrow>
     (case n_fork n of
        None \<Rightarrow> True
      | Some spec \<Rightarrow> 2 \<le> length (fork_heads pb (n_id n))
          \<and> (case fs_on_failure spec of
               None \<Rightarrow> fs_on_branch_failure spec \<noteq> Fail_Fast
             | Some target \<Rightarrow> fs_on_branch_failure spec = Fail_Fast
                 \<and> failure_target_ok pb (n_id n) target))"

lemma any_join_valid:
  "is_valid (check_any_join pb fork r join) = (is_valid r \<and> \<not> has_any_join pb join)"
  by (simp add: check_any_join_def)

lemma failure_target_valid:
  "is_valid (check_failure_target pb fork target r) = (is_valid r \<and> failure_target_ok pb fork target)"
proof (cases "pb_node pb target")
  case None
  then show ?thesis by (simp add: check_failure_target_def failure_target_ok_def)
next
  case (Some n)
  have "is_valid (foldl (check_any_join pb fork) r' (sorted_list_of_fset J))
      = (is_valid r' \<and> fBall J (\<lambda>j. \<not> has_any_join pb j))" for r' J
    unfolding foldl_valid [OF any_join_valid] by (simp add: list_all_iff)
  then show ?thesis using Some
    by (auto simp: check_failure_target_def failure_target_ok_def is_start_def Let_def split: option.splits)
qed

lemma fork_valid: "is_valid (check_fork pb r n) = (is_valid r \<and> fork_ok pb n)"
  by (cases "n_fork n")
    (auto simp: check_fork_def fork_ok_def Let_def failure_target_valid
      split: option.splits branch_failure_policy.splits)

lemma forks_valid: "is_valid (check_forks pb r) = (is_valid r \<and> list_all (fork_ok pb) (pb_nodes pb))"
  unfolding check_forks_def by (rule foldl_valid) (rule fork_valid)

section \<open>Which requirements pass\<close>

lemma require_valid:
  "is_valid (check_join_require pb r ie) = (is_valid r \<and> synchronizes pb (e_to (snd ie))
     \<and> Option.bind (first_join (incoming pb (e_to (snd ie)))) join_mode_parse \<noteq> Some Join_Any)"
  by (cases ie) (simp add: check_join_require_def)

lemma indexed_all: "(\<forall>ie\<in>set (indexed_edges pb). Q (snd ie)) = (\<forall>e\<in>set (pb_edges pb). Q e)"
proof -
  have "snd ` set (indexed_edges pb) = set (pb_edges pb)"
    by (simp add: indexed_edges_def flip: set_map)
  then show ?thesis by (metis (no_types, lifting) image_iff)
qed

lemma requires_valid:
  "is_valid (check_join_requires pb r) = (is_valid r \<and> (\<forall>e\<in>set (pb_edges pb). e_require e \<noteq> None \<longrightarrow>
     synchronizes pb (e_to e) \<and> Option.bind (first_join (incoming pb (e_to e))) join_mode_parse \<noteq> Some Join_Any))"
proof -
  from indexed_all [of pb "\<lambda>e. e_require e \<noteq> None \<longrightarrow> synchronizes pb (e_to e)
      \<and> Option.bind (first_join (incoming pb (e_to e))) join_mode_parse \<noteq> Some Join_Any"]
  show ?thesis unfolding check_join_requires_def foldl_valid [OF require_valid]
    by (auto simp: list_all_iff split_beta)
qed

lemma join_value_valid:
  "is_valid (check_join_value pb r ie) = (is_valid r
     \<and> (case e_join (snd ie) of Some t \<Rightarrow> join_mode_parse t \<noteq> None | None \<Rightarrow> True))"
  by (cases ie) (simp add: check_join_value_def split: option.splits)

lemma join_mix_valid: "is_valid (check_join_mix r tm) = is_valid r"
  by (cases tm) (simp add: check_join_mix_def Let_def)

lemma joins_valid:
  "is_valid (check_joins pb r) = (is_valid r \<and> (\<forall>e\<in>set (pb_edges pb).
     case e_join e of Some t \<Rightarrow> join_mode_parse t \<noteq> None | None \<Rightarrow> True))"
proof -
  from indexed_all [of pb "\<lambda>e. case e_join e of Some t \<Rightarrow> join_mode_parse t \<noteq> None | None \<Rightarrow> True"]
  show ?thesis
    unfolding check_joins_def Let_def foldl_valid [OF join_value_valid]
      foldl_valid [where P = "\<lambda>_. True" and f = check_join_mix, simplified, OF join_mix_valid]
    by (simp add: list_all_iff)
qed

lemma synchronizes_join:
  assumes "\<forall>e\<in>set (pb_edges pb). case e_join e of Some t \<Rightarrow> join_mode_parse t \<noteq> None | None \<Rightarrow> True"
  shows "(synchronizes pb nd \<and> Option.bind (first_join (incoming pb nd)) join_mode_parse \<noteq> Some Join_Any)
    = (join_kind_of pb nd = Some (Explicit Join_All) \<or> join_kind_of pb nd = Some Implicit)"
proof (cases "find (\<lambda>e. e_join e \<noteq> None) (incoming pb nd)")
  case None
  then have "first_join (incoming pb nd) = None" "\<not> list_ex (\<lambda>e. e_join e \<noteq> None) (incoming pb nd)"
    using None by (simp only: first_join_def option.case) (use None in \<open>auto simp: find_None_iff list_ex_iff\<close>)
  then show ?thesis by (auto simp: synchronizes_def join_kind_of_def Let_def)
next
  case (Some e)
  then have e: "e \<in> set (incoming pb nd)" "e_join e \<noteq> None" by (auto simp: find_Some_iff)
  then obtain t m where tm: "e_join e = Some t" "join_mode_parse t = Some m"
    using assms by (force simp: incoming_def split: option.splits)
  then have "first_join (incoming pb nd) = Some t" using Some by (simp add: first_join_def)
  moreover have "list_ex (\<lambda>e. e_join e \<noteq> None) (incoming pb nd)" using e by (auto simp: list_ex_iff)
  ultimately show ?thesis using tm
    by (cases m) (auto simp: synchronizes_def join_kind_of_def join_mode_of_def Let_def)
qed

text \<open>
  C27: in a playbook whose \<open>join\<close> values pass V36, V79 accepts exactly the requirements the engine
  honours: every edge with \<open>require: all_succeeded\<close> leads to a node the engine waits at for all its
  inputs, an explicit \<open>join: all\<close> or an implicit join, never to a \<open>join: any\<close> or to no join at all.
\<close>

theorem requirements_honoured:
  assumes "is_valid (check_joins pb [])"
  shows "is_valid (check_join_requires pb []) = (\<forall>e\<in>set (pb_edges pb). e_require e \<noteq> None \<longrightarrow>
    join_kind_of pb (e_to e) = Some (Explicit Join_All) \<or> join_kind_of pb (e_to e) = Some Implicit)"
  using assms synchronizes_join [of pb] by (simp add: joins_valid requires_valid)

definition required_join :: playbook where
  "required_join = plain_playbook
     [plain_node ''f'' Start, plain_node ''a'' (Prompt []), plain_node ''b'' (Prompt []),
      plain_node ''j'' (Prompt [])]
     [plain_edge ''f'' ''a'', plain_edge ''f'' ''b'',
      (plain_edge ''a'' ''j'')\<lparr> e_join := Some ''all'' \<rparr>,
      (plain_edge ''b'' ''j'')\<lparr> e_require := Some All_Succeeded \<rparr>]"

theorem requirements_honoured_witness:
  "is_valid (check_joins required_join []) \<and> is_valid (check_join_requires required_join [])"
proof -
  have j: "is_valid (check_joins required_join [])"
    by (simp add: joins_valid required_join_def join_mode_parse_def)
  have "join_kind_of required_join ''j'' = Some (Explicit Join_All)"
    by (simp add: join_kind_of_def join_mode_of_def first_join_def incoming_def required_join_def
        join_mode_parse_def)
  then have "\<forall>e\<in>set (pb_edges required_join). e_require e \<noteq> None \<longrightarrow>
      join_kind_of required_join (e_to e) = Some (Explicit Join_All)
      \<or> join_kind_of required_join (e_to e) = Some Implicit"
    by (simp add: required_join_def)
  then show ?thesis using j requirements_honoured [OF j] by blast
qed

end
