(* ===== verification/Fork_Drive.thy ===== *)
theory Fork_Drive
  imports Validate_Forks Frontier Event_Log Deferred
begin

text \<open>
  Fork branch failures on the drive side, \<^verbatim>\<open>apb-engine/src/scheduler/fork.rs\<close>: which
  policy takes a failure over and how it escalates, what is written off, where the run is routed,
  and what a drive over an existing run finishes first.  The journal is the writer's handle with the
  file (\<open>Event_Log\<close>), so the guard lines an append adds are part of the model; a fold is the
  fold of the file.
\<close>

section \<open>The policy that takes a failure over\<close>

record fork_failure =
  ff_region :: fork_region
  ff_policy :: branch_failure_policy
  ff_node :: string
  ff_target :: "string option"

definition in_scope :: "fork_failure \<Rightarrow> string \<Rightarrow> bool" where
  "in_scope f n =
     (n \<noteq> ff_node f \<and> (n |\<in>| fr_branches (ff_region f) \<or> n |\<in>| fr_joins (ff_region f)))"

definition fails_fast :: "fork_failure \<Rightarrow> bool" where
  "fails_fast f = (ff_policy f = Fail_Fast)"

definition on_failure_of :: "playbook \<Rightarrow> string \<Rightarrow> string option" where
  "on_failure_of pb fork = Option.bind (Option.bind (pb_node pb fork) n_fork) fs_on_failure"

fun escalate ::
  "json_reader \<Rightarrow> playbook \<Rightarrow> string \<Rightarrow> run_state \<Rightarrow> fork_failure
     \<Rightarrow> (fork_region \<times> branch_failure_policy) list \<Rightarrow> fork_failure" where
  "escalate J pb nd s f [] = f"
| "escalate J pb nd s f ((outer, outer_policy) # chain) =
     (let outs = (case ff_target f of Some t \<Rightarrow> [t] | None \<Rightarrow> successors J pb nd s)
      in if list_ex (region_contains outer) outs then f
         else let target = (if outer_policy = Fail_Fast then on_failure_of pb (fr_fork outer)
                            else ff_target f)
              in escalate J pb nd s
                   \<lparr> ff_region = outer,
                     ff_policy = (if target \<noteq> None then Fail_Fast else Cancel_Siblings),
                     ff_node = nd, ff_target = target \<rparr> chain)"

definition detect ::
  "json_reader \<Rightarrow> playbook \<Rightarrow> string \<Rightarrow> node_status \<Rightarrow> run_mode \<Rightarrow> run_state \<Rightarrow> fork_failure option" where
  "detect J pb nd status mode s =
     (if parks_on_failure mode \<or> \<not> (status = Failed \<or> status = Timed_Out) then None
      else case enclosing_forks pb nd of
             [] \<Rightarrow> None
           | (region, policy) # chain \<Rightarrow>
               let target = (if policy = Fail_Fast then on_failure_of pb (fr_fork region) else None)
               in Some (escalate J pb nd s
                    \<lparr> ff_region = region, ff_policy = policy, ff_node = nd, ff_target = target \<rparr> chain))"

section \<open>Journaling the decision\<close>

type_synonym run_log = "handle \<times> event list"

definition log_append :: "(nat \<Rightarrow> nat) \<Rightarrow> run_log \<Rightarrow> event_payload \<Rightarrow> run_log" where
  "log_append clk lg p =
     (case append_inner (fst lg) (snd lg) (clk (length (snd lg))) (Plain p) of
        (h, file, _) \<Rightarrow> (h, file))"

definition fork_begin :: "(nat \<Rightarrow> nat) \<Rightarrow> run_log \<Rightarrow> fork_failure \<Rightarrow> run_log" where
  "fork_begin clk lg f =
     (let lg = log_append clk lg (Branch_Failed (fr_fork (ff_region f)) (ff_node f)
                 (branch_failure_str (ff_policy f)) (ff_target f))
      in case ff_target f of
           Some target \<Rightarrow> log_append clk lg (hop (ff_node f) target True False [])
         | None \<Rightarrow> lg)"

definition cancel_one :: "(nat \<Rightarrow> nat) \<Rightarrow> fork_failure \<Rightarrow> run_log \<Rightarrow> string \<Rightarrow> run_log" where
  "cancel_one clk f lg n =
     log_append clk lg (Branch_Cancelled (fr_fork (ff_region f)) n (ff_node f))"

definition mark_interrupted :: "(nat \<Rightarrow> nat) \<Rightarrow> run_log \<Rightarrow> fork_failure \<Rightarrow> string list \<Rightarrow> run_log" where
  "mark_interrupted clk lg f interrupted = foldl (cancel_one clk f) lg interrupted"

section \<open>Writing off what still waits\<close>

definition routing_targets :: "json_reader \<Rightarrow> playbook \<Rightarrow> fork_failure \<Rightarrow> run_state \<Rightarrow> string list" where
  "routing_targets J pb f s =
     (case ff_target f of Some t \<Rightarrow> [t] | None \<Rightarrow> successors J pb (ff_node f) s)"

definition to_cancel :: "fork_failure \<Rightarrow> string list \<Rightarrow> string list \<Rightarrow> string list" where
  "to_cancel f keep ns =
     foldl (\<lambda>cancel n. if in_scope f n \<and> n \<notin> set keep \<and> n \<notin> set cancel then cancel @ [n] else cancel)
       [] ns"

definition write_off :: "(nat \<Rightarrow> nat) \<Rightarrow> fork_failure \<Rightarrow> run_log \<Rightarrow> string \<Rightarrow> run_log" where
  "write_off clk f lg n =
     (let lg = log_append clk lg (Node_Started n 1);
          lg = log_append clk lg (finished_event n (node_status_str Cancelled) ''cancelled'')
      in cancel_one clk f lg n)"

definition cancel_waiting ::
  "json_reader \<Rightarrow> playbook \<Rightarrow> (nat \<Rightarrow> nat) \<Rightarrow> run_log \<Rightarrow> fork_failure \<Rightarrow> string list
     \<Rightarrow> run_log \<times> string list \<times> string list" where
  "cancel_waiting J pb clk lg f frontier =
     (let s = fold_run (snd lg);
          keep = routing_targets J pb f s;
          cancel = to_cancel f keep (frontier @ pending_heads J pb s)
      in (foldl (write_off clk f) lg cancel, filter (\<lambda>n. n \<notin> set cancel) frontier, cancel))"

definition settle ::
  "json_reader \<Rightarrow> playbook \<Rightarrow> (nat \<Rightarrow> nat) \<Rightarrow> run_log \<Rightarrow> fork_failure \<Rightarrow> string list
     \<Rightarrow> run_log \<times> string list" where
  "settle J pb clk lg f frontier =
     (case cancel_waiting J pb clk lg f frontier of
        (lg, frontier, _) \<Rightarrow>
          (case ff_target f of
             Some target \<Rightarrow> (lg, if target \<in> set frontier then frontier else frontier @ [target])
           | None \<Rightarrow>
               let after = fold_run (snd lg)
               in case advance_frontier J pb (ff_node f) after frontier [] of
                    (frontier, evs) \<Rightarrow> (foldl (log_append clk) lg evs, frontier)))"

section \<open>Recovery\<close>

definition last_finish :: "event list \<Rightarrow> string \<Rightarrow> nat option" where
  "last_finish es n =
     map_option (\<lambda>k. length es - 1 - k)
       (position (\<lambda>e. case ev_payload e of Node_Finished f \<Rightarrow> nf_node f = n | _ \<Rightarrow> False) (rev es))"

definition leaves_untouched :: "string \<Rightarrow> event \<Rightarrow> bool" where
  "leaves_untouched nd e =
     (case ev_payload e of
        Node_Started _ _ \<Rightarrow> False
      | Audit (Wake_Raised n) \<Rightarrow> n \<noteq> nd
      | Branch_Failed _ n _ _ \<Rightarrow> n \<noteq> nd
      | _ \<Rightarrow> True)"

definition untouched :: "event list \<Rightarrow> string \<Rightarrow> bool" where
  "untouched es nd =
     (case last_finish es nd of
        None \<Rightarrow> False
      | Some at \<Rightarrow> list_all (leaves_untouched nd) (drop (Suc at) es))"

definition recover_begin ::
  "json_reader \<Rightarrow> playbook \<Rightarrow> (nat \<Rightarrow> nat) \<Rightarrow> run_mode \<Rightarrow> event list \<Rightarrow> run_log \<Rightarrow> string \<Rightarrow> run_log" where
  "recover_begin J pb clk mode es lg nd =
     (let s = fold_run es
      in if untouched es nd
         then (case detect J pb nd (the (fmlookup (rs_nodes s) nd)) mode s of
                 Some f \<Rightarrow> fork_begin clk lg f
               | None \<Rightarrow> lg)
         else lg)"

fun finish_after :: "string \<Rightarrow> event list \<Rightarrow> bool option" where
  "finish_after n [] = None"
| "finish_after n (e # es) =
     (case ev_payload e of
        Node_Finished f \<Rightarrow>
          (if nf_node f = n then Some (nf_status f = node_status_str Cancelled) else finish_after n es)
      | _ \<Rightarrow> finish_after n es)"

fun only_cancellations :: "event list \<Rightarrow> bool" where
  "only_cancellations [] = True"
| "only_cancellations (e # es) =
     ((case ev_payload e of Node_Started n _ \<Rightarrow> finish_after n es = Some True | _ \<Rightarrow> True)
      \<and> only_cancellations es)"

definition unsettled :: "event list \<Rightarrow> nat \<Rightarrow> bool" where
  "unsettled es at = only_cancellations (drop (Suc at) es)"

definition recover_cancel ::
  "json_reader \<Rightarrow> playbook \<Rightarrow> (nat \<Rightarrow> nat) \<Rightarrow> event list \<Rightarrow> run_log \<times> string list \<Rightarrow> nat \<times> event
     \<Rightarrow> run_log \<times> string list" where
  "recover_cancel J pb clk es acc ie =
     (case (acc, ie) of ((lg, written_off), (i, e)) \<Rightarrow>
        (case ev_payload e of
           Branch_Failed fork nd policy target \<Rightarrow>
             (if (case last_finish es nd of Some at \<Rightarrow> at > i | None \<Rightarrow> False) \<or> \<not> unsettled es i
              then (lg, written_off)
              else case fork_region_of pb fork of
                     None \<Rightarrow> (lg, written_off)
                   | Some region \<Rightarrow>
                       let f = \<lparr> ff_region = region,
                                 ff_policy = (if policy = ''fail_fast'' then Fail_Fast else Cancel_Siblings),
                                 ff_node = nd, ff_target = target \<rparr>
                       in (case cancel_waiting J pb clk lg f [] of
                             (lg, _, cancelled) \<Rightarrow> (lg, written_off @ cancelled)))
         | _ \<Rightarrow> (lg, written_off)))"

definition recover ::
  "json_reader \<Rightarrow> playbook \<Rightarrow> (nat \<Rightarrow> nat) \<Rightarrow> run_mode \<Rightarrow> run_log \<Rightarrow> run_log \<times> string list" where
  "recover J pb clk mode lg =
     (let es = snd lg;
          lg = foldl (recover_begin J pb clk mode es) lg
                 (sorted_list_of_fset (fmdom (rs_nodes (fold_run es))));
          es = snd lg
      in foldl (recover_cancel J pb clk es) (lg, []) (enumerate 0 es))"

section \<open>Joins that must not run\<close>

definition failing_barrier ::
  "json_reader \<Rightarrow> playbook \<Rightarrow> string \<Rightarrow> run_state \<Rightarrow> string list \<Rightarrow> join_readiness option" where
  "failing_barrier J pb nd s active =
     (if \<not> is_join pb nd then None
      else let v = join_readiness_of J pb nd s active
           in if v = Ready_Failure \<or> v = Refused then Some v else None)"

definition refusal_reason :: "string \<Rightarrow> string list \<Rightarrow> string" where
  "refusal_reason nd srcs =
     ''join `'' @ nd @ ''` refused (require: all_succeeded): ''
     @ join_with '', '' (map ticked srcs) @ '' did not arrive succeeded''"

definition refuse_join ::
  "json_reader \<Rightarrow> playbook \<Rightarrow> (nat \<Rightarrow> nat) \<Rightarrow> run_log \<Rightarrow> string \<Rightarrow> run_state \<Rightarrow> string list
     \<Rightarrow> run_log \<times> string" where
  "refuse_join J pb clk lg nd s active =
     (let srcs = refused_inputs J pb nd s active;
          reason = refusal_reason nd srcs
      in (log_append clk lg (Join_Refused nd srcs reason), reason))"

section \<open>What a journal gains\<close>

definition is_guard_line :: "event_payload \<Rightarrow> bool" where
  "is_guard_line p = (case p of Deferred_Retry_Guard _ \<Rightarrow> True | Run_Guard _ \<Rightarrow> True | _ \<Rightarrow> False)"

definition gains :: "(event_payload \<Rightarrow> bool) \<Rightarrow> run_log \<Rightarrow> run_log \<Rightarrow> bool" where
  "gains Q lg lg' \<longleftrightarrow>
     (\<exists>xs. snd lg' = snd lg @ xs \<and> (\<forall>x\<in>set xs. is_guard_line (ev_payload x) \<or> Q (ev_payload x)))"

lemma gains_refl [simp]: "gains Q lg lg"
  by (simp add: gains_def)

lemma gains_trans: "gains Q lg lg' \<Longrightarrow> gains Q lg' lg'' \<Longrightarrow> gains Q lg lg''"
  unfolding gains_def by (metis append.assoc Un_iff set_append)

lemma gains_mono: "gains Q lg lg' \<Longrightarrow> (\<And>p. Q p \<Longrightarrow> Q' p) \<Longrightarrow> gains Q' lg lg'"
  unfolding gains_def by metis

lemma gains_foldl: "(\<And>lg x. x \<in> set xs \<Longrightarrow> gains Q lg (f lg x)) \<Longrightarrow> gains Q lg (foldl f lg xs)"
proof (induction xs arbitrary: lg)
  case (Cons x xs)
  have "gains Q lg (f lg x)" "gains Q (f lg x) (foldl f (f lg x) xs)" using Cons by simp_all
  then show ?case by (simp add: gains_trans [of Q lg "f lg x"])
qed simp

lemma log_append_lines:
  "\<exists>e gs. snd (log_append clk lg p) = snd lg @ e # gs \<and> ev_payload e = p
     \<and> (\<forall>g\<in>set gs. is_guard_line (ev_payload g))"
  by (auto simp: log_append_def append_inner_def append_lines_def Let_def is_guard_line_def
      split: option.splits prod.splits)

lemma log_append_gains: "gains (\<lambda>q. q = p) lg (log_append clk lg p)"
  using log_append_lines [of clk lg p] by (auto simp: gains_def)

definition cancels :: "fork_failure \<Rightarrow> string \<Rightarrow> event_payload \<Rightarrow> bool" where
  "cancels f n p \<longleftrightarrow> p = Node_Started n 1 \<or> p = finished_event n (node_status_str Cancelled) ''cancelled''
     \<or> p = Branch_Cancelled (fr_fork (ff_region f)) n (ff_node f)"

lemma write_off_gains: "gains (cancels f n) lg (write_off clk f lg n)"
  unfolding write_off_def cancel_one_def Let_def
  by (intro gains_trans [OF gains_trans [OF gains_mono [OF log_append_gains] gains_mono [OF log_append_gains]]
        gains_mono [OF log_append_gains]]) (auto simp: cancels_def)

section \<open>The node an event touches\<close>

definition calm :: "string \<Rightarrow> event_payload \<Rightarrow> bool" where
  "calm n p = (is_guard_line p \<or>
     (case p of Node_Started m _ \<Rightarrow> m \<noteq> n | Node_Finished f \<Rightarrow> nf_node f \<noteq> n
      | Branch_Cancelled _ _ _ \<Rightarrow> True | Branch_Failed _ _ _ _ \<Rightarrow> True | Edge_Traversed _ \<Rightarrow> True
      | _ \<Rightarrow> False))"

definition node_view :: "string \<Rightarrow> fold_acc \<Rightarrow> node_status option \<times> bool \<times> string option set" where
  "node_view n acc = (case acc of (s, open, lg) \<Rightarrow>
     (fmlookup (rs_nodes s) n, n |\<in>| rs_revived s, {i. (n, i) |\<in>| open}))"

lemma on_node_started_revived:
  "revival_inv s \<Longrightarrow> fset (rs_revived (on_node_started s q m)) = fset (rs_revived s) - {m}"
  using state_event_runs_node(1) [of m "\<lparr> ev_seq = q, ev_ts = 0, ev_payload = Node_Started m 1 \<rparr>" s]
  by (simp add: runs_node_def state_event_def)

lemma on_node_finished_revived:
  "revival_inv s \<Longrightarrow> fset (rs_revived (on_node_finished s q f)) = fset (rs_revived s) - {nf_node f}"
  using state_event_runs_node(1) [of "nf_node f" "\<lparr> ev_seq = q, ev_ts = 0, ev_payload = Node_Finished f \<rparr>" s]
  by (simp add: runs_node_def state_event_def)

lemma node_started_nodes:
  "rs_nodes (on_node_started s q m) = fmupd m Running (rs_nodes s)"
  "rs_route_suppressed (on_node_started s q m) = rs_route_suppressed s |-| {|m|}"
  by (simp_all add: on_node_started_def fold_simps)

lemma node_finished_nodes:
  "rs_nodes (on_node_finished s q f) = fmupd (nf_node f) (from_label (nf_status f)) (rs_nodes s)"
  "rs_route_suppressed (on_node_finished s q f) = rs_route_suppressed s"
  by (simp_all add: on_node_finished_def Let_def fold_simps)

lemma calm_view:
  assumes c: "calm n (ev_payload e)" and i: "revival_inv (fst acc)"
  shows "node_view n (fold_event acc e) = node_view n acc"
    and "n |\<in>| rs_route_suppressed (fst acc) \<Longrightarrow> n |\<in>| rs_route_suppressed (fst (fold_event acc e))"
proof -
  obtain s op lg where acc: "acc = (s, op, lg)" by (cases acc)
  let ?s = "fold_deferral s e"
  have i': "revival_inv ?s" using i acc by (simp add: fold_simps)
  have fr: "rs_nodes ?s = rs_nodes s" "rs_revived ?s = rs_revived s"
    "rs_route_suppressed ?s = rs_route_suppressed s" by (simp_all add: fold_deferral_def)
  have "fmlookup (rs_nodes (state_event ?s e)) n = fmlookup (rs_nodes s) n
      \<and> (n |\<in>| rs_revived (state_event ?s e) \<longleftrightarrow> n |\<in>| rs_revived s)
      \<and> (\<forall>j. (n, j) |\<in>| open_event op (ev_payload e) \<longleftrightarrow> (n, j) |\<in>| op)
      \<and> (n |\<in>| rs_route_suppressed s \<longrightarrow> n |\<in>| rs_route_suppressed (state_event ?s e))"
  proof (cases "ev_payload e")
    case (Node_Started m a)
    then show ?thesis using c fr on_node_started_revived [OF i', of "ev_seq e" m]
      by (simp add: state_event_def open_event_def calm_def is_guard_line_def node_started_nodes)
  next
    case (Node_Finished f)
    then show ?thesis using c fr on_node_finished_revived [OF i', of "ev_seq e" f]
      by (simp add: state_event_def open_event_def calm_def is_guard_line_def node_finished_nodes)
  qed (use c fr in \<open>auto simp: state_event_def open_event_def calm_def is_guard_line_def
      on_edge_traversed_def on_branch_failed_def Let_def\<close>)
  then show "node_view n (fold_event acc e) = node_view n acc"
    and "n |\<in>| rs_route_suppressed (fst acc) \<Longrightarrow> n |\<in>| rs_route_suppressed (fst (fold_event acc e))"
    by (simp_all add: acc node_view_def fold_event_def)
qed

abbreviation acc_of :: "event list \<Rightarrow> fold_acc" where
  "acc_of es \<equiv> foldl fold_event fold_init es"

lemma calm_views:
  "(\<And>x. x \<in> set xs \<Longrightarrow> calm n (ev_payload x)) \<Longrightarrow>
    node_view n (acc_of (es @ xs)) = node_view n (acc_of es)
    \<and> (n |\<in>| rs_route_suppressed (fst (acc_of es)) \<longrightarrow> n |\<in>| rs_route_suppressed (fst (acc_of (es @ xs))))"
proof (induction xs rule: rev_induct)
  case (snoc x xs)
  have "revival_inv (fst (acc_of (es @ xs)))" by (rule revivals.inv_fold)
  from calm_view [OF _ this, of n x] snoc show ?case by (simp flip: append_assoc)
qed simp

section \<open>A node written off\<close>

definition written_off :: "string \<Rightarrow> event list \<Rightarrow> bool" where
  "written_off n es \<longleftrightarrow> node_view n (acc_of es) = (Some Cancelled, False, {})
     \<and> n |\<in>| rs_route_suppressed (fst (acc_of es))"

lemma cancelled_finish_view:
  assumes "ev_payload e = finished_event n (node_status_str Cancelled) out"
  shows "node_view n (acc_of (es @ [e])) = (Some Cancelled, False, {})"
proof -
  obtain s op lg where acc: "acc_of es = (s, op, lg)" by (cases "acc_of es")
  have i: "revival_inv (fold_deferral s e)"
    using revivals.inv_fold [of es] acc by (simp add: fold_simps)
  obtain f where f: "ev_payload e = Node_Finished f" "nf_node f = n" "nf_status f = node_status_str Cancelled"
    using assms by (simp add: finished_event_def)
  have "n |\<notin>| rs_revived (on_node_finished (fold_deferral s e) (ev_seq e) f)"
    using on_node_finished_revived [OF i, of "ev_seq e" f] f(2) by auto
  then show ?thesis using acc f
    by (simp add: node_view_def fold_event_def state_event_def open_event_def node_finished_nodes
        from_label_def node_status_str_def)
qed

lemma guard_calm: "is_guard_line p \<Longrightarrow> calm n p"
  by (simp add: calm_def)

lemma write_off_done: "written_off n (snd (write_off clk f lg n))"
proof -
  let ?p1 = "Node_Started n 1"
  let ?p2 = "finished_event n (node_status_str Cancelled) ''cancelled''"
  let ?p3 = "Branch_Cancelled (fr_fork (ff_region f)) n (ff_node f)"
  let ?l1 = "log_append clk lg ?p1"
  let ?l2 = "log_append clk ?l1 ?p2"
  obtain e2 g2 where 2: "snd ?l2 = snd ?l1 @ e2 # g2" "ev_payload e2 = ?p2"
    "\<forall>g\<in>set g2. is_guard_line (ev_payload g)" using log_append_lines by blast
  obtain e3 g3 where 3: "snd (log_append clk ?l2 ?p3) = snd ?l2 @ e3 # g3" "ev_payload e3 = ?p3"
    "\<forall>g\<in>set g3. is_guard_line (ev_payload g)" using log_append_lines by blast
  let ?es = "(snd ?l1 @ [e2]) @ g2"
  have es: "snd (write_off clk f lg n) = (?es @ [e3]) @ g3"
    by (simp add: write_off_def cancel_one_def Let_def 2(1) 3(1))
  have "node_view n (acc_of ?es) = (Some Cancelled, False, {})"
    using calm_views [of g2 n "snd ?l1 @ [e2]"] 2(3) cancelled_finish_view [OF 2(2)] guard_calm by simp
  moreover have "calm n (ev_payload e3)" by (simp add: 3(2) calm_def)
  ultimately have v: "node_view n (acc_of (?es @ [e3])) = (Some Cancelled, False, {})"
    using calm_views [of "[e3]" n ?es] by simp
  have "n |\<in>| rs_route_suppressed (fst (acc_of (?es @ [e3])))"
    using 3(2) by (cases "acc_of ?es") (simp add: fold_event_def state_event_def)
  then show ?thesis
    using v calm_views [of g3 n "?es @ [e3]"] 3(3) guard_calm unfolding written_off_def es by simp
qed

lemma written_off_gains:
  assumes "written_off n (snd lg)" "gains (calm n) lg lg'"
  shows "written_off n (snd lg')"
proof -
  obtain xs where "snd lg' = snd lg @ xs" "\<forall>x\<in>set xs. calm n (ev_payload x)"
    using assms(2) guard_calm unfolding gains_def by blast
  then show ?thesis using calm_views [of xs n "snd lg"] assms(1) by (simp add: written_off_def)
qed

lemma cancels_calm: "cancels f m p \<Longrightarrow> m \<noteq> n \<Longrightarrow> calm n p"
  by (auto simp: cancels_def calm_def finished_event_def)

lemma write_offs_done:
  "distinct ns \<Longrightarrow> n \<in> set ns \<Longrightarrow> written_off n (snd (foldl (write_off clk f) lg ns))"
proof (induction ns arbitrary: lg)
  case (Cons m ns)
  show ?case
  proof (cases "n = m")
    case True
    have "gains (calm n) (write_off clk f lg m) (foldl (write_off clk f) (write_off clk f lg m) ns)"
      by (rule gains_foldl, rule gains_mono [OF write_off_gains], rule cancels_calm)
        (use Cons.prems(1) True in auto)
    then show ?thesis using written_off_gains [OF write_off_done] True by simp
  qed (use Cons in simp)
qed simp

lemma written_off_state:
  assumes "written_off n es"
  shows "fmlookup (rs_nodes (fold_run es)) n = Some Cancelled"
    "current_status (fold_run es) n = Cancelled" "n |\<in>| rs_route_suppressed (fold_run es)"
proof -
  obtain s op lg where a: "acc_of es = (s, op, lg)" "fold_run es = settle_open (s, op, lg)"
    by (rule fold_run_fst)
  have v: "fmlookup (rs_nodes s) n = Some Cancelled" "n |\<notin>| rs_revived s" "\<nexists>i. (n, i) |\<in>| op"
    "n |\<in>| rs_route_suppressed s" using assms a(1) by (auto simp: written_off_def node_view_def)
  then show l: "fmlookup (rs_nodes (fold_run es)) n = Some Cancelled"
    by (simp add: a(2) settle_open_nodes)
  show "current_status (fold_run es) n = Cancelled"
    using l v(2) by (simp add: current_status_def a(2) fold_simps fget_def)
  show "n |\<in>| rs_route_suppressed (fold_run es)"
    using v(4) by (simp add: a(2) settle_open_def Let_def)
qed

lemma view_state:
  assumes "node_view n (acc_of es') = node_view n (acc_of es)"
  shows "fmlookup (rs_nodes (fold_run es')) n = fmlookup (rs_nodes (fold_run es)) n"
    "current_status (fold_run es') n = current_status (fold_run es) n"
proof -
  obtain s op lg where a: "acc_of es = (s, op, lg)" "fold_run es = settle_open (s, op, lg)"
    by (rule fold_run_fst)
  obtain s' op' lg' where a': "acc_of es' = (s', op', lg')" "fold_run es' = settle_open (s', op', lg')"
    by (rule fold_run_fst)
  have v: "fmlookup (rs_nodes s') n = fmlookup (rs_nodes s) n" "(n |\<in>| rs_revived s') = (n |\<in>| rs_revived s)"
    "{i. (n, i) |\<in>| op'} = {i. (n, i) |\<in>| op}" using assms by (simp_all add: a(1) a'(1) node_view_def)
  then have "(\<exists>i. (n, i) |\<in>| op') = (\<exists>i. (n, i) |\<in>| op)" by blast
  then show l: "fmlookup (rs_nodes (fold_run es')) n = fmlookup (rs_nodes (fold_run es)) n"
    using v(1) by (simp add: a(2) a'(2) settle_open_nodes)
  then show "current_status (fold_run es') n = current_status (fold_run es) n"
    using v(2) by (simp add: current_status_def a(2) a'(2) fold_simps fget_def)
qed

section \<open>What is cancelled\<close>

lemma to_cancel_fold:
  "distinct acc \<Longrightarrow> set acc \<subseteq> {n. in_scope f n \<and> n \<notin> set keep} \<Longrightarrow>
   let out = foldl (\<lambda>cancel n. if in_scope f n \<and> n \<notin> set keep \<and> n \<notin> set cancel then cancel @ [n] else cancel)
     acc ns in distinct out \<and> set out = set acc \<union> {n \<in> set ns. in_scope f n \<and> n \<notin> set keep}"
  by (induction ns arbitrary: acc) (auto simp: Let_def)

lemma to_cancel_set:
  "distinct (to_cancel f keep ns)"
  "set (to_cancel f keep ns) = {n \<in> set ns. in_scope f n \<and> n \<notin> set keep}"
  using to_cancel_fold [of "[]" f keep ns] by (simp_all add: to_cancel_def Let_def)

lemma write_offs_calm:
  "n \<notin> set ns \<Longrightarrow> gains (calm n) lg (foldl (write_off clk f) lg ns)"
  by (rule gains_foldl, rule gains_mono [OF write_off_gains], rule cancels_calm) auto

lemma gains_view:
  assumes "gains (calm n) lg lg'"
  shows "node_view n (acc_of (snd lg')) = node_view n (acc_of (snd lg))"
proof -
  obtain xs where "snd lg' = snd lg @ xs" "\<forall>x\<in>set xs. calm n (ev_payload x)"
    using assms guard_calm unfolding gains_def by blast
  then show ?thesis using calm_views [of xs n "snd lg"] by simp
qed

lemma written_off_quiet:
  assumes "written_off n es"
  shows "selected_edges J pb n (fold_run es) = []" "n \<notin> set (pending_heads J pb (fold_run es))"
  using written_off_state [OF assms]
  by (simp_all add: selected_edges_def select_edges_def evaluate_route_def pending_heads_def
      set_pending_heads_besides is_finished_def)


section \<open>Detection\<close>

lemma map_filter_elem: "x \<in> set (List.map_filter f xs) \<longleftrightarrow> (\<exists>y\<in>set xs. f y = Some x)"
  by (force simp: List.map_filter_def)

lemma pb_node_distinct:
  assumes "distinct (node_ids pb)" "n \<in> set (pb_nodes pb)"
  shows "pb_node pb (n_id n) = Some n"
proof -
  obtain m where m: "pb_node pb (n_id n) = Some m"
    using assms(2) pb_node_is_Some [of pb "n_id n"] by auto
  then have "m \<in> set (pb_nodes pb)" "n_id m = n_id n" using pb_node_Some by blast+
  then have "m = n" using assms by (auto simp: node_ids_def distinct_map dest: inj_onD)
  then show ?thesis using m by simp
qed

lemma enclosing_fork_parts:
  assumes "(region, policy) \<in> set (enclosing_forks pb nd)"
  obtains n spec where "n \<in> set (pb_nodes pb)" "n_fork n = Some spec" "fs_on_branch_failure spec = policy"
    "policy \<noteq> Policy_Wait" "fork_region_of pb (n_id n) = Some region" "region_contains region nd"
proof -
  obtain n where "n \<in> set (pb_nodes pb)" "enclosing_fork pb nd n = Some (region, policy)"
    using assms by (auto simp: enclosing_forks_def map_filter_elem)
  then show ?thesis using that by (auto simp: enclosing_fork_def split: option.splits if_splits)
qed

text \<open>A fork the validator passes, as a failure inside it finds it.\<close>

lemma enclosing_ok:
  assumes "list_all (fork_ok pb) (pb_nodes pb)" "distinct (node_ids pb)"
    and "(region, policy) \<in> set (enclosing_forks pb nd)"
  shows "region_contains region nd" "policy \<noteq> Policy_Wait"
    "(policy = Fail_Fast) = (on_failure_of pb (fr_fork region) \<noteq> None)"
    "on_failure_of pb (fr_fork region) = Some t \<Longrightarrow> pb_node pb t \<noteq> None \<and> \<not> region_contains region t"
proof -
  obtain n spec where n: "n \<in> set (pb_nodes pb)" "n_fork n = Some spec" "fs_on_branch_failure spec = policy"
    "policy \<noteq> Policy_Wait" "fork_region_of pb (n_id n) = Some region" "region_contains region nd"
    using assms(3) by (rule enclosing_fork_parts)
  show "region_contains region nd" "policy \<noteq> Policy_Wait" using n by simp_all
  have "pb_node pb (n_id n) = Some n" using assms(2) n(1) by (rule pb_node_distinct)
  then have o: "on_failure_of pb (fr_fork region) = fs_on_failure spec"
    using n(2) region_parts(1) [OF n(5)] by (simp add: on_failure_of_def)
  have "fork_ok pb n" using assms(1) n(1) by (simp add: list_all_iff)
  then show "(policy = Fail_Fast) = (on_failure_of pb (fr_fork region) \<noteq> None)"
    "on_failure_of pb (fr_fork region) = Some t \<Longrightarrow> pb_node pb t \<noteq> None \<and> \<not> region_contains region t"
    using n o by (auto simp: fork_ok_def failure_target_ok_def split: option.splits)
qed

definition failure_ok :: "playbook \<Rightarrow> string \<Rightarrow> fork_failure \<Rightarrow> bool" where
  "failure_ok pb nd f \<longleftrightarrow> ff_node f = nd \<and> region_contains (ff_region f) nd \<and> ff_policy f \<noteq> Policy_Wait
     \<and> (fails_fast f \<longleftrightarrow> ff_target f \<noteq> None)
     \<and> (\<forall>t\<in>set_option (ff_target f). pb_node pb t \<noteq> None \<and> \<not> region_contains (ff_region f) t)"

lemma escalate_ok:
  assumes ok: "list_all (fork_ok pb) (pb_nodes pb)" "distinct (node_ids pb)"
  shows "failure_ok pb nd f \<Longrightarrow> set chain \<subseteq> set (enclosing_forks pb nd) \<Longrightarrow>
    failure_ok pb nd (escalate J pb nd s f chain)"
proof (induction chain arbitrary: f)
  case (Cons o1 chain)
  obtain outer outer_policy where o1: "o1 = (outer, outer_policy)" by fastforce
  note o = enclosing_ok [OF ok, of outer outer_policy nd]
  have outer: "(outer, outer_policy) \<in> set (enclosing_forks pb nd)" using Cons.prems(2) o1 by simp
  show ?case
  proof (cases "list_ex (region_contains outer) (case ff_target f of Some t \<Rightarrow> [t] | None \<Rightarrow> successors J pb nd s)")
    case True
    then show ?thesis using Cons.prems(1) o1 by simp
  next
    case False
    let ?t = "if outer_policy = Fail_Fast then on_failure_of pb (fr_fork outer) else ff_target f"
    let ?g = "\<lparr> ff_region = outer, ff_policy = (if ?t \<noteq> None then Fail_Fast else Cancel_Siblings),
                 ff_node = nd, ff_target = ?t \<rparr>"
    have "pb_node pb t \<noteq> None \<and> \<not> region_contains outer t" if t: "?t = Some t" for t
    proof (cases "outer_policy = Fail_Fast")
      case True
      then show ?thesis using o(4) [OF outer] t by simp
    next
      case fal: False
      then have "ff_target f = Some t" using t by simp
      then show ?thesis using False Cons.prems(1) by (auto simp: failure_ok_def)
    qed
    then have "failure_ok pb nd ?g"
      using o(1) [OF outer] by (auto simp: failure_ok_def fails_fast_def)
    then show ?thesis using Cons.IH [of ?g] Cons.prems(2) False o1 by (simp add: Let_def)
  qed
qed simp

text \<open>
  C25: in a playbook whose forks the validator passes, a failure a policy takes over is one of a
  branch node of a fork with a policy; it has a target exactly when it fails fast; and however far
  it escalated, the target is a declared node outside the branches it cancels.
\<close>

theorem detected_failure_escapes:
  assumes "is_valid (check_forks pb [])" "distinct (node_ids pb)"
    and "detect J pb nd status mode s = Some f"
  shows "ff_node f = nd \<and> region_contains (ff_region f) nd \<and> ff_policy f \<noteq> Policy_Wait
    \<and> (fails_fast f \<longleftrightarrow> ff_target f \<noteq> None)
    \<and> (\<forall>t\<in>set_option (ff_target f). pb_node pb t \<noteq> None \<and> \<not> region_contains (ff_region f) t)"
proof -
  have ok: "list_all (fork_ok pb) (pb_nodes pb)" using assms(1) by (simp add: forks_valid)
  obtain region policy chain where c: "enclosing_forks pb nd = (region, policy) # chain"
    using assms(3) by (auto simp: detect_def split: if_splits list.splits)
  let ?t = "if policy = Fail_Fast then on_failure_of pb (fr_fork region) else None"
  let ?f = "\<lparr> ff_region = region, ff_policy = policy, ff_node = nd, ff_target = ?t \<rparr>"
  note o = enclosing_ok [OF ok assms(2), of region policy nd]
  have "failure_ok pb nd ?f" using o c by (auto simp: failure_ok_def fails_fast_def)
  then have "failure_ok pb nd (escalate J pb nd s ?f chain)"
    by (rule escalate_ok [OF ok assms(2)]) (auto simp: c)
  moreover have "f = escalate J pb nd s ?f chain"
    using assms(3) c by (simp add: detect_def Let_def split: if_splits)
  ultimately show ?thesis by (simp add: failure_ok_def)
qed

section \<open>Recovery leaves no failure behind\<close>

definition owes_begin :: "json_reader \<Rightarrow> playbook \<Rightarrow> run_mode \<Rightarrow> event list \<Rightarrow> string \<Rightarrow> bool" where
  "owes_begin J pb mode es nd \<longleftrightarrow> nd |\<in>| fmdom (rs_nodes (fold_run es)) \<and> untouched es nd
     \<and> detect J pb nd (the (fmlookup (rs_nodes (fold_run es)) nd)) mode (fold_run es) \<noteq> None"

lemma detect_iff:
  "detect J pb nd status mode s \<noteq> None \<longleftrightarrow>
    \<not> parks_on_failure mode \<and> (status = Failed \<or> status = Timed_Out) \<and> enclosing_forks pb nd \<noteq> []"
  by (auto simp: detect_def Let_def split: list.splits)

lemma escalate_node: "ff_node f = nd \<Longrightarrow> ff_node (escalate J pb nd s f chain) = nd"
  by (induction chain arbitrary: f) (auto simp: Let_def)

lemma detect_node: "detect J pb nd status mode s = Some f \<Longrightarrow> ff_node f = nd"
  by (auto simp: detect_def Let_def escalate_node split: if_splits list.splits)

definition finishes_node :: "string \<Rightarrow> event \<Rightarrow> bool" where
  "finishes_node n e = (case ev_payload e of Node_Finished f \<Rightarrow> nf_node f = n | _ \<Rightarrow> False)"

lemma last_finish_snoc:
  "last_finish (es @ [e]) n = (if finishes_node n e then Some (length es) else last_finish es n)"
  by (cases "position (\<lambda>e. case ev_payload e of Node_Finished f \<Rightarrow> nf_node f = n | _ \<Rightarrow> False) (rev es)")
    (auto simp: last_finish_def finishes_node_def)

lemma last_finish_inside: "last_finish es n = Some at \<Longrightarrow> at < length es"
  by (induction es rule: rev_induct)
    (auto simp: last_finish_snoc last_finish_def [of "[]"] less_SucI split: if_splits)

lemma untouched_snoc:
  "untouched (es @ [e]) nd \<longleftrightarrow> finishes_node nd e \<or> (untouched es nd \<and> leaves_untouched nd e)"
  using last_finish_inside [of es nd]
  by (auto simp: untouched_def last_finish_snoc Suc_leI split: option.splits)

lemma untouched_parts:
  "untouched es nd \<Longrightarrow> \<exists>ys e zs. es = ys @ e # zs \<and> finishes_node nd e
     \<and> (\<forall>z\<in>set zs. \<not> finishes_node nd z \<and> leaves_untouched nd z)"
proof (induction es rule: rev_induct)
  case Nil
  then show ?case by (simp add: untouched_def last_finish_def)
next
  case (snoc x es)
  show ?case
  proof (cases "finishes_node nd x")
    case True
    then show ?thesis by (intro exI [of _ es] exI [of _ x] exI [of _ "[]"]) simp
  next
    case False
    then have "untouched es nd" "leaves_untouched nd x" using snoc.prems by (auto simp: untouched_snoc)
    then obtain ys e zs where "es = ys @ e # zs" "finishes_node nd e"
      "\<forall>z\<in>set zs. \<not> finishes_node nd z \<and> leaves_untouched nd z" using snoc.IH by blast
    then show ?thesis using False \<open>leaves_untouched nd x\<close>
      by (intro exI [of _ ys] exI [of _ e] exI [of _ "zs @ [x]"]) auto
  qed
qed

lemma untouched_prefix:
  "untouched (es @ xs) nd \<Longrightarrow> (\<And>x. x \<in> set xs \<Longrightarrow> \<not> finishes_node nd x) \<Longrightarrow>
    untouched es nd \<and> (\<forall>x\<in>set xs. leaves_untouched nd x)"
proof (induction xs rule: rev_induct)
  case (snoc x xs)
  then have "untouched (es @ xs) nd" "leaves_untouched nd x"
    using untouched_snoc [of "es @ xs" x nd] by auto
  then show ?case using snoc by auto
qed simp

text \<open>The first phase: \<^verbatim>\<open>branch_failed\<close> records and their hops only, one for every node that owes one.\<close>

definition begins :: "event_payload \<Rightarrow> bool" where
  "begins p = (case p of Branch_Failed _ _ _ _ \<Rightarrow> True | Edge_Traversed _ \<Rightarrow> True | _ \<Rightarrow> False)"

lemma fork_begin_gains: "gains begins lg (fork_begin clk lg f)"
  unfolding fork_begin_def Let_def
  by (cases "ff_target f")
    (auto simp: begins_def hop_def intro!: gains_trans [OF gains_mono [OF log_append_gains]
        gains_mono [OF log_append_gains]] gains_mono [OF log_append_gains])

lemma fork_begin_record:
  "\<exists>xs. snd (fork_begin clk lg f) = snd lg @ xs
     \<and> (\<exists>x\<in>set xs. \<exists>k q t. ev_payload x = Branch_Failed k (ff_node f) q t)"
proof -
  let ?p = "Branch_Failed (fr_fork (ff_region f)) (ff_node f) (branch_failure_str (ff_policy f)) (ff_target f)"
  obtain e gs where a: "snd (log_append clk lg ?p) = snd lg @ e # gs" "ev_payload e = ?p"
    using log_append_lines by blast
  show ?thesis
  proof (cases "ff_target f")
    case None
    then show ?thesis using a by (intro exI [of _ "e # gs"]) (simp add: fork_begin_def)
  next
    case (Some t)
    obtain ys where "snd (log_append clk (log_append clk lg ?p) (hop (ff_node f) t True False []))
        = snd (log_append clk lg ?p) @ ys" using log_append_lines by blast
    then show ?thesis using a Some by (intro exI [of _ "e # gs @ ys"]) (simp add: fork_begin_def Let_def)
  qed
qed

lemma recover_begin_gains: "gains begins lg (recover_begin J pb clk mode es lg nd)"
  by (auto simp: recover_begin_def Let_def fork_begin_gains split: option.splits)

definition has_failure :: "string \<Rightarrow> event list \<Rightarrow> bool" where
  "has_failure nd xs \<longleftrightarrow> (\<exists>x\<in>set xs. \<exists>k q t. ev_payload x = Branch_Failed k nd q t)"

lemma recover_begins:
  assumes "owes_begin J pb mode es nd"
  shows "nd \<in> set ns \<Longrightarrow> \<exists>xs. snd (foldl (recover_begin J pb clk mode es) lg ns) = snd lg @ xs
     \<and> has_failure nd xs"
proof (induction ns arbitrary: lg)
  case (Cons n ns)
  let ?lg = "recover_begin J pb clk mode es lg n"
  obtain xs where xs: "snd ?lg = snd lg @ xs" using recover_begin_gains unfolding gains_def by blast
  obtain ys where ys: "snd (foldl (recover_begin J pb clk mode es) ?lg ns) = snd ?lg @ ys"
    using gains_foldl [of ns begins "recover_begin J pb clk mode es" ?lg] recover_begin_gains
    unfolding gains_def by blast
  show ?case
  proof (cases "n = nd")
    case True
    obtain f where f: "detect J pb nd (the (fmlookup (rs_nodes (fold_run es)) nd)) mode (fold_run es) = Some f"
      "untouched es nd" using assms by (auto simp: owes_begin_def)
    then have "?lg = fork_begin clk lg f" using True by (simp add: recover_begin_def Let_def)
    then have "has_failure nd xs"
      using fork_begin_record [of clk lg f] xs detect_node [OF f(1)] by (auto simp: has_failure_def)
    then show ?thesis using xs ys by (intro exI [of _ "xs @ ys"]) (auto simp: has_failure_def)
  next
    case False
    then obtain zs where "snd (foldl (recover_begin J pb clk mode es) ?lg ns) = snd ?lg @ zs" "has_failure nd zs"
      using Cons.IH [of ?lg] Cons.prems by auto
    then show ?thesis using xs by (intro exI [of _ "xs @ zs"]) (auto simp: has_failure_def)
  qed
qed simp

text \<open>The second phase: cancellations only, and a node started in it when it adds a line at all.\<close>

definition cancels_any :: "event_payload \<Rightarrow> bool" where
  "cancels_any p \<longleftrightarrow> (\<exists>f n. cancels f n p)"

definition starts_any :: "event \<Rightarrow> bool" where
  "starts_any e = (case ev_payload e of Node_Started _ _ \<Rightarrow> True | _ \<Rightarrow> False)"

definition cancelling :: "run_log \<Rightarrow> run_log \<Rightarrow> bool" where
  "cancelling lg lg' \<longleftrightarrow> gains cancels_any lg lg'
     \<and> (\<exists>xs. snd lg' = snd lg @ xs \<and> (xs = [] \<or> list_ex starts_any xs))"

lemma cancelling_trans: "cancelling lg lg' \<Longrightarrow> cancelling lg' lg'' \<Longrightarrow> cancelling lg lg''"
  unfolding cancelling_def using gains_trans [of cancels_any lg lg' lg'']
  by (metis append.assoc append_is_Nil_conv list_ex_append)

lemma cancelling_refl: "cancelling lg lg"
  by (simp add: cancelling_def)

lemma cancelling_foldl: "(\<And>lg x. cancelling lg (f lg x)) \<Longrightarrow> cancelling lg (foldl f lg xs)"
proof (induction xs arbitrary: lg)
  case (Cons x xs)
  then show ?case using cancelling_trans [of lg "f lg x"] by simp
qed (simp add: cancelling_refl)

lemma write_off_cancelling: "cancelling lg (write_off clk f lg n)"
proof -
  let ?l1 = "log_append clk lg (Node_Started n 1)"
  let ?l2 = "log_append clk ?l1 (finished_event n (node_status_str Cancelled) ''cancelled'')"
  obtain e gs where a: "snd ?l1 = snd lg @ e # gs" "ev_payload e = Node_Started n 1"
    using log_append_lines by blast
  obtain ys where b: "snd ?l2 = snd ?l1 @ ys" using log_append_lines by blast
  obtain zs where c: "snd (write_off clk f lg n) = snd ?l2 @ zs"
    using log_append_lines unfolding write_off_def cancel_one_def Let_def by blast
  have "snd (write_off clk f lg n) = snd lg @ (e # gs @ ys @ zs)" using a(1) b c by simp
  moreover have "starts_any e" using a(2) by (simp add: starts_any_def)
  moreover have "gains cancels_any lg (write_off clk f lg n)"
    by (rule gains_mono [OF write_off_gains]) (auto simp: cancels_any_def)
  ultimately show ?thesis unfolding cancelling_def
    by (intro conjI exI [of _ "e # gs @ ys @ zs"]) simp_all
qed

lemma cancel_waiting_cancelling: "cancelling lg (fst (cancel_waiting J pb clk lg f frontier))"
  by (simp add: cancel_waiting_def Let_def cancelling_foldl write_off_cancelling)

lemma recover_cancel_cancelling: "cancelling (fst acc) (fst (recover_cancel J pb clk es acc ie))"
proof -
  obtain lg w i e where p: "acc = (lg, w)" "ie = (i, e)" by (cases acc; cases ie) auto
  have "cancelling lg lg'" if "cancel_waiting J pb clk lg f fr = (lg', x, y)" for lg' f fr x y
    using cancel_waiting_cancelling [of lg J pb clk f fr] that by simp
  then show ?thesis
    by (auto simp: p recover_cancel_def cancelling_refl Let_def
        split: event_payload.split option.split prod.split)
qed

lemma recover_phases:
  "\<exists>xs1 xs2. snd (fst (recover J pb clk mode lg)) = snd lg @ xs1 @ xs2
    \<and> (\<forall>x\<in>set xs1. is_guard_line (ev_payload x) \<or> begins (ev_payload x))
    \<and> (\<forall>nd. owes_begin J pb mode (snd lg) nd \<longrightarrow> has_failure nd xs1)
    \<and> (\<forall>x\<in>set xs2. is_guard_line (ev_payload x) \<or> cancels_any (ev_payload x))
    \<and> (xs2 = [] \<or> list_ex starts_any xs2)"
proof -
  let ?ns = "sorted_list_of_fset (fmdom (rs_nodes (fold_run (snd lg))))"
  let ?lg1 = "foldl (recover_begin J pb clk mode (snd lg)) lg ?ns"
  have "gains begins lg ?lg1" by (rule gains_foldl, rule recover_begin_gains)
  then obtain xs1 where 1: "snd ?lg1 = snd lg @ xs1"
    "\<forall>x\<in>set xs1. is_guard_line (ev_payload x) \<or> begins (ev_payload x)" unfolding gains_def by blast
  have 2: "has_failure nd xs1" if o: "owes_begin J pb mode (snd lg) nd" for nd
  proof -
    have "nd \<in> set ?ns" using o by (simp add: owes_begin_def)
    from recover_begins [OF o this, of clk lg] 1(1) show ?thesis by auto
  qed
  have "cancelling (fst (?lg1, [] :: string list)) (fst (foldl (recover_cancel J pb clk (snd ?lg1)) (?lg1, []) es))"
    for es
  proof (induction es rule: rev_induct)
    case (snoc x es)
    show ?case
      by (rule cancelling_trans [OF snoc]) (simp add: recover_cancel_cancelling)
  qed (simp add: cancelling_refl)
  then have "cancelling ?lg1 (fst (recover J pb clk mode lg))" by (simp add: recover_def Let_def)
  then obtain xs2 where 3: "snd (fst (recover J pb clk mode lg)) = snd ?lg1 @ xs2"
    "\<forall>x\<in>set xs2. is_guard_line (ev_payload x) \<or> cancels_any (ev_payload x)"
    "xs2 = [] \<or> list_ex starts_any xs2" unfolding cancelling_def gains_def by fastforce
  show ?thesis using 1 2 3 by (intro exI [of _ xs1] exI [of _ xs2]) simp
qed

lemma cancels_finish:
  "cancels_any p \<Longrightarrow> (case p of Node_Finished f \<Rightarrow> nf_node f = n | _ \<Rightarrow> False) \<Longrightarrow>
    p = finished_event n (node_status_str Cancelled) ''cancelled''"
  by (auto simp: cancels_any_def cancels_def finished_event_def)

lemma recovery_calm:
  assumes "is_guard_line (ev_payload x) \<or> begins (ev_payload x) \<or> cancels_any (ev_payload x)"
    and "\<not> finishes_node nd x" "leaves_untouched nd x"
  shows "calm nd (ev_payload x)"
  using assms
  by (auto simp: begins_def calm_def cancels_any_def cancels_def finished_event_def finishes_node_def
      leaves_untouched_def split: event_payload.splits)

lemma split_tail:
  assumes "ys @ e # zs = as @ bs"
  obtains us where "bs = us @ e # zs" | vs where "as = ys @ e # vs" "zs = vs @ bs"
  using assms by (auto simp: append_eq_append_conv2 Cons_eq_append_conv)

lemma cancelled_in_recovery:
  assumes "es = us @ e # zs" "finishes_node nd e" "cancels_any (ev_payload e)"
    and "\<And>z. z \<in> set zs \<Longrightarrow> calm nd (ev_payload z)"
  shows "fmlookup (rs_nodes (fold_run es)) nd = Some Cancelled"
proof -
  have "ev_payload e = finished_event nd (node_status_str Cancelled) ''cancelled''"
    using cancels_finish [OF assms(3)] assms(2) by (simp add: finishes_node_def)
  then have "node_view nd (acc_of (us @ [e])) = (Some Cancelled, False, {})"
    by (rule cancelled_finish_view)
  then have v: "node_view nd (acc_of es) = (Some Cancelled, False, {})"
    using calm_views [of zs nd "us @ [e]"] assms(1,4) by simp
  obtain s op lg where a: "acc_of es = (s, op, lg)" "fold_run es = settle_open (s, op, lg)"
    by (rule fold_run_fst)
  show ?thesis using v by (auto simp: a settle_open_nodes node_view_def)
qed

text \<open>After recovery no node owes the policy that takes its failure over a decision.\<close>

lemma recovered_owes_nothing:
  "\<not> owes_begin J pb mode (snd (fst (recover J pb clk mode lg))) nd"
proof
  let ?es2 = "snd (fst (recover J pb clk mode lg))"
  assume o: "owes_begin J pb mode ?es2 nd"
  obtain xs1 xs2 where xs: "?es2 = snd lg @ xs1 @ xs2"
    "\<And>x. x \<in> set xs1 \<Longrightarrow> is_guard_line (ev_payload x) \<or> begins (ev_payload x)"
    "\<And>nd. owes_begin J pb mode (snd lg) nd \<Longrightarrow> has_failure nd xs1"
    "\<And>x. x \<in> set xs2 \<Longrightarrow> is_guard_line (ev_payload x) \<or> cancels_any (ev_payload x)"
    "xs2 = [] \<or> list_ex starts_any xs2" using recover_phases [of J pb clk mode lg] by blast
  obtain ys e zs where p: "?es2 = ys @ e # zs" "finishes_node nd e"
    "\<forall>z\<in>set zs. \<not> finishes_node nd z \<and> leaves_untouched nd z"
    using untouched_parts o unfolding owes_begin_def by blast
  have st: "the (fmlookup (rs_nodes (fold_run ?es2)) nd) \<noteq> Cancelled"
    using o unfolding owes_begin_def detect_iff by auto
  have xs2: "z \<in> set xs2 \<Longrightarrow> \<not> finishes_node nd z \<Longrightarrow> leaves_untouched nd z \<Longrightarrow> calm nd (ev_payload z)" for z
    using xs(4) recovery_calm by blast
  have "ys @ e # zs = (snd lg @ xs1) @ xs2" using p(1) xs(1) by simp
  then show False
  proof (rule split_tail)
    fix us assume us: "xs2 = us @ e # zs"
    then have "cancels_any (ev_payload e)"
      using xs(4) [of e] p(2) by (auto simp: finishes_node_def is_guard_line_def split: event_payload.splits)
    moreover have "calm nd (ev_payload z)" if "z \<in> set zs" for z using xs2 us p(3) that by simp
    ultimately show False using cancelled_in_recovery [OF p(1,2)] st by simp
  next
    fix vs assume vs: "snd lg @ xs1 = ys @ e # vs" "zs = vs @ xs2"
    have "\<not> list_ex starts_any xs2"
      using p(3) vs(2) by (auto simp: list_ex_iff starts_any_def leaves_untouched_def split: event_payload.splits)
    then have no: "xs2 = []" using xs(5) by blast
    have nf: "\<not> finishes_node nd x" if "x \<in> set xs1" for x
      using xs(2) [OF that]
      by (auto simp: finishes_node_def is_guard_line_def begins_def split: event_payload.splits)
    have u: "untouched (snd lg @ xs1) nd" using o xs(1) no by (simp add: owes_begin_def)
    have pre: "untouched (snd lg) nd" "\<forall>x\<in>set xs1. leaves_untouched nd x"
      using untouched_prefix [OF u nf] by blast+
    have "calm nd (ev_payload x)" if "x \<in> set xs1" for x
      using recovery_calm xs(2) nf pre(2) that by blast
    then have "node_view nd (acc_of ?es2) = node_view nd (acc_of (snd lg))"
      using calm_views [of xs1 nd "snd lg"] xs(1) no by simp
    from view_state(1) [OF this] have "owes_begin J pb mode (snd lg) nd"
      using o pre(1) unfolding owes_begin_def detect_iff by (simp add: fmlookup_dom_iff)
    then have "has_failure nd xs1" by (rule xs(3))
    then show False using pre(2) by (auto simp: has_failure_def leaves_untouched_def)
  qed
qed

text \<open>The same over the records of the journal: what ran since a finish, and a failure nobody took over.\<close>

definition ran_since :: "string \<Rightarrow> event \<Rightarrow> bool" where
  "ran_since nd v \<longleftrightarrow> (\<exists>m a. ev_payload v = Node_Started m a) \<or> ev_payload v = Audit (Wake_Raised nd)
     \<or> (\<exists>k q t. ev_payload v = Branch_Failed k nd q t)"

definition failure_ignored :: "playbook \<Rightarrow> run_mode \<Rightarrow> event list \<Rightarrow> string \<Rightarrow> bool" where
  "failure_ignored pb mode es nd \<longleftrightarrow> \<not> parks_on_failure mode
     \<and> fmlookup (rs_nodes (fold_run es)) nd \<in> {Some Failed, Some Timed_Out}
     \<and> (\<exists>n spec region. n \<in> set (pb_nodes pb) \<and> n_fork n = Some spec \<and> fs_on_branch_failure spec \<noteq> Policy_Wait
          \<and> fork_region_of pb (n_id n) = Some region \<and> region_contains region nd)
     \<and> (\<exists>us e vs. es = us @ e # vs \<and> finishes_node nd e
          \<and> (\<forall>v\<in>set vs. \<not> finishes_node nd v \<and> \<not> ran_since nd v))"

lemma leaves_untouched_iff: "leaves_untouched nd v \<longleftrightarrow> \<not> ran_since nd v"
  by (auto simp: leaves_untouched_def ran_since_def split: event_payload.split audit_kind.split)

lemma untouched_from_parts:
  "finishes_node nd e \<Longrightarrow> \<forall>v\<in>set vs. \<not> finishes_node nd v \<and> \<not> ran_since nd v \<Longrightarrow>
    untouched (us @ e # vs) nd"
proof (induction vs rule: rev_induct)
  case Nil
  then show ?case by (simp add: untouched_snoc)
next
  case (snoc v vs)
  then have "untouched (us @ e # vs) nd" "leaves_untouched nd v" by (simp_all add: leaves_untouched_iff)
  then show ?case using untouched_snoc [of "us @ e # vs" v nd] by simp
qed

lemma failure_ignored_owes:
  assumes "failure_ignored pb mode es nd"
  shows "owes_begin J pb mode es nd"
proof -
  obtain n spec region where n: "n \<in> set (pb_nodes pb)" "n_fork n = Some spec"
    "fs_on_branch_failure spec \<noteq> Policy_Wait" "fork_region_of pb (n_id n) = Some region" "region_contains region nd"
    using assms unfolding failure_ignored_def by blast
  then have "enclosing_fork pb nd n = Some (region, fs_on_branch_failure spec)"
    by (simp add: enclosing_fork_def)
  then have "(region, fs_on_branch_failure spec) \<in> set (enclosing_forks pb nd)"
    using n(1) by (auto simp: enclosing_forks_def map_filter_elem)
  then have "enclosing_forks pb nd \<noteq> []" by auto
  moreover have "untouched es nd"
    using assms untouched_from_parts unfolding failure_ignored_def by blast
  moreover have "\<not> parks_on_failure mode" using assms by (simp add: failure_ignored_def)
  moreover have st: "fmlookup (rs_nodes (fold_run es)) nd = Some Failed
      \<or> fmlookup (rs_nodes (fold_run es)) nd = Some Timed_Out" using assms by (simp add: failure_ignored_def)
  moreover have "nd |\<in>| fmdom (rs_nodes (fold_run es))" using st by (auto intro: fmdomI)
  ultimately show ?thesis unfolding owes_begin_def detect_iff by auto
qed

text \<open>
  A \<^verbatim>\<open>branch_failed\<close> record whose cancellations may be incomplete: its node finished no more, and
  every node started since was cancelled at its next finish.
\<close>

definition cancelled_after :: "string \<Rightarrow> event list \<Rightarrow> bool" where
  "cancelled_after m vs \<longleftrightarrow> (\<exists>ps e qs f. vs = ps @ e # qs \<and> ev_payload e = Node_Finished f \<and> nf_node f = m
     \<and> nf_status f = node_status_str Cancelled \<and> (\<forall>p\<in>set ps. \<not> finishes_node m p))"

definition cancellations_only :: "event list \<Rightarrow> bool" where
  "cancellations_only es \<longleftrightarrow>
     (\<forall>us x vs m a. es = us @ x # vs \<longrightarrow> ev_payload x = Node_Started m a \<longrightarrow> cancelled_after m vs)"

definition half_done_at :: "playbook \<Rightarrow> fork_failure \<Rightarrow> event \<Rightarrow> event list \<Rightarrow> bool" where
  "half_done_at pb f x vs \<longleftrightarrow> (\<exists>policy.
       ev_payload x = Branch_Failed (fr_fork (ff_region f)) (ff_node f) policy (ff_target f)
     \<and> ff_policy f = (if policy = ''fail_fast'' then Fail_Fast else Cancel_Siblings))
     \<and> fork_region_of pb (fr_fork (ff_region f)) = Some (ff_region f)
     \<and> (\<forall>v\<in>set vs. \<not> finishes_node (ff_node f) v) \<and> cancellations_only vs"

definition half_done :: "playbook \<Rightarrow> event list \<Rightarrow> fork_failure \<Rightarrow> bool" where
  "half_done pb es f \<longleftrightarrow> (\<exists>us x vs. es = us @ x # vs \<and> half_done_at pb f x vs)"

text \<open>The nodes of a failure that still wait at a point of the journal.\<close>

definition waiting_for :: "json_reader \<Rightarrow> playbook \<Rightarrow> fork_failure \<Rightarrow> event list \<Rightarrow> string set" where
  "waiting_for J pb f es = {n \<in> set (pending_heads J pb (fold_run es)). in_scope f n
     \<and> n \<notin> set (routing_targets J pb f (fold_run es))}"

lemma cancelled_after_Cons:
  "cancelled_after m (v # vs) \<longleftrightarrow>
     (if finishes_node m v
      then (case ev_payload v of Node_Finished f \<Rightarrow> nf_status f = node_status_str Cancelled | _ \<Rightarrow> False)
      else cancelled_after m vs)" (is "?l \<longleftrightarrow> ?r")
proof
  assume ?l
  then obtain ps e qs f where p: "v # vs = ps @ e # qs" "ev_payload e = Node_Finished f" "nf_node f = m"
    "nf_status f = node_status_str Cancelled" "\<forall>p\<in>set ps. \<not> finishes_node m p"
    unfolding cancelled_after_def by blast
  show ?r
  proof (cases ps)
    case Nil
    then show ?thesis using p by (simp add: finishes_node_def)
  next
    case (Cons q ps')
    then have "cancelled_after m vs" using p unfolding cancelled_after_def by auto
    then show ?thesis using p(1,5) Cons by simp
  qed
next
  assume r: ?r
  show ?l
  proof (cases "finishes_node m v")
    case True
    then obtain f where "ev_payload v = Node_Finished f" "nf_node f = m"
      by (auto simp: finishes_node_def split: event_payload.splits)
    then show ?thesis using r True unfolding cancelled_after_def
      by (intro exI [of _ "[]"] exI [of _ v] exI [of _ vs] exI [of _ f]) simp
  next
    case False
    then obtain ps e qs f where "vs = ps @ e # qs" "ev_payload e = Node_Finished f" "nf_node f = m"
      "nf_status f = node_status_str Cancelled" "\<forall>p\<in>set ps. \<not> finishes_node m p"
      using r unfolding cancelled_after_def by auto
    then show ?thesis using False unfolding cancelled_after_def
      by (intro exI [of _ "v # ps"] exI [of _ e] exI [of _ qs] exI [of _ f]) simp
  qed
qed

lemma finish_after_iff: "finish_after m vs = Some True \<longleftrightarrow> cancelled_after m vs"
proof (induction vs)
  case Nil
  then show ?case by (simp add: cancelled_after_def)
next
  case (Cons v vs)
  then show ?case
    by (cases "ev_payload v") (simp_all add: cancelled_after_Cons finishes_node_def)
qed

lemma only_cancellations_iff: "only_cancellations es \<longleftrightarrow> cancellations_only es"
proof (induction es)
  case Nil
  then show ?case by (simp add: cancellations_only_def)
next
  case (Cons e es)
  have "cancellations_only (e # es) \<longleftrightarrow>
    (\<forall>m a. ev_payload e = Node_Started m a \<longrightarrow> cancelled_after m es) \<and> cancellations_only es"
    unfolding cancellations_only_def by (auto simp: Cons_eq_append_conv)
  then show ?case by (cases "ev_payload e") (simp_all add: Cons finish_after_iff)
qed

lemma last_finish_from:
  "(\<exists>at. last_finish (us @ vs) n = Some at \<and> length us \<le> at) \<longleftrightarrow> (\<exists>v\<in>set vs. finishes_node n v)"
proof (induction vs rule: rev_induct)
  case Nil
  then show ?case using last_finish_inside [of us n] by fastforce
next
  case (snoc v vs)
  then show ?case using last_finish_snoc [of "us @ vs" v n] by (auto simp flip: append_assoc)
qed

section \<open>The second phase, record by record\<close>

definition cancelled_for :: "json_reader \<Rightarrow> playbook \<Rightarrow> (nat \<Rightarrow> nat) \<Rightarrow> fork_failure
    \<Rightarrow> run_log \<times> string list \<Rightarrow> run_log \<times> string list" where
  "cancelled_for J pb clk f acc =
     (case cancel_waiting J pb clk (fst acc) f [] of (lg, _, cancelled) \<Rightarrow> (lg, snd acc @ cancelled))"

lemma recover_cancel_at:
  assumes es: "es = us @ x # vs"
  shows "half_done_at pb f x vs \<Longrightarrow> recover_cancel J pb clk es acc (length us, x) = cancelled_for J pb clk f acc"
    and "recover_cancel J pb clk es acc (length us, x) = acc
      \<or> (\<exists>f. half_done_at pb f x vs \<and> recover_cancel J pb clk es acc (length us, x) = cancelled_for J pb clk f acc)"
proof -
  obtain lg w where acc: "acc = (lg, w)" by (cases acc)
  have fin: "(case last_finish es nd of Some at \<Rightarrow> at > length us | None \<Rightarrow> False)
      \<longleftrightarrow> (\<exists>v\<in>set vs. finishes_node nd v)" for nd
    using last_finish_from [of "us @ [x]" vs nd] by (auto simp: es Suc_le_eq split: option.splits)
  have un: "unsettled es (length us) \<longleftrightarrow> cancellations_only vs"
    by (simp add: unsettled_def only_cancellations_iff es)
  show "recover_cancel J pb clk es acc (length us, x) = cancelled_for J pb clk f acc"
    if half: "half_done_at pb f x vs"
  proof -
    obtain policy where p: "ev_payload x = Branch_Failed (fr_fork (ff_region f)) (ff_node f) policy (ff_target f)"
      "ff_policy f = (if policy = ''fail_fast'' then Fail_Fast else Cancel_Siblings)"
      "fork_region_of pb (fr_fork (ff_region f)) = Some (ff_region f)"
      "\<forall>v\<in>set vs. \<not> finishes_node (ff_node f) v" "cancellations_only vs"
      using half unfolding half_done_at_def by blast
    have f: "\<lparr> ff_region = ff_region f, ff_policy = (if policy = ''fail_fast'' then Fail_Fast else Cancel_Siblings),
        ff_node = ff_node f, ff_target = ff_target f \<rparr> = f" using p(2) by (cases f) simp
    show ?thesis using p(4,5) by (simp add: recover_cancel_def acc p(1,3) fin un f cancelled_for_def)
  qed
  show "recover_cancel J pb clk es acc (length us, x) = acc
      \<or> (\<exists>f. half_done_at pb f x vs \<and> recover_cancel J pb clk es acc (length us, x) = cancelled_for J pb clk f acc)"
  proof (cases "\<exists>fork nd policy target region. ev_payload x = Branch_Failed fork nd policy target
      \<and> fork_region_of pb fork = Some region \<and> (\<forall>v\<in>set vs. \<not> finishes_node nd v) \<and> cancellations_only vs")
    case True
    then obtain fork nd policy target region where p: "ev_payload x = Branch_Failed fork nd policy target"
      "fork_region_of pb fork = Some region" "\<forall>v\<in>set vs. \<not> finishes_node nd v" "cancellations_only vs"
      by blast
    let ?f = "\<lparr> ff_region = region, ff_policy = (if policy = ''fail_fast'' then Fail_Fast else Cancel_Siblings),
        ff_node = nd, ff_target = target \<rparr>"
    have "half_done_at pb ?f x vs" using p region_parts(1) [OF p(2)] by (simp add: half_done_at_def)
    moreover have "recover_cancel J pb clk es acc (length us, x) = cancelled_for J pb clk ?f acc"
      using p(3,4) by (simp add: recover_cancel_def acc p(1,2) fin un cancelled_for_def)
    ultimately show ?thesis by blast
  next
    case False
    have "recover_cancel J pb clk es acc (length us, x) = acc"
    proof (cases "ev_payload x")
      case (Branch_Failed fork nd policy target)
      then show ?thesis using False
        by (cases "fork_region_of pb fork") (auto simp: recover_cancel_def acc fin un)
    qed (simp_all add: recover_cancel_def acc)
    then show ?thesis ..
  qed
qed

lemma half_done_at_unique:
  assumes "half_done_at pb f x vs" "half_done_at pb g x vs"
  shows "f = g"
proof (rule fork_failure.equality)
  obtain p where p: "ev_payload x = Branch_Failed (fr_fork (ff_region f)) (ff_node f) p (ff_target f)"
    "ff_policy f = (if p = ''fail_fast'' then Fail_Fast else Cancel_Siblings)"
    using assms(1) unfolding half_done_at_def by (elim exE conjE) (rule that)
  obtain q where q: "ev_payload x = Branch_Failed (fr_fork (ff_region g)) (ff_node g) q (ff_target g)"
    "ff_policy g = (if q = ''fail_fast'' then Fail_Fast else Cancel_Siblings)"
    using assms(2) unfolding half_done_at_def by (elim exE conjE) (rule that)
  show "ff_policy f = ff_policy g" "ff_node f = ff_node g" "ff_target f = ff_target g"
    using p q by simp_all
  have "fr_fork (ff_region f) = fr_fork (ff_region g)" using p(1) q(1) by simp
  then show "ff_region f = ff_region g" using assms by (simp add: half_done_at_def)
qed simp

text \<open>One write-off: what it returns is written off, in scope, and all that waited there.\<close>

lemma cancelled_for_step:
  assumes "cancelled_for J pb clk f acc = (lg', w')"
  obtains c where "w' = snd acc @ c" "set c = waiting_for J pb f (snd (fst acc))"
    "gains (\<lambda>p. \<exists>n\<in>set c. cancels f n p) (fst acc) lg'" "\<And>n. n \<in> set c \<Longrightarrow> written_off n (snd lg')"
    "\<And>n. written_off n (snd (fst acc)) \<Longrightarrow> written_off n (snd lg')"
proof -
  let ?lg = "fst acc"
  let ?s = "fold_run (snd ?lg)"
  let ?c = "to_cancel f (routing_targets J pb f ?s) (pending_heads J pb ?s)"
  have lg': "lg' = foldl (write_off clk f) ?lg ?c" and w': "w' = snd acc @ ?c"
    using assms by (auto simp: cancelled_for_def cancel_waiting_def Let_def)
  note tc = to_cancel_set [of f "routing_targets J pb f ?s" "pending_heads J pb ?s"]
  have off: "written_off n (snd lg')" if "n \<in> set ?c" for n
    unfolding lg' by (rule write_offs_done [OF tc(1) that])
  show ?thesis
  proof (rule that [OF w'])
    show "set ?c = waiting_for J pb f (snd ?lg)" using tc(2) by (auto simp: waiting_for_def)
    show "gains (\<lambda>p. \<exists>n\<in>set ?c. cancels f n p) ?lg lg'" unfolding lg'
      by (rule gains_foldl, rule gains_mono [OF write_off_gains]) auto
    show "written_off n (snd lg')" if "n \<in> set ?c" for n by (rule off [OF that])
    show "written_off n (snd lg')" if "written_off n (snd ?lg)" for n
    proof (cases "n \<in> set ?c")
      case False
      then show ?thesis unfolding lg' by (rule written_off_gains [OF that write_offs_calm])
    qed (rule off)
  qed
qed

text \<open>The journal of the second phase from \<open>es1\<close> on, with the records up to \<open>us\<close> handled.\<close>

definition second_phase ::
  "json_reader \<Rightarrow> playbook \<Rightarrow> event list \<Rightarrow> event list \<Rightarrow> run_log \<times> string list \<Rightarrow> bool" where
  "second_phase J pb es1 us acc \<longleftrightarrow> (\<exists>xs2. snd (fst acc) = es1 @ xs2
     \<and> list_all (\<lambda>x. is_guard_line (ev_payload x) \<or> (\<exists>n\<in>set (snd acc). \<exists>f. cancels f n (ev_payload x))) xs2
     \<and> (\<forall>n\<in>set (snd acc). written_off n (snd (fst acc)) \<and> (\<exists>f. half_done pb es1 f \<and> in_scope f n))
     \<and> (\<forall>f as x bs. us = as @ x # bs \<longrightarrow> half_done_at pb f x (drop (length as + 1) es1) \<longrightarrow>
          (\<exists>ys zs. xs2 = ys @ zs \<and> waiting_for J pb f (es1 @ ys) \<subseteq> set (snd acc))))"

lemma second_phase_step:
  assumes inv: "second_phase J pb es1 us acc" and es1: "es1 = us @ x # vs"
  shows "second_phase J pb es1 (us @ [x]) (recover_cancel J pb clk es1 acc (length us, x))"
proof -
  obtain xs2 where xs2: "snd (fst acc) = es1 @ xs2"
    "list_all (\<lambda>x. is_guard_line (ev_payload x) \<or> (\<exists>n\<in>set (snd acc). \<exists>f. cancels f n (ev_payload x))) xs2"
    "\<forall>n\<in>set (snd acc). written_off n (snd (fst acc)) \<and> (\<exists>f. half_done pb es1 f \<and> in_scope f n)"
    "\<And>f as x bs. us = as @ x # bs \<Longrightarrow> half_done_at pb f x (drop (length as + 1) es1) \<Longrightarrow>
          (\<exists>ys zs. xs2 = ys @ zs \<and> waiting_for J pb f (es1 @ ys) \<subseteq> set (snd acc))"
    using inv unfolding second_phase_def by blast
  note at = recover_cancel_at [OF es1, where pb = pb and J = J and clk = clk and acc = acc]
  show ?thesis
  proof (cases "\<exists>f. half_done_at pb f x vs")
    case False
    then have "recover_cancel J pb clk es1 acc (length us, x) = acc" using at(2) by blast
    moreover have "\<exists>ys zs. xs2 = ys @ zs \<and> waiting_for J pb f (es1 @ ys) \<subseteq> set (snd acc)"
      if "us @ [x] = as @ y # bs" "half_done_at pb f y (drop (length as + 1) es1)" for f as y bs
    proof (cases bs rule: rev_cases)
      case Nil
      then show ?thesis using that False by (simp add: es1)
    next
      case (snoc bs' z)
      then show ?thesis using xs2(4) [of as y bs' f] that by simp
    qed
    ultimately show ?thesis using xs2(1-3) unfolding second_phase_def by auto
  next
    case True
    then obtain f0 where f0: "half_done_at pb f0 x vs" by blast
    have hd: "half_done pb es1 f0" using f0 es1 unfolding half_done_def by blast
    obtain lg' w' where r: "cancelled_for J pb clk f0 acc = (lg', w')" by fastforce
    obtain c where c: "w' = snd acc @ c" "set c = waiting_for J pb f0 (snd (fst acc))"
      "gains (\<lambda>p. \<exists>n\<in>set c. cancels f0 n p) (fst acc) lg'" "\<And>n. n \<in> set c \<Longrightarrow> written_off n (snd lg')"
      "\<And>n. written_off n (snd (fst acc)) \<Longrightarrow> written_off n (snd lg')"
      using cancelled_for_step [OF r] by blast
    obtain gs where gs: "snd lg' = snd (fst acc) @ gs"
      "\<forall>x\<in>set gs. is_guard_line (ev_payload x) \<or> (\<exists>n\<in>set c. cancels f0 n (ev_payload x))"
      using c(3) unfolding gains_def by (elim exE conjE) (rule that)
    have "\<exists>ys zs. xs2 @ gs = ys @ zs \<and> waiting_for J pb f (es1 @ ys) \<subseteq> set w'"
      if split: "us @ [x] = as @ y # bs" "half_done_at pb f y (drop (length as + 1) es1)" for f as y bs
    proof (cases bs rule: rev_cases)
      case Nil
      then have "half_done_at pb f x vs" using split by (simp add: es1)
      then have "f = f0" using half_done_at_unique f0 by blast
      then show ?thesis using c(1,2) xs2(1) by (intro exI [of _ xs2] exI [of _ gs]) simp
    next
      case (snoc bs' z)
      then obtain ys zs where "xs2 = ys @ zs" "waiting_for J pb f (es1 @ ys) \<subseteq> set (snd acc)"
        using xs2(4) [of as y bs' f] split by auto
      then show ?thesis using c(1) by (intro exI [of _ ys] exI [of _ "zs @ gs"]) auto
    qed
    moreover have "list_all (\<lambda>x. is_guard_line (ev_payload x) \<or> (\<exists>n\<in>set w'. \<exists>f. cancels f n (ev_payload x))) (xs2 @ gs)"
      using xs2(2) gs(2) c(1) by (force simp: list_all_iff)
    moreover have "\<forall>n\<in>set w'. written_off n (snd lg') \<and> (\<exists>f. half_done pb es1 f \<and> in_scope f n)"
      using xs2(3) c hd by (auto simp: waiting_for_def)
    ultimately show ?thesis
      using xs2(1) gs(1) at(1) [OF f0] r unfolding second_phase_def by (intro exI [of _ "xs2 @ gs"]) simp
  qed
qed

lemma second_phase_all:
  "es1 = us @ vs \<Longrightarrow> second_phase J pb es1 us acc \<Longrightarrow>
    second_phase J pb es1 es1 (foldl (recover_cancel J pb clk es1) acc (enumerate (length us) vs))"
proof (induction vs arbitrary: us acc)
  case (Cons x vs)
  have "second_phase J pb es1 (us @ [x]) (recover_cancel J pb clk es1 acc (length us, x))"
    by (rule second_phase_step [OF Cons.prems(2,1)])
  then show ?case using Cons.IH [of "us @ [x]"] Cons.prems(1) by simp
qed simp


section \<open>A fork that fails fast\<close>

definition fast_fork :: playbook where
  "fast_fork = plain_playbook
     [(plain_node ''f'' (Prompt []))\<lparr> n_fork := Some \<lparr> fs_on_branch_failure = Fail_Fast,
        fs_on_failure = Some ''z'' \<rparr> \<rparr>,
      plain_node ''a'' (Prompt []), plain_node ''b'' (Prompt []), plain_node ''z'' (Prompt [])]
     [plain_edge ''f'' ''a'', plain_edge ''f'' ''b'']"

lemma fast_fork_region:
  obtains region where "fork_region_of fast_fork ''f'' = Some region" "region_contains region ''a''"
    "\<not> region_contains region ''z''" "fr_joins region = fempty"
proof -
  have heads: "fork_heads fast_fork ''f'' = [''a'', ''b'']"
    by (simp add: fork_heads_def fast_fork_def)
  then obtain r where r: "fork_region_of fast_fork ''f'' = Some r"
    by (simp add: fork_region_of_def Let_def)
  have rel: "fork_rel fast_fork ''f'' = {(''f'', ''a''), (''f'', ''b'')}"
    by (auto simp: fork_rel_def edge_rel_image fast_fork_def)
  have z: "''z'' |\<notin>| fork_branches fast_fork ''f''"
    by (auto simp: branch_iff rel elim: rtranclE)
  have "e_from e = ''f''" if "e \<in> set (pb_edges fast_fork)" for e
    using that by (auto simp: fast_fork_def)
  then have "fork_joins fast_fork ''f'' (fork_branches fast_fork ''f'') = fempty"
    by (auto simp: join_iff branch_iff)
  then show ?thesis
    using that [OF r] region_parts [OF r] z head_is_branch [of "''a''" fast_fork "''f''"] heads
    by (simp add: region_contains_def)
qed

theorem detected_failure_escapes_witness:
  "is_valid (check_forks fast_fork []) \<and> (\<forall>J s. \<exists>f. detect J fast_fork ''a'' Failed Autonomous s = Some f
     \<and> region_contains (ff_region f) ''a'' \<and> (fails_fast f \<longleftrightarrow> ff_target f \<noteq> None))"
proof -
  obtain region where r: "fork_region_of fast_fork ''f'' = Some region" "region_contains region ''a''"
    "\<not> region_contains region ''z''" "fr_joins region = fempty" by (rule fast_fork_region)
  have "failure_target_ok fast_fork ''f'' ''z''"
    using r by (simp add: failure_target_ok_def) (simp add: fast_fork_def pb_node_def)
  moreover have "2 \<le> length (fork_heads fast_fork ''f'')" using r(1)
    by (simp add: fork_region_of_def Let_def split: if_splits)
  ultimately have ok: "list_all (fork_ok fast_fork) (pb_nodes fast_fork)"
    unfolding fork_ok_def by (simp add: fast_fork_def)
  then have v: "is_valid (check_forks fast_fork [])" by (simp add: forks_valid)
  have "enclosing_fork fast_fork ''a'' (hd (pb_nodes fast_fork)) = Some (region, Fail_Fast)"
    using r(1,2) unfolding enclosing_fork_def by (simp add: fast_fork_def)
  moreover have "hd (pb_nodes fast_fork) \<in> set (pb_nodes fast_fork)" by (simp add: fast_fork_def)
  ultimately have "(region, Fail_Fast) \<in> set (enclosing_forks fast_fork ''a'')"
    by (auto simp: enclosing_forks_def map_filter_elem)
  then have det: "detect J fast_fork ''a'' Failed Autonomous s \<noteq> None"
    for J s unfolding detect_iff by (auto simp: parks_on_failure_def)
  have d: "distinct (node_ids fast_fork)" by (simp add: node_ids_def fast_fork_def)
  show ?thesis using v det detected_failure_escapes [OF v d] by fast
qed

end
