(* ===== verification/Send_Marker.thy ===== *)
theory Send_Marker
  imports Schema
begin

text \<open>
  The hidden send marker, \<^verbatim>\<open>apb-core/src/connector/marker.rs\<close>, how a send carries it
  (\<^verbatim>\<open>apb-engine/src/connector/intent/stamp.rs\<close>) and how a lookup finds it again
  (\<^verbatim>\<open>intent/reconcile.rs\<close>).  A marker found by the lookup is the marker of the very send looked
  for: the text of every send has forged markers neutralized first.
\<close>

section \<open>The marker\<close>

definition KEYWORD :: string where "KEYWORD = ''apb-intent''"
definition NEUTRALIZED :: string where "NEUTRALIZED = ''apb-quoted-intent''"

datatype marker_format = Html_Comment

record marker_fields =
  mf_run :: string
  mf_node :: string
  mf_attempt :: "u32 option"
  mf_nonce :: string

definition render_marker :: "marker_format \<Rightarrow> marker_fields \<Rightarrow> string" where
  "render_marker format f =
     (let attempt = (case mf_attempt f of None \<Rightarrow> ''-'' | Some n \<Rightarrow> show_nat (unat n)) in
      case format of
        Html_Comment \<Rightarrow>
          ''<!-- '' @ KEYWORD @ '' v1 run='' @ mf_run f @ '' node='' @ mf_node f @ '' attempt='' @ attempt
            @ '' nonce='' @ mf_nonce f @ '' -->'')"

definition append_marker :: "string option \<Rightarrow> string \<Rightarrow> string" where
  "append_marker t marker =
     (case map_option trim_end t of
        Some body \<Rightarrow> if body \<noteq> [] then body @ [CHR 0x0A, CHR 0x0A] @ marker else marker
      | None \<Rightarrow> marker)"

definition ascii_lower :: "char \<Rightarrow> char" where
  "ascii_lower c = (if is_upper c then char_of (byte c + 32) else c)"

fun neutralize :: "string \<Rightarrow> string" where
  "neutralize [] = []"
| "neutralize (c # cs) =
     (if prefix KEYWORD (map ascii_lower (c # cs))
      then NEUTRALIZED @ neutralize (drop (length KEYWORD - 1) cs)
      else c # neutralize cs)"

fun neutralize_value :: "json \<Rightarrow> json" where
  "neutralize_value (JString s) = JString (neutralize s)"
| "neutralize_value (JArray items) = JArray (map neutralize_value items)"
| "neutralize_value (JObject kvs) = JObject (map (\<lambda>(k, v). (k, neutralize_value v)) kvs)"
| "neutralize_value v = v"

function match_count :: "string \<Rightarrow> string \<Rightarrow> nat" where
  "match_count p s =
     (if p = [] then 0
      else if prefix p s then Suc (match_count p (drop (length p) s))
      else case s of [] \<Rightarrow> 0 | c # cs \<Rightarrow> match_count p cs)"
  by pat_completeness auto
termination
proof (relation "measure (\<lambda>(p, s). length s)", simp)
  fix p s :: string
  assume "p \<noteq> []" "prefix p s"
  then have "0 < length p" "length p \<le> length s" by (auto dest: prefix_length_le)
  then have "length s - length p < length s" by linarith
  then show "((p, drop (length p) s), p, s) \<in> measure (\<lambda>(p, s). length s)" by simp
qed simp

declare match_count.simps [simp del]

definition carries_exactly :: "string \<Rightarrow> string \<Rightarrow> bool" where
  "carries_exactly t marker \<longleftrightarrow>
     marker \<noteq> [] \<and> suffix marker (trim_end t) \<and> match_count marker t = 1"

section \<open>Counting matches\<close>

lemma match_count_Nil [simp]: "p \<noteq> [] \<Longrightarrow> match_count p [] = 0"
  by (subst match_count.simps) simp

lemma match_count_once:
  assumes "m \<noteq> []" "\<And>a c. b @ m = a @ m @ c \<Longrightarrow> a = b"
  shows "match_count m (b @ m) = 1"
  using assms(2)
proof (induction b)
  case Nil
  show ?case using assms(1) by (subst match_count.simps) simp
next
  case (Cons x b)
  have "\<not> prefix m (x # b @ m)"
  proof
    assume "prefix m (x # b @ m)"
    then obtain c where "(x # b) @ m = [] @ m @ c" by (auto simp: prefix_def)
    then show False using Cons.prems by blast
  qed
  moreover have "match_count m (b @ m) = 1"
  proof (rule Cons.IH)
    fix a c assume "b @ m = a @ m @ c"
    then have "(x # b) @ m = (x # a) @ m @ c" by simp
    then show "a = b" using Cons.prems by blast
  qed
  ultimately show ?case using assms(1) by (subst match_count.simps) simp
qed

section \<open>Neutralized text holds no keyword\<close>

lemma neutralize_tail:
  "CHR ''a'' \<notin> set k \<Longrightarrow> prefix k (map ascii_lower (neutralize s)) \<Longrightarrow> prefix k (map ascii_lower s)"
proof (induction k arbitrary: s)
  case (Cons x k)
  show ?case
  proof (cases s)
    case (Cons c cs)
    show ?thesis
    proof (cases "prefix KEYWORD (map ascii_lower s)")
      case True
      then have "prefix (x # k) (map ascii_lower NEUTRALIZED @ map ascii_lower (neutralize (drop (length KEYWORD - 1) cs)))"
        using Cons.prems(2) Cons by simp
      then have "x = CHR ''a''"
        by (simp add: NEUTRALIZED_def ascii_lower_def is_upper_def in_range_def byte_def)
      then show ?thesis using Cons.prems(1) by simp
    next
      case False
      then show ?thesis using Cons.prems Cons.IH [of cs] Cons by simp
    qed
  qed (use Cons.prems in simp)
qed simp

lemma lower_keyword: "map ascii_lower KEYWORD = KEYWORD"
  by (simp add: KEYWORD_def ascii_lower_def is_upper_def in_range_def byte_def)

lemma keyword_not_neutralized: "\<not> sublist KEYWORD (map ascii_lower (neutralize s))"
proof (induction s rule: neutralize.induct)
  case 1
  show ?case by (simp add: KEYWORD_def)
next
  case (2 c cs)
  show ?case
  proof (cases "prefix KEYWORD (map ascii_lower (c # cs))")
    case True
    have "\<not> sublist KEYWORD (map ascii_lower (neutralize (drop (length KEYWORD - 1) cs)))"
      using 2 True by blast
    then have "\<not> sublist KEYWORD (map ascii_lower NEUTRALIZED
        @ map ascii_lower (neutralize (drop (length KEYWORD - 1) cs)))"
      by (simp add: KEYWORD_def NEUTRALIZED_def ascii_lower_def is_upper_def in_range_def byte_def
          sublist_Cons_right)
    then show ?thesis using True by simp
  next
    case False
    have k: "KEYWORD = CHR ''a'' # tl KEYWORD" "CHR ''a'' \<notin> set (tl KEYWORD)"
      by (simp_all add: KEYWORD_def)
    have "\<not> prefix KEYWORD (ascii_lower c # map ascii_lower (neutralize cs))"
    proof
      assume p: "prefix KEYWORD (ascii_lower c # map ascii_lower (neutralize cs))"
      then have h: "ascii_lower c = CHR ''a''" "prefix (tl KEYWORD) (map ascii_lower (neutralize cs))"
        using k(1) by (metis Cons_prefix_Cons)+
      then have "prefix KEYWORD (map ascii_lower (c # cs))"
        using neutralize_tail [OF k(2) h(2)] k(1) by (metis Cons_prefix_Cons list.simps(9))
      then show False using False by blast
    qed
    moreover have "\<not> sublist KEYWORD (map ascii_lower (neutralize cs))" using 2 False by blast
    ultimately show ?thesis using False by (simp add: sublist_Cons_right)
  qed
qed

lemma neutralize_no_keyword: "\<not> sublist KEYWORD (neutralize s)"
  using keyword_not_neutralized [of s] map_mono_sublist [of KEYWORD "neutralize s" ascii_lower]
  unfolding lower_keyword by blast

section \<open>A rendered marker\<close>

definition slug_char :: "char \<Rightarrow> bool" where
  "slug_char c \<longleftrightarrow> is_lower c \<or> is_upper c \<or> is_digit c \<or> c = CHR ''-'' \<or> c = CHR ''_'' \<or> c = CHR ''.''"

definition slug :: "string \<Rightarrow> bool" where
  "slug s \<longleftrightarrow> list_all slug_char s"

definition slug_fields :: "marker_fields \<Rightarrow> bool" where
  "slug_fields f \<longleftrightarrow> slug (mf_run f) \<and> slug (mf_node f) \<and> slug (mf_nonce f)"

lemma slug_free:
  assumes "slug s"
  shows "CHR ''<'' \<notin> set s" "CHR 0x0A \<notin> set s" "CHR ''='' \<notin> set s"
  using assms
  by (auto simp: slug_def list_all_iff slug_char_def is_lower_def is_upper_def is_digit_def in_range_def byte_def)

lemma digits_slug: "slug (show_nat n)"
  using show_nat_digits [of n] by (auto simp: slug_def list_all_iff slug_char_def)

lemma attempt_slug: "slug (case a of None \<Rightarrow> ''-'' | Some n \<Rightarrow> show_nat (unat n))"
  by (cases a) (simp_all add: digits_slug, simp add: slug_def slug_char_def)

lemma rendered_shape:
  assumes "slug_fields f"
  obtains u where "render_marker fm f = CHR ''<'' # ''!-- '' @ KEYWORD @ u @ ''nonce='' @ mf_nonce f @ '' -->''"
    "CHR ''<'' \<notin> set u" "CHR 0x0A \<notin> set u"
proof -
  let ?a = "case mf_attempt f of None \<Rightarrow> ''-'' | Some n \<Rightarrow> show_nat (unat n)"
  let ?u = "'' v1 run='' @ mf_run f @ '' node='' @ mf_node f @ '' attempt='' @ ?a @ '' ''"
  have "render_marker fm f = CHR ''<'' # ''!-- '' @ KEYWORD @ ?u @ ''nonce='' @ mf_nonce f @ '' -->''"
    by (cases fm) (simp add: render_marker_def Let_def)
  moreover have "CHR ''<'' \<notin> set ?u \<and> CHR 0x0A \<notin> set ?u"
    using assms slug_free(1,2) attempt_slug [of "mf_attempt f"] by (auto simp: slug_fields_def)
  ultimately show ?thesis using that by blast
qed

lemma rendered_head:
  assumes "slug_fields f"
  shows "\<exists>t. render_marker fm f = CHR ''<'' # t \<and> CHR ''<'' \<notin> set t \<and> CHR 0x0A \<notin> set t
    \<and> sublist KEYWORD t \<and> t \<noteq> [] \<and> last t = CHR ''>''"
proof -
  obtain u where u: "render_marker fm f = CHR ''<'' # ''!-- '' @ KEYWORD @ u @ ''nonce='' @ mf_nonce f @ '' -->''"
    "CHR ''<'' \<notin> set u" "CHR 0x0A \<notin> set u"
    using rendered_shape [OF assms] by blast
  have "slug (mf_nonce f)" using assms by (simp add: slug_fields_def)
  then have "CHR ''<'' \<notin> set (''!-- '' @ KEYWORD @ u @ ''nonce='' @ mf_nonce f @ '' -->'')
    \<and> CHR 0x0A \<notin> set (''!-- '' @ KEYWORD @ u @ ''nonce='' @ mf_nonce f @ '' -->'')"
    using u(2,3) slug_free(1,2) by (auto simp: KEYWORD_def)
  moreover have "sublist KEYWORD (''!-- '' @ KEYWORD @ u @ ''nonce='' @ mf_nonce f @ '' -->'')"
    by (metis sublist_appendI)
  ultimately show ?thesis using u(1) by simp
qed

lemma rendered_nonce:
  assumes "slug_fields f" "slug_fields g" "render_marker fm f = render_marker fm' g"
  shows "mf_nonce f = mf_nonce g"
proof -
  have r: "\<exists>p. rsplit_once (CHR ''='') (render_marker fx h) = Some (p, mf_nonce h @ '' -->'')"
    if "slug_fields h" for fx h
  proof -
    note sh = that
    obtain u where u: "render_marker fx h = CHR ''<'' # ''!-- '' @ KEYWORD @ u @ ''nonce='' @ mf_nonce h @ '' -->''"
      by (rule rendered_shape [OF sh])
    have "slug (mf_nonce h)" using sh by (simp add: slug_fields_def)
    then have "CHR ''='' \<notin> set (mf_nonce h @ '' -->'')" using slug_free(3) by simp
    moreover have "render_marker fx h
        = (CHR ''<'' # ''!-- '' @ KEYWORD @ u @ ''nonce'') @ CHR ''='' # (mf_nonce h @ '' -->'')"
      using u by simp
    ultimately show ?thesis using rsplit_once_append by metis
  qed
  show ?thesis using r [OF assms(1), of fm] r [OF assms(2), of fm'] assms(3) by auto
qed

lemma trim_end_graphic: "s \<noteq> [] \<Longrightarrow> graphic (last s) \<Longrightarrow> trim_end s = s"
proof -
  assume s: "s \<noteq> []" "graphic (last s)"
  have "strip_front (map rev white_spaces) (rev s) = rev s"
  proof (rule strip_front_id)
    fix w assume w: "w \<in> set (map rev white_spaces)" "w \<noteq> []"
    then obtain v where v: "v \<in> set white_spaces" "w = rev v" by auto
    then have "\<not> graphic (hd w)" using white_space_hd [OF v(1)] w(2) by (auto simp: hd_rev)
    moreover have "graphic (hd (rev s))" using s by (simp add: hd_rev)
    ultimately show "\<not> prefix w (rev s)" using w(2) s(1) by (cases w; cases "rev s") auto
  qed
  then show ?thesis by (simp add: trim_end_def)
qed

lemma trim_end_prefix: "prefix (trim_end s) s"
proof -
  obtain p where "rev s = p @ strip_front (map rev white_spaces) (rev s)" using strip_front_suffix by blast
  then have "s = trim_end s @ rev p" unfolding trim_end_def by (metis rev_append rev_rev_ident)
  then show ?thesis by (metis prefixI)
qed

lemma append_shape:
  "\<exists>b. append_marker t m = b @ m \<and> (b = [] \<or> (\<exists>s. t = Some s \<and> b = trim_end s @ [CHR 0x0A, CHR 0x0A]))"
  by (auto simp: append_marker_def split: option.splits)

section \<open>A marker found is the marker of that send\<close>

lemma sublist_before:
  assumes "sublist p (b @ [x, x])" "x \<notin> set p" "p \<noteq> []"
  shows "sublist p b"
proof -
  have one: "sublist p c" if "sublist p (c @ [x])" for c
  proof -
    note c = that
    obtain ps ss where e: "c @ [x] = ps @ p @ ss" using c unfolding sublist_def by blast
    have "ss \<noteq> []"
    proof
      assume "ss = []"
      then have "c @ [x] = ps @ p" using e by simp
      then have "last (ps @ p) = x" by (metis last_snoc)
      then have "last p = x" using assms(3) by simp
      then show False using assms(2,3) last_in_set [of p] by simp
    qed
    then obtain ss' y where ss: "ss = ss' @ [y]" by (cases ss rule: rev_cases) auto
    then have "c @ [x] = (ps @ p @ ss') @ [y]" using e by simp
    then have "c = ps @ p @ ss'" by (simp only: append1_eq_conv)
    then show ?thesis by simp
  qed
  have "sublist p ((b @ [x]) @ [x])" using assms(1) by simp
  then show ?thesis using one by blast
qed

lemma stamped_once:
  assumes b: "b = [] \<or> (\<exists>s. b = trim_end (neutralize s) @ [CHR 0x0A, CHR 0x0A])"
    and m: "CHR 0x0A \<notin> set m" "sublist KEYWORD m" "m \<noteq> []"
  shows "match_count m (b @ m) = 1"
proof (rule match_count_once [OF m(3)])
  fix a c assume e: "b @ m = a @ m @ c"
  show "a = b"
  proof (cases "length b \<le> length a")
    case True
    have "length b + length m = length a + length m + length c"
      using arg_cong [OF e, of length] by simp
    then have "length b = length a" using True by linarith
    then show ?thesis using e append_eq_append_conv [of b a m "m @ c"] by blast
  next
    case False
    obtain d where d: "b = a @ d \<and> d @ m = m @ c \<or> b @ d = a \<and> m = d @ m @ c"
      using e append_eq_append_conv2 [of b m a "m @ c"] by blast
    have "b @ d \<noteq> a" using False by auto
    then have d: "b = a @ d" "d @ m = m @ c" using d by blast+
    have "d \<noteq> []" using False d(1) by auto
    note d = d this
    obtain s where s: "b = trim_end (neutralize s) @ [CHR 0x0A, CHR 0x0A]" using b d by auto
    have "last (a @ d) = CHR 0x0A" using s d(1) by simp
    then have "last d = CHR 0x0A" using d(3) by simp
    then have nl: "CHR 0x0A \<in> set d" using d(3) last_in_set by metis
    show ?thesis
    proof (cases "length d \<le> length m")
      case True
      moreover have "prefix m (d @ m)" unfolding d(2) by (rule prefixI) (rule refl)
      moreover have "prefix d (d @ m)" by (rule prefixI) (rule refl)
      ultimately have "prefix d m" by (metis prefix_length_prefix)
      then show ?thesis using nl m(1) set_mono_prefix by blast
    next
      case False
      then have "length m \<le> length d" by simp
      moreover have "prefix m (d @ m)" unfolding d(2) by (rule prefixI) (rule refl)
      moreover have "prefix d (d @ m)" by (rule prefixI) (rule refl)
      ultimately have "prefix m d" by (metis prefix_length_prefix)
      then obtain r where "d = m @ r" by (auto simp: prefix_def)
      then have "sublist m b" unfolding d(1) by (simp only: sublist_appendI)
      then have "sublist KEYWORD b" by (rule sublist_order.order.trans [OF m(2)])
      then have "sublist KEYWORD (trim_end (neutralize s))"
        unfolding s by (rule sublist_before) (simp_all add: KEYWORD_def)
      then have "sublist KEYWORD (neutralize s)"
        by (rule sublist_order.order.trans [OF _ prefix_imp_sublist [OF trim_end_prefix]])
      then show ?thesis using neutralize_no_keyword by blast
    qed
  qed
qed

text \<open>Stamped text carries its own marker and no other, and a marker tells the nonce.\<close>

lemma marker_carried:
  assumes "slug_fields f" "slug_fields g"
  shows "carries_exactly (append_marker (map_option neutralize t) (render_marker fm f)) (render_marker fm g)
      = (render_marker fm g = render_marker fm f)
    \<and> (render_marker fm g = render_marker fm f \<longrightarrow> mf_nonce g = mf_nonce f)"
proof -
  let ?m = "render_marker fm f"
  obtain u v where u: "?m = CHR ''<'' # u" "CHR ''<'' \<notin> set u" "CHR 0x0A \<notin> set u" "sublist KEYWORD u"
      "u \<noteq> []" "last u = CHR ''>''"
    and v: "render_marker fm g = CHR ''<'' # v" "CHR ''<'' \<notin> set v" "v \<noteq> []"
    using rendered_head [OF assms(1)] rendered_head [OF assms(2)] by metis
  obtain b where b: "append_marker (map_option neutralize t) ?m = b @ ?m"
    "b = [] \<or> (\<exists>s. b = trim_end (neutralize s) @ [CHR 0x0A, CHR 0x0A])"
    using append_shape [of "map_option neutralize t" ?m] by auto
  have gr: "trim_end (b @ ?m) = b @ ?m"
    by (rule trim_end_graphic) (use u in \<open>simp_all add: graphic_def in_range_def byte_def\<close>)
  have own: "carries_exactly (b @ ?m) ?m"
  proof -
    have "match_count ?m (b @ ?m) = 1"
      by (rule stamped_once [OF b(2)]) (use u in \<open>auto simp: sublist_Cons_right\<close>)
    moreover have "?m \<noteq> []" using u(1) by simp
    moreover have "suffix ?m (trim_end (b @ ?m))" unfolding gr by (rule suffixI) simp
    ultimately show ?thesis by (simp add: carries_exactly_def)
  qed
  have other: "render_marker fm g = ?m" if "carries_exactly (b @ ?m) (render_marker fm g)"
  proof -
    have "suffix (render_marker fm g) (b @ ?m)" using that gr by (simp add: carries_exactly_def)
    moreover have "suffix ?m (b @ ?m)" by (rule suffixI) simp
    ultimately consider "suffix (render_marker fm g) ?m" | "suffix ?m (render_marker fm g)"
      using suffix_same_cases by blast
    then show ?thesis
      using u(1,2) v(1,2) by cases (auto simp: suffix_def Cons_eq_append_conv)
  qed
  have "carries_exactly (append_marker (map_option neutralize t) ?m) (render_marker fm g)
      \<longleftrightarrow> render_marker fm g = ?m"
    unfolding b(1) using own other by metis
  then show ?thesis using rendered_nonce [OF assms(2,1)] by blast
qed

end
