(* ===== verification/Text_Mode.thy ===== *)
theory Text_Mode
  imports Schema "HOL-Library.AList"
begin

text \<open>
  Text modes of a connector function's string arguments,
  \<^verbatim>\<open>apb-core/src/connector/text_mode.rs\<close>: text kept as Markdown with slash commands escaped on
  every line, or one line of literal text.  Texts are UTF-8 bytes; the literal mode reads them
  character by character, and which characters outside ASCII are alphanumeric is the argument
  \<open>alnum\<close> (the Unicode tables of the standard library).
\<close>

datatype text_mode = Markdown | Markdown_No_Commands | Literal

definition text_mode_str :: "text_mode \<Rightarrow> string" where
  "text_mode_str m =
     (case m of Markdown \<Rightarrow> ''markdown'' | Markdown_No_Commands \<Rightarrow> ''markdown_no_commands''
      | Literal \<Rightarrow> ''literal'')"

definition ALL_MODES :: "text_mode list" where
  "ALL_MODES = [Markdown, Markdown_No_Commands, Literal]"

definition text_mode_parse :: "string \<Rightarrow> text_mode option" where
  "text_mode_parse name = find (\<lambda>m. text_mode_str m = name) ALL_MODES"

section \<open>Slash commands\<close>

definition ascii_alnum :: "char \<Rightarrow> bool" where
  "ascii_alnum c \<longleftrightarrow> is_lower c \<or> is_upper c \<or> is_digit c"

fun starts_with_command :: "string \<Rightarrow> bool" where
  "starts_with_command (a # b # r) \<longleftrightarrow> a = CHR ''/'' \<and> (ascii_alnum b \<or> b = CHR ''_'')"
| "starts_with_command r = False"

definition line_end :: "char \<Rightarrow> bool" where
  "line_end c \<longleftrightarrow> c = CHR 0x0A \<or> c = CHR 0x0D"

definition blank :: "char \<Rightarrow> bool" where
  "blank c \<longleftrightarrow> c = CHR '' '' \<or> c = CHR 0x09"

fun split_lines :: "string \<Rightarrow> string list" where
  "split_lines [] = []"
| "split_lines (c # cs) =
     (if line_end c then [c] # split_lines cs
      else case split_lines cs of [] \<Rightarrow> [[c]] | l # ls \<Rightarrow> (c # l) # ls)"

definition line_has_command :: "string \<Rightarrow> bool" where
  "line_has_command l = starts_with_command (dropWhile blank l)"

definition escape_line :: "string \<Rightarrow> string" where
  "escape_line l =
     (if line_has_command l then takeWhile blank l @ [CHR 0x5C] @ dropWhile blank l else l)"

definition escape_line_commands :: "string \<Rightarrow> string" where
  "escape_line_commands t =
     (if \<not> list_ex line_has_command (split_lines t) then t
      else concat (map escape_line (split_lines t)))"

section \<open>Literal text\<close>

definition LITERAL_ESCAPES :: "string list" where
  "LITERAL_ESCAPES = map (\<lambda>c. [c]) ([CHR 0x5C, CHR 0x60] @ ''*_[]<>|~#&@!$%'')"

definition URL_STOPS :: "string list" where
  "URL_STOPS = map (\<lambda>c. [c]) ([CHR 0x60, CHR 0x5C, CHR 0x22] @ ''<>|[]*'')"

function utf8_chars :: "string \<Rightarrow> string list" where
  "utf8_chars [] = []"
| "utf8_chars (c # cs) = (c # takeWhile cont_byte cs) # utf8_chars (dropWhile cont_byte cs)"
  by pat_completeness auto
termination
  by (relation "measure length") (simp_all add: less_Suc_eq_le length_dropWhile_le)

fun ws_words :: "string list \<Rightarrow> string list list" where
  "ws_words [] = [[]]"
| "ws_words (c # cs) =
     (if c \<in> set white_spaces then [] # ws_words cs
      else case ws_words cs of w # ws \<Rightarrow> (c # w) # ws | [] \<Rightarrow> [[c]])"

fun join_words :: "string list list \<Rightarrow> string list" where
  "join_words [] = []"
| "join_words [w] = w"
| "join_words (w # ws) = w @ ['' ''] @ join_words ws"

definition collapse :: "string \<Rightarrow> string list" where
  "collapse t = join_words (filter (\<lambda>w. w \<noteq> []) (ws_words (utf8_chars t)))"

definition is_alphanumeric :: "(string \<Rightarrow> bool) \<Rightarrow> string \<Rightarrow> bool" where
  "is_alphanumeric alnum ch = (case ch of [c] \<Rightarrow> ascii_alnum c | _ \<Rightarrow> alnum ch)"

definition value_start_marker :: "string list \<Rightarrow> nat option" where
  "value_start_marker line =
     (case line of [] \<Rightarrow> None
      | first # _ \<Rightarrow>
          if first \<in> {''-'', ''+'', ''=''} \<or> starts_with_command (concat line) then Some 0
          else let digits = length (takeWhile (\<lambda>ch. \<exists>c. ch = [c] \<and> is_digit c) line)
               in if digits > 0 \<and> digits < length line \<and> line ! digits \<in> {''.'', '')''}
                  then Some digits else None)"

definition scheme_of :: "string list \<Rightarrow> string option" where
  "scheme_of rest =
     find (\<lambda>s. map (\<lambda>c. if is_upper c then char_of (byte c + 32) else c) (concat (take (length s) rest)) = s)
       [''https://'', ''http://'']"

definition bare_url_len :: "string list \<Rightarrow> nat option" where
  "bare_url_len rest =
     (case scheme_of rest of None \<Rightarrow> None
      | Some scheme \<Rightarrow>
          let len = length (takeWhile (\<lambda>ch. ch \<notin> set white_spaces \<and> ch \<notin> set URL_STOPS) rest)
          in if len > length scheme then Some len else None)"

fun escape_chars ::
  "(string \<Rightarrow> bool) \<Rightarrow> nat option \<Rightarrow> nat \<Rightarrow> nat \<Rightarrow> string option \<Rightarrow> string list \<Rightarrow> string" where
  "escape_chars alnum marker i url_end prev [] = []"
| "escape_chars alnum marker i url_end prev (c # cs) =
     (let url_end' =
            (if i \<ge> url_end \<and> (case prev of None \<Rightarrow> True | Some p \<Rightarrow> \<not> is_alphanumeric alnum p)
             then (case bare_url_len (c # cs) of Some len \<Rightarrow> i + len | None \<Rightarrow> url_end)
             else url_end)
      in (if i \<ge> url_end' \<and> (Some i = marker \<or> c \<in> set LITERAL_ESCAPES) then [CHR 0x5C] else [])
         @ c @ escape_chars alnum marker (Suc i) url_end' (Some c) cs)"

definition escape_literal :: "(string \<Rightarrow> bool) \<Rightarrow> string \<Rightarrow> string" where
  "escape_literal alnum t =
     (let line = collapse t in escape_chars alnum (value_start_marker line) 0 0 None line)"

section \<open>Applying the modes\<close>

definition apply_mode :: "(string \<Rightarrow> bool) \<Rightarrow> text_mode \<Rightarrow> string \<Rightarrow> string" where
  "apply_mode alnum m t =
     (case m of Markdown \<Rightarrow> t | Markdown_No_Commands \<Rightarrow> escape_line_commands t
      | Literal \<Rightarrow> escape_literal alnum t)"

definition apply_text_args ::
  "(string \<Rightarrow> bool) \<Rightarrow> (string \<times> text_mode) list \<Rightarrow> json \<Rightarrow> json" where
  "apply_text_args alnum modes args =
     (case as_object args of None \<Rightarrow> args
      | Some kvs \<Rightarrow>
          JObject (foldl (\<lambda>out (name, m).
             (case map_of kvs name of
                Some (JString t) \<Rightarrow> AList.update name (JString (apply_mode alnum m t)) out
              | _ \<Rightarrow> out)) kvs modes))"

section \<open>No command survives\<close>

lemma split_lines_concat [simp]: "concat (split_lines t) = t"
  by (induction t) (auto split: list.splits)

fun lines_ok :: "string list \<Rightarrow> bool" where
  "lines_ok [] = True"
| "lines_ok [l] \<longleftrightarrow> l \<noteq> [] \<and> list_all (Not \<circ> line_end) (butlast l)"
| "lines_ok (l # m # ls) \<longleftrightarrow> l \<noteq> [] \<and> list_all (Not \<circ> line_end) (butlast l) \<and> line_end (last l) \<and> lines_ok (m # ls)"

lemma split_lines_Nil [simp]: "split_lines t = [] \<longleftrightarrow> t = []"
  by (cases t) (auto split: list.splits)

lemma split_lines_ok: "lines_ok (split_lines t)"
proof (induction t)
  case (Cons c t)
  show ?case
  proof (cases "split_lines t")
    case Nil
    then show ?thesis by simp
  next
    case C: (Cons l ls)
    then show ?thesis using Cons by (cases ls) auto
  qed
qed simp

lemma split_lines_body:
  "list_all (Not \<circ> line_end) b \<Longrightarrow> line_end e \<Longrightarrow> split_lines (b @ e # r) = (b @ [e]) # split_lines r"
  by (induction b) auto

lemma split_lines_rest: "b \<noteq> [] \<Longrightarrow> list_all (Not \<circ> line_end) b \<Longrightarrow> split_lines b = [b]"
proof (induction b)
  case (Cons c b)
  then show ?case by (cases "b = []") auto
qed simp

lemma split_lines_of: "lines_ok ls \<Longrightarrow> split_lines (concat ls) = ls"
proof (induction ls rule: lines_ok.induct)
  case (2 l)
  obtain b e where l: "l = b @ [e]" using 2 by (cases l rule: rev_cases) auto
  then show ?case
    using 2 split_lines_body [of b e "[]"] split_lines_rest [of l] by (cases "line_end e") auto
next
  case (3 l m ls)
  obtain b e where l: "l = b @ [e]" using 3 by (cases l rule: rev_cases) auto
  then show ?case using 3 split_lines_body [of b e "concat (m # ls)"] by simp
qed simp

lemma escape_line_shape:
  assumes "l \<noteq> []"
  shows "escape_line l \<noteq> [] \<and> last (escape_line l) = last l
    \<and> (list_all (Not \<circ> line_end) (butlast l) \<longrightarrow> list_all (Not \<circ> line_end) (butlast (escape_line l)))"
proof (cases "line_has_command l")
  case True
  then have r: "dropWhile blank l \<noteq> []" unfolding line_has_command_def by (cases "dropWhile blank l") simp_all
  have l: "l = takeWhile blank l @ dropWhile blank l" by simp
  have "butlast l = takeWhile blank l @ butlast (dropWhile blank l)" using r by (metis butlast_append l)
  moreover have "last l = last (dropWhile blank l)" using r by (metis l last_appendR)
  ultimately show ?thesis using True r
    by (auto simp: escape_line_def butlast_append line_end_def)
qed (use assms in \<open>simp add: escape_line_def\<close>)

lemma escape_lines_ok: "lines_ok ls \<Longrightarrow> lines_ok (map escape_line ls)"
proof (induction ls rule: lines_ok.induct)
  case (2 l)
  then show ?case using escape_line_shape [of l] by simp
next
  case (3 l m ls)
  then show ?case using escape_line_shape [of l] by simp
qed simp

lemma backslash_no_command: "\<not> starts_with_command (CHR 0x5C # r)"
  by (cases r) simp_all

lemma escape_line_safe: "\<not> line_has_command (escape_line l)"
proof (cases "line_has_command l")
  case True
  have "\<forall>c\<in>set (takeWhile blank l). blank c" by (auto dest: set_takeWhileD)
  then have "dropWhile blank (takeWhile blank l @ r) = dropWhile blank r" for r by simp
  then have "\<not> line_has_command (takeWhile blank l @ CHR 0x5C # dropWhile blank l)"
    using backslash_no_command by (simp add: line_has_command_def blank_def del: dropWhile_eq_Nil_conv)
  then show ?thesis using True by (simp add: escape_line_def)
qed (simp add: escape_line_def)

lemma escape_is_map: "escape_line_commands t = concat (map escape_line (split_lines t))"
proof (cases "list_ex line_has_command (split_lines t)")
  case False
  then have "map escape_line (split_lines t) = split_lines t"
    by (intro map_idI) (auto simp: escape_line_def list_ex_iff)
  then show ?thesis using False by (simp add: escape_line_commands_def)
qed (simp add: escape_line_commands_def)

lemma escaped_lines: "split_lines (escape_line_commands t) = map escape_line (split_lines t)"
  unfolding escape_is_map by (intro split_lines_of escape_lines_ok split_lines_ok)

lemma no_command_left: "\<not> list_ex line_has_command (split_lines (escape_line_commands t))"
  by (simp add: escaped_lines list_ex_iff escape_line_safe)

text \<open>A carriage return between the slash and the name hides a command from a reader that strips it.\<close>

lemma stripped_return_uncovers:
  "escape_line_commands (CHR ''/'' # CHR 0x0D # ''close'') = CHR ''/'' # CHR 0x0D # ''close''
   \<and> list_ex line_has_command (split_lines (filter (\<lambda>c. c \<noteq> CHR 0x0D) (CHR ''/'' # CHR 0x0D # ''close'')))"
  by (simp add: escape_line_commands_def line_end_def line_has_command_def blank_def ascii_alnum_def
      is_lower_def is_upper_def is_digit_def in_range_def byte_def)

end
