(* ===== verification/Send_Ledger.thy ===== *)
theory Send_Ledger
  imports Event
begin

text \<open>
  The send-intent ledger, \<^verbatim>\<open>apb-engine/src/connector/intent/ledger/mod.rs\<close> and
  \<^verbatim>\<open>intent/mod.rs\<close>: one fold of
  the journal's intent records and settlements that says of every send whether it went out, did
  not, or nobody knows, and the decision a repeat of the send gets.  The chain walks are the code's
  loops, which end because they move strictly back or forward in the journal.  The process check
  (\<^verbatim>\<open>pid_alive\<close>) and the clock are arguments.
\<close>

section \<open>Vocabulary\<close>

datatype idempotency_mode = Mode_Key | Mode_Marker | Mode_None | Mode_Ref

definition idempotency_str :: "idempotency_mode \<Rightarrow> string" where
  "idempotency_str m =
     (case m of Mode_Key \<Rightarrow> ''key'' | Mode_Marker \<Rightarrow> ''marker'' | Mode_None \<Rightarrow> ''none'' | Mode_Ref \<Rightarrow> ''ref'')"

definition idempotency_parse :: "string \<Rightarrow> idempotency_mode" where
  "idempotency_parse s =
     (if s = ''key'' then Mode_Key else if s = ''marker'' then Mode_Marker
      else if s = ''ref'' then Mode_Ref else Mode_None)"

datatype on_unknown = Unknown_Refuse | Unknown_Resend

record exec_key =
  ek_node :: string
  ek_item :: "string option"

record intent_key =
  ik_node :: string
  ik_connector :: string
  ik_function :: string
  ik_account :: string
  ik_label :: string
  ik_item :: "string option"

definition key_exec :: "intent_key \<Rightarrow> exec_key" where
  "key_exec k = \<lparr> ek_node = ik_node k, ek_item = ik_item k \<rparr>"

datatype intent_state =
    Intent_Pending u32 u64
  | Intent_Confirmed string "string option"
  | Intent_Not_Sent string
  | Intent_Unknown string "string option"

definition is_confirmed :: "intent_state \<Rightarrow> bool" where
  "is_confirmed s = (case s of Intent_Confirmed _ _ \<Rightarrow> True | _ \<Rightarrow> False)"

definition is_pending :: "intent_state \<Rightarrow> bool" where
  "is_pending s = (case s of Intent_Pending _ _ \<Rightarrow> True | _ \<Rightarrow> False)"

definition is_unknown :: "intent_state \<Rightarrow> bool" where
  "is_unknown s = (case s of Intent_Unknown _ _ \<Rightarrow> True | _ \<Rightarrow> False)"

definition is_not_sent :: "intent_state \<Rightarrow> bool" where
  "is_not_sent s = (case s of Intent_Not_Sent _ \<Rightarrow> True | _ \<Rightarrow> False)"

definition CONFIRMED :: string where "CONFIRMED = ''confirmed''"
definition NOT_SENT :: string where "NOT_SENT = ''not_sent''"
definition UNKNOWN :: string where "UNKNOWN = ''unknown''"
definition ORPHAN :: string where "ORPHAN = ''orphan''"
definition PERSON :: string where "PERSON = ''person''"

record intent_record =
  ir_id :: string
  ir_seq :: nat
  ir_ts_ms :: u64
  ir_key :: intent_key
  ir_nonce :: string
  ir_mode :: idempotency_mode
  ir_attempt :: "u32 option"
  ir_attempt_seq :: "nat option"
  ir_replay_of :: "string option"
  ir_resend_of :: "string option"
  ir_nonce_ts_ms :: u64
  ir_state :: intent_state
  ir_settled_by :: "string option"
  ir_superseded_by :: "string option"

record ledger =
  lg_records :: "intent_record list"
  lg_index :: "(string, nat) fmap"

definition empty_ledger :: ledger where
  "empty_ledger = \<lparr> lg_records = [], lg_index = fmempty \<rparr>"

definition ledger_get :: "ledger \<Rightarrow> string \<Rightarrow> intent_record option" where
  "ledger_get l i =
     (case fmlookup (lg_index l) i of
        Some at \<Rightarrow> if at < length (lg_records l) then Some (lg_records l ! at) else None
      | None \<Rightarrow> None)"

section \<open>Chains\<close>

definition link_of :: "intent_record \<Rightarrow> string option" where
  "link_of r = (case ir_replay_of r of Some i \<Rightarrow> Some i | None \<Rightarrow> ir_resend_of r)"

definition prev_of :: "ledger \<Rightarrow> intent_record \<Rightarrow> intent_record option" where
  "prev_of l r =
     (case Option.bind (link_of r) (ledger_get l) of
        Some prev \<Rightarrow> if ir_seq prev < ir_seq r then Some prev else None
      | None \<Rightarrow> None)"

definition next_of :: "ledger \<Rightarrow> intent_record \<Rightarrow> intent_record option" where
  "next_of l r =
     (case Option.bind (ir_superseded_by r) (ledger_get l) of
        Some nxt \<Rightarrow> if ir_seq r < ir_seq nxt then Some nxt else None
      | None \<Rightarrow> None)"

lemma ledger_get_in: "ledger_get l i = Some r \<Longrightarrow> r \<in> set (lg_records l)"
  by (auto simp: ledger_get_def split: option.splits if_splits)

lemma prev_of_less: "prev_of l r = Some p \<Longrightarrow> ir_seq p < ir_seq r \<and> p \<in> set (lg_records l)"
  by (auto simp: prev_of_def bind_eq_Some_conv ledger_get_in split: option.splits if_splits)

lemma next_of_less: "next_of l r = Some n \<Longrightarrow> ir_seq r < ir_seq n \<and> n \<in> set (lg_records l)"
  by (auto simp: next_of_def bind_eq_Some_conv ledger_get_in split: option.splits if_splits)

function chain_root :: "ledger \<Rightarrow> intent_record \<Rightarrow> intent_record" where
  "chain_root l r = (case prev_of l r of Some p \<Rightarrow> chain_root l p | None \<Rightarrow> r)"
  by pat_completeness auto
termination
  by (relation "measure (\<lambda>(l, r). ir_seq r)") (auto dest: prev_of_less)

function chain_from :: "ledger \<Rightarrow> intent_record \<Rightarrow> intent_record list" where
  "chain_from l r = r # (case next_of l r of Some n \<Rightarrow> chain_from l n | None \<Rightarrow> [])"
  by pat_completeness auto
termination
proof (relation "measure (\<lambda>(l, r). card {x \<in> set (lg_records l). ir_seq r < ir_seq x})", simp)
  fix l r n
  assume "next_of l r = Some n"
  then have n: "ir_seq r < ir_seq n" "n \<in> set (lg_records l)" using next_of_less by blast+
  then have "{x \<in> set (lg_records l). ir_seq n < ir_seq x} \<subset> {x \<in> set (lg_records l). ir_seq r < ir_seq x}"
    by auto
  then show "((l, n), l, r) \<in> measure (\<lambda>(l, r). card {x \<in> set (lg_records l). ir_seq r < ir_seq x})"
    by (simp add: psubset_card_mono)
qed

declare chain_root.simps [simp del] chain_from.simps [simp del]

definition chain_of :: "ledger \<Rightarrow> intent_record \<Rightarrow> intent_record list" where
  "chain_of l r = chain_from l (chain_root l r)"

definition send_of :: "ledger \<Rightarrow> intent_record \<Rightarrow> intent_record list" where
  "send_of l r = filter (\<lambda>m. ir_nonce m = ir_nonce r) (chain_of l r)"

definition latest_intent :: "ledger \<Rightarrow> intent_key \<Rightarrow> nat \<Rightarrow> intent_record option" where
  "latest_intent l k start = find (\<lambda>r. start \<le> ir_seq r \<and> ir_key r = k) (rev (lg_records l))"

section \<open>The fold\<close>

definition earlier_link :: "ledger \<Rightarrow> string \<Rightarrow> string option \<Rightarrow> string option" where
  "earlier_link l intent of1 =
     (case of1 of
        Some i \<Rightarrow> if i \<noteq> intent \<and> i |\<in>| fmdom (lg_index l) then Some i else None
      | None \<Rightarrow> None)"

definition supersede :: "string \<Rightarrow> ledger \<Rightarrow> string \<Rightarrow> ledger" where
  "supersede intent l earlier =
     (case fmlookup (lg_index l) earlier of
        Some at \<Rightarrow> l\<lparr> lg_records := (lg_records l)[at := (lg_records l ! at)\<lparr> ir_superseded_by := Some intent \<rparr>] \<rparr>
      | None \<Rightarrow> l)"

definition first_nonce_ts :: "ledger \<Rightarrow> string option \<Rightarrow> string \<Rightarrow> u64 \<Rightarrow> u64" where
  "first_nonce_ts l replay_of nonce ts =
     (case Option.bind (Option.bind replay_of (ledger_get l))
             (\<lambda>prev. find (\<lambda>r. ir_nonce r = nonce) (chain_of l prev)) of
        Some r \<Rightarrow> ir_nonce_ts_ms r
      | None \<Rightarrow> ts)"

definition record_intent :: "ledger \<Rightarrow> event \<Rightarrow> send_intent_recorded \<Rightarrow> ledger" where
  "record_intent l e p =
     (let ts = of_nat (ev_ts e);
          replay_of = earlier_link l (sr_intent p) (sr_replay_of p);
          resend_of = earlier_link l (sr_intent p) (sr_resend_of p);
          nonce_ts = first_nonce_ts l replay_of (sr_nonce p) ts;
          l1 = foldl (supersede (sr_intent p)) l
                 (List.map_filter id [replay_of, resend_of])
      in \<lparr> lg_records = lg_records l1 @
             [\<lparr> ir_id = sr_intent p, ir_seq = ev_seq e, ir_ts_ms = ts,
                ir_key = \<lparr> ik_node = sr_node p, ik_connector = sr_connector p,
                  ik_function = sr_function p, ik_account = sr_account p, ik_label = sr_label p,
                  ik_item = sr_item p \<rparr>,
                ir_nonce = sr_nonce p, ir_mode = idempotency_parse (sr_mode p),
                ir_attempt = sr_attempt p, ir_attempt_seq = sr_attempt_seq p,
                ir_replay_of = replay_of, ir_resend_of = resend_of, ir_nonce_ts_ms = nonce_ts,
                ir_state = Intent_Pending (sr_pid p) (sr_deadline_ms p),
                ir_settled_by = None, ir_superseded_by = None \<rparr>],
           lg_index = fmupd (sr_intent p) (length (lg_records l1)) (lg_index l1) \<rparr>)"

definition settled_state :: "send_intent_settled \<Rightarrow> intent_state" where
  "settled_state p =
     (if ss_outcome p = CONFIRMED then Intent_Confirmed (ss_source p) (ss_effect_ref p)
      else if ss_outcome p = NOT_SENT then Intent_Not_Sent (ss_source p)
      else Intent_Unknown (ss_source p) (ss_detail p))"

definition settle_record :: "intent_record \<Rightarrow> send_intent_settled \<Rightarrow> intent_record" where
  "settle_record r p =
     (if is_confirmed (ir_state r) \<and> ss_source p \<noteq> PERSON then r
      else r\<lparr> ir_state := settled_state p, ir_settled_by := ss_by p \<rparr>)"

definition ledger_step :: "ledger \<Rightarrow> event \<Rightarrow> ledger" where
  "ledger_step l e =
     (case ev_payload e of
        Send_Intent_Recorded p \<Rightarrow> record_intent l e p
      | Send_Intent_Settled p \<Rightarrow>
          (case fmlookup (lg_index l) (ss_intent p) of
             Some at \<Rightarrow> l\<lparr> lg_records := (lg_records l)[at := settle_record (lg_records l ! at) p] \<rparr>
           | None \<Rightarrow> l)
      | _ \<Rightarrow> l)"

definition fold_ledger :: "event list \<Rightarrow> ledger" where
  "fold_ledger es = foldl ledger_step empty_ledger es"

section \<open>Verdicts\<close>

definition orphan_reason :: "intent_record \<Rightarrow> u32 \<Rightarrow> u64 \<Rightarrow> u64 \<Rightarrow> (u32 \<Rightarrow> bool) \<Rightarrow> string option" where
  "orphan_reason r pid deadline now alive =
     (if now > deadline
      then Some (''the call'' @ [CHR 0x27] @ ''s deadline passed with no answer recorded'')
      else if ir_mode r \<noteq> Mode_Ref \<and> \<not> alive pid
      then Some ''the sending process ended with no answer recorded''
      else None)"

definition effective_state :: "(u32 \<Rightarrow> bool) \<Rightarrow> u64 \<Rightarrow> intent_record \<Rightarrow> intent_state" where
  "effective_state alive now r =
     (case ir_state r of
        Intent_Pending pid deadline \<Rightarrow>
          (case orphan_reason r pid deadline now alive of
             Some detail \<Rightarrow> Intent_Unknown ORPHAN (Some detail)
           | None \<Rightarrow> ir_state r)
      | other \<Rightarrow> other)"

record chain_verdict =
  cv_state :: intent_state
  cv_member :: intent_record

definition latest_state ::
  "(intent_state \<Rightarrow> bool) \<Rightarrow> (intent_state \<times> intent_record) list \<Rightarrow> chain_verdict option" where
  "latest_state want states =
     map_option (\<lambda>(s, m). \<lparr> cv_state = s, cv_member = m \<rparr>) (find (\<lambda>(s, m). want s) (rev states))"

definition members_verdict ::
  "(u32 \<Rightarrow> bool) \<Rightarrow> u64 \<Rightarrow> intent_record list \<Rightarrow> intent_record \<Rightarrow> chain_verdict" where
  "members_verdict alive now members r =
     (let states = map (\<lambda>m. (effective_state alive now m, m)) members
      in case latest_state is_confirmed states of
           Some v \<Rightarrow> v
         | None \<Rightarrow>
             (case latest_state is_pending states of
                Some v \<Rightarrow> v
              | None \<Rightarrow>
                  (case latest_state is_unknown states of
                     Some v \<Rightarrow> v
                   | None \<Rightarrow>
                       if states = [] then \<lparr> cv_state = ir_state r, cv_member = r \<rparr>
                       else \<lparr> cv_state = fst (last states), cv_member = snd (last states) \<rparr>)))"

definition chain_verdict_of :: "(u32 \<Rightarrow> bool) \<Rightarrow> u64 \<Rightarrow> ledger \<Rightarrow> intent_record \<Rightarrow> chain_verdict" where
  "chain_verdict_of alive now l r = members_verdict alive now (chain_of l r) r"

definition send_verdict :: "(u32 \<Rightarrow> bool) \<Rightarrow> u64 \<Rightarrow> ledger \<Rightarrow> intent_record \<Rightarrow> chain_verdict" where
  "send_verdict alive now l r = members_verdict alive now (send_of l r) r"

definition holds_send_open :: "(u32 \<Rightarrow> bool) \<Rightarrow> u64 \<Rightarrow> ledger \<Rightarrow> intent_record \<Rightarrow> bool" where
  "holds_send_open alive now l r =
     (let v = send_verdict alive now l r
      in is_unknown (cv_state v) \<and> ir_id (cv_member v) = ir_id r)"

section \<open>The scope of an effect\<close>

definition passed_item :: "string \<Rightarrow> event \<Rightarrow> string option" where
  "passed_item nd e =
     (case ev_payload e of
        List_Item_Settled p \<Rightarrow>
          if ls_node p = nd \<and> ls_state p = ''passed'' then Some (ls_item p) else None
      | _ \<Rightarrow> None)"

definition passed_floors :: "event list \<Rightarrow> string \<Rightarrow> (string, nat) fmap" where
  "passed_floors es nd =
     foldl (\<lambda>floors e. case passed_item nd e of
              Some item \<Rightarrow> fmupd item (ev_seq e + 1) floors | None \<Rightarrow> floors) fmempty es"

definition open_send :: "(u32 \<Rightarrow> bool) \<Rightarrow> u64 \<Rightarrow> ledger \<Rightarrow> intent_record \<Rightarrow> bool" where
  "open_send alive now l r =
     (let s = cv_state (send_verdict alive now l r) in is_unknown s \<or> is_pending s)"

definition item_scope_floor :: "(u32 \<Rightarrow> bool) \<Rightarrow> u64 \<Rightarrow> ledger \<Rightarrow> exec_key \<Rightarrow> nat \<Rightarrow> nat" where
  "item_scope_floor alive now l k passed =
     (if passed = 0 then 0
      else case map ir_seq (filter (\<lambda>r. ir_seq r < passed \<and> key_exec (ir_key r) = k
                    \<and> open_send alive now l r) (lg_records l)) of
             [] \<Rightarrow> passed
           | q # qs \<Rightarrow> min (foldl min q qs) passed)"

definition succeeded_finish :: "string \<Rightarrow> event \<Rightarrow> bool" where
  "succeeded_finish nd e =
     (case ev_payload e of Node_Finished f \<Rightarrow> nf_node f = nd \<and> nf_status f = ''succeeded'' | _ \<Rightarrow> False)"

definition effect_scope_floor ::
  "(u32 \<Rightarrow> bool) \<Rightarrow> u64 \<Rightarrow> event list \<Rightarrow> ledger \<Rightarrow> exec_key \<Rightarrow> nat" where
  "effect_scope_floor alive now es l k =
     (case ek_item k of
        None \<Rightarrow>
          (case find (succeeded_finish (ek_node k)) (rev es) of
             Some e \<Rightarrow> ev_seq e + 1 | None \<Rightarrow> 0)
      | Some item \<Rightarrow>
          item_scope_floor alive now l k
            (case find (\<lambda>e. passed_item (ek_node k) e = Some item) (rev es) of
               Some e \<Rightarrow> ev_seq e + 1 | None \<Rightarrow> 0))"

section \<open>Admission\<close>

record admit_query =
  aq_key :: intent_key
  aq_mode :: idempotency_mode
  aq_window_sec :: u64
  aq_timeout_sec :: u64
  aq_on_unknown :: on_unknown
  aq_attempt_open :: bool
  aq_now_ms :: u64

datatype send_admission =
    Admit_New "string option"
  | Admit_Replay string string
  | Already_Sent string string "u32 option" "string option"
  | In_Flight string
  | Admit_Reconcile string
  | Refuse_Unknown string string
  | Attempt_Closed

definition decide_unknown :: "intent_record \<Rightarrow> intent_record \<Rightarrow> admit_query \<Rightarrow> send_admission" where
  "decide_unknown r tip q =
     (case aq_mode q of
        Mode_Key \<Rightarrow>
          (let window_end = saturating_add (ir_nonce_ts_ms r) (saturating_mul (aq_window_sec q) 1000);
               answered_by = saturating_add (aq_now_ms q) (saturating_mul (aq_timeout_sec q) 1000)
           in if answered_by \<le> window_end then Admit_Replay (ir_id tip) (ir_nonce r)
              else if aq_on_unknown q = Unknown_Resend then Admit_New (Some (ir_id tip))
              else Refuse_Unknown (ir_id r)
                (''the service'' @ [CHR 0x27] @ ''s '' @ show_nat (unat (aq_window_sec q))
                  @ '' s deduplication window has passed, so a repeat could act twice''))
      | Mode_Marker \<Rightarrow> Admit_Reconcile (ir_id r)
      | Mode_Ref \<Rightarrow> Admit_Reconcile (ir_id r)
      | Mode_None \<Rightarrow>
          (if aq_on_unknown q = Unknown_Resend then Admit_New (Some (ir_id tip))
           else Refuse_Unknown (ir_id r)
             ''the service offers no way to tell whether it went through''))"

definition admit_chain :: "(u32 \<Rightarrow> bool) \<Rightarrow> ledger \<Rightarrow> intent_record \<Rightarrow> admit_query \<Rightarrow> send_admission" where
  "admit_chain alive l tip q =
     (let v = chain_verdict_of alive (aq_now_ms q) l tip; m = cv_member v
      in case cv_state v of
           Intent_Confirmed _ effect_ref \<Rightarrow> Already_Sent (ir_id m) (ik_label (ir_key m)) (ir_attempt m) effect_ref
         | Intent_Not_Sent _ \<Rightarrow> Admit_New (Some (ir_id tip))
         | Intent_Pending _ _ \<Rightarrow> In_Flight (ir_id m)
         | Intent_Unknown _ _ \<Rightarrow> decide_unknown m tip q)"

definition admit :: "(u32 \<Rightarrow> bool) \<Rightarrow> event list \<Rightarrow> admit_query \<Rightarrow> send_admission" where
  "admit alive es q =
     (if \<not> aq_attempt_open q then Attempt_Closed
      else let l = fold_ledger es;
               start = effect_scope_floor alive (aq_now_ms q) es l (key_exec (aq_key q))
           in case latest_intent l (aq_key q) start of
                None \<Rightarrow> Admit_New None
              | Some tip \<Rightarrow> admit_chain alive l tip q)"

section \<open>Recording an admitted send\<close>

record intent_draft =
  dt_key :: intent_key
  dt_mode :: idempotency_mode
  dt_attempt :: "u32 option"
  dt_attempt_seq :: "nat option"
  dt_timeout_sec :: u64
  dt_now_ms :: u64

record new_intent =
  ni_id :: string
  ni_nonce :: string
  ni_replay :: bool
  ni_payload :: send_intent_recorded

definition DEADLINE_GRACE_MS :: u64 where "DEADLINE_GRACE_MS = 30000"

text \<open>The two fresh nonces the code draws are arguments: the send's and the one its id is cut from.\<close>

definition admitted :: "string \<Rightarrow> string \<Rightarrow> u32 \<Rightarrow> intent_draft \<Rightarrow> send_admission \<Rightarrow> new_intent option" where
  "admitted fresh fresh_id pid d a =
     (case (case a of
              Admit_New resend_of \<Rightarrow> Some (fresh, None, resend_of)
            | Admit_Replay of1 nonce \<Rightarrow> Some (nonce, Some of1, None)
            | _ \<Rightarrow> None) of
        None \<Rightarrow> None
      | Some (nonce, replay_of, resend_of) \<Rightarrow>
          let intent = ''si-'' @ take 12 fresh_id; k = dt_key d
          in Some \<lparr> ni_id = intent, ni_nonce = nonce, ni_replay = (replay_of \<noteq> None),
               ni_payload = \<lparr> sr_intent = intent, sr_nonce = nonce, sr_node = ik_node k,
                 sr_attempt = dt_attempt d, sr_attempt_seq = dt_attempt_seq d,
                 sr_connector = ik_connector k, sr_function = ik_function k, sr_account = ik_account k,
                 sr_mode = idempotency_str (dt_mode d), sr_label = ik_label k, sr_pid = pid,
                 sr_deadline_ms = saturating_add (saturating_add (dt_now_ms d)
                   (saturating_mul (dt_timeout_sec d) 1000)) DEADLINE_GRACE_MS,
                 sr_replay_of = replay_of, sr_resend_of = resend_of, sr_item = ik_item k \<rparr> \<rparr>)"

section \<open>The decision table\<close>

lemma effective_not_sent: "is_not_sent (effective_state alive now r) = is_not_sent (ir_state r)"
  by (auto simp: effective_state_def is_not_sent_def split: intent_state.splits option.splits)

lemma find_member: "find P xs = Some x \<Longrightarrow> x \<in> set xs \<and> P x"
  by (induction xs) (auto split: if_splits)

lemma latest_state_Some:
  "latest_state want states = Some v \<Longrightarrow> (cv_state v, cv_member v) \<in> set states \<and> want (cv_state v)"
  unfolding latest_state_def by (auto dest: find_member)

lemma latest_state_None: "latest_state want states = None \<longleftrightarrow> (\<forall>(s, m)\<in>set states. \<not> want s)"
  by (auto simp: latest_state_def find_None_iff)

lemma state_cases: "is_confirmed s \<or> is_pending s \<or> is_unknown s \<or> is_not_sent s"
  by (cases s) (simp_all add: is_confirmed_def is_pending_def is_unknown_def is_not_sent_def)

lemma states_exclusive:
  "is_not_sent s \<Longrightarrow> \<not> is_confirmed s \<and> \<not> is_pending s \<and> \<not> is_unknown s"
  "is_unknown s \<Longrightarrow> \<not> is_confirmed s \<and> \<not> is_pending s"
  by (cases s; simp add: is_confirmed_def is_pending_def is_unknown_def is_not_sent_def)+

text \<open>The verdict is the state of a member, and the members rank behind it.\<close>

lemma members_verdict_cases:
  assumes "members \<noteq> []"
  shows "cv_member (members_verdict alive now members r) \<in> set members
    \<and> cv_state (members_verdict alive now members r)
        = effective_state alive now (cv_member (members_verdict alive now members r))
    \<and> (is_not_sent (cv_state (members_verdict alive now members r)) \<longrightarrow>
        (\<forall>m\<in>set members. is_not_sent (ir_state m)))
    \<and> (is_unknown (cv_state (members_verdict alive now members r)) \<longrightarrow>
        (\<forall>m\<in>set members. \<not> is_confirmed (effective_state alive now m) \<and> \<not> is_pending (effective_state alive now m)))"
proof -
  let ?st = "map (\<lambda>m. (effective_state alive now m, m)) members"
  have mem: "cv_member v \<in> set members \<and> cv_state v = effective_state alive now (cv_member v) \<and> want (cv_state v)"
    if "latest_state want ?st = Some v" for want v
    using latest_state_Some [OF that] by auto
  consider (c) v where "latest_state is_confirmed ?st = Some v" "members_verdict alive now members r = v"
    | (p) v where "latest_state is_confirmed ?st = None" "latest_state is_pending ?st = Some v"
        "members_verdict alive now members r = v"
    | (u) v where "latest_state is_confirmed ?st = None" "latest_state is_pending ?st = None"
        "latest_state is_unknown ?st = Some v" "members_verdict alive now members r = v"
    | (n) "latest_state is_confirmed ?st = None" "latest_state is_pending ?st = None"
        "latest_state is_unknown ?st = None"
        "members_verdict alive now members r = \<lparr> cv_state = fst (last ?st), cv_member = snd (last ?st) \<rparr>"
    using assms
    by (cases "latest_state is_confirmed ?st"; cases "latest_state is_pending ?st";
        cases "latest_state is_unknown ?st") (simp_all add: members_verdict_def Let_def)
  then show ?thesis
  proof cases
    case c
    then show ?thesis using mem [OF c(1)] states_exclusive [of "cv_state v"] by auto
  next
    case p
    then show ?thesis using mem [OF p(2)] states_exclusive [of "cv_state v"] by auto
  next
    case u
    have "\<forall>m\<in>set members. \<not> is_confirmed (effective_state alive now m) \<and> \<not> is_pending (effective_state alive now m)"
      using u(1,2) unfolding latest_state_None by auto
    then show ?thesis using u(4) mem [OF u(3)] states_exclusive [of "cv_state v"] by auto
  next
    case n
    have l: "last ?st = (effective_state alive now (last members), last members)"
      using assms by (simp add: last_map)
    have ns: "is_not_sent (ir_state m)" if "m \<in> set members" for m
      using n(1-3) that state_cases [of "effective_state alive now m"]
      unfolding latest_state_None effective_not_sent by auto
    have "is_not_sent (effective_state alive now (last members))"
      using ns [OF last_in_set [OF assms]] by (simp add: effective_not_sent)
    then show ?thesis using n(4) l ns assms states_exclusive(1) by simp
  qed
qed

lemma chain_from_nonempty: "chain_from l r \<noteq> []"
  by (subst chain_from.simps) simp

end
