(* ===== verification/Send_Stamp.thy ===== *)
theory Send_Stamp
  imports Send_Marker Text_Mode Send_Ledger Civil_Clock
begin

text \<open>
  Stamping a send and finding it again: \<^verbatim>\<open>apb-core/src/connector/idempotency.rs\<close>,
  \<^verbatim>\<open>apb-engine/src/connector/intent/stamp.rs\<close> and \<^verbatim>\<open>intent/reconcile.rs\<close>.  The reads
  a lookup makes are the argument \<open>fetch\<close>; the blocks of a function's definition that belong to one
  transport (mock, smtp, imap, inbox) are opaque.
\<close>

section \<open>What a function declares\<close>

record reconcile_spec =
  rs_function :: string
  rs_args_from_send :: "string list"
  rs_since_arg :: "string option"
  rs_fixed_args :: "(string \<times> json) list"
  rs_items :: string
  rs_text :: string
  rs_author :: string
  rs_item_ref :: "string option"

record identity_spec =
  id_function :: string
  id_path :: string

datatype idempotency =
    Idem_Key "string option" "string option" u64 "string option"
  | Idem_Marker string marker_format reconcile_spec "string option"
  | Idem_None "string option"
  | Repeatable

definition idem_mode :: "idempotency \<Rightarrow> idempotency_mode option" where
  "idem_mode i =
     (case i of Idem_Key _ _ _ _ \<Rightarrow> Some Mode_Key | Idem_Marker _ _ _ _ \<Rightarrow> Some Mode_Marker
      | Idem_None _ \<Rightarrow> Some Mode_None | Repeatable \<Rightarrow> None)"

definition is_repeatable :: "idempotency \<Rightarrow> bool" where
  "is_repeatable i = (case i of Repeatable \<Rightarrow> True | _ \<Rightarrow> False)"

definition result_ref :: "idempotency \<Rightarrow> string option" where
  "result_ref i =
     (case i of Idem_Key _ _ _ r \<Rightarrow> r | Idem_Marker _ _ _ r \<Rightarrow> r | Idem_None r \<Rightarrow> r | Repeatable \<Rightarrow> None)"

definition window_sec :: "idempotency \<Rightarrow> u64" where
  "window_sec i = (case i of Idem_Key _ _ w _ \<Rightarrow> w | _ \<Rightarrow> 0)"

record function_spec =
  fn_name :: string
  fn_description :: string
  fn_read_only :: bool
  fn_irreversible :: bool
  fn_deprecated :: "string option"
  fn_method :: "string option"
  fn_url :: "string option"
  fn_query :: "(string \<times> string) list"
  fn_headers :: "(string \<times> string) list"
  fn_body :: "json option"
  fn_body_form :: "(string \<times> string) list"
  fn_args_schema :: "json option"
  fn_text_args :: "(string \<times> text_mode) list"
  fn_examples :: "opaque list"
  fn_response_pick :: "string list"
  fn_timeout_sec :: u64
  fn_mock :: "opaque option"
  fn_smtp :: "opaque option"
  fn_imap :: "opaque option"
  fn_inbox :: "opaque option"
  fn_idempotency :: "idempotency option"
  fn_people :: "opaque option"

definition send_once :: "function_spec \<Rightarrow> idempotency option" where
  "send_once f =
     (case fn_idempotency f of Some i \<Rightarrow> if is_repeatable i then None else Some i | None \<Rightarrow> None)"

section \<open>The stamp\<close>

datatype stamp = Stamp_Send string "marker_fields option" | Stamp_Preview

definition MARKER_PREVIEW :: string where
  "MARKER_PREVIEW = ''[apb adds a hidden send marker here]''"

definition KEY_PREVIEW :: string where "KEY_PREVIEW = ''(set at send)''"

definition as_str :: "json \<Rightarrow> string option" where
  "as_str v = (case v of JString s \<Rightarrow> Some s | _ \<Rightarrow> None)"

definition stamp_tag :: "marker_format \<Rightarrow> stamp \<Rightarrow> string option" where
  "stamp_tag format st =
     (case st of
        Stamp_Send _ (Some mf) \<Rightarrow> Some (render_marker format mf)
      | Stamp_Send _ None \<Rightarrow> None
      | Stamp_Preview \<Rightarrow> Some MARKER_PREVIEW)"

definition prepare_body_args ::
  "(string \<Rightarrow> bool) \<Rightarrow> function_spec \<Rightarrow> json \<Rightarrow> stamp option \<Rightarrow> json" where
  "prepare_body_args alnum f args st =
     (let moded = apply_text_args alnum (fn_text_args f) args in
      if fn_read_only f then moded
      else let neutral = neutralize_value moded in
        (case (send_once f, st) of
           (Some (Idem_Marker arg format _ _), Some s) \<Rightarrow>
             (case stamp_tag format s of
                None \<Rightarrow> neutral
              | Some tag \<Rightarrow>
                  (case neutral of
                     JObject kvs \<Rightarrow>
                       JObject (AList.update arg
                         (JString (append_marker (Option.bind (map_of kvs arg) as_str) tag)) kvs)
                   | _ \<Rightarrow> neutral))
         | _ \<Rightarrow> neutral))"

definition key_value :: "stamp \<Rightarrow> string" where
  "key_value st = (case st of Stamp_Send nonce _ \<Rightarrow> nonce | Stamp_Preview \<Rightarrow> KEY_PREVIEW)"

definition apply_key ::
  "function_spec \<Rightarrow> stamp option \<Rightarrow> json option \<Rightarrow> (string, string) fmap
    \<Rightarrow> string + (json option \<times> (string, string) fmap)" where
  "apply_key f st body headers =
     (case (send_once f, st) of
        (Some (Idem_Key header field _ _), Some s) \<Rightarrow>
          (case (header, field, body) of
             (Some name, _, _) \<Rightarrow> Inr (body, fmupd name (key_value s) headers)
           | (None, Some name, Some (JObject kvs)) \<Rightarrow>
               Inr (Some (JObject (AList.update name (JString (key_value s)) kvs)), headers)
           | (None, Some name, _) \<Rightarrow>
               Inl (''function `'' @ fn_name f @ ''` carries its idempotency key in the body field `'' @ name
                 @ ''`, but its body did not render as a JSON object'')
           | (None, None, _) \<Rightarrow> Inr (body, headers))
      | _ \<Rightarrow> Inr (body, headers))"

section \<open>Paths into a response\<close>

fun split_dots :: "string \<Rightarrow> string list" where
  "split_dots [] = [[]]"
| "split_dots (c # cs) =
     (if c = CHR ''.'' then [] # split_dots cs
      else case split_dots cs of [] \<Rightarrow> [[c]] | s # ss \<Rightarrow> (c # s) # ss)"

definition at_segment :: "json \<Rightarrow> string \<Rightarrow> json option" where
  "at_segment v seg =
     (case v of
        JObject kvs \<Rightarrow> map_of kvs seg
      | JArray items \<Rightarrow>
          (case parse_unsigned (2 ^ 64) seg of
             Some i \<Rightarrow> if i < length items then Some (items ! i) else None
           | None \<Rightarrow> None)
      | _ \<Rightarrow> None)"

definition value_at_path :: "json \<Rightarrow> string \<Rightarrow> json option" where
  "value_at_path body path =
     (if path = [] then Some body
      else foldl (\<lambda>v seg. Option.bind v (\<lambda>c. at_segment c seg)) (Some body) (split_dots path))"

definition scalar_at_path :: "json \<Rightarrow> string \<Rightarrow> string option" where
  "scalar_at_path body path =
     (case value_at_path body path of
        Some (JString s) \<Rightarrow> if s \<noteq> [] then Some s else None
      | Some (JNumber n _ _) \<Rightarrow> Some n
      | Some (JBool b) \<Rightarrow> Some (if b then ''true'' else ''false'')
      | _ \<Rightarrow> None)"

section \<open>The lookup\<close>

record listing =
  li_body :: json
  li_next_page :: bool

datatype found_match = Found "string option" | Absent nat | Inconclusive string

definition is_own_item :: "reconcile_spec \<Rightarrow> string \<Rightarrow> string \<Rightarrow> json \<Rightarrow> bool" where
  "is_own_item spec self marker item \<longleftrightarrow>
     scalar_at_path item (rs_author spec) = Some self
     \<and> (case Option.bind (value_at_path item (rs_text spec)) as_str of
          Some t \<Rightarrow> carries_exactly t marker | None \<Rightarrow> False)"

definition match_items :: "reconcile_spec \<Rightarrow> listing \<Rightarrow> string \<Rightarrow> string \<Rightarrow> found_match" where
  "match_items spec l self marker =
     (case value_at_path (li_body l) (rs_items spec) of
        Some (JArray items) \<Rightarrow>
          (case find (is_own_item spec self marker) items of
             Some item \<Rightarrow> Found (Option.bind (rs_item_ref spec) (scalar_at_path item))
           | None \<Rightarrow>
               if li_next_page l
               then Inconclusive (''no match among the '' @ show_nat (length items)
                 @ '' items of the first page, and more pages exist'')
               else Absent (length items))
      | _ \<Rightarrow> Inconclusive
          ''the listing response holds no item list where the connector says it is'')"

definition SINCE_SLACK_MS :: u64 where "SINCE_SLACK_MS = 300000"

definition listing_args :: "reconcile_spec \<Rightarrow> json \<Rightarrow> u64 \<Rightarrow> json" where
  "listing_args spec send_args intent_ts_ms =
     (let copied = foldl (\<lambda>args name.
            (case Option.bind (as_object send_args) (\<lambda>kvs. map_of kvs name) of
               Some v \<Rightarrow> AList.update name v args | None \<Rightarrow> args))
            (rs_fixed_args spec) (rs_args_from_send spec)
      in JObject (case rs_since_arg spec of
           Some since \<Rightarrow>
             AList.update since (JString (iso_utc (saturating_sub intent_ts_ms SINCE_SLACK_MS))) copied
         | None \<Rightarrow> copied))"

definition record_fields :: "string \<Rightarrow> intent_record \<Rightarrow> marker_fields" where
  "record_fields run r =
     \<lparr> mf_run = run, mf_node = ik_node (ir_key r), mf_attempt = ir_attempt r, mf_nonce = ir_nonce r \<rparr>"

definition marker_of :: "marker_format \<Rightarrow> string \<Rightarrow> intent_record \<Rightarrow> string" where
  "marker_of format run r = render_marker format (record_fields run r)"

datatype reconciled = Rec_Confirmed "string option" | Rec_Unknown string

record reconcile_input =
  rc_identity :: identity_spec
  rc_spec :: reconcile_spec
  rc_format :: marker_format
  rc_run :: string
  rc_record :: intent_record
  rc_send_args :: json

type_synonym fetch = "string \<Rightarrow> json \<Rightarrow> string + (json \<times> bool)"

definition reconcile :: "reconcile_input \<Rightarrow> fetch \<Rightarrow> reconciled" where
  "reconcile inp fetch =
     (case fetch (id_function (rc_identity inp)) (JObject []) of
        Inl why \<Rightarrow> Rec_Unknown (''own identity could not be read: '' @ why)
      | Inr (identity, _) \<Rightarrow>
          (case scalar_at_path identity (id_path (rc_identity inp)) of
             None \<Rightarrow> Rec_Unknown ''own identity could not be read: no id at the identity path''
           | Some me \<Rightarrow>
               (case fetch (rs_function (rc_spec inp))
                       (listing_args (rc_spec inp) (rc_send_args inp) (ir_ts_ms (rc_record inp))) of
                  Inl why \<Rightarrow> Rec_Unknown (''the recent items could not be listed: '' @ why)
                | Inr (body, next_page) \<Rightarrow>
                    (case match_items (rc_spec inp) \<lparr> li_body = body, li_next_page = next_page \<rparr> me
                            (marker_of (rc_format inp) (rc_run inp) (rc_record inp)) of
                       Found item_ref \<Rightarrow> Rec_Confirmed item_ref
                     | Absent seen \<Rightarrow>
                         Rec_Unknown (''no matching item among '' @ show_nat seen @ '' recent items by '' @ me)
                     | Inconclusive why \<Rightarrow> Rec_Unknown why))))"

section \<open>The lookup finds exactly the send it looks for\<close>

text \<open>The texts apb sends: neutralized, and stamped with the marker of one send or with none.\<close>

definition sent_text :: "marker_fields option \<Rightarrow> string \<Rightarrow> bool" where
  "sent_text st t \<longleftrightarrow>
     (case st of
        Some g \<Rightarrow> slug_fields g \<and> (\<exists>s fm. t = append_marker (map_option neutralize s) (render_marker fm g))
      | None \<Rightarrow> \<exists>s. t = neutralize s)"

definition item_text :: "reconcile_spec \<Rightarrow> json \<Rightarrow> string option" where
  "item_text spec item = Option.bind (value_at_path item (rs_text spec)) as_str"

lemma unstamped_never_carries:
  assumes "slug_fields f"
  shows "\<not> carries_exactly (neutralize s) (render_marker fm f)"
proof
  assume "carries_exactly (neutralize s) (render_marker fm f)"
  then have "suffix (render_marker fm f) (trim_end (neutralize s))" by (simp add: carries_exactly_def)
  then have "sublist (render_marker fm f) (trim_end (neutralize s))" by (rule suffix_imp_sublist)
  moreover have "sublist KEYWORD (render_marker fm f)"
    using rendered_head [OF assms, of fm] by (auto simp: sublist_Cons_right)
  ultimately have "sublist KEYWORD (neutralize s)"
    by (meson sublist_order.order.trans prefix_imp_sublist trim_end_prefix)
  then show False using neutralize_no_keyword by blast
qed

lemma one_format: "(fm :: marker_format) = fm'"
  by (cases fm; cases fm') simp

lemma carries_own:
  assumes "slug_fields f" "sent_text st t"
  shows "carries_exactly t (render_marker fm f)
    \<longleftrightarrow> (\<exists>g. st = Some g \<and> render_marker fm g = render_marker fm f)"
proof (cases st)
  case None
  then show ?thesis using assms unstamped_never_carries by (auto simp: sent_text_def)
next
  case (Some g)
  then obtain s fm' where g: "slug_fields g" "t = append_marker (map_option neutralize s) (render_marker fm' g)"
    using assms(2) by (auto simp: sent_text_def)
  have fm: "fm' = fm" by (rule one_format)
  have "carries_exactly t (render_marker fm f) = (render_marker fm f = render_marker fm g)"
    using marker_carried [OF g(1) assms(1), of s fm] g(2) unfolding fm by blast
  then show ?thesis using Some by auto
qed

text \<open>What the send path puts into an argument is such a text.\<close>

lemma map_of_neutralized:
  "map_of (map (\<lambda>(k, v). (k, neutralize_value v)) kvs) k = map_option neutralize_value (map_of kvs k)"
  by (induction kvs) auto

lemma neutralized_string: "neutralize_value v = JString t \<Longrightarrow> \<exists>s. t = neutralize s"
  by (cases v) auto

lemma prepared_texts:
  assumes "\<not> fn_read_only f" "send_once f = Some (Idem_Marker arg fm spec r)" "slug_fields mf"
  obtains kvs where "prepare_body_args alnum f (JObject args) (Some (Stamp_Send nonce (Some mf))) = JObject kvs"
    "\<exists>t. map_of kvs arg = Some (JString t) \<and> sent_text (Some mf) t"
    "\<And>k t. k \<noteq> arg \<Longrightarrow> map_of kvs k = Some (JString t) \<Longrightarrow> sent_text None t"
proof -
  obtain moded where m: "apply_text_args alnum (fn_text_args f) (JObject args) = JObject moded"
    by (simp add: apply_text_args_def as_object_def)
  let ?n = "map (\<lambda>(k, v). (k, neutralize_value v)) moded"
  let ?t = "append_marker (Option.bind (map_of ?n arg) as_str) (render_marker fm mf)"
  have p: "prepare_body_args alnum f (JObject args) (Some (Stamp_Send nonce (Some mf)))
      = JObject (AList.update arg (JString ?t) ?n)"
    using assms(1,2) m by (simp add: prepare_body_args_def stamp_tag_def Let_def)
  have "\<exists>s. Option.bind (map_of ?n arg) as_str = map_option neutralize s"
  proof (cases "Option.bind (map_of ?n arg) as_str")
    case (Some t)
    then obtain w where "map_of ?n arg = Some w" "as_str w = Some t" by (auto simp: bind_eq_Some_conv)
    then obtain v where "map_of moded arg = Some v" "neutralize_value v = JString t"
      by (cases w) (auto simp: map_of_neutralized as_str_def)
    then show ?thesis using neutralized_string Some by (metis option.simps(9))
  qed (metis option.simps(8))
  then have "\<exists>s fm'. ?t = append_marker (map_option neutralize s) (render_marker fm' mf)" by metis
  then have "sent_text (Some mf) ?t" using assms(3) unfolding sent_text_def option.case by blast
  moreover have "sent_text None t" if "k \<noteq> arg" "map_of (AList.update arg (JString ?t) ?n) k = Some (JString t)" for k t
    using that neutralized_string by (auto simp: update_conv' map_of_neutralized sent_text_def)
  ultimately show ?thesis using p that by (simp add: update_conv')
qed

text \<open>
  C30: looking an earlier send up finds it exactly when it is there.  Where every item of the
  connector's own account was sent through apb (neutralized, stamped with its own send's marker or
  with none, forged markers in the agent's text included), the lookup answers found exactly when one
  of those items was stamped with this send's marker, and that item's send has the same nonce.
\<close>

theorem lookup_finds_own_send:
  assumes "slug_fields f" "value_at_path (li_body l) (rs_items spec) = Some (JArray items)"
    and "\<And>item t. item \<in> set items \<Longrightarrow> scalar_at_path item (rs_author spec) = Some me \<Longrightarrow>
      item_text spec item = Some t \<Longrightarrow> sent_text (stamp_of item) t"
  shows "(\<exists>ref. match_items spec l me (render_marker fm f) = Found ref)
    \<longleftrightarrow> (\<exists>item\<in>set items. scalar_at_path item (rs_author spec) = Some me \<and> item_text spec item \<noteq> None
          \<and> (\<exists>g. stamp_of item = Some g \<and> mf_nonce g = mf_nonce f \<and> render_marker fm g = render_marker fm f))"
proof -
  have nonce: "mf_nonce g = mf_nonce f"
    if "item \<in> set items" "scalar_at_path item (rs_author spec) = Some me" "item_text spec item = Some t"
      "stamp_of item = Some g" "render_marker fm g = render_marker fm f" for item t g
    using assms(3) [OF that(1-3)] that(4,5) rendered_nonce [OF _ assms(1)] by (auto simp: sent_text_def)
  have own: "is_own_item spec me (render_marker fm f) item
      \<longleftrightarrow> scalar_at_path item (rs_author spec) = Some me \<and> item_text spec item \<noteq> None
        \<and> (\<exists>g. stamp_of item = Some g \<and> mf_nonce g = mf_nonce f \<and> render_marker fm g = render_marker fm f)"
    if i: "item \<in> set items" for item
  proof (cases "scalar_at_path item (rs_author spec) = Some me \<and> item_text spec item \<noteq> None")
    case True
    then obtain t where t: "scalar_at_path item (rs_author spec) = Some me" "item_text spec item = Some t" by auto
    have "is_own_item spec me (render_marker fm f) item \<longleftrightarrow> carries_exactly t (render_marker fm f)"
      using t by (simp add: is_own_item_def item_text_def)
    also have "\<dots> \<longleftrightarrow> (\<exists>g. stamp_of item = Some g \<and> render_marker fm g = render_marker fm f)"
      by (rule carries_own [OF assms(1) assms(3) [OF i t]])
    finally show ?thesis using t nonce [OF i t] by auto
  qed (auto simp: is_own_item_def item_text_def split: option.splits)
  have "(\<exists>ref. match_items spec l me (render_marker fm f) = Found ref)
      \<longleftrightarrow> (\<exists>item\<in>set items. is_own_item spec me (render_marker fm f) item)"
    by (auto simp: match_items_def assms(2) find_None_iff find_Some_iff split: option.splits)
  then show ?thesis using own by auto
qed

lemma sent_stamped:
  assumes "slug_fields g"
  shows "sent_text (Some g) (append_marker (Some (neutralize s)) (render_marker fm g))"
proof -
  have "append_marker (Some (neutralize s)) (render_marker fm g)
      = append_marker (map_option neutralize (Some s)) (render_marker fm g)" by simp
  then show ?thesis unfolding sent_text_def option.case using assms by blast
qed

definition demo_fields :: "string \<Rightarrow> marker_fields" where
  "demo_fields nonce = \<lparr> mf_run = ''r-1'', mf_node = ''triage'', mf_attempt = Some 2, mf_nonce = nonce \<rparr>"

definition demo_spec :: reconcile_spec where
  "demo_spec = \<lparr> rs_function = ''list'', rs_args_from_send = [], rs_since_arg = None, rs_fixed_args = [],
     rs_items = [], rs_text = ''body'', rs_author = ''user'', rs_item_ref = None \<rparr>"

definition demo_item :: "string \<Rightarrow> json" where
  "demo_item t = JObject [(''user'', JString ''bot''), (''body'', JString t)]"

definition demo_text :: string where
  "demo_text = append_marker (Some (neutralize ''see apb-intent'')) (render_marker Html_Comment (demo_fields ''abc''))"

lemma demo_slug: "list_all slug_char nonce \<Longrightarrow> slug_fields (demo_fields nonce)"
  by (simp add: slug_fields_def demo_fields_def slug_def slug_char_def is_lower_def is_digit_def
      in_range_def byte_def)

lemma demo_paths:
  "value_at_path (demo_item t) ''body'' = Some (JString t)" "scalar_at_path (demo_item t) ''user'' = Some ''bot''"
  by (simp_all add: value_at_path_def scalar_at_path_def demo_item_def at_segment_def)

lemma lookup_finds_own_send_witness:
  "(\<exists>ref. match_items demo_spec \<lparr> li_body = JArray [demo_item demo_text], li_next_page = False \<rparr> ''bot''
      (render_marker Html_Comment (demo_fields ''abc'')) = Found ref)
   \<and> \<not> (\<exists>ref. match_items demo_spec \<lparr> li_body = JArray [demo_item demo_text], li_next_page = False \<rparr> ''bot''
      (render_marker Html_Comment (demo_fields ''abd'')) = Found ref)"
proof -
  let ?l = "\<lparr> li_body = JArray [demo_item demo_text], li_next_page = False \<rparr>"
  have slugs: "slug_fields (demo_fields ''abc'')" "slug_fields (demo_fields ''abd'')"
    by (rule demo_slug, simp add: slug_char_def is_lower_def in_range_def byte_def)+
  have items: "value_at_path (li_body ?l) (rs_items demo_spec) = Some (JArray [demo_item demo_text])"
    by (simp add: demo_spec_def value_at_path_def)
  have body: "item_text demo_spec (demo_item demo_text) = Some demo_text"
    by (simp add: item_text_def demo_spec_def demo_paths as_str_def)
  have sent: "sent_text (Some (demo_fields ''abc'')) demo_text"
    unfolding demo_text_def by (rule sent_stamped [OF slugs(1)])
  have all: "sent_text (Some (demo_fields ''abc'')) t"
    if "item \<in> set [demo_item demo_text]" "scalar_at_path item (rs_author demo_spec) = Some ''bot''"
      "item_text demo_spec item = Some t" for item t
    using that(1,3) body sent by simp
  have author: "scalar_at_path (demo_item demo_text) (rs_author demo_spec) = Some ''bot''"
    by (simp add: demo_spec_def demo_paths)
  have nonce: "mf_nonce (demo_fields ''abc'') = ''abc''" "mf_nonce (demo_fields ''abd'') = ''abd''"
    by (simp_all add: demo_fields_def)
  have "\<exists>ref. match_items demo_spec ?l ''bot'' (render_marker Html_Comment (demo_fields ''abc'')) = Found ref"
    by (rule lookup_finds_own_send [where stamp_of = "\<lambda>_. Some (demo_fields ''abc'')", OF slugs(1) items all, THEN iffD2])
      (use author body in auto)
  moreover have "\<not> (\<exists>ref. match_items demo_spec ?l ''bot'' (render_marker Html_Comment (demo_fields ''abd'')) = Found ref)"
  proof
    assume "\<exists>ref. match_items demo_spec ?l ''bot'' (render_marker Html_Comment (demo_fields ''abd'')) = Found ref"
    then have "mf_nonce (demo_fields ''abc'') = mf_nonce (demo_fields ''abd'')"
      using lookup_finds_own_send [where stamp_of = "\<lambda>_. Some (demo_fields ''abc'')", OF slugs(2) items all, THEN iffD1]
      by fastforce
    then show False using nonce by simp
  qed
  ultimately show ?thesis by blast
qed

end
