(* ===== verification/Attempt_Binding.thy ===== *)
theory Attempt_Binding
  imports Send_Ledger
begin

text \<open>
  Which attempt of its node a connector call belongs to, and what that attempt has spent of its
  \<^verbatim>\<open>max_calls\<close>: \<^verbatim>\<open>apb-engine/src/connector/call/attempt.rs\<close> over the keys of
  \<^verbatim>\<open>exec_key.rs\<close>.  A caller may send exactly as its step's
  latest attempt, while that has not ended, or through a host task requested within it.
\<close>

section \<open>Keys of an event\<close>

definition started_key :: "event_payload \<Rightarrow> exec_key option" where
  "started_key p =
     (case p of Attempt_Started a \<Rightarrow> Some \<lparr> ek_node = as_node a, ek_item = as_item a \<rparr> | _ \<Rightarrow> None)"

definition finished_key :: "event_payload \<Rightarrow> exec_key option" where
  "finished_key p =
     (case p of Attempt_Finished a \<Rightarrow> Some \<lparr> ek_node = af_node a, ek_item = af_item a \<rparr> | _ \<Rightarrow> None)"

definition exited_key :: "event_payload \<Rightarrow> exec_key option" where
  "exited_key p =
     (case p of Attempt_Exited nd _ item \<Rightarrow> Some \<lparr> ek_node = nd, ek_item = item \<rparr> | _ \<Rightarrow> None)"

definition key_started :: "exec_key \<Rightarrow> event \<Rightarrow> bool" where
  "key_started k e \<longleftrightarrow> started_key (ev_payload e) = Some k"

definition key_finished :: "exec_key \<Rightarrow> event \<Rightarrow> bool" where
  "key_finished k e \<longleftrightarrow> finished_key (ev_payload e) = Some k"

section \<open>Claims\<close>

record attempt_claim =
  cl_attempt :: "u32 option"
  cl_token :: "string option"
  cl_host_task :: "string option"
  cl_item :: "string option"

definition claim_empty :: "attempt_claim \<Rightarrow> bool" where
  "claim_empty c \<longleftrightarrow> cl_attempt c = None \<and> cl_token c = None \<and> cl_host_task c = None \<and> cl_item c = None"

definition adopted_task :: "attempt_claim \<Rightarrow> string \<Rightarrow> event list \<Rightarrow> bool" where
  "adopted_task c nd within =
     (case cl_host_task c of
        Some task \<Rightarrow> list_ex (\<lambda>e. ev_payload e = Audit (Host_Task_Requested task nd)) within
      | None \<Rightarrow> False)"

definition claim_matches :: "attempt_claim \<Rightarrow> attempt_started \<Rightarrow> string \<Rightarrow> event list \<Rightarrow> bool" where
  "claim_matches c a nd within \<longleftrightarrow>
     adopted_task c nd within
     \<or> (case as_token a of
          Some token \<Rightarrow> cl_token c = Some token
        | None \<Rightarrow> cl_attempt c = Some (as_attempt a))"

section \<open>The binding\<close>

datatype budget_unit = Unit_Attempt | Unit_Visit | Ungrounded

definition current_phrase :: "budget_unit \<Rightarrow> string" where
  "current_phrase u =
     (case u of Unit_Attempt \<Rightarrow> '' in this attempt'' | Unit_Visit \<Rightarrow> '' in this visit to the node''
      | Ungrounded \<Rightarrow> '''')"

definition earlier_phrase :: "budget_unit \<Rightarrow> string" where
  "earlier_phrase u =
     (case u of Unit_Attempt \<Rightarrow> ''earlier attempts'' | Unit_Visit \<Rightarrow> ''earlier visits''
      | Ungrounded \<Rightarrow> ''earlier work'')"

record attempt_binding =
  ab_attempt :: "u32 option"
  ab_attempt_seq :: "nat option"
  ab_floor :: nat
  ab_unit :: budget_unit
  ab_open :: bool
  ab_may_send :: bool

definition rposition :: "('a \<Rightarrow> bool) \<Rightarrow> 'a list \<Rightarrow> nat option" where
  "rposition p xs = map_option (\<lambda>i. length xs - Suc i) (position p (rev xs))"

definition node_started_of :: "string \<Rightarrow> event \<Rightarrow> bool" where
  "node_started_of nd e = (case ev_payload e of Node_Started n _ \<Rightarrow> n = nd | _ \<Rightarrow> False)"

definition item_attempt_of :: "string \<Rightarrow> event \<Rightarrow> bool" where
  "item_attempt_of nd e =
     (case ev_payload e of Attempt_Started a \<Rightarrow> as_node a = nd \<and> as_item a \<noteq> None | _ \<Rightarrow> False)"

definition ends_item :: "string \<Rightarrow> string \<Rightarrow> event \<Rightarrow> bool" where
  "ends_item nd item e =
     (case ev_payload e of
        List_Item_Settled p \<Rightarrow> ls_node p = nd \<and> ls_item p = item
      | Node_Finished f \<Rightarrow> nf_node f = nd
      | _ \<Rightarrow> False)"

definition batch_of :: "string \<Rightarrow> event \<Rightarrow> string list option" where
  "batch_of nd e =
     (case ev_payload e of Audit (List_Batch_Started n _ items) \<Rightarrow> if n = nd then Some items else None | _ \<Rightarrow> None)"

definition script_item_in_batch :: "event list \<Rightarrow> string \<Rightarrow> string \<Rightarrow> bool" where
  "script_item_in_batch es nd item =
     (case rposition (\<lambda>e. case ev_payload e of Audit (List_Started l) \<Rightarrow> lt_node l = nd | _ \<Rightarrow> False) es of
        None \<Rightarrow> False
      | Some visit \<Rightarrow>
          let within = drop visit es; attempts = list_ex (item_attempt_of nd) within
          in (case rposition (\<lambda>e. batch_of nd e \<noteq> None) within of
                None \<Rightarrow> False
              | Some at \<Rightarrow>
                  (case batch_of nd (within ! at) of
                     None \<Rightarrow> False
                   | Some items \<Rightarrow>
                       let ended = list_ex (ends_item nd item) (drop at within)
                       in \<not> attempts \<and> \<not> ended \<and> item \<in> set items)))"

definition bind_started ::
  "event list \<Rightarrow> string \<Rightarrow> attempt_claim \<Rightarrow> exec_key \<Rightarrow> nat \<Rightarrow> attempt_started \<Rightarrow> attempt_binding" where
  "bind_started es nd c k i a =
     (let later = drop (i + 1) es;
          ended = list_ex (key_finished k) later;
          claimed = (\<not> claim_empty c \<and> claim_matches c a nd later)
      in \<lparr> ab_attempt = Some (as_attempt a), ab_attempt_seq = Some (ev_seq (es ! i)), ab_floor = i + 1,
           ab_unit = Unit_Attempt, ab_open = (\<not> ended \<and> (claim_empty c \<or> claimed)),
           ab_may_send = (\<not> ended \<and> claimed) \<rparr>)"

definition bind_visit :: "event list \<Rightarrow> string \<Rightarrow> attempt_claim \<Rightarrow> attempt_binding" where
  "bind_visit es nd c =
     (let (fl, un) = (case rposition (node_started_of nd) es of
                        Some i \<Rightarrow> (i + 1, Unit_Visit) | None \<Rightarrow> (0, Ungrounded));
          allowed = (case cl_item c of
                       None \<Rightarrow> \<not> list_ex (item_attempt_of nd) (drop fl es)
                     | Some item \<Rightarrow> script_item_in_batch (drop fl es) nd item)
      in \<lparr> ab_attempt = None, ab_attempt_seq = None, ab_floor = fl, ab_unit = un,
           ab_open = allowed, ab_may_send = allowed \<rparr>)"

definition bind_attempt :: "event list \<Rightarrow> string \<Rightarrow> attempt_claim \<Rightarrow> attempt_binding" where
  "bind_attempt es nd c =
     (let k = \<lparr> ek_node = nd, ek_item = cl_item c \<rparr> in
      case rposition (key_started k) es of
        Some i \<Rightarrow>
          (case ev_payload (es ! i) of
             Attempt_Started a \<Rightarrow> bind_started es nd c k i a
           | _ \<Rightarrow> bind_visit es nd c)
      | None \<Rightarrow> bind_visit es nd c)"

section \<open>Calls already made\<close>

record prior_calls =
  pc_current :: nat
  pc_earlier :: nat
  pc_unit :: budget_unit

definition is_grant_call :: "exec_key \<Rightarrow> string \<Rightarrow> event \<Rightarrow> bool" where
  "is_grant_call k connector e \<longleftrightarrow>
     ev_payload e = Audit (Connector_Call (ek_node k) connector None (ek_item k))"

definition prior_calls_of :: "event list \<Rightarrow> exec_key \<Rightarrow> string \<Rightarrow> attempt_binding \<Rightarrow> prior_calls" where
  "prior_calls_of es k connector b =
     (let fl = min (ab_floor b) (length es)
      in \<lparr> pc_current = length (filter (is_grant_call k connector) (drop fl es)),
           pc_earlier = length (filter (is_grant_call k connector) (take fl es)), pc_unit = ab_unit b \<rparr>)"

lemma prior_calls_all:
  "pc_current (prior_calls_of es k c b) + pc_earlier (prior_calls_of es k c b)
    = length (filter (is_grant_call k c) es)"
proof -
  let ?fl = "min (ab_floor b) (length es)"
  have "filter (is_grant_call k c) es
      = filter (is_grant_call k c) (take ?fl es) @ filter (is_grant_call k c) (drop ?fl es)"
    by (metis append_take_drop_id filter_append)
  then show ?thesis by (simp add: prior_calls_of_def Let_def)
qed

section \<open>Only the current attempt may send\<close>

lemma rposition_split:
  assumes "rposition p xs = Some i"
  shows "i < length xs \<and> p (xs ! i) \<and> (\<forall>x\<in>set (drop (Suc i) xs). \<not> p x)"
proof -
  obtain j where j: "position p (rev xs) = Some j" "i = length xs - Suc j"
    using assms by (auto simp: rposition_def)
  then have q: "j < length xs" "p (rev xs ! j)" "\<forall>k<j. \<not> p (rev xs ! k)"
    using position_Some by fastforce+
  have "rev xs ! j = xs ! i" using q(1) j(2) by (simp add: rev_nth)
  moreover have "\<not> p x" if "x \<in> set (drop (Suc i) xs)" for x
  proof -
    obtain k where k: "k < length xs - Suc i" "x = xs ! (Suc i + k)"
      using \<open>x \<in> _\<close> by (auto simp: in_set_conv_nth)
    let ?m = "length xs - Suc (Suc i + k)"
    have "?m < j" using k(1) j(2) q(1) by linarith
    moreover have "rev xs ! ?m = xs ! (length xs - Suc ?m)" by (rule rev_nth) (use k(1) in linarith)
    moreover have "length xs - Suc ?m = Suc i + k" using k(1) by linarith
    ultimately show ?thesis using q(3) k(2) by metis
  qed
  ultimately show ?thesis using q(1,2) j(2) by auto
qed

lemma rposition_None: "rposition p xs = None \<longleftrightarrow> (\<forall>x\<in>set xs. \<not> p x)"
  by (simp add: rposition_def position_None)

lemma rposition_unique:
  assumes "rposition p es = Some i" "es = before @ x # later" "p x" "\<forall>e\<in>set later. \<not> p e"
  shows "later = drop (Suc i) es \<and> x = es ! i"
proof -
  note sp = rposition_split [OF assms(1)]
  have "\<not> i < length before"
  proof
    assume "i < length before"
    then have "x \<in> set (drop (Suc i) es)" using assms(2) by auto
    then show False using sp assms(3) by blast
  qed
  moreover have "\<not> length before < i"
  proof
    assume l: "length before < i"
    then have "es ! i = later ! (i - Suc (length before))" "i - Suc (length before) < length later"
      using assms(2) sp by (auto simp: nth_append nth_Cons')
    then show False using assms(4) sp by (metis nth_mem)
  qed
  ultimately have "i = length before" by simp
  then show ?thesis using assms(2) by simp
qed

definition starts_step :: "string \<Rightarrow> string option \<Rightarrow> event \<Rightarrow> bool" where
  "starts_step nd item e \<longleftrightarrow> (\<exists>a. ev_payload e = Attempt_Started a \<and> as_node a = nd \<and> as_item a = item)"

definition ends_step :: "string \<Rightarrow> string option \<Rightarrow> event \<Rightarrow> bool" where
  "ends_step nd item e \<longleftrightarrow> (\<exists>f. ev_payload e = Attempt_Finished f \<and> af_node f = nd \<and> af_item f = item)"

lemma key_started_iff: "key_started \<lparr> ek_node = nd, ek_item = item \<rparr> e \<longleftrightarrow> starts_step nd item e"
  by (auto simp: key_started_def started_key_def starts_step_def split: event_payload.splits)

lemma key_finished_iff: "key_finished \<lparr> ek_node = nd, ek_item = item \<rparr> e \<longleftrightarrow> ends_step nd item e"
  by (auto simp: key_finished_def finished_key_def ends_step_def split: event_payload.splits)

text \<open>
  The claims a started attempt accepts: its token (its number when an old apb gave it none), or a
  host task requested for its node since.
\<close>

definition claims_attempt :: "attempt_claim \<Rightarrow> string \<Rightarrow> attempt_started \<Rightarrow> event list \<Rightarrow> bool" where
  "claims_attempt c nd a later \<longleftrightarrow>
     (case as_token a of Some t \<Rightarrow> cl_token c = Some t | None \<Rightarrow> cl_attempt c = Some (as_attempt a))
     \<or> (\<exists>task e. cl_host_task c = Some task \<and> e \<in> set later \<and> ev_payload e = Audit (Host_Task_Requested task nd))"

lemma claims_attempt_iff:
  "claims_attempt c nd a later \<longleftrightarrow> \<not> claim_empty c \<and> claim_matches c a nd later"
  by (auto simp: claims_attempt_def claim_matches_def claim_empty_def adopted_task_def list_ex_iff
      split: option.splits)

text \<open>
  C29: a caller may send only as its step's current attempt.  Once the step (the node, or the list
  item the caller names) has an attempt, a caller may send exactly when the latest one has not
  finished and the caller carries that attempt's token (its number, where an older apb journaled no
  token) or names a host task that was requested for the node within it.  So an agent process left
  behind by an earlier attempt, whose token is another one, is refused as soon as the next attempt
  starts, and so is every other token; only a host task a resumed drive requested again may still
  send with the environment of the attempt that first opened it.
\<close>

theorem attempt_sends_while_current:
  assumes "\<exists>e\<in>set es. starts_step nd (cl_item c) e"
  shows "ab_may_send (bind_attempt es nd c)
    \<longleftrightarrow> (\<exists>before x a later. es = before @ x # later
          \<and> ev_payload x = Attempt_Started a \<and> as_node a = nd \<and> as_item a = cl_item c
          \<and> (\<forall>e\<in>set later. \<not> starts_step nd (cl_item c) e \<and> \<not> ends_step nd (cl_item c) e)
          \<and> claims_attempt c nd a later)"
proof -
  let ?k = "\<lparr> ek_node = nd, ek_item = cl_item c \<rparr>"
  obtain i where i: "rposition (key_started ?k) es = Some i"
    using assms rposition_None [of "key_started ?k" es] key_started_iff [of nd "cl_item c"] by fastforce
  note sp = rposition_split [OF i, unfolded key_started_iff]
  then obtain a where a: "ev_payload (es ! i) = Attempt_Started a" "as_node a = nd" "as_item a = cl_item c"
    by (auto simp: starts_step_def)
  have es: "es = take i es @ es ! i # drop (Suc i) es" using sp id_take_nth_drop by blast
  have may: "ab_may_send (bind_attempt es nd c)
      \<longleftrightarrow> (\<forall>e\<in>set (drop (Suc i) es). \<not> ends_step nd (cl_item c) e) \<and> claims_attempt c nd a (drop (Suc i) es)"
    by (auto simp: bind_attempt_def i a(1) bind_started_def Let_def claims_attempt_iff key_finished_iff list_ex_iff)
  show ?thesis
  proof
    assume "ab_may_send (bind_attempt es nd c)"
    then show "\<exists>before x a later. es = before @ x # later
          \<and> ev_payload x = Attempt_Started a \<and> as_node a = nd \<and> as_item a = cl_item c
          \<and> (\<forall>e\<in>set later. \<not> starts_step nd (cl_item c) e \<and> \<not> ends_step nd (cl_item c) e)
          \<and> claims_attempt c nd a later"
      using may es a sp by blast
  next
    assume "\<exists>before x a later. es = before @ x # later
          \<and> ev_payload x = Attempt_Started a \<and> as_node a = nd \<and> as_item a = cl_item c
          \<and> (\<forall>e\<in>set later. \<not> starts_step nd (cl_item c) e \<and> \<not> ends_step nd (cl_item c) e)
          \<and> claims_attempt c nd a later"
    then obtain before x b later where x: "es = before @ x # later" "ev_payload x = Attempt_Started b"
      "as_node b = nd" "as_item b = cl_item c" "\<forall>e\<in>set later. \<not> starts_step nd (cl_item c) e"
      "\<forall>e\<in>set later. \<not> ends_step nd (cl_item c) e" "claims_attempt c nd b later" by blast
    have "starts_step nd (cl_item c) x" using x(2-4) by (auto simp: starts_step_def)
    then have "later = drop (Suc i) es" "x = es ! i" using rposition_unique [OF i [unfolded key_started_iff] x(1) _ x(5)] by blast+
    then show "ab_may_send (bind_attempt es nd c)" using may x(2,6,7) a(1) by simp
  qed
qed

definition demo_attempt :: "nat \<Rightarrow> string \<Rightarrow> event" where
  "demo_attempt q t = \<lparr> ev_seq = q, ev_ts = 0, ev_payload = Attempt_Started
     \<lparr> as_node = ''mail'', as_attempt = 1, as_agent = ''a'', as_soul_delivery = None,
       as_skills_mode = None, as_pid = None, as_spawn_ms = None, as_model = None, as_workdir = None,
       as_transcript = None, as_token = Some t, as_item = None, as_isolation = None, as_exec = None \<rparr> \<rparr>"

definition demo_claim :: "string \<Rightarrow> attempt_claim" where
  "demo_claim t = \<lparr> cl_attempt = Some 1, cl_token = Some t, cl_host_task = None, cl_item = None \<rparr>"

lemma attempt_sends_while_current_witness:
  "ab_may_send (bind_attempt [demo_attempt 3 ''t0'', demo_attempt 4 ''t1''] ''mail'' (demo_claim ''t1''))
   \<and> \<not> ab_may_send (bind_attempt [demo_attempt 3 ''t0'', demo_attempt 4 ''t1''] ''mail'' (demo_claim ''t0''))"
proof -
  let ?es = "[demo_attempt 3 ''t0'', demo_attempt 4 ''t1'']"
  obtain b where b: "ev_payload (demo_attempt 4 ''t1'') = Attempt_Started b" "as_node b = ''mail''"
    "as_item b = None" "as_token b = Some ''t1''" by (simp add: demo_attempt_def)
  have st: "starts_step ''mail'' None (demo_attempt q t)" for q t by (simp add: starts_step_def demo_attempt_def)
  then have ex: "\<exists>e\<in>set ?es. starts_step ''mail'' (cl_item (demo_claim t)) e" for t by (simp add: demo_claim_def)
  have "ab_may_send (bind_attempt ?es ''mail'' (demo_claim ''t1''))"
    unfolding attempt_sends_while_current [OF ex]
    by (intro exI [of _ "[demo_attempt 3 ''t0'']"] exI [of _ "demo_attempt 4 ''t1''"] exI [of _ b] exI [of _ "[]"])
      (use b in \<open>simp add: demo_claim_def claims_attempt_def\<close>)
  moreover have "\<not> ab_may_send (bind_attempt ?es ''mail'' (demo_claim ''t0''))"
    unfolding attempt_sends_while_current [OF ex]
    using st b by (auto simp: demo_claim_def claims_attempt_def Cons_eq_append_conv)
  ultimately show ?thesis by simp
qed

end
