(* ===== verification/Send_Gate.thy ===== *)
theory Send_Gate
  imports Send_Stamp Attempt_Binding Event_Log "HOL-Library.Char_ord" "HOL-Library.List_Lexorder"
begin

text \<open>
  The send-once gate around a connector call: \<^verbatim>\<open>apb-engine/src/connector/call/send_once.rs\<close>,
  \<^verbatim>\<open>call/request.rs\<close>, \<^verbatim>\<open>connector/effect.rs\<close>, \<^verbatim>\<open>intent/identity.rs\<close>, the settlements
  and the person's decision of \<^verbatim>\<open>intent/mod.rs\<close>, and the order of the call pipeline
  (\<^verbatim>\<open>call/mod.rs\<close>).  The clock, the process id and the process check, the drawn nonces, the
  schema validator, the digest and the reads of a lookup are arguments.
\<close>

section \<open>Errors and origins\<close>

datatype call_code =
    Code_Config | Code_Permission | Code_Invalid_Args | Code_Auth | Code_Not_Found | Code_Rate_Limited
  | Code_Service | Code_Network | Code_Timeout | Code_Incomplete_Response | Code_Unknown_Effect
  | Code_In_Flight | Code_Attempt_Closed

definition call_code_str :: "call_code \<Rightarrow> string" where
  "call_code_str c =
     (case c of Code_Config \<Rightarrow> ''config'' | Code_Permission \<Rightarrow> ''permission''
      | Code_Invalid_Args \<Rightarrow> ''invalid_args'' | Code_Auth \<Rightarrow> ''auth'' | Code_Not_Found \<Rightarrow> ''not_found''
      | Code_Rate_Limited \<Rightarrow> ''rate_limited'' | Code_Service \<Rightarrow> ''service'' | Code_Network \<Rightarrow> ''network''
      | Code_Timeout \<Rightarrow> ''timeout'' | Code_Incomplete_Response \<Rightarrow> ''incomplete_response''
      | Code_Unknown_Effect \<Rightarrow> ''unknown_effect'' | Code_In_Flight \<Rightarrow> ''in_flight''
      | Code_Attempt_Closed \<Rightarrow> ''attempt_closed'')"

record call_error =
  ce_code :: call_code
  ce_message :: string
  ce_http_status :: "nat option"
  ce_retry_after_sec :: "u64 option"
  ce_incomplete :: "opaque option"

definition call_error_new :: "call_code \<Rightarrow> string \<Rightarrow> call_error" where
  "call_error_new code message =
     \<lparr> ce_code = code, ce_message = message, ce_http_status = None, ce_retry_after_sec = None,
       ce_incomplete = None \<rparr>"

datatype call_origin = Origin_Node | Origin_Reconcile | Origin_Check | Origin_Notify | Origin_Notify_Reconcile

definition journal_tag :: "call_origin \<Rightarrow> string option" where
  "journal_tag og =
     (case og of Origin_Node \<Rightarrow> None | Origin_Reconcile \<Rightarrow> Some ''reconcile''
      | Origin_Notify_Reconcile \<Rightarrow> Some ''reconcile'' | Origin_Check \<Rightarrow> Some ''check''
      | Origin_Notify \<Rightarrow> Some ''notify'')"

definition tracks_sends :: "call_origin \<Rightarrow> bool" where
  "tracks_sends og \<longleftrightarrow> og \<in> {Origin_Node, Origin_Notify}"

definition charges_budget :: "call_origin \<Rightarrow> bool" where
  "charges_budget og \<longleftrightarrow> og = Origin_Node"

definition needs_grant :: "call_origin \<Rightarrow> bool" where
  "needs_grant og \<longleftrightarrow> og \<in> {Origin_Node, Origin_Check}"

definition read_only_only :: "call_origin \<Rightarrow> bool" where
  "read_only_only og \<longleftrightarrow> og \<in> {Origin_Reconcile, Origin_Check, Origin_Notify_Reconcile}"

definition is_live :: "call_origin \<Rightarrow> bool" where
  "is_live og \<longleftrightarrow> og \<in> {Origin_Notify, Origin_Notify_Reconcile}"

definition origin_read_back :: "call_origin \<Rightarrow> call_origin" where
  "origin_read_back og =
     (if og \<in> {Origin_Notify, Origin_Notify_Reconcile} then Origin_Notify_Reconcile else Origin_Reconcile)"

definition labels_itself :: "call_origin \<Rightarrow> bool" where
  "labels_itself og \<longleftrightarrow> og = Origin_Notify"

section \<open>What a call says about its effect\<close>

datatype call_class = Read_Ok | Read_Unknown | Write_Ok | Write_Incomplete | Write_Unknown | Call_Failed

record call_facts =
  cf_outcome :: string
  cf_http_status :: "nat option"
  cf_response_complete :: "bool option"

definition status_in :: "nat \<Rightarrow> nat \<Rightarrow> nat option \<Rightarrow> bool" where
  "status_in lo hi st = (case st of Some s \<Rightarrow> lo \<le> s \<and> s < hi | None \<Rightarrow> False)"

definition server_error :: "call_facts \<Rightarrow> bool" where
  "server_error c \<longleftrightarrow> cf_outcome c = call_code_str Code_Service
     \<and> (case cf_http_status c of Some s \<Rightarrow> 500 \<le> s | None \<Rightarrow> False)"

definition classify :: "call_facts \<Rightarrow> bool \<Rightarrow> call_class" where
  "classify c read_only =
     (let cut = (cf_response_complete c = Some False \<or> cf_outcome c = call_code_str Code_Incomplete_Response);
          ok = (cf_outcome c = ''ok'')
      in if read_only
         then (if cut then Read_Unknown else if ok then Read_Ok else Call_Failed)
         else
           let undetermined = (cf_outcome c = call_code_str Code_Timeout
                 \<or> cf_outcome c = call_code_str Code_Network \<or> server_error c);
               accepted = status_in 200 300 (cf_http_status c);
               refused = status_in 400 500 (cf_http_status c)
           in case (ok, cut, undetermined) of
                (True, True, _) \<Rightarrow> Write_Incomplete
              | (True, False, _) \<Rightarrow> Write_Ok
              | (False, _, True) \<Rightarrow> Write_Unknown
              | (False, True, False) \<Rightarrow>
                  if accepted then Write_Incomplete else if refused then Call_Failed else Write_Unknown
              | (False, False, False) \<Rightarrow> Call_Failed)"

section \<open>The label of a send\<close>

definition ARGS_LABEL_PREFIX :: string where "ARGS_LABEL_PREFIX = ''args:''"
definition ITEM_LABEL :: string where "ITEM_LABEL = ''item:send''"

fun comma_sep :: "string list \<Rightarrow> string" where
  "comma_sep [] = []"
| "comma_sep [x] = x"
| "comma_sep (x # xs) = x @ '','' @ comma_sep xs"

text \<open>The text of a JSON string is the library's (\<open>quote\<close>); keys are sorted at every level.\<close>

function canonical :: "(string \<Rightarrow> string) \<Rightarrow> json \<Rightarrow> string" where
  "canonical quote (JObject kvs) =
     ''{'' @ comma_sep (map (\<lambda>(k, t). quote k @ '':'' @ t)
       (sort_key fst (map (\<lambda>(k, v). (k, canonical quote v)) kvs))) @ ''}''"
| "canonical quote (JArray items) = ''['' @ comma_sep (map (canonical quote) items) @ '']''"
| "canonical quote JNull = ''null''"
| "canonical quote (JBool b) = (if b then ''true'' else ''false'')"
| "canonical quote (JNumber n v i) = n"
| "canonical quote (JString s) = quote s"
  by pat_completeness auto
termination
proof (relation "measure (\<lambda>(q, v). size v)", simp)
  fix quote :: "string \<Rightarrow> string" and kvs :: "(string \<times> json) list" and p k v
  assume "p \<in> set kvs" "(k, v) = p"
  then have "size v < size_list (size_prod (\<lambda>x. 0) size) kvs + 1"
    by (induction kvs) auto
  then show "((quote, v), quote, JObject kvs) \<in> measure (\<lambda>(q, v). size v)" by simp
next
  fix quote :: "string \<Rightarrow> string" and items :: "json list" and v
  assume "v \<in> set items"
  then have "size v < Suc (size_list size items)" by (induction items) auto
  then show "((quote, v), quote, JArray items) \<in> measure (\<lambda>(q, v). size v)" by simp
qed

definition args_label :: "(string \<Rightarrow> string) \<Rightarrow> (string \<Rightarrow> string) \<Rightarrow> json \<Rightarrow> string" where
  "args_label quote sha256_hex args =
     (let digest = sha256_hex (canonical quote args);
          hex = (case strip_prefix ''sha256:'' digest of Some h \<Rightarrow> h | None \<Rightarrow> digest)
      in ARGS_LABEL_PREFIX @ take (min 16 (length hex)) hex)"

definition default_label :: "(json \<Rightarrow> string) \<Rightarrow> string option \<Rightarrow> json \<Rightarrow> string" where
  "default_label label_of item args = (case item of Some _ \<Rightarrow> ITEM_LABEL | None \<Rightarrow> label_of args)"

definition label_char :: "char \<Rightarrow> bool" where
  "label_char c \<longleftrightarrow> is_lower c \<or> is_digit c"

definition validate_label :: "string \<Rightarrow> string option" where
  "validate_label label =
     (let first_ok = (case label of c # _ \<Rightarrow> label_char c | [] \<Rightarrow> False);
          rest_ok = list_all (\<lambda>c. label_char c \<or> c \<in> {CHR ''.'', CHR ''_'', CHR ''-''}) (drop 1 label)
      in if first_ok \<and> rest_ok \<and> length label \<le> 64 then None
         else Some (''intent label `'' @ label @ ''` is invalid: use 1 to 64 characters of a-z, 0-9, `.`, `_` and `-`, starting with a letter or digit''))"

text \<open>A caller's label is never one the engine makes.\<close>

lemma caller_label_is_no_default:
  assumes "validate_label label = None"
  shows "label \<noteq> default_label (args_label quote sha) item args"
proof -
  have "CHR '':'' \<notin> set (drop 1 label)" "label = [] \<or> hd label \<noteq> CHR '':''"
    using assms
    by (auto simp: validate_label_def Let_def list_all_iff label_char_def is_lower_def is_digit_def
        in_range_def byte_def split: if_splits list.splits)
  then have "CHR '':'' \<notin> set label" by (cases label) auto
  moreover have "CHR '':'' \<in> set (default_label (args_label quote sha) item args)"
    by (simp add: default_label_def args_label_def ARGS_LABEL_PREFIX_def ITEM_LABEL_def Let_def split: option.split)
  ultimately show ?thesis by metis
qed

section \<open>Settlements\<close>

record settlement =
  st_outcome :: string
  st_source :: string
  st_detail :: "string option"
  st_effect_ref :: "string option"
  st_by :: "string option"

definition EFFECT_REF_CAP :: nat where "EFFECT_REF_CAP = 256"

definition clip_chars :: "nat \<Rightarrow> string \<Rightarrow> string" where
  "clip_chars n s = concat (take n (utf8_chars s))"

definition settlement_payload :: "settlement \<Rightarrow> string \<Rightarrow> event_payload" where
  "settlement_payload st intent =
     Send_Intent_Settled \<lparr> ss_intent = intent, ss_outcome = st_outcome st, ss_source = st_source st,
       ss_detail = st_detail st, ss_effect_ref = map_option (clip_chars EFFECT_REF_CAP) (st_effect_ref st),
       ss_by = st_by st \<rparr>"

datatype resolve_error = Intent_Not_Found string | Resolve_Refused string | Resolve_Journal string

definition refuse_resolve :: "(u32 \<Rightarrow> bool) \<Rightarrow> u64 \<Rightarrow> event list \<Rightarrow> string \<Rightarrow> resolve_error option" where
  "refuse_resolve alive now es intent =
     (let l = fold_ledger es in
      case ledger_get l intent of
        None \<Rightarrow> Some (Intent_Not_Found (''this run has no send intent `'' @ intent @ ''`''))
      | Some r \<Rightarrow>
          (let v = send_verdict alive now l r in
           case cv_state v of
             Intent_Unknown _ _ \<Rightarrow>
               if ir_id (cv_member v) = intent then None
               else Some (Resolve_Refused (''whether send intent `'' @ intent @ ''` went out is decided by `''
                 @ ir_id (cv_member v) @ ''` of the same send; resolve that one''))
           | Intent_Pending _ _ \<Rightarrow>
               Some (Resolve_Refused (''send intent `'' @ intent @ ''` is still in flight; wait for it to settle''))
           | Intent_Confirmed _ _ \<Rightarrow>
               Some (Resolve_Refused (''send intent `'' @ intent @ ''` is already confirmed as sent''))
           | Intent_Not_Sent _ \<Rightarrow>
               Some (Resolve_Refused (''send intent `'' @ intent @ ''` is already settled as not sent''))))"

definition person_settlement :: "bool \<Rightarrow> string option \<Rightarrow> string \<Rightarrow> settlement" where
  "person_settlement sent note1 by1 =
     \<lparr> st_outcome = (if sent then CONFIRMED else NOT_SENT), st_source = PERSON, st_detail = note1,
       st_effect_ref = None, st_by = Some by1 \<rparr>"

definition resolve_build ::
  "(u32 \<Rightarrow> bool) \<Rightarrow> u64 \<Rightarrow> string \<Rightarrow> bool \<Rightarrow> string option \<Rightarrow> string \<Rightarrow> build" where
  "resolve_build alive now intent sent note1 by1 =
     Decided (\<lambda>es. if refuse_resolve alive now es intent = None
                   then Some (settlement_payload (person_settlement sent note1 by1) intent) else None)"

definition resolve_by_person ::
  "(u32 \<Rightarrow> bool) \<Rightarrow> u64 \<Rightarrow> handle \<Rightarrow> event list \<Rightarrow> nat \<Rightarrow> string \<Rightarrow> bool \<Rightarrow> string option \<Rightarrow> string
    \<Rightarrow> event list \<times> resolve_error option" where
  "resolve_by_person alive now h file ts intent sent note1 by1 =
     (case append_inner h file ts (resolve_build alive now intent sent note1 by1) of
        (_, file', Some _) \<Rightarrow> (file', None)
      | (_, file', None) \<Rightarrow>
          (file', case refuse_resolve alive now file intent of
             Some why \<Rightarrow> Some why
           | None \<Rightarrow> Some (Resolve_Refused (''send intent `'' @ intent @ ''` could not be resolved''))))"

section \<open>The gate\<close>

record send_input =
  gi_run :: string
  gi_node :: string
  gi_connector :: string
  gi_function_name :: string
  gi_account :: string
  gi_args :: json
  gi_dry_run :: bool
  gi_intent :: "string option"
  gi_claim :: attempt_claim
  gi_origin :: call_origin
  gi_on_unknown :: on_unknown
  gi_identity :: "identity_spec option"
  gi_function :: function_spec

record tracked =
  tk_id :: string
  tk_label :: string
  tk_nonce :: string
  tk_mode :: idempotency_mode
  tk_replay :: bool
  tk_marker :: "marker_fields option"
  tk_result_ref :: "string option"
  tk_attempt :: "u32 option"
  tk_attempt_seq :: "nat option"

definition tracked_stamp :: "tracked \<Rightarrow> stamp" where
  "tracked_stamp t = Stamp_Send (tk_nonce t) (tk_marker t)"

record already_sent =
  ans_intent :: string
  ans_label :: string
  ans_attempt :: "u32 option"
  ans_effect_ref :: "string option"

datatype send_gate = Untracked | Gate_Send tracked | Gate_Answer already_sent

record decided =
  dc_admission :: send_admission
  dc_new :: "new_intent option"
  dc_binding :: attempt_binding
  dc_record :: "intent_record option"

text \<open>What the world answers while a call is decided: the schema validator, the argument digest,
  the process check, the clock, this process, the drawn nonces, and the call's budget.\<close>

record gate_env =
  ge_invalid_args :: "json \<Rightarrow> json \<Rightarrow> call_error option"
  ge_args_label :: "json \<Rightarrow> string"
  ge_alive :: "u32 \<Rightarrow> bool"
  ge_now_ms :: u64
  ge_pid :: u32
  ge_nonce :: string
  ge_id_nonce :: string
  ge_budget :: "event list \<Rightarrow> call_error option"

definition gate_label :: "gate_env \<Rightarrow> send_input \<Rightarrow> call_error + string" where
  "gate_label env g =
     (case gi_intent g of
        Some label \<Rightarrow>
          if labels_itself (gi_origin g) then Inr label
          else (case validate_label label of
                  Some m \<Rightarrow> Inl (call_error_new Code_Invalid_Args m) | None \<Rightarrow> Inr label)
      | None \<Rightarrow> Inr (default_label (ge_args_label env) (cl_item (gi_claim g)) (gi_args g)))"

definition gate_key :: "send_input \<Rightarrow> string \<Rightarrow> intent_key" where
  "gate_key g label =
     \<lparr> ik_node = gi_node g, ik_connector = gi_connector g, ik_function = gi_function_name g,
       ik_account = gi_account g, ik_label = label, ik_item = cl_item (gi_claim g) \<rparr>"

definition gate_query :: "gate_env \<Rightarrow> send_input \<Rightarrow> idempotency \<Rightarrow> idempotency_mode \<Rightarrow> intent_key \<Rightarrow> bool \<Rightarrow> admit_query" where
  "gate_query env g idem mode k open =
     \<lparr> aq_key = k, aq_mode = mode, aq_window_sec = window_sec idem,
       aq_timeout_sec = fn_timeout_sec (gi_function g), aq_on_unknown = gi_on_unknown g,
       aq_attempt_open = open, aq_now_ms = ge_now_ms env \<rparr>"

definition gate_draft :: "gate_env \<Rightarrow> send_input \<Rightarrow> idempotency_mode \<Rightarrow> intent_key \<Rightarrow> attempt_binding \<Rightarrow> intent_draft" where
  "gate_draft env g mode k b =
     \<lparr> dt_key = k, dt_mode = mode, dt_attempt = ab_attempt b, dt_attempt_seq = ab_attempt_seq b,
       dt_timeout_sec = fn_timeout_sec (gi_function g), dt_now_ms = ge_now_ms env \<rparr>"

definition sends :: "send_admission \<Rightarrow> bool" where
  "sends a \<longleftrightarrow> (case a of Admit_New _ \<Rightarrow> True | Admit_Replay _ _ \<Rightarrow> True | _ \<Rightarrow> False)"

definition decide_send ::
  "gate_env \<Rightarrow> send_input \<Rightarrow> idempotency \<Rightarrow> idempotency_mode \<Rightarrow> intent_key \<Rightarrow> event list \<Rightarrow> call_error + decided" where
  "decide_send env g idem mode k es =
     (let b = bind_attempt es (gi_node g) (gi_claim g);
          a = admit (ge_alive env) es (gate_query env g idem mode k (ab_may_send b))
      in case (if sends a then ge_budget env es else None) of
           Some e \<Rightarrow> Inl e
         | None \<Rightarrow>
             Inr \<lparr> dc_admission = a,
                   dc_new = admitted (ge_nonce env) (ge_id_nonce env) (ge_pid env) (gate_draft env g mode k b) a,
                   dc_binding = b,
                   dc_record = (case a of Admit_Reconcile i \<Rightarrow> ledger_get (fold_ledger es) i | _ \<Rightarrow> None) \<rparr>)"

definition decide_build ::
  "gate_env \<Rightarrow> send_input \<Rightarrow> idempotency \<Rightarrow> idempotency_mode \<Rightarrow> intent_key \<Rightarrow> build" where
  "decide_build env g idem mode k =
     Decided (\<lambda>es. case decide_send env g idem mode k es of
                Inr d \<Rightarrow> map_option (\<lambda>n. Send_Intent_Recorded (ni_payload n)) (dc_new d)
              | Inl _ \<Rightarrow> None)"

definition make_tracked ::
  "send_input \<Rightarrow> idempotency \<Rightarrow> idempotency_mode \<Rightarrow> intent_key \<Rightarrow> new_intent \<Rightarrow> attempt_binding \<Rightarrow> tracked" where
  "make_tracked g idem mode k n b =
     \<lparr> tk_id = ni_id n, tk_label = ik_label k, tk_nonce = ni_nonce n, tk_mode = mode, tk_replay = ni_replay n,
       tk_marker = (case idem of
          Idem_Marker _ _ _ _ \<Rightarrow> Some \<lparr> mf_run = gi_run g, mf_node = ik_node k, mf_attempt = ab_attempt b,
                                        mf_nonce = ni_nonce n \<rparr>
        | _ \<Rightarrow> None),
       tk_result_ref = result_ref idem, tk_attempt = ab_attempt b, tk_attempt_seq = ab_attempt_seq b \<rparr>"

definition unknown_effect :: "send_input \<Rightarrow> intent_key \<Rightarrow> string \<Rightarrow> string \<Rightarrow> call_error" where
  "unknown_effect g k intent why =
     call_error_new Code_Unknown_Effect
       (''whether `'' @ gi_connector g @ ''.'' @ gi_function_name g @ ''` intent `'' @ ik_label k @ ''` ('' @ intent
        @ '') went out earlier is not known: '' @ why
        @ ''. apb refuses to send it again. Do not send it under another name; report it as a finding; a person resolves it'')"

definition attempt_closed_error :: "send_input \<Rightarrow> call_error" where
  "attempt_closed_error g =
     call_error_new Code_Attempt_Closed
       (''this call does not belong to the node'' @ [CHR 0x27] @ ''s current attempt (that attempt has ended, or the call carries another attempt''
        @ [CHR 0x27] @ ''s APB_ATTEMPT_TOKEN, or none), so it may not call `'' @ gi_connector g @ ''.'' @ gi_function_name g
        @ ''`; only the node'' @ [CHR 0x27] @ ''s current attempt may'')"

definition journal_failed :: "string \<Rightarrow> call_error" where
  "journal_failed why =
     call_error_new Code_Config
       (''the run journal could not record the send intent; nothing was sent: '' @ why)"

definition reconcile_marker ::
  "send_input \<Rightarrow> idempotency \<Rightarrow> intent_key \<Rightarrow> intent_record \<Rightarrow> fetch
    \<Rightarrow> (call_error + send_gate) \<times> settlement option" where
  "reconcile_marker g idem k r fetch =
     (case (gi_identity g, idem) of
        (Some identity, Idem_Marker _ format spec _) \<Rightarrow>
          (case reconcile \<lparr> rc_identity = identity, rc_spec = spec, rc_format = format, rc_run = gi_run g,
                            rc_record = r, rc_send_args = gi_args g \<rparr> fetch of
             Rec_Confirmed effect_ref \<Rightarrow>
               (Inr (Gate_Answer \<lparr> ans_intent = ir_id r, ans_label = ik_label k, ans_attempt = ir_attempt r,
                                   ans_effect_ref = effect_ref \<rparr>),
                Some \<lparr> st_outcome = CONFIRMED, st_source = ''reconcile'', st_detail = None,
                       st_effect_ref = effect_ref, st_by = None \<rparr>)
           | Rec_Unknown detail \<Rightarrow>
               (Inl (unknown_effect g k (ir_id r) detail),
                Some \<lparr> st_outcome = UNKNOWN, st_source = ''reconcile'', st_detail = Some detail,
                       st_effect_ref = None, st_by = None \<rparr>))
      | _ \<Rightarrow>
          (Inl (unknown_effect g k (ir_id r) ''the connector declares no way to read its own sends back''), None))"

text \<open>The answer to a decided call, and the settlement of the record it names, if any.\<close>

definition gate_answer ::
  "send_input \<Rightarrow> idempotency \<Rightarrow> idempotency_mode \<Rightarrow> intent_key \<Rightarrow> decided \<Rightarrow> fetch
    \<Rightarrow> (call_error + send_gate) \<times> settlement option" where
  "gate_answer g idem mode k d fetch =
     (case dc_admission d of
        Admit_New _ \<Rightarrow>
          ((case dc_new d of
              Some n \<Rightarrow> Inr (Gate_Send (make_tracked g idem mode k n (dc_binding d)))
            | None \<Rightarrow> Inl (journal_failed ''no intent was recorded'')), None)
      | Admit_Replay _ _ \<Rightarrow>
          ((case dc_new d of
              Some n \<Rightarrow> Inr (Gate_Send (make_tracked g idem mode k n (dc_binding d)))
            | None \<Rightarrow> Inl (journal_failed ''no intent was recorded'')), None)
      | Already_Sent intent label attempt effect_ref \<Rightarrow>
          (Inr (Gate_Answer \<lparr> ans_intent = intent, ans_label = label, ans_attempt = attempt,
                              ans_effect_ref = effect_ref \<rparr>), None)
      | In_Flight intent \<Rightarrow>
          (Inl (call_error_new Code_In_Flight
             (''send intent `'' @ ik_label k @ ''` ('' @ intent
              @ '') is being sent by another call right now; wait for that call'' @ [CHR 0x27]
              @ ''s result instead of sending it again'')), None)
      | Refuse_Unknown intent why \<Rightarrow> (Inl (unknown_effect g k intent why), None)
      | Attempt_Closed \<Rightarrow> (Inl (attempt_closed_error g), None)
      | Admit_Reconcile intent \<Rightarrow>
          (case dc_record d of
             Some r \<Rightarrow> reconcile_marker g idem k r fetch
           | None \<Rightarrow> (Inl (unknown_effect g k intent ''its record is missing''), None)))"

text \<open>The steps before the decision: what is tracked, valid arguments, a label.\<close>

definition gate_prepare ::
  "gate_env \<Rightarrow> send_input \<Rightarrow> call_error + (idempotency \<times> idempotency_mode \<times> intent_key) option" where
  "gate_prepare env g =
     (case Option.bind (send_once (gi_function g)) (\<lambda>i. map_option (Pair i) (idem_mode i)) of
        None \<Rightarrow> Inr None
      | Some (idem, mode) \<Rightarrow>
          if gi_dry_run g \<or> \<not> tracks_sends (gi_origin g) then Inr None
          else (case Option.bind (fn_args_schema (gi_function g)) (\<lambda>s. ge_invalid_args env s (gi_args g)) of
                  Some e \<Rightarrow> Inl e
                | None \<Rightarrow>
                    (case gate_label env g of
                       Inl e \<Rightarrow> Inl e
                     | Inr label \<Rightarrow> Inr (Some (idem, mode, gate_key g label)))))"

section \<open>Settling what was sent\<close>

definition DETAIL_CAP :: nat where "DETAIL_CAP = 300"

definition error_detail :: "call_error \<Rightarrow> string" where
  "error_detail e = clip_chars DETAIL_CAP (call_code_str (ce_code e) @ '': '' @ ce_message e)"

definition unsent_settlement :: "call_error \<Rightarrow> settlement" where
  "unsent_settlement e =
     \<lparr> st_outcome = NOT_SENT, st_source = ''unsent'', st_detail = Some (error_detail e),
       st_effect_ref = None, st_by = None \<rparr>"

datatype append_mark = Not_Written | Torn | Whole

definition unsynced_settlement :: "append_mark \<Rightarrow> new_intent option \<Rightarrow> string \<Rightarrow> (string \<times> settlement) option" where
  "unsynced_settlement mark1 new1 why =
     (case new1 of
        Some n \<Rightarrow>
          if mark1 = Whole
          then Some (ni_id n, \<lparr> st_outcome = NOT_SENT, st_source = ''journal'',
                 st_detail = Some (''the journal failed: '' @ why), st_effect_ref = None, st_by = None \<rparr>)
          else None
      | None \<Rightarrow> None)"

definition finish_outcome :: "tracked \<Rightarrow> call_facts \<Rightarrow> string" where
  "finish_outcome t facts =
     (let key_conflict = (tk_mode t = Mode_Key \<and> cf_http_status facts = Some 409) in
      if key_conflict then UNKNOWN
      else (case classify facts False of
              Write_Unknown \<Rightarrow> UNKNOWN
            | Call_Failed \<Rightarrow> NOT_SENT
            | _ \<Rightarrow> CONFIRMED))"

definition finish_settlement :: "tracked \<Rightarrow> call_facts \<Rightarrow> call_error + json \<Rightarrow> settlement" where
  "finish_settlement t facts result =
     (let outcome = finish_outcome t facts
      in \<lparr> st_outcome = outcome,
           st_source = (if outcome = CONFIRMED \<and> tk_replay t then ''key_replay'' else ''response''),
           st_detail = (if outcome = CONFIRMED then None
                        else case result of Inl e \<Rightarrow> Some (error_detail e) | Inr _ \<Rightarrow> None),
           st_effect_ref =
             (case (result, tk_result_ref t) of
                (Inr body, Some path) \<Rightarrow> if outcome = CONFIRMED then scalar_at_path body path else None
              | _ \<Rightarrow> None),
           st_by = None \<rparr>)"

section \<open>The call pipeline around the gate\<close>

definition check_budget :: "string \<Rightarrow> string \<Rightarrow> u32 option \<Rightarrow> prior_calls \<Rightarrow> call_error option" where
  "check_budget nd connector max_calls prior =
     (case max_calls of None \<Rightarrow> None
      | Some limit \<Rightarrow>
          if pc_current prior < unat limit then None
          else Some (call_error_new Code_Permission
            (''node `'' @ nd @ ''` reached its max_calls budget of '' @ show_nat (unat limit)
             @ '' for connector `'' @ connector @ ''`'' @ current_phrase (pc_unit prior)
             @ (if pc_earlier prior = 0 then []
                else ''; '' @ show_nat (pc_earlier prior) @ '' call(s) made by ''
                  @ earlier_phrase (pc_unit prior) @ '' of this node are not counted against it''))))"

text \<open>The budget of a call, as the gate and the pipeline charge it: the grant's limit over the calls
  of the attempt the journal binds the caller to.  Only a node's call with a grant is charged.\<close>

definition call_budget :: "send_input \<Rightarrow> u32 option option \<Rightarrow> event list \<Rightarrow> call_error option" where
  "call_budget g grant es =
     (case grant of
        Some max_calls \<Rightarrow>
          if charges_budget (gi_origin g)
          then check_budget (gi_node g) (gi_connector g) max_calls
                 (prior_calls_of es \<lparr> ek_node = gi_node g, ek_item = cl_item (gi_claim g) \<rparr> (gi_connector g)
                   (bind_attempt es (gi_node g) (gi_claim g)))
          else None
      | None \<Rightarrow> None)"

definition refuse_early :: "send_input \<Rightarrow> event list \<Rightarrow> call_error option" where
  "refuse_early g es =
     (if charges_budget (gi_origin g) \<and> \<not> ab_open (bind_attempt es (gi_node g) (gi_claim g))
      then Some (attempt_closed_error g)
      else if read_only_only (gi_origin g) \<and> \<not> fn_read_only (gi_function g)
      then Some (call_error_new Code_Permission
        (''apb reads back an earlier send, and checks an item, only through read-only functions; `''
         @ gi_function_name g @ ''` is not one''))
      else None)"

datatype staged = Staged_Answer already_sent | Staged_Ready "tracked option"

text \<open>What the pipeline does with the gate's answer: \<open>built\<close> is the error of rendering the request.\<close>

definition stage_call ::
  "(event list \<Rightarrow> call_error option) \<Rightarrow> event list \<Rightarrow> call_error + send_gate \<Rightarrow> (tracked option \<Rightarrow> call_error option)
    \<Rightarrow> (call_error + staged) \<times> (string \<times> settlement) option" where
  "stage_call budget es gate built =
     (case gate of
        Inl e \<Rightarrow> (Inl e, None)
      | Inr (Gate_Answer a) \<Rightarrow> (Inr (Staged_Answer a), None)
      | Inr Untracked \<Rightarrow>
          (case budget es of
             Some e \<Rightarrow> (Inl e, None)
           | None \<Rightarrow>
               (case built None of Some e \<Rightarrow> (Inl e, None) | None \<Rightarrow> (Inr (Staged_Ready None), None)))
      | Inr (Gate_Send t) \<Rightarrow>
          (case built (Some t) of
             Some e \<Rightarrow> (Inl e, Some (tk_id t, unsent_settlement e))
           | None \<Rightarrow> (Inr (Staged_Ready (Some t)), None)))"

text \<open>The record of a reached call, appended before its settlement.\<close>

definition call_events :: "send_input \<Rightarrow> tracked option \<Rightarrow> call_facts \<Rightarrow> call_error + json \<Rightarrow> event_payload list" where
  "call_events g t facts result =
     Audit (Connector_Call (gi_node g) (gi_connector g) (journal_tag (gi_origin g)) (cl_item (gi_claim g)))
     # (case t of Some s \<Rightarrow> [settlement_payload (finish_settlement s facts result) (tk_id s)] | None \<Rightarrow> [])"

section \<open>What a settled outcome says\<close>

text \<open>
  A send settles as not sent only when the call says so: it failed, its outcome is not a timeout, a
  network failure or a server error, and no response was accepted or cut short without a refusal.
\<close>

lemma not_sent_only_when_refused:
  assumes "finish_outcome t facts = NOT_SENT"
  shows "cf_outcome facts \<notin> {''ok'', ''timeout'', ''network''} \<and> \<not> server_error facts
    \<and> \<not> (tk_mode t = Mode_Key \<and> cf_http_status facts = Some 409)
    \<and> (cf_response_complete facts = Some False \<or> cf_outcome facts = ''incomplete_response''
        \<longrightarrow> status_in 400 500 (cf_http_status facts))"
proof -
  have c: "classify facts False = Call_Failed" "\<not> (tk_mode t = Mode_Key \<and> cf_http_status facts = Some 409)"
    using assms by (auto simp: finish_outcome_def NOT_SENT_def UNKNOWN_def CONFIRMED_def
        split: if_splits call_class.splits)
  then show ?thesis
    by (cases "cf_outcome facts = ''ok''"; cases "server_error facts")
      (simp_all add: classify_def Let_def call_code_str_def split: bool.splits if_splits)
qed

end
