(* ===== verification/Send_Safety.thy ===== *)
theory Send_Safety
  imports Send_Ledger
begin

text \<open>
  What the ledger promises.  A journal is a trace: sends recorded as \<open>admitted\<close> by \<open>admit\<close> on the
  journal so far, settlements, and every other event.  The ledger of such a trace keeps the repeats
  of a send in one line, so the decision sees them all; no two sends of one line that may both have
  acted carry different nonces, and a new line starts only when the effect of every earlier one is
  over.
\<close>

section \<open>A ledger as the fold builds it\<close>

definition ledger_ok :: "ledger \<Rightarrow> bool" where
  "ledger_ok l \<longleftrightarrow> sorted_wrt (<) (map ir_seq (lg_records l))
     \<and> (\<forall>i at. fmlookup (lg_index l) i = Some at \<longleftrightarrow>
           at < length (lg_records l) \<and> ir_id (lg_records l ! at) = i)"

lemma ledger_ok_get:
  assumes "ledger_ok l" "r \<in> set (lg_records l)"
  shows "ledger_get l (ir_id r) = Some r"
proof -
  obtain at where "at < length (lg_records l)" "lg_records l ! at = r"
    using assms(2) by (auto simp: in_set_conv_nth)
  then have "fmlookup (lg_index l) (ir_id r) = Some at" using assms(1) by (auto simp: ledger_ok_def)
  then show ?thesis using \<open>at < _\<close> \<open>lg_records l ! at = r\<close> by (simp add: ledger_get_def)
qed

lemma ledger_ok_id:
  "ledger_ok l \<Longrightarrow> r \<in> set (lg_records l) \<Longrightarrow> r' \<in> set (lg_records l) \<Longrightarrow> ir_id r = ir_id r' \<Longrightarrow> r = r'"
  by (metis ledger_ok_get option.inject)

lemma ledger_ok_index: "ledger_ok l \<Longrightarrow> i |\<in>| fmdom (lg_index l) \<longleftrightarrow> i \<in> ir_id ` set (lg_records l)"
proof -
  assume ok: "ledger_ok l"
  have "i |\<in>| fmdom (lg_index l) \<longleftrightarrow> (\<exists>at. fmlookup (lg_index l) i = Some at)"
    by (auto simp: fmlookup_dom_iff)
  also have "\<dots> \<longleftrightarrow> (\<exists>at<length (lg_records l). ir_id (lg_records l ! at) = i)"
    using ok by (simp add: ledger_ok_def)
  also have "\<dots> \<longleftrightarrow> i \<in> ir_id ` set (lg_records l)" by (force simp: in_set_conv_nth)
  finally show ?thesis .
qed

text \<open>Both ways a fold touches earlier records are maps that leave identity, order and key alone.\<close>

definition same_record :: "intent_record \<Rightarrow> intent_record \<Rightarrow> bool" where
  "same_record r r' \<longleftrightarrow> ir_id r' = ir_id r \<and> ir_seq r' = ir_seq r \<and> ir_key r' = ir_key r
     \<and> ir_nonce r' = ir_nonce r \<and> link_of r' = link_of r"

definition mark :: "string \<Rightarrow> string option \<Rightarrow> intent_record \<Rightarrow> intent_record" where
  "mark intent tip r = (if tip = Some (ir_id r) then r\<lparr> ir_superseded_by := Some intent \<rparr> else r)"

definition settle_at :: "send_intent_settled \<Rightarrow> intent_record \<Rightarrow> intent_record" where
  "settle_at p r = (if ir_id r = ss_intent p then settle_record r p else r)"

lemma mark_same: "same_record r (mark intent tip r)"
  by (simp add: mark_def same_record_def link_of_def split: option.split)

lemma settle_same: "same_record r (settle_at p r)"
  by (simp add: settle_at_def settle_record_def same_record_def link_of_def split: option.split)

lemma update_is_map:
  assumes "ledger_ok l" "fmlookup (lg_index l) i = Some at"
  shows "(lg_records l)[at := f (lg_records l ! at)] = map (\<lambda>r. if ir_id r = i then f r else r) (lg_records l)"
proof (rule nth_equalityI)
  fix j assume "j < length ((lg_records l)[at := f (lg_records l ! at)])"
  then have j: "j < length (lg_records l)" by simp
  have "ir_id (lg_records l ! j) = i \<longleftrightarrow> j = at"
    using assms j unfolding ledger_ok_def by (metis option.inject)
  then show "(lg_records l)[at := f (lg_records l ! at)] ! j
      = map (\<lambda>r. if ir_id r = i then f r else r) (lg_records l) ! j"
    using j by (auto simp: nth_list_update)
qed simp

lemma settle_step:
  assumes "ledger_ok l" "ev_payload e = Send_Intent_Settled p"
  shows "ledger_step l e = l\<lparr> lg_records := map (settle_at p) (lg_records l) \<rparr>"
proof (cases "fmlookup (lg_index l) (ss_intent p)")
  case None
  then have "ss_intent p \<notin> ir_id ` set (lg_records l)"
    using ledger_ok_index [OF assms(1), of "ss_intent p"] by (simp add: fmlookup_dom_iff)
  then have "\<forall>r\<in>set (lg_records l). settle_at p r = r" by (metis image_eqI settle_at_def)
  then have "map (settle_at p) (lg_records l) = lg_records l" by (simp add: map_idI)
  then show ?thesis using assms(2) None by (simp add: ledger_step_def)
next
  case (Some at)
  then show ?thesis using assms(2) update_is_map [OF assms(1) Some, of "\<lambda>r. settle_record r p"]
    by (simp add: ledger_step_def settle_at_def [abs_def])
qed

text \<open>A record whose link is a fresh id's single link to an earlier one.\<close>

definition link_to :: "send_intent_recorded \<Rightarrow> string option" where
  "link_to p = (case sr_replay_of p of Some i \<Rightarrow> Some i | None \<Rightarrow> sr_resend_of p)"

definition one_link :: "send_intent_recorded \<Rightarrow> bool" where
  "one_link p \<longleftrightarrow> sr_replay_of p = None \<or> sr_resend_of p = None"

definition key_of :: "send_intent_recorded \<Rightarrow> intent_key" where
  "key_of p = \<lparr> ik_node = sr_node p, ik_connector = sr_connector p, ik_function = sr_function p,
     ik_account = sr_account p, ik_label = sr_label p, ik_item = sr_item p \<rparr>"

lemma record_step:
  assumes ok: "ledger_ok l" and e: "ev_payload e = Send_Intent_Recorded p"
    and fresh: "sr_intent p \<notin> ir_id ` set (lg_records l)" and one: "one_link p"
    and link: "set_option (link_to p) \<subseteq> ir_id ` set (lg_records l)"
  obtains new where "lg_records (ledger_step l e) = map (mark (sr_intent p) (link_to p)) (lg_records l) @ [new]"
    "lg_index (ledger_step l e) = fmupd (sr_intent p) (length (lg_records l)) (lg_index l)"
    "ir_id new = sr_intent p" "ir_seq new = ev_seq e" "ir_key new = key_of p" "ir_nonce new = sr_nonce p"
    "link_of new = link_to p" "ir_superseded_by new = None" "ir_state new = Intent_Pending (sr_pid p) (sr_deadline_ms p)"
proof -
  have keep: "earlier_link l (sr_intent p) x = x" if "set_option x \<subseteq> ir_id ` set (lg_records l)" for x
    using that fresh ledger_ok_index [OF ok] by (auto simp: earlier_link_def split: option.splits)
  have sub: "set_option (sr_replay_of p) \<subseteq> ir_id ` set (lg_records l)"
    "set_option (sr_resend_of p) \<subseteq> ir_id ` set (lg_records l)"
    using link one by (auto simp: link_to_def one_link_def split: option.splits)
  have sup: "supersede (sr_intent p) l i = l\<lparr> lg_records := map (mark (sr_intent p) (Some i)) (lg_records l) \<rparr>"
    if "i \<in> ir_id ` set (lg_records l)" for i
  proof -
    have i: "i \<in> ir_id ` set (lg_records l)" by (rule that)
    obtain at where at: "fmlookup (lg_index l) i = Some at"
      using i unfolding ledger_ok_index [OF ok, of i, symmetric] by (auto simp: fmlookup_dom_iff)
    show ?thesis
      using update_is_map [OF ok at, of "\<lambda>r. r\<lparr> ir_superseded_by := Some (sr_intent p) \<rparr>"] at
      by (simp add: supersede_def mark_def [abs_def] eq_commute [of i])
  qed
  have id: "map (mark (sr_intent p) None) (lg_records l) = lg_records l"
    by (simp add: mark_def map_idI)
  have fold: "foldl (supersede (sr_intent p)) l (List.map_filter id [sr_replay_of p, sr_resend_of p])
      = l\<lparr> lg_records := map (mark (sr_intent p) (link_to p)) (lg_records l) \<rparr>"
    using one sup sub id
    by (cases "sr_replay_of p"; cases "sr_resend_of p")
      (auto simp: List.map_filter_def link_to_def one_link_def)
  let ?new = "\<lparr> ir_id = sr_intent p, ir_seq = ev_seq e, ir_ts_ms = of_nat (ev_ts e),
                ir_key = key_of p, ir_nonce = sr_nonce p, ir_mode = idempotency_parse (sr_mode p),
                ir_attempt = sr_attempt p, ir_attempt_seq = sr_attempt_seq p,
                ir_replay_of = sr_replay_of p, ir_resend_of = sr_resend_of p,
                ir_nonce_ts_ms = first_nonce_ts l (sr_replay_of p) (sr_nonce p) (of_nat (ev_ts e)),
                ir_state = Intent_Pending (sr_pid p) (sr_deadline_ms p),
                ir_settled_by = None, ir_superseded_by = None \<rparr>"
  have "ledger_step l e = \<lparr> lg_records = map (mark (sr_intent p) (link_to p)) (lg_records l) @ [?new],
      lg_index = fmupd (sr_intent p) (length (lg_records l)) (lg_index l) \<rparr>"
    unfolding ledger_step_def e record_intent_def Let_def event_payload.case
      keep [OF sub(1)] keep [OF sub(2)] fold key_of_def by simp
  then show ?thesis
    by (intro that [of ?new]) (simp_all add: link_of_def link_to_def split: option.split)
qed

lemma map_same_seq: "(\<And>r. same_record r (f r)) \<Longrightarrow> map ir_seq (map f rs) = map ir_seq rs"
  by (simp add: same_record_def)

lemma ledger_ok_map:
  assumes "ledger_ok l" "\<And>r. same_record r (f r)"
  shows "ledger_ok (l\<lparr> lg_records := map f (lg_records l) \<rparr>)"
proof -
  have "ir_id (map f (lg_records l) ! at) = ir_id (lg_records l ! at)" if "at < length (lg_records l)" for at
    using assms(2) that by (simp add: same_record_def)
  then show ?thesis using assms(1) map_same_seq [OF assms(2)]
    by (auto simp: ledger_ok_def simp del: map_map)
qed

lemma ledger_ok_record:
  assumes ok: "ledger_ok l" and new: "ir_id new \<notin> ir_id ` set (lg_records l)"
    "\<forall>r\<in>set (lg_records l). ir_seq r < ir_seq new"
    and f: "\<And>r. same_record r (f r)"
    and l': "lg_records l' = map f (lg_records l) @ [new]"
      "lg_index l' = fmupd (ir_id new) (length (lg_records l)) (lg_index l)"
  shows "ledger_ok l'"
proof -
  let ?rs = "lg_records l"
  have s: "sorted_wrt (<) (map ir_seq (lg_records l'))"
    using ok new(2) f map_same_seq [OF f, of ?rs] unfolding l' ledger_ok_def
    by (auto simp: sorted_wrt_append same_record_def simp del: map_map)
  have idx: "fmlookup (lg_index l') i = Some at \<longleftrightarrow> at < length (lg_records l') \<and> ir_id (lg_records l' ! at) = i"
    for i at
  proof (cases "at < length ?rs")
    case True
    then have "ir_id (lg_records l' ! at) = ir_id (?rs ! at)"
      using f by (simp add: l' nth_append same_record_def)
    moreover have "ir_id (?rs ! at) \<noteq> ir_id new" using True new(1) by (metis image_eqI nth_mem)
    ultimately show ?thesis using ok True by (auto simp: l' ledger_ok_def)
  next
    case False
    then have "fmlookup (lg_index l) i \<noteq> Some at" for i using ok by (auto simp: ledger_ok_def)
    then show ?thesis using False by (auto simp: l' nth_append less_Suc_eq)
  qed
  show ?thesis unfolding ledger_ok_def using s idx by blast
qed

section \<open>A line of repeats\<close>

fun linked :: "string option \<Rightarrow> intent_record list \<Rightarrow> bool" where
  "linked prev [] = True"
| "linked prev (r # rs) = (link_of r = prev \<and> linked (Some (ir_id r)) rs)"

fun followed :: "intent_record list \<Rightarrow> bool" where
  "followed [] = True"
| "followed [r] = (ir_superseded_by r = None)"
| "followed (r # r' # rs) = (ir_superseded_by r = Some (ir_id r') \<and> followed (r' # rs))"

lemma linked_snoc:
  "linked prev (rs @ [r]) \<longleftrightarrow> linked prev rs \<and> link_of r = (if rs = [] then prev else Some (ir_id (last rs)))"
  by (induction rs arbitrary: prev) auto

lemma linked_map: "(\<And>r. same_record r (f r)) \<Longrightarrow> linked prev (map f rs) = linked prev rs"
  by (induction rs arbitrary: prev) (auto simp: same_record_def)

lemma followed_map:
  "(\<And>r. same_record r (f r)) \<Longrightarrow> (\<And>r. r \<in> set rs \<Longrightarrow> ir_superseded_by (f r) = ir_superseded_by r) \<Longrightarrow>
    followed (map f rs) = followed rs"
  by (induction rs rule: followed.induct) (auto simp: same_record_def)

lemma followed_snoc:
  "followed (rs @ [t]) \<Longrightarrow> ir_superseded_by new = None \<Longrightarrow> ir_id t' = ir_id t \<Longrightarrow>
    ir_superseded_by t' = Some (ir_id new) \<Longrightarrow> followed (rs @ [t', new])"
proof (induction rs)
  case (Cons r rs)
  then show ?case by (cases rs) auto
qed simp

lemma line_root:
  assumes ok: "ledger_ok l"
  shows "linked None rs \<Longrightarrow> rs \<noteq> [] \<Longrightarrow> set rs \<subseteq> set (lg_records l) \<Longrightarrow> sorted_wrt (<) (map ir_seq rs) \<Longrightarrow>
    chain_root l (last rs) = hd rs"
proof (induction rs rule: rev_induct)
  case (snoc r rs)
  show ?case
  proof (cases "rs = []")
    case True
    then have "prev_of l r = None" using snoc.prems(1) by (simp add: prev_of_def)
    then show ?thesis using True by (subst chain_root.simps) simp
  next
    case False
    then have "link_of r = Some (ir_id (last rs))" using snoc.prems(1) by (simp add: linked_snoc)
    moreover have "last rs \<in> set (lg_records l)" using False snoc.prems(3) by auto
    moreover have "ir_seq (last rs) < ir_seq r" using False snoc.prems(4) by (auto simp: sorted_wrt_append)
    ultimately have "prev_of l r = Some (last rs)" by (simp add: prev_of_def ledger_ok_get [OF ok])
    moreover have "chain_root l (last rs) = hd rs"
      using snoc False by (auto simp: linked_snoc sorted_wrt_append)
    ultimately show ?thesis using False by (subst chain_root.simps) simp
  qed
qed simp

lemma line_from:
  assumes ok: "ledger_ok l"
  shows "followed (r # rs) \<Longrightarrow> set (r # rs) \<subseteq> set (lg_records l) \<Longrightarrow> sorted_wrt (<) (map ir_seq (r # rs)) \<Longrightarrow>
    chain_from l r = r # rs"
proof (induction rs arbitrary: r)
  case Nil
  then have "next_of l r = None" by (simp add: next_of_def)
  then show ?case by (subst chain_from.simps) simp
next
  case (Cons n rs)
  have "n \<in> set (lg_records l)" using Cons.prems(2) by simp
  then have "next_of l r = Some n" using Cons.prems by (simp add: next_of_def ledger_ok_get [OF ok])
  moreover have "chain_from l n = n # rs" using Cons by simp
  ultimately show ?case by (subst chain_from.simps) simp
qed

lemma linked_prefix: "linked prev (us @ vs) \<Longrightarrow> linked prev us"
  by (induction us arbitrary: prev) auto

text \<open>The chain of any member of a line is the line.\<close>

lemma line_chain:
  assumes "ledger_ok l" "linked None rs" "followed rs" "r \<in> set rs" "set rs \<subseteq> set (lg_records l)"
    "sorted_wrt (<) (map ir_seq rs)"
  shows "chain_of l r = rs"
proof -
  obtain us vs where rs: "rs = us @ r # vs" using split_list [OF assms(4)] by blast
  have "linked None (us @ [r])" using linked_prefix [of None "us @ [r]" vs] assms(2) rs by simp
  then have "chain_root l (last (us @ [r])) = hd (us @ [r])"
    by (rule line_root [OF assms(1)]) (use assms(5,6) rs in \<open>auto simp: sorted_wrt_append\<close>)
  moreover have "hd (us @ [r]) = hd rs" by (simp add: rs hd_append)
  moreover have "rs = hd rs # tl rs" using rs by simp
  ultimately show ?thesis using line_from [OF assms(1), of "hd rs" "tl rs"] assms(3,5,6)
    by (simp add: chain_of_def)
qed

section \<open>The sends of one key, effect by effect\<close>

definition sends_under :: "intent_key \<Rightarrow> ledger \<Rightarrow> intent_record list" where
  "sends_under k l = filter (\<lambda>r. ir_key r = k) (lg_records l)"

definition may_have_acted :: "intent_record \<Rightarrow> bool" where
  "may_have_acted r \<longleftrightarrow> \<not> is_not_sent (ir_state r)"

definition one_nonce :: "intent_record list \<Rightarrow> bool" where
  "one_nonce rs \<longleftrightarrow>
     (\<forall>r\<in>set rs. \<forall>r'\<in>set rs. may_have_acted r \<longrightarrow> may_have_acted r' \<longrightarrow> ir_nonce r = ir_nonce r')"

definition scope_ok :: "intent_record list \<Rightarrow> bool" where
  "scope_ok rs \<longleftrightarrow> linked None rs \<and> followed rs \<and> one_nonce rs"

lemma scope_ok_Nil [simp]: "scope_ok []"
  by (simp add: scope_ok_def one_nonce_def)

lemma sends_sub: "set (sends_under k l) \<subseteq> set (lg_records l)"
  by (auto simp: sends_under_def)

lemma sends_sorted: "ledger_ok l \<Longrightarrow> sorted_wrt (<) (map ir_seq (sends_under k l))"
  by (auto simp: ledger_ok_def sends_under_def sorted_wrt_map intro: sorted_wrt_filter)

lemma find_rev_from:
  "sorted_wrt (<) (map ir_seq rs) \<Longrightarrow>
    find (\<lambda>r. q \<le> ir_seq r) (rev rs) = (if rs = [] \<or> ir_seq (last rs) < q then None else Some (last rs))"
  by (cases rs rule: rev_cases) (auto simp: find_None_iff sorted_wrt_append)

lemma find_filter: "find (\<lambda>r. P r \<and> Q r) (rev rs) = find P (rev (filter Q rs))"
  by (induction rs rule: rev_induct) auto

lemma latest_send:
  assumes "ledger_ok l"
  shows "latest_intent l k q = (let rs = sends_under k l
    in if rs = [] \<or> ir_seq (last rs) < q then None else Some (last rs))"
  using find_rev_from [OF sends_sorted [OF assms, of k], of q]
  by (simp add: latest_intent_def find_filter sends_under_def Let_def)

lemma sends_map:
  "(\<And>r. same_record r (f r)) \<Longrightarrow>
    sends_under k (l\<lparr> lg_records := map f (lg_records l) \<rparr>) = map f (sends_under k l)"
  by (simp add: sends_under_def filter_map o_def same_record_def)

section \<open>Journals of sends\<close>

definition after_all :: "event list \<Rightarrow> event \<Rightarrow> bool" where
  "after_all es e \<longleftrightarrow> (\<forall>x\<in>set es. ev_seq x < ev_seq e)"

definition settles_not_sent :: "ledger \<Rightarrow> intent_key \<Rightarrow> send_intent_settled \<Rightarrow> bool" where
  "settles_not_sent l k p \<longleftrightarrow> (\<exists>r\<in>set (lg_records l). ir_id r = ss_intent p \<and> ir_key r = k
     \<and> is_not_sent (ir_state r))"

text \<open>
  The journals a run writes, as the effect \<open>k\<close> sees them: a send is recorded as \<open>admitted\<close> by \<open>admit\<close>
  on the journal so far, under a new id, with \<open>on_unknown: refuse\<close> where it is a send of \<open>k\<close>; what
  was settled as not sent stays so; every event comes after the ones before it.
\<close>

inductive send_journal :: "intent_key \<Rightarrow> event list \<Rightarrow> bool" for k where
  start: "send_journal k []"
| send: "send_journal k es \<Longrightarrow> after_all es e \<Longrightarrow> aq_key q = dt_key d \<Longrightarrow>
    (aq_key q = k \<Longrightarrow> aq_on_unknown q = Unknown_Refuse) \<Longrightarrow>
    admitted fresh fresh_id pid d (admit alive es q) = Some n \<Longrightarrow>
    ni_id n \<notin> ir_id ` set (lg_records (fold_ledger es)) \<Longrightarrow>
    ev_payload e = Send_Intent_Recorded (ni_payload n) \<Longrightarrow> send_journal k (es @ [e])"
| settled: "send_journal k es \<Longrightarrow> after_all es e \<Longrightarrow> ev_payload e = Send_Intent_Settled p \<Longrightarrow>
    (settles_not_sent (fold_ledger es) k p \<Longrightarrow> ss_outcome p = NOT_SENT) \<Longrightarrow> send_journal k (es @ [e])"
| other: "send_journal k es \<Longrightarrow> after_all es e \<Longrightarrow>
    (\<And>p. ev_payload e \<noteq> Send_Intent_Recorded p) \<Longrightarrow> (\<And>p. ev_payload e \<noteq> Send_Intent_Settled p) \<Longrightarrow>
    send_journal k (es @ [e])"

lemma fold_ledger_snoc: "fold_ledger (es @ [e]) = ledger_step (fold_ledger es) e"
  by (simp add: fold_ledger_def)

text \<open>
  The effect a send belongs to is over: its node finished as succeeded after it, or its list item
  passed after it with the send confirmed (some record under its nonce is) or settled as not sent.
\<close>

definition effect_over :: "intent_key \<Rightarrow> event list \<Rightarrow> intent_record \<Rightarrow> bool" where
  "effect_over k es r \<longleftrightarrow>
     (case ik_item k of
        None \<Rightarrow> (\<exists>x\<in>set es. \<exists>f. ev_payload x = Node_Finished f \<and> nf_node f = ik_node k
                  \<and> nf_status f = ''succeeded'' \<and> ir_seq r \<le> ev_seq x)
      | Some i \<Rightarrow> (\<exists>x\<in>set es. \<exists>p. ev_payload x = List_Item_Settled p \<and> ls_node p = ik_node k
                  \<and> ls_item p = i \<and> ls_state p = ''passed'' \<and> ir_seq r \<le> ev_seq x)
          \<and> (is_not_sent (ir_state r) \<or> (\<exists>m\<in>set (lg_records (fold_ledger es)). ir_key m = k
                  \<and> ir_nonce m = ir_nonce r \<and> is_confirmed (ir_state m))))"

text \<open>It was over at some point of the journal after the send \<open>i\<close> was recorded and before \<open>j\<close> was.\<close>

definition over_between :: "intent_key \<Rightarrow> event list \<Rightarrow> string \<Rightarrow> string \<Rightarrow> bool" where
  "over_between k es i j \<longleftrightarrow> (\<exists>before rest r. es = before @ rest
     \<and> r \<in> set (lg_records (fold_ledger before)) \<and> ir_id r = i
     \<and> j \<notin> ir_id ` set (lg_records (fold_ledger before)) \<and> effect_over k before r)"

lemma over_between_extends: "over_between k es i j \<Longrightarrow> over_between k (es @ xs) i j"
  unfolding over_between_def by (elim exE conjE) (metis append.assoc)

definition lines_ok :: "intent_key \<Rightarrow> event list \<Rightarrow> intent_record list list \<Rightarrow> bool" where
  "lines_ok k es lines \<longleftrightarrow> (\<forall>line\<in>set lines. line \<noteq> [] \<and> scope_ok line)
     \<and> sorted_wrt (\<lambda>a b. \<forall>r\<in>set a. \<forall>r'\<in>set b. over_between k es (ir_id r) (ir_id r')) lines"

definition journal_inv :: "intent_key \<Rightarrow> event list \<Rightarrow> bool" where
  "journal_inv k es \<longleftrightarrow> ledger_ok (fold_ledger es)
     \<and> (\<forall>r\<in>set (lg_records (fold_ledger es)). \<exists>x\<in>set es. ev_seq x = ir_seq r)
     \<and> (\<exists>lines. sends_under k (fold_ledger es) = concat lines \<and> lines_ok k es lines)"

lemma journal_invD:
  assumes "journal_inv k es"
  shows "ledger_ok (fold_ledger es)"
    "after_all es e \<Longrightarrow> \<forall>r\<in>set (lg_records (fold_ledger es)). ir_seq r < ev_seq e"
proof -
  show "ledger_ok (fold_ledger es)" using assms by (simp add: journal_inv_def)
  have "\<forall>r\<in>set (lg_records (fold_ledger es)). \<exists>x\<in>set es. ev_seq x = ir_seq r"
    using assms by (simp add: journal_inv_def)
  then show "after_all es e \<Longrightarrow> \<forall>r\<in>set (lg_records (fold_ledger es)). ir_seq r < ev_seq e"
    unfolding after_all_def by metis
qed

lemma lines_map:
  assumes "lines_ok k es lines" "\<And>r. same_record r (f r)" "\<And>line. line \<in> set lines \<Longrightarrow> scope_ok (map f line)"
  shows "lines_ok k (es @ xs) (map (map f) lines)"
proof -
  have id: "ir_id (f r) = ir_id r" for r using assms(2) [of r] by (simp add: same_record_def)
  have "sorted_wrt (\<lambda>a b. \<forall>r\<in>set a. \<forall>r'\<in>set b. over_between k (es @ xs) (ir_id r) (ir_id r')) lines"
    by (rule sorted_wrt_mono_rel [of _ "\<lambda>a b. \<forall>r\<in>set a. \<forall>r'\<in>set b. over_between k es (ir_id r) (ir_id r')"])
      (use assms(1) over_between_extends in \<open>auto simp: lines_ok_def\<close>)
  then show ?thesis using assms(1,3) by (auto simp: lines_ok_def sorted_wrt_map id)
qed

lemma lines_extend: "lines_ok k es lines \<Longrightarrow> lines_ok k (es @ xs) lines"
  using lines_map [of k es lines "\<lambda>r. r" xs] by (simp add: same_record_def lines_ok_def)

lemma lines_snoc:
  "lines_ok k es (lines @ [line]) \<longleftrightarrow> lines_ok k es lines \<and> line \<noteq> [] \<and> scope_ok line
     \<and> (\<forall>a\<in>set lines. \<forall>r\<in>set a. \<forall>r'\<in>set line. over_between k es (ir_id r) (ir_id r'))"
  by (auto simp: lines_ok_def sorted_wrt_append)

text \<open>No record's id is lost.\<close>

lemma map_update_same: "g y = g (xs ! i) \<Longrightarrow> map g (xs[i := y]) = map g xs"
proof (cases "i < length xs")
  case True
  assume "g y = g (xs ! i)"
  then have "map g (xs[i := y]) = (map g xs)[i := map g xs ! i]" using True by (simp add: map_update)
  then show ?thesis by (simp only: list_update_id)
qed (simp add: list_update_beyond)

lemma supersede_ids: "map ir_id (lg_records (supersede intent l i)) = map ir_id (lg_records l)"
  by (cases "fmlookup (lg_index l) i") (simp_all add: supersede_def map_update_same)

lemma ledger_ids_grow: "ir_id ` set (lg_records (fold_ledger us)) \<subseteq> ir_id ` set (lg_records (fold_ledger (us @ vs)))"
proof (induction vs rule: rev_induct)
  case (snoc e vs)
  let ?l = "fold_ledger (us @ vs)"
  have sup: "map ir_id (lg_records (foldl (supersede i) l is)) = map ir_id (lg_records l)" for i l "is"
    by (induction "is" arbitrary: l) (simp_all add: supersede_ids)
  have "ir_id ` set (lg_records ?l) \<subseteq> ir_id ` set (lg_records (ledger_step ?l e))"
  proof (cases "ev_payload e")
    case (Send_Intent_Recorded p)
    have "ir_id ` set (lg_records (foldl (supersede i) ?l is)) = ir_id ` set (lg_records ?l)" for i "is"
      using sup [of i ?l "is"] by (metis list.set_map)
    then show ?thesis by (auto simp: Send_Intent_Recorded ledger_step_def record_intent_def Let_def)
  next
    case (Send_Intent_Settled p)
    have same: "ir_id (settle_record r p) = ir_id r" for r by (simp add: settle_record_def)
    have "map ir_id (lg_records (ledger_step ?l e)) = map ir_id (lg_records ?l)"
      by (cases "fmlookup (lg_index ?l) (ss_intent p)")
        (simp_all add: Send_Intent_Settled ledger_step_def map_update_same same)
    then show ?thesis by (metis list.set_map order_refl)
  qed (simp_all add: ledger_step_def)
  then show ?case using snoc by (simp add: fold_ledger_snoc flip: append_assoc)
qed simp

subsection \<open>Settlements and other events\<close>

lemma one_nonce_map:
  assumes "\<And>r. same_record r (f r)" "\<And>r. r \<in> set rs \<Longrightarrow> may_have_acted (f r) \<Longrightarrow> may_have_acted r"
  shows "one_nonce rs \<Longrightarrow> one_nonce (map f rs)"
proof -
  have "ir_nonce (f r) = ir_nonce r" for r using assms(1) by (simp add: same_record_def)
  moreover assume o: "one_nonce rs"
  have "ir_nonce a = ir_nonce b" if "a \<in> set rs" "b \<in> set rs" "may_have_acted (f a)" "may_have_acted (f b)" for a b
    using o that(1,2) assms(2) [OF that(1,3)] assms(2) [OF that(2,4)] unfolding one_nonce_def by blast
  moreover have "ir_nonce x = ir_nonce y"
    if xy: "x \<in> f ` set rs" "y \<in> f ` set rs" "may_have_acted x" "may_have_acted y" for x y
  proof -
    obtain a b where "x = f a" "a \<in> set rs" "y = f b" "b \<in> set rs" using xy(1,2) by blast
    then show ?thesis using calculation(1) calculation(2) [of a b] xy(3,4) by simp
  qed
  ultimately show "one_nonce (map f rs)" unfolding one_nonce_def set_map by blast
qed

lemma settle_acted:
  assumes "r \<in> set (sends_under k l)" "settles_not_sent l k p \<Longrightarrow> ss_outcome p = NOT_SENT"
    and "may_have_acted (settle_at p r)"
  shows "may_have_acted r"
proof (rule ccontr)
  assume "\<not> may_have_acted r"
  then have ns: "is_not_sent (ir_state r)" by (simp add: may_have_acted_def)
  have "r \<in> set (lg_records l)" "ir_key r = k" using assms(1) by (auto simp: sends_under_def)
  then have "ss_outcome p = NOT_SENT" if "ir_id r = ss_intent p"
    using assms(2) ns that by (auto simp: settles_not_sent_def)
  then have "is_not_sent (ir_state (settle_at p r))" using ns
    by (auto simp: settle_at_def settle_record_def settled_state_def NOT_SENT_def CONFIRMED_def is_not_sent_def)
  then show False using assms(3) by (simp add: may_have_acted_def)
qed

lemma settled_inv:
  assumes inv: "journal_inv k es" and e: "ev_payload e = Send_Intent_Settled p"
    and ns: "settles_not_sent (fold_ledger es) k p \<Longrightarrow> ss_outcome p = NOT_SENT"
  shows "journal_inv k (es @ [e])"
proof -
  let ?l = "fold_ledger es" and ?f = "settle_at p"
  note ok = journal_invD(1) [OF inv]
  obtain lines where lines: "sends_under k ?l = concat lines" "lines_ok k es lines"
    using inv unfolding journal_inv_def by blast
  have l': "fold_ledger (es @ [e]) = ?l\<lparr> lg_records := map ?f (lg_records ?l) \<rparr>"
    by (simp add: fold_ledger_snoc settle_step [OF ok e])
  have "scope_ok (map ?f line)" if line: "line \<in> set lines" for line
  proof -
    have sc: "scope_ok line" using line lines(2) by (simp add: lines_ok_def)
    have "followed (map ?f line)"
      using sc followed_map [of ?f, OF settle_same]
      by (simp add: scope_ok_def settle_at_def settle_record_def)
    moreover have "one_nonce (map ?f line)"
    proof (rule one_nonce_map [OF settle_same])
      show "may_have_acted r" if r: "r \<in> set line" "may_have_acted (?f r)" for r
        by (rule settle_acted [OF _ ns r(2)]) (use r(1) line lines(1) in auto)
      show "one_nonce line" using sc by (simp add: scope_ok_def)
    qed
    ultimately show ?thesis using sc by (simp add: scope_ok_def linked_map [OF settle_same])
  qed
  then have "lines_ok k (es @ [e]) (map (map ?f) lines)"
    by (rule lines_map [OF lines(2) settle_same])
  moreover have "sends_under k (fold_ledger (es @ [e])) = concat (map (map ?f) lines)"
    unfolding l' sends_map [OF settle_same] by (simp add: lines(1) map_concat)
  ultimately show ?thesis
    using inv ledger_ok_map [OF ok settle_same] settle_same
    unfolding journal_inv_def l' by (auto simp: same_record_def)
qed

lemma other_inv:
  assumes inv: "journal_inv k es"
    and e: "\<And>p. ev_payload e \<noteq> Send_Intent_Recorded p" "\<And>p. ev_payload e \<noteq> Send_Intent_Settled p"
  shows "journal_inv k (es @ [e])"
proof -
  have l': "fold_ledger (es @ [e]) = fold_ledger es"
    using e by (cases "ev_payload e") (auto simp: fold_ledger_snoc ledger_step_def)
  obtain lines where lines: "sends_under k (fold_ledger es) = concat lines" "lines_ok k es lines"
    using inv unfolding journal_inv_def by blast
  have "lines_ok k (es @ [e]) (map (map id) lines)"
    by (rule lines_map [OF lines(2)]) (use lines(2) in \<open>auto simp: same_record_def lines_ok_def\<close>)
  then show ?thesis using inv lines(1) unfolding journal_inv_def l' by auto
qed

subsection \<open>What the scope floor has passed\<close>

lemma fold_min_le: "x \<in> set (q # qs) \<Longrightarrow> foldl min q qs \<le> (x :: nat)"
proof (induction qs arbitrary: q x)
  case (Cons a qs)
  have "foldl min (min q a) qs \<le> min q a" by (rule Cons.IH) simp
  moreover have "foldl min (min q a) qs \<le> x" if "x \<in> set qs" by (rule Cons.IH) (use that in simp)
  ultimately show ?case using Cons.prems by auto
qed simp

lemma effective_confirmed: "is_confirmed (effective_state alive now r) \<Longrightarrow> is_confirmed (ir_state r)"
  by (auto simp: effective_state_def is_confirmed_def split: intent_state.splits option.splits)

text \<open>A send that is not open is settled: one record under its nonce is confirmed, or all are not sent.\<close>

lemma closed_send:
  assumes "\<not> open_send alive now l r" "r \<in> set (chain_of l r)"
  shows "is_not_sent (ir_state r)
    \<or> (\<exists>m\<in>set (chain_of l r). ir_nonce m = ir_nonce r \<and> is_confirmed (ir_state m))"
proof -
  let ?v = "send_verdict alive now l r"
  have mem: "r \<in> set (send_of l r)" using assms(2) by (simp add: send_of_def)
  then have "send_of l r \<noteq> []" by auto
  note v = members_verdict_cases [OF this, of alive now r, folded send_verdict_def]
  consider "is_confirmed (cv_state ?v)" | "is_not_sent (cv_state ?v)"
    using assms(1) state_cases [of "cv_state ?v"] by (auto simp: open_send_def Let_def)
  then show ?thesis
  proof cases
    case 1
    then have "is_confirmed (ir_state (cv_member ?v))" using v effective_confirmed by metis
    then show ?thesis using v by (auto simp: send_of_def)
  next
    case 2
    then show ?thesis using v mem by blast
  qed
qed

lemma floor_passed:
  assumes r: "ir_key r = k" "r \<in> set (lg_records (fold_ledger es))"
    and chain: "r \<in> set (chain_of (fold_ledger es) r)"
      "set (chain_of (fold_ledger es) r) \<subseteq> set (sends_under k (fold_ledger es))"
    and below: "ir_seq r < effect_scope_floor alive now es (fold_ledger es) (key_exec k)"
  shows "effect_over k es r"
proof (cases "ik_item k")
  case None
  then obtain x where "find (succeeded_finish (ik_node k)) (rev es) = Some x" "ir_seq r \<le> ev_seq x"
    using below by (auto simp: effect_scope_floor_def key_exec_def split: option.splits)
  then have "x \<in> set es" "succeeded_finish (ik_node k) x" "ir_seq r \<le> ev_seq x"
    using find_member [of "succeeded_finish (ik_node k)" "rev es" x] by simp_all
  then show ?thesis using None by (auto simp: effect_over_def succeeded_finish_def split: event_payload.splits)
next
  case (Some i)
  let ?l = "fold_ledger es" and ?P = "\<lambda>e. passed_item (ik_node k) e = Some i"
  have b: "ir_seq r < item_scope_floor alive now ?l (key_exec k)
      (case find ?P (rev es) of Some e \<Rightarrow> ev_seq e + 1 | None \<Rightarrow> 0)"
    using below Some by (simp add: effect_scope_floor_def key_exec_def)
  then obtain x where f: "find ?P (rev es) = Some x"
    by (cases "find ?P (rev es)") (simp_all add: item_scope_floor_def)
  then have x: "find ?P (rev es) = Some x"
    "ir_seq r < item_scope_floor alive now ?l (key_exec k) (ev_seq x + 1)" using b by simp_all
  have px: "x \<in> set es" "passed_item (ik_node k) x = Some i" using find_member [OF x(1)] by simp_all
  let ?qs = "map ir_seq (filter (\<lambda>r. ir_seq r < ev_seq x + 1 \<and> key_exec (ir_key r) = key_exec k
      \<and> open_send alive now ?l r) (lg_records ?l))"
  have le: "ir_seq r \<le> ev_seq x"
    using x(2) by (auto simp: item_scope_floor_def split: list.splits)
  have "\<not> open_send alive now ?l r"
  proof
    assume "open_send alive now ?l r"
    then have q: "ir_seq r \<in> set ?qs" using r le by auto
    then have "?qs \<noteq> []" by (metis empty_iff list.set(1))
    then obtain a qs where a: "?qs = a # qs" by (cases ?qs) simp_all
    have "foldl min a qs \<le> ir_seq r" by (rule fold_min_le, rule subst [OF a, of "\<lambda>ys. ir_seq r \<in> set ys"], rule q)
    then show False using x(2) a by (simp add: item_scope_floor_def)
  qed
  from closed_send [OF this chain(1)] have "is_not_sent (ir_state r)
      \<or> (\<exists>m\<in>set (lg_records ?l). ir_key m = k \<and> ir_nonce m = ir_nonce r \<and> is_confirmed (ir_state m))"
    using chain(2) by (auto simp: sends_under_def)
  then show ?thesis using Some px le
    by (auto simp: effect_over_def passed_item_def split: event_payload.splits if_splits)
qed

subsection \<open>Sends\<close>

lemma admitted_cases:
  assumes "admitted fresh fresh_id pid d a = Some n"
  shows "ni_id n = sr_intent (ni_payload n) \<and> key_of (ni_payload n) = dt_key d \<and> one_link (ni_payload n)
    \<and> ((\<exists>x. a = Admit_New x \<and> link_to (ni_payload n) = x)
       \<or> (\<exists>t. a = Admit_Replay t (sr_nonce (ni_payload n)) \<and> link_to (ni_payload n) = Some t))"
  using assms
  by (cases a) (auto simp: admitted_def Let_def key_of_def one_link_def link_to_def)

text \<open>What an admission that sends says, when its key's latest intent is \<open>tip\<close>.\<close>

lemma admit_tip:
  assumes a: "admit alive es q = Admit_New x \<or> admit alive es q = Admit_Replay y nonce"
    and tip: "latest_intent (fold_ledger es) (aq_key q)
      (effect_scope_floor alive (aq_now_ms q) es (fold_ledger es) (key_exec (aq_key q))) = Some tip"
  shows "admit alive es q = Admit_New (Some (ir_id tip)) \<and>
      (aq_on_unknown q = Unknown_Resend \<or> (\<forall>m\<in>set (chain_of (fold_ledger es) tip). is_not_sent (ir_state m)))
    \<or> (\<exists>m\<in>set (chain_of (fold_ledger es) tip). \<not> is_not_sent (ir_state m)
        \<and> admit alive es q = Admit_Replay (ir_id tip) (ir_nonce m))"
proof -
  let ?l = "fold_ledger es" and ?now = "aq_now_ms q"
  let ?v = "chain_verdict_of alive ?now ?l tip"
  have ad: "admit alive es q = admit_chain alive ?l tip q"
    using a tip by (auto simp: admit_def Let_def split: if_splits)
  have "chain_of ?l tip \<noteq> []" by (simp add: chain_of_def chain_from_nonempty)
  note v = members_verdict_cases [OF this, of alive ?now tip, folded chain_verdict_of_def]
  have member: "cv_member ?v \<in> set (chain_of ?l tip)" using v by blast
  show ?thesis
  proof (cases "cv_state ?v")
    case (Intent_Not_Sent s)
    then have "\<forall>m\<in>set (chain_of ?l tip). is_not_sent (ir_state m)" using v by (simp add: is_not_sent_def)
    then show ?thesis using ad Intent_Not_Sent by (simp add: admit_chain_def Let_def)
  next
    case (Intent_Unknown s dd)
    then have "\<not> is_not_sent (effective_state alive ?now (cv_member ?v))"
      using v by (simp add: is_not_sent_def)
    then have "\<not> is_not_sent (ir_state (cv_member ?v))" by (simp add: effective_not_sent)
    then show ?thesis using a member Intent_Unknown unfolding ad
      by (auto simp: admit_chain_def Let_def decide_unknown_def split: idempotency_mode.splits if_splits)
  qed (use a ad in \<open>auto simp: admit_chain_def Let_def\<close>)
qed

lemma admit_no_tip:
  assumes "admit alive es q = Admit_New x \<or> admit alive es q = Admit_Replay y nonce"
    and "latest_intent (fold_ledger es) (aq_key q)
      (effect_scope_floor alive (aq_now_ms q) es (fold_ledger es) (key_exec (aq_key q))) = None"
  shows "admit alive es q = Admit_New None"
  using assms by (auto simp: admit_def Let_def split: if_splits)

lemma latest_in: "latest_intent l k q = Some tip \<Longrightarrow> tip \<in> set (lg_records l) \<and> ir_key tip = k"
  using find_member [of "\<lambda>r. q \<le> ir_seq r \<and> ir_key r = k" "rev (lg_records l)" tip]
  by (simp add: latest_intent_def)

lemma mark_other: "tip \<noteq> Some (ir_id r) \<Longrightarrow> mark intent tip r = r"
  by (simp add: mark_def)

lemma mark_state [simp]: "ir_state (mark intent tip r) = ir_state r"
  by (simp add: mark_def)

text \<open>A line gains the repeat that links to its last member.\<close>

lemma line_grows:
  assumes ok: "ledger_ok l" and sc: "scope_ok rs" "rs \<noteq> []" "set rs \<subseteq> set (lg_records l)"
      "sorted_wrt (<) (map ir_seq rs)"
    and new: "link_of new = Some (ir_id (last rs))" "ir_superseded_by new = None" "ir_id new = intent"
    and nonce: "(\<forall>r\<in>set rs. is_not_sent (ir_state r)) \<or> (\<exists>m\<in>set rs. may_have_acted m \<and> ir_nonce new = ir_nonce m)"
  shows "scope_ok (map (mark intent (Some (ir_id (last rs)))) rs @ [new])"
proof -
  let ?f = "mark intent (Some (ir_id (last rs)))"
  obtain us t where rs: "rs = us @ [t]" using sc(2) by (metis append_butlast_last_id)
  have ne: "ir_id t \<noteq> ir_id r" if "r \<in> set us" for r
  proof
    assume "ir_id t = ir_id r"
    then have "r = t" using ledger_ok_id [OF ok] sc(3) that rs by auto
    then show False using sc(4) that rs by (auto simp: sorted_wrt_append)
  qed
  have "map ?f us = us" by (rule map_idI, rule mark_other) (simp add: rs ne)
  then have m: "map ?f rs = us @ [t\<lparr> ir_superseded_by := Some intent \<rparr>]" by (simp add: rs mark_def)
  have "followed (map ?f rs @ [new])"
    unfolding m using followed_snoc [of us t new "t\<lparr> ir_superseded_by := Some intent \<rparr>"] sc(1) new(2,3)
    by (simp add: rs scope_ok_def)
  moreover have "linked None (map ?f rs @ [new])"
    using sc(1) new(1) mark_same by (simp add: linked_snoc linked_map scope_ok_def last_map sc(2) same_record_def)
  moreover have "one_nonce (map ?f rs @ [new])"
  proof -
    have same: "ir_nonce (?f r) = ir_nonce r \<and> (may_have_acted (?f r) \<longleftrightarrow> may_have_acted r)" for r
      using mark_same [of r] by (simp add: same_record_def may_have_acted_def)
    have on: "ir_nonce a = ir_nonce b" if "a \<in> set rs" "b \<in> set rs" "may_have_acted a" "may_have_acted b" for a b
      using sc(1) that unfolding scope_ok_def one_nonce_def by blast
    have nn: "ir_nonce a = ir_nonce new" if "a \<in> set rs" "may_have_acted a" for a
      using nonce on [OF that(1)] that by (metis may_have_acted_def)
    show ?thesis unfolding one_nonce_def
      by (intro ballI impI) (use same on nn in \<open>auto simp del: mark_state\<close>)
  qed
  ultimately show ?thesis by (simp add: scope_ok_def)
qed

lemma concat_last: "lines \<noteq> [] \<Longrightarrow> last lines \<noteq> [] \<Longrightarrow> last (concat lines) = last (last lines)"
  by (cases lines rule: rev_cases) auto

text \<open>A send of \<open>k\<close>, by what its admission found as the latest intent of the scope.\<close>

lemma grown_lines:
  assumes ok: "ledger_ok (fold_ledger es)"
    and lines: "sends_under k (fold_ledger es) = concat lines" "lines_ok k es lines"
    and tip: "latest_intent (fold_ledger es) k
        (effect_scope_floor alive now es (fold_ledger es) (key_exec k)) = tip"
    and new: "link_of new = map_option ir_id tip" "ir_superseded_by new = None" "ir_id new = i"
    and fresh: "i \<notin> ir_id ` set (lg_records (fold_ledger es))"
    and nonce: "\<And>t. tip = Some t \<Longrightarrow> (\<forall>m\<in>set (chain_of (fold_ledger es) t). is_not_sent (ir_state m))
        \<or> (\<exists>m\<in>set (chain_of (fold_ledger es) t). may_have_acted m \<and> ir_nonce new = ir_nonce m)"
  shows "\<exists>lines'. map (mark i (map_option ir_id tip)) (sends_under k (fold_ledger es)) @ [new] = concat lines'
      \<and> lines_ok k (es @ [e]) lines'"
proof -
  let ?l = "fold_ledger es" and ?rs = "sends_under k (fold_ledger es)" and ?f = "mark i (map_option ir_id tip)"
  let ?q = "effect_scope_floor alive now es ?l (key_exec k)"
  have sub: "set line \<subseteq> set (lg_records ?l)" if "line \<in> set lines" for line
    using that lines(1) sends_sub [of k ?l] by auto
  have sorted: "sorted_wrt (<) (map ir_seq line)" if line: "line \<in> set lines" for line
  proof -
    obtain as bs where "lines = as @ line # bs" using split_list [OF line] by blast
    then show ?thesis using sends_sorted [OF ok, of k] lines(1) by (simp add: sorted_wrt_append)
  qed
  have chain: "chain_of ?l r = line" if "line \<in> set lines" "r \<in> set line" for r line
    by (rule line_chain [OF ok _ _ that(2) sub sorted]) (use that lines(2) in \<open>auto simp: lines_ok_def scope_ok_def\<close>)
  have member: "\<exists>line\<in>set lines. r \<in> set line" if "r \<in> set ?rs" for r using that lines(1) by simp
  have tip': "tip = (if ?rs = [] \<or> ir_seq (last ?rs) < ?q then None else Some (last ?rs))"
    using latest_send [OF ok, of k ?q] tip by (simp add: Let_def)
  show ?thesis
  proof (cases tip)
    case None
    have over: "effect_over k es r" if r: "r \<in> set ?rs" for r
    proof -
      obtain line where line: "line \<in> set lines" "r \<in> set line" using member [OF r] by blast
      have rs: "?rs \<noteq> []" using r by (metis empty_iff list.set(1))
      have "ir_seq r \<le> ir_seq (last ?rs)"
        using sends_sorted [OF ok, of k] r by (cases ?rs rule: rev_cases) (auto simp: sorted_wrt_append)
      moreover have "ir_seq (last ?rs) < ?q" using None tip' rs by (simp split: if_splits)
      ultimately have "ir_seq r < ?q" by simp
      then show ?thesis
        by (intro floor_passed [of r k es alive now])
          (use r line chain [OF line] lines(1) in \<open>auto simp: sends_under_def\<close>)
    qed
    have "over_between k (es @ [e]) (ir_id r) i" if r: "r \<in> set ?rs" for r
      unfolding over_between_def
      by (rule exI [of _ es], rule exI [of _ "[e]"], rule exI [of _ r])
        (use over [OF r] fresh r sends_sub [of k ?l] in auto)
    then have "\<forall>a\<in>set lines. \<forall>r\<in>set a. \<forall>r'\<in>set [new]. over_between k (es @ [e]) (ir_id r) (ir_id r')"
      using lines(1) new(3) by auto
    moreover have "scope_ok [new]" using new(1,2) None by (simp add: scope_ok_def one_nonce_def)
    ultimately have "lines_ok k (es @ [e]) (lines @ [[new]])"
      using lines_extend [OF lines(2)] by (simp add: lines_snoc)
    moreover have "map ?f ?rs = ?rs" by (rule map_idI, rule mark_other) (simp add: None)
    ultimately show ?thesis using lines(1) by (intro exI [of _ "lines @ [[new]]"]) simp
  next
    case (Some t)
    then have t: "t = last ?rs" "?rs \<noteq> []" using tip' by (simp_all split: if_splits)
    then have ne: "lines \<noteq> []" using lines(1) by auto
    obtain as line where as: "lines = as @ [line]" using ne by (cases lines rule: rev_cases) auto
    have line: "line \<in> set lines" "line \<noteq> []" "scope_ok line" using as lines(2) by (auto simp: lines_ok_def)
    have tl: "t = last line" using t(1) lines(1) as line(2) by simp
    have c: "chain_of ?l t = line" by (rule chain [OF line(1)]) (simp add: tl line(2))
    have f: "?f = mark i (Some (ir_id (last line)))" using Some tl by simp
    have grown: "scope_ok (map ?f line @ [new])" unfolding f
      by (rule line_grows [OF ok line(3,2) sub [OF line(1)] sorted [OF line(1)]])
        (use new Some tl nonce [OF Some] c in auto)
    have others: "map ?f a = a" if a: "a \<in> set as" for a
    proof (rule map_idI, rule mark_other)
      fix r
      assume r: "r \<in> set a"
      have "r \<in> set (lg_records ?l)" "t \<in> set (lg_records ?l)"
        using sub [of a] sub [OF line(1)] a r as tl line(2) by auto
      moreover have "ir_seq r < ir_seq t"
        using sends_sorted [OF ok, of k] lines(1) as a r tl line(2) by (auto simp: sorted_wrt_append)
      ultimately show "map_option ir_id tip \<noteq> Some (ir_id r)" using ledger_ok_id [OF ok] Some by fastforce
    qed
    have ids: "ir_id (?f r) = ir_id r" for r by (simp add: mark_def)
    have past: "over_between k (es @ [e]) (ir_id r) i" if r: "a \<in> set as" "r \<in> set a" for a r
    proof -
      obtain h where "h \<in> set line" using line(2) by (cases line) auto
      then have "over_between k es (ir_id r) (ir_id h)"
        using lines(2) r as by (auto simp: lines_ok_def sorted_wrt_append)
      then obtain us vs r0 where "es = us @ vs" "r0 \<in> set (lg_records (fold_ledger us))" "ir_id r0 = ir_id r"
        "effect_over k us r0" unfolding over_between_def by blast
      moreover have "i \<notin> ir_id ` set (lg_records (fold_ledger us))"
        using fresh ledger_ids_grow [of us vs] \<open>es = us @ vs\<close> by blast
      ultimately show ?thesis unfolding over_between_def
        by (intro exI [of _ us] exI [of _ "vs @ [e]"] exI [of _ r0]) simp
    qed
    have old: "lines_ok k (es @ [e]) (as @ [line])" using lines_extend [OF lines(2)] as by simp
    have "over_between k (es @ [e]) (ir_id r) (ir_id r')"
      if r: "a \<in> set as" "r \<in> set a" and r': "r' \<in> set (map ?f line @ [new])" for a r r'
    proof (cases "r' = new")
      case False
      then obtain m where "m \<in> set line" "r' = ?f m" using r' by auto
      then show ?thesis using old r ids by (simp add: lines_snoc)
    qed (use past [OF r] new(3) in simp)
    then have "lines_ok k (es @ [e]) (as @ [map ?f line @ [new]])"
      using old grown unfolding lines_snoc by blast
    moreover have "map ?f ?rs = concat as @ map ?f line"
      using others by (simp add: lines(1) as map_concat cong: map_cong)
    ultimately show ?thesis by (intro exI [of _ "as @ [map ?f line @ [new]]"]) simp
  qed
qed

lemma send_inv:
  assumes inv: "journal_inv k es" and e: "after_all es e" "ev_payload e = Send_Intent_Recorded (ni_payload n)"
    and q: "aq_key q = dt_key d" "aq_key q = k \<Longrightarrow> aq_on_unknown q = Unknown_Refuse"
    and n: "admitted fresh fresh_id pid d (admit alive es q) = Some n"
      "ni_id n \<notin> ir_id ` set (lg_records (fold_ledger es))"
  shows "journal_inv k (es @ [e])"
proof -
  let ?l = "fold_ledger es" and ?p = "ni_payload n" and ?l' = "ledger_step (fold_ledger es) e"
  let ?tip = "latest_intent ?l (aq_key q) (effect_scope_floor alive (aq_now_ms q) es ?l (key_exec (aq_key q)))"
  note ok = journal_invD(1) [OF inv] and less = journal_invD(2) [OF inv e(1)]
  note c = admitted_cases [OF n(1)]
  have key: "key_of ?p = aq_key q" and id: "sr_intent ?p = ni_id n" using c q(1) by auto
  have sends: "admit alive es q = Admit_New (link_to ?p) \<or> (\<exists>t. admit alive es q = Admit_Replay t (sr_nonce ?p))"
    using c by auto
  have link: "link_to ?p = map_option ir_id ?tip"
  proof (cases ?tip)
    case None
    then show ?thesis using admit_no_tip [OF _ None] sends c by auto
  next
    case (Some tip)
    have "admit alive es q = Admit_New (Some (ir_id tip)) \<or> (\<exists>m. admit alive es q = Admit_Replay (ir_id tip) m)"
      using admit_tip [OF _ Some] sends by blast
    then show ?thesis using c Some by auto
  qed
  have target: "set_option (link_to ?p) \<subseteq> ir_id ` set (lg_records ?l)"
    using latest_in [of ?l] by (cases ?tip) (auto simp: link)
  obtain new where new: "lg_records ?l' = map (mark (ni_id n) (link_to ?p)) (lg_records ?l) @ [new]"
    "lg_index ?l' = fmupd (ni_id n) (length (lg_records ?l)) (lg_index ?l)"
    "ir_id new = ni_id n" "ir_seq new = ev_seq e" "ir_key new = aq_key q" "ir_nonce new = sr_nonce ?p"
    "link_of new = link_to ?p" "ir_superseded_by new = None"
    using record_step [OF ok e(2) _ _ target] n(2) c unfolding key id by metis
  have ok': "ledger_ok ?l'"
    using ledger_ok_record [OF ok _ _ mark_same new(1)] new(2,3,4) n(2) less by simp
  obtain lines where lines: "sends_under k ?l = concat lines" "lines_ok k es lines"
    using inv unfolding journal_inv_def by blast
  let ?rs = "sends_under k ?l"
  have rs': "sends_under k ?l' = map (mark (ni_id n) (link_to ?p)) ?rs @ (if aq_key q = k then [new] else [])"
    using mark_same [of _ "ni_id n" "link_to ?p"] new(5)
    by (simp add: sends_under_def new(1) filter_map o_def same_record_def)
  have "\<exists>lines'. sends_under k ?l' = concat lines' \<and> lines_ok k (es @ [e]) lines'"
  proof (cases "aq_key q = k")
    case False
    have "mark (ni_id n) (link_to ?p) r = r" if r: "r \<in> set ?rs" for r
    proof (rule mark_other, cases ?tip)
      case (Some tip)
      then have "ir_key tip \<noteq> ir_key r" "tip \<in> set (lg_records ?l)"
        using latest_in [OF Some] False r by (auto simp: sends_under_def)
      then show "link_to ?p \<noteq> Some (ir_id r)"
        using ledger_ok_id [OF ok] r sends_sub [of k ?l] Some link by (metis option.inject option.map(2) subsetD)
    qed (simp add: link)
    then have "map (mark (ni_id n) (link_to ?p)) ?rs = ?rs" by (simp add: map_idI)
    moreover have "lines_ok k (es @ [e]) (map (map (\<lambda>r. r)) lines)"
      by (rule lines_map [OF lines(2)]) (use lines(2) in \<open>auto simp: same_record_def lines_ok_def\<close>)
    ultimately show ?thesis using rs' lines(1) False by auto
  next
    case True
    have nonce: "(\<forall>m\<in>set (chain_of ?l t). is_not_sent (ir_state m))
        \<or> (\<exists>m\<in>set (chain_of ?l t). may_have_acted m \<and> ir_nonce new = ir_nonce m)" if "?tip = Some t" for t
      using admit_tip [OF _ that] sends q(2) [OF True] unfolding new(6) may_have_acted_def by auto
    show ?thesis
      using grown_lines [OF ok lines refl _ new(8,3) n(2) nonce [unfolded True]] new(7) rs' True link
      by simp
  qed
  moreover have "\<exists>x\<in>set (es @ [e]). ev_seq x = ir_seq r" if "r \<in> set (lg_records ?l')" for r
    using that inv mark_same [of _ "ni_id n" "link_to ?p"] new(4)
    by (auto simp: new(1) journal_inv_def same_record_def)
  ultimately show ?thesis using ok' unfolding journal_inv_def fold_ledger_snoc by blast
qed

lemma journal_inv_holds: "send_journal k es \<Longrightarrow> journal_inv k es"
proof (induction rule: send_journal.induct)
  case start
  then show ?case
    by (auto simp: journal_inv_def fold_ledger_def empty_ledger_def ledger_ok_def sends_under_def lines_ok_def
        intro!: exI [of _ "[]"])
next
  case (send es e q d fresh fresh_id pid alive n)
  then show ?case using send_inv by blast
next
  case (settled es e p)
  then show ?case using settled_inv by blast
next
  case (other es e)
  then show ?case using other_inv by blast
qed

section \<open>Never a second blind send\<close>

text \<open>
  Two sends of one key that may both have acted carry one nonce, or the effect of the earlier one was
  over before the later one was recorded.
\<close>

lemma journal_one_nonce:
  assumes "send_journal k es"
    and r: "r \<in> set (lg_records (fold_ledger es))" "ir_key r = k"
    and r': "r' \<in> set (lg_records (fold_ledger es))" "ir_key r' = k" "ir_seq r \<le> ir_seq r'"
    and "\<not> is_not_sent (ir_state r)" "\<not> is_not_sent (ir_state r')"
  shows "ir_nonce r = ir_nonce r' \<or> over_between k es (ir_id r) (ir_id r')"
proof -
  let ?l = "fold_ledger es"
  have inv: "journal_inv k es" by (rule journal_inv_holds [OF assms(1)])
  note ok = journal_invD(1) [OF inv]
  obtain lines where lines: "sends_under k ?l = concat lines" "lines_ok k es lines"
    using inv unfolding journal_inv_def by blast
  have "r \<in> set (sends_under k ?l)" "r' \<in> set (sends_under k ?l)" using r r' by (simp_all add: sends_under_def)
  then obtain a b where ab: "a \<in> set lines" "r \<in> set a" "b \<in> set lines" "r' \<in> set b" using lines(1) by auto
  obtain us vs where us: "lines = us @ a # vs" using split_list [OF ab(1)] by blast
  consider "a = b" | "b \<in> set vs" | "b \<in> set us" using ab(3) us by auto
  then show ?thesis
  proof cases
    case 1
    have "one_nonce a" using lines(2) ab(1) by (simp add: lines_ok_def scope_ok_def)
    then show ?thesis using ab 1 assms(7,8) unfolding one_nonce_def may_have_acted_def by blast
  next
    case 2
    then show ?thesis using lines(2) us ab by (auto simp: lines_ok_def sorted_wrt_append)
  next
    case 3
    then have "ir_seq r' < ir_seq r"
      using sends_sorted [OF ok, of k] lines(1) us ab by (auto simp: sorted_wrt_append)
    then show ?thesis using r'(3) by simp
  qed
qed

definition demo_key :: intent_key where
  "demo_key = \<lparr> ik_node = ''mail'', ik_connector = ''c'', ik_function = ''f'', ik_account = ''a'',
     ik_label = ''l'', ik_item = None \<rparr>"

definition demo_query :: "u64 \<Rightarrow> admit_query" where
  "demo_query now = \<lparr> aq_key = demo_key, aq_mode = Mode_Key, aq_window_sec = 3600, aq_timeout_sec = 30,
     aq_on_unknown = Unknown_Refuse, aq_attempt_open = True, aq_now_ms = now \<rparr>"

definition demo_draft :: "u64 \<Rightarrow> intent_draft" where
  "demo_draft now = \<lparr> dt_key = demo_key, dt_mode = Mode_Key, dt_attempt = None, dt_attempt_seq = None,
     dt_timeout_sec = 30, dt_now_ms = now \<rparr>"

definition demo_send :: "string \<Rightarrow> string \<Rightarrow> u64 \<Rightarrow> event list \<Rightarrow> event list" where
  "demo_send fresh fresh_id now es =
     (case admitted fresh fresh_id 7 (demo_draft now) (admit (\<lambda>_. True) es (demo_query now)) of
        Some n \<Rightarrow> es @ [\<lparr> ev_seq = length es, ev_ts = 0, ev_payload = Send_Intent_Recorded (ni_payload n) \<rparr>]
      | None \<Rightarrow> es)"

definition demo_lost :: "event list \<Rightarrow> event list" where
  "demo_lost es = es @ [\<lparr> ev_seq = length es, ev_ts = 0, ev_payload = Send_Intent_Settled
     \<lparr> ss_intent = ''si-x'', ss_outcome = UNKNOWN, ss_source = ''response'', ss_detail = None,
       ss_effect_ref = None, ss_by = None \<rparr> \<rparr>]"

definition demo_journal :: "event list" where
  "demo_journal = demo_send ''n2'' ''y'' 1000 (demo_lost (demo_send ''n1'' ''x'' 0 []))"

lemmas demo_defs = demo_send_def demo_lost_def demo_query_def demo_draft_def demo_key_def admit_def
  admitted_def fold_ledger_def empty_ledger_def ledger_step_def record_intent_def effect_scope_floor_def
  key_exec_def latest_intent_def Let_def earlier_link_def first_nonce_ts_def

lemma demo_first:
  "demo_send ''n1'' ''x'' 0 [] = [\<lparr> ev_seq = 0, ev_ts = 0, ev_payload = Send_Intent_Recorded
     \<lparr> sr_intent = ''si-x'', sr_nonce = ''n1'', sr_node = ''mail'', sr_attempt = None, sr_attempt_seq = None,
       sr_connector = ''c'', sr_function = ''f'', sr_account = ''a'', sr_mode = ''key'', sr_label = ''l'',
       sr_pid = 7, sr_deadline_ms = saturating_add (saturating_add 0 (saturating_mul 30 1000)) DEADLINE_GRACE_MS,
       sr_replay_of = None, sr_resend_of = None, sr_item = None \<rparr> \<rparr>]"
  by (simp add: demo_defs idempotency_str_def)

definition demo_record :: intent_record where
  "demo_record = \<lparr> ir_id = ''si-x'', ir_seq = 0, ir_ts_ms = 0, ir_key = demo_key, ir_nonce = ''n1'',
     ir_mode = Mode_Key, ir_attempt = None, ir_attempt_seq = None, ir_replay_of = None, ir_resend_of = None,
     ir_nonce_ts_ms = 0, ir_state = Intent_Unknown ''response'' None, ir_settled_by = None,
     ir_superseded_by = None \<rparr>"

definition demo_after_loss :: "event list" where
  "demo_after_loss = demo_lost (demo_send ''n1'' ''x'' 0 [])"

lemma demo_lost_ledger:
  "fold_ledger demo_after_loss = \<lparr> lg_records = [demo_record], lg_index = fmupd ''si-x'' 0 fmempty \<rparr>"
  by (simp add: demo_after_loss_def demo_first)
    (simp add: demo_defs settle_record_def settled_state_def is_confirmed_def idempotency_parse_def
      demo_record_def UNKNOWN_def CONFIRMED_def NOT_SENT_def)

lemma demo_chain:
  "chain_of \<lparr> lg_records = [demo_record], lg_index = fmupd ''si-x'' 0 fmempty \<rparr> demo_record = [demo_record]"
proof -
  have "prev_of \<lparr> lg_records = [demo_record], lg_index = fmupd ''si-x'' 0 fmempty \<rparr> demo_record = None"
    "next_of \<lparr> lg_records = [demo_record], lg_index = fmupd ''si-x'' 0 fmempty \<rparr> demo_record = None"
    by (simp_all add: prev_of_def next_of_def link_of_def demo_record_def)
  then show ?thesis by (simp add: chain_of_def chain_root.simps [of _ demo_record] chain_from.simps [of _ demo_record])
qed

lemma demo_replay:
  "admit (\<lambda>_. True) demo_after_loss (demo_query 1000) = Admit_Replay ''si-x'' ''n1''"
proof -
  let ?l = "\<lparr> lg_records = [demo_record], lg_index = fmupd ''si-x'' 0 fmempty \<rparr>"
  have "effect_scope_floor (\<lambda>_. True) 1000 demo_after_loss ?l (key_exec demo_key) = 0"
    by (simp add: demo_after_loss_def demo_first)
      (simp add: demo_lost_def effect_scope_floor_def key_exec_def demo_key_def succeeded_finish_def)
  moreover have "latest_intent ?l demo_key 0 = Some demo_record"
    by (simp add: latest_intent_def demo_record_def)
  moreover have "chain_verdict_of (\<lambda>_. True) 1000 ?l demo_record
      = \<lparr> cv_state = Intent_Unknown ''response'' None, cv_member = demo_record \<rparr>"
    by (simp add: chain_verdict_of_def demo_chain members_verdict_def latest_state_def effective_state_def
        is_confirmed_def is_pending_def is_unknown_def) (simp add: demo_record_def)
  moreover have "decide_unknown demo_record demo_record (demo_query 1000) = Admit_Replay ''si-x'' ''n1''"
    by (simp add: decide_unknown_def demo_query_def demo_record_def saturating_add_def saturating_mul_def)
  ultimately show ?thesis
    unfolding admit_def demo_lost_ledger Let_def
    by (simp add: admit_chain_def demo_query_def)
qed

definition demo_repeat :: event where
  "demo_repeat = \<lparr> ev_seq = 2, ev_ts = 0, ev_payload = Send_Intent_Recorded
     \<lparr> sr_intent = ''si-y'', sr_nonce = ''n1'', sr_node = ''mail'', sr_attempt = None, sr_attempt_seq = None,
       sr_connector = ''c'', sr_function = ''f'', sr_account = ''a'', sr_mode = ''key'', sr_label = ''l'',
       sr_pid = 7, sr_deadline_ms = saturating_add (saturating_add 1000 (saturating_mul 30 1000)) DEADLINE_GRACE_MS,
       sr_replay_of = Some ''si-x'', sr_resend_of = None, sr_item = None \<rparr> \<rparr>"

lemma demo_repeat_eq: "demo_journal = demo_after_loss @ [demo_repeat]"
proof -
  have "demo_journal = demo_send ''n2'' ''y'' 1000 demo_after_loss"
    by (simp add: demo_journal_def demo_after_loss_def)
  also have "\<dots> = demo_after_loss @ [demo_repeat]"
    unfolding demo_send_def demo_replay
    by (simp add: admitted_def demo_draft_def demo_key_def demo_repeat_def idempotency_str_def Let_def)
      (simp add: demo_after_loss_def demo_first demo_lost_def)
  finally show ?thesis .
qed

lemma demo_ledger:
  "map ir_id (lg_records (fold_ledger demo_journal)) = [''si-x'', ''si-y'']"
  "\<forall>r\<in>set (lg_records (fold_ledger demo_journal)). ir_key r = demo_key \<and> \<not> is_not_sent (ir_state r)"
  unfolding demo_repeat_eq fold_ledger_snoc demo_lost_ledger
  by (simp_all add: ledger_step_def demo_repeat_def record_intent_def earlier_link_def Let_def
      supersede_def demo_record_def demo_key_def is_not_sent_def)

end
