(* ===== verification/Send_World.thy ===== *)
theory Send_World
  imports Send_Gate Send_Safety
begin

text \<open>
  The send-once gate under concurrency: any number of processes hold their own handles of one
  journal and interleave their appends: gates deciding sends, settlements of what was sent, a
  person's decisions, and every other record.  Each such execution is a journal of admitted sends,
  so what holds of those holds of it.
\<close>

definition plain_record :: "event_payload \<Rightarrow> bool" where
  "plain_record p \<longleftrightarrow>
     (\<forall>s. p \<noteq> Send_Intent_Recorded s) \<and> (\<forall>s. p \<noteq> Send_Intent_Settled s)"

definition new_ids_fresh :: "event list \<Rightarrow> call_error + decided \<Rightarrow> bool" where
  "new_ids_fresh es d \<longleftrightarrow>
     (case d of
        Inr x \<Rightarrow> (case dc_new x of
            Some n \<Rightarrow> ni_id n \<notin> ir_id ` set (lg_records (fold_ledger es)) | None \<Rightarrow> True)
      | Inl _ \<Rightarrow> True)"

definition keeps_not_sent :: "intent_key \<Rightarrow> event list \<Rightarrow> event_payload \<Rightarrow> bool" where
  "keeps_not_sent k es p \<longleftrightarrow>
     (case p of Send_Intent_Settled s \<Rightarrow> settles_not_sent (fold_ledger es) k s \<longrightarrow> ss_outcome s = NOT_SENT
      | _ \<Rightarrow> True)"

text \<open>
  What a process may append: a gate's decision (under a drawn id no record has, and refusing to
  resend an unknown send of \<open>k\<close>), a settlement (which does not contradict one that says not sent), a
  person's decision, any other record.
\<close>

inductive appends :: "intent_key \<Rightarrow> event list \<Rightarrow> build \<Rightarrow> bool" for k es where
  gate: "(gk = k \<Longrightarrow> gi_on_unknown g = Unknown_Refuse) \<Longrightarrow> new_ids_fresh es (decide_send env g idem mode gk es)
    \<Longrightarrow> appends k es (decide_build env g idem mode gk)"
| settle: "keeps_not_sent k es (settlement_payload st intent)
    \<Longrightarrow> appends k es (Plain (settlement_payload st intent))"
| resolve: "appends k es (resolve_build alive now intent sent note1 by1)"
| plain: "plain_record p \<Longrightarrow> appends k es (Plain p)"

inductive send_world :: "intent_key \<Rightarrow> log_state \<Rightarrow> bool" for k where
  start: "send_world k ([], [])"
| opened: "send_world k (file, hs) \<Longrightarrow> open_log file ts refuse = (h, file') \<Longrightarrow> send_world k (file', h # hs)"
| appended: "send_world k (file, hs) \<Longrightarrow> i < length hs \<Longrightarrow> appends k file b
    \<Longrightarrow> append_inner (hs ! i) file ts b = (h, file', ev) \<Longrightarrow> send_world k (file', hs[i := h])"

section \<open>Every execution is a journal of admitted sends\<close>

lemma send_world_log: "send_world k s \<Longrightarrow> log_reachable s"
proof (induction rule: send_world.induct)
  case start
  then show ?case by (rule log_reachable.start)
next
  case (opened "file" hs ts refuse h file')
  show ?case by (rule log_reachable.more [OF opened.IH log_step.open_handle [OF opened.hyps(2)]])
next
  case (appended "file" hs i b ts h file' ev)
  show ?case by (rule log_reachable.more [OF appended.IH log_step.append [OF appended.hyps(2,4)]])
qed

lemma plain_other:
  assumes "plain_record (ev_payload e)"
  shows "ev_payload e \<noteq> Send_Intent_Recorded p" "ev_payload e \<noteq> Send_Intent_Settled q"
  using assms
  by (auto simp: plain_record_def)

lemma journal_extends:
  assumes "send_journal k es" "seqs_increasing (es @ xs)" "\<forall>x\<in>set xs. plain_record (ev_payload x)"
  shows "send_journal k (es @ xs)"
  using assms(2,3)
proof (induction xs rule: rev_induct)
  case Nil
  then show ?case using assms(1) by simp
next
  case (snoc x xs)
  have inc: "seqs_increasing ((es @ xs) @ [x])" using snoc.prems(1) by simp
  have ih: "send_journal k (es @ xs)"
    using snoc.IH inc snoc.prems(2) by (simp add: seqs_increasing_def sorted_wrt_append)
  have "after_all (es @ xs) x" using inc by (auto simp: seqs_increasing_def sorted_wrt_append after_all_def)
  then have "send_journal k ((es @ xs) @ [x])"
    using ih plain_other [of x] snoc.prems(2) by (intro send_journal.other) auto
  then show ?case by simp
qed

lemma guard_line_plain: "ev_payload g = Deferred_Retry_Guard x \<or> ev_payload g = Run_Guard x \<Longrightarrow> plain_record (ev_payload g)"
  for x :: "string list"
  by (auto simp: plain_record_def)

text \<open>One append: the record itself, then guard lines.\<close>

lemma append_inner_shape:
  assumes "append_inner h file ts b = (h', file', ev)"
  shows "file' = file \<or> (\<exists>p e gs. (case b of Plain p \<Rightarrow> Some p | Decided decide \<Rightarrow> decide file) = Some p
    \<and> ev_payload e = p \<and> file' = file @ e # gs \<and> (\<forall>g\<in>set gs. plain_record (ev_payload g)))"
proof (cases "case b of Plain p \<Rightarrow> Some p | Decided decide \<Rightarrow> decide file")
  case None
  then show ?thesis using assms by (auto simp: append_inner_def)
next
  case (Some p)
  define h2 where "h2 = catch_up_deferrals file (if h_known_len h \<noteq> Some (length file) then resync_seq file h else h)"
  obtain gs where gs: "append_lines h2 ts p = \<lparr> ev_seq = h_next_seq h2, ev_ts = ts, ev_payload = p \<rparr> # gs"
    "\<forall>g\<in>set gs. \<not> is_checkpoint (ev_payload g) \<and> (\<exists>x. ev_payload g = Deferred_Retry_Guard x \<or> ev_payload g = Run_Guard x)"
    by (rule append_lines_shape)
  have "file' = file @ append_lines h2 ts p"
    using assms Some by (simp add: append_inner_def Let_def h2_def)
  moreover have "\<forall>g\<in>set gs. plain_record (ev_payload g)" using gs(2) guard_line_plain by blast
  ultimately show ?thesis
    using Some gs(1) by (intro disjI2 exI [of _ p] exI [of _ "\<lparr> ev_seq = h_next_seq h2, ev_ts = ts, ev_payload = p \<rparr>"]
        exI [of _ gs]) simp
qed

lemma decided_record:
  assumes "(case decide_build env g idem mode gk of Plain p \<Rightarrow> Some p | Decided decide \<Rightarrow> decide es) = Some p"
  obtains n b where "p = Send_Intent_Recorded (ni_payload n)" "dc_new b = Some n"
    "decide_send env g idem mode gk es = Inr b"
  using assms by (auto simp: decide_build_def split: sum.splits)

lemma decide_admits:
  assumes "decide_send env g idem mode gk es = Inr b" "dc_new b = Some n"
  shows "\<exists>bn. admitted (ge_nonce env) (ge_id_nonce env) (ge_pid env) (gate_draft env g mode gk bn)
    (admit (ge_alive env) es (gate_query env g idem mode gk (ab_may_send bn))) = Some n
    \<and> bn = bind_attempt es (gi_node g) (gi_claim g)"
  using assms by (auto simp: decide_send_def Let_def split: option.splits if_splits)

lemma root_member: "r \<in> set (lg_records l) \<Longrightarrow> chain_root l r \<in> set (lg_records l)"
proof (induction l r rule: chain_root.induct)
  case (1 l r)
  then show ?case
    by (subst chain_root.simps) (auto dest: prev_of_less split: option.split)
qed

lemma from_members: "r \<in> set (lg_records l) \<Longrightarrow> x \<in> set (chain_from l r) \<Longrightarrow> x \<in> set (lg_records l)"
proof (induction l r rule: chain_from.induct)
  case (1 l r)
  show ?case
  proof (cases "next_of l r")
    case None
    then have "chain_from l r = [r]" by (subst chain_from.simps) simp
    then show ?thesis using 1 by simp
  next
    case (Some n)
    then have "chain_from l r = r # chain_from l n" by (subst chain_from.simps) simp
    then show ?thesis using 1 Some next_of_less [OF Some] by auto
  qed
qed

lemma chain_members: "r \<in> set (lg_records l) \<Longrightarrow> x \<in> set (chain_of l r) \<Longrightarrow> x \<in> set (lg_records l)"
  unfolding chain_of_def using from_members root_member by blast

lemma resolve_keeps:
  assumes ok: "ledger_ok (fold_ledger es)"
    and p: "refuse_resolve alive now es intent = None"
  shows "\<not> settles_not_sent (fold_ledger es) k \<lparr> ss_intent = intent, ss_outcome = oc, ss_source = sc,
      ss_detail = dt, ss_effect_ref = er, ss_by = by1 \<rparr>"
proof
  let ?l = "fold_ledger es"
  assume "settles_not_sent ?l k \<lparr> ss_intent = intent, ss_outcome = oc, ss_source = sc,
      ss_detail = dt, ss_effect_ref = er, ss_by = by1 \<rparr>"
  then obtain r where r: "r \<in> set (lg_records ?l)" "ir_id r = intent" "is_not_sent (ir_state r)"
    by (auto simp: settles_not_sent_def)
  have get: "ledger_get ?l intent = Some r" using ledger_ok_get [OF ok r(1)] r(2) by simp
  let ?v = "send_verdict alive now ?l r"
  have v: "is_unknown (cv_state ?v)" "ir_id (cv_member ?v) = intent"
    using p get by (auto simp: refuse_resolve_def Let_def is_unknown_def split: intent_state.splits if_splits)
  have ne: "send_of ?l r \<noteq> []"
  proof
    assume "send_of ?l r = []"
    then have "cv_state ?v = ir_state r" by (simp add: send_verdict_def members_verdict_def latest_state_def)
    then show False using v(1) r(3) states_exclusive(1) by auto
  qed
  note mv = members_verdict_cases [OF ne, of alive now r]
  have "cv_member ?v \<in> set (lg_records ?l)"
    using mv chain_members [OF r(1)] by (auto simp: send_verdict_def send_of_def)
  then have "cv_member ?v = r" using ledger_ok_id [OF ok] r(1,2) v(2) by blast
  then have "cv_state ?v = effective_state alive now r" using mv by (simp add: send_verdict_def)
  then show False using v(1) r(3) effective_not_sent states_exclusive(1) by metis
qed

lemma appends_journal:
  assumes es: "send_journal k es" and inc: "seqs_increasing (es @ e # gs)"
    and b: "appends k es b" "(case b of Plain p \<Rightarrow> Some p | Decided decide \<Rightarrow> decide es) = Some (ev_payload e)"
    and gs: "\<forall>g\<in>set gs. plain_record (ev_payload g)"
  shows "send_journal k (es @ e # gs)"
proof -
  have after: "after_all es e" using inc by (auto simp: seqs_increasing_def sorted_wrt_append after_all_def)
  have "send_journal k (es @ [e])"
    using b(1)
  proof cases
    case (gate gk g env idem mode)
    obtain n d where n: "ev_payload e = Send_Intent_Recorded (ni_payload n)" "dc_new d = Some n"
      "decide_send env g idem mode gk es = Inr d"
      using b(2) gate(1) by (auto elim: decided_record)
    obtain bn where adm: "admitted (ge_nonce env) (ge_id_nonce env) (ge_pid env) (gate_draft env g mode gk bn)
        (admit (ge_alive env) es (gate_query env g idem mode gk (ab_may_send bn))) = Some n"
      using decide_admits [OF n(3,2)] by blast
    show ?thesis
    proof (rule send_journal.send [OF es after _ _ adm _ n(1)])
      show "ni_id n \<notin> ir_id ` set (lg_records (fold_ledger es))"
        using gate(3) n(2,3) by (simp add: new_ids_fresh_def)
    qed (use gate(2) in \<open>simp_all add: gate_query_def gate_draft_def\<close>)
  next
    case (settle st intent)
    have e: "ev_payload e = settlement_payload st intent" using b(2) settle(1) by simp
    then show ?thesis
      using settle(2) by (intro send_journal.settled [OF es after]) (auto simp: settlement_payload_def keeps_not_sent_def)
  next
    case (resolve alive now intent sent note1 by1)
    have r: "refuse_resolve alive now es intent = None"
      "ev_payload e = settlement_payload (person_settlement sent note1 by1) intent"
      using b(2) resolve by (simp_all add: resolve_build_def split: if_splits)
    have ok: "ledger_ok (fold_ledger es)" by (rule journal_invD(1) [OF journal_inv_holds [OF es]])
    show ?thesis
      by (rule send_journal.settled [OF es after r(2) [unfolded settlement_payload_def]])
        (use resolve_keeps [OF ok r(1)] in blast)
  next
    case (plain p)
    then show ?thesis using plain_other [of e] b(2) by (intro send_journal.other [OF es after]) auto
  qed
  then show ?thesis using journal_extends [of k "es @ [e]" gs] inc gs by simp
qed

lemma world_journal: "send_world k s \<Longrightarrow> send_journal k (fst s)"
proof (induction rule: send_world.induct)
  case start
  then show ?case by (simp add: send_journal.start)
next
  case (opened "file" hs ts refuse h file')
  have inc: "seqs_increasing file'"
    using log_reachable_ok [OF send_world_log [OF send_world.opened [OF opened.hyps]]]
    by (simp add: log_ok_def journal_ok_def)
  show ?case
  proof (cases "missing_guard file \<noteq> None \<and> refuse")
    case True
    then obtain ev where a: "append_inner (fresh_handle file) file ts
        (Decided (\<lambda>events. map_option Deferred_Retry_Guard (missing_guard events))) = (h, file', ev)"
      using opened.hyps(2) by (auto simp: open_log_def repair_guard_def Let_def split: prod.splits)
    from append_inner_shape [OF this] inc opened.IH show ?thesis
      using journal_extends [of k "file"] by (auto simp: plain_record_def)
  next
    case False
    then show ?thesis using opened by (auto simp: open_log_def Let_def)
  qed
next
  case (appended "file" hs i b ts h file' ev)
  have inc: "seqs_increasing file'"
    using log_reachable_ok [OF send_world_log [OF send_world.appended [OF appended.hyps]]]
    by (simp add: log_ok_def journal_ok_def)
  from append_inner_shape [OF appended.hyps(4)] show ?case
    using appends_journal [of k "file" _ _ b] appended.IH appended.hyps(3) inc by auto
qed

section \<open>Concurrent gates never send twice\<close>

text \<open>
  C28: however many processes call a connector at once, retry, crash, or settle late, the gate lets
  no effect act twice.  In every reachable journal of any number of handles whose appends interleave,
  take two recorded sends of one key that may both have acted (neither is settled as not sent).  They
  carry the same nonce, so the service can tell that they are one; or they are sends of two effects:
  before the later one was recorded the node of the earlier one had finished as succeeded, or its
  list item had passed with that send confirmed (under its nonce) or settled as not sent, so an item
  passed with its send still open starts no new effect.  This holds as long as the binding refuses to
  resend an unknown send, drawn ids are new, and nothing takes back a settlement that says not sent.
\<close>

theorem concurrent_gates_send_once:
  assumes "send_world k (file, hs)"
    and "r \<in> set (lg_records (fold_ledger file))" "ir_key r = k"
    and "r' \<in> set (lg_records (fold_ledger file))" "ir_key r' = k" "ir_seq r \<le> ir_seq r'"
    and "\<not> is_not_sent (ir_state r)" "\<not> is_not_sent (ir_state r')"
  shows "ir_nonce r = ir_nonce r'
    \<or> (\<exists>before rest r0. file = before @ rest \<and> r0 \<in> set (lg_records (fold_ledger before))
         \<and> ir_id r0 = ir_id r \<and> ir_id r' \<notin> ir_id ` set (lg_records (fold_ledger before))
         \<and> effect_over k before r0)"
  using journal_one_nonce [OF _ assms(2-8)] world_journal [OF assms(1)]
  unfolding over_between_def by simp

definition demo_function :: function_spec where
  "demo_function = \<lparr> fn_name = ''f'', fn_description = [], fn_read_only = False, fn_irreversible = False,
     fn_deprecated = None, fn_method = None, fn_url = None, fn_query = [], fn_headers = [], fn_body = None,
     fn_body_form = [], fn_args_schema = None, fn_text_args = [], fn_examples = [], fn_response_pick = [],
     fn_timeout_sec = 30, fn_mock = None, fn_smtp = None, fn_imap = None, fn_inbox = None,
     fn_idempotency = Some (Idem_Key None None 3600 None), fn_people = None \<rparr>"

definition demo_input :: send_input where
  "demo_input = \<lparr> gi_run = ''r-1'', gi_node = ''mail'', gi_connector = ''c'', gi_function_name = ''f'',
     gi_account = ''a'', gi_args = JNull, gi_dry_run = False, gi_intent = Some ''l'',
     gi_claim = \<lparr> cl_attempt = None, cl_token = None, cl_host_task = None, cl_item = None \<rparr>,
     gi_origin = Origin_Node, gi_on_unknown = Unknown_Refuse, gi_identity = None, gi_function = demo_function \<rparr>"

definition demo_env :: "string \<Rightarrow> string \<Rightarrow> u64 \<Rightarrow> gate_env" where
  "demo_env nonce idn now = \<lparr> ge_invalid_args = \<lambda>_ _. None, ge_args_label = \<lambda>_. [], ge_alive = \<lambda>_. True,
     ge_now_ms = now, ge_pid = 7, ge_nonce = nonce, ge_id_nonce = idn, ge_budget = \<lambda>_. None \<rparr>"

lemma demo_decides:
  assumes "\<forall>e\<in>set es. (\<forall>a. ev_payload e \<noteq> Attempt_Started a) \<and> (\<forall>n x. ev_payload e \<noteq> Node_Started n x)"
    and "admitted nonce idn 7 (demo_draft now) (admit (\<lambda>_. True) es (demo_query now)) = Some n"
  shows "\<exists>d. decide_send (demo_env nonce idn now) demo_input (Idem_Key None None 3600 None) Mode_Key demo_key es = Inr d
    \<and> dc_new d = Some n"
proof -
  have none: "rposition (key_started k) es = None" "rposition (node_started_of nd) es = None"
    "\<not> list_ex (item_attempt_of nd) es" for k nd
    using assms(1)
    by (auto simp: rposition_None key_started_def started_key_def node_started_of_def item_attempt_of_def list_ex_iff
        split: event_payload.splits)
  have b: "bind_attempt es (gi_node demo_input) (gi_claim demo_input)
      = \<lparr> ab_attempt = None, ab_attempt_seq = None, ab_floor = 0, ab_unit = Ungrounded, ab_open = True, ab_may_send = True \<rparr>"
    using none by (simp add: bind_attempt_def bind_visit_def demo_input_def)
  have q: "gate_query (demo_env nonce idn now) demo_input (Idem_Key None None 3600 None) Mode_Key demo_key True = demo_query now"
    by (simp add: gate_query_def demo_env_def demo_input_def demo_function_def demo_query_def window_sec_def)
  have d: "gate_draft (demo_env nonce idn now) demo_input Mode_Key demo_key
      \<lparr> ab_attempt = None, ab_attempt_seq = None, ab_floor = 0, ab_unit = Ungrounded, ab_open = True, ab_may_send = True \<rparr>
      = demo_draft now"
    by (simp add: gate_draft_def demo_env_def demo_input_def demo_function_def demo_draft_def)
  show ?thesis using assms(2) b q d by (simp add: decide_send_def Let_def demo_env_def)
qed

text \<open>A process that opens the journal and appends one record that is no checkpoint.\<close>

lemma world_appends:
  assumes "send_world k (file, hs)" "appends k file b"
    and p: "(case b of Plain p \<Rightarrow> Some p | Decided decide \<Rightarrow> decide file) = Some p" "\<not> is_checkpoint p"
  shows "\<exists>hs'. send_world k (file @ [\<lparr> ev_seq = h_next_seq (resync_seq file (fresh_handle file)), ev_ts = 0,
      ev_payload = p \<rparr>], hs')"
proof -
  let ?h = "resync_seq file (fresh_handle file)"
  have "catch_up_deferrals file ?h = ?h" by (simp add: catch_up_deferrals_def fresh_handle_def)
  moreover have "append_lines ?h 0 p = [\<lparr> ev_seq = h_next_seq ?h, ev_ts = 0, ev_payload = p \<rparr>]"
    using p(2) guarded_is_checkpoint [of p] by (auto simp: append_lines_def)
  moreover have "h_known_len (fresh_handle file) = None" by (simp add: fresh_handle_def)
  ultimately obtain h' ev where a: "append_inner (fresh_handle file) file 0 b
      = (h', file @ [\<lparr> ev_seq = h_next_seq ?h, ev_ts = 0, ev_payload = p \<rparr>], ev)"
    using p(1) by (simp add: append_inner_def Let_def)
  have "send_world k (file, fresh_handle file # hs)"
    by (rule send_world.opened [OF assms(1), of 0 False]) (simp add: open_log_def)
  from send_world.appended [OF this _ assms(2), of 0 0] a show ?thesis by auto
qed

lemma demo_world: "\<exists>hs. send_world demo_key (demo_journal, hs)"
proof -
  obtain n where n: "admitted ''n1'' ''x'' 7 (demo_draft 0) (admit (\<lambda>_. True) [] (demo_query 0)) = Some n"
    "ni_id n = ''si-x''" "demo_send ''n1'' ''x'' 0 []
      = [\<lparr> ev_seq = 0, ev_ts = 0, ev_payload = Send_Intent_Recorded (ni_payload n) \<rparr>]"
    by (simp add: demo_defs)
  obtain d where d: "decide_send (demo_env ''n1'' ''x'' 0) demo_input (Idem_Key None None 3600 None) Mode_Key demo_key [] = Inr d"
    "dc_new d = Some n"
    using demo_decides [of "[]", OF _ n(1)] by auto
  have refuse: "gi_on_unknown demo_input = Unknown_Refuse" by (simp add: demo_input_def)
  have "appends demo_key [] (decide_build (demo_env ''n1'' ''x'' 0) demo_input (Idem_Key None None 3600 None) Mode_Key demo_key)"
    using d by (intro appends.gate [OF refuse]) (simp_all add: new_ids_fresh_def fold_ledger_def empty_ledger_def)
  from world_appends [OF send_world.start this, of "Send_Intent_Recorded (ni_payload n)"] d
  obtain hs1 where w1: "send_world demo_key (demo_send ''n1'' ''x'' 0 [], hs1)"
    by (auto simp: decide_build_def n(3) is_checkpoint_def resync_seq_def last_seq_on_disk_def fresh_handle_def)
  define st where "st = \<lparr> st_outcome = UNKNOWN, st_source = ''response'', st_detail = None,
    st_effect_ref = None, st_by = None \<rparr>"
  have pay: "settlement_payload st ''si-x'' = Send_Intent_Settled \<lparr> ss_intent = ''si-x'', ss_outcome = UNKNOWN,
      ss_source = ''response'', ss_detail = None, ss_effect_ref = None, ss_by = None \<rparr>"
    by (simp add: settlement_payload_def st_def)
  have "appends demo_key (demo_send ''n1'' ''x'' 0 []) (Plain (settlement_payload st ''si-x''))"
    by (rule appends.settle)
      (simp add: pay keeps_not_sent_def settles_not_sent_def demo_first fold_ledger_def ledger_step_def record_intent_def
        empty_ledger_def earlier_link_def Let_def is_not_sent_def)
  from world_appends [OF w1 this, of "settlement_payload st ''si-x''"]
  obtain hs2 where w2: "send_world demo_key (demo_after_loss, hs2)"
    by (auto simp: pay demo_after_loss_def demo_lost_def demo_first is_checkpoint_def resync_seq_def
        last_seq_on_disk_def fresh_handle_def)
  obtain m where m: "admitted ''n2'' ''y'' 7 (demo_draft 1000) (admit (\<lambda>_. True) demo_after_loss (demo_query 1000)) = Some m"
    "ni_id m = ''si-y''" "ev_payload demo_repeat = Send_Intent_Recorded (ni_payload m)"
  proof -
    obtain m where m: "admitted ''n2'' ''y'' 7 (demo_draft 1000) (Admit_Replay ''si-x'' ''n1'') = Some m"
      by (simp add: admitted_def Let_def)
    then have "ni_id m = ''si-y''" "ev_payload demo_repeat = Send_Intent_Recorded (ni_payload m)"
      by (auto simp: admitted_def demo_draft_def demo_key_def demo_repeat_def idempotency_str_def Let_def)
    then show ?thesis using m by (intro that) (simp_all add: demo_replay)
  qed
  have quiet: "\<forall>e\<in>set demo_after_loss. (\<forall>a. ev_payload e \<noteq> Attempt_Started a) \<and> (\<forall>n x. ev_payload e \<noteq> Node_Started n x)"
    by (simp add: demo_after_loss_def demo_lost_def demo_first)
  obtain c where c: "decide_send (demo_env ''n2'' ''y'' 1000) demo_input (Idem_Key None None 3600 None) Mode_Key demo_key
      demo_after_loss = Inr c" "dc_new c = Some m"
    using demo_decides [OF quiet m(1)] by auto
  have "appends demo_key demo_after_loss
      (decide_build (demo_env ''n2'' ''y'' 1000) demo_input (Idem_Key None None 3600 None) Mode_Key demo_key)"
    using c m(2) by (intro appends.gate [OF refuse]) (simp_all add: new_ids_fresh_def demo_lost_ledger demo_record_def)
  from world_appends [OF w2 this, of "Send_Intent_Recorded (ni_payload m)"] c
  obtain hs3 where w3: "send_world demo_key (demo_after_loss @ [\<lparr> ev_seq = h_next_seq (resync_seq demo_after_loss
      (fresh_handle demo_after_loss)), ev_ts = 0, ev_payload = Send_Intent_Recorded (ni_payload m) \<rparr>], hs3)"
    by (auto simp: decide_build_def is_checkpoint_def)
  have "h_next_seq (resync_seq demo_after_loss (fresh_handle demo_after_loss)) = 2"
    by (simp add: demo_after_loss_def demo_lost_def demo_first resync_seq_def last_seq_on_disk_def fresh_handle_def)
  moreover have "ev_seq demo_repeat = 2" "ev_ts demo_repeat = 0" by (simp_all add: demo_repeat_def)
  ultimately have "\<lparr> ev_seq = h_next_seq (resync_seq demo_after_loss (fresh_handle demo_after_loss)), ev_ts = 0,
      ev_payload = Send_Intent_Recorded (ni_payload m) \<rparr> = demo_repeat"
    using m(3) by (intro event.equality) simp_all
  then show ?thesis using w3 unfolding demo_repeat_eq by auto
qed

lemma demo_never_over: "demo_journal = before @ rest \<Longrightarrow> \<not> effect_over demo_key before r"
  by (auto simp: effect_over_def demo_repeat_eq demo_after_loss_def demo_first demo_lost_def demo_repeat_def
      demo_key_def append_eq_Cons_conv Cons_eq_append_conv)

lemma concurrent_gates_send_once_witness:
  "(\<exists>hs. send_world demo_key (demo_journal, hs))
   \<and> (\<exists>r r'. lg_records (fold_ledger demo_journal) = [r, r'] \<and> ir_id r \<noteq> ir_id r' \<and> ir_nonce r = ir_nonce r')"
proof -
  obtain hs where hs: "send_world demo_key (demo_journal, hs)" using demo_world by blast
  obtain r r' where rr: "lg_records (fold_ledger demo_journal) = [r, r']" "ir_id r = ''si-x''" "ir_id r' = ''si-y''"
    using demo_ledger(1) by (auto simp: map_eq_Cons_conv)
  have "ledger_ok (fold_ledger demo_journal)"
    using journal_invD(1) [OF journal_inv_holds [OF world_journal [OF hs]]] by simp
  then have "ir_seq r \<le> ir_seq r'" using rr(1) by (simp add: ledger_ok_def)
  then have "ir_nonce r = ir_nonce r'"
    using concurrent_gates_send_once [OF hs, of r r'] demo_ledger(2) rr(1) demo_never_over by auto
  then show ?thesis using demo_world rr by auto
qed

section \<open>What a person may decide\<close>

definition index_names :: "ledger \<Rightarrow> bool" where
  "index_names l \<longleftrightarrow> (\<forall>i at. fmlookup (lg_index l) i = Some at \<longrightarrow>
     at < length (lg_records l) \<and> ir_id (lg_records l ! at) = i)"

lemma supersede_names: "index_names l \<Longrightarrow> index_names (supersede intent l i) \<and> lg_index (supersede intent l i) = lg_index l
    \<and> length (lg_records (supersede intent l i)) = length (lg_records l)"
  by (auto simp: supersede_def index_names_def nth_list_update split: option.splits)

lemma supersedes_names:
  "index_names l \<Longrightarrow> index_names (foldl (supersede intent) l is) \<and> lg_index (foldl (supersede intent) l is) = lg_index l
    \<and> length (lg_records (foldl (supersede intent) l is)) = length (lg_records l)"
  by (induction "is" arbitrary: l) (simp_all add: supersede_names)

lemma push_names:
  assumes "index_names l" "ir_id new = i"
  shows "index_names \<lparr> lg_records = lg_records l @ [new], lg_index = fmupd i (length (lg_records l)) (lg_index l) \<rparr>"
  using assms by (auto simp: index_names_def nth_append intro!: less_SucI)

lemma step_names:
  assumes "index_names l"
  shows "index_names (ledger_step l e)"
proof (cases "ev_payload e")
  case (Send_Intent_Recorded p)
  have "index_names (foldl (supersede (sr_intent p)) l is)" for "is" using supersedes_names [OF assms] by blast
  then show ?thesis
    unfolding ledger_step_def Send_Intent_Recorded event_payload.case record_intent_def Let_def
    by (rule push_names) simp
next
  case (Send_Intent_Settled p)
  have "ir_id (settle_record r p) = ir_id r" for r by (simp add: settle_record_def)
  then show ?thesis using Send_Intent_Settled assms
    by (auto simp: ledger_step_def index_names_def nth_list_update split: option.splits)
qed (use assms in \<open>simp_all add: ledger_step_def\<close>)

lemma fold_names: "index_names (fold_ledger es)"
proof (induction es rule: rev_induct)
  case Nil
  then show ?case by (simp add: fold_ledger_def empty_ledger_def index_names_def)
next
  case (snoc e es)
  then show ?case using step_names by (simp add: fold_ledger_snoc)
qed

text \<open>
  C31: the sends shown to a person as open are exactly the ones a person may decide.  In any
  journal, duplicated ids and broken links included, a decision on a send intent is accepted under
  the journal lock exactly when the intent's record is the one that holds its send open: its send's
  verdict is unknown and names that record.
\<close>

theorem person_decides_open_sends:
  "refuse_resolve alive now es intent = None
    \<longleftrightarrow> (\<exists>r. ledger_get (fold_ledger es) intent = Some r \<and> holds_send_open alive now (fold_ledger es) r)"
proof -
  have "ir_id r = intent" if "ledger_get (fold_ledger es) intent = Some r" for r
    using that fold_names [of es] by (auto simp: ledger_get_def index_names_def split: option.splits if_splits)
  then show ?thesis
    by (auto simp: refuse_resolve_def holds_send_open_def Let_def is_unknown_def
        split: option.splits intent_state.splits if_splits)
qed

end
