(* ===== verification/Output_Contract.thy ===== *)
theory Output_Contract
  imports Validation Float64
begin

text \<open>
  The output contract of declared fields, \<^verbatim>\<open>apb-core/src/output_contract.rs\<close>, with the
  gate that applies it (\<^verbatim>\<open>output_contract_of\<close> and \<^verbatim>\<open>script_contract\<close> of
  \<^verbatim>\<open>scheduler/node.rs\<close>) and the fs an output leaves out
  (\<^verbatim>\<open>missing_output_fields\<close> of \<^verbatim>\<open>scheduler/cache.rs\<close>).  The JSON reader is an
  argument.  The lemmas give what an accepted output promises the edges that read it, and that a
  refusal's text depends on no value of the output.
\<close>

section \<open>Declared fs\<close>

datatype field_type = Type_String | Type_Number | Type_Bool | Type_Array | Type_Object | Type_Enum

record typed_field =
  tf_name :: string
  tf_kind :: "field_type option"
  tf_values :: "string list"
  tf_required :: bool

datatype field_decl = Field_Name string | Field_Typed typed_field

definition field_name :: "field_decl \<Rightarrow> string" where
  "field_name f = (case f of Field_Name n \<Rightarrow> n | Field_Typed t \<Rightarrow> tf_name t)"

definition field_typed :: "field_decl \<Rightarrow> typed_field option" where
  "field_typed f = (case f of Field_Name _ \<Rightarrow> None | Field_Typed t \<Rightarrow> Some t)"

definition field_names :: "field_decl list \<Rightarrow> string list" where
  "field_names fs = map field_name fs"

section \<open>Checking an output\<close>

definition OUTPUT_CONTRACT :: string where "OUTPUT_CONTRACT = ''output_contract''"

datatype field_problem =
    Problem_Not_Object
  | Problem_Missing
  | Problem_Wrong_Type field_type string
  | Problem_Not_In_Values string

record field_mismatch =
  mm_field :: string
  mm_problem :: field_problem

definition has_contract :: "field_decl list \<Rightarrow> bool" where
  "has_contract fs =
     list_ex (\<lambda>f. case field_typed f of Some t \<Rightarrow> tf_kind t \<noteq> None \<or> tf_required t | None \<Rightarrow> False) fs"

definition is_required_entry :: "field_decl \<Rightarrow> bool" where
  "is_required_entry f = (case field_typed f of Some t \<Rightarrow> tf_required t | None \<Rightarrow> False)"

definition json_kind :: "json \<Rightarrow> string" where
  "json_kind v =
     (case v of JNull \<Rightarrow> ''null'' | JBool _ \<Rightarrow> ''bool'' | JNumber _ _ _ \<Rightarrow> ''number''
      | JString _ \<Rightarrow> ''string'' | JArray _ \<Rightarrow> ''array'' | JObject _ \<Rightarrow> ''object'')"

definition is_container :: "json \<Rightarrow> bool" where
  "is_container v = (case v of JArray _ \<Rightarrow> True | JObject _ \<Rightarrow> True | _ \<Rightarrow> False)"

definition json_in :: "json_reader \<Rightarrow> json \<Rightarrow> json option" where
  "json_in J v =
     (if is_container v then Some v
      else case v of
             JString s \<Rightarrow> (case J s of Some w \<Rightarrow> if is_container w then Some w else None | None \<Rightarrow> None)
           | _ \<Rightarrow> None)"

text \<open>Whether a present value meets its declared kind, arm by arm of \<^verbatim>\<open>check_one\<close>.\<close>

definition kind_ok :: "json_reader \<Rightarrow> typed_field \<Rightarrow> field_type \<Rightarrow> json \<Rightarrow> bool" where
  "kind_ok J t k v =
     (case k of
        Type_String \<Rightarrow> (case v of JString _ \<Rightarrow> True | _ \<Rightarrow> False)
      | Type_Number \<Rightarrow> (case json_numeric J v of Some x \<Rightarrow> f64_is_finite x | None \<Rightarrow> False)
      | Type_Bool \<Rightarrow> (case v of JBool _ \<Rightarrow> True | JString s \<Rightarrow> s = ''true'' \<or> s = ''false'' | _ \<Rightarrow> False)
      | Type_Array \<Rightarrow> (case json_in J v of Some (JArray _) \<Rightarrow> True | _ \<Rightarrow> False)
      | Type_Object \<Rightarrow> (case json_in J v of Some (JObject _) \<Rightarrow> True | _ \<Rightarrow> False)
      | Type_Enum \<Rightarrow>
          (case (case v of JString s \<Rightarrow> Some s
                 | JBool b \<Rightarrow> Some (if b then ''true'' else ''false'')
                 | JNumber n _ _ \<Rightarrow> Some n
                 | _ \<Rightarrow> None) of
             Some txt \<Rightarrow> txt \<in> set (tf_values t)
           | None \<Rightarrow> False))"

definition check_one :: "json_reader \<Rightarrow> typed_field \<Rightarrow> json \<Rightarrow> field_mismatch list" where
  "check_one J t v =
     (case tf_kind t of
        None \<Rightarrow> []
      | Some k \<Rightarrow>
          if kind_ok J t k v then []
          else [\<lparr> mm_field = tf_name t,
                  mm_problem = (if k = Type_Enum then Problem_Not_In_Values (json_kind v)
                                else Problem_Wrong_Type k (json_kind v)) \<rparr>])"

definition check_field :: "json_reader \<Rightarrow> (string \<times> json) list \<Rightarrow> field_decl \<Rightarrow> field_mismatch list" where
  "check_field J kvs f =
     (case field_typed f of
        None \<Rightarrow> []
      | Some t \<Rightarrow>
          (let value = map_of kvs (tf_name t)
           in if value = None \<or> value = Some JNull
              then (if tf_required t then [\<lparr> mm_field = tf_name t, mm_problem = Problem_Missing \<rparr>] else [])
              else check_one J t (the value)))"

definition check_output :: "json_reader \<Rightarrow> field_decl list \<Rightarrow> string \<Rightarrow> field_mismatch list" where
  "check_output J fs output =
     (if \<not> has_contract fs then []
      else case Option.bind (J output) as_object of
             None \<Rightarrow>
               if list_ex is_required_entry fs
               then [\<lparr> mm_field = [], mm_problem = Problem_Not_Object \<rparr>] else []
           | Some kvs \<Rightarrow> concat (map (check_field J kvs) fs))"

section \<open>The reason of a refusal\<close>

definition want_phrase :: "field_type \<Rightarrow> string list \<Rightarrow> string" where
  "want_phrase want values =
     (case want of
        Type_String \<Rightarrow> ''a string''
      | Type_Number \<Rightarrow> ''a number''
      | Type_Bool \<Rightarrow> ''true or false''
      | Type_Array \<Rightarrow> ''a JSON array''
      | Type_Object \<Rightarrow> ''a JSON object''
      | Type_Enum \<Rightarrow> ''one of '' @ join_with '', '' (map ticked values))"

definition got_phrase :: "string \<Rightarrow> string" where
  "got_phrase got = (if got = ''array'' \<or> got = ''object'' then ''an '' else ''a '') @ got"

definition mismatch_text :: "field_decl list \<Rightarrow> field_mismatch \<Rightarrow> string" where
  "mismatch_text fs m =
     (case mm_problem m of
        Problem_Not_Object \<Rightarrow>
          ''the output is not a JSON object, so the required fields ''
          @ join_with '', '' (map (\<lambda>f. ticked (field_name f)) (filter is_required_entry fs))
          @ '' are missing''
      | Problem_Missing \<Rightarrow> ''field '' @ ticked (mm_field m) @ '' is required and missing''
      | Problem_Wrong_Type want got \<Rightarrow>
          ''field '' @ ticked (mm_field m) @ '' must be '' @ want_phrase want [] @ '', got '' @ got_phrase got
      | Problem_Not_In_Values got \<Rightarrow>
          (let values = (case Option.bind (find (\<lambda>f. field_name f = mm_field m) fs) field_typed of
                           Some t \<Rightarrow> map ticked (tf_values t) | None \<Rightarrow> [])
           in ''field '' @ ticked (mm_field m) @ '' must be one of '' @ join_with '', '' values
              @ '', got '' @ got_phrase got @ '' outside them''))"

definition contract_reason :: "field_decl list \<Rightarrow> field_mismatch list \<Rightarrow> string option" where
  "contract_reason fs ms =
     (if ms = [] then None
      else Some (OUTPUT_CONTRACT @ '': '' @ join_with ''; '' (map (mismatch_text fs) ms)))"

section \<open>Where the contract is applied\<close>

text \<open>The fields of a list item's \<^verbatim>\<open>item_outputs\<close>, else of the node's \<^verbatim>\<open>outputs\<close>.\<close>

definition output_contract_of :: "field_decl list option \<Rightarrow> field_decl list option \<Rightarrow> field_decl list" where
  "output_contract_of node_fields item_fields =
     (case item_fields of Some f1 \<Rightarrow> f1 | None \<Rightarrow> (case node_fields of Some f2 \<Rightarrow> f2 | None \<Rightarrow> []))"

definition script_contract ::
  "json_reader \<Rightarrow> field_decl list option \<Rightarrow> field_decl list option \<Rightarrow> bool \<Rightarrow> string \<Rightarrow> string option" where
  "script_contract J node_fields item_fields succeeded stdout =
     (if \<not> succeeded then None
      else (let fs = output_contract_of node_fields item_fields
            in contract_reason fs (check_output J fs stdout)))"

definition missing_output_fields :: "json_reader \<Rightarrow> field_decl list option \<Rightarrow> string \<Rightarrow> string list" where
  "missing_output_fields J node_fields output =
     (case node_fields of
        None \<Rightarrow> []
      | Some fs \<Rightarrow>
          (let parsed = Option.bind (J output) as_object
           in map field_name
                (filter (\<lambda>f. case parsed of
                     None \<Rightarrow> True
                   | Some o1 \<Rightarrow> map_of o1 (field_name f) = None \<or> map_of o1 (field_name f) = Some JNull)
                  fs)))"

section \<open>Facts\<close>

lemma contract_accepts [simp]: "(contract_reason fs ms = None) = (ms = [])"
  by (simp add: contract_reason_def)

lemma finite_not_nan: "f64_is_finite x \<Longrightarrow> \<not> f64_is_nan x"
proof -
  assume f: "f64_is_finite x"
  define m where "m = unat x mod 2 ^ 63"
  have "\<not> (unat x mod 2 ^ 63) div 2 ^ 52 = 2047"
  proof
    assume "(unat x mod 2 ^ 63) div 2 ^ 52 = 2047"
    then have "f64_decode x \<in> {Nan, Infinite (f64_sign x)}" unfolding f64_decode_def Let_def by (simp only: if_True) simp
    then show False using f by (auto simp: f64_is_finite_def)
  qed
  then have "m div 2 ^ 52 \<noteq> 2047" by (simp only: m_def not_False_eq_True)
  moreover have "m div 2 ^ 52 < 2048"
  proof (rule less_mult_imp_div_less)
    have "m < 2 ^ 63" unfolding m_def by (rule mod_less_divisor) simp
    then show "m < 2048 * 2 ^ 52" by (simp only: power_numeral) simp
  qed
  ultimately have "m div 2 ^ 52 < 2047" by linarith
  then have "m < 2047 * 2 ^ 52" by (simp only: div_less_iff_less_mult zero_less_power zero_less_numeral)
  then have "int m < int (2047 * 2 ^ 52)" by (simp only: of_nat_less_iff)
  then have "int m < 2047 * 2 ^ 52" by simp
  moreover have "f64_magnitude x = int m"
    by (simp only: f64_magnitude_def uint_nat zmod_int m_def of_nat_power of_nat_numeral)
  ultimately show ?thesis by (simp add: f64_is_nan_def)
qed

text \<open>An output a contract with a required field accepts is an object that meets every declaration.\<close>

lemma accepted_is_object:
  assumes "check_output J fs output = []" "Field_Typed t \<in> set fs" "tf_required t"
  obtains kvs v where "Option.bind (J output) as_object = Some kvs" "map_of kvs (tf_name t) = Some v" "v \<noteq> JNull"
    "check_one J t v = []"
proof -
  have c: "has_contract fs"
    using assms(2,3) by (force simp: has_contract_def list_ex_iff field_typed_def)
  have r: "list_ex is_required_entry fs"
    using assms(2,3) by (force simp: list_ex_iff is_required_entry_def field_typed_def)
  obtain kvs where k: "Option.bind (J output) as_object = Some kvs"
    using assms(1) c r by (auto simp: check_output_def split: option.splits)
  then have "check_field J kvs (Field_Typed t) = []"
    using assms(1,2) c by (auto simp: check_output_def)
  then show ?thesis
    using that [OF k] assms(3) by (auto simp: check_field_def field_typed_def Let_def split: if_splits)
qed

lemma accepted_present:
  assumes "contract_reason fs (check_output J fs output) = None" "Field_Typed t \<in> set fs" "tf_required t"
    and "tf_kind t = Some k"
  shows "\<exists>v. object_field J output (tf_name t) = Some v \<and> kind_ok J t k v"
proof -
  obtain kvs v where k: "Option.bind (J output) as_object = Some kvs" "map_of kvs (tf_name t) = Some v" "v \<noteq> JNull"
    "check_one J t v = []" using accepted_is_object [OF assms(1) [unfolded contract_accepts] assms(2,3)] .
  have "object_field J output (tf_name t) = Some v"
    using k(1,2) by (cases "J output") (auto simp: object_field_def)
  then show ?thesis using k(4) assms(4) by (auto simp: check_one_def split: if_splits)
qed

lemma accepted_enum:
  assumes "contract_reason fs (check_output J fs output) = None" "Field_Typed t \<in> set fs" "tf_required t"
    and "tf_kind t = Some Type_Enum"
  shows "\<exists>v\<in>set (tf_values t). output_field_matches J output (tf_name t) (Cmp_Equals v)"
proof -
  obtain v where v: "object_field J output (tf_name t) = Some v" and k: "kind_ok J t Type_Enum v"
    using accepted_present [OF assms(1-4)] by blast
  then show ?thesis by (cases v) (auto simp: output_field_matches_def output_field_value_def kind_ok_def)
qed

lemma accepted_bool:
  assumes "contract_reason fs (check_output J fs output) = None" "Field_Typed t \<in> set fs" "tf_required t"
    and "tf_kind t = Some Type_Bool"
  shows "output_field_matches J output (tf_name t) (Cmp_Equals ''true'')
    \<noteq> output_field_matches J output (tf_name t) (Cmp_Equals ''false'')"
proof -
  obtain v where v: "object_field J output (tf_name t) = Some v" and k: "kind_ok J t Type_Bool v"
    using accepted_present [OF assms(1-4)] by blast
  then show ?thesis by (cases v) (auto simp: output_field_matches_def output_field_value_def kind_ok_def)
qed

lemma accepted_number:
  assumes "contract_reason fs (check_output J fs output) = None" "Field_Typed t \<in> set fs" "tf_required t"
    and "tf_kind t = Some Type_Number" "f64_is_finite x"
  shows "output_field_matches J output (tf_name t) (Cmp_Lt x) \<noteq> output_field_matches J output (tf_name t) (Cmp_Gte x)"
proof -
  obtain v y where "object_field J output (tf_name t) = Some v" "json_numeric J v = Some y" "f64_is_finite y"
    using accepted_present [OF assms(1-4)] by (auto simp: kind_ok_def split: option.splits)
  then show ?thesis
    using f64_not_le [OF finite_not_nan [OF assms(5)] finite_not_nan]
    by (auto simp: output_field_matches_def output_field_number_def threshold_matches_def)
qed

section \<open>What a refusal tells\<close>

text \<open>What the check reads of a declared field: whether it is there, its JSON kind, and whether it is met.\<close>

definition field_view :: "json_reader \<Rightarrow> (string \<times> json) list \<Rightarrow> typed_field \<Rightarrow> (string \<times> bool) option" where
  "field_view J kvs t =
     (case map_of kvs (tf_name t) of
        None \<Rightarrow> None
      | Some v \<Rightarrow>
          if v = JNull then None
          else Some (json_kind v, case tf_kind t of None \<Rightarrow> True | Some k \<Rightarrow> kind_ok J t k v))"

lemma check_field_of_view:
  "check_field J kvs (Field_Typed t) =
     (case field_view J kvs t of
        None \<Rightarrow> if tf_required t then [\<lparr> mm_field = tf_name t, mm_problem = Problem_Missing \<rparr>] else []
      | Some (got, met) \<Rightarrow>
          if met then []
          else [\<lparr> mm_field = tf_name t,
                  mm_problem = (case tf_kind t of
                    Some Type_Enum \<Rightarrow> Problem_Not_In_Values got | Some k \<Rightarrow> Problem_Wrong_Type k got) \<rparr>])"
  by (auto simp: check_field_def field_typed_def field_view_def check_one_def Let_def
      split: option.split field_type.split)

lemma check_field_view:
  "field_view J kvs t = field_view J kvs' t \<Longrightarrow>
     check_field J kvs (Field_Typed t) = check_field J kvs' (Field_Typed t)"
  by (simp only: check_field_of_view)

lemma check_fields_view:
  assumes "\<And>t. Field_Typed t \<in> set fs \<Longrightarrow> field_view J kvs t = field_view J kvs' t"
  shows "map (check_field J kvs) fs = map (check_field J kvs') fs"
proof (rule map_cong [OF refl])
  fix f assume f: "f \<in> set fs"
  show "check_field J kvs f = check_field J kvs' f"
  proof (cases f)
    case (Field_Typed t)
    then show ?thesis using check_field_view [OF assms] f by simp
  qed (simp add: check_field_def field_typed_def)
qed

section \<open>Properties\<close>

text \<open>
  The reason of a refusal never holds a value of the output.  Two outputs that are both objects,
  or both not, and agree on which declared fields are there, on their JSON kinds and on which are met
  are refused with one text, whatever the values are; the text is the stall fingerprint of a
  repeated mismatch and goes into the journal and the retry prompt.
\<close>

theorem reason_hides_values:
  assumes "(Option.bind (J o1) as_object = None) = (Option.bind (J o2) as_object = None)"
    and "\<And>k1 k2 t. Option.bind (J o1) as_object = Some k1 \<Longrightarrow> Option.bind (J o2) as_object = Some k2
      \<Longrightarrow> Field_Typed t \<in> set fs \<Longrightarrow> field_view J k1 t = field_view J k2 t"
  shows "contract_reason fs (check_output J fs o1) = contract_reason fs (check_output J fs o2)"
proof (cases "Option.bind (J o1) as_object")
  case None
  then have "Option.bind (J o2) as_object = None" using assms(1) by simp
  then show ?thesis using None by (simp only: check_output_def)
next
  case (Some k1)
  then obtain k2 where k2: "Option.bind (J o2) as_object = Some k2" using assms(1) by auto
  have "map (check_field J k1) fs = map (check_field J k2) fs"
    by (rule check_fields_view) (rule assms(2) [OF Some k2])
  then have "check_output J fs o1 = check_output J fs o2"
    using Some k2 by (simp only: check_output_def option.simps)
  then show ?thesis by simp
qed

text \<open>
  C34: an accepted output decides the edges that read it.  Of an output its contract accepts, a
  required enum field equals one of its declared values, a required bool field equals exactly one of
  true and false, and a required number field is below a threshold exactly when it is not at least
  the threshold: edges that cover the declaration leave no output without a route.
\<close>

theorem accepted_output_decides:
  assumes "contract_reason fs (check_output J fs output) = None"
    and "Field_Typed t \<in> set fs" "tf_required t"
  shows "(tf_kind t = Some Type_Enum \<longrightarrow>
        (\<exists>v\<in>set (tf_values t). output_field_matches J output (tf_name t) (Cmp_Equals v)))
    \<and> (tf_kind t = Some Type_Bool \<longrightarrow>
        output_field_matches J output (tf_name t) (Cmp_Equals ''true'')
          \<noteq> output_field_matches J output (tf_name t) (Cmp_Equals ''false''))
    \<and> (tf_kind t = Some Type_Number \<longrightarrow> (\<forall>x. f64_is_finite x \<longrightarrow>
        output_field_matches J output (tf_name t) (Cmp_Lt x) \<noteq> output_field_matches J output (tf_name t) (Cmp_Gte x)))"
  using assms accepted_enum accepted_bool accepted_number by simp

text \<open>The declaration of the witnesses: a verdict among two, and a count.\<close>

definition oc_fields :: "field_decl list" where
  "oc_fields = [Field_Name ''notes'',
     Field_Typed \<lparr> tf_name = ''role'', tf_kind = Some Type_Enum, tf_values = [''a'', ''b''], tf_required = True \<rparr>,
     Field_Typed \<lparr> tf_name = ''n'', tf_kind = Some Type_Number, tf_values = [], tf_required = False \<rparr>]"

definition oc_reader :: json_reader where
  "oc_reader s =
     (if s = ''ok'' then Some (JObject [(''role'', JString ''b'')])
      else if s = ''x'' then Some (JObject [(''role'', JString ''secret'')])
      else if s = ''y'' then Some (JObject [(''role'', JString ''other'')]) else None)"

theorem accepted_output_decides_witness:
  "\<exists>v\<in>{''a'', ''b''}. output_field_matches oc_reader ''ok'' ''role'' (Cmp_Equals v)"
proof -
  let ?t = "\<lparr> tf_name = ''role'', tf_kind = Some Type_Enum, tf_values = [''a'', ''b''], tf_required = True \<rparr>"
  have a: "contract_reason oc_fields (check_output oc_reader oc_fields ''ok'') = None"
    by (simp add: oc_fields_def oc_reader_def check_output_def check_field_def check_one_def kind_ok_def field_typed_def
        as_object_def Let_def)
  have "Field_Typed ?t \<in> set oc_fields" "tf_required ?t" by (simp_all add: oc_fields_def)
  from accepted_output_decides [OF a this] show ?thesis by simp
qed

theorem reason_hides_values_witness:
  "contract_reason oc_fields (check_output oc_reader oc_fields ''x'')
     = contract_reason oc_fields (check_output oc_reader oc_fields ''y'')"
proof -
  have "Option.bind (oc_reader ''x'') as_object = Some [(''role'', JString ''secret'')]"
    "Option.bind (oc_reader ''y'') as_object = Some [(''role'', JString ''other'')]"
    by (simp_all add: oc_reader_def as_object_def)
  then show ?thesis
    by (intro reason_hides_values) (auto simp: oc_fields_def field_view_def kind_ok_def json_kind_def)
qed

end
