(* ===== verification/List_Items.thy ===== *)
theory List_Items
  imports Loop_Items Send_Gate Validation Run_State Output_Contract
begin

text \<open>
  A list node's block and its items, \<^verbatim>\<open>apb-core/src/list/mod.rs\<close>,
  \<^verbatim>\<open>list/items.rs\<close> and \<^verbatim>\<open>apb-engine/src/scheduler/list/source.rs\<close>: where the
  items come from, how they are named, refused and filtered.  The JSON reader, the quoting of a
  JSON string and the digest are arguments; the canonical text of a value is the one the send path
  uses (\<open>canonical\<close>).
\<close>

section \<open>The list block\<close>

definition DEFAULT_MAX_ITEMS :: u32 where "DEFAULT_MAX_ITEMS = 100"
definition ITEM_MAX_BYTES :: nat where "ITEM_MAX_BYTES = 8 * 1024"

record item_filter =
  if_field :: "string option"
  if_equals :: "json option"
  if_state :: "string option"

record item_source =
  so_from :: "(string \<times> string) option"
  so_inline :: "json list"
  so_key :: string
  so_max_items :: u32
  so_filter :: "item_filter option"

record batch_spec =
  bs_size :: u32
  bs_parallel :: u32
  bs_retries :: u32

definition default_batch :: batch_spec where
  "default_batch = \<lparr> bs_size = 10, bs_parallel = 1, bs_retries = 1 \<rparr>"

datatype on_needs_look = Look_Continue | Look_Fail

datatype rerun_policy = Rerun_All | Rerun_Not_Passed

record output_check =
  oc_field :: string
  oc_equals :: string

record accept_when =
  aw_path :: string
  aw_equals :: "json option"
  aw_exists :: "bool option"
  aw_contains :: "json option"

definition rule_count :: "accept_when \<Rightarrow> nat" where
  "rule_count w = some_count (aw_equals w) + some_count (aw_exists w) + some_count (aw_contains w)"

record connector_check =
  cc_name :: string
  cc_account :: "string option"
  cc_function :: string
  cc_args :: "(string \<times> json) list"
  cc_accept_when :: accept_when

datatype on_unavailable = Unavailable_Accept_With_Note | Unavailable_Reject | Unavailable_Needs_Look

definition on_unavailable_parse :: "string \<Rightarrow> on_unavailable option" where
  "on_unavailable_parse w =
     (if w = ''accept_with_note'' then Some Unavailable_Accept_With_Note
      else if w = ''reject'' then Some Unavailable_Reject
      else if w = ''needs_look'' then Some Unavailable_Needs_Look else None)"

record judge_check =
  jk_state :: "(string \<times> string) list"
  jk_instructions :: string
  jk_criteria :: "(string \<times> string option) list"
  jk_min_confidence :: "f64 option"
  jk_on_unavailable :: string

record item_check =
  ic_output :: "output_check option"
  ic_script :: "string option"
  ic_connector :: "connector_check option"
  ic_judge :: "judge_check option"

datatype check_source =
    Check_Output output_check
  | Check_Script string
  | Check_Connector connector_check
  | Check_Judge judge_check

definition check_kind :: "check_source \<Rightarrow> string" where
  "check_kind s =
     (case s of Check_Output _ \<Rightarrow> ''output'' | Check_Script _ \<Rightarrow> ''script''
      | Check_Connector _ \<Rightarrow> ''connector'' | Check_Judge _ \<Rightarrow> ''judge'')"

definition item_check_source :: "item_check \<Rightarrow> check_source option" where
  "item_check_source c =
     (case List.map_filter id
             [map_option Check_Output (ic_output c), map_option Check_Script (ic_script c),
              map_option Check_Connector (ic_connector c), map_option Check_Judge (ic_judge c)] of
        [first] \<Rightarrow> Some first
      | _ \<Rightarrow> None)"

definition source_count :: "item_check \<Rightarrow> nat" where
  "source_count c =
     some_count (ic_output c) + some_count (ic_script c) + some_count (ic_connector c) + some_count (ic_judge c)"

record list_spec =
  sp_items :: item_source
  sp_batch :: batch_spec
  sp_item_outputs :: "field_decl list"
  sp_check :: "item_check option"
  sp_on_needs_look :: on_needs_look
  sp_rerun :: rerun_policy

definition list_workers :: "list_spec \<Rightarrow> nat \<Rightarrow> nat" where
  "list_workers sp max_parallel = min (unat (max (bs_parallel (sp_batch sp)) 1)) (max max_parallel 1)"

definition is_item_ref :: "string \<Rightarrow> bool" where
  "is_item_ref cap =
     ((case split_once (CHR ''.'') cap of Some (head, _) \<Rightarrow> head | None \<Rightarrow> cap) \<in> {''item'', ''item_output''})"

section \<open>Items\<close>

record item =
  it_id :: string
  it_value :: json
  it_digest :: string

record sourced_item =
  si_item :: item
  si_state :: "string option"

definition items_error_text :: "items_error \<Rightarrow> string" where
  "items_error_text e =
     (case e of
        Not_Json \<Rightarrow> ''the source output is not a JSON object''
      | Not_Array \<Rightarrow> ''the source field is not a JSON array''
      | Not_Object i \<Rightarrow> ''item '' @ show_nat (i + 1) @ '' is not a JSON object''
      | Missing_Key i \<Rightarrow> ''item '' @ show_nat (i + 1) @ '' has no key''
      | Bad_Key i \<Rightarrow> ''item '' @ show_nat (i + 1)
          @ '' has a key that is not a non-empty string or integer of at most '' @ show_nat ITEM_ID_MAX_CHARS
          @ '' characters''
      | Unsafe_Key i \<Rightarrow> ''item '' @ show_nat (i + 1)
          @ '' has a key with a control character, a backtick or another character that does not print''
      | Duplicate ids \<Rightarrow> show_nat (length ids) @ '' duplicate ''
          @ (if length ids = 1 then ''id'' else ''ids'') @ '': '' @ join_with '', '' ids
      | Digest_Collision a b \<Rightarrow> ''ids '' @ ticked a @ '' and '' @ ticked b
          @ '' share a digest prefix; rename one of them''
      | Too_Many count mx \<Rightarrow> show_nat count @ '' items exceed max_items '' @ show_nat (unat mx))"

definition make_item :: "(string \<Rightarrow> string) \<Rightarrow> (string \<Rightarrow> string) \<Rightarrow> string \<Rightarrow> json \<Rightarrow> item" where
  "make_item quote sha256_hex i v =
     \<lparr> it_id = i, it_value = v, it_digest = sha256_hex (canonical quote v) \<rparr>"

definition ITEM_HASH_HEX :: nat where "ITEM_HASH_HEX = 32"

definition item_hash :: "(string \<Rightarrow> string) \<Rightarrow> string \<Rightarrow> string" where
  "item_hash sha256_hex i =
     (let digest = sha256_hex i;
          hex = (case strip_prefix ''sha256:'' digest of Some h \<Rightarrow> h | None \<Rightarrow> digest)
      in take (min ITEM_HASH_HEX (length hex)) hex)"

text \<open>The two passes of \<^verbatim>\<open>no_duplicates\<close>, each with the set or map it keeps.\<close>

definition dup_step :: "string fset \<times> string list \<Rightarrow> item \<Rightarrow> string fset \<times> string list" where
  "dup_step st i =
     (case st of (seen, dups) \<Rightarrow>
        (finsert (it_id i) seen,
         if it_id i |\<in>| seen \<and> it_id i \<notin> set dups then dups @ [it_id i] else dups))"

fun hash_clash :: "(string \<Rightarrow> string) \<Rightarrow> (string, string) fmap \<Rightarrow> item list \<Rightarrow> items_error option" where
  "hash_clash sha256_hex hashes [] = None"
| "hash_clash sha256_hex hashes (i # items) =
     (case fmlookup hashes (item_hash sha256_hex (it_id i)) of
        Some other \<Rightarrow> Some (Digest_Collision other (it_id i))
      | None \<Rightarrow> hash_clash sha256_hex (fmupd (item_hash sha256_hex (it_id i)) (it_id i) hashes) items)"

definition no_duplicates :: "(string \<Rightarrow> string) \<Rightarrow> item list \<Rightarrow> items_error option" where
  "no_duplicates sha256_hex items =
     (let dups = snd (foldl dup_step (fempty, []) items)
      in if dups \<noteq> [] then Some (Duplicate dups) else hash_clash sha256_hex fmempty items)"

fun read_values ::
  "(string \<Rightarrow> string) \<Rightarrow> (string \<Rightarrow> string) \<Rightarrow> string \<Rightarrow> json list \<Rightarrow> nat \<Rightarrow> items_error + item list" where
  "read_values quote sha256_hex key [] i = Inr []"
| "read_values quote sha256_hex key (v # vs) i =
     (case as_object v of
        None \<Rightarrow> Inl (Not_Object i)
      | Some kvs \<Rightarrow>
          (case map_of kvs key of
             None \<Rightarrow> Inl (Missing_Key i)
           | Some w \<Rightarrow>
               (case id_of w i of
                  Inl e \<Rightarrow> Inl e
                | Inr k \<Rightarrow>
                    (case read_values quote sha256_hex key vs (Suc i) of
                       Inl e \<Rightarrow> Inl e
                     | Inr items \<Rightarrow> Inr (make_item quote sha256_hex k v # items)))))"

definition items_from_values ::
  "(string \<Rightarrow> string) \<Rightarrow> (string \<Rightarrow> string) \<Rightarrow> json list \<Rightarrow> string \<Rightarrow> u32 \<Rightarrow> items_error + item list" where
  "items_from_values quote sha256_hex values key mx =
     (if length values > unat mx then Inl (Too_Many (length values) mx)
      else case read_values quote sha256_hex key values 0 of
             Inl e \<Rightarrow> Inl e
           | Inr items \<Rightarrow>
               (case no_duplicates sha256_hex items of Some e \<Rightarrow> Inl e | None \<Rightarrow> Inr items))"

definition items_from_output ::
  "json_reader \<Rightarrow> (string \<Rightarrow> string) \<Rightarrow> (string \<Rightarrow> string) \<Rightarrow> string \<Rightarrow> string \<Rightarrow> string \<Rightarrow> u32
     \<Rightarrow> items_error + item list" where
  "items_from_output J quote sha256_hex output field key mx =
     (case Option.bind (J output) as_object of
        None \<Rightarrow> Inl Not_Json
      | Some kvs \<Rightarrow>
          (case map_of kvs field of
             Some (JArray values) \<Rightarrow> items_from_values quote sha256_hex values key mx
           | Some (JString txt) \<Rightarrow>
               (case J txt of
                  Some (JArray values) \<Rightarrow> items_from_values quote sha256_hex values key mx
                | _ \<Rightarrow> Inl Not_Array)
           | _ \<Rightarrow> Inl Not_Array))"

text \<open>\<^verbatim>\<open>serde_json::Map::insert\<close>.\<close>

definition object_insert :: "string \<Rightarrow> json \<Rightarrow> (string \<times> json) list \<Rightarrow> (string \<times> json) list" where
  "object_insert k v kvs = filter (\<lambda>(k', _). k' \<noteq> k) kvs @ [(k, v)]"

fun read_entries ::
  "(string \<Rightarrow> string) \<Rightarrow> (string \<Rightarrow> string) \<Rightarrow> json list \<Rightarrow> nat \<Rightarrow> items_error + sourced_item list" where
  "read_entries quote sha256_hex [] i = Inr []"
| "read_entries quote sha256_hex (e # es) i =
     (case as_object e of
        None \<Rightarrow> Inl (Not_Object i)
      | Some obj \<Rightarrow>
          (case map_of obj ''id'' of
             None \<Rightarrow> Inl (Missing_Key i)
           | Some w \<Rightarrow>
               (case id_of w i of
                  Inl err \<Rightarrow> Inl err
                | Inr k \<Rightarrow>
                    let base = (case Option.bind (map_of obj ''item'') as_object of Some kvs \<Rightarrow> kvs | None \<Rightarrow> []);
                        prev = (case map_of obj ''output'' of Some (JObject kvs) \<Rightarrow> JObject kvs | _ \<Rightarrow> JNull);
                        st = (case map_of obj ''state'' of Some (JString s) \<Rightarrow> Some s | _ \<Rightarrow> None)
                    in case read_entries quote sha256_hex es (Suc i) of
                         Inl err \<Rightarrow> Inl err
                       | Inr rest \<Rightarrow>
                           Inr (\<lparr> si_item = make_item quote sha256_hex k (JObject (object_insert ''output'' prev base)),
                                  si_state = st \<rparr> # rest))))"

definition items_from_list_output ::
  "json_reader \<Rightarrow> (string \<Rightarrow> string) \<Rightarrow> (string \<Rightarrow> string) \<Rightarrow> string \<Rightarrow> u32 \<Rightarrow> items_error + sourced_item list" where
  "items_from_list_output J quote sha256_hex output mx =
     (case J output of
        None \<Rightarrow> Inl Not_Json
      | Some doc \<Rightarrow>
          (case Option.bind (as_object doc) (\<lambda>kvs. map_of kvs ''items'') of
             Some (JArray entries) \<Rightarrow>
               if length entries > unat mx then Inl (Too_Many (length entries) mx)
               else (case read_entries quote sha256_hex entries 0 of
                       Inl e \<Rightarrow> Inl e
                     | Inr out \<Rightarrow>
                         (case no_duplicates sha256_hex (map si_item out) of
                            Some e \<Rightarrow> Inl e | None \<Rightarrow> Inr out))
           | _ \<Rightarrow> Inl Not_Array))"

section \<open>The filter\<close>

definition json_scalar :: "json option \<Rightarrow> string option" where
  "json_scalar v =
     (case v of
        Some (JString s) \<Rightarrow> Some s
      | Some (JBool b) \<Rightarrow> Some (if b then ''true'' else ''false'')
      | Some (JNumber t _ _) \<Rightarrow> Some t
      | _ \<Rightarrow> None)"

definition field_equals :: "json option \<Rightarrow> json \<Rightarrow> bool" where
  "field_equals got eqs =
     (case eqs of
        JNull \<Rightarrow> got = Some JNull
      | _ \<Rightarrow> (case json_scalar got of Some g \<Rightarrow> json_scalar (Some eqs) = Some g | None \<Rightarrow> False))"

definition json_get :: "json \<Rightarrow> string \<Rightarrow> json option" where
  "json_get v k = Option.bind (as_object v) (\<lambda>kvs. map_of kvs k)"

definition filter_keeps :: "item_filter \<Rightarrow> sourced_item \<Rightarrow> bool" where
  "filter_keeps f s =
     (let state_ok = (case if_state f of Some want \<Rightarrow> si_state s = Some want | None \<Rightarrow> True);
          field_ok = (case (if_field f, if_equals f) of
             (Some field, Some eqs) \<Rightarrow>
               let doc = (if si_state s \<noteq> None
                          then (case json_get (it_value (si_item s)) ''output'' of Some d \<Rightarrow> d | None \<Rightarrow> JNull)
                          else it_value (si_item s))
               in field_equals (json_get doc field) eqs
           | _ \<Rightarrow> True)
      in state_ok \<and> field_ok)"

definition filter_step :: "item_filter \<Rightarrow> item list \<times> u32 \<Rightarrow> sourced_item \<Rightarrow> item list \<times> u32" where
  "filter_step f st s =
     (case st of (out, dropped) \<Rightarrow>
        if filter_keeps f s then (out @ [si_item s], dropped) else (out, dropped + 1))"

definition apply_filter :: "sourced_item list \<Rightarrow> item_filter option \<Rightarrow> item list \<times> u32" where
  "apply_filter items flt =
     (case flt of None \<Rightarrow> (map si_item items, 0) | Some f \<Rightarrow> foldl (filter_step f) ([], 0) items)"

definition items_digest :: "(string \<Rightarrow> string) \<Rightarrow> item list \<Rightarrow> string" where
  "items_digest sha256_hex items =
     sha256_hex (concat (map (\<lambda>i. it_id i @ [CHR 0x0A] @ it_digest i @ [CHR 0x0A]) items))"

definition item_bytes :: "(string \<Rightarrow> string) \<Rightarrow> item \<Rightarrow> nat" where
  "item_bytes quote i = length (canonical quote (it_value i))"

section \<open>Loading\<close>

record loaded_items =
  lo_items :: "item list"
  lo_filtered_out :: u32

definition plain_items :: "items_error + item list \<Rightarrow> string + sourced_item list" where
  "plain_items r =
     (case r of Inl e \<Rightarrow> Inl (items_error_text e)
      | Inr items \<Rightarrow> Inr (map (\<lambda>i. \<lparr> si_item = i, si_state = None \<rparr>) items))"

text \<open>
  \<open>scripted\<close> is a scenario's own items; \<open>is_list\<close> says whether a node of the playbook is a list node.
\<close>

definition load_items ::
  "json_reader \<Rightarrow> (string \<Rightarrow> string) \<Rightarrow> (string \<Rightarrow> string) \<Rightarrow> playbook \<Rightarrow> run_state \<Rightarrow> item_source
     \<Rightarrow> json list option \<Rightarrow> string + loaded_items" where
  "load_items J quote sha256_hex pb s src scripted =
     (case (case (so_from src, scripted) of
              (_, Some values) \<Rightarrow> plain_items (items_from_values quote sha256_hex values (so_key src) (so_max_items src))
            | (None, None) \<Rightarrow>
                plain_items (items_from_values quote sha256_hex (so_inline src) (so_key src) (so_max_items src))
            | (Some (nd, field), None) \<Rightarrow>
                (case fmlookup (rs_outputs s) nd of
                   None \<Rightarrow> Inl (''source '' @ ticked nd @ '' has no output'')
                 | Some output \<Rightarrow>
                     if (case pb_node pb nd of Some n \<Rightarrow> n_list n \<noteq> None | None \<Rightarrow> False)
                     then (case items_from_list_output J quote sha256_hex output (so_max_items src) of
                             Inl e \<Rightarrow> Inl (items_error_text e) | Inr x \<Rightarrow> Inr x)
                     else plain_items
                            (items_from_output J quote sha256_hex output field (so_key src) (so_max_items src)))) of
        Inl why \<Rightarrow> Inl why
      | Inr sourced \<Rightarrow>
          (case apply_filter sourced (so_filter src) of
             (items, dropped) \<Rightarrow> Inr \<lparr> lo_items = items, lo_filtered_out = dropped \<rparr>))"

section \<open>What a loaded list is\<close>

definition printable_id :: "string \<Rightarrow> bool" where
  "printable_id i \<longleftrightarrow> trim i \<noteq> [] \<and> length (str_chars i) \<le> ITEM_ID_MAX_CHARS \<and> list_all (\<lambda>c. \<not> unsafe_id_char c) (str_chars i)"

definition named_by :: "(string \<Rightarrow> string) \<Rightarrow> (string \<Rightarrow> string) \<Rightarrow> string \<Rightarrow> json \<Rightarrow> item \<Rightarrow> bool" where
  "named_by quote sha256_hex key v i \<longleftrightarrow>
     (\<exists>w j. json_get v key = Some w \<and> id_of w j = Inr (it_id i)) \<and> i = make_item quote sha256_hex (it_id i) v"

definition well_named :: "(string \<Rightarrow> string) \<Rightarrow> item list \<Rightarrow> bool" where
  "well_named sha256_hex items \<longleftrightarrow>
     distinct (map it_id items) \<and> distinct (map (item_hash sha256_hex \<circ> it_id) items)
     \<and> list_all (printable_id \<circ> it_id) items"

lemma id_of_printable: "id_of w j = Inr i \<Longrightarrow> printable_id i"
  by (auto simp: id_of_def printable_id_def list_ex_iff list_all_iff split: option.splits if_splits)

lemma id_of_position: "id_of w j = Inr i \<longleftrightarrow> id_of w j' = Inr i"
  by (auto simp: id_of_def split: option.splits if_splits)

lemma dup_fold_seen: "fst (foldl dup_step st items) = fset_of_list (map it_id items) |\<union>| fst st"
  by (induction items arbitrary: st) (auto simp: dup_step_def split: prod.splits)

lemma dup_step_dups: "snd (dup_step st i) = [] \<longleftrightarrow> snd st = [] \<and> it_id i |\<notin>| fst st"
  by (auto simp: dup_step_def split: prod.splits)

lemma dup_fold_none:
  "snd (foldl dup_step st items) = [] \<longleftrightarrow>
     snd st = [] \<and> distinct (map it_id items) \<and> (\<forall>i\<in>set items. it_id i |\<notin>| fst st)"
proof (induction items arbitrary: st)
  case (Cons i items)
  have f: "fst (dup_step st i) = finsert (it_id i) (fst st)" by (simp add: dup_step_def split: prod.splits)
  show ?case by (auto simp: Cons.IH dup_step_dups f image_iff)
qed simp

lemma hash_clash_none:
  "hash_clash h hashes items = None \<longleftrightarrow>
     distinct (map (item_hash h \<circ> it_id) items) \<and> (\<forall>i\<in>set items. item_hash h (it_id i) |\<notin>| fmdom hashes)"
proof (induction items arbitrary: hashes)
  case (Cons i items)
  show ?case
  proof (cases "fmlookup hashes (item_hash h (it_id i))")
    case None
    then have "item_hash h (it_id i) |\<notin>| fmdom hashes" by (simp add: fmdom_notI)
    then show ?thesis by (auto simp: None Cons.IH image_iff)
  next
    case (Some other)
    then have "item_hash h (it_id i) |\<in>| fmdom hashes" by (simp add: fmdomI)
    then show ?thesis by (auto simp: Some)
  qed
qed simp

lemma no_duplicates_none:
  "no_duplicates h items = None \<longleftrightarrow>
     distinct (map it_id items) \<and> distinct (map (item_hash h \<circ> it_id) items)"
  by (simp add: no_duplicates_def Let_def dup_fold_none hash_clash_none)

lemma named_by_at:
  "named_by quote h key v i \<longleftrightarrow>
     (\<exists>w. json_get v key = Some w \<and> id_of w j = Inr (it_id i)) \<and> i = make_item quote h (it_id i) v"
  unfolding named_by_def using id_of_position by blast

lemma make_item_id [simp]: "it_id (make_item quote h k v) = k"
  by (simp add: make_item_def)

lemma read_values_Cons:
  "read_values quote h key (v # vs) j = Inr items \<longleftrightarrow>
     (\<exists>k rest. (\<exists>w. json_get v key = Some w \<and> id_of w j = Inr k) \<and> read_values quote h key vs (Suc j) = Inr rest
        \<and> items = make_item quote h k v # rest)"
  by (cases "as_object v") (auto simp: json_get_def split: option.splits sum.splits)

lemma read_values_named:
  "read_values quote h key vs j = Inr items \<longleftrightarrow> list_all2 (named_by quote h key) vs items"
proof (induction vs arbitrary: j items)
  case (Cons v vs)
  show ?case
  proof
    assume "read_values quote h key (v # vs) j = Inr items"
    then obtain k rest where k: "\<exists>w. json_get v key = Some w \<and> id_of w j = Inr k"
      and r: "read_values quote h key vs (Suc j) = Inr rest" and i: "items = make_item quote h k v # rest"
      unfolding read_values_Cons by blast
    have "named_by quote h key v (make_item quote h k v)" using k by (simp add: named_by_at [where j = j])
    then show "list_all2 (named_by quote h key) (v # vs) items" using r by (simp add: i Cons.IH)
  next
    assume "list_all2 (named_by quote h key) (v # vs) items"
    then obtain z zs where i: "items = z # zs" "named_by quote h key v z" "list_all2 (named_by quote h key) vs zs"
      unfolding list_all2_Cons1 by blast
    then have "read_values quote h key vs (Suc j) = Inr zs" by (simp add: Cons.IH)
    then show "read_values quote h key (v # vs) j = Inr items"
      using i(1,2) unfolding read_values_Cons named_by_at [where j = j] by blast
  qed
qed auto

lemma items_from_values_iff:
  "items_from_values quote h values key mx = Inr items \<longleftrightarrow>
     length values \<le> unat mx \<and> list_all2 (named_by quote h key) values items
     \<and> distinct (map it_id items) \<and> distinct (map (item_hash h \<circ> it_id) items)"
proof -
  have "(case r of Inl e \<Rightarrow> Inl e | Inr xs \<Rightarrow> (case d xs of Some e \<Rightarrow> Inl e | None \<Rightarrow> Inr xs)) = Inr items
      \<longleftrightarrow> r = Inr items \<and> d items = None" for r :: "items_error + item list" and d
    by (auto split: sum.splits option.splits)
  then show ?thesis
    by (simp add: items_from_values_def read_values_named no_duplicates_none linorder_not_less)
qed

lemma named_by_printable: "named_by quote h key v i \<Longrightarrow> printable_id (it_id i)"
  by (auto simp: named_by_def id_of_printable)

lemma named_all_printable:
  "list_all2 (named_by quote h key) vs items \<Longrightarrow> list_all (printable_id \<circ> it_id) items"
  by (induction rule: list_all2_induct) (auto simp: named_by_printable)

lemma items_from_values_good:
  "items_from_values quote h values key mx = Inr items \<Longrightarrow> well_named h items \<and> length items \<le> unat mx"
  by (auto simp: items_from_values_iff well_named_def named_all_printable dest: list_all2_lengthD)

lemma items_from_output_good:
  "items_from_output J quote h output field key mx = Inr items \<Longrightarrow> well_named h items \<and> length items \<le> unat mx"
  by (auto simp: items_from_output_def items_from_values_good split: option.splits json.splits)

lemma read_entries_good:
  "read_entries quote h es j = Inr out \<Longrightarrow>
     length out = length es \<and> list_all (printable_id \<circ> it_id) (map si_item out)"
  by (induction es arbitrary: j out)
    (auto simp: Let_def make_item_def id_of_printable split: option.splits sum.splits)

lemma items_from_list_good:
  "items_from_list_output J quote h output mx = Inr out \<Longrightarrow>
     well_named h (map si_item out) \<and> length out \<le> unat mx"
  by (auto simp: items_from_list_output_def well_named_def no_duplicates_none
      dest: read_entries_good split: option.splits json.splits sum.splits if_splits)

section \<open>The filter keeps a sub-list and counts the rest\<close>

lemma filter_fold:
  "foldl (filter_step f) (out, d) items
     = (out @ map si_item (filter (filter_keeps f) items),
        d + of_nat (length (filter (\<lambda>s. \<not> filter_keeps f s) items)))"
  by (induction items arbitrary: out d) (auto simp: filter_step_def)

lemma apply_filter_exact:
  "apply_filter items flt =
     (let keep = (case flt of Some f \<Rightarrow> filter_keeps f | None \<Rightarrow> (\<lambda>s. True))
      in (map si_item (filter keep items), of_nat (length (filter (\<lambda>s. \<not> keep s) items))))"
  by (cases flt) (simp_all add: apply_filter_def filter_fold Let_def)

lemma well_named_filter: "well_named h (map si_item items) \<Longrightarrow> well_named h (map si_item (filter keep items))"
  by (auto simp: well_named_def list_all_iff distinct_map_filter comp_def intro: inj_on_subset)

lemma apply_filter_good:
  assumes w: "well_named h (map si_item items)" and l: "length items \<le> unat (mx :: u32)"
    and a: "apply_filter items flt = (kept, dropped)"
  shows "well_named h kept" "length kept + unat dropped = length items"
proof -
  define keep where "keep = (case flt of Some f \<Rightarrow> filter_keeps f | None \<Rightarrow> (\<lambda>s. True))"
  have k: "kept = map si_item (filter keep items)"
    and d: "dropped = of_nat (length (filter (\<lambda>s. \<not> keep s) items))"
    using a by (simp_all add: apply_filter_exact Let_def keep_def)
  show "well_named h kept" unfolding k by (rule well_named_filter [OF w])
  have "length (filter (\<lambda>s. \<not> keep s) items) \<le> unat mx"
    using l length_filter_le [of "\<lambda>s. \<not> keep s" items] by linarith
  then have "unat dropped = length (filter (\<lambda>s. \<not> keep s) items)"
    using unsigned_less [of mx, where ?'a = nat] unfolding d by (simp add: unsigned_of_nat take_bit_nat_eq_self_iff)
  then show "length kept + unat dropped = length items"
    using sum_length_filter_compl [of keep items] by (simp add: k)
qed

lemma plain_items_good:
  assumes "\<And>items. r = Inr items \<Longrightarrow> well_named h items \<and> length items \<le> n" "plain_items r = Inr out"
  shows "well_named h (map si_item out) \<and> length out \<le> n"
  using assms by (auto simp: plain_items_def comp_def split: sum.splits)

lemma load_items_good:
  assumes "load_items J quote h pb s src scripted = Inr lo"
  shows "well_named h (lo_items lo)" "length (lo_items lo) + unat (lo_filtered_out lo) \<le> unat (so_max_items src)"
proof -
  obtain out where out: "well_named h (map si_item out) \<and> length out \<le> unat (so_max_items src)"
    and a: "apply_filter out (so_filter src) = (lo_items lo, lo_filtered_out lo)"
  proof -
    obtain x where x: "(case (so_from src, scripted) of
              (_, Some values) \<Rightarrow> plain_items (items_from_values quote h values (so_key src) (so_max_items src))
            | (None, None) \<Rightarrow>
                plain_items (items_from_values quote h (so_inline src) (so_key src) (so_max_items src))
            | (Some (nd, field), None) \<Rightarrow>
                (case fmlookup (rs_outputs s) nd of
                   None \<Rightarrow> Inl (''source '' @ ticked nd @ '' has no output'')
                 | Some output \<Rightarrow>
                     if (case pb_node pb nd of Some n \<Rightarrow> n_list n \<noteq> None | None \<Rightarrow> False)
                     then (case items_from_list_output J quote h output (so_max_items src) of
                             Inl e \<Rightarrow> Inl (items_error_text e) | Inr x \<Rightarrow> Inr x)
                     else plain_items
                            (items_from_output J quote h output field (so_key src) (so_max_items src)))) = Inr x"
      and a: "apply_filter x (so_filter src) = (lo_items lo, lo_filtered_out lo)"
      using assms unfolding load_items_def by (auto split: sum.splits prod.splits)
    have "well_named h (map si_item x) \<and> length x \<le> unat (so_max_items src)"
      using x by (auto split: option.splits prod.splits if_splits sum.splits
          intro: items_from_list_good [THEN conjunct1] items_from_list_good [THEN conjunct2]
            plain_items_good [OF items_from_values_good, THEN conjunct1]
            plain_items_good [OF items_from_values_good, THEN conjunct2]
            plain_items_good [OF items_from_output_good, THEN conjunct1]
            plain_items_good [OF items_from_output_good, THEN conjunct2])
    then show ?thesis using that a by blast
  qed
  show "well_named h (lo_items lo)" by (rule apply_filter_good(1) [OF out [THEN conjunct1] out [THEN conjunct2] a])
  show "length (lo_items lo) + unat (lo_filtered_out lo) \<le> unat (so_max_items src)"
    using apply_filter_good(2) [OF out [THEN conjunct1] out [THEN conjunct2] a] out by simp
qed


end
