(* ===== verification/List_Ledger.thy ===== *)
theory List_Ledger
  imports List_Items
begin

text \<open>
  One item's states within a visit of a list node, \<^verbatim>\<open>apb-core/src/list/verdict.rs\<close>, and
  the journal's record of the visit, \<^verbatim>\<open>apb-engine/src/list/ledger.rs\<close>: the fold that
  resume, a supervisor retry, a goal criterion and progress share.
\<close>

section \<open>The state machine of an item\<close>

datatype item_verdict = Verdict_Accept | Verdict_Accept_With_Note | Verdict_Reject

definition item_verdict_str :: "item_verdict \<Rightarrow> string" where
  "item_verdict_str v =
     (case v of Verdict_Accept \<Rightarrow> ''accept'' | Verdict_Accept_With_Note \<Rightarrow> ''accept_with_note''
      | Verdict_Reject \<Rightarrow> ''reject'')"

definition item_verdict_parse :: "string \<Rightarrow> item_verdict option" where
  "item_verdict_parse w =
     (if w = ''accept'' then Some Verdict_Accept
      else if w = ''accept_with_note'' then Some Verdict_Accept_With_Note
      else if w = ''reject'' then Some Verdict_Reject else None)"

datatype item_state = Item_Pending | Item_Running | Item_Passed | Item_Needs_Look

definition item_states :: "item_state list" where
  "item_states = [Item_Pending, Item_Running, Item_Passed, Item_Needs_Look]"

definition item_state_str :: "item_state \<Rightarrow> string" where
  "item_state_str s =
     (case s of Item_Pending \<Rightarrow> ''pending'' | Item_Running \<Rightarrow> ''running'' | Item_Passed \<Rightarrow> ''passed''
      | Item_Needs_Look \<Rightarrow> ''needs_look'')"

definition item_state_parse :: "string \<Rightarrow> item_state option" where
  "item_state_parse w = find (\<lambda>s. item_state_str s = w) item_states"

definition state_terminal :: "item_state \<Rightarrow> bool" where
  "state_terminal s = (case s of Item_Passed \<Rightarrow> True | Item_Needs_Look \<Rightarrow> True | _ \<Rightarrow> False)"

datatype look_reason = Look_Rejected | Look_Check_Unknown | Look_Unknown_Send | Look_Failed | Look_Too_Large

definition look_reasons :: "look_reason list" where
  "look_reasons = [Look_Rejected, Look_Check_Unknown, Look_Unknown_Send, Look_Failed, Look_Too_Large]"

definition look_reason_str :: "look_reason \<Rightarrow> string" where
  "look_reason_str r =
     (case r of Look_Rejected \<Rightarrow> ''rejected'' | Look_Check_Unknown \<Rightarrow> ''check_unknown''
      | Look_Unknown_Send \<Rightarrow> ''unknown_send'' | Look_Failed \<Rightarrow> ''failed''
      | Look_Too_Large \<Rightarrow> ''item_too_large'')"

definition look_reason_parse :: "string \<Rightarrow> look_reason option" where
  "look_reason_parse w = find (\<lambda>r. look_reason_str r = w) look_reasons"

definition look_from_check :: "look_reason \<Rightarrow> bool" where
  "look_from_check r = (case r of Look_Rejected \<Rightarrow> True | Look_Check_Unknown \<Rightarrow> True | _ \<Rightarrow> False)"

datatype item_event =
    Item_Checked item_verdict
  | Item_Check_Unknown
  | Item_Failed "idempotency_mode option"
  | Item_Interrupted

datatype item_move =
    Move_Pass bool
  | Move_Requeue u32 bool
  | Move_Needs_Look look_reason
  | Move_Pending

definition item_transition :: "item_event \<Rightarrow> u32 \<Rightarrow> u32 \<Rightarrow> bool \<Rightarrow> item_move" where
  "item_transition ev rnd retries reconciled =
     (case ev of
        Item_Checked Verdict_Accept \<Rightarrow> Move_Pass False
      | Item_Checked Verdict_Accept_With_Note \<Rightarrow> Move_Pass True
      | Item_Checked Verdict_Reject \<Rightarrow>
          if rnd < retries then Move_Requeue (rnd + 1) False else Move_Needs_Look Look_Rejected
      | Item_Check_Unknown \<Rightarrow> Move_Needs_Look Look_Check_Unknown
      | Item_Failed (Some Mode_None) \<Rightarrow> Move_Needs_Look Look_Unknown_Send
      | Item_Failed (Some Mode_Key) \<Rightarrow>
          if \<not> reconciled then Move_Requeue rnd True else Move_Needs_Look Look_Unknown_Send
      | Item_Failed (Some Mode_Marker) \<Rightarrow>
          if \<not> reconciled then Move_Requeue rnd True else Move_Needs_Look Look_Unknown_Send
      | Item_Failed (Some Mode_Ref) \<Rightarrow> Move_Needs_Look Look_Unknown_Send
      | Item_Failed None \<Rightarrow> Move_Needs_Look Look_Failed
      | Item_Interrupted \<Rightarrow> Move_Pending)"

section \<open>The record of a visit\<close>

definition SETTLED_PASSED :: string where "SETTLED_PASSED = ''passed''"
definition SETTLED_REJECTED :: string where "SETTLED_REJECTED = ''rejected''"
definition SETTLED_NEEDS_LOOK :: string where "SETTLED_NEEDS_LOOK = ''needs_look''"
definition SETTLED_INTERRUPTED :: string where "SETTLED_INTERRUPTED = ''interrupted''"
definition RECONCILE :: string where "RECONCILE = ''reconcile''"

record item_record =
  iv_state :: "item_state option"
  iv_round :: u32
  iv_verdict :: "string option"
  iv_note :: "string option"
  iv_reason :: "string option"
  iv_output :: "string option"
  iv_attempts :: u32
  iv_carried :: bool
  iv_reconciled :: bool
  iv_batch :: u32
  iv_digest :: "string option"
  iv_check_rejected :: bool

definition no_record :: item_record where
  "no_record =
     \<lparr> iv_state = None, iv_round = 0, iv_verdict = None, iv_note = None, iv_reason = None, iv_output = None,
       iv_attempts = 0, iv_carried = False, iv_reconciled = False, iv_batch = 0, iv_digest = None,
       iv_check_rejected = False \<rparr>"

definition item_terminal :: "item_record \<Rightarrow> bool" where
  "item_terminal r = (case iv_state r of Some s \<Rightarrow> state_terminal s | None \<Rightarrow> False)"

definition passed_with_note :: "item_record \<Rightarrow> bool" where
  "passed_with_note r \<longleftrightarrow> iv_state r = Some Item_Passed \<and> iv_verdict r = Some ''accept_with_note''"

record list_counts =
  ct_total :: u32
  ct_processed :: u32
  ct_passed :: u32
  ct_passed_with_note :: u32
  ct_needs_look :: u32
  ct_pending :: u32
  ct_running :: u32

record list_fold =
  lf_node :: string
  lf_started_seq :: nat
  lf_items_digest :: string
  lf_total :: u32
  lf_filtered_out :: u32
  lf_batch_size :: u32
  lf_parallel :: u32
  lf_batch :: u32
  lf_items :: "(string, item_record) fmap"
  lf_finished :: bool
  lf_finished_status :: "string option"

definition fresh_visit :: "string \<Rightarrow> nat \<Rightarrow> list_fold" where
  "fresh_visit nd q =
     \<lparr> lf_node = nd, lf_started_seq = q, lf_items_digest = [], lf_total = 0, lf_filtered_out = 0,
       lf_batch_size = 0, lf_parallel = 0, lf_batch = 0, lf_items = fmempty, lf_finished = False,
       lf_finished_status = None \<rparr>"

definition visit_of :: "list_fold \<Rightarrow> string \<Rightarrow> item_record" where
  "visit_of f i = fget (lf_items f) no_record i"

definition opens_visit :: "string \<Rightarrow> event \<Rightarrow> bool" where
  "opens_visit nd e =
     (case ev_payload e of Audit (List_Started l) \<Rightarrow> lt_node l = nd \<and> \<not> lt_reopened l | _ \<Rightarrow> False)"

definition visit_starts :: "event list \<Rightarrow> string \<Rightarrow> nat list" where
  "visit_starts es nd = filter (\<lambda>i. opens_visit nd (es ! i)) [0..<length es]"

definition admit_item :: "u32 \<Rightarrow> (string, item_record) fmap \<Rightarrow> string \<Rightarrow> (string, item_record) fmap" where
  "admit_item batch items i =
     (let r = fget items no_record i;
          r = (if item_terminal r then r else r\<lparr> iv_state := Some Item_Running \<rparr>)
      in fmupd i (r\<lparr> iv_batch := batch \<rparr>) items)"

definition settle_item :: "item_record \<Rightarrow> list_item_settled \<Rightarrow> item_record" where
  "settle_item r p =
     \<lparr> iv_state = Some (if ls_state p = SETTLED_PASSED then Item_Passed
                        else if ls_state p = SETTLED_NEEDS_LOOK then Item_Needs_Look else Item_Pending),
       iv_round = ls_round p,
       iv_verdict = (if ls_verdict p \<noteq> None then ls_verdict p else iv_verdict r),
       iv_note = (if ls_note p \<noteq> None \<or> ls_state p = SETTLED_PASSED then ls_note p else iv_note r),
       iv_reason = ls_reason p,
       iv_output = (if ls_output p \<noteq> None then ls_output p else iv_output r),
       iv_attempts = iv_attempts r,
       iv_carried = ls_carried p,
       iv_reconciled = (if ls_state p = SETTLED_INTERRUPTED \<and> ls_reason p = Some RECONCILE then True
                        else iv_reconciled r),
       iv_batch = iv_batch r,
       iv_digest = ls_digest p,
       iv_check_rejected = (iv_check_rejected r \<or> ls_state p = SETTLED_REJECTED) \<rparr>"

definition close_item :: "item_record \<Rightarrow> item_record" where
  "close_item r = (if iv_state r = Some Item_Running then r\<lparr> iv_state := Some Item_Pending \<rparr> else r)"

definition visit_event :: "string \<Rightarrow> list_fold \<Rightarrow> event \<Rightarrow> list_fold" where
  "visit_event nd f e =
     (case ev_payload e of
        Audit (List_Started l) \<Rightarrow>
          if lt_node l = nd
          then f\<lparr> lf_total := lt_total l, lf_filtered_out := lt_filtered_out l,
                 lf_items_digest := lt_items_digest l, lf_batch_size := lt_batch_size l,
                 lf_parallel := lt_parallel l, lf_finished := False, lf_finished_status := None \<rparr>
          else f
      | Audit (List_Batch_Started n batch items) \<Rightarrow>
          if n = nd
          then f\<lparr> lf_batch := batch, lf_items := foldl (admit_item batch) (lf_items f) items \<rparr> else f
      | List_Item_Settled p \<Rightarrow>
          if ls_node p = nd
          then f\<lparr> lf_items := fmupd (ls_item p) (settle_item (visit_of f (ls_item p)) p) (lf_items f) \<rparr> else f
      | Attempt_Started a \<Rightarrow>
          (case as_item a of
             Some i \<Rightarrow>
               if as_node a = nd
               then f\<lparr> lf_items := fmupd i ((visit_of f i)\<lparr> iv_attempts := iv_attempts (visit_of f i) + 1 \<rparr>)
                                     (lf_items f) \<rparr>
               else f
           | None \<Rightarrow> f)
      | Node_Finished p \<Rightarrow>
          if nf_node p = nd
          then f\<lparr> lf_finished := True, lf_finished_status := Some (nf_status p),
                 lf_items := fmmap close_item (lf_items f) \<rparr>
          else f
      | _ \<Rightarrow> f)"

definition fold_visit :: "event list \<Rightarrow> string \<Rightarrow> nat \<Rightarrow> nat \<Rightarrow> list_fold" where
  "fold_visit es nd start stop =
     foldl (visit_event nd) (fresh_visit nd (ev_seq (es ! start))) (take (stop - start) (drop start es))"

definition visit_fold :: "event list \<Rightarrow> string \<Rightarrow> list_fold option" where
  "visit_fold es nd =
     (case rev (visit_starts es nd) of
        start # _ \<Rightarrow> Some (fold_visit es nd start (length es))
      | [] \<Rightarrow> None)"

definition visit_before :: "event list \<Rightarrow> string \<Rightarrow> list_fold option" where
  "visit_before es nd =
     (case rev (visit_starts es nd) of
        newest # earlier # _ \<Rightarrow> Some (fold_visit es nd earlier newest)
      | _ \<Rightarrow> None)"

definition visit_is_open :: "list_fold \<Rightarrow> bool" where
  "visit_is_open f \<longleftrightarrow> \<not> lf_finished f"

definition id_terminal :: "list_fold \<Rightarrow> string \<Rightarrow> bool" where
  "id_terminal f i = (case fmlookup (lf_items f) i of Some r \<Rightarrow> item_terminal r | None \<Rightarrow> False)"

definition remaining_items :: "list_fold \<Rightarrow> string list \<Rightarrow> string list" where
  "remaining_items f ids = filter (\<lambda>i. \<not> id_terminal f i) ids"

definition record_values :: "(string, item_record) fmap \<Rightarrow> item_record list" where
  "record_values m = map (\<lambda>k. fget m no_record k) (sorted_list_of_fset (fmdom m))"

definition count_item :: "list_counts \<Rightarrow> item_record \<Rightarrow> list_counts" where
  "count_item c r =
     (case iv_state r of
        Some Item_Passed \<Rightarrow>
          (let c = c\<lparr> ct_passed := ct_passed c + 1 \<rparr>
           in if passed_with_note r then c\<lparr> ct_passed_with_note := ct_passed_with_note c + 1 \<rparr> else c)
      | Some Item_Needs_Look \<Rightarrow> c\<lparr> ct_needs_look := ct_needs_look c + 1 \<rparr>
      | Some Item_Running \<Rightarrow> c\<lparr> ct_running := ct_running c + 1 \<rparr>
      | _ \<Rightarrow> c)"

definition visit_counts :: "list_fold \<Rightarrow> list_counts" where
  "visit_counts f =
     (let c = foldl count_item
                \<lparr> ct_total = lf_total f, ct_processed = 0, ct_passed = 0, ct_passed_with_note = 0,
                  ct_needs_look = 0, ct_pending = 0, ct_running = 0 \<rparr> (record_values (lf_items f));
          processed = ct_passed c + ct_needs_look c;
          busy = processed + ct_running c
      in c\<lparr> ct_processed := processed, ct_pending := (if busy \<le> ct_total c then ct_total c - busy else 0) \<rparr>)"

definition progress_label :: "list_counts \<Rightarrow> string" where
  "progress_label c =
     show_nat (unat (ct_processed c)) @ '' of '' @ show_nat (unat (ct_total c)) @ '' processed, ''
     @ show_nat (unat (ct_passed c)) @ '' passed, ''
     @ (if ct_needs_look c = 1 then ''1 needs a look'' else show_nat (unat (ct_needs_look c)) @ '' need a look'')"

definition list_criterion :: "event list \<Rightarrow> string \<Rightarrow> bool \<times> string" where
  "list_criterion es nd =
     (case visit_fold es nd of
        None \<Rightarrow> (False, ''list '' @ ticked nd @ '' never ran'')
      | Some f \<Rightarrow>
          (let c = visit_counts f
           in (ct_processed c = ct_total c \<and> ct_needs_look c = 0,
               ''list '' @ ticked nd @ '': '' @ progress_label c)))"

section \<open>The vocabularies read back\<close>

lemma item_verdict_words [simp]: "item_verdict_parse (item_verdict_str v) = Some v"
  by (cases v) (simp_all add: item_verdict_parse_def item_verdict_str_def)

lemma item_state_words [simp]: "item_state_parse (item_state_str s) = Some s"
  by (cases s) (simp_all add: item_state_parse_def item_state_str_def item_states_def)

lemma look_reason_words [simp]: "look_reason_parse (look_reason_str r) = Some r"
  by (cases r) (simp_all add: look_reason_parse_def look_reason_str_def look_reasons_def)

section \<open>The fold one event at a time\<close>

lemma visit_starts_snoc:
  "visit_starts (es @ [e]) nd = visit_starts es nd @ (if opens_visit nd e then [length es] else [])"
  by (auto simp: visit_starts_def nth_append intro: filter_cong)

lemma visit_starts_less: "i \<in> set (visit_starts es nd) \<Longrightarrow> i < length es"
  by (simp add: visit_starts_def)

lemma fold_visit_snoc:
  "i < length es \<Longrightarrow>
     fold_visit (es @ [e]) nd i (Suc (length es)) = visit_event nd (fold_visit es nd i (length es)) e"
  by (simp add: fold_visit_def nth_append Suc_diff_le)

lemma visit_fold_snoc:
  "visit_fold (es @ [e]) nd =
     (if opens_visit nd e then Some (visit_event nd (fresh_visit nd (ev_seq e)) e)
      else map_option (\<lambda>f. visit_event nd f e) (visit_fold es nd))"
proof (cases "opens_visit nd e")
  case True
  then show ?thesis by (simp add: visit_fold_def visit_starts_snoc fold_visit_def)
next
  case False
  show ?thesis
  proof (cases "rev (visit_starts es nd)")
    case Nil
    then show ?thesis using False by (simp add: visit_fold_def visit_starts_snoc)
  next
    case (Cons i rest)
    then have "i \<in> set (visit_starts es nd)" by (metis list.set_intros(1) set_rev)
    then have "fold_visit (es @ [e]) nd i (Suc (length es)) = visit_event nd (fold_visit es nd i (length es)) e"
      by (rule fold_visit_snoc [OF visit_starts_less])
    then show ?thesis using False Cons by (simp add: visit_fold_def visit_starts_snoc)
  qed
qed

lemma visit_fold_Nil [simp]: "visit_fold [] nd = None"
  by (simp add: visit_fold_def visit_starts_def)

section \<open>What an event does to an item\<close>

text \<open>A record that says nothing of the list node's items, batches or end.\<close>

definition quiet_for :: "string \<Rightarrow> event_payload \<Rightarrow> bool" where
  "quiet_for nd p =
     (case p of
        Audit (List_Started l) \<Rightarrow> lt_node l \<noteq> nd
      | Audit (List_Batch_Started n _ _) \<Rightarrow> n \<noteq> nd
      | List_Item_Settled q \<Rightarrow> ls_node q \<noteq> nd
      | Node_Finished q \<Rightarrow> nf_node q \<noteq> nd
      | _ \<Rightarrow> True)"

lemma visit_of_upd [simp]:
  "visit_of (f\<lparr> lf_items := fmupd i r items \<rparr>) j = (if j = i then r else visit_of (f\<lparr> lf_items := items \<rparr>) j)"
  by (simp add: visit_of_def)

lemma visit_of_same [simp]: "visit_of (f\<lparr> lf_items := lf_items f \<rparr>) j = visit_of f j"
  by (simp add: visit_of_def)

definition same_visit :: "list_fold \<Rightarrow> list_fold \<Rightarrow> bool" where
  "same_visit f g \<longleftrightarrow>
     (\<forall>i. (visit_of g i)\<lparr> iv_attempts := 0 \<rparr> = (visit_of f i)\<lparr> iv_attempts := 0 \<rparr>)
     \<and> lf_total g = lf_total f \<and> lf_batch g = lf_batch f \<and> lf_finished g = lf_finished f
     \<and> lf_items_digest g = lf_items_digest f \<and> lf_filtered_out g = lf_filtered_out f"

lemma same_visit_refl [simp]: "same_visit f f"
  by (simp add: same_visit_def)

lemma same_visit_trans: "same_visit f g \<Longrightarrow> same_visit g h \<Longrightarrow> same_visit f h"
  by (simp add: same_visit_def)

lemma same_visitD:
  assumes "same_visit f g"
  shows "iv_state (visit_of g i) = iv_state (visit_of f i)" "iv_round (visit_of g i) = iv_round (visit_of f i)"
    "iv_reconciled (visit_of g i) = iv_reconciled (visit_of f i)"
    "iv_digest (visit_of g i) = iv_digest (visit_of f i)"
proof -
  have e: "(visit_of g i)\<lparr> iv_attempts := 0 \<rparr> = (visit_of f i)\<lparr> iv_attempts := 0 \<rparr>"
    using assms by (simp add: same_visit_def)
  show "iv_state (visit_of g i) = iv_state (visit_of f i)" using arg_cong [OF e, of iv_state] by simp
  show "iv_round (visit_of g i) = iv_round (visit_of f i)" using arg_cong [OF e, of iv_round] by simp
  show "iv_reconciled (visit_of g i) = iv_reconciled (visit_of f i)"
    using arg_cong [OF e, of iv_reconciled] by simp
  show "iv_digest (visit_of g i) = iv_digest (visit_of f i)" using arg_cong [OF e, of iv_digest] by simp
qed

lemma id_terminal_iff: "id_terminal f i \<longleftrightarrow> item_terminal (visit_of f i)"
  by (simp add: id_terminal_def visit_of_def fget_def item_terminal_def no_record_def split: option.splits)

lemma same_visit_terminal: "same_visit f g \<Longrightarrow> id_terminal g i = id_terminal f i"
  by (simp add: id_terminal_iff item_terminal_def same_visitD)

lemma visit_event_quiet: "quiet_for nd (ev_payload e) \<Longrightarrow> same_visit f (visit_event nd f e)"
  by (auto simp: quiet_for_def visit_event_def same_visit_def split: event_payload.splits audit_kind.splits option.splits)

lemma quiet_no_start: "quiet_for nd (ev_payload e) \<Longrightarrow> \<not> opens_visit nd e"
  by (auto simp: quiet_for_def opens_visit_def split: event_payload.splits audit_kind.splits)

lemma visit_fold_quiet:
  "visit_fold es nd = Some f \<Longrightarrow> \<forall>x\<in>set xs. quiet_for nd (ev_payload x)
     \<Longrightarrow> \<exists>g. visit_fold (es @ xs) nd = Some g \<and> same_visit f g"
proof (induction xs rule: rev_induct)
  case (snoc x xs)
  then obtain g where g: "visit_fold (es @ xs) nd = Some g" "same_visit f g" by auto
  have q: "quiet_for nd (ev_payload x)" using snoc.prems(2) by simp
  have "visit_fold ((es @ xs) @ [x]) nd = Some (visit_event nd g x)"
    using g(1) quiet_no_start [OF q] unfolding visit_fold_snoc by simp
  then show ?case using same_visit_trans [OF g(2) visit_event_quiet [OF q]] by auto
qed simp

lemma admit_item_other: "j \<noteq> i \<Longrightarrow> fget (admit_item b m i) no_record j = fget m no_record j"
  by (simp add: admit_item_def Let_def)

lemma admit_item_self:
  "fget (admit_item b m i) no_record i =
     (if item_terminal (fget m no_record i) then fget m no_record i
      else (fget m no_record i)\<lparr> iv_state := Some Item_Running \<rparr>)\<lparr> iv_batch := b \<rparr>"
  by (simp add: admit_item_def Let_def)

lemma admit_terminal: "item_terminal (fget (admit_item b m i) no_record j) = item_terminal (fget m no_record j)"
  by (cases "j = i") (auto simp: admit_item_other admit_item_self item_terminal_def state_terminal_def)

lemma admit_items_frame:
  "item_terminal (fget (foldl (admit_item b) m ids) no_record j) = item_terminal (fget m no_record j)
   \<and> iv_round (fget (foldl (admit_item b) m ids) no_record j) = iv_round (fget m no_record j)
   \<and> iv_reconciled (fget (foldl (admit_item b) m ids) no_record j) = iv_reconciled (fget m no_record j)"
proof (induction ids arbitrary: m)
  case (Cons i ids)
  have "iv_round (fget (admit_item b m i) no_record j) = iv_round (fget m no_record j)"
    "iv_reconciled (fget (admit_item b m i) no_record j) = iv_reconciled (fget m no_record j)"
    by (cases "j = i"; simp add: admit_item_other admit_item_self)+
  then show ?case by (simp add: Cons.IH admit_terminal)
qed simp


section \<open>Counting\<close>

definition in_state :: "item_state \<Rightarrow> item_record \<Rightarrow> bool" where
  "in_state s r \<longleftrightarrow> iv_state r = Some s"

definition items_in :: "list_fold \<Rightarrow> item_state \<Rightarrow> string list \<Rightarrow> nat" where
  "items_in f s ids = length (filter (\<lambda>i. in_state s (visit_of f i)) ids)"

lemma count_item_fields [simp]:
  "ct_passed (count_item c r) = ct_passed c + (if in_state Item_Passed r then 1 else 0)"
  "ct_needs_look (count_item c r) = ct_needs_look c + (if in_state Item_Needs_Look r then 1 else 0)"
  "ct_running (count_item c r) = ct_running c + (if in_state Item_Running r then 1 else 0)"
  "ct_total (count_item c r) = ct_total c"
  by (simp_all add: count_item_def in_state_def Let_def split: option.splits item_state.splits)

lemma count_fold:
  "ct_passed (foldl count_item c rs) = ct_passed c + of_nat (length (filter (in_state Item_Passed) rs))"
  "ct_needs_look (foldl count_item c rs) = ct_needs_look c + of_nat (length (filter (in_state Item_Needs_Look) rs))"
  "ct_running (foldl count_item c rs) = ct_running c + of_nat (length (filter (in_state Item_Running) rs))"
  "ct_total (foldl count_item c rs) = ct_total c"
  by (induction rs arbitrary: c) simp_all

lemma records_in:
  assumes d: "distinct ids" and sub: "fset (fmdom (lf_items f)) \<subseteq> set ids"
  shows "length (filter (in_state s) (record_values (lf_items f))) = items_in f s ids"
proof -
  let ?P = "\<lambda>i. in_state s (visit_of f i)"
  have dom: "i \<in> fset (fmdom (lf_items f))" if "?P i" for i
    using that by (cases "fmlookup (lf_items f) i")
      (auto simp: visit_of_def fget_def in_state_def no_record_def fmdomI)
  have "length (filter (in_state s) (record_values (lf_items f)))
      = length (filter ?P (sorted_list_of_fset (fmdom (lf_items f))))"
    by (simp add: record_values_def filter_map comp_def visit_of_def)
  also have "\<dots> = card (set (filter ?P (sorted_list_of_fset (fmdom (lf_items f)))))"
    by (intro distinct_card [symmetric] distinct_filter) (simp add: sorted_list_of_fset.rep_eq)
  also have "set (filter ?P (sorted_list_of_fset (fmdom (lf_items f)))) = set (filter ?P ids)"
    using dom sub by auto
  also have "card (set (filter ?P ids)) = items_in f s ids"
    unfolding items_in_def by (intro distinct_card distinct_filter d)
  finally show ?thesis .
qed

lemma partition_lengths:
  "items_in f Item_Passed ids + items_in f Item_Needs_Look ids = length (filter (\<lambda>i. id_terminal f i) ids)"
  "length (filter (\<lambda>i. id_terminal f i) ids) + items_in f Item_Running ids \<le> length ids"
  "length ids - (length (filter (\<lambda>i. id_terminal f i) ids) + items_in f Item_Running ids)
     = length (filter (\<lambda>i. \<not> id_terminal f i \<and> \<not> in_state Item_Running (visit_of f i)) ids)"
proof -
  have "items_in f Item_Passed ids + items_in f Item_Needs_Look ids = length (filter (\<lambda>i. id_terminal f i) ids)
      \<and> length (filter (\<lambda>i. id_terminal f i) ids) + items_in f Item_Running ids
        + length (filter (\<lambda>i. \<not> id_terminal f i \<and> \<not> in_state Item_Running (visit_of f i)) ids) = length ids"
    by (induction ids)
      (auto simp: items_in_def in_state_def id_terminal_iff item_terminal_def state_terminal_def
        split: option.splits item_state.splits)
  then show "items_in f Item_Passed ids + items_in f Item_Needs_Look ids = length (filter (\<lambda>i. id_terminal f i) ids)"
    "length (filter (\<lambda>i. id_terminal f i) ids) + items_in f Item_Running ids \<le> length ids"
    "length ids - (length (filter (\<lambda>i. id_terminal f i) ids) + items_in f Item_Running ids)
     = length (filter (\<lambda>i. \<not> id_terminal f i \<and> \<not> in_state Item_Running (visit_of f i)) ids)"
    by linarith+
qed

lemma unat_count: "n \<le> unat (w :: u32) \<Longrightarrow> unat (of_nat n :: u32) = n"
  using unsigned_less [of w, where ?'a = nat] by (simp add: unsigned_of_nat take_bit_nat_eq_self_iff)

lemma visit_counts_exact:
  assumes d: "distinct ids" and t: "length ids = unat (lf_total f)"
    and sub: "fset (fmdom (lf_items f)) \<subseteq> set ids"
  shows "unat (ct_passed (visit_counts f)) = items_in f Item_Passed ids"
    "unat (ct_needs_look (visit_counts f)) = items_in f Item_Needs_Look ids"
    "unat (ct_running (visit_counts f)) = items_in f Item_Running ids"
    "unat (ct_processed (visit_counts f)) = length (filter (\<lambda>i. id_terminal f i) ids)"
    "unat (ct_pending (visit_counts f))
       = length (filter (\<lambda>i. \<not> id_terminal f i \<and> \<not> in_state Item_Running (visit_of f i)) ids)"
    "ct_total (visit_counts f) = lf_total f"
proof -
  let ?p = "items_in f Item_Passed ids" and ?n = "items_in f Item_Needs_Look ids"
  let ?r = "items_in f Item_Running ids" and ?t = "length (filter (\<lambda>i. id_terminal f i) ids)"
  note parts = partition_lengths [where f = f and ids = ids]
  have le: "?p \<le> unat (lf_total f)" "?n \<le> unat (lf_total f)" "?r \<le> unat (lf_total f)" "?t \<le> unat (lf_total f)"
    "?t + ?r \<le> unat (lf_total f)" using parts t by linarith+
  have sum: "(of_nat ?p + of_nat ?n :: u32) = of_nat ?t" using parts(1) by (metis of_nat_add)
  have busy: "(of_nat ?t + of_nat ?r :: u32) = of_nat (?t + ?r)" by simp
  have c: "ct_passed (visit_counts f) = of_nat ?p" "ct_needs_look (visit_counts f) = of_nat ?n"
    "ct_running (visit_counts f) = of_nat ?r" "ct_processed (visit_counts f) = of_nat ?t"
    "ct_total (visit_counts f) = lf_total f"
    "ct_pending (visit_counts f)
       = (if (of_nat (?t + ?r) :: u32) \<le> lf_total f then lf_total f - of_nat (?t + ?r) else 0)"
    using sum busy by (simp_all add: visit_counts_def Let_def count_fold records_in [OF d sub])
  show "unat (ct_passed (visit_counts f)) = ?p" "unat (ct_needs_look (visit_counts f)) = ?n"
    "unat (ct_running (visit_counts f)) = ?r" "unat (ct_processed (visit_counts f)) = ?t"
    "ct_total (visit_counts f) = lf_total f"
    using le by (simp_all only: c unat_count)
  have u: "unat (of_nat (?t + ?r) :: u32) = ?t + ?r" by (rule unat_count [OF le(5)])
  have "(of_nat (?t + ?r) :: u32) \<le> lf_total f" using le(5) u unfolding word_le_nat_alt by simp
  then have "unat (ct_pending (visit_counts f)) = unat (lf_total f) - (?t + ?r)"
    using u by (simp only: c if_True unat_sub)
  then show "unat (ct_pending (visit_counts f))
       = length (filter (\<lambda>i. \<not> id_terminal f i \<and> \<not> in_state Item_Running (visit_of f i)) ids)"
    using parts(3) t by simp
qed

lemma full_filter: "length (filter P xs) = length xs \<longleftrightarrow> (\<forall>x\<in>set xs. P x)"
  by (metis filter_True filter_id_conv length_filter_less less_irrefl)

lemma list_goal:
  assumes v: "visit_fold es nd = Some f" and d: "distinct ids" and t: "length ids = unat (lf_total f)"
    and sub: "fset (fmdom (lf_items f)) \<subseteq> set ids"
  shows "fst (list_criterion es nd) \<longleftrightarrow> (\<forall>i\<in>set ids. iv_state (visit_of f i) = Some Item_Passed)"
proof -
  note c = visit_counts_exact [OF d t sub]
  have "fst (list_criterion es nd) \<longleftrightarrow>
      unat (ct_processed (visit_counts f)) = unat (lf_total f) \<and> unat (ct_needs_look (visit_counts f)) = 0"
    using v c(6) by (simp add: list_criterion_def Let_def word_unat_eq_iff)
  also have "\<dots> \<longleftrightarrow> items_in f Item_Passed ids = length ids"
    unfolding c(2,4) using partition_lengths(1,2) [where f = f and ids = ids] t
    by arith
  also have "\<dots> \<longleftrightarrow> (\<forall>i\<in>set ids. iv_state (visit_of f i) = Some Item_Passed)"
    unfolding items_in_def full_filter by (simp add: in_state_def)
  finally show ?thesis .
qed


end
