(* ===== verification/List_Visit.thy ===== *)
theory List_Visit
  imports List_Ledger Attempt_Binding Budget Fork_Drive
begin

text \<open>
  The list runner, \<^verbatim>\<open>apb-engine/src/scheduler/list/\<close> (\<^verbatim>\<open>mod.rs\<close>, \<^verbatim>\<open>batch.rs\<close>,
  \<^verbatim>\<open>run.rs\<close>): how a visit of a list node opens, how its batches are admitted and settled,
  and what the node comes to.  An item's own execution (its step and its check) is an input: what it
  came to, what was written to the journal meanwhile, and the flags the runner reads then.  Writing a
  file or a journal line always succeeds here.
\<close>

section \<open>The visit and its surroundings\<close>

text \<open>
  What the code outside calls: the clock of the journal, JSON reading and quoting, the digest, the
  snapshot of an item's result, the session in a transcript, a JSON number, the text of an amount
  and child journals (for the budget gate).
\<close>

record list_env =
  le_clk :: "nat \<Rightarrow> nat"
  le_json :: json_reader
  le_quote :: "string \<Rightarrow> string"
  le_sha :: "string \<Rightarrow> string"
  le_capture :: "string \<Rightarrow> node_status \<times> string \<Rightarrow> opaque option"
  le_session :: "event \<Rightarrow> string option"
  le_num :: "nat \<Rightarrow> json"
  le_cents :: "f64 \<Rightarrow> string"
  le_journals :: "string \<Rightarrow> event list option"

record list_run =
  lr_node :: node
  lr_spec :: list_spec
  lr_items :: "item list"
  lr_workers :: nat

definition run_item :: "list_run \<Rightarrow> string \<Rightarrow> item option" where
  "run_item run i = find (\<lambda>it. it_id it = i) (lr_items run)"

definition run_ids :: "list_run \<Rightarrow> string list" where
  "run_ids run = map it_id (lr_items run)"

definition run_key :: "list_run \<Rightarrow> string \<Rightarrow> exec_key" where
  "run_key run i = \<lparr> ek_node = n_id (lr_node run), ek_item = Some i \<rparr>"

definition output_object :: "json_reader \<Rightarrow> string \<Rightarrow> (string \<times> json) list option" where
  "output_object J output = Option.bind (J output) as_object"

definition SETTLED_OUTPUT_MAX_BYTES :: nat where "SETTLED_OUTPUT_MAX_BYTES = 2048"

definition truncated_output :: string where
  "truncated_output = [CHR 0x7B, CHR 0x22] @ ''truncated'' @ [CHR 0x22] @ '':true'' @ [CHR 0x7D]"

definition settled_output :: "list_env \<Rightarrow> list_spec \<Rightarrow> string \<Rightarrow> string option" where
  "settled_output env sp output =
     (case output_object (le_json env) output of
        None \<Rightarrow> None
      | Some obj \<Rightarrow>
          (let kept = (if sp_item_outputs sp = [] then obj
                       else filter (\<lambda>(k, _). k \<in> set (field_names (sp_item_outputs sp))) obj);
               txt = canonical (le_quote env) (JObject kept)
           in if length txt \<le> SETTLED_OUTPUT_MAX_BYTES then Some txt else Some truncated_output))"

definition check_site :: "string \<Rightarrow> string" where
  "check_site nd = nd @ LIST_CHECK_SUFFIX"

section \<open>Settling an item\<close>

record item_settlement =
  se_id :: string
  se_state :: string
  se_verdict :: "string option"
  se_note :: "string option"
  se_reason :: "string option"
  se_output :: "string option"
  se_round :: u32
  se_carried :: bool
  se_check :: "string option"
  se_digest :: "string option"
  se_ran :: "(node_status \<times> string) option"

definition no_settlement :: "string \<Rightarrow> item_settlement" where
  "no_settlement i =
     \<lparr> se_id = i, se_state = [], se_verdict = None, se_note = None, se_reason = None, se_output = None,
       se_round = 0, se_carried = False, se_check = None, se_digest = None, se_ran = None \<rparr>"

definition settled_payload :: "list_run \<Rightarrow> item_settlement \<Rightarrow> opaque option \<Rightarrow> event_payload" where
  "settled_payload run s stamp =
     List_Item_Settled
       \<lparr> ls_node = n_id (lr_node run), ls_item = se_id s, ls_state = se_state s, ls_verdict = se_verdict s,
         ls_note = se_note s, ls_reason = se_reason s, ls_output = se_output s, ls_round = se_round s,
         ls_carried = se_carried s, ls_check = se_check s,
         ls_digest = (case se_digest s of Some d \<Rightarrow> Some d
                      | None \<Rightarrow> map_option it_digest (run_item run (se_id s))),
         ls_result = stamp \<rparr>"

definition settle_listed :: "list_env \<Rightarrow> list_run \<Rightarrow> item_settlement \<Rightarrow> run_log \<Rightarrow> run_log" where
  "settle_listed env run s lg =
     log_append (le_clk env) lg
       (settled_payload run s (Option.bind (se_ran s) (le_capture env (se_id s))))"

definition settle_interrupted ::
  "list_env \<Rightarrow> list_run \<Rightarrow> list_fold \<Rightarrow> string \<Rightarrow> string option \<Rightarrow> run_log \<Rightarrow> run_log" where
  "settle_interrupted env run f i reason lg =
     settle_listed env run ((no_settlement i)\<lparr> se_state := SETTLED_INTERRUPTED, se_reason := reason,
                       se_round := iv_round (visit_of f i) \<rparr>) lg"

text \<open>\<^verbatim>\<open>stamp_item\<close> on the records that carry an item.\<close>

definition stamp_item :: "string \<Rightarrow> event_payload \<Rightarrow> event_payload" where
  "stamp_item i p =
     (case p of
        Attempt_Started a \<Rightarrow> if as_item a = None then Attempt_Started (a\<lparr> as_item := Some i \<rparr>) else p
      | Attempt_Exited nd a None \<Rightarrow> Attempt_Exited nd a (Some i)
      | Attempt_Finished a \<Rightarrow> if af_item a = None then Attempt_Finished (a\<lparr> af_item := Some i \<rparr>) else p
      | Send_Intent_Recorded s \<Rightarrow> if sr_item s = None then Send_Intent_Recorded (s\<lparr> sr_item := Some i \<rparr>) else p
      | Decision_Made d \<Rightarrow> if dm_item d = None then Decision_Made (d\<lparr> dm_item := Some i \<rparr>) else p
      | Audit (Connector_Call nd c t None) \<Rightarrow> Audit (Connector_Call nd c t (Some i))
      | _ \<Rightarrow> p)"

definition append_item_events :: "list_env \<Rightarrow> string \<Rightarrow> event_payload list \<Rightarrow> run_log \<Rightarrow> run_log" where
  "append_item_events env i evs lg = foldl (\<lambda>lg p. log_append (le_clk env) lg (stamp_item i p)) lg evs"

definition PAUSE_INTERRUPT_NOTE :: string where
  "PAUSE_INTERRUPT_NOTE = ''interrupted by a pause (--now)''"

definition interrupted_session :: "list_env \<Rightarrow> event list \<Rightarrow> exec_key \<Rightarrow> u32 \<Rightarrow> string option" where
  "interrupted_session env es k a =
     (case rposition (\<lambda>e. key_started k e
             \<and> (case ev_payload e of Attempt_Started s \<Rightarrow> as_attempt s = a | _ \<Rightarrow> False)) es of
        None \<Rightarrow> None
      | Some start \<Rightarrow>
          (case le_session env (es ! start) of
             Some x \<Rightarrow> Some x
           | None \<Rightarrow>
               (case List.map_filter
                   (\<lambda>e. case ev_payload e of
                          Attempt_Finished f \<Rightarrow>
                            if key_finished k e \<and> af_attempt f = a then af_session f else None
                        | _ \<Rightarrow> None) (drop start es) of
                  s # _ \<Rightarrow> Some s | [] \<Rightarrow> None)))"

definition journal_interrupted :: "list_env \<Rightarrow> exec_key \<Rightarrow> run_log \<Rightarrow> run_log" where
  "journal_interrupted env k lg =
     (let es = snd lg;
          a = (case find (key_started k) (rev es) of
                 Some e \<Rightarrow> (case ev_payload e of Attempt_Started s \<Rightarrow> as_attempt s | _ \<Rightarrow> 1)
               | None \<Rightarrow> 1);
          p = Attempt_Finished
                \<lparr> af_node = ek_node k, af_attempt = a, af_status = ''interrupted'', af_duration_ms = None,
                  af_session = interrupted_session env es k a, af_summary = None, af_rejected_output = None,
                  af_partial_output = Some PAUSE_INTERRUPT_NOTE, af_failure_kind = None, af_usage = None,
                  af_output_truncated = [], af_transcript_incomplete = False, af_rejected_for = None,
                  af_rejection_fingerprint = None, af_stalled = False, af_item = None \<rparr>
      in log_append (le_clk env) lg (case ek_item k of Some i \<Rightarrow> stamp_item i p | None \<Rightarrow> p))"

section \<open>The sends of an item\<close>

definition open_tip :: "(u32 \<Rightarrow> bool) \<Rightarrow> u64 \<Rightarrow> ledger \<Rightarrow> intent_record \<Rightarrow> idempotency_mode option" where
  "open_tip alive now l tip =
     (let v = chain_verdict_of alive now l tip
      in if is_unknown (cv_state v) \<or> is_pending (cv_state v) then Some (ir_mode (cv_member v)) else None)"

definition unknown_send :: "(u32 \<Rightarrow> bool) \<Rightarrow> u64 \<Rightarrow> event list \<Rightarrow> string \<Rightarrow> exec_key \<Rightarrow> idempotency_mode option" where
  "unknown_send alive now es nd k =
     (let l = fold_ledger es;
          passed = (case Option.bind (ek_item k) (fmlookup (passed_floors es nd)) of Some q \<Rightarrow> q | None \<Rightarrow> 0);
          start = item_scope_floor alive now l k passed
      in case List.map_filter (open_tip alive now l)
                (filter (\<lambda>r. start \<le> ir_seq r \<and> key_exec (ir_key r) = k \<and> ir_superseded_by r = None)
                  (lg_records l)) of
           m # _ \<Rightarrow> Some m | [] \<Rightarrow> None)"

section \<open>Settling an item whose step finished\<close>

text \<open>\<^verbatim>\<open>clip\<close>: at most \<open>mx\<close> bytes, on a character boundary.\<close>

definition char_boundary :: "string \<Rightarrow> nat \<Rightarrow> bool" where
  "char_boundary s n \<longleftrightarrow> n = length s \<or> (n < length s \<and> \<not> cont_byte (s ! n))"

fun boundary_below :: "string \<Rightarrow> nat \<Rightarrow> nat" where
  "boundary_below s 0 = 0"
| "boundary_below s (Suc n) = (if char_boundary s (Suc n) then Suc n else boundary_below s n)"

definition clip :: "string \<Rightarrow> nat \<Rightarrow> string" where
  "clip s mx = take (boundary_below s (min (length s) mx)) s"

function text_lines :: "string \<Rightarrow> string list" where
  "text_lines s =
     (if s = [] then []
      else case split_once (CHR 0x0A) s of
             None \<Rightarrow> [s] | Some (l, rest) \<Rightarrow> l # text_lines rest)"
  by pat_completeness auto
termination
proof (relation "measure length")
  fix s p l rest
  assume a: "s \<noteq> []" "split_once (CHR 0x0A) s = Some p" "(l, rest) = p"
  have "split_once c s = Some (l, rest) \<Longrightarrow> length rest < length s" for c
    by (induction s arbitrary: l rest) (auto split: if_splits)
  then show "(rest, s) \<in> measure length" using a by auto
qed simp

declare text_lines.simps [simp del]

definition failure_note :: "look_reason \<Rightarrow> string \<Rightarrow> string option" where
  "failure_note reason output =
     (case reason of
        Look_Failed \<Rightarrow>
          map_option (\<lambda>l. clip l 300) (find (\<lambda>l. l \<noteq> []) (map trim (text_lines output)))
      | Look_Unknown_Send \<Rightarrow>
          Some (''a send'' @ [CHR 0x27] @ ''s outcome is unknown; a person resolves it before a retry'')
      | _ \<Rightarrow> None)"

record checked =
  ck_verdict :: "item_verdict option"
  ck_note :: "string option"
  ck_kind :: "string option"

text \<open>
  What an item's execution came to, and what the runner reads as it settles it: the lines others
  wrote to the journal before, the clock, the processes alive, the stop flags.
\<close>

datatype ran =
    Ran_Finished node_status string "event_payload list" "checked option"
  | Ran_Paused pause_request "event_payload list"
  | Ran_Error opaque

record item_arrival =
  ar_outside :: "event list"
  ar_id :: string
  ar_ran :: ran
  ar_now :: u64
  ar_alive :: "u32 \<Rightarrow> bool"
  ar_pause_now :: bool
  ar_cancel :: bool

definition item_event_of :: "checked option \<Rightarrow> node_status \<Rightarrow> idempotency_mode option \<Rightarrow> item_event" where
  "item_event_of checked status unknown =
     (case unknown of
        Some m \<Rightarrow> Item_Failed (Some m)
      | None \<Rightarrow>
          (case checked of
             Some c \<Rightarrow>
               if status = Succeeded
               then (case ck_verdict c of Some v \<Rightarrow> Item_Checked v | None \<Rightarrow> Item_Check_Unknown)
               else Item_Failed None
           | None \<Rightarrow> Item_Failed None))"

definition finish_step ::
  "list_env \<Rightarrow> list_run \<Rightarrow> list_fold \<Rightarrow> item_arrival \<Rightarrow> node_status \<Rightarrow> string \<Rightarrow> checked option
     \<Rightarrow> run_log \<times> string list \<Rightarrow> run_log \<times> string list" where
  "finish_step env run f a status output checked st =
     (case st of (lg, queue) \<Rightarrow>
      let i = ar_id a; rec = visit_of f i; k = run_key run i in
      if status = Cancelled
      then let by_pause = (ar_pause_now a \<and> \<not> ar_cancel a);
               lg = (if by_pause then journal_interrupted env k lg else lg)
           in if ar_cancel a then (lg, queue) else (settle_interrupted env run f i None lg, queue)
      else
        let unknown = unknown_send (ar_alive a) (ar_now a) (snd lg) (n_id (lr_node run)) k;
            ev = item_event_of checked status unknown;
            note = (case unknown of Some _ \<Rightarrow> None | None \<Rightarrow> Option.bind checked ck_note);
            base = (no_settlement i)
              \<lparr> se_verdict := (case ev of Item_Checked v \<Rightarrow> Some (item_verdict_str v) | _ \<Rightarrow> None),
                se_output := settled_output env (lr_spec run) output, se_round := iv_round rec,
                se_check := Option.bind checked ck_kind, se_ran := Some (status, output) \<rparr>
        in case item_transition ev (iv_round rec) (bs_retries (sp_batch (lr_spec run))) (iv_reconciled rec) of
             Move_Pass _ \<Rightarrow>
               (settle_listed env run (base\<lparr> se_state := SETTLED_PASSED, se_note := note,
                  se_digest := map_option it_digest (run_item run i) \<rparr>) lg, queue)
           | Move_Requeue rnd False \<Rightarrow>
               (settle_listed env run (base\<lparr> se_state := SETTLED_REJECTED, se_note := note, se_round := rnd \<rparr>) lg,
                queue @ [i])
           | Move_Requeue _ True \<Rightarrow>
               (settle_interrupted env run f i (Some RECONCILE) lg, queue @ [i])
           | Move_Needs_Look reason \<Rightarrow>
               (settle_listed env run (base\<lparr> se_state := SETTLED_NEEDS_LOOK, se_reason := Some (look_reason_str reason),
                  se_note := (case note of Some x \<Rightarrow> Some x | None \<Rightarrow> failure_note reason output) \<rparr>) lg, queue)
           | Move_Pending \<Rightarrow> (settle_interrupted env run f i None lg, queue))"

section \<open>One batch\<close>

datatype list_end = End_Done | End_Halted | End_Pause pause_request | End_Cancelled | End_Exhausted

definition outside :: "event list \<Rightarrow> run_log \<Rightarrow> run_log" where
  "outside xs lg = (fst lg, snd lg @ xs)"

definition visit_now :: "list_run \<Rightarrow> run_log \<Rightarrow> list_fold" where
  "visit_now run lg =
     (case visit_fold (snd lg) (n_id (lr_node run)) of Some f \<Rightarrow> f | None \<Rightarrow> fresh_visit [] 0)"

record batch_state =
  bt_log :: run_log
  bt_queue :: "string list"
  bt_quota :: "pause_request option"
  bt_error :: "opaque option"

definition take_arrival :: "list_env \<Rightarrow> list_run \<Rightarrow> list_fold \<Rightarrow> batch_state \<Rightarrow> item_arrival \<Rightarrow> batch_state" where
  "take_arrival env run f s a =
     (let lg = outside (ar_outside a) (bt_log s) in
      case ar_ran a of
        Ran_Paused pause evs \<Rightarrow>
          s\<lparr> bt_quota := (case bt_quota s of Some p \<Rightarrow> Some p | None \<Rightarrow> Some pause),
             bt_log := settle_interrupted env run f (ar_id a) None (append_item_events env (ar_id a) evs lg) \<rparr>
      | Ran_Finished status output evs checked \<Rightarrow>
          (case finish_step env run f a status output checked
                  (append_item_events env (ar_id a) evs lg, bt_queue s) of
             (lg, queue) \<Rightarrow> s\<lparr> bt_log := lg, bt_queue := queue \<rparr>)
      | Ran_Error e \<Rightarrow>
          s\<lparr> bt_log := lg, bt_error := (case bt_error s of Some x \<Rightarrow> Some x | None \<Rightarrow> Some e) \<rparr>)"

text \<open>
  Workers take the batch's items from the front; what they started has arrived when the scope ends,
  so the items left are the rest.  \<open>aborted\<close> and \<open>stopped\<close> are what the runner reads then.
\<close>

definition run_batch ::
  "list_env \<Rightarrow> list_run \<Rightarrow> string list \<Rightarrow> item_arrival list \<Rightarrow> bool \<Rightarrow> bool \<Rightarrow> run_log \<times> string list
     \<Rightarrow> (run_log \<times> string list) \<times> (opaque + list_end option)" where
  "run_batch env run ids came aborted stopped st =
     (let f = visit_now run (fst st);
          s = foldl (take_arrival env run f)
                \<lparr> bt_log = fst st, bt_queue = snd st, bt_quota = None, bt_error = None \<rparr> came
      in case bt_error s of
           Some e \<Rightarrow> ((bt_log s, bt_queue s), Inl e)
         | None \<Rightarrow>
             (let left = drop (length came) ids;
                  lg = (if aborted then bt_log s
                        else foldl (\<lambda>lg i. settle_interrupted env run f i None lg) (bt_log s) left);
                  ended = (if aborted then Some End_Cancelled
                           else case bt_quota s of
                                  Some p \<Rightarrow> Some (End_Pause p)
                                | None \<Rightarrow> if left \<noteq> [] \<or> stopped then Some End_Halted else None)
              in ((lg, bt_queue s), Inr ended)))"

section \<open>The batches of a visit\<close>

record batch_input =
  bi_stopped :: "list_end option"
  bi_before :: "event list"
  bi_arrivals :: "item_arrival list"
  bi_aborted :: bool
  bi_stopped_after :: bool

record visit_state =
  vs_log :: run_log
  vs_queue :: "string list"
  vs_batch :: u32
  vs_gate :: "drive_gate option"

definition batch_size_of :: "list_run \<Rightarrow> nat" where
  "batch_size_of run = unat (max (bs_size (sp_batch (lr_spec run))) 1)"

definition gate_batch ::
  "list_env \<Rightarrow> list_run \<Rightarrow> drive_gate option \<Rightarrow> u32 \<Rightarrow> nat \<Rightarrow> run_log \<Rightarrow> run_log \<times> admission \<times> drive_gate option" where
  "gate_batch env run gate batch items lg =
     (case gate of
        None \<Rightarrow> (lg, Go, None)
      | Some g \<Rightarrow>
          (case admit_batch (le_cents env) (le_journals env) g (snd lg) (lr_node run) batch (of_nat items) of
             (evs, adm, g') \<Rightarrow> (foldl (log_append (le_clk env)) lg evs, adm, Some g')))"

definition list_progress :: "list_env \<Rightarrow> list_run \<Rightarrow> run_log \<Rightarrow> run_log" where
  "list_progress env run lg =
     (let c = visit_counts (visit_now run lg)
      in log_append (le_clk env) lg
           (Audit (Run_Progress (n_id (lr_node run)) (ucast (ct_processed c)) (ucast (ct_total c))
              (Some (progress_label c)))))"

text \<open>One turn of the loop over a queue that is not empty: the new state, and how the visit ends if it does.\<close>

definition batch_turn ::
  "list_env \<Rightarrow> list_run \<Rightarrow> batch_input \<Rightarrow> visit_state \<Rightarrow> visit_state \<times> (opaque + list_end) option" where
  "batch_turn env run b st =
     (case bi_stopped b of
        Some e \<Rightarrow> (st, Some (Inr e))
      | None \<Rightarrow>
          (let n = min (length (vs_queue st)) (batch_size_of run) in
           case gate_batch env run (vs_gate st) (vs_batch st + 1) n (outside (bi_before b) (vs_log st)) of
             (lg, adm, gate) \<Rightarrow>
               (case adm of
                  Pause_With p \<Rightarrow> (st\<lparr> vs_log := lg, vs_gate := gate \<rparr>, Some (Inr (End_Pause p)))
                | admission.Exhausted \<Rightarrow> (st\<lparr> vs_log := lg, vs_gate := gate \<rparr>, Some (Inr End_Exhausted))
                | Go \<Rightarrow>
                    (let ids = take n (vs_queue st);
                         lg = log_append (le_clk env) lg
                                (Audit (List_Batch_Started (n_id (lr_node run)) (vs_batch st + 1) ids))
                     in case run_batch env run ids (bi_arrivals b) (bi_aborted b) (bi_stopped_after b)
                               (lg, drop n (vs_queue st)) of
                          ((lg, queue), r) \<Rightarrow>
                            (let st' = \<lparr> vs_log = lg, vs_queue = queue, vs_batch = vs_batch st + 1, vs_gate = gate \<rparr>
                             in case r of
                                  Inl e \<Rightarrow> (st', Some (Inl e))
                                | Inr ended \<Rightarrow> (st'\<lparr> vs_log := list_progress env run lg \<rparr>, map_option Inr ended))))))"

text \<open>\<open>None\<close>: the inputs are used up with items still queued.\<close>

fun run_batches ::
  "list_env \<Rightarrow> list_run \<Rightarrow> batch_input list \<Rightarrow> visit_state \<Rightarrow> visit_state \<times> (opaque + list_end) option" where
  "run_batches env run [] st = (st, if vs_queue st = [] then Some (Inr End_Done) else None)"
| "run_batches env run (b # bs) st =
     (if vs_queue st = [] then (st, Some (Inr End_Done))
      else case batch_turn env run b st of
             (st', Some r) \<Rightarrow> (st', Some r)
           | (st', None) \<Rightarrow> run_batches env run bs st')"

definition begin_batches :: "list_run \<Rightarrow> drive_gate option \<Rightarrow> run_log \<Rightarrow> visit_state" where
  "begin_batches run gate lg =
     (let f = visit_now run lg
      in \<lparr> vs_log = lg, vs_queue = remaining_items f (run_ids run), vs_batch = lf_batch f, vs_gate = gate \<rparr>)"

section \<open>Opening a visit\<close>

definition NODE_RETRY :: string where "NODE_RETRY = ''node_retry''"

definition retried_after_failure :: "event list \<Rightarrow> string \<Rightarrow> nat \<Rightarrow> bool" where
  "retried_after_failure es nd q =
     (case rposition (\<lambda>e. q < ev_seq e
              \<and> (case ev_payload e of Node_Finished p \<Rightarrow> nf_node p = nd | _ \<Rightarrow> False)) es of
        None \<Rightarrow> False
      | Some at \<Rightarrow>
          (case ev_payload (es ! at) of Node_Finished p \<Rightarrow> nf_status p \<noteq> node_status_str Succeeded | _ \<Rightarrow> False)
          \<and> list_ex (\<lambda>e. case ev_payload e of
                       Supervisor_Action action (Some n) _ \<Rightarrow> n = nd \<and> action = NODE_RETRY | _ \<Rightarrow> False)
              (drop at es))"

definition requeue_for_retry ::
  "list_env \<Rightarrow> list_run \<Rightarrow> list_fold \<Rightarrow> (exec_key \<Rightarrow> idempotency_mode option) \<Rightarrow> run_log \<Rightarrow> run_log" where
  "requeue_for_retry env run previous open_sends lg =
     foldl (\<lambda>lg i. let rec = visit_of previous i in
              if iv_state rec \<noteq> Some Item_Needs_Look \<or> iv_reason rec = Some (look_reason_str Look_Too_Large)
                 \<or> open_sends (run_key run i) \<noteq> None
              then lg
              else settle_listed env run ((no_settlement i)\<lparr> se_round := iv_round rec, se_state := SETTLED_INTERRUPTED,
                     se_reason := Some ''retry'' \<rparr>) lg)
       lg (sorted_list_of_fset (fmdom (lf_items previous)))"

definition park_unknown_sends ::
  "list_env \<Rightarrow> list_run \<Rightarrow> (exec_key \<Rightarrow> idempotency_mode option) \<Rightarrow> run_log \<Rightarrow> run_log" where
  "park_unknown_sends env run open_sends lg =
     foldl (\<lambda>lg it. if open_sends (run_key run (it_id it)) \<noteq> None
              then settle_listed env run ((no_settlement (it_id it))\<lparr> se_state := SETTLED_NEEDS_LOOK,
                     se_reason := Some (look_reason_str Look_Unknown_Send),
                     se_note := failure_note Look_Unknown_Send [] \<rparr>) lg
              else lg)
       lg (lr_items run)"

definition carry_passed :: "list_env \<Rightarrow> list_run \<Rightarrow> list_fold \<Rightarrow> run_log \<Rightarrow> run_log" where
  "carry_passed env run previous lg =
     foldl (\<lambda>lg it. case fmlookup (lf_items previous) (it_id it) of
                None \<Rightarrow> lg
              | Some rec \<Rightarrow>
                  if iv_state rec \<noteq> Some Item_Passed \<or> iv_digest rec \<noteq> Some (it_digest it) then lg
                  else log_append (le_clk env) lg
                    (settled_payload run
                       \<lparr> se_id = it_id it, se_state = SETTLED_PASSED, se_verdict = iv_verdict rec,
                         se_note = iv_note rec, se_reason = None, se_output = iv_output rec,
                         se_round = iv_round rec, se_carried = True, se_check = None,
                         se_digest = Some (it_digest it), se_ran = None \<rparr> None))
       lg (lr_items run)"

definition settle_too_large :: "list_env \<Rightarrow> list_run \<Rightarrow> list_fold option \<Rightarrow> run_log \<Rightarrow> run_log" where
  "settle_too_large env run f lg =
     foldl (\<lambda>lg it. if \<not> (case f of Some f \<Rightarrow> id_terminal f (it_id it) | None \<Rightarrow> False)
                       \<and> item_bytes (le_quote env) it > ITEM_MAX_BYTES
              then settle_listed env run ((no_settlement (it_id it))\<lparr> se_state := SETTLED_NEEDS_LOOK,
                     se_reason := Some (look_reason_str Look_Too_Large),
                     se_note := Some (''the item is larger than '' @ show_nat ITEM_MAX_BYTES @ '' bytes'') \<rparr>) lg
              else lg)
       lg (lr_items run)"

definition open_visit ::
  "list_env \<Rightarrow> list_run \<Rightarrow> (u32 \<Rightarrow> bool) \<Rightarrow> u64 \<Rightarrow> u32 \<Rightarrow> run_log \<Rightarrow> run_log" where
  "open_visit env run alive now filtered_out lg =
     (let nd = n_id (lr_node run); es = snd lg; digest = items_digest (le_sha env) (lr_items run);
          f = visit_fold es nd;
          same = (case f of Some f \<Rightarrow> if lf_items_digest f = digest then Some f else None | None \<Rightarrow> None)
      in if (case same of Some f \<Rightarrow> visit_is_open f | None \<Rightarrow> False)
         then settle_too_large env run same lg
         else
           let reopen = (case same of Some f \<Rightarrow> retried_after_failure es nd (lf_started_seq f) | None \<Rightarrow> False);
               open_sends = unknown_send alive now es nd;
               lg = log_append (le_clk env) lg (Audit (List_Started
                      \<lparr> lt_node = nd, lt_total = of_nat (length (lr_items run)), lt_filtered_out = filtered_out,
                        lt_items_digest = digest, lt_batch_size = max (bs_size (sp_batch (lr_spec run))) 1,
                        lt_parallel = of_nat (lr_workers run), lt_reopened = reopen \<rparr>));
               lg = (case (reopen, same) of
                       (True, Some previous) \<Rightarrow> requeue_for_retry env run previous open_sends lg
                     | _ \<Rightarrow>
                         park_unknown_sends env run open_sends
                           (case (sp_rerun (lr_spec run), f) of
                              (Rerun_Not_Passed, Some previous) \<Rightarrow> carry_passed env run previous lg
                            | _ \<Rightarrow> lg))
           in settle_too_large env run (visit_fold (snd lg) nd) lg)"

section \<open>What the node comes to\<close>

definition item_json :: "list_env \<Rightarrow> list_fold \<Rightarrow> item \<Rightarrow> json" where
  "item_json env f it =
     (let rec = visit_of f (it_id it)
      in JObject
        [(''id'', JString (it_id it)),
         (''state'', JString (case iv_state rec of Some s \<Rightarrow> item_state_str s | None \<Rightarrow> ''pending'')),
         (''note'', case iv_note rec of Some n \<Rightarrow> JString n | None \<Rightarrow> JNull),
         (''item'', it_value it),
         (''output'', case Option.bind (iv_output rec) (le_json env) of Some v \<Rightarrow> v | None \<Rightarrow> JNull)])"

definition compose_list :: "list_env \<Rightarrow> list_run \<Rightarrow> run_log \<Rightarrow> node_status \<times> string" where
  "compose_list env run lg =
     (let f = visit_now run lg; c = visit_counts f; num = (\<lambda>w :: u32. le_num env (unat w));
          output = canonical (le_quote env) (JObject
            [(''total'', num (ct_total c)), (''processed'', num (ct_processed c)), (''passed'', num (ct_passed c)),
             (''passed_with_note'', num (ct_passed_with_note c)), (''needs_look'', num (ct_needs_look c)),
             (''filtered_out'', num (lf_filtered_out f)), (''items'', JArray (map (item_json env f) (lr_items run)))]);
          failed = (ct_needs_look c > 0 \<and> sp_on_needs_look (lr_spec run) = Look_Fail)
      in (if failed then Failed else Succeeded, output))"

datatype list_outcome =
    List_Finished node_status string
  | List_Halted
  | List_Paused pause_request
  | List_Error opaque

definition list_outcome_of :: "list_env \<Rightarrow> list_run \<Rightarrow> run_log \<Rightarrow> opaque + list_end \<Rightarrow> list_outcome" where
  "list_outcome_of env run lg r =
     (case r of
        Inl e \<Rightarrow> List_Error e
      | Inr End_Done \<Rightarrow> (case compose_list env run lg of (status, output) \<Rightarrow> List_Finished status output)
      | Inr End_Cancelled \<Rightarrow> List_Finished Cancelled ''cancelled''
      | Inr End_Halted \<Rightarrow> List_Halted
      | Inr End_Exhausted \<Rightarrow> List_Halted
      | Inr (End_Pause p) \<Rightarrow> List_Paused p)"

definition visit_run :: "node \<Rightarrow> list_spec \<Rightarrow> loaded_items \<Rightarrow> nat \<Rightarrow> list_run" where
  "visit_run n sp lo max_parallel =
     \<lparr> lr_node = n, lr_spec = sp, lr_items = lo_items lo, lr_workers = list_workers sp max_parallel \<rparr>"

text \<open>
  \<open>outside_before\<close> is what rendering the node's prompt writes; \<open>scripted\<close> a scenario's items.
  \<open>None\<close>: the inputs are used up.
\<close>

definition execute_list ::
  "list_env \<Rightarrow> playbook \<Rightarrow> node \<Rightarrow> list_spec \<Rightarrow> run_state \<Rightarrow> json list option \<Rightarrow> nat \<Rightarrow> drive_gate option
     \<Rightarrow> (u32 \<Rightarrow> bool) \<Rightarrow> u64 \<Rightarrow> event list \<Rightarrow> batch_input list \<Rightarrow> run_log \<Rightarrow> run_log \<times> list_outcome option" where
  "execute_list env pb n sp s scripted max_parallel gate alive now outside_before inputs lg =
     (case load_items (le_json env) (le_quote env) (le_sha env) pb s (sp_items sp) scripted of
        Inl why \<Rightarrow> (lg, Some (List_Finished Failed (''list '' @ ticked (n_id n) @ '': '' @ why)))
      | Inr lo \<Rightarrow>
          (let run = visit_run n sp lo max_parallel;
               lg = open_visit env run alive now (lo_filtered_out lo) (outside outside_before lg)
           in case run_batches env run inputs (begin_batches run gate lg) of
                (st, r) \<Rightarrow> (vs_log st, map_option (list_outcome_of env run (vs_log st)) r)))"


end
