(* ===== verification/List_Correct.thy ===== *)
theory List_Correct
  imports List_Visit
begin

text \<open>
  What the list runner guarantees: the queue is always exactly the items without a terminal state,
  every turn spends something of them, and an item with an open send never passes.
\<close>

section \<open>An item as the state machine sees it\<close>

type_synonym look = "item_state option \<times> u32 \<times> bool"

definition look_of :: "item_record \<Rightarrow> look" where
  "look_of r = (iv_state r, iv_round r, iv_reconciled r)"

definition looks :: "list_run \<Rightarrow> run_log \<Rightarrow> string \<Rightarrow> look" where
  "looks run lg i = look_of (visit_of (visit_now run lg) i)"

definition look_done :: "look \<Rightarrow> bool" where
  "look_done x = (case fst x of Some s \<Rightarrow> state_terminal s | None \<Rightarrow> False)"

definition visiting :: "list_run \<Rightarrow> run_log \<Rightarrow> bool" where
  "visiting run lg \<longleftrightarrow> visit_fold (snd lg) (n_id (lr_node run)) \<noteq> None"

abbreviation list_id :: "list_run \<Rightarrow> string" where
  "list_id run \<equiv> n_id (lr_node run)"

lemma look_done_iff: "look_done (looks run lg i) = id_terminal (visit_now run lg) i"
  by (simp add: look_done_def looks_def look_of_def id_terminal_iff item_terminal_def)

lemma visiting_now: "visiting run lg \<Longrightarrow> visit_fold (snd lg) (list_id run) = Some (visit_now run lg)"
  by (auto simp: visiting_def visit_now_def)

lemma now_looks: "visit_fold (snd lg) (list_id run) = Some f \<Longrightarrow> looks run lg i = look_of (visit_of f i)"
  by (simp add: looks_def visit_now_def)

lemma same_look: "same_visit f g \<Longrightarrow> look_of (visit_of g i) = look_of (visit_of f i)"
  by (simp add: look_of_def same_visitD)

lemma outside_looks:
  assumes "visiting run lg" "\<forall>x\<in>set xs. quiet_for (list_id run) (ev_payload x)"
  shows "visiting run (outside xs lg)" "looks run (outside xs lg) = looks run lg"
proof -
  obtain g where g: "visit_fold (snd (outside xs lg)) (list_id run) = Some g" "same_visit (visit_now run lg) g"
    using visit_fold_quiet [OF visiting_now [OF assms(1)] assms(2)] by (auto simp: outside_def)
  show "visiting run (outside xs lg)" using g(1) by (simp add: visiting_def)
  show "looks run (outside xs lg) = looks run lg"
    using now_looks [OF g(1)] same_look [OF g(2)] by (auto simp: looks_def)
qed

lemma append_looks:
  assumes v: "visiting run lg" and p: "\<And>e. ev_payload e = p \<Longrightarrow> \<not> opens_visit (list_id run) e"
  obtains e where "ev_payload e = p" "visiting run (log_append clk lg p)"
    "\<And>i. looks run (log_append clk lg p) i = look_of (visit_of (visit_event (list_id run) (visit_now run lg) e) i)"
proof -
  let ?nd = "list_id run" and ?f = "visit_now run lg"
  obtain e gs where e: "snd (log_append clk lg p) = snd lg @ e # gs" "ev_payload e = p"
    and gs: "\<forall>g\<in>set gs. is_guard_line (ev_payload g)"
    using log_append_lines by blast
  have "visit_fold (snd lg @ [e]) ?nd = Some (visit_event ?nd ?f e)"
    using p [OF e(2)] visiting_now [OF v] unfolding visit_fold_snoc by simp
  moreover have "\<forall>g\<in>set gs. quiet_for ?nd (ev_payload g)"
    using gs by (auto simp: quiet_for_def is_guard_line_def split: event_payload.splits)
  ultimately obtain g where g: "visit_fold ((snd lg @ [e]) @ gs) ?nd = Some g" "same_visit (visit_event ?nd ?f e) g"
    using visit_fold_quiet by blast
  then have a: "visit_fold (snd (log_append clk lg p)) ?nd = Some g" using e(1) by simp
  show thesis
    by (rule that [of e]) (use e(2) a now_looks [OF a] same_look [OF g(2)] in \<open>simp_all add: visiting_def\<close>)
qed

lemma append_quiet:
  assumes v: "visiting run lg" and q: "quiet_for (list_id run) p"
  shows "visiting run (log_append clk lg p)" "looks run (log_append clk lg p) = looks run lg"
proof -
  have "\<not> opens_visit (list_id run) e" if "ev_payload e = p" for e using quiet_no_start q that by blast
  then obtain e where e: "ev_payload e = p" and vi: "visiting run (log_append clk lg p)"
    and l: "\<And>i. looks run (log_append clk lg p) i
      = look_of (visit_of (visit_event (list_id run) (visit_now run lg) e) i)"
    using append_looks [OF v] by blast
  show "visiting run (log_append clk lg p)" by (rule vi)
  show "looks run (log_append clk lg p) = looks run lg"
    using l same_look [OF visit_event_quiet] q e by (auto simp: looks_def)
qed

lemma append_all_quiet:
  assumes "visiting run lg" "\<forall>p\<in>set ps. quiet_for (list_id run) (g p)"
  shows "visiting run (foldl (\<lambda>lg p. log_append clk lg (g p)) lg ps)
    \<and> looks run (foldl (\<lambda>lg p. log_append clk lg (g p)) lg ps) = looks run lg"
  using assms by (induction ps arbitrary: lg) (simp_all add: append_quiet)

lemma stamp_quiet: "quiet_for nd p \<Longrightarrow> quiet_for nd (stamp_item i p)"
  by (auto simp: quiet_for_def stamp_item_def split: event_payload.splits audit_kind.splits option.splits)

lemma item_events_quiet:
  assumes "visiting run lg" "\<forall>p\<in>set evs. quiet_for (list_id run) p"
  shows "visiting run (append_item_events env i evs lg)" "looks run (append_item_events env i evs lg) = looks run lg"
  using append_all_quiet [OF assms(1), of evs "stamp_item i" "le_clk env"] assms(2)
  by (simp_all add: append_item_events_def stamp_quiet)

lemma journal_interrupted_looks:
  assumes "visiting run lg"
  shows "visiting run (journal_interrupted env k lg)" "looks run (journal_interrupted env k lg) = looks run lg"
proof -
  have "\<exists>x. stamp_item i (Attempt_Finished a) = Attempt_Finished x" for i a by (simp add: stamp_item_def)
  then have "\<exists>a. journal_interrupted env k lg = log_append (le_clk env) lg (Attempt_Finished a)"
    unfolding journal_interrupted_def Let_def by (cases "ek_item k") (metis option.simps)+
  then obtain a where a: "journal_interrupted env k lg = log_append (le_clk env) lg (Attempt_Finished a)" ..
  have "quiet_for (list_id run) (Attempt_Finished a)" by (simp add: quiet_for_def)
  then show "visiting run (journal_interrupted env k lg)" "looks run (journal_interrupted env k lg) = looks run lg"
    unfolding a by (rule append_quiet [OF assms])+
qed

definition settled_to :: "string \<Rightarrow> item_state" where
  "settled_to s =
     (if s = SETTLED_PASSED then Item_Passed else if s = SETTLED_NEEDS_LOOK then Item_Needs_Look else Item_Pending)"

lemma settle_looks:
  assumes v: "visiting run lg"
  shows "visiting run (settle_listed env run s lg)"
    "looks run (settle_listed env run s lg) = (looks run lg)(se_id s :=
       (Some (settled_to (se_state s)), se_round s,
        snd (snd (looks run lg (se_id s))) \<or> (se_state s = SETTLED_INTERRUPTED \<and> se_reason s = Some RECONCILE)))"
proof -
  let ?st = "Option.bind (se_ran s) (le_capture env (se_id s))"
  have "\<not> opens_visit (list_id run) e" if "ev_payload e = settled_payload run s ?st" for e
    using that by (simp add: opens_visit_def settled_payload_def)
  then obtain e where e: "ev_payload e = settled_payload run s ?st" and vi: "visiting run (settle_listed env run s lg)"
    and l: "\<And>i. looks run (settle_listed env run s lg) i
      = look_of (visit_of (visit_event (list_id run) (visit_now run lg) e) i)"
    using append_looks [OF v] unfolding settle_listed_def by blast
  show "visiting run (settle_listed env run s lg)" by (rule vi)
  show "looks run (settle_listed env run s lg) = (looks run lg)(se_id s :=
       (Some (settled_to (se_state s)), se_round s,
        snd (snd (looks run lg (se_id s))) \<or> (se_state s = SETTLED_INTERRUPTED \<and> se_reason s = Some RECONCILE)))"
  proof
    fix i
    show "looks run (settle_listed env run s lg) i = ((looks run lg)(se_id s :=
       (Some (settled_to (se_state s)), se_round s,
        snd (snd (looks run lg (se_id s))) \<or> (se_state s = SETTLED_INTERRUPTED \<and> se_reason s = Some RECONCILE)))) i"
      unfolding l by (simp add: visit_event_def e settled_payload_def settle_item_def look_of_def looks_def settled_to_def) blast
  qed
qed

lemma interrupted_looks:
  assumes "visiting run lg"
  shows "visiting run (settle_interrupted env run f i reason lg)"
    "looks run (settle_interrupted env run f i reason lg) = (looks run lg)(i :=
       (Some Item_Pending, iv_round (visit_of f i), snd (snd (looks run lg i)) \<or> reason = Some RECONCILE))"
  using settle_looks [OF assms]
  by (simp_all add: settle_interrupted_def no_settlement_def settled_to_def SETTLED_INTERRUPTED_def
      SETTLED_PASSED_def SETTLED_NEEDS_LOOK_def)

lemma batch_started_looks:
  assumes v: "visiting run lg"
  shows "visiting run (log_append clk lg (Audit (List_Batch_Started (list_id run) b ids)))"
    "looks run (log_append clk lg (Audit (List_Batch_Started (list_id run) b ids))) =
       (\<lambda>j. if j \<in> set ids \<and> \<not> look_done (looks run lg j)
            then (Some Item_Running, snd (looks run lg j)) else looks run lg j)"
proof -
  let ?p = "Audit (List_Batch_Started (list_id run) b ids)"
  have "\<not> opens_visit (list_id run) e" if "ev_payload e = ?p" for e using that by (simp add: opens_visit_def)
  then obtain e where e: "ev_payload e = ?p" and vi: "visiting run (log_append clk lg ?p)"
    and l: "\<And>i. looks run (log_append clk lg ?p) i
      = look_of (visit_of (visit_event (list_id run) (visit_now run lg) e) i)"
    using append_looks [OF v] by blast
  show "visiting run (log_append clk lg ?p)" by (rule vi)
  have st: "look_of (fget (foldl (admit_item b) m ids) no_record j) =
      (if j \<in> set ids \<and> \<not> look_done (look_of (fget m no_record j))
       then (Some Item_Running, snd (look_of (fget m no_record j))) else look_of (fget m no_record j))" for m j
  proof (induction ids arbitrary: m)
    case (Cons i ids)
    have "look_of (fget (admit_item b m i) no_record j) =
        (if j = i \<and> \<not> look_done (look_of (fget m no_record j))
         then (Some Item_Running, snd (look_of (fget m no_record j))) else look_of (fget m no_record j))"
      by (cases "j = i")
        (auto simp: admit_item_other admit_item_self look_of_def look_done_def item_terminal_def)
    then show ?case by (auto simp: Cons.IH look_done_def state_terminal_def)
  qed simp
  show "looks run (log_append clk lg ?p) = (\<lambda>j. if j \<in> set ids \<and> \<not> look_done (looks run lg j)
            then (Some Item_Running, snd (looks run lg j)) else looks run lg j)"
  proof
    fix j
    show "looks run (log_append clk lg ?p) j = (if j \<in> set ids \<and> \<not> look_done (looks run lg j)
            then (Some Item_Running, snd (looks run lg j)) else looks run lg j)"
      unfolding l by (simp add: visit_event_def e visit_of_def st looks_def)
  qed
qed

section \<open>One item back from its execution\<close>

definition after_look :: "item_move \<Rightarrow> u32 \<Rightarrow> bool \<Rightarrow> look" where
  "after_look m r rc =
     (case m of
        Move_Pass _ \<Rightarrow> (Some Item_Passed, r, rc)
      | Move_Requeue rnd free \<Rightarrow> (Some Item_Pending, if free then r else rnd, rc \<or> free)
      | Move_Needs_Look _ \<Rightarrow> (Some Item_Needs_Look, r, rc)
      | Move_Pending \<Rightarrow> (Some Item_Pending, r, rc))"

definition requeues :: "item_move \<Rightarrow> bool" where
  "requeues m = (case m of Move_Requeue _ _ \<Rightarrow> True | _ \<Rightarrow> False)"

definition move_of :: "list_run \<Rightarrow> list_fold \<Rightarrow> item_arrival \<Rightarrow> node_status \<Rightarrow> checked option \<Rightarrow> run_log \<Rightarrow> item_move" where
  "move_of run f a status checked lg =
     item_transition
       (item_event_of checked status
          (unknown_send (ar_alive a) (ar_now a) (snd lg) (list_id run) (run_key run (ar_id a))))
       (iv_round (visit_of f (ar_id a))) (bs_retries (sp_batch (lr_spec run)))
       (iv_reconciled (visit_of f (ar_id a)))"

lemma settle_visiting: "visiting run lg \<Longrightarrow> visiting run (settle_listed env run s lg)"
  by (rule settle_looks)

lemma finish_visiting:
  assumes v: "visiting run lg" and fin: "finish_step env run f a status output checked (lg, queue) = (lg', queue')"
  shows "visiting run lg'" "\<And>j. j \<noteq> ar_id a \<Longrightarrow> looks run lg' j = looks run lg j"
proof -
  note simps = finish_step_def Let_def no_settlement_def
  have "visiting run lg' \<and> (\<forall>j. j \<noteq> ar_id a \<longrightarrow> looks run lg' j = looks run lg j)"
  proof (cases "status = Cancelled")
    case True
    then show ?thesis using fin v
      by (auto simp: finish_step_def Let_def journal_interrupted_looks interrupted_looks split: if_splits)
  next
    case False
    then show ?thesis using fin v
      by (auto simp: simps settle_looks interrupted_looks split: item_move.splits bool.splits)
  qed
  then show "visiting run lg'" "\<And>j. j \<noteq> ar_id a \<Longrightarrow> looks run lg' j = looks run lg j" by simp_all
qed

lemma finish_looks:
  assumes v: "visiting run lg" and s: "status \<noteq> Cancelled"
    and fin: "finish_step env run f a status output checked (lg, queue) = (lg', queue')"
  shows "looks run lg' (ar_id a)
      = after_look (move_of run f a status checked lg) (iv_round (visit_of f (ar_id a)))
          (snd (snd (looks run lg (ar_id a))))"
    "queue' = queue @ (if requeues (move_of run f a status checked lg) then [ar_id a] else [])"
proof -
  note simps = finish_step_def Let_def no_settlement_def move_of_def [symmetric] after_look_def requeues_def
    settled_to_def SETTLED_PASSED_def SETTLED_NEEDS_LOOK_def SETTLED_REJECTED_def SETTLED_INTERRUPTED_def
  have "looks run lg' (ar_id a)
      = after_look (move_of run f a status checked lg) (iv_round (visit_of f (ar_id a)))
          (snd (snd (looks run lg (ar_id a))))
    \<and> queue' = queue @ (if requeues (move_of run f a status checked lg) then [ar_id a] else [])"
  proof (cases "move_of run f a status checked lg")
    case (Move_Requeue rnd rc)
    then show ?thesis using fin v s
      by (cases rc) (auto simp: simps settle_looks interrupted_looks)
  qed (use fin v s in \<open>auto simp: simps settle_looks interrupted_looks\<close>)
  then show "looks run lg' (ar_id a)
      = after_look (move_of run f a status checked lg) (iv_round (visit_of f (ar_id a)))
          (snd (snd (looks run lg (ar_id a))))"
    "queue' = queue @ (if requeues (move_of run f a status checked lg) then [ar_id a] else [])" by simp_all
qed

text \<open>A cancelled step is not queued again.\<close>

lemma cancelled_looks:
  assumes v: "visiting run lg"
    and fin: "finish_step env run f a Cancelled output checked (lg, queue) = (lg', queue')"
  shows "queue' = queue \<and> fst (looks run lg' (ar_id a)) =
    (if ar_cancel a then fst (looks run lg (ar_id a)) else Some Item_Pending)"
  using fin v journal_interrupted_looks [OF v]
  by (auto simp: finish_step_def Let_def interrupted_looks split: if_splits)

section \<open>What an item may still spend\<close>

definition burn :: "u32 \<Rightarrow> look \<Rightarrow> nat" where
  "burn retries x =
     (if look_done x then 0
      else (unat retries - unat (fst (snd x))) + (if snd (snd x) then 0 else 1) + 1)"

lemma burn_bound: "burn retries x \<le> unat retries + 2"
  by (cases "look_done x"; cases "snd (snd x)") (simp_all add: burn_def le_SucI)

lemma round_up: "(r :: u32) < retries \<Longrightarrow> unat (r + 1) = unat r + 1"
proof -
  assume "r < retries"
  then have "Suc (unat r) \<le> unat retries" by (simp add: word_less_nat_alt)
  from unat_count [OF this] show ?thesis by (simp add: add.commute)
qed

lemma move_spends:
  assumes "\<not> look_done (st, r, rc)"
  shows "burn retries (after_look (item_transition (item_event_of checked status unknown) r retries rc) r rc)
      < burn retries (st, r, rc)" (is ?burn)
    and "requeues (item_transition (item_event_of checked status unknown) r retries rc)
      \<longleftrightarrow> \<not> look_done (after_look (item_transition (item_event_of checked status unknown) r retries rc) r rc)" (is ?queue)
proof -
  have "item_event_of checked status unknown \<noteq> Item_Interrupted"
    by (auto simp: item_event_of_def split: option.splits if_splits)
  then obtain ev where ev: "item_event_of checked status unknown = ev" "ev \<noteq> Item_Interrupted" by blast
  have "burn retries (after_look (item_transition ev r retries rc) r rc) < burn retries (st, r, rc)
      \<and> (requeues (item_transition ev r retries rc) \<longleftrightarrow> \<not> look_done (after_look (item_transition ev r retries rc) r rc))"
  proof (cases ev)
    case (Item_Checked v)
    then show ?thesis using assms
      by (cases v) (auto simp: item_transition_def after_look_def burn_def look_done_def state_terminal_def requeues_def
          round_up word_less_nat_alt)
  next
    case Item_Check_Unknown
    then show ?thesis using assms
      by (auto simp: item_transition_def after_look_def burn_def look_done_def state_terminal_def requeues_def)
  next
    case (Item_Failed m)
    have "m = None \<or> m = Some Mode_Key \<or> m = Some Mode_Marker \<or> m = Some Mode_None \<or> m = Some Mode_Ref"
      by (metis idempotency_mode.exhaust option.exhaust)
    then show ?thesis using assms Item_Failed
      by (elim disjE) (auto simp: item_transition_def after_look_def burn_def look_done_def state_terminal_def requeues_def)
  next
    case Item_Interrupted
    then show ?thesis using ev(2) by simp
  qed
  then show ?burn ?queue by (simp_all add: ev(1))
qed


section \<open>A batch whose items all came back\<close>

definition arrival_quiet :: "list_run \<Rightarrow> item_arrival \<Rightarrow> bool" where
  "arrival_quiet run a \<longleftrightarrow>
     (\<forall>x\<in>set (ar_outside a). quiet_for (list_id run) (ev_payload x))
     \<and> (case ar_ran a of
          Ran_Finished _ _ evs _ \<Rightarrow> \<forall>p\<in>set evs. quiet_for (list_id run) p
        | Ran_Paused _ evs \<Rightarrow> \<forall>p\<in>set evs. quiet_for (list_id run) p
        | Ran_Error _ \<Rightarrow> True)"

definition cut_short :: "item_arrival \<Rightarrow> bool" where
  "cut_short a \<longleftrightarrow> (case ar_ran a of Ran_Finished status _ _ _ \<Rightarrow> status = Cancelled | _ \<Rightarrow> False)"

definition came_back :: "item_arrival \<Rightarrow> bool" where
  "came_back a \<longleftrightarrow> (case ar_ran a of Ran_Finished status _ _ _ \<Rightarrow> status \<noteq> Cancelled | _ \<Rightarrow> False)"

lemma take_arrival_came_back:
  assumes v: "visiting run (bt_log s)" and q: "arrival_quiet run a" and c: "came_back a"
    and l: "looks run (bt_log s) (ar_id a) = look_of (visit_of f (ar_id a))"
    and o: "\<not> look_done (look_of (visit_of f (ar_id a)))"
    and s'_def: "s' = take_arrival env run f s a"
  shows "visiting run (bt_log s')" "\<And>j. j \<noteq> ar_id a \<Longrightarrow> looks run (bt_log s') j = looks run (bt_log s) j"
    "bt_queue s' = bt_queue s @ (if look_done (looks run (bt_log s') (ar_id a)) then [] else [ar_id a])"
    "burn (bs_retries (sp_batch (lr_spec run))) (looks run (bt_log s') (ar_id a))
       < burn (bs_retries (sp_batch (lr_spec run))) (look_of (visit_of f (ar_id a)))"
    "bt_quota s' = bt_quota s" "bt_error s' = bt_error s"
proof -
  obtain status out evs checked where ran: "ar_ran a = Ran_Finished status out evs checked"
    and st: "status \<noteq> Cancelled" using c by (auto simp: came_back_def split: ran.splits)
  define lg where "lg = append_item_events env (ar_id a) evs (outside (ar_outside a) (bt_log s))"
  obtain lg' queue' where fin: "finish_step env run f a status out checked (lg, bt_queue s) = (lg', queue')"
    by (cases "finish_step env run f a status out checked (lg, bt_queue s)") auto
  have s': "s' = s\<lparr> bt_log := lg', bt_queue := queue' \<rparr>"
    using fin by (simp add: s'_def take_arrival_def ran lg_def)
  have quiet: "\<forall>x\<in>set (ar_outside a). quiet_for (list_id run) (ev_payload x)"
    "\<forall>p\<in>set evs. quiet_for (list_id run) p" using q by (simp_all add: arrival_quiet_def ran)
  have lg: "visiting run lg" "looks run lg = looks run (bt_log s)"
    unfolding lg_def using outside_looks [OF v quiet(1)] item_events_quiet [OF _ quiet(2)] by simp_all
  let ?m = "move_of run f a status checked lg" and ?r = "iv_round (visit_of f (ar_id a))"
  let ?rc = "iv_reconciled (visit_of f (ar_id a))"
  have rc: "snd (snd (looks run lg (ar_id a))) = ?rc" using l lg(2) by (simp add: look_of_def)
  note fl = finish_looks [OF lg(1) st fin, unfolded rc]
  note ms = move_spends [where st = "iv_state (visit_of f (ar_id a))" and r = ?r and rc = ?rc,
      OF o [unfolded look_of_def], folded move_of_def, folded look_of_def]
  show "visiting run (bt_log s')" using finish_visiting(1) [OF lg(1) fin] by (simp add: s')
  show "looks run (bt_log s') j = looks run (bt_log s) j" if "j \<noteq> ar_id a" for j
    using finish_visiting(2) [OF lg(1) fin that] lg(2) by (simp add: s')
  show "bt_queue s' = bt_queue s @ (if look_done (looks run (bt_log s') (ar_id a)) then [] else [ar_id a])"
    using fl ms(2) by (simp add: s' move_of_def)
  show "burn (bs_retries (sp_batch (lr_spec run))) (looks run (bt_log s') (ar_id a))
       < burn (bs_retries (sp_batch (lr_spec run))) (look_of (visit_of f (ar_id a)))"
    using fl(1) ms(1) by (simp add: s' move_of_def look_of_def)
  show "bt_quota s' = bt_quota s" "bt_error s' = bt_error s" by (simp_all add: s')
qed


definition came_to :: "list_run \<Rightarrow> run_log \<Rightarrow> string list \<Rightarrow> string list \<Rightarrow> batch_state \<Rightarrow> bool" where
  "came_to run lg0 queue0 ids s \<longleftrightarrow>
     visiting run (bt_log s)
     \<and> (\<forall>j. j \<notin> set ids \<longrightarrow> looks run (bt_log s) j = looks run lg0 j)
     \<and> bt_queue s = queue0 @ filter (\<lambda>i. \<not> look_done (looks run (bt_log s) i)) ids
     \<and> (\<forall>i\<in>set ids. burn (bs_retries (sp_batch (lr_spec run))) (looks run (bt_log s) i)
          < burn (bs_retries (sp_batch (lr_spec run))) (looks run lg0 i))
     \<and> bt_quota s = None \<and> bt_error s = None"

lemma arrivals_fold:
  assumes "visiting run lg0"
    and "distinct (map ar_id came)" "\<forall>a\<in>set came. arrival_quiet run a \<and> came_back a"
    and "\<forall>a\<in>set came. \<not> look_done (looks run lg0 (ar_id a))"
  shows "came_to run lg0 queue0 (map ar_id came)
     (foldl (take_arrival env run (visit_now run lg0))
        \<lparr> bt_log = lg0, bt_queue = queue0, bt_quota = None, bt_error = None \<rparr> came)"
  using assms(2-4)
proof (induction came rule: rev_induct)
  case Nil
  then show ?case using assms(1) by (simp add: came_to_def)
next
  case (snoc a came)
  let ?f = "visit_now run lg0" and ?i = "ar_id a"
  let ?s = "foldl (take_arrival env run ?f) \<lparr> bt_log = lg0, bt_queue = queue0, bt_quota = None, bt_error = None \<rparr> came"
  let ?s' = "take_arrival env run ?f ?s a"
  have ih: "came_to run lg0 queue0 (map ar_id came) ?s" using snoc by simp
  have new: "?i \<notin> set (map ar_id came)" using snoc.prems(1) by simp
  have l: "looks run (bt_log ?s) ?i = look_of (visit_of ?f ?i)"
    using ih new unfolding came_to_def by (simp add: looks_def)
  have o: "\<not> look_done (look_of (visit_of ?f ?i))" using snoc.prems(3) by (simp add: looks_def)
  have v: "visiting run (bt_log ?s)" using ih by (simp add: came_to_def)
  have ac: "arrival_quiet run a" "came_back a" using snoc.prems(2) by simp_all
  note step = take_arrival_came_back [OF v ac l o refl, where env = env]
  have same: "looks run (bt_log ?s') j = looks run (bt_log ?s) j" if "j \<in> set (map ar_id came)" for j
  proof -
    have "j \<noteq> ?i" using new that by blast
    then show ?thesis by (rule step(2))
  qed
  have flt: "filter (\<lambda>i. \<not> look_done (looks run (bt_log ?s') i)) (map ar_id came)
      = filter (\<lambda>i. \<not> look_done (looks run (bt_log ?s) i)) (map ar_id came)"
    using same by (intro filter_cong) simp_all
  have "came_to run lg0 queue0 (map ar_id came @ [?i]) ?s'"
    unfolding came_to_def
  proof (intro conjI allI impI ballI)
    fix j
    assume j: "j \<notin> set (map ar_id came @ [?i])"
    then have "looks run (bt_log ?s') j = looks run (bt_log ?s) j" using step(2) by simp
    then show "looks run (bt_log ?s') j = looks run lg0 j" using j ih by (simp add: came_to_def)
  next
    show "bt_queue ?s' = queue0 @ filter (\<lambda>i. \<not> look_done (looks run (bt_log ?s') i)) (map ar_id came @ [?i])"
      unfolding filter_append flt step(3) using ih by (simp add: came_to_def)
  next
    fix j
    assume "j \<in> set (map ar_id came @ [?i])"
    then consider "j = ?i" | "j \<in> set (map ar_id came)" by auto
    then show "burn (bs_retries (sp_batch (lr_spec run))) (looks run (bt_log ?s') j)
          < burn (bs_retries (sp_batch (lr_spec run))) (looks run lg0 j)"
    proof cases
      case 1
      then show ?thesis using step(4) by (simp add: looks_def)
    next
      case 2
      then show ?thesis unfolding same [OF 2] using ih [unfolded came_to_def] by blast
    qed
  qed (use step(1,5,6) ih in \<open>simp_all add: came_to_def\<close>)
  then show ?case by simp
qed

lemma take_arrival_flags:
  "bt_quota (take_arrival env run f s a) = None \<Longrightarrow> bt_quota s = None \<and> (\<forall>p evs. ar_ran a \<noteq> Ran_Paused p evs)"
  "bt_error (take_arrival env run f s a) = None \<Longrightarrow> bt_error s = None \<and> (\<forall>e. ar_ran a \<noteq> Ran_Error e)"
  by (auto simp: take_arrival_def Let_def split: ran.splits option.splits prod.splits)

lemma arrivals_flags:
  "bt_quota (foldl (take_arrival env run f) s came) = None \<Longrightarrow> \<forall>a\<in>set came. \<forall>p evs. ar_ran a \<noteq> Ran_Paused p evs"
  "bt_error (foldl (take_arrival env run f) s came) = None \<Longrightarrow> \<forall>a\<in>set came. \<forall>e. ar_ran a \<noteq> Ran_Error e"
proof -
  have "bt_quota (foldl (take_arrival env run f) s came) = None \<Longrightarrow>
      bt_quota s = None \<and> (\<forall>a\<in>set came. \<forall>p evs. ar_ran a \<noteq> Ran_Paused p evs)" for s
  proof (induction came arbitrary: s)
    case (Cons a came)
    then show ?case using take_arrival_flags(1) by (metis (no_types) foldl.simps(2) set_ConsD)
  qed simp
  then show "bt_quota (foldl (take_arrival env run f) s came) = None \<Longrightarrow> \<forall>a\<in>set came. \<forall>p evs. ar_ran a \<noteq> Ran_Paused p evs"
    by blast
  have "bt_error (foldl (take_arrival env run f) s came) = None \<Longrightarrow>
      bt_error s = None \<and> (\<forall>a\<in>set came. \<forall>e. ar_ran a \<noteq> Ran_Error e)" for s
  proof (induction came arbitrary: s)
    case (Cons a came)
    then show ?case using take_arrival_flags(2) by (metis (no_types) foldl.simps(2) set_ConsD)
  qed simp
  then show "bt_error (foldl (take_arrival env run f) s came) = None \<Longrightarrow> \<forall>a\<in>set came. \<forall>e. ar_ran a \<noteq> Ran_Error e"
    by blast
qed

text \<open>
  What the workers give the runner: the items started are the front of the batch, in any order; a
  step is cut short only by a stop.
\<close>

definition batch_ok :: "list_run \<Rightarrow> string list \<Rightarrow> batch_input \<Rightarrow> bool" where
  "batch_ok run ids b \<longleftrightarrow>
     bi_stopped b \<in> {None, Some End_Cancelled, Some End_Halted}
     \<and> (\<forall>x\<in>set (bi_before b). quiet_for (list_id run) (ev_payload x))
     \<and> (\<forall>a\<in>set (bi_arrivals b). arrival_quiet run a)
     \<and> distinct (map ar_id (bi_arrivals b))
     \<and> set (map ar_id (bi_arrivals b)) = set (take (length (bi_arrivals b)) ids)
     \<and> ((\<exists>a\<in>set (bi_arrivals b). cut_short a) \<longrightarrow> bi_aborted b \<or> bi_stopped_after b)"

definition batch_ids :: "list_run \<Rightarrow> visit_state \<Rightarrow> string list" where
  "batch_ids run st = take (min (length (vs_queue st)) (batch_size_of run)) (vs_queue st)"

lemma run_batch_goes_on:
  assumes v: "visiting run lg0" and ok: "batch_ok run ids b"
    and o: "\<forall>i\<in>set ids. \<not> look_done (looks run lg0 i)"
    and r: "run_batch env run ids (bi_arrivals b) (bi_aborted b) (bi_stopped_after b) (lg0, queue0)
              = ((lg, queue), Inr None)"
  shows "visiting run lg" "\<And>j. j \<notin> set ids \<Longrightarrow> looks run lg j = looks run lg0 j"
    "\<exists>rs. queue = queue0 @ rs \<and> distinct rs \<and> set rs = {i \<in> set ids. \<not> look_done (looks run lg i)}"
    "\<And>i. i \<in> set ids \<Longrightarrow> burn (bs_retries (sp_batch (lr_spec run))) (looks run lg i)
          < burn (bs_retries (sp_batch (lr_spec run))) (looks run lg0 i)"
proof -
  let ?came = "bi_arrivals b"
  define s where "s = foldl (take_arrival env run (visit_now run lg0))
        \<lparr> bt_log = lg0, bt_queue = queue0, bt_quota = None, bt_error = None \<rparr> ?came"
  have none: "bt_error s = None" "\<not> bi_aborted b" "bt_quota s = None" "\<not> bi_stopped_after b"
    "length ids \<le> length ?came" "lg = bt_log s" "queue = bt_queue s"
    using r by (auto simp: run_batch_def Let_def s_def [symmetric] split: option.splits if_splits)
  have ids: "set (map ar_id ?came) = set ids" "distinct (map ar_id ?came)"
    using ok none(5) by (simp_all add: batch_ok_def)
  have alive: "came_back a" if "a \<in> set ?came" for a
    using ok none(2,4) arrivals_flags(1) [OF none(3) [unfolded s_def]] arrivals_flags(2) [OF none(1) [unfolded s_def]] that
    by (cases "ar_ran a") (auto simp: batch_ok_def cut_short_def came_back_def)
  have c: "came_to run lg0 queue0 (map ar_id ?came) s"
    unfolding s_def
  proof (rule arrivals_fold [OF v ids(2)])
    show "\<forall>a\<in>set ?came. arrival_quiet run a \<and> came_back a" using ok alive by (simp add: batch_ok_def)
    show "\<forall>a\<in>set ?came. \<not> look_done (looks run lg0 (ar_id a))" using o ids(1) by auto
  qed
  note c = c [unfolded came_to_def ids(1), folded none(6,7)]
  show "visiting run lg" using c by blast
  show "looks run lg j = looks run lg0 j" if "j \<notin> set ids" for j
    using c that by blast
  show "\<exists>rs. queue = queue0 @ rs \<and> distinct rs \<and> set rs = {i \<in> set ids. \<not> look_done (looks run lg i)}"
    by (rule exI [of _ "filter (\<lambda>i. \<not> look_done (looks run lg i)) (map ar_id ?came)"])
      (use c ids in \<open>simp add: distinct_filter\<close>)
  show "burn (bs_retries (sp_batch (lr_spec run))) (looks run lg i)
          < burn (bs_retries (sp_batch (lr_spec run))) (looks run lg0 i)" if "i \<in> set ids" for i
    using c that by blast
qed


section \<open>A turn of the loop\<close>

lemma gate_events: "p \<in> set (fst (admit_batch cents journals g es n batch items)) \<Longrightarrow> \<exists>r. p = Budget_Gate r"
  by (auto simp: admit_batch_def decide_at_def gate_record_def Let_def split: option.splits verdict.splits if_splits)

lemma gate_looks:
  assumes v: "visiting run lg" and g: "gate_batch env run gate batch items lg = (lg', adm, gate')"
  shows "visiting run lg'" "looks run lg' = looks run lg"
proof -
  have "visiting run lg' \<and> looks run lg' = looks run lg"
  proof (cases gate)
    case None
    then show ?thesis using v g by (simp add: gate_batch_def)
  next
    case (Some x)
    obtain evs y z where a: "admit_batch (le_cents env) (le_journals env) x (snd lg) (lr_node run) batch (of_nat items)
        = (evs, y, z)" by (metis prod_cases3)
    have "\<forall>p\<in>set evs. quiet_for (list_id run) p"
      using gate_events [of _ "le_cents env" "le_journals env" x "snd lg" "lr_node run" batch "of_nat items"]
      by (fastforce simp: a quiet_for_def)
    then show ?thesis using append_all_quiet [OF v, of evs "\<lambda>p. p" "le_clk env"] g a
      by (auto simp: gate_batch_def Some)
  qed
  then show "visiting run lg'" "looks run lg' = looks run lg" by simp_all
qed

lemma progress_looks:
  assumes "visiting run lg"
  shows "visiting run (list_progress env run lg)" "looks run (list_progress env run lg) = looks run lg"
  unfolding list_progress_def Let_def
  by (rule append_quiet [OF assms], simp add: quiet_for_def)+

text \<open>The queue is exactly the items of the visit without a terminal state.\<close>

definition queue_exact :: "list_run \<Rightarrow> visit_state \<Rightarrow> bool" where
  "queue_exact run st \<longleftrightarrow>
     visiting run (vs_log st) \<and> distinct (vs_queue st)
     \<and> set (vs_queue st) = {i \<in> set (run_ids run). \<not> look_done (looks run (vs_log st) i)}"

definition total_burn :: "list_run \<Rightarrow> run_log \<Rightarrow> nat" where
  "total_burn run lg =
     (\<Sum>i\<in>set (run_ids run). burn (bs_retries (sp_batch (lr_spec run))) (looks run lg i))"

lemma batch_size_pos: "0 < batch_size_of run"
proof -
  have "(1 :: u32) \<le> max (bs_size (sp_batch (lr_spec run))) 1" by simp
  then have "unat (1 :: u32) \<le> batch_size_of run" unfolding batch_size_of_def word_le_nat_alt .
  then show ?thesis by simp
qed

lemma turn_keeps:
  assumes inv: "queue_exact run st" and ne: "vs_queue st \<noteq> []" and ok: "batch_ok run (batch_ids run st) b"
    and t: "batch_turn env run b st = (st', None)"
  shows "queue_exact run st'" "total_burn run (vs_log st') < total_burn run (vs_log st)"
    "\<And>j. look_done (looks run (vs_log st) j) \<Longrightarrow> looks run (vs_log st') j = looks run (vs_log st) j"
proof -
  let ?ids = "batch_ids run st" and ?n = "min (length (vs_queue st)) (batch_size_of run)"
  let ?r = "bs_retries (sp_batch (lr_spec run))"
  obtain lg1 adm gate where gb: "gate_batch env run (vs_gate st) (vs_batch st + 1) ?n
      (outside (bi_before b) (vs_log st)) = (lg1, adm, gate)" by (metis prod_cases3)
  define lg2 where "lg2 = log_append (le_clk env) lg1 (Audit (List_Batch_Started (list_id run) (vs_batch st + 1) ?ids))"
  obtain lg3 queue r where rb: "run_batch env run ?ids (bi_arrivals b) (bi_aborted b) (bi_stopped_after b)
      (lg2, drop ?n (vs_queue st)) = ((lg3, queue), r)" by (metis prod.collapse)
  have t': "adm = Go" "r = Inr None"
    "st' = \<lparr> vs_log = list_progress env run lg3, vs_queue = queue, vs_batch = vs_batch st + 1, vs_gate = gate \<rparr>"
    using t by (auto simp: batch_turn_def Let_def gb rb [unfolded lg2_def batch_ids_def] batch_ids_def
        split: option.splits admission.splits sum.splits)
  have v0: "visiting run (vs_log st)" using inv by (simp add: queue_exact_def)
  have q0: "\<forall>x\<in>set (bi_before b). quiet_for (list_id run) (ev_payload x)" using ok by (simp add: batch_ok_def)
  have v1: "visiting run lg1" "looks run lg1 = looks run (vs_log st)"
    using gate_looks [OF outside_looks(1) [OF v0 q0] gb] outside_looks(2) [OF v0 q0] by simp_all
  have ids: "set ?ids \<subseteq> {i \<in> set (run_ids run). \<not> look_done (looks run (vs_log st) i)}"
    using inv set_take_subset by (fastforce simp: queue_exact_def batch_ids_def)
  have l2: "looks run lg2 j = (if j \<in> set ?ids then (Some Item_Running, snd (looks run (vs_log st) j))
      else looks run (vs_log st) j)" for j
    unfolding lg2_def batch_started_looks(2) [OF v1(1)] v1(2) using ids by auto
  have v2: "visiting run lg2" unfolding lg2_def by (rule batch_started_looks(1) [OF v1(1)])
  have o2: "\<forall>i\<in>set ?ids. \<not> look_done (looks run lg2 i)" by (simp add: l2 look_done_def state_terminal_def)
  note b = run_batch_goes_on [OF v2 ok o2 rb [unfolded t'(2)]]
  obtain rs where rs: "queue = drop ?n (vs_queue st) @ rs" "distinct rs"
    "set rs = {i \<in> set ?ids. \<not> look_done (looks run lg3 i)}" using b(3) by blast
  have split: "vs_queue st = ?ids @ drop ?n (vs_queue st)" by (simp add: batch_ids_def)
  have dq: "distinct (?ids @ drop ?n (vs_queue st))" using inv split by (simp add: queue_exact_def)
  have l3: "looks run lg3 j = looks run (vs_log st) j" if "j \<notin> set ?ids" for j using b(2) [OF that] that by (simp add: l2)
  have fin: "vs_log st' = list_progress env run lg3" "vs_queue st' = queue" using t'(3) by simp_all
  note p = progress_looks [OF b(1), of env]
  show "queue_exact run st'"
    unfolding queue_exact_def fin
  proof (intro conjI)
    show "visiting run (list_progress env run lg3)" by (rule p(1))
    show "distinct queue" using dq rs(2,3) unfolding rs(1) by auto
    have all: "set ?ids \<union> set (drop ?n (vs_queue st)) = {i \<in> set (run_ids run). \<not> look_done (looks run (vs_log st) i)}"
      using inv split by (metis queue_exact_def set_append)
    have dis: "set ?ids \<inter> set (drop ?n (vs_queue st)) = {}" using dq by simp
    show "set queue = {i \<in> set (run_ids run). \<not> look_done (looks run (list_progress env run lg3) i)}"
      unfolding p(2) rs(1) set_append rs(3)
    proof (rule set_eqI)
      fix i
      show "i \<in> set (drop ?n (vs_queue st)) \<union> {i \<in> set ?ids. \<not> look_done (looks run lg3 i)}
          \<longleftrightarrow> i \<in> {i \<in> set (run_ids run). \<not> look_done (looks run lg3 i)}"
      proof (cases "i \<in> set ?ids")
        case True
        then show ?thesis using dis ids by auto
      next
        case False
        then show ?thesis using all l3 [OF False] by auto
      qed
    qed
  qed
  show "looks run (vs_log st') j = looks run (vs_log st) j" if "look_done (looks run (vs_log st) j)" for j
    unfolding fin p(2) using that ids by (intro l3) auto
  have less: "burn ?r (looks run lg3 i) < burn ?r (looks run (vs_log st) i)" if "i \<in> set ?ids" for i
  proof -
    have "burn ?r (looks run lg2 i) = burn ?r (looks run (vs_log st) i)"
      using that ids by (auto simp: l2 burn_def look_done_def state_terminal_def)
    then show ?thesis using b(4) [OF that] by simp
  qed
  have ex: "\<exists>i\<in>set (run_ids run). burn ?r (looks run lg3 i) < burn ?r (looks run (vs_log st) i)"
  proof -
    have "0 < ?n" using ne batch_size_pos by simp
    then have "?ids \<noteq> []" using ne by (simp add: batch_ids_def)
    then obtain i where "i \<in> set ?ids" using list.set_sel(1) by blast
    then show ?thesis using less ids by blast
  qed
  show "total_burn run (vs_log st') < total_burn run (vs_log st)"
    unfolding total_burn_def fin p(2)
  proof (rule sum_strict_mono_ex1)
    show "\<forall>i\<in>set (run_ids run). burn ?r (looks run lg3 i) \<le> burn ?r (looks run (vs_log st) i)"
      using less l3 by (metis le_less)
    show "\<exists>i\<in>set (run_ids run). burn ?r (looks run lg3 i) < burn ?r (looks run (vs_log st) i)" by (rule ex)
  qed simp
qed


section \<open>Every reachable state, and the end\<close>

inductive list_reaches :: "list_env \<Rightarrow> list_run \<Rightarrow> visit_state \<Rightarrow> visit_state \<Rightarrow> bool" for env run s0 where
  start: "list_reaches env run s0 s0"
| turn: "list_reaches env run s0 st \<Longrightarrow> vs_queue st \<noteq> [] \<Longrightarrow> batch_ok run (batch_ids run st) b
    \<Longrightarrow> batch_turn env run b st = (st', None) \<Longrightarrow> list_reaches env run s0 st'"

lemma begin_exact:
  assumes "visiting run lg" "distinct (run_ids run)"
  shows "queue_exact run (begin_batches run gate lg)"
  using assms by (auto simp: queue_exact_def begin_batches_def Let_def remaining_items_def look_done_iff)

lemma reaches_exact:
  assumes "list_reaches env run s0 st" "queue_exact run s0"
  shows "queue_exact run st
    \<and> (\<forall>j. look_done (looks run (vs_log s0) j) \<longrightarrow> looks run (vs_log st) j = looks run (vs_log s0) j)"
  using assms
proof (induction rule: list_reaches.induct)
  case (turn st b st')
  then have "queue_exact run st" and l: "\<And>j. look_done (looks run (vs_log s0) j)
      \<Longrightarrow> looks run (vs_log st) j = looks run (vs_log s0) j" by blast+
  note k = turn_keeps [OF this(1) turn.hyps(2-4)]
  show ?case
  proof (intro conjI allI impI)
    show "queue_exact run st'" by (rule k(1))
    fix j
    assume "look_done (looks run (vs_log s0) j)"
    then show "looks run (vs_log st') j = looks run (vs_log s0) j" using l [of j] k(3) [of j] by simp
  qed
qed simp

section \<open>Runs that nothing stops\<close>

definition clean_input :: "list_run \<Rightarrow> string list \<Rightarrow> batch_input \<Rightarrow> bool" where
  "clean_input run ids b \<longleftrightarrow>
     bi_stopped b = None \<and> \<not> bi_aborted b \<and> \<not> bi_stopped_after b
     \<and> (\<forall>x\<in>set (bi_before b). quiet_for (list_id run) (ev_payload x))
     \<and> (\<forall>a\<in>set (bi_arrivals b). arrival_quiet run a \<and> came_back a)
     \<and> distinct (map ar_id (bi_arrivals b)) \<and> set (map ar_id (bi_arrivals b)) = set ids
     \<and> length (bi_arrivals b) = length ids"

lemma clean_ok: "clean_input run ids b \<Longrightarrow> batch_ok run ids b"
  by (auto simp: clean_input_def batch_ok_def came_back_def cut_short_def split: ran.splits)

lemma came_back_flags:
  "\<forall>a\<in>set came. came_back a \<Longrightarrow>
     bt_quota (foldl (take_arrival env run f) s came) = bt_quota s
     \<and> bt_error (foldl (take_arrival env run f) s came) = bt_error s"
proof (induction came arbitrary: s)
  case (Cons a came)
  have "bt_quota (take_arrival env run f s a) = bt_quota s \<and> bt_error (take_arrival env run f s a) = bt_error s"
    using Cons.prems by (auto simp: came_back_def take_arrival_def Let_def split: ran.splits prod.splits)
  then show ?case using Cons by simp
qed simp

lemma clean_turn:
  assumes "clean_input run (batch_ids run st) b" "vs_gate st = None"
  shows "\<exists>st'. batch_turn env run b st = (st', None) \<and> vs_gate st' = None"
proof -
  have "\<exists>x. run_batch env run (batch_ids run st) (bi_arrivals b) (bi_aborted b) (bi_stopped_after b) y = (x, Inr None)" for y
    using assms(1) came_back_flags [of "bi_arrivals b" env run]
    by (auto simp: clean_input_def run_batch_def Let_def)
  then obtain lg queue where "run_batch env run (batch_ids run st) (bi_arrivals b) (bi_aborted b) (bi_stopped_after b)
      (log_append (le_clk env) (outside (bi_before b) (vs_log st))
         (Audit (List_Batch_Started (list_id run) (vs_batch st + 1) (batch_ids run st))),
       drop (min (length (vs_queue st)) (batch_size_of run)) (vs_queue st)) = ((lg, queue), Inr None)"
    by (metis prod.collapse)
  then show ?thesis using assms
    by (simp add: batch_turn_def clean_input_def gate_batch_def batch_ids_def Let_def)
qed

text \<open>The inputs a strategy gives, turn by turn.\<close>

primrec supplied :: "list_env \<Rightarrow> list_run \<Rightarrow> (visit_state \<Rightarrow> batch_input) \<Rightarrow> nat \<Rightarrow> visit_state \<Rightarrow> batch_input list" where
  "supplied env run plan 0 st = []"
| "supplied env run plan (Suc n) st = plan st # supplied env run plan n (fst (batch_turn env run (plan st) st))"

lemma batches_end:
  assumes plan: "\<And>st. distinct (vs_queue st) \<Longrightarrow> clean_input run (batch_ids run st) (plan st)"
    and "queue_exact run st" "vs_gate st = None" "total_burn run (vs_log st) \<le> n"
  shows "\<exists>st'. run_batches env run (supplied env run plan n st) st = (st', Some (Inr End_Done))
    \<and> (\<forall>i\<in>set (run_ids run). id_terminal (visit_now run (vs_log st')) i)"
  using assms(2-4)
proof (induction n arbitrary: st)
  case 0
  note prems = this
  have all: "look_done (looks run (vs_log st) i)" if "i \<in> set (run_ids run)" for i
  proof -
    have "\<forall>i\<in>set (run_ids run). burn (bs_retries (sp_batch (lr_spec run))) (looks run (vs_log st) i) = 0"
      using prems(3) by (simp add: total_burn_def)
    then show ?thesis using that by (auto simp: burn_def split: if_splits)
  qed
  have q: "set (vs_queue st) = {i \<in> set (run_ids run). \<not> look_done (looks run (vs_log st) i)}"
    using prems(1) unfolding queue_exact_def by (elim conjE)
  have "vs_queue st = []"
  proof (rule ccontr)
    assume "vs_queue st \<noteq> []"
    then have "hd (vs_queue st) \<in> set (vs_queue st)" by simp
    then show False using all unfolding q by blast
  qed
  then show ?case using all by (simp add: look_done_iff)
next
  case (Suc n)
  show ?case
  proof (cases "vs_queue st = []")
    case True
    then have "\<forall>i\<in>set (run_ids run). look_done (looks run (vs_log st) i)"
      using Suc.prems(1) by (auto simp: queue_exact_def)
    then show ?thesis using True by (simp add: look_done_iff)
  next
    case False
    have c: "clean_input run (batch_ids run st) (plan st)"
      using Suc.prems(1) by (intro plan) (simp add: queue_exact_def)
    obtain st' where t: "batch_turn env run (plan st) st = (st', None)" "vs_gate st' = None"
      using clean_turn [OF c Suc.prems(2)] by blast
    note k = turn_keeps [OF Suc.prems(1) False clean_ok [OF c] t(1)]
    have "total_burn run (vs_log st') \<le> n" using k(2) Suc.prems(3) by simp
    from Suc.IH [OF k(1) t(2) this] show ?thesis using False t(1) by simp
  qed
qed

lemma total_burn_bound: "total_burn run lg \<le> length (lr_items run) * (unat (bs_retries (sp_batch (lr_spec run))) + 2)"
proof -
  have "total_burn run lg \<le> card (set (run_ids run)) * (unat (bs_retries (sp_batch (lr_spec run))) + 2)"
    unfolding total_burn_def by (intro sum_bounded_above [where 'a = nat, simplified] burn_bound)
  also have "\<dots> \<le> length (lr_items run) * (unat (bs_retries (sp_batch (lr_spec run))) + 2)"
    by (intro mult_le_mono1) (metis card_length length_map run_ids_def)
  finally show ?thesis .
qed


section \<open>How a visit opens\<close>

lemma needs_look_fold:
  assumes "visiting run lg" "\<And>it. se_state (g it) = SETTLED_NEEDS_LOOK \<and> se_id (g it) = it_id it"
  shows "visiting run (foldl (\<lambda>lg it. if P it then settle_listed env run (g it) lg else lg) lg its)
    \<and> (\<forall>j. fst (looks run (foldl (\<lambda>lg it. if P it then settle_listed env run (g it) lg else lg) lg its) j)
          = (if j \<in> it_id ` {it \<in> set its. P it} then Some Item_Needs_Look else fst (looks run lg j)))"
  using assms(1)
proof (induction its arbitrary: lg)
  case (Cons it its)
  let ?lg = "if P it then settle_listed env run (g it) lg else lg"
  have l: "visiting run ?lg" "\<And>j. fst (looks run ?lg j)
      = (if P it \<and> j = it_id it then Some Item_Needs_Look else fst (looks run lg j))"
    using Cons.prems assms(2) [of it] settle_looks [OF Cons.prems, of env "g it"]
    by (auto simp: settled_to_def SETTLED_NEEDS_LOOK_def SETTLED_PASSED_def)
  show ?case
  proof (cases "P it")
    case True
    then show ?thesis using Cons.IH [OF l(1)] l(2) by auto
  next
    case False
    then show ?thesis using Cons.IH [OF l(1)] by auto
  qed
qed simp

lemma too_large_looks:
  assumes "visiting run lg"
  shows "visiting run (settle_too_large env run f lg)"
    "fst (looks run (settle_too_large env run f lg) j) = fst (looks run lg j)
     \<or> fst (looks run (settle_too_large env run f lg) j) = Some Item_Needs_Look"
  unfolding settle_too_large_def
  using needs_look_fold [OF assms, where env = env and its = "lr_items run"
      and P = "\<lambda>it. \<not> (case f of Some f \<Rightarrow> id_terminal f (it_id it) | None \<Rightarrow> False)
                       \<and> item_bytes (le_quote env) it > ITEM_MAX_BYTES"
      and g = "\<lambda>it. (no_settlement (it_id it))\<lparr> se_state := SETTLED_NEEDS_LOOK,
                     se_reason := Some (look_reason_str Look_Too_Large),
                     se_note := Some (''the item is larger than '' @ show_nat ITEM_MAX_BYTES @ '' bytes'') \<rparr>"]
  by (simp_all add: no_settlement_def)

lemma park_looks:
  assumes "visiting run lg"
  shows "visiting run (park_unknown_sends env run open_sends lg)"
    "fst (looks run (park_unknown_sends env run open_sends lg) j) =
       (if j \<in> it_id ` {it \<in> set (lr_items run). open_sends (run_key run (it_id it)) \<noteq> None}
        then Some Item_Needs_Look else fst (looks run lg j))"
  unfolding park_unknown_sends_def
  using needs_look_fold [OF assms, where env = env and its = "lr_items run"
      and P = "\<lambda>it. open_sends (run_key run (it_id it)) \<noteq> None"
      and g = "\<lambda>it. (no_settlement (it_id it))\<lparr> se_state := SETTLED_NEEDS_LOOK,
                     se_reason := Some (look_reason_str Look_Unknown_Send),
                     se_note := failure_note Look_Unknown_Send [] \<rparr>"]
  by (simp_all add: no_settlement_def)

lemma settled_visiting:
  assumes "visiting run lg"
  shows "visiting run (log_append clk lg (settled_payload run s stamp))"
proof -
  have "\<not> opens_visit (list_id run) e" if "ev_payload e = settled_payload run s stamp" for e
    using that by (simp add: opens_visit_def settled_payload_def)
  then show ?thesis using append_looks [OF assms] by blast
qed

lemma foldl_visiting:
  "visiting run lg \<Longrightarrow> (\<And>lg x. visiting run lg \<Longrightarrow> visiting run (g lg x)) \<Longrightarrow> visiting run (foldl g lg xs)"
  by (induction xs arbitrary: lg) simp_all

lemma carry_visiting: "visiting run lg \<Longrightarrow> visiting run (carry_passed env run previous lg)"
  unfolding carry_passed_def
  by (rule foldl_visiting) (auto intro: settled_visiting split: option.splits)

lemma requeue_visiting: "visiting run lg \<Longrightarrow> visiting run (requeue_for_retry env run previous open_sends lg)"
  unfolding requeue_for_retry_def Let_def
  by (rule foldl_visiting) (auto intro: settle_visiting)

lemma started_visiting:
  assumes "lt_node l = list_id run" "lt_reopened l \<Longrightarrow> visiting run lg"
  shows "visiting run (log_append clk lg (Audit (List_Started l)))"
proof (cases "lt_reopened l")
  case True
  have "\<not> opens_visit (list_id run) e" if "ev_payload e = Audit (List_Started l)" for e
    using that True by (simp add: opens_visit_def)
  then show ?thesis using append_looks [OF assms(2) [OF True]] by blast
next
  case False
  obtain e gs where e: "snd (log_append clk lg (Audit (List_Started l))) = snd lg @ e # gs"
    "ev_payload e = Audit (List_Started l)" and gs: "\<forall>g\<in>set gs. is_guard_line (ev_payload g)"
    using log_append_lines by blast
  have "opens_visit (list_id run) e" using e(2) False assms(1) by (simp add: opens_visit_def)
  then obtain f where "visit_fold (snd lg @ [e]) (list_id run) = Some f" unfolding visit_fold_snoc by simp
  moreover have "\<forall>g\<in>set gs. quiet_for (list_id run) (ev_payload g)"
    using gs by (auto simp: quiet_for_def is_guard_line_def split: event_payload.splits)
  ultimately obtain g where "visit_fold ((snd lg @ [e]) @ gs) (list_id run) = Some g"
    using visit_fold_quiet by blast
  then show ?thesis using e(1) by (simp add: visiting_def)
qed

text \<open>The visit of the same items the journal ends with, if it does; whether it is still open; whether it is reopened.\<close>

definition same_items :: "list_env \<Rightarrow> list_run \<Rightarrow> run_log \<Rightarrow> list_fold option" where
  "same_items env run lg =
     (case visit_fold (snd lg) (list_id run) of
        Some f \<Rightarrow> if lf_items_digest f = items_digest (le_sha env) (lr_items run) then Some f else None
      | None \<Rightarrow> None)"

definition resumes_visit :: "list_env \<Rightarrow> list_run \<Rightarrow> run_log \<Rightarrow> bool" where
  "resumes_visit env run lg \<longleftrightarrow>
     (case same_items env run lg of Some f \<Rightarrow> visit_is_open f | None \<Rightarrow> False)"

definition reopens_visit :: "list_env \<Rightarrow> list_run \<Rightarrow> run_log \<Rightarrow> bool" where
  "reopens_visit env run lg \<longleftrightarrow>
     (case same_items env run lg of
        Some f \<Rightarrow> retried_after_failure (snd lg) (list_id run) (lf_started_seq f) | None \<Rightarrow> False)"

lemma open_visit_cases:
  obtains (resumed) "resumes_visit env run lg" "visiting run lg"
      "open_visit env run alive now dropped lg = settle_too_large env run (same_items env run lg) lg"
  | (reopened) previous lg' where "\<not> resumes_visit env run lg" "reopens_visit env run lg" "visiting run lg'"
      "open_visit env run alive now dropped lg = settle_too_large env run
         (visit_fold (snd (requeue_for_retry env run previous (unknown_send alive now (snd lg) (list_id run)) lg'))
            (list_id run))
         (requeue_for_retry env run previous (unknown_send alive now (snd lg) (list_id run)) lg')"
  | (fresh) lg' where "\<not> resumes_visit env run lg" "\<not> reopens_visit env run lg" "visiting run lg'"
      "open_visit env run alive now dropped lg = settle_too_large env run
         (visit_fold (snd (park_unknown_sends env run (unknown_send alive now (snd lg) (list_id run)) lg')) (list_id run))
         (park_unknown_sends env run (unknown_send alive now (snd lg) (list_id run)) lg')"
proof -
  let ?d = "items_digest (le_sha env) (lr_items run)"
  note od = open_visit_def [of env run alive now dropped lg, folded same_items_def, unfolded Let_def,
      folded same_items_def resumes_visit_def reopens_visit_def]
  show thesis
  proof (cases "resumes_visit env run lg")
    case True
    moreover from True have "visiting run lg"
      by (auto simp: resumes_visit_def same_items_def visiting_def split: option.splits)
    ultimately show thesis by (intro resumed) (simp_all add: od)
  next
    case False
    let ?l = "\<lparr> lt_node = list_id run, lt_total = of_nat (length (lr_items run)), lt_filtered_out = dropped,
        lt_items_digest = ?d, lt_batch_size = max (bs_size (sp_batch (lr_spec run))) 1,
        lt_parallel = of_nat (lr_workers run), lt_reopened = reopens_visit env run lg \<rparr>"
    let ?lg = "log_append (le_clk env) lg (Audit (List_Started ?l))"
    have v: "visiting run ?lg"
      by (rule started_visiting)
        (auto simp: reopens_visit_def same_items_def visiting_def split: option.splits if_splits)
    show thesis
    proof (cases "reopens_visit env run lg")
      case True
      then obtain previous where "same_items env run lg = Some previous"
        by (auto simp: reopens_visit_def split: option.splits)
      then show thesis using False True v by (intro reopened) (simp_all add: od)
    next
      case new: False
      let ?lg' = "case (sp_rerun (lr_spec run), visit_fold (snd lg) (list_id run)) of
          (Rerun_Not_Passed, Some previous) \<Rightarrow> carry_passed env run previous ?lg | _ \<Rightarrow> ?lg"
      have "visiting run ?lg'" using v carry_visiting [OF v] by (auto split: rerun_policy.splits option.splits)
      then show thesis using False new by (intro fresh [of ?lg']) (simp_all add: od)
    qed
  qed
qed

lemma open_visit_visiting: "visiting run (open_visit env run alive now dropped lg)"
proof (cases rule: open_visit_cases [of env run lg alive now dropped])
  case resumed
  then show ?thesis by (simp add: too_large_looks)
next
  case (reopened previous lg')
  then show ?thesis by (simp add: too_large_looks requeue_visiting)
next
  case (fresh lg')
  then show ?thesis by (simp add: too_large_looks park_looks)
qed


section \<open>The node as a whole\<close>

text \<open>What the workers give at every turn the loop takes.\<close>

fun inputs_ok :: "list_env \<Rightarrow> list_run \<Rightarrow> batch_input list \<Rightarrow> visit_state \<Rightarrow> bool" where
  "inputs_ok env run [] st = True"
| "inputs_ok env run (b # bs) st =
     (vs_queue st = [] \<or>
      (batch_ok run (batch_ids run st) b
       \<and> (case batch_turn env run b st of (st', None) \<Rightarrow> inputs_ok env run bs st' | _ \<Rightarrow> True)))"

lemma turn_not_done:
  "bi_stopped b \<in> {None, Some End_Cancelled, Some End_Halted} \<Longrightarrow> batch_turn env run b st \<noteq> (st', Some (Inr End_Done))"
  by (auto simp: batch_turn_def run_batch_def Let_def split: option.splits admission.splits sum.splits prod.splits if_splits)

lemma queue_empty_settled:
  assumes "queue_exact run st" "vs_queue st = []" "i \<in> set (run_ids run)"
  shows "look_done (looks run (vs_log st) i)"
  using assms by (auto simp: queue_exact_def)

lemma run_batches_done:
  assumes "queue_exact run st" "inputs_ok env run inputs st"
    and "run_batches env run inputs st = (st', Some (Inr End_Done))" "i \<in> set (run_ids run)"
  shows "look_done (looks run (vs_log st') i)"
  using assms(1-3)
proof (induction inputs arbitrary: st)
  case Nil
  then have "vs_queue st = []" "st' = st" by (simp_all split: if_splits)
  then show ?case using queue_empty_settled [OF Nil.prems(1) _ assms(4)] by simp
next
  case (Cons b bs)
  show ?case
  proof (cases "vs_queue st = []")
    case True
    then show ?thesis using Cons.prems queue_empty_settled [OF Cons.prems(1) _ assms(4)] by simp
  next
    case False
    then have ok: "batch_ok run (batch_ids run st) b" using Cons.prems(2) by simp
    obtain st1 r where t: "batch_turn env run b st = (st1, r)" by (cases "batch_turn env run b st") auto
    show ?thesis
    proof (cases r)
      case None
      then show ?thesis
        using Cons.IH [of st1] turn_keeps(1) [OF Cons.prems(1) False ok] Cons.prems(2,3) False t by simp
    next
      case (Some x)
      then have "batch_turn env run b st = (st', Some (Inr End_Done))" using Cons.prems(3) False t by simp
      then show ?thesis using turn_not_done [of b env run st st'] ok by (simp add: batch_ok_def)
    qed
  qed
qed

section \<open>Properties\<close>

text \<open>
  At every turn of a list visit the queue holds exactly the visit's items without a terminal
  state, each once, so the visit is done only when every item is settled; an item that was terminal
  when the visit began is never run or settled again.
\<close>

theorem list_queue_exact:
  assumes "visiting run lg" "distinct (run_ids run)" "list_reaches env run (begin_batches run gate lg) st"
  shows "distinct (vs_queue st)
    \<and> set (vs_queue st) = {i \<in> set (run_ids run). \<not> id_terminal (visit_now run (vs_log st)) i}
    \<and> (\<forall>i. id_terminal (visit_now run lg) i \<longrightarrow> looks run (vs_log st) i = looks run lg i)"
proof -
  note e = reaches_exact [OF assms(3) begin_exact [OF assms(1,2)]]
  have "vs_log (begin_batches run gate lg) = lg" by (simp add: begin_batches_def Let_def)
  then show ?thesis using e by (simp add: queue_exact_def look_done_iff [symmetric])
qed

text \<open>
  C33: a list visit nothing stops ends.  Whatever the checks say and whatever the sends come to,
  after at most (retries + 2) turns per item every item is settled and the visit is done.
\<close>

theorem list_visit_ends:
  assumes "visiting run lg" "distinct (run_ids run)"
    and "\<And>st. distinct (vs_queue st) \<Longrightarrow> clean_input run (batch_ids run st) (plan st)"
    and "length (lr_items run) * (unat (bs_retries (sp_batch (lr_spec run))) + 2) \<le> n"
  shows "\<exists>st. run_batches env run (supplied env run plan n (begin_batches run None lg)) (begin_batches run None lg)
      = (st, Some (Inr End_Done))
    \<and> (\<forall>i\<in>set (run_ids run). id_terminal (visit_now run (vs_log st)) i)"
proof (rule batches_end [OF assms(3) begin_exact [OF assms(1,2)]])
  show "vs_gate (begin_batches run None lg) = None" by (simp add: begin_batches_def Let_def)
  show "total_burn run (vs_log (begin_batches run None lg)) \<le> n"
    using total_burn_bound assms(4) le_trans by blast
qed

text \<open>
  C35: an item with a send whose outcome is unknown does not pass, whatever its step and its check
  said.  When the step came to an end it needs a look, or, when the service can recognise the send
  and the item has not had its free run yet, it is queued for that run and marked.  When the step was
  cancelled it is not queued; an abort leaves its state as it was, any other stop leaves it pending.
\<close>

theorem open_send_never_passes:
  assumes "visiting run lg"
    and "unknown_send (ar_alive a) (ar_now a) (snd lg) (n_id (lr_node run)) (run_key run (ar_id a)) = Some m"
    and "finish_step env run f a status out checked (lg, queue) = (lg', queue')"
  shows "if status = Cancelled
    then queue' = queue \<and> iv_state (visit_of (visit_now run lg') (ar_id a)) =
      (if ar_cancel a then iv_state (visit_of (visit_now run lg) (ar_id a)) else Some Item_Pending)
    else (iv_state (visit_of (visit_now run lg') (ar_id a)) = Some Item_Needs_Look \<and> queue' = queue)
     \<or> (m \<in> {Mode_Key, Mode_Marker} \<and> \<not> iv_reconciled (visit_of f (ar_id a))
       \<and> iv_state (visit_of (visit_now run lg') (ar_id a)) = Some Item_Pending
       \<and> iv_reconciled (visit_of (visit_now run lg') (ar_id a)) \<and> queue' = queue @ [ar_id a])"
proof (cases "status = Cancelled")
  case True
  then show ?thesis
    using cancelled_looks [OF assms(1), of env f a out checked queue lg' queue'] assms(3)
    by (simp add: looks_def look_of_def)
next
  case False
  have mv: "move_of run f a status checked lg = item_transition (Item_Failed (Some m))
      (iv_round (visit_of f (ar_id a))) (bs_retries (sp_batch (lr_spec run))) (iv_reconciled (visit_of f (ar_id a)))"
    by (simp add: move_of_def assms(2) item_event_of_def)
  note l = finish_looks [OF assms(1) False assms(3)]
  show ?thesis
    using l False unfolding mv
    by (cases m) (auto simp: item_transition_def after_look_def requeues_def looks_def look_of_def split: if_splits)
qed

text \<open>The item is parked before the first batch.\<close>

lemma new_visit_parks:
  assumes "\<not> resumes_visit env run lg" "\<not> reopens_visit env run lg" "it \<in> set (lr_items run)"
    and "unknown_send alive now (snd lg) (n_id (lr_node run)) (run_key run (it_id it)) \<noteq> None"
  shows "fst (looks run (open_visit env run alive now dropped lg) (it_id it)) = Some Item_Needs_Look"
proof -
  obtain lg' where v: "visiting run lg'"
    and o: "open_visit env run alive now dropped lg = settle_too_large env run
         (visit_fold (snd (park_unknown_sends env run (unknown_send alive now (snd lg) (list_id run)) lg')) (list_id run))
         (park_unknown_sends env run (unknown_send alive now (snd lg) (list_id run)) lg')"
    using assms(1,2) by (cases rule: open_visit_cases [of env run lg alive now dropped]) blast+
  have "fst (looks run (park_unknown_sends env run (unknown_send alive now (snd lg) (list_id run)) lg') (it_id it))
      = Some Item_Needs_Look"
    unfolding park_looks(2) [OF v] using assms(3,4) by auto
  then show ?thesis unfolding o using too_large_looks(2) [OF park_looks(1) [OF v]] by metis
qed

text \<open>
  C36: a new visit never runs an item whose earlier send is still unknown.  At its first batch and at
  every later turn of the visit, whatever the steps, the checks and the sends of the other items come
  to, the item still needs a look, is not queued, and is in no batch the runner starts.
\<close>

theorem new_visit_parks_open_sends:
  assumes "\<not> resumes_visit env run lg" "\<not> reopens_visit env run lg"
    and "distinct (run_ids run)" "it \<in> set (lr_items run)"
    and "unknown_send alive now (snd lg) (n_id (lr_node run)) (run_key run (it_id it)) \<noteq> None"
    and "list_reaches env run (begin_batches run gate (open_visit env run alive now dropped lg)) st"
  shows "iv_state (visit_of (visit_now run (vs_log st)) (it_id it)) = Some Item_Needs_Look
    \<and> it_id it \<notin> set (vs_queue st) \<and> it_id it \<notin> set (batch_ids run st)"
proof -
  let ?lg = "open_visit env run alive now dropped lg"
  have l: "fst (looks run ?lg (it_id it)) = Some Item_Needs_Look" by (rule new_visit_parks [OF assms(1,2,4,5)])
  then have d: "look_done (looks run ?lg (it_id it))" by (simp add: look_done_def state_terminal_def)
  note e = reaches_exact [OF assms(6) begin_exact [OF open_visit_visiting assms(3)]]
  have "vs_log (begin_batches run gate ?lg) = ?lg" by (simp add: begin_batches_def Let_def)
  then have k: "looks run (vs_log st) (it_id it) = looks run ?lg (it_id it)" using e d by simp
  have q: "it_id it \<notin> set (vs_queue st)" using e d k by (simp add: queue_exact_def)
  then have "it_id it \<notin> set (batch_ids run st)" using in_set_takeD unfolding batch_ids_def by fast
  then show ?thesis using l q k by (simp add: looks_def look_of_def)
qed


text \<open>
  C32: a list node that comes to an end of its own (nothing cancelled it) has settled every item its
  source gave: from the load, which names each item once, over the visit it opens, resumes or reopens, to
  the output, no item is lost between a queue, a stop and a retry.
\<close>

theorem list_node_settles_all:
  assumes "load_items (le_json env) (le_quote env) (le_sha env) pb s (sp_items sp) scripted = Inr lo"
    and "execute_list env pb n sp s scripted max_parallel gate alive now before inputs lg
       = (lg', Some (List_Finished status out))"
    and "status \<noteq> Cancelled"
    and "inputs_ok env (visit_run n sp lo max_parallel) inputs
       (begin_batches (visit_run n sp lo max_parallel) gate
         (open_visit env (visit_run n sp lo max_parallel) alive now (lo_filtered_out lo) (outside before lg)))"
  shows "\<forall>it\<in>set (lo_items lo). id_terminal (visit_now (visit_run n sp lo max_parallel) lg') (it_id it)"
proof
  fix it
  assume it: "it \<in> set (lo_items lo)"
  let ?run = "visit_run n sp lo max_parallel"
  let ?lg = "open_visit env ?run alive now (lo_filtered_out lo) (outside before lg)"
  let ?s0 = "begin_batches ?run gate ?lg"
  have ids: "run_ids ?run = map it_id (lo_items lo)" by (simp add: run_ids_def visit_run_def)
  have d: "distinct (run_ids ?run)" using load_items_good(1) [OF assms(1)] by (simp add: ids well_named_def)
  obtain st r where b: "run_batches env ?run inputs ?s0 = (st, r)" by (metis surj_pair)
  have e: "vs_log st = lg' \<and> map_option (list_outcome_of env ?run (vs_log st)) r = Some (List_Finished status out)"
    using assms(1,2) b by (auto simp: execute_list_def Let_def)
  then obtain x where x: "r = Some x" "list_outcome_of env ?run lg' x = List_Finished status out" by auto
  have "x = Inr End_Done"
    using x(2) assms(3) by (auto simp: list_outcome_of_def split: sum.splits list_end.splits)
  then have "run_batches env ?run inputs ?s0 = (st, Some (Inr End_Done))" using b x(1) by simp
  from run_batches_done [OF begin_exact [OF open_visit_visiting d] assms(4) this] it
  have "look_done (looks ?run (vs_log st) (it_id it))" by (simp add: ids)
  then show "id_terminal (visit_now ?run lg') (it_id it)" using e by (simp add: look_done_iff)
qed

section \<open>Witnesses\<close>

definition ld_item :: "string \<Rightarrow> item" where
  "ld_item i = \<lparr> it_id = i, it_value = JObject [], it_digest = i \<rparr>"

definition ld_run :: list_run where
  "ld_run =
     \<lparr> lr_node = plain_node ''l'' (Prompt []),
       lr_spec = \<lparr> sp_items = \<lparr> so_from = None, so_inline = [], so_key = ''id'', so_max_items = 100, so_filter = None \<rparr>,
         sp_batch = default_batch, sp_item_outputs = [], sp_check = None, sp_on_needs_look = Look_Continue,
         sp_rerun = Rerun_All \<rparr>,
       lr_items = [ld_item ''a'', ld_item ''b''], lr_workers = 1 \<rparr>"

definition ld_env :: list_env where
  "ld_env =
     \<lparr> le_clk = (\<lambda>n. n), le_json = (\<lambda>_. None), le_quote = (\<lambda>s. s), le_sha = (\<lambda>s. s),
       le_capture = (\<lambda>_ _. None), le_session = (\<lambda>_. None), le_num = (\<lambda>_. JNull), le_cents = (\<lambda>_. []),
       le_journals = (\<lambda>_. None) \<rparr>"

definition ld_started :: event where
  "ld_started = \<lparr> ev_seq = 0, ev_ts = 0, ev_payload = Audit (List_Started
     \<lparr> lt_node = ''l'', lt_total = 2, lt_filtered_out = 0, lt_items_digest = ''d'', lt_batch_size = 10,
       lt_parallel = 1, lt_reopened = False \<rparr>) \<rparr>"

definition ld_intent :: event where
  "ld_intent = \<lparr> ev_seq = 1, ev_ts = 0, ev_payload = Send_Intent_Recorded
     \<lparr> sr_intent = ''x'', sr_nonce = ''n'', sr_node = ''l'', sr_attempt = None, sr_attempt_seq = None,
       sr_connector = ''c'', sr_function = ''f'', sr_account = ''m'', sr_mode = ''key'', sr_label = ''t'',
       sr_pid = 7, sr_deadline_ms = 100, sr_replay_of = None, sr_resend_of = None, sr_item = Some ''a'' \<rparr> \<rparr>"

definition ld_log :: "event list \<Rightarrow> run_log" where
  "ld_log es = (fresh_handle es, es)"

definition ld_back :: "string \<Rightarrow> item_arrival" where
  "ld_back i = \<lparr> ar_outside = [], ar_id = i,
     ar_ran = Ran_Finished Succeeded [] [] (Some \<lparr> ck_verdict = Some Verdict_Reject, ck_note = None, ck_kind = None \<rparr>),
     ar_now = 0, ar_alive = (\<lambda>_. True), ar_pause_now = False, ar_cancel = False \<rparr>"

definition ld_plan :: "list_run \<Rightarrow> visit_state \<Rightarrow> batch_input" where
  "ld_plan run st = \<lparr> bi_stopped = None, bi_before = [], bi_arrivals = map ld_back (batch_ids run st),
     bi_aborted = False, bi_stopped_after = False \<rparr>"

lemma ld_node [simp]: "n_id (lr_node ld_run) = ''l''"
  by (simp add: ld_run_def)

lemma ld_ids: "run_ids ld_run = [''a'', ''b'']"
  by (simp add: run_ids_def ld_run_def ld_item_def)

lemma ld_visit:
  "visit_fold [ld_started] ''l'' = Some (visit_event ''l'' (fresh_visit ''l'' 0) ld_started)"
  "visit_fold [ld_started, ld_intent] ''l'' = Some (visit_event ''l'' (fresh_visit ''l'' 0) ld_started)"
proof -
  show a: "visit_fold [ld_started] ''l'' = Some (visit_event ''l'' (fresh_visit ''l'' 0) ld_started)"
    using visit_fold_snoc [of "[]" ld_started "''l''"] by (simp add: opens_visit_def ld_started_def)
  show "visit_fold [ld_started, ld_intent] ''l'' = Some (visit_event ''l'' (fresh_visit ''l'' 0) ld_started)"
    using visit_fold_snoc [of "[ld_started]" ld_intent "''l''"] a
    by (simp add: opens_visit_def ld_intent_def visit_event_def)
qed

lemma ld_visiting: "visiting ld_run (ld_log [ld_started])" "visiting ld_run (ld_log [ld_started, ld_intent])"
  by (simp_all add: visiting_def ld_log_def ld_visit)

lemma ld_queue: "vs_queue (begin_batches ld_run None (ld_log [ld_started])) = [''a'', ''b'']"
proof -
  have "lf_items (visit_event ''l'' (fresh_visit ''l'' 0) ld_started) = fmempty"
    by (simp add: visit_event_def ld_started_def fresh_visit_def)
  then show ?thesis
    by (simp add: begin_batches_def Let_def visit_now_def ld_log_def ld_visit remaining_items_def ld_ids id_terminal_def)
qed

lemma ld_clean: "distinct (vs_queue st) \<Longrightarrow> clean_input run (batch_ids run st) (ld_plan run st)"
  by (auto simp: clean_input_def ld_plan_def ld_back_def arrival_quiet_def came_back_def batch_ids_def comp_def)

lemma ld_unknown:
  assumes "es = [ld_intent] \<or> es = [ld_started, ld_intent]"
  shows "unknown_send (\<lambda>_. True) 0 es ''l'' \<lparr> ek_node = ''l'', ek_item = Some ''a'' \<rparr> = Some Mode_Key"
proof -
  define r where "r = \<lparr> ir_id = ''x'', ir_seq = 1, ir_ts_ms = 0,
     ir_key = \<lparr> ik_node = ''l'', ik_connector = ''c'', ik_function = ''f'', ik_account = ''m'', ik_label = ''t'',
       ik_item = Some ''a'' \<rparr>, ir_nonce = ''n'', ir_mode = Mode_Key, ir_attempt = None, ir_attempt_seq = None,
     ir_replay_of = None, ir_resend_of = None, ir_nonce_ts_ms = 0, ir_state = Intent_Pending 7 100,
     ir_settled_by = None, ir_superseded_by = None \<rparr>"
  define l where "l = \<lparr> lg_records = [r], lg_index = fmupd ''x'' 0 fmempty \<rparr>"
  have f: "fold_ledger es = l"
    using assms by (auto simp: fold_ledger_def empty_ledger_def ledger_step_def ld_intent_def ld_started_def
        record_intent_def Let_def earlier_link_def first_nonce_ts_def idempotency_parse_def r_def l_def)
  have p: "passed_floors es ''l'' = fmempty"
    using assms by (auto simp: passed_floors_def passed_item_def ld_intent_def ld_started_def)
  have "prev_of l r = None" "next_of l r = None" by (simp_all add: prev_of_def next_of_def link_of_def r_def)
  then have c: "chain_of l r = [r]"
    by (simp add: chain_of_def chain_root.simps [of _ r] chain_from.simps [of _ r])
  have s: "effective_state (\<lambda>_. True) 0 r = Intent_Pending 7 100"
    by (simp add: effective_state_def r_def orphan_reason_def)
  have m: "ir_mode r = Mode_Key" by (simp add: r_def)
  have t: "open_tip (\<lambda>_. True) 0 l r = Some Mode_Key"
    by (simp add: open_tip_def chain_verdict_of_def c members_verdict_def Let_def s latest_state_def is_confirmed_def
        is_pending_def is_unknown_def m)
  have recs: "lg_records l = [r]" by (simp add: l_def)
  have k: "key_exec (ir_key r) = \<lparr> ek_node = ''l'', ek_item = Some ''a'' \<rparr>" "ir_superseded_by r = None"
    by (simp_all add: r_def key_exec_def)
  show ?thesis
    by (simp add: unknown_send_def f p Let_def item_scope_floor_def recs k t List.map_filter_simps)
qed

theorem list_queue_exact_witness:
  "\<exists>st. batch_turn ld_env ld_run (ld_plan ld_run (begin_batches ld_run None (ld_log [ld_started])))
          (begin_batches ld_run None (ld_log [ld_started])) = (st, None)
    \<and> distinct (vs_queue st)
    \<and> set (vs_queue st) = {i \<in> {''a'', ''b''}. \<not> id_terminal (visit_now ld_run (vs_log st)) i}"
proof -
  let ?s0 = "begin_batches ld_run None (ld_log [ld_started])"
  have d: "distinct (run_ids ld_run)" by (simp add: ld_ids)
  have c: "clean_input ld_run (batch_ids ld_run ?s0) (ld_plan ld_run ?s0)" by (rule ld_clean) (simp add: ld_queue)
  obtain st where t: "batch_turn ld_env ld_run (ld_plan ld_run ?s0) ?s0 = (st, None)"
    using clean_turn [OF c] by (auto simp: begin_batches_def Let_def)
  have "list_reaches ld_env ld_run ?s0 st"
    by (rule list_reaches.turn [OF list_reaches.start _ clean_ok [OF c] t]) (simp add: ld_queue)
  from list_queue_exact [OF ld_visiting(1) d this] t show ?thesis by (auto simp: ld_ids)
qed

theorem list_visit_ends_witness:
  "\<exists>st. run_batches ld_env ld_run (supplied ld_env ld_run (ld_plan ld_run) 6 (begin_batches ld_run None (ld_log [ld_started])))
          (begin_batches ld_run None (ld_log [ld_started])) = (st, Some (Inr End_Done))
    \<and> (\<forall>i\<in>{''a'', ''b''}. id_terminal (visit_now ld_run (vs_log st)) i)"
proof -
  have d: "distinct (run_ids ld_run)" by (simp add: ld_ids)
  have n: "length (lr_items ld_run) * (unat (bs_retries (sp_batch (lr_spec ld_run))) + 2) \<le> 6"
    by (simp add: ld_run_def default_batch_def)
  from list_visit_ends [OF ld_visiting(1) d ld_clean n, of ld_env] show ?thesis by (simp add: ld_ids)
qed

theorem open_send_never_passes_witness:
  "\<exists>lg' queue'. finish_step ld_env ld_run (visit_now ld_run (ld_log [ld_started, ld_intent])) (ld_back ''a'') Succeeded []
       (Some \<lparr> ck_verdict = Some Verdict_Accept, ck_note = None, ck_kind = None \<rparr>) (ld_log [ld_started, ld_intent], [])
       = (lg', queue')
     \<and> iv_state (visit_of (visit_now ld_run lg') ''a'') \<noteq> Some Item_Passed"
proof -
  obtain lg' queue' where f: "finish_step ld_env ld_run (visit_now ld_run (ld_log [ld_started, ld_intent])) (ld_back ''a'')
      Succeeded [] (Some \<lparr> ck_verdict = Some Verdict_Accept, ck_note = None, ck_kind = None \<rparr>)
      (ld_log [ld_started, ld_intent], []) = (lg', queue')" by (metis surj_pair)
  have u: "unknown_send (ar_alive (ld_back ''a'')) (ar_now (ld_back ''a'')) (snd (ld_log [ld_started, ld_intent]))
      (n_id (lr_node ld_run)) (run_key ld_run (ar_id (ld_back ''a''))) = Some Mode_Key"
    using ld_unknown by (simp add: ld_back_def ld_log_def run_key_def)
  from open_send_never_passes [OF ld_visiting(2) u f] f show ?thesis by (auto simp: ld_back_def)
qed

theorem new_visit_parks_open_sends_witness:
  "let st = begin_batches ld_run None (open_visit ld_env ld_run (\<lambda>_. True) 0 0 (ld_log [ld_intent])) in
     iv_state (visit_of (visit_now ld_run (vs_log st)) ''a'') = Some Item_Needs_Look
     \<and> ''a'' \<notin> set (vs_queue st) \<and> ''a'' \<notin> set (batch_ids ld_run st)"
proof -
  have v: "visit_fold [ld_intent] ''l'' = None"
    using visit_fold_snoc [of "[]" ld_intent "''l''"] by (simp add: opens_visit_def ld_intent_def)
  have n: "\<not> resumes_visit ld_env ld_run (ld_log [ld_intent])" "\<not> reopens_visit ld_env ld_run (ld_log [ld_intent])"
    by (simp_all add: resumes_visit_def reopens_visit_def same_items_def ld_log_def v)
  have i: "ld_item ''a'' \<in> set (lr_items ld_run)" by (simp add: ld_run_def)
  have u: "unknown_send (\<lambda>_. True) 0 (snd (ld_log [ld_intent])) (n_id (lr_node ld_run))
      (run_key ld_run (it_id (ld_item ''a''))) \<noteq> None"
    using ld_unknown by (simp add: ld_item_def ld_log_def run_key_def)
  have d: "distinct (run_ids ld_run)" by (simp add: ld_ids)
  from new_visit_parks_open_sends [OF n d i u list_reaches.start] show ?thesis by (simp add: ld_item_def Let_def)
qed


definition ld_spec :: list_spec where
  "ld_spec = (lr_spec ld_run)\<lparr> sp_items := \<lparr> so_from = None,
     so_inline = [JObject [(''id'', JString ''a'')], JObject [(''id'', JString ''b'')]],
     so_key = ''id'', so_max_items = 100, so_filter = None \<rparr> \<rparr>"

lemma ld_ids_of: "id_of (JString ''a'') 0 = Inr ''a''" "id_of (JString ''b'') 1 = Inr ''b''"
proof -
  have t: "trim ''a'' = ''a''" "trim ''b'' = ''b''"
    by (intro trim_graphic; simp add: graphic_def in_range_def byte_def)+
  have c: "str_chars ''a'' = [97]" "str_chars ''b'' = [98]"
    by (simp_all add: str_chars_def utf8_ascii is_ascii_def byte_def)
  show "id_of (JString ''a'') 0 = Inr ''a''" "id_of (JString ''b'') 1 = Inr ''b''"
    by (simp_all add: id_of_def t c ITEM_ID_MAX_CHARS_def unsafe_id_char_def is_white_def between_def
        is_hidden_char_def is_control_def is_format_def is_ignorable_def)
qed

lemma ld_load:
  "\<exists>lo. load_items (le_json ld_env) (le_quote ld_env) (le_sha ld_env) pb s (sp_items ld_spec) None = Inr lo
    \<and> map it_id (lo_items lo) = [''a'', ''b'']"
proof -
  let ?v = "[JObject [(''id'', JString ''a'')], JObject [(''id'', JString ''b'')]]"
  have "read_values (\<lambda>s. s) (\<lambda>s. s) ''id'' ?v 0
      = Inr [make_item (\<lambda>s. s) (\<lambda>s. s) ''a'' (?v ! 0), make_item (\<lambda>s. s) (\<lambda>s. s) ''b'' (?v ! 1)]"
    using ld_ids_of by (simp add: as_object_def)
  then have "\<exists>items. items_from_values (\<lambda>s. s) (\<lambda>s. s) ?v ''id'' 100 = Inr items \<and> map it_id items = [''a'', ''b'']"
    by (simp add: items_from_values_def no_duplicates_def dup_step_def make_item_def item_hash_def strip_prefix_def
        ITEM_HASH_HEX_def Let_def)
  then show ?thesis
    by (auto simp: load_items_def ld_spec_def ld_env_def plain_items_def apply_filter_def comp_def)
qed

lemma supplied_ok:
  assumes plan: "\<And>st. distinct (vs_queue st) \<Longrightarrow> clean_input run (batch_ids run st) (plan st)"
  shows "queue_exact run st \<Longrightarrow> vs_gate st = None \<Longrightarrow> inputs_ok env run (supplied env run plan n st) st"
proof (induction n arbitrary: st)
  case (Suc n)
  have c: "clean_input run (batch_ids run st) (plan st)"
    using Suc.prems(1) by (intro plan) (simp add: queue_exact_def)
  obtain st' where t: "batch_turn env run (plan st) st = (st', None)" "vs_gate st' = None"
    using clean_turn [OF c Suc.prems(2)] by blast
  show ?case
  proof (cases "vs_queue st = []")
    case False
    show ?thesis
      using Suc.IH [OF turn_keeps(1) [OF Suc.prems(1) False clean_ok [OF c] t(1)] t(2)] clean_ok [OF c] t(1) by simp
  qed simp
qed simp

theorem list_node_settles_all_witness:
  "\<exists>run inputs lg' out. run_ids run = [''a'', ''b'']
     \<and> execute_list ld_env (plain_playbook [] []) (plain_node ''l'' (Prompt [])) ld_spec state_init None 2 None
          (\<lambda>_. True) 0 [] inputs (ld_log []) = (lg', Some (List_Finished Succeeded out))
     \<and> (\<forall>i\<in>{''a'', ''b''}. id_terminal (visit_now run lg') i)"
proof -
  obtain lo where lo: "load_items (le_json ld_env) (le_quote ld_env) (le_sha ld_env) (plain_playbook [] []) state_init
      (sp_items ld_spec) None = Inr lo" and m: "map it_id (lo_items lo) = [''a'', ''b'']"
    using ld_load [of "plain_playbook [] []" state_init] by (elim exE conjE)
  define run where "run = visit_run (plain_node ''l'' (Prompt [])) ld_spec lo 2"
  define lg where "lg = open_visit ld_env run (\<lambda>_. True) 0 (lo_filtered_out lo) (outside [] (ld_log []))"
  define st where "st = begin_batches run None lg"
  define inputs where "inputs = supplied ld_env run (ld_plan run) (total_burn run (vs_log st)) st"
  have ids: "run_ids run = [''a'', ''b'']" using m by (simp add: run_def visit_run_def run_ids_def)
  have v: "visiting run lg" unfolding lg_def by (rule open_visit_visiting)
  have q: "queue_exact run st" "vs_gate st = None"
    using begin_exact [OF v] by (simp_all add: st_def ids begin_batches_def Let_def)
  obtain st' where b: "run_batches ld_env run inputs st = (st', Some (Inr End_Done))"
    using batches_end [of run "ld_plan run", OF ld_clean q] unfolding inputs_def by blast
  have ok: "inputs_ok ld_env run inputs st" unfolding inputs_def by (rule supplied_ok [OF ld_clean q])
  have "sp_on_needs_look (lr_spec run) = Look_Continue" by (simp add: run_def visit_run_def ld_spec_def ld_run_def)
  then have fst_c: "fst (compose_list ld_env run (vs_log st')) = Succeeded" by (simp add: compose_list_def Let_def)
  have e: "execute_list ld_env (plain_playbook [] []) (plain_node ''l'' (Prompt [])) ld_spec state_init None 2 None
      (\<lambda>_. True) 0 [] inputs (ld_log [])
      = (vs_log st', Some (List_Finished Succeeded (snd (compose_list ld_env run (vs_log st')))))"
    using b by (simp add: execute_list_def lo Let_def run_def [symmetric] lg_def [symmetric] st_def [symmetric]
        list_outcome_of_def fst_c prod.case_eq_if)
  from list_node_settles_all [OF lo e _ ok [unfolded st_def lg_def run_def]] e m ids show ?thesis
    by (intro exI [of _ run] exI [of _ inputs] exI conjI) (auto simp: run_def)
qed


end
