(* ===== verification/Spec2Isabelle.thy ===== *)
theory Spec2Isabelle
  imports Civil_Clock Durations Schema Codec Graph_Util Edge_Address Event Deferral_Guard
    Event_Log Run_State Loop_Items Routing Join_Kind Liveness Join Revival Frontier Rerun
    Float64 Budget_Kind Pause_Clock Deferred Budget Quota Scc Validation
    Validate_Graph Must_Finish Fork_Region Validate_Forks Fork_Drive Send_World List_Check
begin

text \<open>
  The engine of agentic playbooks: a playbook is a graph of nodes (\<^verbatim>\<open>apb-core\<close>), and
  \<^verbatim>\<open>apb-engine\<close> drives a run of it, writing everything it decides to an append-only
  journal and reading its state back from that journal.  This development models the decisions of
  that loop: what the journal's records mean, which node runs next, when a run waits, pauses or is
  let go, and what it may spend.  Every definition is a translation of the code at the lines the
  manifest names; machine integers, doubles and the UTF-8 bytes of texts are kept at their width.

  \<^bold>\<open>How the parts interact.\<close>  A driver appends records through the event log (\<open>Event_Log\<close>),
  which guards the ones an older binary would misread (\<open>Deferral_Guard\<close>).  Each turn it folds the
  journal into the run state (\<open>Run_State\<close>), holds back what is not due (\<open>Deferred\<close>, on the clock
  of \<open>Pause_Clock\<close>), asks the budget gate (\<open>Budget\<close>), runs the node, routes past it
  (\<open>Routing\<close>, \<open>Frontier\<close>) through joins (\<open>Join_Kind\<close>, \<open>Liveness\<close>, \<open>Join\<close>), and pauses itself
  when a provider or the budget refuses (\<open>Quota\<close>).  A person re-runs a finished node through
  \<open>Rerun\<close> and \<open>Revival\<close>.

  \<^bold>\<open>Theories, and the code they model.\<close>
  \<^item> \<open>Prelude\<close>: checked and saturating words, the order of doubles, decimal and UTF-8 texts,
    trimming, finite maps, and the shared facts on lists and folds.  \<open>Float64\<close>: the doubles
    themselves, decoded, rounded to nearest even, added, multiplied and converted; the lemmas give
    the range where conversions are exact and ordered.
  \<^item> \<open>Civil_Clock\<close>, \<open>Durations\<close>, \<open>Codec\<close>: \<^verbatim>\<open>apb-core/src/clock.rs\<close>,
    \<^verbatim>\<open>duration.rs\<close> and the percent encoding of edge addresses.  Round trip of the civil
    calendar, the duration grammar, and a timestamp the parser should refuse.
  \<^item> \<open>Schema\<close>, \<open>Budget_Kind\<close>: the types of a definition (\<^verbatim>\<open>apb-core/src/schema.rs\<close>,
    \<^verbatim>\<open>isolation.rs\<close>, \<^verbatim>\<open>judge.rs\<close>, \<^verbatim>\<open>budget.rs\<close>) with their accessors, and the budget's
    vocabulary (\<^verbatim>\<open>budget/kind.rs\<close>).
  \<^item> \<open>Graph_Util\<close>, \<open>Edge_Address\<close>, \<open>Loop_Items\<close>: \<^verbatim>\<open>graphutil.rs\<close>,
    \<^verbatim>\<open>edge_address.rs\<close>, \<^verbatim>\<open>loop_items.rs\<close>.  Searches return exactly the reachable nodes, an
    address text names exactly one address, the loop's item fold stops exactly when a visit brought
    nothing new.
  \<^item> \<open>Scc\<close>: the strongly connected components of \<^verbatim>\<open>graphutil.rs\<close>, Tarjan's search
    with its two stacks.  It ends on every graph and returns exactly the classes of mutual
    reachability.
  \<^item> \<open>Validation\<close>, \<open>Validate_Graph\<close>, \<open>Must_Finish\<close>: the reports of the validator and the
    rules of \<^verbatim>\<open>validate/graph.rs\<close>.  Each rule is silent exactly when the graph has the
    property it looks for; the cycle rule looks for less than it claims; the must-analysis is at its
    fixed point before its cap, and that fixed point is exactly what is guaranteed where a barrier
    waits for every input, the optimistic reading the code documents.
  \<^item> \<open>Fork_Region\<close>, \<open>Validate_Forks\<close>, \<open>Fork_Drive\<close>: \<^verbatim>\<open>fork.rs\<close>,
    \<^verbatim>\<open>validate/forks.rs\<close>, \<^verbatim>\<open>scheduler/fork.rs\<close>.  The dominators and the branches of a fork are
    exactly those of the paths, a fork's failure policy writes off exactly what waits inside it, a
    failure that escalates leaves the fork, and recovering a half-done policy journals the missing
    decisions and writes off what still waits for one that was journaled; \<open>Flow\<close> holds the fixed-point arguments both analyses share.
  \<^item> \<open>Send_Ledger\<close>, \<open>Send_Safety\<close>: \<^verbatim>\<open>connector/intent/ledger/mod.rs\<close> and
    \<^verbatim>\<open>intent/mod.rs\<close>.  The fold of send intents, the verdict of a chain, and the admission
    of a repeat; over every journal of admitted sends (an inductive trace) two sends of a key
    under different nonces belong to two effects, the first over before the second was recorded,
    unless one is known not to have gone out.
  \<^item> \<open>Text_Mode\<close>, \<open>Send_Marker\<close>, \<open>Send_Stamp\<close>: \<^verbatim>\<open>connector/text_mode.rs\<close>,
    \<^verbatim>\<open>connector/marker.rs\<close>, \<^verbatim>\<open>intent/stamp.rs\<close>, \<^verbatim>\<open>intent/reconcile.rs\<close>.  No line of
    prepared text is a slash command, and a lookup finds an earlier send exactly when it is there,
    whatever forged markers the agent wrote.
  \<^item> \<open>Attempt_Binding\<close>, \<open>Send_Gate\<close>, \<open>Send_World\<close>: \<^verbatim>\<open>connector/call/attempt.rs\<close>,
    \<^verbatim>\<open>call/send_once.rs\<close>, \<^verbatim>\<open>call/request.rs\<close>, \<^verbatim>\<open>connector/effect.rs\<close>.  A call may send
    only as its step's current attempt or through a host task requested within it; the executions of any number of processes on one journal
    refine the ledger's traces, so concurrent gates never act twice; a person may decide exactly the
    sends shown as open.
  \<^item> \<open>Event\<close>, \<open>Deferral_Guard\<close>, \<open>Event_Log\<close>: \<^verbatim>\<open>event.rs\<close>,
    \<^verbatim>\<open>event/deferral_guard.rs\<close>, \<^verbatim>\<open>event/run_guard.rs\<close>.  Any number of handles append to
    one file under its lock (an inductive step relation); in every reachable journal sequence
    numbers rise and every checkpoint written over an open deferral is followed by its guard, so an
    older binary refuses to continue; opening repairs a guard a crash lost.
  \<^item> \<open>Run_State\<close>: \<^verbatim>\<open>state.rs\<close>, the fold of the journal with every arm that changes the
    state.  Two locales carry statements from one event to a journal: an invariant of the step, and
    a projection that evolves on its own; the counters, positions, open attempts, deferrals and the
    revival overlay are interpretations of them.
  \<^item> \<open>Routing\<close>, \<open>Join_Kind\<close>, \<open>Liveness\<close>, \<open>Join\<close>, \<open>Revival\<close>: \<^verbatim>\<open>parallel.rs\<close>,
    \<^verbatim>\<open>parallel/liveness.rs\<close>, \<^verbatim>\<open>parallel/revive.rs\<close>.  The route taken refines the documented
    rule, a join's verdict is given by its arrivals and it waits exactly for inputs a live walk can
    still reach, a revival is closed and never goes upstream.
  \<^item> \<open>Frontier\<close>, \<open>Rerun\<close>: the routing part of \<^verbatim>\<open>scheduler/node.rs\<close> and
    \<^verbatim>\<open>scheduler/revive.rs\<close>.  Advancing loses no head and counts a hop once; the state a
    re-run returns is the fold of the records it wrote, up to deferrals.
  \<^item> \<open>Pause_Clock\<close>: \<^verbatim>\<open>pause.rs\<close> and the causes of \<^verbatim>\<open>pause/cause.rs\<close>.  The active clock
    counts exactly the milliseconds at which the journal was not paused.
  \<^item> \<open>Deferred\<close>: \<^verbatim>\<open>scheduler/deferred.rs\<close>, \<^verbatim>\<open>retry_wait.rs\<close> and the admission turn of
    \<^verbatim>\<open>scheduler.rs\<close>.  A retry is due exactly after its delay of active time, a pause freezes
    it, no held node is admitted, a release leaves the run to its waker, and a run that ends writes
    every open deferral off.
  \<^item> \<open>Budget\<close>, \<open>Quota\<close>: \<^verbatim>\<open>budget/\<close>, \<^verbatim>\<open>scheduler/budget_gate.rs\<close>,
    \<^verbatim>\<open>pause/quota.rs\<close>, \<^verbatim>\<open>pause/probe.rs\<close>, \<^verbatim>\<open>pause/billing.rs\<close>.  The gate's verdict by
    class, waivers that only a person gives and that admit once, a budget pause that nothing but a
    person's change continues, and how often a node pauses for quota, which a node that requires a
    verdict miscounts.  A decision is read from the journal and appended later, with no lock across
    the two: other records may come between, and the items of a list may decide side by side.

  \<^item> \<open>Output_Contract\<close>: \<^verbatim>\<open>output_contract.rs\<close> and the gate of a script's output in
    \<^verbatim>\<open>scheduler/node.rs\<close>.  An output its contract accepts decides the edges that read its
    required fields, and the text of a refusal holds no value of the output.
  \<^item> \<open>List_Items\<close>, \<open>List_Ledger\<close>, \<open>List_Visit\<close>, \<open>List_Correct\<close>,
    \<open>List_Check\<close>: a node that runs once per item of a list, \<^verbatim>\<open>list/\<close> of \<^verbatim>\<open>apb-core\<close>,
    \<^verbatim>\<open>scheduler/list/\<close> and the paths of \<^verbatim>\<open>baseline/extract.rs\<close>.  Loaded items have
    distinct printable ids; the fold of a visit's records counts each item once and its criterion
    is met exactly when every item passed; the queue is exactly the items not yet settled; a visit
    nothing stops ends within its retries plus two turns per item; an item whose send is open never
    passes by itself and is parked; an accept comes from the check's source, or from the playbook
    where its judge gave no usable answer; no item's text leaves the data block of its prompt.

  \<^bold>\<open>Termination and bounds.\<close>  Loops over worklists are functions with a measure (nodes not yet
  seen, then the length of the queue), or recursion on the list; none has a bound the code lacks.
  Child runs are read to the code's own depth of five.  Sequence numbers and timestamps are natural
  numbers: the code counts them in 64 and 128 bits and never lets them wrap.

  \<^bold>\<open>What is a parameter.\<close>  The JSON parser, the power function of doubles, the text of a dollar
  amount, the clock, the event lock, child journals and estimate snapshots, a probe's answer and
  its classification are arguments of the definitions that use them.  For a list node, the arrivals
  of each batch's workers, the stop flags, and the replies of scripts, judges and connectors are
  arguments as well; the visit's own journal writes are taken to succeed.

  \<^bold>\<open>What is not modelled.\<close>  Threads, processes and agent adapters (\<^verbatim>\<open>scheduler.rs\<close> beyond the
  admission turn, \<^verbatim>\<open>adapter.rs\<close>), the validator's rules over opaque blocks, connectors beyond the send path, agent discovery,
  profiles and stores, decision providers, run views, supervision and patches, and the command
  line, MCP and dashboard servers: they are I/O around these decisions.  The bytes of a journal
  line, torn tails and redaction are below the level of events used here.
\<close>

end
